(* ===== verification/Prelude.thy ===== *)
theory Prelude
  imports Main "HOL-Library.Word" "HOL-Library.Sublist"
begin

text \<open>
  What every theory of the development shares: the machine types of the Rust
  sources, the error type of \<^verbatim>\<open>rdns-core/src/error.rs\<close>, the sequencing of fallible
  computations, big-endian integers (\<^verbatim>\<open>rdns-core/src/macros.rs\<close>), ASCII case folding,
  and generic lemmas on lists and words.

  Conventions. A \<^verbatim>\<open>u8\<close>, \<^verbatim>\<open>u16\<close>, \<^verbatim>\<open>u32\<close>, \<^verbatim>\<open>u64\<close> is a word of that width; a \<^verbatim>\<open>usize\<close> that
  counts or indexes octets in memory is a \<^typ>\<open>nat\<close>. A slice and a \<^verbatim>\<open>Vec\<close> are lists. A
  Rust \<^verbatim>\<open>&str\<close> whose octets the code walks is the list of its UTF-8 octets; a string that
  only names something is a \<^typ>\<open>string\<close>. \<^verbatim>\<open>Result<T, E>\<close> is \<open>'e + 'a\<close> with \<open>Inl\<close> the error.
\<close>

unbundle bit_operations_syntax

section \<open>Types\<close>

type_synonym byte = "8 word"
type_synonym u16 = "16 word"
type_synonym u32 = "32 word"
type_synonym u64 = "64 word"
type_synonym bytes = "byte list"

text \<open>\<^verbatim>\<open>WireError\<close>: the field order is the declaration's.\<close>

datatype wire_error =
    Truncated string nat nat
  | TooLong string nat nat
  | Unsupported string
  | Malformed string string

type_synonym 'a wire_result = "wire_error + 'a"

text \<open>
  The collections: \<open>wire_simps\<close> unfolds the codec's small steps, \<open>codec_simps\<close> holds the
  inverse laws of encoders and decoders.
\<close>

named_theorems wire_simps
named_theorems codec_simps

section \<open>The question mark operator\<close>

text \<open>\<open>rbind m f\<close> is \<^verbatim>\<open>let x = m?; f(x)\<close>.\<close>

fun rbind :: "'e + 'a \<Rightarrow> ('a \<Rightarrow> 'e + 'b) \<Rightarrow> 'e + 'b" where
  "rbind (Inl e) f = Inl e"
| "rbind (Inr x) f = f x"

lemma rbind_cong [fundef_cong]:
  assumes "m = m'" and "\<And>x. m' = Inr x \<Longrightarrow> f x = f' x"
  shows "rbind m f = rbind m' f'"
  using assms by (cases m') auto

lemma rbind_eq_Inr_conv:
  "rbind m f = Inr y \<longleftrightarrow> (\<exists>x. m = Inr x \<and> f x = Inr y)"
  by (cases m) auto

lemma rbind_eq_Inl_conv:
  "rbind m f = Inl e \<longleftrightarrow> m = Inl e \<or> (\<exists>x. m = Inr x \<and> f x = Inl e)"
  by (cases m) auto

lemma rbind_assoc: "rbind (rbind m f) g = rbind m (\<lambda>x. rbind (f x) g)"
  by (cases m) auto

definition is_ok :: "'e + 'a \<Rightarrow> bool" where
  "is_ok r = (case r of Inl _ \<Rightarrow> False | Inr _ \<Rightarrow> True)"

lemma is_ok_simps [simp]: "is_ok (Inl e) = False" "is_ok (Inr x) = True"
  by (simp_all add: is_ok_def)

lemma is_ok_conv: "is_ok r \<longleftrightarrow> (\<exists>x. r = Inr x)"
  by (cases r) auto

text \<open>
  A fallible routine that works on a state it leaves behind whether or not it fails, as a
  \<^verbatim>\<open>&mut self\<close> method does: \<open>sbind\<close> is the question mark there.
\<close>

type_synonym ('s, 'a) st = "'s \<Rightarrow> 'a wire_result \<times> 's"

definition sbind :: "('s, 'a) st \<Rightarrow> ('a \<Rightarrow> ('s, 'b) st) \<Rightarrow> ('s, 'b) st" where
  "sbind m f = (\<lambda>s. case m s of (Inl e, s') \<Rightarrow> (Inl e, s') | (Inr x, s') \<Rightarrow> f x s')"

definition slift :: "'a wire_result \<Rightarrow> ('s, 'a) st" where
  "slift r = (\<lambda>s. (r, s))"

lemma sbind_eq_Inr_conv:
  "sbind m f s = (Inr y, s'') \<longleftrightarrow> (\<exists>x s'. m s = (Inr x, s') \<and> f x s' = (Inr y, s''))"
  by (auto simp: sbind_def split: prod.splits sum.splits)

lemma sbind_Inr [simp]: "m s = (Inr x, s') \<Longrightarrow> sbind m f s = f x s'"
  by (simp add: sbind_def)

lemma sbind_Inl [simp]: "m s = (Inl e, s') \<Longrightarrow> sbind m f s = (Inl e, s')"
  by (simp add: sbind_def)

lemma slift_simps [simp]: "slift r s = (r, s)"
  by (simp add: slift_def)

section \<open>Decimal text\<close>

text \<open>Rust's \<^verbatim>\<open>{}\<close> and \<^verbatim>\<open>{:03}\<close> on an unsigned number, as ASCII octets.\<close>

definition digit :: "nat \<Rightarrow> byte" where
  "digit d = of_nat (48 + d)"

fun dec :: "nat \<Rightarrow> bytes" where
  "dec n = (if n < 10 then [digit n] else dec (n div 10) @ [digit (n mod 10)])"

declare dec.simps [simp del]

definition dec3 :: "byte \<Rightarrow> bytes" where
  "dec3 b = [digit (unat b div 100), digit (unat b div 10 mod 10), digit (unat b mod 10)]"

definition text_of :: "bytes \<Rightarrow> string" where
  "text_of bs = map (\<lambda>b. char_of (unat b)) bs"

definition octets :: "string \<Rightarrow> bytes" where
  "octets s = map of_char s"

definition show_nat :: "nat \<Rightarrow> string" where
  "show_nat n = text_of (dec n)"

definition is_digit :: "byte \<Rightarrow> bool" where
  "is_digit b \<longleftrightarrow> 48 \<le> b \<and> b \<le> 57"

definition digit_value :: "byte \<Rightarrow> nat" where
  "digit_value b = unat (b - 48)"

section \<open>Big-endian integers\<close>

definition be16 :: "u16 \<Rightarrow> bytes" where
  "be16 w = [ucast (drop_bit 8 w), ucast w]"

definition be32 :: "u32 \<Rightarrow> bytes" where
  "be32 w = [ucast (drop_bit 24 w), ucast (drop_bit 16 w), ucast (drop_bit 8 w), ucast w]"

definition from_be16 :: "byte \<Rightarrow> byte \<Rightarrow> u16" where
  "from_be16 a b = push_bit 8 (ucast a) OR ucast b"

definition from_be32 :: "byte \<Rightarrow> byte \<Rightarrow> byte \<Rightarrow> byte \<Rightarrow> u32" where
  "from_be32 a b c d =
     push_bit 24 (ucast a) OR push_bit 16 (ucast b) OR push_bit 8 (ucast c) OR ucast d"

text \<open>\<^verbatim>\<open>read_be!\<close> at its three widths: truncation is the caller's error.\<close>

definition read_u8 :: "bytes \<Rightarrow> (byte \<times> bytes) wire_result" where
  "read_u8 data = (if length data < 1 then Inl (Truncated ''u8'' 1 (length data))
     else Inr (data ! 0, drop 1 data))"

definition read_u16 :: "bytes \<Rightarrow> (u16 \<times> bytes) wire_result" where
  "read_u16 data = (if length data < 2 then Inl (Truncated ''u16'' 2 (length data))
     else Inr (from_be16 (data ! 0) (data ! 1), drop 2 data))"

definition read_u32 :: "bytes \<Rightarrow> (u32 \<times> bytes) wire_result" where
  "read_u32 data = (if length data < 4 then Inl (Truncated ''u32'' 4 (length data))
     else Inr (from_be32 (data ! 0) (data ! 1) (data ! 2) (data ! 3), drop 4 data))"

definition read_i32 :: "bytes \<Rightarrow> (u32 \<times> bytes) wire_result" where
  "read_i32 data = (if length data < 4 then Inl (Truncated ''i32'' 4 (length data))
     else Inr (from_be32 (data ! 0) (data ! 1) (data ! 2) (data ! 3), drop 4 data))"

lemma length_be [simp]: "length (be16 w) = 2" "length (be32 v) = 4"
  by (simp_all add: be16_def be32_def)

lemma be_nonempty [simp]: "be16 x \<noteq> []" "be32 y \<noteq> []"
  by (simp_all add: be16_def be32_def)

lemma from_be16_be16 [codec_simps]:
  "from_be16 (ucast (drop_bit 8 w)) (ucast w) = w"
  unfolding from_be16_def
  by (rule bit_eqI) (auto simp: bit_simps)

lemma from_be32_be32 [codec_simps]:
  "from_be32 (ucast (drop_bit 24 w)) (ucast (drop_bit 16 w)) (ucast (drop_bit 8 w)) (ucast w) = w"
proof (rule bit_eqI)
  fix n
  assume "possible_bit TYPE(32 word) n"
  then consider "n < 8" | "8 \<le> n" "n < 16" | "16 \<le> n" "n < 24" | "24 \<le> n" "n < 32"
    by fastforce
  then show "bit (from_be32 (ucast (drop_bit 24 w)) (ucast (drop_bit 16 w))
      (ucast (drop_bit 8 w)) (ucast w)) n = bit w n"
    by cases (auto simp: from_be32_def bit_simps)
qed

lemma read_u16_be16 [codec_simps, simp]: "read_u16 (be16 w @ rest) = Inr (w, rest)"
  by (simp add: read_u16_def be16_def from_be16_be16)

lemma read_u32_be32 [codec_simps, simp]: "read_u32 (be32 w @ rest) = Inr (w, rest)"
  by (simp add: read_u32_def be32_def from_be32_be32)

lemma read_i32_be32 [codec_simps, simp]: "read_i32 (be32 w @ rest) = Inr (w, rest)"
  by (simp add: read_i32_def be32_def from_be32_be32)

lemma read_u8_Cons [codec_simps, simp]: "read_u8 (b # rest) = Inr (b, rest)"
  by (simp add: read_u8_def)

lemma bit_byte_beyond: "8 \<le> n \<Longrightarrow> \<not> bit (b :: byte) n"
  using bit_imp_le_length [of b n] by auto

lemma bit_int_masks: "bit (0xff :: int) n \<longleftrightarrow> n < 8" "bit (0x8000 :: int) n \<longleftrightarrow> n = 15"
proof -
  have "(0xff :: int) = mask 8" "(0x8000 :: int) = 2 ^ 15" by (simp_all add: mask_eq_exp_minus_1)
  then show "bit (0xff :: int) n \<longleftrightarrow> n < 8" "bit (0x8000 :: int) n \<longleftrightarrow> n = 15"
    by (simp_all only: bit_mask_iff bit_exp_iff) auto
qed

lemma and_bit_byte:
  fixes w :: byte
  shows "w AND 0x80 = 0x80 \<longleftrightarrow> bit w 7" "w AND 0x20 = 0x20 \<longleftrightarrow> bit w 5" "w AND 0x10 = 0x10 \<longleftrightarrow> bit w 4"
    "w AND 0x04 = 0x04 \<longleftrightarrow> bit w 2" "w AND 0x02 = 0x02 \<longleftrightarrow> bit w 1" "w AND 0x01 = 0x01 \<longleftrightarrow> bit w 0"
    "w AND 0x02 \<noteq> 0 \<longleftrightarrow> bit w 1"
proof -
  have *: "w AND push_bit k 1 = push_bit k 1 \<longleftrightarrow> bit w k" if "k < 8" for k
    using that by (auto simp: bit_eq_iff [where 'a = byte] bit_simps)
  have **: "w AND push_bit k 1 \<noteq> 0 \<longleftrightarrow> bit w k" if "k < 8" for k
    using that by (auto simp: bit_eq_iff [where 'a = byte] bit_simps)
  show "w AND 0x80 = 0x80 \<longleftrightarrow> bit w 7" using * [of 7] by simp
  show "w AND 0x20 = 0x20 \<longleftrightarrow> bit w 5" using * [of 5] by simp
  show "w AND 0x10 = 0x10 \<longleftrightarrow> bit w 4" using * [of 4] by simp
  show "w AND 0x04 = 0x04 \<longleftrightarrow> bit w 2" using * [of 2] by simp
  show "w AND 0x02 = 0x02 \<longleftrightarrow> bit w 1" using * [of 1] by simp
  show "w AND 0x01 = 0x01 \<longleftrightarrow> bit w 0" using * [of 0] by simp
  show "w AND 0x02 \<noteq> 0 \<longleftrightarrow> bit w 1" using ** [of 1] by simp
qed

lemma bit_nibble: "bit (0xf :: int) n \<longleftrightarrow> n < 4"
proof -
  have "(0xf :: int) = mask 4" by (simp add: mask_eq_exp_minus_1)
  then show ?thesis by (simp only: bit_mask_iff) auto
qed

lemma bit_flag: "k < 8 \<Longrightarrow> bit (push_bit k (of_bool r) :: byte) n \<longleftrightarrow> n = k \<and> r"
  by (auto simp: bit_simps)

lemma be16_from_be16: "be16 (from_be16 a b) = [a, b]"
  unfolding be16_def from_be16_def
  by (auto intro!: bit_eqI simp: bit_simps bit_byte_beyond)

lemma be16_split:
  assumes "2 \<le> length bs"
  obtains c rest where "bs = be16 c @ rest"
proof -
  from assms obtain a b rest where "bs = [a, b] @ rest"
    by (cases bs; cases "tl bs") auto
  then show ?thesis using that [of "from_be16 a b" rest] by (simp add: be16_from_be16)
qed

lemma be32_from_be32: "be32 (from_be32 a b c d) = [a, b, c, d]"
  unfolding be32_def from_be32_def
  by (auto intro!: bit_eqI simp: bit_simps bit_byte_beyond)

section \<open>ASCII case\<close>

text \<open>\<^verbatim>\<open>u8::is_ascii_uppercase\<close>, \<^verbatim>\<open>u8::to_ascii_lowercase\<close> and \<^verbatim>\<open>[u8]::eq_ignore_ascii_case\<close>.\<close>

definition is_upper :: "byte \<Rightarrow> bool" where
  "is_upper b \<longleftrightarrow> 65 \<le> b \<and> b \<le> 90"

definition to_lower :: "byte \<Rightarrow> byte" where
  "to_lower b = (if is_upper b then b + 32 else b)"

definition lower :: "bytes \<Rightarrow> bytes" where
  "lower = map to_lower"

definition eq_ignore_case :: "bytes \<Rightarrow> bytes \<Rightarrow> bool" where
  "eq_ignore_case a b \<longleftrightarrow> length a = length b \<and> list_all2 (\<lambda>x y. to_lower x = to_lower y) a b"

lemma lower_simps [simp]:
  "lower [] = []" "lower (b # bs) = to_lower b # lower bs" "lower (xs @ ys) = lower xs @ lower ys"
  "length (lower xs) = length xs"
  by (simp_all add: lower_def)

lemma eq_ignore_case_lower: "eq_ignore_case a b \<longleftrightarrow> lower a = lower b"
  unfolding eq_ignore_case_def lower_def
  by (auto simp: list_all2_conv_all_nth list_eq_iff_nth_eq)

lemma is_upper_to_lower [simp]: "\<not> is_upper (to_lower b)"
proof (cases "is_upper b")
  case True
  then have "65 \<le> unat b" "unat b \<le> 90"
    by (simp_all add: is_upper_def word_le_nat_alt)
  moreover then have "unat (b + 32) = unat b + 32"
    by (simp add: unat_word_ariths)
  ultimately show ?thesis
    by (simp add: to_lower_def True) (simp add: is_upper_def word_le_nat_alt)
qed (simp add: to_lower_def)

lemma to_lower_idem [simp]: "to_lower (to_lower b) = to_lower b"
  by (simp add: to_lower_def [of "to_lower b"])

lemma lower_idem [simp]: "lower (lower xs) = lower xs"
  by (simp add: lower_def)

lemma lower_id: "\<not> list_ex is_upper xs \<Longrightarrow> lower xs = xs"
  by (induction xs) (auto simp: to_lower_def)

lemma to_lower_small: "unat b \<le> 64 \<Longrightarrow> to_lower b = b"
  by (simp add: to_lower_def is_upper_def word_le_nat_alt)

lemma to_lower_eq_small: "unat b \<le> 64 \<Longrightarrow> to_lower a = b \<Longrightarrow> a = b"
proof -
  assume b: "unat b \<le> 64" and eq: "to_lower a = b"
  show "a = b"
  proof (cases "is_upper a")
    case True
    then have "65 \<le> unat a" "unat a \<le> 90"
      by (simp_all add: is_upper_def word_le_nat_alt)
    moreover then have "unat (a + 32) = unat a + 32"
      by (simp add: unat_word_ariths)
    ultimately show ?thesis using b eq True by (simp add: to_lower_def)
  qed (use eq in \<open>simp add: to_lower_def\<close>)
qed

section \<open>Lists and words\<close>

lemma unat_of_nat_byte: "n < 256 \<Longrightarrow> unat (of_nat n :: byte) = n"
  by (simp add: unat_of_nat)

lemma unat_byte_less: "unat (b :: byte) < 256"
  using unsigned_less [of b] by simp

lemma unat_of_nat_u16: "n \<le> 65535 \<Longrightarrow> unat (of_nat n :: u16) = n"
  by (simp add: unat_of_nat take_bit_eq_mod)

lemma unat_u16_less: "unat (w :: u16) < 65536"
  using unsigned_less [of w] by (simp only: len_num1 len_bit0 len_num0) simp

lemma of_nat_unat_byte [simp]: "(of_nat (unat b) :: byte) = b"
  by simp

lemma take_length_append [simp]: "take (length xs) (xs @ ys) = xs"
  by simp

lemma drop_length_append [simp]: "drop (length xs) (xs @ ys) = ys"
  by simp

text \<open>\<open>seg xs a b\<close> (a segment) is \<^verbatim>\<open>xs[a..b]\<close> of a range that is in bounds.\<close>

definition seg :: "'a list \<Rightarrow> nat \<Rightarrow> nat \<Rightarrow> 'a list" where
  "seg xs a b = take (b - a) (drop a xs)"

lemma length_seg: "a \<le> b \<Longrightarrow> b \<le> length xs \<Longrightarrow> length (seg xs a b) = b - a"
  by (simp add: seg_def)

lemma seg_append_left: "b \<le> length xs \<Longrightarrow> seg (xs @ ys) a b = seg xs a b"
  by (simp add: seg_def)

lemma seg_append_exact [simp]:
  "seg (xs @ ys @ zs) (length xs) (length xs + length ys) = ys"
  by (simp add: seg_def)

lemma seg_full [simp]: "seg xs 0 (length xs) = xs"
  by (simp add: seg_def)

lemma seg_to_end: "seg xs a (length xs) = drop a xs"
  by (simp add: seg_def)

end
