(* ===== verification/Labels.thy ===== *)
theory Labels
  imports Prelude
begin

text \<open>
  What a domain name \<^emph>\<open>is\<close>, apart from how the code holds it: a list of labels, each of 1
  to 63 octets. \<open>wire_of\<close> is RFC 1035's uncompressed encoding, the abstraction function
  runs the other way, and the facts here say that the encoding is injective, prefix-free
  and compatible with ASCII case folding. The codec theories relate every routine of
  \<^verbatim>\<open>dname.rs\<close>, \<^verbatim>\<open>name.rs\<close> and \<^verbatim>\<open>compression.rs\<close> to these definitions.
\<close>

section \<open>Labels and their encoding\<close>

definition label_ok :: "bytes \<Rightarrow> bool" where
  "label_ok l \<longleftrightarrow> 1 \<le> length l \<and> length l \<le> 63"

definition labels_ok :: "bytes list \<Rightarrow> bool" where
  "labels_ok ls \<longleftrightarrow> list_all label_ok ls"

fun wire_labels :: "bytes list \<Rightarrow> bytes" where
  "wire_labels [] = []"
| "wire_labels (l # ls) = of_nat (length l) # l @ wire_labels ls"

definition wire_of :: "bytes list \<Rightarrow> bytes" where
  "wire_of ls = wire_labels ls @ [0]"

text \<open>The invariant of \<^verbatim>\<open>Name\<close> and \<^verbatim>\<open>NameRef\<close>.\<close>

definition wf_name :: "bytes \<Rightarrow> bool" where
  "wf_name w \<longleftrightarrow> (\<exists>ls. labels_ok ls \<and> w = wire_of ls) \<and> length w \<le> 255"

lemma labels_ok_simps [simp]:
  "labels_ok []" "labels_ok (l # ls) \<longleftrightarrow> label_ok l \<and> labels_ok ls"
  "labels_ok (xs @ ys) \<longleftrightarrow> labels_ok xs \<and> labels_ok ys"
  by (simp_all add: labels_ok_def)

lemma label_okD:
  assumes "label_ok l"
  shows "l \<noteq> []" and "length l < 256" and "unat (of_nat (length l) :: byte) = length l"
    and "(of_nat (length l) :: byte) \<noteq> 0"
proof -
  from assms show "l \<noteq> []" and lt: "length l < 256"
    by (auto simp: label_ok_def)
  then show u: "unat (of_nat (length l) :: byte) = length l"
    by (simp add: unat_of_nat_byte)
  show "(of_nat (length l) :: byte) \<noteq> 0"
  proof
    assume "(of_nat (length l) :: byte) = 0"
    then have "length l = 0" using u by simp
    then show False using assms by (simp add: label_ok_def)
  qed
qed

lemma wire_labels_append [simp]: "wire_labels (xs @ ys) = wire_labels xs @ wire_labels ys"
  by (induction xs) auto

lemma wire_of_simps [simp]:
  "wire_of [] = [0]" "wire_of (l # ls) = of_nat (length l) # l @ wire_of ls"
  by (simp_all add: wire_of_def)

lemma wire_of_append: "wire_of (xs @ ys) = wire_labels xs @ wire_of ys"
  by (simp add: wire_of_def)

lemma wire_of_nonempty [simp]: "wire_of ls \<noteq> []"
  by (simp add: wire_of_def)

lemma wire_labels_eq_Nil [simp]: "wire_labels ls = [] \<longleftrightarrow> ls = []"
  by (cases ls) auto

lemma length_wire_of: "length (wire_of ls) = length (wire_labels ls) + 1"
  by (simp add: wire_of_def)

lemma length_wire_labels: "length (wire_labels ls) = (\<Sum>l\<leftarrow>ls. length l + 1)"
  by (induction ls) auto

lemma length_labels_le_wire: "length ls \<le> length (wire_labels ls)"
  by (induction ls) auto

lemma length_wire_ge2:
  "labels_ok ls \<Longrightarrow> 2 * length ls \<le> length (wire_labels ls)"
  by (induction ls) (auto simp: label_ok_def)

text \<open>The encoding is prefix-free, hence injective.\<close>

lemma wire_of_prefix_free:
  assumes "labels_ok ls" and "labels_ok ks" and "wire_of ls @ r = wire_of ks @ s"
  shows "ls = ks \<and> r = s"
  using assms
proof (induction ls arbitrary: ks)
  case Nil
  then show ?case
    by (cases ks) (auto dest: label_okD)
next
  case (Cons l ls)
  show ?case
  proof (cases ks)
    case Nil
    with Cons.prems show ?thesis by (auto dest: label_okD)
  next
    case [simp]: (Cons k ks')
    from Cons.prems have lk: "label_ok l" "label_ok k"
      and eq: "(of_nat (length l) :: byte) = of_nat (length k)"
      by simp_all
    have "length l = length k"
      using arg_cong [OF eq, of unat]
      unfolding label_okD(3) [OF lk(1)] label_okD(3) [OF lk(2)] .
    with Cons.prems have "l = k" and "wire_of ls @ r = wire_of ks' @ s"
      by auto
    with Cons.IH [of ks'] Cons.prems show ?thesis by simp
  qed
qed

lemma wire_of_inj: "labels_ok ls \<Longrightarrow> labels_ok ks \<Longrightarrow> wire_of ls = wire_of ks \<Longrightarrow> ls = ks"
  using wire_of_prefix_free [of ls ks "[]" "[]"] by simp

text \<open>
  The length of a proper suffix says which suffix it is: two suffixes of one list of labels
  with encodings of the same length are the same.
\<close>

lemma wire_suffix_length_inj:
  assumes "suffix xs ls" and "suffix ys ls" and "length (wire_of xs) = length (wire_of ys)"
  shows "xs = ys"
proof -
  from assms(1,2) have "suffix xs ys \<or> suffix ys xs"
    by (rule suffix_same_cases)
  moreover have "as = bs" if "suffix as bs" "length (wire_of as) = length (wire_of bs)" for as bs
  proof -
    from that(1) obtain zs where "bs = zs @ as" by (auto simp: suffix_def)
    with that(2) show ?thesis by (simp add: wire_of_append length_wire_of)
  qed
  ultimately show ?thesis using assms(3) by metis
qed

section \<open>Case folding\<close>

lemma label_ok_lower [simp]: "label_ok (lower l) = label_ok l"
  by (simp add: label_ok_def)

lemma labels_ok_lower [simp]: "labels_ok (map lower ls) = labels_ok ls"
  by (induction ls) auto

lemma lower_length_octet: "label_ok l \<Longrightarrow> to_lower (of_nat (length l)) = of_nat (length l)"
  by (rule to_lower_small) (auto simp: label_okD(3) label_ok_def)

lemma lower_wire_labels: "labels_ok ls \<Longrightarrow> lower (wire_labels ls) = wire_labels (map lower ls)"
  by (induction ls) (auto simp: lower_length_octet)

lemma lower_wire_of: "labels_ok ls \<Longrightarrow> lower (wire_of ls) = wire_of (map lower ls)"
  by (simp add: wire_of_def lower_wire_labels to_lower_small)

lemma wf_name_wire_of [simp]:
  "labels_ok ls \<Longrightarrow> wf_name (wire_of ls) \<longleftrightarrow> length (wire_of ls) \<le> 255"
  by (auto simp: wf_name_def)

lemma wf_nameE:
  assumes "wf_name w"
  obtains ls where "labels_ok ls" "w = wire_of ls" "length (wire_of ls) \<le> 255"
  using assms by (auto simp: wf_name_def)

lemma length_wire_of_lower [simp]: "length (wire_of (map lower ls)) = length (wire_of ls)"
  by (induction ls) auto

lemma wf_name_lower: "wf_name w \<Longrightarrow> wf_name (lower w)"
  by (elim wf_nameE) (simp add: lower_wire_of)

text \<open>Names compare equal exactly when their labels do, pairwise and case-folded.\<close>

lemma lower_wire_of_eq:
  assumes "labels_ok ls" and "labels_ok ks"
  shows "lower (wire_of ls) = lower (wire_of ks) \<longleftrightarrow> map lower ls = map lower ks"
  using assms by (metis labels_ok_lower lower_wire_of wire_of_inj)

lemma map_lower_idem [simp]: "map lower (map lower ls) = map lower ls"
  by (induction ls) auto

end
