(* ===== verification/DName.thy ===== *)
theory DName
  imports Labels
begin

text \<open>
  \<^verbatim>\<open>rdns-core/src/dname.rs\<close>: a name as a message spells it. Labels are read off the octets,
  compression pointers (RFC 1035 4.1.4) are followed against the whole message, and the
  255-octet limit of RFC 1035 2.3.4 is held. The specification is the inductive predicate
  \<open>reads\<close>: what a sequence of octets, in a message, says as a list of labels and how many
  pointers were followed. The main theorem is that the decoder returns exactly what
  \<open>reads\<close> allows, within the two limits the code sets.
\<close>

section \<open>The code\<close>

definition POINTER_TAG :: u16 where "POINTER_TAG = 0xc000"
definition POINTER_MASK :: u16 where "POINTER_MASK = 0x3fff"
definition MAX_LABEL_LEN :: nat where "MAX_LABEL_LEN = 63"
definition MAX_NAME_LEN :: nat where "MAX_NAME_LEN = 255"
definition MAX_DEPTH :: nat where "MAX_DEPTH = 50"
definition usize_MAX :: nat where "usize_MAX = 2 ^ 64 - 1"

definition check_name_len :: "nat \<Rightarrow> unit wire_result" where
  "check_name_len encoded =
     (if encoded > MAX_NAME_LEN then Inl (TooLong ''a domain name'' MAX_NAME_LEN encoded)
      else Inr ())"

datatype label = LString bytes | LPointer nat | LRoot

fun label_len :: "label \<Rightarrow> nat" where
  "label_len (LString s) = length s + 1"
| "label_len (LPointer _) = 2"
| "label_len LRoot = 1"

definition label_try_from_bytes :: "bytes \<Rightarrow> label wire_result" where
  "label_try_from_bytes data =
     (case data of [] \<Rightarrow> Inl (Truncated ''a label'' 1 0)
      | first # _ \<Rightarrow>
        let lt = drop_bit 6 first; len = unat (first AND 0x3f) in
        if lt = 0 then
          (if len = 0 then Inr LRoot
           else if length data \<le> len then Inl (Truncated ''a label'' len (length data - 1))
           else Inr (LString (seg data 1 (len + 1))))
        else if lt = 3 then
          (if length data < 2 then Inl (Truncated ''a compression pointer'' 2 (length data))
           else Inr (LPointer (unat (from_be16 (data ! 0) (data ! 1) AND POINTER_MASK))))
        else if lt = 1 then
          (if first = 0x41 then Inl (Unsupported ''a binary label'')
           else if first = 0x7f then Inl (Unsupported ''the reserved extended label type'')
           else Inl (Malformed ''a label'' ''unknown extended label type''))
        else Inl (Malformed ''a label'' ''unknown label type''))"

record dname =
  encoded :: bytes
  compressed :: bool

text \<open>The iterator \<^verbatim>\<open>DName::labels\<close>, over the octets still to walk.\<close>

function dname_labels :: "bytes \<Rightarrow> label wire_result list" where
  "dname_labels rest =
     (if rest = [] then []
      else case label_try_from_bytes rest of
          Inr l \<Rightarrow> Inr l # dname_labels (drop (label_len l) rest)
        | Inl e \<Rightarrow> [Inl e])"
  by pat_completeness auto

lemma label_len_pos [simp]: "0 < label_len l"
  by (cases l) auto

termination dname_labels
  by (relation "measure length") auto

definition dname_to_wire :: "dname \<Rightarrow> bytes wire_result" where
  "dname_to_wire n = rbind (check_name_len (length (encoded n))) (\<lambda>_. Inr (encoded n))"

text \<open>The loop of \<^verbatim>\<open>DName::try_from_bytes\<close>: where the name ends, and whether in a pointer.\<close>

function dname_scan :: "bytes \<Rightarrow> nat \<Rightarrow> (nat \<times> bool) wire_result" where
  "dname_scan data len =
     rbind (label_try_from_bytes (drop len data))
       (\<lambda>lbl. case lbl of
            LString _ \<Rightarrow> dname_scan data (len + label_len lbl)
          | LPointer _ \<Rightarrow> Inr (len + label_len lbl, True)
          | LRoot \<Rightarrow> Inr (len + label_len lbl, False))"
  by pat_completeness auto

lemma label_try_Nil [simp]:
  "label_try_from_bytes [] = Inl (Truncated ''a label'' 1 0)"
  by (simp add: label_try_from_bytes_def)

termination dname_scan
proof (relation "measure (\<lambda>(data, len). length data - len)")
  fix data len lbl s
  assume "label_try_from_bytes (drop len data) = Inr lbl"
  then have "len < length data"
    by (cases "len < length data") auto
  then show "((data, len + label_len lbl), data, len) \<in> measure (\<lambda>(data, len). length data - len)"
    using label_len_pos [of lbl] by (simp add: diff_less_mono2)
qed auto

definition dname_try_from_bytes :: "bytes \<Rightarrow> (dname \<times> bytes) wire_result" where
  "dname_try_from_bytes data =
     rbind (dname_scan data 0)
       (\<lambda>(len, comp). Inr (\<lparr>encoded = take len data, compressed = comp\<rparr>, drop len data))"

definition unpacked_new :: "label list \<Rightarrow> label list wire_result" where
  "unpacked_new labels =
     rbind (check_name_len (sum_list (map label_len labels) + 1)) (\<lambda>_. Inr labels)"

fun collect :: "label wire_result list \<Rightarrow> label list wire_result" where
  "collect [] = Inr []"
| "collect (r # rs) = rbind r (\<lambda>l. rbind (collect rs) (\<lambda>ls. Inr (l # ls)))"

text \<open>
  \<^verbatim>\<open>DNameUnpacker::unpack_internal\<close> and its loop over the labels of one name. The second
  function is the \<^verbatim>\<open>for\<close> loop: the labels still to read, then what has been gathered. The
  recursion ends because each target precedes the one before.
\<close>

function unpack_internal :: "bytes \<Rightarrow> dname \<Rightarrow> nat \<Rightarrow> nat \<Rightarrow> label list wire_result"
  and unpack_loop :: "bytes \<Rightarrow> label wire_result list \<Rightarrow> nat \<Rightarrow> nat \<Rightarrow> label list \<Rightarrow> label list wire_result"
where
  "unpack_internal data name depth prev_target =
     (if depth > MAX_DEPTH
      then Inl (TooLong ''compression pointer nesting'' MAX_DEPTH (MAX_DEPTH + 1))
      else if \<not> compressed name then
        rbind (collect (dname_labels (encoded name)))
          (\<lambda>labels. unpacked_new
             (if labels \<noteq> [] \<and> last labels = LRoot then butlast labels else labels))
      else unpack_loop data (dname_labels (encoded name)) depth prev_target [])"
| "unpack_loop data labels depth prev_target out =
     (case labels of [] \<Rightarrow> unpacked_new out
      | r # rs \<Rightarrow> rbind r
          (\<lambda>l. case l of
               LString s \<Rightarrow> unpack_loop data rs depth prev_target (out @ [LString s])
             | LPointer offset \<Rightarrow>
                 if offset \<ge> length data then
                   Inl (Malformed ''a compression pointer''
                     (''offset '' @ show_nat offset @ '' is past the '' @
                      show_nat (length data) @ ''-byte message''))
                 else if offset \<ge> prev_target then
                   Inl (Malformed ''a compression pointer''
                     (''offset '' @ show_nat offset @
                      '' does not precede the previous target '' @ show_nat prev_target))
                 else rbind (dname_try_from_bytes (drop offset data))
                   (\<lambda>(name, _). rbind (unpack_internal data name (depth + 1) offset)
                     (\<lambda>unpacked. unpack_loop data rs depth prev_target (out @ unpacked)))
             | LRoot \<Rightarrow> unpacked_new out))"
  by pat_completeness auto
termination
  by (relation "measures
       [\<lambda>x. case x of Inl (data, name, depth, prev) \<Rightarrow> prev
                   | Inr (data, ls, depth, prev, out) \<Rightarrow> prev,
        \<lambda>x. case x of Inl _ \<Rightarrow> 1 | Inr _ \<Rightarrow> 0,
        \<lambda>x. case x of Inl _ \<Rightarrow> 0 | Inr (data, ls, depth, prev, out) \<Rightarrow> length ls]")
    auto

definition unpack :: "bytes \<Rightarrow> dname \<Rightarrow> label list wire_result" where
  "unpack data name = unpack_internal data name 0 usize_MAX"

fun unpacked_to_wire :: "label list \<Rightarrow> bytes \<Rightarrow> bytes wire_result" where
  "unpacked_to_wire [] out = Inr (out @ [0])"
| "unpacked_to_wire (LString s # ls) out = unpacked_to_wire ls (out @ of_nat (length s) # s)"
| "unpacked_to_wire (LRoot # ls) out = Inr (out @ [0])"
| "unpacked_to_wire (LPointer _ # ls) out =
     Inl (Malformed ''a domain name'' ''an unpacked name may not contain a compression pointer'')"

definition decode_wire :: "bytes \<Rightarrow> dname \<Rightarrow> bytes wire_result" where
  "decode_wire data name =
     (if compressed name then rbind (unpack data name) (\<lambda>u. unpacked_to_wire u [])
      else dname_to_wire name)"

definition name_wire_from_bytes :: "bytes \<Rightarrow> (bytes \<times> bytes) wire_result" where
  "name_wire_from_bytes data =
     rbind (dname_try_from_bytes data)
       (\<lambda>(name, rest).
          if compressed name then
            Inl (Malformed ''a domain name''
              ''a compression pointer needs the message it points into'')
          else rbind (dname_to_wire name) (\<lambda>w. Inr (w, rest)))"

definition name_wire_from_bytes_in :: "bytes \<Rightarrow> bytes \<Rightarrow> (bytes \<times> bytes) wire_result" where
  "name_wire_from_bytes_in data message =
     rbind (dname_try_from_bytes data)
       (\<lambda>(name, rest). rbind (decode_wire message name) (\<lambda>w. Inr (w, rest)))"

function skip_uncompressed_loop :: "bytes \<Rightarrow> nat \<Rightarrow> bytes option" where
  "skip_uncompressed_loop data pos =
     (if pos < length data then
        (let len = data ! pos in
         if len AND 0xc0 \<noteq> 0 then None
         else if len = 0 then Some (drop (pos + 1) data)
         else skip_uncompressed_loop data (pos + 1 + unat len))
      else None)"
  by pat_completeness auto
termination
  by (relation "measure (\<lambda>(data, pos). length data - pos)") auto

definition skip_uncompressed_name :: "bytes \<Rightarrow> bytes option" where
  "skip_uncompressed_name data = skip_uncompressed_loop data 0"

declare dname_labels.simps [simp del] dname_scan.simps [simp del]
  unpack_internal.simps [simp del] unpack_loop.simps [simp del]
  skip_uncompressed_loop.simps [simp del]

section \<open>One label\<close>

definition ptr_target :: "byte \<Rightarrow> byte \<Rightarrow> nat" where
  "ptr_target hi lo = unat (from_be16 hi lo AND POINTER_MASK)"

lemma byte_high_bits: "unat (drop_bit 6 (b :: byte)) = unat b div 64"
  by (simp only: drop_bit_eq_div unat_div) simp

lemma byte_low_bits: "unat ((b :: byte) AND 0x3f) = unat b mod 64"
proof -
  have "(0x3f :: byte) = mask 6" by (simp add: mask_eq_exp_minus_1)
  then have "b AND 0x3f = take_bit 6 b" by (simp add: take_bit_eq_mask)
  then show ?thesis by (simp add: unat_mod take_bit_eq_mod)
qed

lemma byte_kind_conv:
  "drop_bit 6 (b :: byte) = 0 \<longleftrightarrow> unat b < 64"
  "drop_bit 6 (b :: byte) = 3 \<longleftrightarrow> 192 \<le> unat b"
proof -
  have "drop_bit 6 b = k \<longleftrightarrow> unat b div 64 = unat k" for k :: byte
    by (metis byte_high_bits word_unat_eq_iff)
  from this [of 0] this [of 3] unat_byte_less [of b]
  show "drop_bit 6 b = 0 \<longleftrightarrow> unat b < 64" "drop_bit 6 b = 3 \<longleftrightarrow> 192 \<le> unat b"
    by (auto simp: div_eq_0_iff)
qed

text \<open>A label never claims more octets than there are: no slice below is out of range.\<close>

lemma label_try_fits: "label_try_from_bytes data = Inr l \<Longrightarrow> label_len l \<le> length data"
  by (auto simp: label_try_from_bytes_def Let_def seg_def not_less Suc_le_eq
      split: list.splits if_splits)

lemma label_try_root [simp]: "label_try_from_bytes (0 # rest) = Inr LRoot"
  by (simp add: label_try_from_bytes_def)

lemma label_try_string [simp]:
  assumes "label_ok l"
  shows "label_try_from_bytes (of_nat (length l) # l @ rest) = Inr (LString l)"
proof -
  let ?b = "of_nat (length l) :: byte"
  have u: "unat ?b = length l" and "length l < 64" "0 < length l"
    using assms label_okD [OF assms] by (auto simp: label_ok_def)
  then have "drop_bit 6 ?b = 0" and "unat (?b AND 0x3f) = length l"
    by (simp_all add: byte_kind_conv byte_low_bits)
  then show ?thesis
    using \<open>0 < length l\<close> by (simp add: label_try_from_bytes_def seg_def)
qed

lemma label_try_pointer [simp]:
  assumes "192 \<le> unat hi"
  shows "label_try_from_bytes (hi # lo # rest) = Inr (LPointer (ptr_target hi lo))"
proof -
  have "drop_bit 6 hi = 3" using assms by (simp add: byte_kind_conv)
  then show ?thesis by (simp add: label_try_from_bytes_def ptr_target_def)
qed

lemma label_try_cases:
  assumes "label_try_from_bytes data = Inr l"
  obtains (Root) rest where "data = 0 # rest" "l = LRoot"
    | (String) s rest where "label_ok s" "data = of_nat (length s) # s @ rest" "l = LString s"
    | (Pointer) hi lo rest where "192 \<le> unat hi" "data = hi # lo # rest"
        "l = LPointer (ptr_target hi lo)"
proof (cases data)
  case Nil
  with assms show ?thesis by simp
next
  case (Cons b bs)
  consider "unat b = 0" | "0 < unat b" "unat b < 64" | "192 \<le> unat b"
    | "64 \<le> unat b" "unat b < 192"
    by linarith
  then show ?thesis
  proof cases
    case 1
    then have "b = 0" by (simp add: unat_eq_zero)
    with Cons assms Root show ?thesis by simp
  next
    case 2
    then have "drop_bit 6 b = 0" and len: "unat (b AND 0x3f) = unat b"
      by (simp_all add: byte_kind_conv byte_low_bits)
    with assms Cons 2 have le: "unat b \<le> length bs" and l: "l = LString (take (unat b) bs)"
      by (auto simp: label_try_from_bytes_def seg_def Let_def split: if_splits)
    have "data = of_nat (length (take (unat b) bs)) # take (unat b) bs @ drop (unat b) bs"
      using Cons le by simp
    moreover have "label_ok (take (unat b) bs)"
      using 2 le by (simp add: label_ok_def)
    ultimately show ?thesis using String l by blast
  next
    case 3
    then have "drop_bit 6 b = 3" by (simp add: byte_kind_conv)
    with assms Cons obtain lo rest where "bs = lo # rest"
      by (cases bs) (auto simp: label_try_from_bytes_def)
    with 3 Cons assms Pointer show ?thesis by simp
  next
    case 4
    then have "drop_bit 6 b \<noteq> 0" "drop_bit 6 b \<noteq> 3"
      by (simp_all add: byte_kind_conv)
    with assms Cons show ?thesis
      by (auto simp: label_try_from_bytes_def Let_def split: if_splits)
  qed
qed

section \<open>One name, not yet unpacked\<close>

text \<open>How a name can end: the root octet, or a pointer's two.\<close>

datatype tail = TRoot | TPointer byte byte

fun tail_bytes :: "tail \<Rightarrow> bytes" where
  "tail_bytes TRoot = [0]"
| "tail_bytes (TPointer hi lo) = [hi, lo]"

fun tail_ok :: "tail \<Rightarrow> bool" where
  "tail_ok TRoot = True"
| "tail_ok (TPointer hi lo) \<longleftrightarrow> 192 \<le> unat hi"

fun tail_ptr :: "tail \<Rightarrow> bool" where
  "tail_ptr TRoot = False"
| "tail_ptr (TPointer hi lo) = True"

fun tail_label :: "tail \<Rightarrow> label" where
  "tail_label TRoot = LRoot"
| "tail_label (TPointer hi lo) = LPointer (ptr_target hi lo)"

lemma label_try_tail [simp]:
  "tail_ok t \<Longrightarrow> label_try_from_bytes (tail_bytes t @ rest) = Inr (tail_label t)"
  by (cases t) auto

lemma label_len_tail [simp]: "label_len (tail_label t) = length (tail_bytes t)"
  by (cases t) auto

lemma dname_scan_wire:
  assumes "labels_ok ls" and "tail_ok t"
  shows "dname_scan (pre @ wire_labels ls @ tail_bytes t @ rest) (length pre) =
     Inr (length pre + length (wire_labels ls) + length (tail_bytes t), tail_ptr t)"
  using assms(1)
proof (induction ls arbitrary: pre)
  case Nil
  then show ?case
    by (subst dname_scan.simps) (use assms(2) in \<open>cases t; simp\<close>)
next
  case (Cons l ls)
  from Cons.IH [of "pre @ of_nat (length l) # l"] Cons.prems
  show ?case by (subst dname_scan.simps) simp
qed

lemma dname_scan_sound:
  assumes "dname_scan data len = Inr (n, c)" and "len \<le> length data"
  shows "\<exists>ls t rest. labels_ok ls \<and> tail_ok t \<and> drop len data = wire_labels ls @ tail_bytes t @ rest \<and>
     n = len + length (wire_labels ls) + length (tail_bytes t) \<and> c = tail_ptr t"
  using assms
proof (induction data len arbitrary: n c rule: dname_scan.induct)
  case (1 data len)
  from "1.prems"(1) obtain l where l: "label_try_from_bytes (drop len data) = Inr l"
    by (subst (asm) dname_scan.simps) (auto simp: rbind_eq_Inr_conv)
  from l show ?case
  proof (cases rule: label_try_cases)
    case (Root rest)
    with "1.prems" l have "n = len + 1" "c = False"
      by (subst (asm) dname_scan.simps, simp)+
    with Root show ?thesis
      by (intro exI [of _ "[]"] exI [of _ TRoot] exI [of _ rest]) simp
  next
    case (Pointer hi lo rest)
    with "1.prems" l have "n = len + 2" "c = True"
      by (subst (asm) dname_scan.simps, simp)+
    with Pointer show ?thesis
      by (intro exI [of _ "[]"] exI [of _ "TPointer hi lo"] exI [of _ rest]) simp
  next
    case (String s rest)
    let ?len = "len + (length s + 1)"
    from String l "1.prems" have rec: "dname_scan data ?len = Inr (n, c)"
      by (subst (asm) dname_scan.simps) simp
    have "length (drop len data) = length s + 1 + length rest"
      using String by simp
    then have le: "?len \<le> length data"
      using "1.prems"(2) by simp
    have dr: "drop ?len data = rest"
      using arg_cong [OF String(2), of "drop (length s + 1)"] by (simp add: add.commute)
    from "1.IH" [OF l, of s n c] String rec le
    obtain ls t r where *: "labels_ok ls" "tail_ok t" "drop ?len data = wire_labels ls @ tail_bytes t @ r"
      "n = ?len + length (wire_labels ls) + length (tail_bytes t)" "c = tail_ptr t"
      by auto
    with String dr show ?thesis
      by (intro exI [of _ "s # ls"] exI [of _ t] exI [of _ r]) simp
  qed
qed

lemma dname_try_wire:
  assumes "labels_ok ls" and "tail_ok t"
  shows "dname_try_from_bytes (wire_labels ls @ tail_bytes t @ rest) =
     Inr (\<lparr>encoded = wire_labels ls @ tail_bytes t, compressed = tail_ptr t\<rparr>, rest)"
  using dname_scan_wire [OF assms, of "[]" rest]
  by (simp add: dname_try_from_bytes_def)

text \<open>What the parser accepts, and the only way to read it.\<close>

lemma dname_tryE:
  assumes "dname_try_from_bytes data = Inr (nm, rest)"
  obtains ls t where "labels_ok ls" "tail_ok t" "data = wire_labels ls @ tail_bytes t @ rest"
    "nm = \<lparr>encoded = wire_labels ls @ tail_bytes t, compressed = tail_ptr t\<rparr>"
proof -
  from assms obtain n c where sc: "dname_scan data 0 = Inr (n, c)"
    and nm: "nm = \<lparr>encoded = take n data, compressed = c\<rparr>" "rest = drop n data"
    by (auto simp: dname_try_from_bytes_def rbind_eq_Inr_conv)
  from dname_scan_sound [OF sc] obtain ls t r where
    *: "labels_ok ls" "tail_ok t" "data = wire_labels ls @ tail_bytes t @ r"
      "n = length (wire_labels ls) + length (tail_bytes t)" "c = tail_ptr t"
    by auto
  then have "take n data = wire_labels ls @ tail_bytes t" "drop n data = r"
    by simp_all
  with * nm that show ?thesis by simp
qed

lemma dname_labels_wire:
  assumes "labels_ok ls" and "tail_ok t"
  shows "dname_labels (wire_labels ls @ tail_bytes t) = map (\<lambda>l. Inr (LString l)) ls @ [Inr (tail_label t)]"
  using assms(1)
proof (induction ls)
  case Nil
  show ?case
    using label_try_tail [OF assms(2), of "[]"]
    by (subst dname_labels.simps) (cases t; simp add: dname_labels.simps [of "[]"])
next
  case (Cons l ls)
  then show ?case by (subst dname_labels.simps) simp
qed

section \<open>What the octets of a message say\<close>

text \<open>
  \<open>reads message prev d ls hops rest\<close>: the octets \<open>d\<close>, read in \<open>message\<close>, begin with a
  name whose labels are \<open>ls\<close>, following \<open>hops\<close> pointers, and \<open>rest\<close> follows it. Every
  pointer's target lies in the message and before \<open>prev\<close>, the target of the pointer that
  led here.
\<close>

inductive reads :: "bytes \<Rightarrow> nat \<Rightarrow> bytes \<Rightarrow> bytes list \<Rightarrow> nat \<Rightarrow> bytes \<Rightarrow> bool"
  for message :: bytes where
  literal: "labels_ok ls \<Longrightarrow> reads message prev (wire_of ls @ rest) ls 0 rest"
| pointer: "labels_ok ls \<Longrightarrow> 192 \<le> unat hi \<Longrightarrow> ptr_target hi lo < prev \<Longrightarrow>
    ptr_target hi lo < length message \<Longrightarrow>
    reads message (ptr_target hi lo) (drop (ptr_target hi lo) message) ks h rest' \<Longrightarrow>
    reads message prev (wire_labels ls @ hi # lo # rest) (ls @ ks) (Suc h) rest"

lemma reads_labels_ok: "reads message prev d ls h rest \<Longrightarrow> labels_ok ls"
  by (induction rule: reads.induct) auto

text \<open>The head of the octets determines the name's literal labels and how it ends.\<close>

lemma wire_tail_unique:
  assumes "labels_ok ls" "labels_ok ks" "tail_ok t" "tail_ok u"
    and "wire_labels ls @ tail_bytes t @ r = wire_labels ks @ tail_bytes u @ s"
  shows "ls = ks \<and> t = u \<and> r = s"
proof -
  have "dname_labels (wire_labels ls @ tail_bytes t) = dname_labels (wire_labels ks @ tail_bytes u)"
    and "r = s"
    using dname_try_wire [OF assms(1,3), of r] dname_try_wire [OF assms(2,4), of s] assms(5)
    by simp_all
  then have "map (\<lambda>l. Inr (LString l)) ls @ [Inr (tail_label t)] =
      map (\<lambda>l. Inr (LString l)) ks @ [Inr (tail_label u) :: label wire_result]"
    using assms by (simp add: dname_labels_wire)
  then have "ls = ks"
    by (auto simp: inj_on_def dest!: map_inj_on)
  moreover with assms(5) \<open>r = s\<close> have "tail_bytes t = tail_bytes u"
    by simp
  then have "t = u" by (cases t; cases u) auto
  ultimately show ?thesis using \<open>r = s\<close> by simp
qed

lemma reads_root_conv:
  assumes "labels_ok ls"
  shows "reads message prev (wire_labels ls @ tail_bytes TRoot @ rest) ks h rest' \<longleftrightarrow>
     ks = ls \<and> h = 0 \<and> rest' = rest"
proof
  assume "reads message prev (wire_labels ls @ tail_bytes TRoot @ rest) ks h rest'"
  then show "ks = ls \<and> h = 0 \<and> rest' = rest"
  proof cases
    case literal
    then show ?thesis
      using wire_tail_unique [of ls ks TRoot TRoot rest rest'] assms by (simp add: wire_of_def)
  next
    case (pointer js hi lo)
    then show ?thesis
      using wire_tail_unique [of ls js TRoot "TPointer hi lo" rest rest'] assms by simp
  qed
next
  assume "ks = ls \<and> h = 0 \<and> rest' = rest"
  then show "reads message prev (wire_labels ls @ tail_bytes TRoot @ rest) ks h rest'"
    using reads.literal [OF assms, of message prev rest] by (simp add: wire_of_def)
qed

lemma reads_pointer_conv:
  assumes "labels_ok ls" and "192 \<le> unat hi"
  shows "reads message prev (wire_labels ls @ tail_bytes (TPointer hi lo) @ rest) ks h rest' \<longleftrightarrow>
     rest' = rest \<and> ptr_target hi lo < prev \<and> ptr_target hi lo < length message \<and>
     (\<exists>js h' r. ks = ls @ js \<and> h = Suc h' \<and>
        reads message (ptr_target hi lo) (drop (ptr_target hi lo) message) js h' r)"
    (is "?L \<longleftrightarrow> ?R")
proof
  assume ?L
  then show ?R
  proof cases
    case literal
    then show ?thesis
      using wire_tail_unique [of ls ks "TPointer hi lo" TRoot rest rest'] assms
      by (simp add: wire_of_def)
  next
    case (pointer js hi' lo' ks' h' r')
    then show ?thesis
      using wire_tail_unique [of ls js "TPointer hi lo" "TPointer hi' lo'" rest rest'] assms by auto
  qed
next
  assume ?R
  then show ?L
    using reads.pointer [OF assms(1,2)] by auto
qed

section \<open>The unpacker reads exactly that\<close>

lemma sum_label_len: "sum_list (map (label_len \<circ> LString) ls) = length (wire_labels ls)"
  by (induction ls) auto

lemma unpacked_new_strings:
  "unpacked_new (map LString ls) = Inr us \<longleftrightarrow>
     us = map LString ls \<and> length (wire_of ls) \<le> MAX_NAME_LEN"
  by (auto simp: unpacked_new_def check_name_len_def sum_label_len length_wire_of)

lemma unpacked_new_append:
  "unpacked_new (map LString ls @ map LString js) = Inr us \<longleftrightarrow>
     us = map LString (ls @ js) \<and> length (wire_of (ls @ js)) \<le> MAX_NAME_LEN"
  using unpacked_new_strings [of "ls @ js"] by simp

lemma collect_strings [simp]:
  "collect (map (\<lambda>l. Inr (LString l)) ls @ [Inr l]) = Inr (map LString ls @ [l])"
  by (induction ls) auto

lemma unpack_loop_strings:
  "unpack_loop data (map (\<lambda>l. Inr (LString l)) ls @ rs) depth prev out =
     unpack_loop data rs depth prev (out @ map LString ls)"
proof (induction ls arbitrary: out)
  case (Cons l ls)
  then show ?case by (subst unpack_loop.simps) simp
qed simp

lemma map_LString_inj [simp]: "map LString xs = map LString ys \<longleftrightarrow> xs = ys"
  by (rule inj_map_eq_map) (simp add: inj_on_def)

lemma unpack_loop_pointer:
  "unpack_loop data [Inr (LPointer off)] depth prev out = Inr us \<longleftrightarrow>
     off < length data \<and> off < prev \<and>
     rbind (dname_try_from_bytes (drop off data))
       (\<lambda>(n, _). rbind (unpack_internal data n (depth + 1) off) (\<lambda>u. unpacked_new (out @ u))) = Inr us"
  by (simp add: unpack_loop.simps [of data "[Inr (LPointer off)]"] unpack_loop.simps [of data "[]"])

text \<open>The two shapes of name the unpacker meets.\<close>

lemma unpack_internal_root:
  assumes "labels_ok ls"
  shows "unpack_internal data \<lparr>encoded = wire_labels ls @ tail_bytes TRoot, compressed = False\<rparr> depth prev =
     Inr us \<longleftrightarrow> depth \<le> MAX_DEPTH \<and> length (wire_of ls) \<le> MAX_NAME_LEN \<and> us = map LString ls"
  using dname_labels_wire [OF assms, of TRoot]
  by (auto simp: unpack_internal.simps unpacked_new_strings)

lemma unpack_internal_pointer:
  assumes "labels_ok ls" and "192 \<le> unat hi"
  shows "unpack_internal data \<lparr>encoded = wire_labels ls @ tail_bytes (TPointer hi lo), compressed = True\<rparr>
       depth prev = Inr us \<longleftrightarrow>
     depth \<le> MAX_DEPTH \<and> ptr_target hi lo < length data \<and> ptr_target hi lo < prev \<and>
     (\<exists>n r u. dname_try_from_bytes (drop (ptr_target hi lo) data) = Inr (n, r) \<and>
        unpack_internal data n (depth + 1) (ptr_target hi lo) = Inr u \<and>
        unpacked_new (map LString ls @ u) = Inr us)"
proof -
  have "dname_labels (wire_labels ls @ tail_bytes (TPointer hi lo)) =
      map (\<lambda>l. Inr (LString l)) ls @ [Inr (LPointer (ptr_target hi lo))]"
    using dname_labels_wire [OF assms(1), of "TPointer hi lo"] assms(2) by simp
  then show ?thesis
    by (subst unpack_internal.simps)
      (auto simp: unpack_loop_strings unpack_loop_pointer rbind_eq_Inr_conv split: prod.splits)
qed

lemma reads_parses: "reads message prev d ls h r \<Longrightarrow> \<exists>nm. dname_try_from_bytes d = Inr (nm, r)"
proof (induction rule: reads.induct)
  case (literal ls prev rest)
  then show ?case using dname_try_wire [of ls TRoot rest] by (auto simp: wire_of_def)
next
  case (pointer ls hi lo prev ks h rest' rest)
  then show ?case using dname_try_wire [of ls "TPointer hi lo" rest] by auto
qed

theorem unpack_internal_correct:
  assumes "dname_try_from_bytes d = Inr (nm, rest)"
  shows "unpack_internal message nm depth prev = Inr us \<longleftrightarrow>
     (\<exists>ls h. reads message prev d ls h rest \<and> depth + h \<le> MAX_DEPTH \<and>
        length (wire_of ls) \<le> MAX_NAME_LEN \<and> us = map LString ls)"
  using assms
proof (induction prev arbitrary: d nm rest depth us rule: less_induct)
  case (less prev)
  from less.prems obtain ls t where ok: "labels_ok ls" "tail_ok t"
    and d: "d = wire_labels ls @ tail_bytes t @ rest"
    and nm: "nm = \<lparr>encoded = wire_labels ls @ tail_bytes t, compressed = tail_ptr t\<rparr>"
    by (rule dname_tryE)
  show ?case
  proof (cases t)
    case TRoot
    then show ?thesis
      unfolding nm d using reads_root_conv [OF ok(1)] unpack_internal_root [OF ok(1)] by auto
  next
    case (TPointer hi lo)
    let ?o = "ptr_target hi lo"
    have hi: "192 \<le> unat hi" using ok(2) TPointer by simp
    have IH: "unpack_internal message n (depth + 1) ?o = Inr u \<longleftrightarrow>
        (\<exists>js h'. reads message ?o (drop ?o message) js h' r \<and> depth + 1 + h' \<le> MAX_DEPTH \<and>
           length (wire_of js) \<le> MAX_NAME_LEN \<and> u = map LString js)"
      if "?o < prev" "dname_try_from_bytes (drop ?o message) = Inr (n, r)" for n r u
      using less.IH [OF that(1), of "drop ?o message" n r "depth + 1" u] that(2) by blast
    have "unpack_internal message nm depth prev = Inr us \<longleftrightarrow>
        ?o < length message \<and> ?o < prev \<and>
        (\<exists>js h' r. reads message ?o (drop ?o message) js h' r \<and> depth + Suc h' \<le> MAX_DEPTH \<and>
           length (wire_of (ls @ js)) \<le> MAX_NAME_LEN \<and> us = map LString (ls @ js))"
      (is "?L \<longleftrightarrow> ?R")
    proof
      assume ?L
      then obtain n r u where o: "?o < length message" "?o < prev"
        and n: "dname_try_from_bytes (drop ?o message) = Inr (n, r)"
        and u: "unpack_internal message n (depth + 1) ?o = Inr u"
        and us: "unpacked_new (map LString ls @ u) = Inr us"
        unfolding nm TPointer tail_ptr.simps unpack_internal_pointer [OF ok(1) hi] by blast
      from u IH [OF o(2) n, of u] obtain js h where
        "reads message ?o (drop ?o message) js h r" "depth + 1 + h \<le> MAX_DEPTH"
        and "u = map LString js"
        by blast
      with us o show ?R
        by (auto simp: unpacked_new_append simp del: map_append)
    next
      assume ?R
      then obtain js h r where o: "?o < length message" "?o < prev"
        and js: "reads message ?o (drop ?o message) js h r" "depth + Suc h \<le> MAX_DEPTH"
          "length (wire_of (ls @ js)) \<le> MAX_NAME_LEN" "us = map LString (ls @ js)"
        by blast
      from reads_parses [OF js(1)] obtain n where n: "dname_try_from_bytes (drop ?o message) = Inr (n, r)"
        by blast
      have "unpack_internal message n (depth + 1) ?o = Inr (map LString js)"
        using IH [OF o(2) n] js by (auto simp: wire_of_append)
      then show ?L
        unfolding nm TPointer tail_ptr.simps unpack_internal_pointer [OF ok(1) hi]
        using o n js by (auto simp: unpacked_new_append simp del: map_append)
    qed
    then show ?thesis
      unfolding d TPointer reads_pointer_conv [OF ok(1) hi] by blast
  qed
qed

lemma unpacked_to_wire_strings [simp]:
  "unpacked_to_wire (map LString ls) out = Inr (out @ wire_of ls)"
  by (induction ls arbitrary: out) (auto simp: wire_of_def)

lemma reads_uncompressed:
  "labels_ok ls \<Longrightarrow> reads message prev (wire_of ls @ rest) ks h r \<longleftrightarrow> ks = ls \<and> h = 0 \<and> r = rest"
  using reads_root_conv [of ls message prev rest ks h r] by (simp add: wire_of_def)

lemma decode_wire_correct:
  assumes "dname_try_from_bytes d = Inr (nm, rest)"
  shows "decode_wire message nm = Inr w \<longleftrightarrow>
     (\<exists>ls h. reads message usize_MAX d ls h rest \<and> h \<le> MAX_DEPTH \<and>
        length (wire_of ls) \<le> MAX_NAME_LEN \<and> w = wire_of ls)"
proof -
  from assms obtain ls t where ok: "labels_ok ls" "tail_ok t"
    and d: "d = wire_labels ls @ tail_bytes t @ rest"
    and nm: "nm = \<lparr>encoded = wire_labels ls @ tail_bytes t, compressed = tail_ptr t\<rparr>"
    by (rule dname_tryE)
  show ?thesis
  proof (cases t)
    case TRoot
    then show ?thesis
      unfolding nm d using reads_root_conv [OF ok(1)]
      by (auto simp: decode_wire_def dname_to_wire_def check_name_len_def wire_of_def)
  next
    case (TPointer hi lo)
    have "decode_wire message nm = Inr w \<longleftrightarrow>
        (\<exists>us. unpack_internal message nm 0 usize_MAX = Inr us \<and> unpacked_to_wire us [] = Inr w)"
      by (simp add: nm TPointer decode_wire_def unpack_def rbind_eq_Inr_conv)
    also have "\<dots> \<longleftrightarrow> (\<exists>ls h. reads message usize_MAX d ls h rest \<and> 0 + h \<le> MAX_DEPTH \<and>
        length (wire_of ls) \<le> MAX_NAME_LEN \<and> unpacked_to_wire (map LString ls) [] = Inr w)"
      unfolding unpack_internal_correct [OF assms] by blast
    finally show ?thesis by (simp add: eq_commute)
  qed
qed

lemma name_wire_from_bytes_in_iff:
  "name_wire_from_bytes_in d message = Inr (w, rest) \<longleftrightarrow>
     (\<exists>ls h. reads message usize_MAX d ls h rest \<and> h \<le> MAX_DEPTH \<and>
        length (wire_of ls) \<le> MAX_NAME_LEN \<and> w = wire_of ls)"
proof (cases "dname_try_from_bytes d")
  case (Inl e)
  then show ?thesis
    using reads_parses by (fastforce simp: name_wire_from_bytes_in_def)
next
  case (Inr nr)
  obtain nm r where nr: "nr = (nm, r)" by (cases nr)
  have "reads message usize_MAX d ls h rest \<Longrightarrow> rest = r" for ls h
    using reads_parses [of message usize_MAX d ls h rest] Inr nr by auto
  then show ?thesis
    using Inr nr decode_wire_correct [of d nm r message w]
    by (auto simp: name_wire_from_bytes_in_def rbind_eq_Inr_conv)
qed

text \<open>Stored RDATA is read without a message; a pointer there is an error.\<close>

lemma name_wire_from_bytes_correct:
  "name_wire_from_bytes d = Inr (w, rest) \<longleftrightarrow> wf_name w \<and> d = w @ rest"
proof
  assume L: "name_wire_from_bytes d = Inr (w, rest)"
  then obtain nm where nm: "dname_try_from_bytes d = Inr (nm, rest)" "\<not> compressed nm"
    and w: "dname_to_wire nm = Inr w"
    by (auto simp: name_wire_from_bytes_def rbind_eq_Inr_conv split: if_splits)
  from nm(1) obtain ls t where ok: "labels_ok ls" "tail_ok t"
    and d: "d = wire_labels ls @ tail_bytes t @ rest"
    and n: "nm = \<lparr>encoded = wire_labels ls @ tail_bytes t, compressed = tail_ptr t\<rparr>"
    by (rule dname_tryE)
  from nm(2) n have "t = TRoot" by (cases t) auto
  with w d n ok(1) show "wf_name w \<and> d = w @ rest"
    by (auto simp: dname_to_wire_def check_name_len_def MAX_NAME_LEN_def wf_name_def wire_of_def
        split: if_splits)
next
  assume "wf_name w \<and> d = w @ rest"
  then obtain ls where "labels_ok ls" "d = wire_labels ls @ tail_bytes TRoot @ rest"
    "length (wire_of ls) \<le> 255" "w = wire_of ls"
    by (auto simp: wire_of_def elim!: wf_nameE)
  with dname_try_wire [of ls TRoot rest] show "name_wire_from_bytes d = Inr (w, rest)"
    by (simp add: name_wire_from_bytes_def dname_to_wire_def check_name_len_def MAX_NAME_LEN_def
        wire_of_def)
qed

lemma name_wire_from_bytes_in_uncompressed:
  assumes "wf_name w"
  shows "name_wire_from_bytes_in (w @ rest) message = Inr (w, rest)"
proof -
  from assms obtain ls where "labels_ok ls" "w = wire_of ls" "length (wire_of ls) \<le> 255"
    by (rule wf_nameE)
  then show ?thesis
    unfolding name_wire_from_bytes_in_iff
    by (auto simp: reads_uncompressed MAX_NAME_LEN_def)
qed

lemma name_wire_from_bytes_in_wf:
  "name_wire_from_bytes_in d message = Inr (w, rest) \<Longrightarrow> wf_name w"
  using reads_labels_ok by (auto simp: name_wire_from_bytes_in_iff MAX_NAME_LEN_def)

section \<open>Skipping an uncompressed name\<close>

lemma byte_tag_conv: "(b :: byte) AND 0xc0 = 0 \<longleftrightarrow> unat b < 64"
proof -
  have c0: "(0xc0 :: byte) = NOT (mask 6)" by (simp add: mask_eq_exp_minus_1)
  have "b AND 0xc0 = push_bit 6 (drop_bit 6 b)"
    unfolding c0 by (rule bit_eqI) (auto simp: bit_simps)
  moreover have "drop_bit 6 (push_bit 6 (drop_bit 6 b)) = drop_bit 6 b"
    by (rule bit_eqI) (auto simp: bit_simps bit_byte_beyond intro: ccontr)
  ultimately show ?thesis
    by (metis byte_kind_conv(1) drop_bit_of_0 push_bit_of_0)
qed

lemma skip_uncompressed_loop_wire:
  "labels_ok ls \<Longrightarrow>
   skip_uncompressed_loop (pre @ wire_of ls @ rest) (length pre) = Some rest"
proof (induction ls arbitrary: pre)
  case Nil
  then show ?case by (simp add: skip_uncompressed_loop.simps)
next
  case (Cons l ls)
  from Cons.IH [of "pre @ of_nat (length l) # l"] Cons.prems label_okD [of l]
  show ?case
    by (subst skip_uncompressed_loop.simps)
      (auto simp: nth_append byte_tag_conv label_ok_def Let_def)
qed

lemma skip_uncompressed_name_wire: "wf_name w \<Longrightarrow> skip_uncompressed_name (w @ rest) = Some rest"
  using skip_uncompressed_loop_wire [of _ "[]" rest]
  by (auto simp: skip_uncompressed_name_def elim!: wf_nameE)

section \<open>The decoder\<close>

text \<open>
  C2. Reading a possibly compressed name out of a message (\<^verbatim>\<open>Name::from_wire_in\<close>) succeeds on
  exactly the octets that spell a name: labels of 1 to 63 octets, pointers that stay inside
  the message and whose targets strictly decrease, at most 50 of them, at most 255 octets
  once expanded. What it returns is that name's uncompressed encoding and the octets after
  it. The termination of the walk on every message is part of the definition.
\<close>

theorem name_wire_from_bytes_in_correct:
  "name_wire_from_bytes_in d message = Inr (w, rest) \<longleftrightarrow>
     (\<exists>ls h. reads message usize_MAX d ls h rest \<and> h \<le> MAX_DEPTH \<and>
        length (wire_of ls) \<le> MAX_NAME_LEN \<and> w = wire_of ls)"
  by (rule name_wire_from_bytes_in_iff)

end
