(* ===== verification/Names.thy ===== *)
theory Names
  imports DName
begin

text \<open>
  \<^verbatim>\<open>rdns-core/src/name.rs\<close>: a domain name as its wire octets, and the tree questions asked of
  it. A \<^verbatim>\<open>Name\<close> and a \<^verbatim>\<open>NameRef\<close> are both the list of octets; \<open>wf_name\<close> is the invariant
  their private fields protect. The theorems relate each operation to the list of labels
  the octets spell (theory Labels).
\<close>

type_synonym name = bytes

section \<open>Constructors\<close>

definition root :: name where
  "root = [0]"

definition from_wire :: "bytes \<Rightarrow> (name \<times> bytes) wire_result" where
  "from_wire data = name_wire_from_bytes data"

definition from_wire_in :: "bytes \<Rightarrow> bytes \<Rightarrow> (name \<times> bytes) wire_result" where
  "from_wire_in data message = name_wire_from_bytes_in data message"

definition from_dname :: "dname \<Rightarrow> bytes \<Rightarrow> name wire_result" where
  "from_dname n message = decode_wire message n"

definition joined :: "bytes \<Rightarrow> name \<Rightarrow> name wire_result" where
  "joined hd_part tail_part =
     (let out = hd_part @ tail_part in rbind (check_name_len (length out)) (\<lambda>_. Inr out))"

definition name_concat :: "name \<Rightarrow> name \<Rightarrow> name wire_result" where
  "name_concat hd_part tail_part = joined (take (length hd_part - 1) hd_part) tail_part"

definition prefixed :: "bytes \<Rightarrow> name \<Rightarrow> name wire_result" where
  "prefixed label parent =
     (if label = [] \<or> length label > MAX_LABEL_LEN
      then Inl (TooLong ''a label'' MAX_LABEL_LEN (length label))
      else let out = of_nat (length label) # label @ parent in
        rbind (check_name_len (length out)) (\<lambda>_. Inr out))"

text \<open>
  The validating borrow \<^verbatim>\<open>NameRef::from_wire_slice\<close>: the loop finds the position after the root
  octet.
\<close>

function wire_slice_loop :: "bytes \<Rightarrow> nat \<Rightarrow> nat wire_result" where
  "wire_slice_loop wire pos =
     (if pos < length wire then
        (let len = unat (wire ! pos) in
         if len > MAX_LABEL_LEN then Inl (TooLong ''a label'' MAX_LABEL_LEN len)
         else if len = 0 then Inr (pos + 1)
         else wire_slice_loop wire (pos + 1 + len))
      else Inl (Malformed ''a domain name'' ''the octets end before the root label''))"
  by pat_completeness auto
termination
  by (relation "measure (\<lambda>(wire, pos). length wire - pos)") auto

declare wire_slice_loop.simps [simp del]

definition from_wire_slice :: "bytes \<Rightarrow> name wire_result" where
  "from_wire_slice wire =
     rbind (wire_slice_loop wire 0)
       (\<lambda>pos. if pos \<noteq> length wire
              then Inl (Malformed ''a domain name'' ''octets follow the root label'')
              else rbind (check_name_len (length wire)) (\<lambda>_. Inr wire))"

section \<open>The tree\<close>

definition is_root :: "name \<Rightarrow> bool" where
  "is_root w \<longleftrightarrow> length w = 1"

text \<open>The iterator \<^verbatim>\<open>NameRef::labels\<close>, over the octets still to walk.\<close>

fun name_labels :: "name \<Rightarrow> bytes list" where
  "name_labels [] = []"
| "name_labels (len # rest) =
     (if unat len = 0 \<or> length rest < unat len then []
      else take (unat len) rest # name_labels (drop (unat len) rest))"

definition label_count :: "name \<Rightarrow> nat" where
  "label_count w = length (name_labels w)"

fun parent :: "name \<Rightarrow> name option" where
  "parent [] = None"
| "parent (len # rest) =
     (if unat len = 0 \<or> length rest < unat len then None else Some (drop (unat len) rest))"

lemma parent_shorter: "parent w = Some p \<Longrightarrow> length p < length w"
  by (cases w) (auto split: if_splits)

function ancestors :: "name \<Rightarrow> name list" where
  "ancestors w = w # (case parent w of None \<Rightarrow> [] | Some p \<Rightarrow> ancestors p)"
  by pat_completeness auto
termination
  by (relation "measure length") (auto dest: parent_shorter)

declare ancestors.simps [simp del]

definition name_suffix :: "name \<Rightarrow> nat \<Rightarrow> name" where
  "name_suffix w n =
     (let skip = label_count w - n; as = ancestors w in
      if skip < length as then as ! skip else drop (length w - 1) w)"

definition name_eq :: "name \<Rightarrow> name \<Rightarrow> bool" where
  "name_eq a b = eq_ignore_case a b"

definition is_at_or_under :: "name \<Rightarrow> name \<Rightarrow> bool" where
  "is_at_or_under w other =
     (if length other > length w then False
      else case find (\<lambda>a. length a \<le> length other) (ancestors w) of
          None \<Rightarrow> False
        | Some a \<Rightarrow> name_eq a other)"

text \<open>
  Folding: \<^verbatim>\<open>folded_into\<close>, \<^verbatim>\<open>folded_in\<close> and \<^verbatim>\<open>folded\<close> borrow when there is nothing to fold, and
  differ only in where a folded copy lives; \<^verbatim>\<open>to_folded\<close> always copies.
\<close>

definition folded :: "name \<Rightarrow> bytes" where
  "folded w = (if list_ex is_upper w then map to_lower w else w)"

definition to_folded :: "name \<Rightarrow> name" where
  "to_folded w = map to_lower w"

text \<open>The octets \<^verbatim>\<open>NameRef\<close>'s \<^verbatim>\<open>Hash\<close> feeds to the hasher.\<close>

definition hash_input :: "name \<Rightarrow> bytes" where
  "hash_input w = map to_lower w"

section \<open>DNAME substitution\<close>

datatype redirect = To name | NoMatch | RTooLong

definition dname_redirect :: "name \<Rightarrow> name \<Rightarrow> name \<Rightarrow> redirect" where
  "dname_redirect qname owner target =
     (if \<not> is_at_or_under qname owner \<or> name_eq qname owner then NoMatch
      else let prefix = take (length qname - length owner) qname; out = prefix @ target in
        case from_wire_slice out of Inr n \<Rightarrow> To n | Inl _ \<Rightarrow> RTooLong)"

section \<open>The arena behind a zone\<close>

record name_span =
  ns_off :: u32
  ns_len :: byte

text \<open>\<^verbatim>\<open>push\<close> panics past 4 GiB, which is the value \<open>None\<close>.\<close>

definition arena_push :: "bytes \<Rightarrow> name \<Rightarrow> (bytes \<times> name_span) option" where
  "arena_push arena n =
     (if length arena < 2 ^ 32
      then Some (arena @ n, \<lparr>ns_off = of_nat (length arena), ns_len = of_nat (length n)\<rparr>)
      else None)"

definition arena_get :: "bytes \<Rightarrow> name_span \<Rightarrow> name" where
  "arena_get arena s = seg arena (unat (ns_off s)) (unat (ns_off s) + unat (ns_len s))"

section \<open>Facts about the constructors\<close>

lemma wire_slice_loop_wire:
  "labels_ok ls \<Longrightarrow>
   wire_slice_loop (pre @ wire_of ls @ rest) (length pre) = Inr (length pre + length (wire_of ls))"
proof (induction ls arbitrary: pre)
  case Nil
  then show ?case by (simp add: wire_slice_loop.simps)
next
  case (Cons l ls)
  from Cons.IH [of "pre @ of_nat (length l) # l"] Cons.prems label_okD [of l]
  show ?case
    by (subst wire_slice_loop.simps)
      (auto simp: nth_append label_ok_def MAX_LABEL_LEN_def Let_def)
qed

lemma wire_slice_loop_sound:
  "wire_slice_loop wire pos = Inr p \<Longrightarrow>
   \<exists>ls rest. labels_ok ls \<and> drop pos wire = wire_of ls @ rest \<and> p = pos + length (wire_of ls)"
proof (induction wire pos rule: wire_slice_loop.induct)
  case (1 wire pos)
  let ?len = "unat (wire ! pos)"
  from "1.prems" have pos: "pos < length wire" and le: "?len \<le> 63"
    by (auto simp: wire_slice_loop.simps [of wire pos] MAX_LABEL_LEN_def Let_def split: if_splits)
  have d: "drop pos wire = wire ! pos # drop (pos + 1) wire"
    using pos by (simp add: Cons_nth_drop_Suc)
  show ?case
  proof (cases "?len = 0")
    case True
    then have "wire ! pos = 0" by (simp add: unat_eq_zero)
    with d "1.prems" pos show ?thesis
      by (intro exI [of _ "[]"] exI [of _ "drop (Suc pos) wire"])
        (simp add: wire_slice_loop.simps [of wire pos])
  next
    case False
    with "1.prems" pos le have rec: "wire_slice_loop wire (pos + 1 + ?len) = Inr p"
      by (simp add: wire_slice_loop.simps [of wire pos] MAX_LABEL_LEN_def)
    from "1.IH" [OF pos refl _ False this] le
    obtain ls rest where IH: "labels_ok ls" "drop (pos + 1 + ?len) wire = wire_of ls @ rest"
      "p = pos + 1 + ?len + length (wire_of ls)"
      by (auto simp: MAX_LABEL_LEN_def)
    let ?l = "take ?len (drop (pos + 1) wire)"
    have "drop (pos + 1 + ?len) wire \<noteq> []" using IH(2) by simp
    then have len: "length ?l = ?len" by simp
    then have "drop (pos + 1) wire = ?l @ wire_of ls @ rest"
      using IH(2) append_take_drop_id [of ?len "drop (pos + 1) wire"] by (simp add: add.commute)
    with d len have "drop pos wire = wire_of (?l # ls) @ rest" by simp
    moreover have "label_ok ?l" using len False le by (simp add: label_ok_def)
    ultimately show ?thesis using IH len
      by (intro exI [of _ "?l # ls"] exI [of _ rest]) simp
  qed
qed

text \<open>
  C35. \<^verbatim>\<open>NameRef::from_wire_slice\<close> accepts exactly the octets that are a name (labels of 1 to 63
  octets, one root octet at the end and nothing after it, 255 octets at most) and returns
  them unchanged.
\<close>

theorem from_wire_slice_correct: "from_wire_slice w = Inr v \<longleftrightarrow> v = w \<and> wf_name w"
proof
  assume L: "from_wire_slice w = Inr v"
  then have "wire_slice_loop w 0 = Inr (length w)" and v: "v = w" "length w \<le> 255"
    by (auto simp: from_wire_slice_def check_name_len_def MAX_NAME_LEN_def rbind_eq_Inr_conv
        split: if_splits)
  from wire_slice_loop_sound [OF this(1)] obtain ls rest where
    "labels_ok ls" "w = wire_of ls @ rest" "length w = length (wire_of ls)"
    by auto
  with v show "v = w \<and> wf_name w" by simp
next
  assume "v = w \<and> wf_name w"
  then show "from_wire_slice w = Inr v"
    using wire_slice_loop_wire [of _ "[]" "[]"]
    by (auto simp: from_wire_slice_def check_name_len_def MAX_NAME_LEN_def elim!: wf_nameE)
qed

lemma from_wire_slice_Inr [simp]: "wf_name w \<Longrightarrow> from_wire_slice w = Inr w"
  using wire_slice_loop_wire [of _ "[]" "[]"]
  by (auto simp: from_wire_slice_def check_name_len_def MAX_NAME_LEN_def elim!: wf_nameE)

lemma from_wire_slice_length:
  assumes "labels_ok ls"
  shows "from_wire_slice (wire_of ls) =
    (if length (wire_of ls) \<le> 255 then Inr (wire_of ls)
     else Inl (TooLong ''a domain name'' 255 (length (wire_of ls))))"
  using wire_slice_loop_wire [OF assms, of "[]" "[]"]
  by (simp add: from_wire_slice_def check_name_len_def MAX_NAME_LEN_def)

lemma joined_wire:
  "joined (wire_labels ks) (wire_of ls) =
    (if length (wire_of (ks @ ls)) \<le> 255 then Inr (wire_of (ks @ ls))
     else Inl (TooLong ''a domain name'' 255 (length (wire_of (ks @ ls)))))"
  by (simp add: joined_def wire_of_append check_name_len_def MAX_NAME_LEN_def)

text \<open>
  \<^verbatim>\<open>Name::concat\<close> puts the labels of one name before those of another: the result is the
  name of both label lists, unless that is over 255 octets, which is the only error.
\<close>

theorem name_concat_correct:
  "name_concat (wire_of ks) (wire_of ls) =
    (if length (wire_of (ks @ ls)) \<le> 255 then Inr (wire_of (ks @ ls))
     else Inl (TooLong ''a domain name'' 255 (length (wire_of (ks @ ls)))))"
proof -
  have "take (length (wire_of ks) - 1) (wire_of ks) = wire_labels ks"
    by (simp add: wire_of_def)
  then show ?thesis by (simp add: name_concat_def joined_wire)
qed

lemma prefixed_wire:
  assumes "label_ok l"
  shows "prefixed l (wire_of ls) =
    (if length (wire_of (l # ls)) \<le> 255 then Inr (wire_of (l # ls))
     else Inl (TooLong ''a domain name'' 255 (length (wire_of (l # ls)))))"
  using assms
  by (auto simp: prefixed_def label_ok_def MAX_LABEL_LEN_def check_name_len_def MAX_NAME_LEN_def
      Let_def)

lemma prefixed_wf: "wf_name w \<Longrightarrow> prefixed l w = Inr v \<Longrightarrow> wf_name v"
proof -
  assume w: "wf_name w" and p: "prefixed l w = Inr v"
  then have l: "label_ok l"
    by (auto simp: prefixed_def label_ok_def MAX_LABEL_LEN_def Let_def Suc_le_eq split: if_splits)
  from w p show "wf_name v"
    by (elim wf_nameE) (use l in \<open>auto simp: prefixed_wire simp del: wire_of_simps split: if_splits\<close>)
qed

section \<open>Facts about the tree\<close>

text \<open>The labels the iterator yields are the labels the octets spell.\<close>

lemma name_labels_wire [simp]: "labels_ok ls \<Longrightarrow> name_labels (wire_of ls) = ls"
  by (induction ls) (auto simp: label_okD)

lemma label_count_wire [simp]: "labels_ok ls \<Longrightarrow> label_count (wire_of ls) = length ls"
  by (simp add: label_count_def)

lemma wf_name_labels: "wf_name w \<Longrightarrow> labels_ok (name_labels w) \<and> wire_of (name_labels w) = w"
  by (auto elim!: wf_nameE)

lemma is_root_wire [simp]: "is_root (wire_of ls) \<longleftrightarrow> ls = []"
  by (simp add: is_root_def length_wire_of)

lemma parent_wire [simp]:
  "parent (wire_of []) = None"
  "label_ok l \<Longrightarrow> parent (wire_of (l # ls)) = Some (wire_of ls)"
  by (auto simp: label_okD)

text \<open>The ancestor walk visits the suffixes of the label list, longest first.\<close>

lemma ancestors_wire: "labels_ok ls \<Longrightarrow> ancestors (wire_of ls) = map wire_of (rev (suffixes ls))"
proof (induction ls)
  case Nil
  then show ?case by (subst ancestors.simps) simp
next
  case (Cons l ls)
  then have "parent (wire_of (l # ls)) = Some (wire_of ls)" by (intro parent_wire) simp
  with Cons show ?case by (subst ancestors.simps) (simp del: wire_of_simps)
qed

lemma find_suffix:
  assumes "labels_ok ls" and "n \<ge> 1"
  shows "\<exists>ks. find (\<lambda>a. length a \<le> n) (map wire_of (rev (suffixes ls))) = Some (wire_of ks)
    \<and> suffix ks ls \<and> (\<forall>ms. suffix ms ls \<and> length (wire_of ms) \<le> n \<longrightarrow> suffix ms ks)"
  using assms(1)
proof (induction ls)
  case Nil
  then show ?case using assms(2) by simp
next
  case (Cons l ls)
  show ?case
  proof (cases "length (wire_of (l # ls)) \<le> n")
    case True
    then show ?thesis by (intro exI [of _ "l # ls"]) simp
  next
    case False
    with Cons obtain ks where "find (\<lambda>a. length a \<le> n) (map wire_of (rev (suffixes ls))) = Some (wire_of ks)"
      "suffix ks ls" "\<forall>ms. suffix ms ls \<and> length (wire_of ms) \<le> n \<longrightarrow> suffix ms ks"
      by auto
    with False show ?thesis
      by (intro exI [of _ ks]) (auto simp: suffix_Cons)
  qed
qed

lemma suffix_map_lower_length:
  assumes "suffix (map lower ks) (map lower ls)"
  obtains ms where "suffix ms ls" "map lower ms = map lower ks"
  using assms unfolding suffix_def map_eq_append_conv by metis

lemma is_at_or_under_wire:
  assumes ls: "labels_ok ls" and ks: "labels_ok ks"
  shows "is_at_or_under (wire_of ls) (wire_of ks) \<longleftrightarrow> suffix (map lower ks) (map lower ls)"
proof -
  let ?n = "length (wire_of ks)"
  obtain ms where f: "find (\<lambda>a. length a \<le> ?n) (ancestors (wire_of ls)) = Some (wire_of ms)"
    and ms: "suffix ms ls"
    and longest: "\<And>xs. suffix xs ls \<Longrightarrow> length (wire_of xs) \<le> ?n \<Longrightarrow> suffix xs ms"
    using find_suffix [OF ls, of ?n] by (auto simp: ancestors_wire [OF ls] length_wire_of)
  have msok: "labels_ok ms" using ms ls by (auto simp: suffix_def)
  show ?thesis
  proof
    assume "is_at_or_under (wire_of ls) (wire_of ks)"
    then have "map lower ms = map lower ks"
      using f msok ks
      by (simp add: is_at_or_under_def name_eq_def eq_ignore_case_lower lower_wire_of_eq
          split: if_splits)
    with ms show "suffix (map lower ks) (map lower ls)"
      by (metis map_mono_suffix)
  next
    assume "suffix (map lower ks) (map lower ls)"
    then obtain xs where xs: "suffix xs ls" "map lower xs = map lower ks"
      by (rule suffix_map_lower_length)
    then have len: "length (wire_of xs) = ?n" by (metis length_wire_of_lower)
    with longest xs have "suffix xs ms" by simp
    moreover have "length (wire_of ms) \<le> ?n"
      using f by (auto simp: find_Some_iff)
    ultimately have "xs = ms"
      using wire_suffix_length_inj [of xs ms ms] len by (auto simp: suffix_def wire_of_append)
    moreover have "?n \<le> length (wire_of ls)"
      using xs(1) len by (auto simp: suffix_def wire_of_append)
    ultimately show "is_at_or_under (wire_of ls) (wire_of ks)"
      using f msok ks xs
      by (simp add: is_at_or_under_def name_eq_def eq_ignore_case_lower lower_wire_of_eq)
  qed
qed

text \<open>
  \<^verbatim>\<open>NameRef::is_at_or_under\<close> is the subtree relation: one name is at or under another exactly
  when the labels of the other are a suffix of its own labels, label by label and up to
  ASCII case; in particular never by a partial label.
\<close>

theorem is_at_or_under_correct:
  assumes "wf_name w" and "wf_name v"
  shows "is_at_or_under w v \<longleftrightarrow> suffix (map lower (name_labels v)) (map lower (name_labels w))"
  using assms by (elim wf_nameE) (simp add: is_at_or_under_wire)

theorem is_at_or_under_witness:
  "is_at_or_under [1, 97, 1, 98, 0] [1, 66, 0] \<longleftrightarrow>
   suffix (map lower (name_labels [1, 66, 0])) (map lower (name_labels [1, 97, 1, 98, 0]))"
proof (rule is_at_or_under_correct)
  have "wf_name (wire_of [[97], [98]])" "wf_name (wire_of [[66]])"
    by (simp_all add: wf_name_wire_of label_ok_def del: wire_of_simps) (simp_all add: length_wire_of)
  then show "wf_name [1, 97, 1, 98, 0]" "wf_name [1, 66, 0]" by simp_all
qed

lemma name_eq_wire:
  "labels_ok ls \<Longrightarrow> labels_ok ks \<Longrightarrow>
   name_eq (wire_of ls) (wire_of ks) \<longleftrightarrow> map lower ls = map lower ks"
  by (simp add: name_eq_def eq_ignore_case_lower lower_wire_of_eq)

text \<open>
  \<^verbatim>\<open>Eq\<close>, \<^verbatim>\<open>Hash\<close> and the three folds agree: two names are equal exactly when their folded
  octets are, exactly when the hasher is fed the same octets, and folding is the same
  lower-casing whether it borrows or copies.
\<close>

theorem name_eq_hash_fold:
  "(name_eq v w \<longleftrightarrow> folded v = folded w) \<and> (name_eq v w \<longleftrightarrow> hash_input v = hash_input w) \<and>
   folded w = to_folded w"
proof -
  have f: "folded x = lower x" "to_folded x = lower x" "hash_input x = lower x" for x
    by (simp_all add: folded_def to_folded_def hash_input_def lower_def [symmetric] lower_id)
  show ?thesis by (simp add: f name_eq_def eq_ignore_case_lower)
qed

lemma folded_lower: "folded w = lower w"
  by (simp add: folded_def lower_def [symmetric] lower_id)

text \<open>\<^verbatim>\<open>NameRef::suffix\<close> keeps the last labels; asking for more than there are is the whole name.\<close>

lemma rev_suffixes_nth:
  "i \<le> length ls \<Longrightarrow> rev (suffixes ls) ! i = drop i ls"
proof (induction ls arbitrary: i)
  case (Cons l ls)
  then show ?case by (cases i) auto
qed simp

text \<open>
  \<^verbatim>\<open>NameRef::suffix(n)\<close> is the name of the last \<open>n\<close> labels, or the whole name where it has
  fewer.
\<close>

theorem name_suffix_correct:
  assumes "labels_ok ls"
  shows "name_suffix (wire_of ls) n = wire_of (drop (length ls - n) ls)"
  using assms
  by (simp add: name_suffix_def ancestors_wire rev_suffixes_nth Let_def)

theorem name_suffix_witness:
  "name_suffix (wire_of [[97], [98], [99]]) 2 = wire_of [[98], [99]]"
  using name_suffix_correct [of "[[97], [98], [99]]" 2]
  by (simp add: label_ok_def)

section \<open>Facts about DNAME substitution\<close>

lemma strict_suffix_redirect:
  assumes ls: "labels_ok ls" and ks: "labels_ok ks"
    and "suffix (map lower ks) (map lower ls)"
  shows "take (length (wire_of ls) - length (wire_of ks)) (wire_of ls)
    = wire_labels (take (length ls - length ks) ls)"
proof -
  from assms(3) obtain ms where "suffix ms ls" and m: "map lower ms = map lower ks"
    by (rule suffix_map_lower_length)
  then obtain ps where "ls = ps @ ms" by (auto simp: suffix_def)
  moreover have "length (wire_of ms) = length (wire_of ks)" "length ms = length ks"
    using m by (metis length_wire_of_lower, metis length_map)
  ultimately show ?thesis by (simp add: wire_of_append)
qed

text \<open>
  \<^verbatim>\<open>dname_redirect\<close> is RFC 6672's substitution: no match unless the query name is strictly
  below the owner; otherwise the labels above the owner followed by the target, and
  \<^verbatim>\<open>TooLong\<close> exactly when that name is over 255 octets.
\<close>

theorem dname_redirect_correct:
  assumes q: "labels_ok q" and ow: "labels_ok ow" and t: "labels_ok t"
  shows "dname_redirect (wire_of q) (wire_of ow) (wire_of t) =
    (if strict_suffix (map lower ow) (map lower q)
     then let out = wire_of (take (length q - length ow) q @ t) in
       if length out \<le> 255 then To out else RTooLong
     else NoMatch)"
proof (cases "strict_suffix (map lower ow) (map lower q)")
  case True
  then have s: "suffix (map lower ow) (map lower q)" and ne: "map lower ow \<noteq> map lower q"
    by (auto simp: strict_suffix_def)
  let ?p = "take (length q - length ow) q"
  have "labels_ok (?p @ t)"
    using q t append_take_drop_id [of "length q - length ow" q] labels_ok_simps(3) by metis
  from from_wire_slice_length [OF this] s ne True show ?thesis
    by (auto simp: dname_redirect_def is_at_or_under_wire [OF q ow] name_eq_wire [OF q ow]
        strict_suffix_redirect [OF q ow] wire_of_append Let_def)
next
  case False
  then show ?thesis
    by (auto simp: dname_redirect_def is_at_or_under_wire [OF q ow] name_eq_wire [OF q ow]
        strict_suffix_def)
qed

theorem dname_redirect_witness:
  "dname_redirect (wire_of [[97], [98]]) (wire_of [[66]]) (wire_of [[99], [100]])
   = To (wire_of [[97], [99], [100]])"
proof -
  have "strict_suffix (map lower [[66]]) (map lower [[97], [98]])"
    by (simp add: strict_suffix_def suffix_def to_lower_def is_upper_def)
  then show ?thesis
    using dname_redirect_correct [of "[[97], [98]]" "[[66]]" "[[99], [100]]"]
    by (simp add: label_ok_def)
qed

section \<open>Facts about the arena\<close>

text \<open>
  A name pushed into the arena is read back from its span, and a later push does not move
  what an earlier span reads.
\<close>

theorem arena_round_trip:
  assumes "wf_name n" and "arena_push a n = Some (a', s)" and "arena_push a' m = Some (a'', t)"
  shows "arena_get a' s = n \<and> arena_get a'' s = n"
proof -
  have len: "length n < 256" using assms(1) by (simp add: wf_name_def)
  from assms(2) have a: "length a < 2 ^ 32" "a' = a @ n" and s: "unat (ns_off s) = length a"
    "unat (ns_len s) = length n"
    using len by (auto simp: arena_push_def unat_of_nat split: if_splits)
  from assms(3) a have "a'' = a @ n @ m" by (auto simp: arena_push_def split: if_splits)
  with a s show ?thesis using seg_append_exact [of a n "[]"] by (simp add: arena_get_def)
qed

theorem arena_round_trip_witness:
  "arena_get [5, 1, 97, 0] \<lparr>ns_off = 1, ns_len = 3\<rparr> = [1, 97, 0] \<and>
   arena_get [5, 1, 97, 0, 0] \<lparr>ns_off = 1, ns_len = 3\<rparr> = [1, 97, 0]"
proof (rule arena_round_trip [where a = "[5]" and m = "[0]"])
  have "wf_name (wire_of [[97]])"
    by (simp add: label_ok_def length_wire_of del: wire_of_simps)
  then show "wf_name [1, 97, 0]" by simp
qed (simp_all add: arena_push_def)

end
