(* ===== verification/Codes.thy ===== *)
theory Codes
  imports Prelude
begin

text \<open>
  \<^verbatim>\<open>rdns-core/src/codes.rs\<close> and \<^verbatim>\<open>rdns-core/src/record_types.rs\<close>: opcodes, classes, types,
  TTLs, serial numbers and response codes, and the registry of type mnemonics. The sealed
  newtypes \<^verbatim>\<open>Class\<close>, \<^verbatim>\<open>Rtype\<close>, \<^verbatim>\<open>Qtype\<close>, \<^verbatim>\<open>Ttl\<close> and \<^verbatim>\<open>Serial\<close> are the word each holds.
\<close>

type_synonym rtype = u16
type_synonym qtype = u16
type_synonym dclass = u16
type_synonym ttl = u32
type_synonym serial = u32

section \<open>Opcodes\<close>

datatype opcode = Query | IQuery | Status | Notify | Update | OtherOp byte

definition opcode_from_u8 :: "byte \<Rightarrow> opcode" where
  "opcode_from_u8 v =
     (let k = v AND 0x0f in
      if k = 0 then Query else if k = 1 then IQuery else if k = 2 then Status
      else if k = 4 then Notify else if k = 5 then Update else OtherOp k)"

fun opcode_to_u8 :: "opcode \<Rightarrow> byte" where
  "opcode_to_u8 Query = 0"
| "opcode_to_u8 IQuery = 1"
| "opcode_to_u8 Status = 2"
| "opcode_to_u8 Notify = 4"
| "opcode_to_u8 Update = 5"
| "opcode_to_u8 (OtherOp v) = v"

section \<open>Classes\<close>

datatype query_class = QC_IN | QC_CH | QC_HS | QC_None | QC_Any | QC_Other u16

definition query_class_from_u16 :: "u16 \<Rightarrow> query_class" where
  "query_class_from_u16 v =
     (if v = 1 then QC_IN else if v = 3 then QC_CH else if v = 4 then QC_HS
      else if v = 254 then QC_None else if v = 255 then QC_Any else QC_Other v)"

fun query_class_to_u16 :: "query_class \<Rightarrow> u16" where
  "query_class_to_u16 QC_IN = 1"
| "query_class_to_u16 QC_CH = 3"
| "query_class_to_u16 QC_HS = 4"
| "query_class_to_u16 QC_None = 254"
| "query_class_to_u16 QC_Any = 255"
| "query_class_to_u16 (QC_Other v) = v"

definition query_class_matches :: "query_class \<Rightarrow> dclass \<Rightarrow> bool" where
  "query_class_matches q c \<longleftrightarrow> q = QC_Any \<or> query_class_to_u16 q = c"

definition query_class_is :: "query_class \<Rightarrow> dclass \<Rightarrow> bool" where
  "query_class_is q c \<longleftrightarrow> query_class_to_u16 q = c"

definition class_IN :: dclass where "class_IN = 1"

section \<open>Types\<close>

definition rt_A :: rtype where "rt_A = 1"
definition rt_NS :: rtype where "rt_NS = 2"
definition rt_CNAME :: rtype where "rt_CNAME = 5"
definition rt_SOA :: rtype where "rt_SOA = 6"
definition rt_PTR :: rtype where "rt_PTR = 12"
definition rt_MX :: rtype where "rt_MX = 15"
definition rt_TXT :: rtype where "rt_TXT = 16"
definition rt_AAAA :: rtype where "rt_AAAA = 28"
definition rt_DNAME :: rtype where "rt_DNAME = 39"
definition rt_DS :: rtype where "rt_DS = 43"
definition rt_RRSIG :: rtype where "rt_RRSIG = 46"
definition rt_NSEC :: rtype where "rt_NSEC = 47"
definition rt_DNSKEY :: rtype where "rt_DNSKEY = 48"
definition rt_NSEC3 :: rtype where "rt_NSEC3 = 50"
definition rt_NSEC3PARAM :: rtype where "rt_NSEC3PARAM = 51"
definition rt_CDS :: rtype where "rt_CDS = 59"
definition rt_CDNSKEY :: rtype where "rt_CDNSKEY = 60"
definition rt_SVCB :: rtype where "rt_SVCB = 64"
definition rt_HTTPS :: rtype where "rt_HTTPS = 65"
definition AXFR_CODE :: u16 where "AXFR_CODE = 252"
definition IXFR_CODE :: u16 where "IXFR_CODE = 251"
definition ANY_CODE :: u16 where "ANY_CODE = 255"

lemmas rtype_defs = rt_A_def rt_NS_def rt_CNAME_def rt_SOA_def rt_PTR_def rt_MX_def rt_TXT_def
  rt_AAAA_def rt_DNAME_def rt_DS_def rt_RRSIG_def rt_NSEC_def rt_DNSKEY_def rt_NSEC3_def
  rt_NSEC3PARAM_def rt_CDS_def rt_CDNSKEY_def rt_SVCB_def rt_HTTPS_def AXFR_CODE_def
  IXFR_CODE_def ANY_CODE_def

definition is_meta :: "rtype \<Rightarrow> bool" where
  "is_meta t \<longleftrightarrow> t = ANY_CODE \<or> t = AXFR_CODE \<or> t = IXFR_CODE"

definition qtype_matches :: "qtype \<Rightarrow> rtype \<Rightarrow> bool" where
  "qtype_matches q t \<longleftrightarrow>
     (if q = ANY_CODE then \<not> (t = rt_RRSIG \<or> t = rt_NSEC \<or> t = rt_NSEC3) else q = t)"

definition qtype_is :: "qtype \<Rightarrow> rtype \<Rightarrow> bool" where
  "qtype_is q t \<longleftrightarrow> q = t"

section \<open>TTLs and serials\<close>

text \<open>The wire's \<^verbatim>\<open>i32\<close> is its 32 bits; it is negative when the top bit is set.\<close>

definition ttl_from_wire :: "u32 \<Rightarrow> ttl" where
  "ttl_from_wire s = (if sint s < 0 then 0 else s)"

definition ttl_to_wire :: "ttl \<Rightarrow> u32" where
  "ttl_to_wire t = t"

definition ttl_capped_at :: "ttl \<Rightarrow> u32 \<Rightarrow> ttl" where
  "ttl_capped_at t ceiling = (if t > ceiling then ceiling else t)"

definition ttl_negative_answer :: "ttl \<Rightarrow> u32 \<Rightarrow> ttl" where
  "ttl_negative_answer soa_ttl minimum = (if soa_ttl < minimum then soa_ttl else minimum)"

definition serial_is_newer_than :: "serial \<Rightarrow> serial \<Rightarrow> bool" where
  "serial_is_newer_than a b \<longleftrightarrow> (let fwd = a - b in fwd \<noteq> 0 \<and> fwd < 0x80000000)"

definition serial_wrapping_add :: "serial \<Rightarrow> u32 \<Rightarrow> serial" where
  "serial_wrapping_add s increment = s + increment"

section \<open>Response codes\<close>

datatype response_code =
    RcOk | FormatError | ServerFailure | NoSuchDomain | NotImplemented | Refused
  | DomainExistsForSomeReason | ResourceRecordSetExistsForSomeReason | NoSuchResourceRecordSet
  | NotAuthorized | NameNotInZone | DsoTypeNotImplemented | BadOptVersion | BadKey | BadTime
  | BadTkeyMode | BadName | BadAlgorithm | BadTruncation | BadCookie | OtherRc u16

definition rcode_from_u16 :: "u16 \<Rightarrow> response_code" where
  "rcode_from_u16 v =
     (if v = 0 then RcOk else if v = 1 then FormatError else if v = 2 then ServerFailure
      else if v = 3 then NoSuchDomain else if v = 4 then NotImplemented else if v = 5 then Refused
      else if v = 6 then DomainExistsForSomeReason
      else if v = 7 then ResourceRecordSetExistsForSomeReason
      else if v = 8 then NoSuchResourceRecordSet else if v = 9 then NotAuthorized
      else if v = 10 then NameNotInZone else if v = 11 then DsoTypeNotImplemented
      else if v = 16 then BadOptVersion else if v = 17 then BadKey else if v = 18 then BadTime
      else if v = 19 then BadTkeyMode else if v = 20 then BadName else if v = 21 then BadAlgorithm
      else if v = 22 then BadTruncation else if v = 23 then BadCookie else OtherRc v)"

fun rcode_to_u16 :: "response_code \<Rightarrow> u16" where
  "rcode_to_u16 RcOk = 0"
| "rcode_to_u16 FormatError = 1"
| "rcode_to_u16 ServerFailure = 2"
| "rcode_to_u16 NoSuchDomain = 3"
| "rcode_to_u16 NotImplemented = 4"
| "rcode_to_u16 Refused = 5"
| "rcode_to_u16 DomainExistsForSomeReason = 6"
| "rcode_to_u16 ResourceRecordSetExistsForSomeReason = 7"
| "rcode_to_u16 NoSuchResourceRecordSet = 8"
| "rcode_to_u16 NotAuthorized = 9"
| "rcode_to_u16 NameNotInZone = 10"
| "rcode_to_u16 DsoTypeNotImplemented = 11"
| "rcode_to_u16 BadOptVersion = 16"
| "rcode_to_u16 BadKey = 17"
| "rcode_to_u16 BadTime = 18"
| "rcode_to_u16 BadTkeyMode = 19"
| "rcode_to_u16 BadName = 20"
| "rcode_to_u16 BadAlgorithm = 21"
| "rcode_to_u16 BadTruncation = 22"
| "rcode_to_u16 BadCookie = 23"
| "rcode_to_u16 (OtherRc v) = v"

section \<open>Type names\<close>

text \<open>
  \<^verbatim>\<open>str::parse::<u16>\<close>: an optional plus sign, at least one decimal digit, and nothing over
  65535 (an overflow anywhere in the digits is an error, and more digits never undo it).
\<close>

definition parse_digits :: "string \<Rightarrow> nat" where
  "parse_digits s = foldl (\<lambda>n c. 10 * n + (of_char c - 48)) 0 s"

definition parse_u16 :: "string \<Rightarrow> u16 option" where
  "parse_u16 s =
     (let d = (case s of c # cs \<Rightarrow> if c = CHR ''+'' then cs else s | [] \<Rightarrow> s) in
      if d \<noteq> [] \<and> list_all (\<lambda>c. 48 \<le> (of_char c :: nat) \<and> of_char c \<le> (57 :: nat)) d \<and>
        parse_digits d \<le> 65535
      then Some (of_nat (parse_digits d)) else None)"

definition known_types :: "(rtype \<times> string) list" where
  "known_types =
     [(rt_A, ''A''), (rt_NS, ''NS''), (rt_CNAME, ''CNAME''), (rt_SOA, ''SOA''), (rt_PTR, ''PTR''),
      (rt_MX, ''MX''), (rt_TXT, ''TXT''), (rt_AAAA, ''AAAA''), (rt_DNAME, ''DNAME''),
      (rt_DS, ''DS''), (rt_CDS, ''CDS''), (rt_CDNSKEY, ''CDNSKEY''), (rt_SVCB, ''SVCB''),
      (rt_HTTPS, ''HTTPS''), (rt_DNSKEY, ''DNSKEY''), (rt_RRSIG, ''RRSIG''), (rt_NSEC, ''NSEC''),
      (rt_NSEC3, ''NSEC3'')]"

definition record_type_name_to_code :: "string \<Rightarrow> rtype option" where
  "record_type_name_to_code kind =
     (case map_of (map (\<lambda>(t, n). (n, t)) known_types) kind of
        Some t \<Rightarrow> Some t
      | None \<Rightarrow>
          if take 4 kind = ''TYPE'' \<or> take 4 kind = ''type'' then parse_u16 (drop 4 kind) else None)"

definition record_type_name :: "rtype \<Rightarrow> string" where
  "record_type_name code =
     (case map_of known_types code of Some n \<Rightarrow> n | None \<Rightarrow> ''TYPE'' @ show_nat (unat code))"

definition qtype_name_to_code :: "string \<Rightarrow> qtype option" where
  "qtype_name_to_code nm =
     (if nm = ''ANY'' \<or> nm = ''*'' then Some ANY_CODE
      else if nm = ''AXFR'' then Some AXFR_CODE
      else if nm = ''IXFR'' then Some IXFR_CODE
      else record_type_name_to_code nm)"

definition qtype_name :: "qtype \<Rightarrow> string" where
  "qtype_name q =
     (if q = ANY_CODE then ''ANY'' else if q = AXFR_CODE then ''AXFR''
      else if q = IXFR_CODE then ''IXFR'' else record_type_name q)"

section \<open>The codes are kept\<close>

lemma query_class_inv [simp]: "query_class_to_u16 (query_class_from_u16 v) = v"
  by (simp add: query_class_from_u16_def)

lemma rcode_inv [simp]: "rcode_to_u16 (rcode_from_u16 v) = v"
  by (simp add: rcode_from_u16_def)

lemma opcode_inv [simp]: "opcode_to_u8 (opcode_from_u8 v) = v AND 0x0f"
  by (simp add: opcode_from_u8_def Let_def)

text \<open>The values the message parser can produce: those the conversion from the wire yields.\<close>

definition opcode_ok :: "opcode \<Rightarrow> bool" where
  "opcode_ok op \<longleftrightarrow> opcode_from_u8 (opcode_to_u8 op) = op"

definition query_class_ok :: "query_class \<Rightarrow> bool" where
  "query_class_ok q \<longleftrightarrow> query_class_from_u16 (query_class_to_u16 q) = q"

definition rcode_ok :: "response_code \<Rightarrow> bool" where
  "rcode_ok r \<longleftrightarrow> rcode_from_u16 (rcode_to_u16 r) = r"

text \<open>
  The conversions between codes and their enumerations lose nothing: a class and a response
  code go back to the wire as they came, an opcode as its low four bits, and converting
  again yields the same value.
\<close>

theorem codes_round_trip:
  "query_class_to_u16 (query_class_from_u16 c) = c \<and> rcode_to_u16 (rcode_from_u16 r) = r \<and>
   opcode_to_u8 (opcode_from_u8 v) = v AND 0x0f \<and>
   query_class_ok (query_class_from_u16 c) \<and> rcode_ok (rcode_from_u16 r) \<and>
   opcode_ok (opcode_from_u8 v)"
  by (simp add: query_class_ok_def rcode_ok_def opcode_ok_def)
    (simp add: opcode_from_u8_def and.assoc)

section \<open>Serial number arithmetic\<close>

text \<open>
  RFC 1982 comparison: a serial is never newer than itself, never newer both ways, one of
  two different serials is newer unless they are exactly half the space apart, and adding
  an increment below half the space makes a newer serial, across the wrap.
\<close>

theorem serial_order:
  "\<not> serial_is_newer_than a a \<and>
   \<not> (serial_is_newer_than a b \<and> serial_is_newer_than b a) \<and>
   (serial_is_newer_than a b \<or> serial_is_newer_than b a \<longleftrightarrow> a \<noteq> b \<and> a - b \<noteq> 0x80000000) \<and>
   (serial_is_newer_than (serial_wrapping_add a n) a \<longleftrightarrow> n \<noteq> 0 \<and> n < 0x80000000)"
proof -
  have sub: "unat (x - y) = (if unat y \<le> unat x then unat x - unat y else unat x + 2 ^ 32 - unat y)"
    for x y :: u32
    using unat_sub_if' [of x y] by (simp add: word_le_nat_alt)
  have "unat a < 2 ^ 32" "unat b < 2 ^ 32"
    using unsigned_less [of a] unsigned_less [of b] by simp_all
  then show ?thesis
    unfolding serial_is_newer_than_def serial_wrapping_add_def Let_def word_less_nat_alt
      word_unat_eq_iff
    by (auto simp: sub)
qed

section \<open>Time to live\<close>

lemma ttl_from_wire_conv: "ttl_from_wire t = (if t < 0x80000000 then t else 0)"
proof -
  have lt: "uint t < 2 ^ 32" "0 \<le> uint t" using unsigned_less [of t] by simp_all
  have s: "sint t = (uint t + 2 ^ 31) mod 2 ^ 32 - 2 ^ 31"
    by (simp add: sint_uint signed_take_bit_eq_take_bit_shift take_bit_eq_mod)
  have "sint t < 0 \<longleftrightarrow> \<not> uint t < 2 ^ 31"
  proof (cases "uint t < 2 ^ 31")
    case True
    then have "(uint t + 2 ^ 31) mod 2 ^ 32 = uint t + 2 ^ 31" using lt by (intro mod_pos_pos_trivial) auto
    with True lt show ?thesis by (simp add: s)
  next
    case False
    then have "(uint t + 2 ^ 31) mod 2 ^ 32 = (uint t - 2 ^ 31) mod 2 ^ 32"
      using mod_add_self2 [of "uint t - 2 ^ 31" "2 ^ 32"] by (simp add: algebra_simps)
    also have "\<dots> = uint t - 2 ^ 31" using lt False by (intro mod_pos_pos_trivial) auto
    finally show ?thesis using False lt by (simp add: s)
  qed
  then show ?thesis by (simp add: ttl_from_wire_def word_less_alt)
qed

text \<open>
  RFC 2181 section 8: a TTL read from the wire is its own value below the top bit and zero
  above it, so it is never over 2147483647; and the TTL of a negative answer is the lesser
  of the SOA's own and its MINIMUM, and so never more than either.
\<close>

theorem ttl_rules:
  "ttl_from_wire t = (if t < 0x80000000 then t else 0) \<and> unat (ttl_from_wire t) \<le> 2147483647 \<and>
   ttl_negative_answer s m = min s m \<and> ttl_capped_at t c \<le> c \<and> ttl_capped_at t c \<le> t"
proof -
  have "unat (ttl_from_wire t) \<le> 2147483647"
    by (simp add: ttl_from_wire_conv word_less_nat_alt)
  then show ?thesis
    by (auto simp: ttl_from_wire_conv ttl_negative_answer_def ttl_capped_at_def min_def)
qed

section \<open>Type names read back\<close>

lemma of_char_digit: "d < 10 \<Longrightarrow> (of_char (char_of (unat (digit d))) :: nat) = 48 + d"
proof -
  assume "d < 10"
  then have "unat (digit d) = 48 + d" unfolding digit_def by (intro unat_of_nat_byte) simp
  with \<open>d < 10\<close> show ?thesis by simp
qed

lemma show_nat_digits:
  "show_nat n \<noteq> [] \<and>
   list_all (\<lambda>c. 48 \<le> (of_char c :: nat) \<and> of_char c \<le> (57 :: nat)) (show_nat n) \<and>
   parse_digits (show_nat n) = n"
proof (induction n rule: dec.induct)
  case (1 n)
  show ?case
  proof (cases "n < 10")
    case True
    then show ?thesis using of_char_digit [of n]
      by (simp add: show_nat_def dec.simps [of n] text_of_def parse_digits_def)
  next
    case False
    have d: "show_nat n = show_nat (n div 10) @ [char_of (unat (digit (n mod 10)))]"
      using False by (simp add: show_nat_def dec.simps [of n] text_of_def)
    have "parse_digits (show_nat n) = 10 * parse_digits (show_nat (n div 10)) + n mod 10"
      using of_char_digit [of "n mod 10"] by (simp add: d parse_digits_def)
    with "1.IH" [OF False] show ?thesis using of_char_digit [of "n mod 10"] by (simp add: d)
  qed
qed

lemma parse_u16_show [simp]: "parse_u16 (show_nat (unat (c :: u16))) = Some c"
proof -
  let ?s = "show_nat (unat c)"
  obtain x xs where s: "?s = x # xs" using show_nat_digits [of "unat c"] by (cases ?s) auto
  have "x \<noteq> CHR ''+''" using show_nat_digits [of "unat c"] s by auto
  moreover have "unat c < 2 ^ 16" using unsigned_less [of c] by (simp only: len_num1 len_bit0 len_num0)
    simp
  ultimately show ?thesis using show_nat_digits [of "unat c"] s by (simp add: parse_u16_def)
qed

lemma record_type_name_known:
  "map_of known_types t = Some n \<Longrightarrow> record_type_name_to_code n = Some t"
proof -
  assume "map_of known_types t = Some n"
  then have "(t, n) \<in> set known_types" by (rule map_of_SomeD)
  moreover have "list_all (\<lambda>(t, n). record_type_name_to_code n = Some t) known_types" by code_simp
  ultimately show ?thesis by (auto simp: list_all_iff)
qed

text \<open>
  Every type and every question type prints as a name that reads back as the same code,
  the generic \<^verbatim>\<open>TYPEnnn\<close> form included.
\<close>

theorem type_names_round_trip:
  "record_type_name_to_code (record_type_name t) = Some t \<and>
   qtype_name_to_code (qtype_name q) = Some q"
proof -
  have r: "record_type_name_to_code (record_type_name t) = Some t" for t
  proof (cases "map_of known_types t")
    case None
    have "map_of (map (\<lambda>(t, n). (n, t)) known_types) (''TYPE'' @ show_nat (unat t)) = None"
      by (simp add: known_types_def)
    with None show ?thesis by (simp add: record_type_name_def record_type_name_to_code_def)
  next
    case (Some n)
    then show ?thesis by (simp add: record_type_name_def record_type_name_known)
  qed
  have "record_type_name t \<notin> {''ANY'', ''*'', ''AXFR'', ''IXFR''}" for t
  proof (cases "map_of known_types t")
    case (Some n)
    then have "(t, n) \<in> set known_types" by (rule map_of_SomeD)
    moreover have "list_all (\<lambda>(t, n). n \<notin> {''ANY'', ''*'', ''AXFR'', ''IXFR''}) known_types"
      by code_simp
    ultimately show ?thesis using Some by (auto simp: record_type_name_def list_all_iff)
  qed (simp add: record_type_name_def)
  with r show ?thesis
    by (auto simp: qtype_name_def qtype_name_to_code_def)
qed

end
