(* ===== verification/Compression.thy ===== *)
theory Compression
  imports Names Codes
begin

text \<open>
  \<^verbatim>\<open>rdns-core/src/compression.rs\<close> and \<^verbatim>\<open>rdns-core/src/folded_hash.rs\<close>: writing names into a
  message with compression pointers. The state is the compressor's tables and the buffer
  being filled; both survive an error, as they do behind \<^verbatim>\<open>&mut\<close>. The invariant \<open>comp_inv\<close>
  says that every suffix in the table is spelled, at the offset the table gives, by octets
  of the buffer that later writes leave alone, through a chain of pointers shorter than the
  suffix. So what \<^verbatim>\<open>write_name\<close> writes is read back as the same name up to ASCII case.
\<close>

section \<open>The code\<close>

definition folded_hash :: "bytes \<Rightarrow> u64" where
  "folded_hash bs =
     foldl (\<lambda>hash b. (hash XOR ucast (to_lower b)) * 0x100000001b3) 0xcbf29ce484222325 bs"

record suffix_entry =
  sx_start :: u32
  sx_end :: u32
  sx_offset :: u16

record name_compressor =
  arena :: bytes
  seen :: "suffix_entry list"
  index :: "(u64 \<times> u32) list"

definition SCAN_LIMIT :: nat where "SCAN_LIMIT = 128"

definition compressor_new :: name_compressor where
  "compressor_new = \<lparr>arena = [], seen = [], index = []\<rparr>"

definition compressor_clear :: "name_compressor \<Rightarrow> name_compressor" where
  "compressor_clear c = c\<lparr>arena := [], seen := [], index := []\<rparr>"

text \<open>\<^verbatim>\<open>partition_point\<close> on a slice that its predicate partitions: the length of the prefix.\<close>

definition partition_point :: "('a \<Rightarrow> bool) \<Rightarrow> 'a list \<Rightarrow> nat" where
  "partition_point P xs = length (takeWhile P xs)"

definition compressor_rewind :: "nat \<Rightarrow> name_compressor \<Rightarrow> name_compressor" where
  "compressor_rewind at c =
     (let keep = partition_point (\<lambda>s. unat (sx_offset s) < at) (seen c) in
      if keep = length (seen c) then c
      else c\<lparr>seen := take keep (seen c), index := filter (\<lambda>(_, i). unat i < keep) (index c)\<rparr>)"

definition entry_bytes :: "name_compressor \<Rightarrow> suffix_entry \<Rightarrow> bytes" where
  "entry_bytes c e = seg (arena c) (unat (sx_start e)) (unat (sx_end e))"

text \<open>
  The table lookup. The index is an association list without repeated keys; that its values
  are positions of \<open>seen\<close> is part of the invariant.
\<close>

definition compressor_lookup :: "name_compressor \<Rightarrow> bytes \<Rightarrow> u16 option" where
  "compressor_lookup c needle =
     (if index c = [] then
        map_option sx_offset (find (\<lambda>s. eq_ignore_case (entry_bytes c s) needle) (seen c))
      else case map_of (index c) (folded_hash needle) of
          None \<Rightarrow> None
        | Some i \<Rightarrow>
            let entry = seen c ! unat i in
            if eq_ignore_case (entry_bytes c entry) needle then Some (sx_offset entry) else None)"

definition note_entry :: "nat \<Rightarrow> name_compressor \<Rightarrow> name_compressor" where
  "note_entry i c =
     (let hash = folded_hash (entry_bytes c (seen c ! i)) in
      case map_of (index c) hash of
        Some _ \<Rightarrow> c
      | None \<Rightarrow> c\<lparr>index := (hash, of_nat i) # index c\<rparr>)"

definition index_from :: "nat \<Rightarrow> name_compressor \<Rightarrow> name_compressor" where
  "index_from first c =
     (if index c = [] then
        if length (seen c) \<le> SCAN_LIMIT then c else fold note_entry [0..<length (seen c)] c
      else fold note_entry [first..<length (seen c)] c)"

text \<open>The buffer and the compressor a writer works on.\<close>

record out_state =
  compressor :: name_compressor
  buf :: bytes

definition write_bytes :: "nat \<Rightarrow> bytes \<Rightarrow> (out_state, nat) st" where
  "write_bytes pos bs = (\<lambda>s.
     let end_pos = pos + length bs in
     if end_pos > length (buf s)
     then (Inl (Truncated ''the output buffer'' end_pos (length (buf s))), s)
     else (Inr end_pos, s\<lparr>buf := take pos (buf s) @ bs @ drop end_pos (buf s)\<rparr>))"

text \<open>The two loops over \<^verbatim>\<open>name.ancestors()\<close> in \<^verbatim>\<open>write_name\<close>.\<close>

fun match_loop :: "name_compressor \<Rightarrow> nat \<Rightarrow> name list \<Rightarrow> (nat \<times> u16) option" where
  "match_loop c len [] = None"
| "match_loop c len (ancestor # rest) =
     (if is_root ancestor then None
      else case compressor_lookup c ancestor of
          Some target \<Rightarrow> Some (len - length ancestor, target)
        | None \<Rightarrow> match_loop c len rest)"

fun fresh_loop :: "nat \<Rightarrow> nat \<Rightarrow> nat \<Rightarrow> nat \<Rightarrow> nat \<Rightarrow> name list \<Rightarrow> suffix_entry list" where
  "fresh_loop pos base end_pos len fresh_end [] = []"
| "fresh_loop pos base end_pos len fresh_end (ancestor # rest) =
     (let start = len - length ancestor in
      if start \<ge> fresh_end then []
      else (if pos + start \<le> unat POINTER_MASK
            then [\<lparr>sx_start = of_nat (base + start), sx_end = of_nat end_pos,
                   sx_offset = of_nat (pos + start)\<rparr>]
            else []) @ fresh_loop pos base end_pos len fresh_end rest)"

definition record_fresh :: "name \<Rightarrow> nat \<Rightarrow> nat \<Rightarrow> name_compressor \<Rightarrow> name_compressor" where
  "record_fresh wire pos fresh_end c =
     (if fresh_end > 0 then
        let first_new = length (seen c); base = length (arena c); arena' = arena c @ wire in
        index_from first_new
          (c\<lparr>arena := arena',
             seen := seen c @
               fresh_loop pos base (length arena') (length wire) fresh_end (ancestors wire)\<rparr>)
      else c)"

text \<open>The octets written: the fresh labels, then the pointer or the root.\<close>

definition write_parts :: "bytes \<Rightarrow> (nat \<times> u16) option \<Rightarrow> nat \<Rightarrow> (out_state, nat) st" where
  "write_parts bs matched pos =
     sbind (write_bytes pos bs)
       (\<lambda>out. case matched of
            Some (_, target) \<Rightarrow> write_bytes out (be16 (POINTER_TAG OR target))
          | None \<Rightarrow> write_bytes out [0])"

definition write_name :: "name \<Rightarrow> nat \<Rightarrow> (out_state, nat) st" where
  "write_name wire pos = (\<lambda>s.
     if is_root wire then write_bytes pos [0] s
     else
       let matched = match_loop (compressor s) (length wire) (ancestors wire);
           fresh_end = (case matched of None \<Rightarrow> length wire - 1 | Some (start, _) \<Rightarrow> start) in
       write_parts (take fresh_end wire) matched pos
         (s\<lparr>compressor := record_fresh wire pos fresh_end (compressor s)\<rparr>))"

definition write_rdata :: "rtype \<Rightarrow> bytes \<Rightarrow> nat \<Rightarrow> (out_state, nat) st" where
  "write_rdata t rdata pos =
     (if t = rt_NS \<or> t = rt_CNAME \<or> t = rt_PTR then
        sbind (slift (from_wire rdata)) (\<lambda>(name, rest).
        sbind (write_name name pos) (\<lambda>pos.
        write_bytes pos rest))
      else if t = rt_SOA then
        sbind (slift (from_wire rdata)) (\<lambda>(mname, rest).
        sbind (slift (from_wire rest)) (\<lambda>(rname, rest).
        sbind (write_name mname pos) (\<lambda>pos.
        sbind (write_name rname pos) (\<lambda>pos.
        write_bytes pos rest))))
      else if t = rt_MX then
        if length rdata < 2 then slift (Inl (Truncated ''MX RDATA'' 2 (length rdata)))
        else
          sbind (write_bytes pos (take 2 rdata)) (\<lambda>pos.
          sbind (slift (from_wire (drop 2 rdata))) (\<lambda>(exchange, rest).
          sbind (write_name exchange pos) (\<lambda>pos.
          write_bytes pos rest)))
      else write_bytes pos rdata)"

section \<open>What a write leaves alone\<close>

text \<open>A table that has only gained entries at \<open>p\<close> or later.\<close>

definition index_ok :: "name_compressor \<Rightarrow> bool" where
  "index_ok c \<longleftrightarrow> (\<forall>(k, i) \<in> set (index c). unat i < length (seen c))"

definition grows :: "nat \<Rightarrow> name_compressor \<Rightarrow> name_compressor \<Rightarrow> bool" where
  "grows p c c' \<longleftrightarrow>
     (\<exists>new xs. seen c' = seen c @ new \<and> arena c' = arena c @ xs \<and>
        (\<forall>e \<in> set new. p \<le> unat (sx_offset e))) \<and> (index_ok c \<longrightarrow> index_ok c')"

lemma grows_refl [simp]: "grows p c c"
  by (simp add: grows_def)

lemma grows_trans: "grows p c d \<Longrightarrow> grows q d e \<Longrightarrow> p \<le> q \<Longrightarrow> grows p c e"
  unfolding grows_def by (fastforce intro: order_trans)

text \<open>Indexing changes nothing but the index, and keeps its positions in range.\<close>

lemma note_entry_keeps:
  "arena (note_entry i c) = arena c \<and> seen (note_entry i c) = seen c \<and>
   (i < length (seen c) \<longrightarrow> index_ok c \<longrightarrow> index_ok (note_entry i c))"
proof -
  have "unat (of_nat i :: u32) \<le> i" by (simp add: unat_of_nat take_bit_eq_mod)
  then show ?thesis by (auto simp: note_entry_def index_ok_def Let_def split: option.splits)
qed

lemma fold_note_keeps:
  assumes "\<forall>i \<in> set is. i < length (seen c)" and "index_ok c"
  shows "arena (fold note_entry is c) = arena c \<and> seen (fold note_entry is c) = seen c \<and>
    index_ok (fold note_entry is c)"
  using assms
proof (induction "is" arbitrary: c)
  case (Cons i ns)
  from Cons.IH [of "note_entry i c"] Cons.prems note_entry_keeps [of i c] show ?case by simp
qed simp

lemma index_from_keeps:
  assumes "index_ok c"
  shows "arena (index_from n c) = arena c \<and> seen (index_from n c) = seen c \<and> index_ok (index_from n c)"
proof -
  have f: "arena (fold note_entry [k..<length (seen c)] c) = arena c \<and>
      seen (fold note_entry [k..<length (seen c)] c) = seen c \<and>
      index_ok (fold note_entry [k..<length (seen c)] c)" for k
    using assms by (intro fold_note_keeps) auto
  show ?thesis
    unfolding index_from_def using f [of 0] f [of n] assms by simp
qed

lemma index_from_table: "arena (index_from n c) = arena c" "seen (index_from n c) = seen c"
proof -
  have "arena (fold note_entry is c) = arena c \<and> seen (fold note_entry is c) = seen c" for "is"
    by (induction "is" arbitrary: c) (simp_all add: note_entry_keeps)
  then show "arena (index_from n c) = arena c" "seen (index_from n c) = seen c"
    by (simp_all add: index_from_def)
qed

lemma fresh_loop_offsets:
  "e \<in> set (fresh_loop pos base en len fe as) \<Longrightarrow> pos \<le> unat (sx_offset e)"
proof (induction "as")
  case (Cons a "as")
  have "unat (of_nat (pos + (len - length a)) :: u16) = pos + (len - length a)"
    if "pos + (len - length a) \<le> 0x3fff"
    using that by (simp add: unat_of_nat take_bit_eq_mod del: of_nat_add)
  with Cons show ?case
    by (auto simp: Let_def POINTER_MASK_def simp del: of_nat_add split: if_splits)
qed simp

lemma grows_record_fresh: "grows pos c (record_fresh wire pos fe c)"
proof -
  let ?d = "c\<lparr>arena := arena c @ wire, seen := seen c @
    fresh_loop pos (length (arena c)) (length (arena c @ wire)) (length wire) fe (ancestors wire)\<rparr>"
  have "index_ok c \<Longrightarrow> index_ok ?d" by (fastforce simp: index_ok_def)
  then have "grows pos c (index_from (length (seen c)) ?d)"
    using index_from_keeps [of ?d] fresh_loop_offsets [of _ pos]
    unfolding grows_def index_from_table by auto
  then show ?thesis by (simp add: record_fresh_def Let_def)
qed

text \<open>
  A writer that starts at \<open>p\<close>: it keeps the buffer's length and the octets before \<open>p\<close>, and the
  table's entries from before.
\<close>

definition writes_from :: "nat \<Rightarrow> (out_state, nat) st \<Rightarrow> bool" where
  "writes_from p m \<longleftrightarrow> (\<forall>s. length (buf (snd (m s))) = length (buf s) \<and>
     take p (buf (snd (m s))) = take p (buf s) \<and> grows p (compressor s) (compressor (snd (m s))) \<and>
     (\<forall>q. fst (m s) = Inr q \<longrightarrow> p \<le> q \<and> q \<le> length (buf s)))"

lemma write_bytes_ok:
  "write_bytes pos bs s = (Inr q, s') \<longleftrightarrow>
     q = pos + length bs \<and> q \<le> length (buf s) \<and>
     s' = s\<lparr>buf := take pos (buf s) @ bs @ drop q (buf s)\<rparr>"
  by (auto simp: write_bytes_def Let_def)

lemma write_bytes_fails:
  "fst (write_bytes pos bs s) = Inl e \<Longrightarrow> \<exists>n h. e = Truncated ''the output buffer'' n h"
  by (auto simp: write_bytes_def Let_def split: if_splits)

lemma writes_from_bytes: "p \<le> pos \<Longrightarrow> writes_from p (write_bytes pos bs)"
  by (auto simp: writes_from_def write_bytes_def Let_def)

lemma writes_fromD:
  assumes "writes_from p m"
  shows "length (buf (snd (m s))) = length (buf s)"
    and "take p (buf (snd (m s))) = take p (buf s)"
    and "grows p (compressor s) (compressor (snd (m s)))"
    and "fst (m s) = Inr q \<Longrightarrow> p \<le> q \<and> q \<le> length (buf s)"
  using assms by (auto simp: writes_from_def)

lemma take_mono_eq: "take q xs = take q ys \<Longrightarrow> p \<le> q \<Longrightarrow> take p xs = take p ys"
  by (metis min.absorb1 take_take)

lemma writes_from_sbind:
  assumes m: "writes_from p m" and f: "\<And>x. p \<le> x \<Longrightarrow> writes_from x (f x)"
  shows "writes_from p (sbind m f)"
  unfolding writes_from_def
proof (intro allI)
  fix s
  obtain r s' where ms: "m s = (r, s')" by (cases "m s")
  show "length (buf (snd (sbind m f s))) = length (buf s) \<and>
     take p (buf (snd (sbind m f s))) = take p (buf s) \<and>
     grows p (compressor s) (compressor (snd (sbind m f s))) \<and>
     (\<forall>q. fst (sbind m f s) = Inr q \<longrightarrow> p \<le> q \<and> q \<le> length (buf s))"
  proof (cases r)
    case (Inl e)
    with ms writes_fromD [OF m, of s] show ?thesis by simp
  next
    case (Inr x)
    then have p: "p \<le> x" using ms writes_fromD(4) [OF m, of s x] by simp
    have "take p (buf (snd (f x s'))) = take p (buf s')"
      using writes_fromD(2) [OF f [OF p], of s'] p by (rule take_mono_eq)
    moreover have "grows p (compressor s) (compressor (snd (f x s')))"
      using writes_fromD(3) [OF m, of s] writes_fromD(3) [OF f [OF p], of s'] p ms
      by (auto intro: grows_trans)
    ultimately show ?thesis
      using p ms Inr writes_fromD [OF m, of s] writes_fromD(1,4) [OF f [OF p], of s']
      by (auto intro: order_trans)
  qed
qed

lemma writes_from_slift:
  "(\<And>x. writes_from p (f x)) \<Longrightarrow> writes_from p (sbind (slift r) f)"
  by (cases r) (auto simp: writes_from_def sbind_def)

lemma writes_from_fail: "writes_from p (slift (Inl e))"
  by (simp add: writes_from_def)

lemma writes_from_weaken: "writes_from q m \<Longrightarrow> p \<le> q \<Longrightarrow> writes_from p m"
  unfolding writes_from_def by (meson grows_refl grows_trans order_trans take_mono_eq)

lemma writes_from_parts: "writes_from pos (write_parts bs matched pos)"
  unfolding write_parts_def
  by (rule writes_from_sbind) (auto split: option.splits intro: writes_from_bytes)

lemma writes_from_write_name: "writes_from pos (write_name wire pos)"
proof -
  have "length (buf (snd (write_name wire pos s))) = length (buf s) \<and>
      take pos (buf (snd (write_name wire pos s))) = take pos (buf s) \<and>
      grows pos (compressor s) (compressor (snd (write_name wire pos s))) \<and>
      (\<forall>q. fst (write_name wire pos s) = Inr q \<longrightarrow> pos \<le> q \<and> q \<le> length (buf s))" for s
  proof (cases "is_root wire")
    case True
    then show ?thesis
      using writes_fromD [OF writes_from_bytes [of pos pos "[0]"], of s] by (simp add: write_name_def)
  next
    case False
    let ?m = "match_loop (compressor s) (length wire) (ancestors wire)"
    let ?n = "case ?m of None \<Rightarrow> length wire - 1 | Some (start, _) \<Rightarrow> start"
    show ?thesis
      using False writes_fromD [OF writes_from_parts [of pos "take ?n wire" ?m],
          of "s\<lparr>compressor := record_fresh wire pos ?n (compressor s)\<rparr>"]
        grows_trans [OF grows_record_fresh [of pos "compressor s" wire ?n]]
      by (simp add: write_name_def Let_def)
  qed
  then show ?thesis by (simp add: writes_from_def)
qed

lemma writes_from_split: "(\<And>a b. writes_from p (f a b)) \<Longrightarrow> writes_from p (case x of (a, b) \<Rightarrow> f a b)"
  by (simp add: case_prod_beta)

lemma writes_from_write_rdata: "writes_from pos (write_rdata t rdata pos)"
proof -
  have tail: "writes_from pos (sbind (write_name n pos) (\<lambda>pos. write_bytes pos rest))" for n pos rest
    by (intro writes_from_sbind writes_from_write_name writes_from_bytes order_refl)
  have soa: "writes_from pos (sbind (write_name n pos) (\<lambda>pos.
      sbind (write_name k pos) (\<lambda>pos. write_bytes pos rest)))" for n k pos rest
    by (intro writes_from_sbind writes_from_write_name tail)
  have mx: "writes_from pos (sbind (write_bytes pos hd_part) (\<lambda>pos.
      sbind (slift r) (\<lambda>(n, rest). sbind (write_name n pos) (\<lambda>pos. write_bytes pos rest))))"
    for hd_part r pos
    by (rule writes_from_sbind [OF writes_from_bytes [OF order_refl]])
      (intro writes_from_slift writes_from_split tail)
  show ?thesis
    unfolding write_rdata_def
    by (simp add: mx writes_from_bytes writes_from_fail)
      (intro conjI impI writes_from_slift writes_from_split tail soa)
qed

lemmas writes_from_intros = writes_from_sbind writes_from_bytes writes_from_write_name
  writes_from_write_rdata order_refl

section \<open>What the buffer spells\<close>

text \<open>
  \<open>spells M K o ls h e\<close>: the octets of \<open>M\<close> from \<open>o\<close> to \<open>e\<close>, and those they point to, spell the
  labels \<open>ls\<close> through \<open>h\<close> pointers, and all of these octets are at positions in \<open>K\<close>. The
  positions are what makes the fact survive later writes elsewhere.
\<close>

inductive spells :: "bytes \<Rightarrow> nat set \<Rightarrow> nat \<Rightarrow> bytes list \<Rightarrow> nat \<Rightarrow> nat \<Rightarrow> bool"
  for M :: bytes and K :: "nat set" where
  literal: "labels_ok ls \<Longrightarrow> e = pos + length (wire_of ls) \<Longrightarrow> e \<le> length M \<Longrightarrow>
    {pos..<e} \<subseteq> K \<Longrightarrow> seg M pos e = wire_of ls \<Longrightarrow> spells M K pos ls 0 e"
| pointer: "labels_ok ls \<Longrightarrow> e = pos + length (wire_labels ls) + 2 \<Longrightarrow> e \<le> length M \<Longrightarrow>
    {pos..<e} \<subseteq> K \<Longrightarrow> seg M pos e = wire_labels ls @ [hi, lo] \<Longrightarrow> 192 \<le> unat hi \<Longrightarrow>
    ptr_target hi lo < pos \<Longrightarrow> spells M K (ptr_target hi lo) ks h e' \<Longrightarrow>
    spells M K pos (ls @ ks) (Suc h) e"

lemma seg_cong:
  assumes "b \<le> length xs" "b \<le> length ys" "\<And>i. a \<le> i \<Longrightarrow> i < b \<Longrightarrow> xs ! i = ys ! i"
  shows "seg xs a b = seg ys a b"
  using assms by (intro nth_equalityI) (auto simp: seg_def)

lemma spells_bounds: "spells M K pos ls h e \<Longrightarrow> pos < e \<and> e \<le> length M \<and> {pos..<e} \<subseteq> K"
  by (induction rule: spells.induct) (auto simp: length_wire_of)

lemma spells_agree:
  assumes "spells M K pos ls h e" and "K \<subseteq> K'" and "\<And>k. k \<in> K \<Longrightarrow> k < length M' \<and> M' ! k = M ! k"
  shows "spells M' K' pos ls h e"
  using assms(1)
proof (induction rule: spells.induct)
  case (literal ls e pos)
  have "e - 1 \<in> K" using literal by (auto simp: length_wire_of)
  then have "e \<le> length M'" using assms(3) [of "e - 1"] by linarith
  moreover have "seg M' pos e = seg M pos e"
    using literal assms(3) calculation by (intro seg_cong) auto
  ultimately show ?case using literal assms(2) by (intro spells.literal) auto
next
  case (pointer ls e pos hi lo ks h e')
  have "e - 1 \<in> K" using pointer by auto
  then have "e \<le> length M'" using assms(3) [of "e - 1"] by linarith
  moreover have "seg M' pos e = seg M pos e"
    using pointer assms(3) calculation by (intro seg_cong) auto
  ultimately show ?case using pointer assms(2) by (intro spells.pointer [of ls e pos _ _ hi lo ks h e']) auto
qed

lemma drop_seg: "a \<le> b \<Longrightarrow> drop a xs = seg xs a b @ drop b xs"
  unfolding seg_def by (metis append_take_drop_id drop_drop le_add_diff_inverse2)

lemma spells_reads:
  "spells M K pos ls h e \<Longrightarrow> pos \<le> prev \<Longrightarrow> reads M prev (drop pos M) ls h (drop e M)"
proof (induction arbitrary: prev rule: spells.induct)
  case (literal ls e pos)
  then have "drop pos M = wire_of ls @ drop e M" using drop_seg [of pos e M] by simp
  with literal show ?case by (simp add: reads.literal)
next
  case (pointer ls e pos hi lo ks h e')
  then have "drop pos M = wire_labels ls @ hi # lo # drop e M" using drop_seg [of pos e M] by simp
  moreover have "reads M prev (wire_labels ls @ hi # lo # drop e M) (ls @ ks) (Suc h) (drop e M)"
    using pointer by (intro reads.pointer) auto
  ultimately show ?case by simp
qed

lemma spells_labels_ok: "spells M K pos ls h e \<Longrightarrow> labels_ok ls"
  by (induction rule: spells.induct) auto

lemma spells_decodes:
  assumes "spells M K pos ls h e" and "h \<le> 50" and "length (wire_of ls) \<le> 255"
    and "length M \<le> usize_MAX"
  shows "name_wire_from_bytes_in (drop pos M) M = Inr (wire_of ls, drop e M)"
proof -
  have "pos \<le> usize_MAX" using spells_bounds [OF assms(1)] assms(4) by simp
  from spells_reads [OF assms(1) this] assms(2,3) show ?thesis
    by (auto simp: name_wire_from_bytes_in_iff MAX_DEPTH_def MAX_NAME_LEN_def)
qed

text \<open>The two octets of a pointer.\<close>

lemma pointer_octets:
  assumes "unat t \<le> 0x3fff"
  obtains hi lo where "be16 (POINTER_TAG OR t) = [hi, lo]" "192 \<le> unat hi" "ptr_target hi lo = unat t"
proof -
  let ?w = "POINTER_TAG OR t"
  let ?hi = "ucast (drop_bit 8 ?w) :: byte" and ?lo = "ucast ?w :: byte"
  have mask: "(0x3fff :: u16) = mask 14" by (simp add: mask_eq_exp_minus_1)
  have "unat t < 2 ^ 14" using assms by simp
  then have small: "take_bit 14 t = t"
    by (simp add: take_bit_eq_mod word_unat_eq_iff unat_mod)
  have tag: "take_bit 14 POINTER_TAG = 0" by (simp add: POINTER_TAG_def)
  have "?w AND POINTER_MASK = t"
    unfolding POINTER_MASK_def mask by (simp add: take_bit_eq_mask [symmetric] tag small)
  then have "ptr_target ?hi ?lo = unat t" by (simp only: ptr_target_def from_be16_be16)
  moreover have "192 \<le> unat ?hi"
  proof -
    have "bit ?w 14" "bit ?w 15" by (simp_all add: POINTER_TAG_def bit_or_iff)
    then have "drop_bit 6 ?hi = 3"
      by (intro bit_eqI) (auto simp: bit_simps less_Suc_eq numeral_eq_Suc)
    then show ?thesis by (simp add: byte_kind_conv)
  qed
  ultimately show ?thesis using that [of ?hi ?lo] by (simp add: be16_def)
qed

section \<open>The compressor's invariant\<close>

definition entry_ok :: "name_compressor \<Rightarrow> bytes \<Rightarrow> nat set \<Rightarrow> suffix_entry \<Rightarrow> bool" where
  "entry_ok c b K e \<longleftrightarrow>
     unat (sx_end e) \<le> length (arena c) \<and> unat (sx_offset e) \<le> 0x3fff \<and>
     (\<exists>ls ks h q. labels_ok ls \<and> ls \<noteq> [] \<and> entry_bytes c e = wire_of ls \<and>
        spells b K (unat (sx_offset e)) ks h q \<and> map lower ks = map lower ls \<and> h < length ls)"

definition table_inv :: "name_compressor \<Rightarrow> bytes \<Rightarrow> nat set \<Rightarrow> nat \<Rightarrow> bool" where
  "table_inv c b K p \<longleftrightarrow>
     p \<le> length b \<and> (\<forall>k \<in> K. k < p) \<and> (\<forall>e \<in> set (seen c). entry_ok c b K e) \<and>
     (\<forall>e \<in> set (seen c). unat (sx_offset e) < p) \<and>
     sorted_wrt (<) (map (unat \<circ> sx_offset) (seen c)) \<and> index_ok c"

text \<open>The arena holds 255 octets for at least three written, so it stays below 4 GiB.\<close>

definition comp_inv :: "name_compressor \<Rightarrow> bytes \<Rightarrow> nat set \<Rightarrow> nat \<Rightarrow> bool" where
  "comp_inv c b K p \<longleftrightarrow> table_inv c b K p \<and> length (arena c) \<le> 128 * p"

lemma entry_ok_agree:
  assumes "entry_ok c b K e" and "K \<subseteq> K'" and "\<And>k. k \<in> K \<Longrightarrow> k < length b' \<and> b' ! k = b ! k"
    and "arena c' = arena c @ xs"
  shows "entry_ok c' b' K' e"
proof -
  have "entry_bytes c' e = entry_bytes c e"
    using assms(1,4) by (simp add: entry_ok_def entry_bytes_def seg_append_left)
  with assms(1,4) show ?thesis
    using spells_agree [OF _ assms(2,3)] unfolding entry_ok_def by (metis length_append trans_le_add1)
qed

lemma lookup_sound:
  assumes "index_ok c" and "compressor_lookup c needle = Some t"
  shows "\<exists>e \<in> set (seen c). sx_offset e = t \<and> lower (entry_bytes c e) = lower needle"
proof (cases "index c = []")
  case True
  with assms(2) show ?thesis
    by (auto simp: compressor_lookup_def eq_ignore_case_lower find_Some_iff)
next
  case False
  with assms(2) obtain i where i: "map_of (index c) (folded_hash needle) = Some i"
    and e: "lower (entry_bytes c (seen c ! unat i)) = lower needle" "sx_offset (seen c ! unat i) = t"
    by (auto simp: compressor_lookup_def eq_ignore_case_lower Let_def split: option.splits if_splits)
  from map_of_SomeD [OF i] assms(1) have "unat i < length (seen c)" by (auto simp: index_ok_def)
  with e show ?thesis by (intro bexI [of _ "seen c ! unat i"]) simp_all
qed

lemma unat_POINTER_MASK [simp]: "unat POINTER_MASK = 0x3fff"
  by (simp add: POINTER_MASK_def)

text \<open>What the match loop finds: a split of the labels, the second part in the table.\<close>

lemma match_loop_sound:
  assumes "match_loop c (n + length (wire_of ls)) (map wire_of (rev (suffixes ls))) = Some (start, t)"
  shows "\<exists>js ks. ls = js @ ks \<and> ks \<noteq> [] \<and> start = n + length (wire_labels js) \<and>
    compressor_lookup c (wire_of ks) = Some t"
  using assms
proof (induction ls arbitrary: n)
  case Nil
  then show ?case by (simp add: is_root_def)
next
  case (Cons l ls)
  show ?case
  proof (cases "compressor_lookup c (wire_of (l # ls))")
    case None
    with Cons.prems have
      "match_loop c (n + length l + 1 + length (wire_of ls)) (map wire_of (rev (suffixes ls))) = Some (start, t)"
      by (simp del: wire_of_simps) (simp add: ac_simps length_wire_of)
    from Cons.IH [OF this] obtain js ks where "ls = js @ ks" "ks \<noteq> []"
      "start = n + length l + 1 + length (wire_labels js)" "compressor_lookup c (wire_of ks) = Some t"
      by auto
    then show ?thesis by (intro exI [of _ "l # js"] exI [of _ ks]) simp
  next
    case (Some u)
    with Cons.prems have "u = t" "start = n" by (simp_all del: wire_of_simps)
    with Some show ?thesis by (intro exI [of _ "[]"] exI [of _ "l # ls"]) (simp del: wire_of_simps)
  qed
qed

text \<open>What the second loop records: every suffix that is written out, at its place.\<close>

lemma fresh_loop_step:
  "fresh_loop pos base en (n + length (wire_of (l # ls))) fe (map wire_of (rev (suffixes (l # ls)))) =
   (if fe \<le> n then []
    else (if pos + n \<le> 0x3fff
          then [\<lparr>sx_start = of_nat (base + n), sx_end = of_nat en, sx_offset = of_nat (pos + n)\<rparr>]
          else []) @
      fresh_loop pos base en (n + length l + 1 + length (wire_of ls)) fe (map wire_of (rev (suffixes ls))))"
proof -
  have len: "n + length l + 1 + length (wire_of ls) = n + length (wire_of (l # ls))"
    by (simp add: length_wire_of)
  show ?thesis unfolding len by (simp del: wire_of_simps of_nat_add)
qed

lemma fresh_loop_entries:
  assumes "e \<in> set (fresh_loop pos base en (n + length (wire_of ls)) fe (map wire_of (rev (suffixes ls))))"
  shows "\<exists>js ks. ls = js @ ks \<and> n + length (wire_labels js) < fe \<and>
    pos + n + length (wire_labels js) \<le> 0x3fff \<and>
    e = \<lparr>sx_start = of_nat (base + n + length (wire_labels js)), sx_end = of_nat en,
         sx_offset = of_nat (pos + n + length (wire_labels js))\<rparr>"
  using assms
proof (induction ls arbitrary: n)
  case Nil
  then show ?case by (auto simp: ac_simps split: if_splits)
next
  case (Cons l ls)
  let ?here = "\<lparr>sx_start = of_nat (base + n), sx_end = of_nat en, sx_offset = of_nat (pos + n)\<rparr>"
  let ?rest = "fresh_loop pos base en (n + length l + 1 + length (wire_of ls)) fe
    (map wire_of (rev (suffixes ls)))"
  from Cons.prems consider "e = ?here" "n < fe" "pos + n \<le> 0x3fff" | "e \<in> set ?rest"
    unfolding fresh_loop_step by (simp only: set_append Un_iff split: if_splits) auto
  then show ?case
  proof cases
    case 1
    then show ?thesis by (intro exI [of _ "[]"] exI [of _ "l # ls"]) simp
  next
    case 2
    from Cons.IH [OF this] obtain js ks where "ls = js @ ks" "n + length l + 1 + length (wire_labels js) < fe"
      "pos + (n + length l + 1) + length (wire_labels js) \<le> 0x3fff"
      "e = \<lparr>sx_start = of_nat (base + (n + length l + 1) + length (wire_labels js)), sx_end = of_nat en,
         sx_offset = of_nat (pos + (n + length l + 1) + length (wire_labels js))\<rparr>"
      by auto
    then show ?thesis by (intro exI [of _ "l # js"] exI [of _ ks]) (simp add: ac_simps)
  qed
qed

lemma fresh_loop_sorted:
  "sorted_wrt (<) (map (unat \<circ> sx_offset)
    (fresh_loop pos base en (n + length (wire_of ls)) fe (map wire_of (rev (suffixes ls))))) \<and>
   (\<forall>e \<in> set (fresh_loop pos base en (n + length (wire_of ls)) fe (map wire_of (rev (suffixes ls)))).
     pos + n \<le> unat (sx_offset e))"
proof (induction ls arbitrary: n)
  case Nil
  then show ?case by (auto simp: unat_of_nat take_bit_eq_mod Let_def simp del: of_nat_add)
next
  case (Cons l ls)
  have here: "unat (of_nat (pos + n) :: u16) = pos + n" if "pos + n \<le> 0x3fff"
    using that by (simp add: unat_of_nat take_bit_eq_mod del: of_nat_add)
  show ?case
    unfolding fresh_loop_step using Cons.IH [of "n + length l + 1"] here
    by (auto simp del: wire_of_simps of_nat_add)
qed

section \<open>Writing a name\<close>

text \<open>How the octets after the fresh labels end the name: at the root, or in a pointer.\<close>

definition ends_in :: "bytes \<Rightarrow> nat set \<Rightarrow> nat \<Rightarrow> bytes \<Rightarrow> bytes list \<Rightarrow> nat \<Rightarrow> bool" where
  "ends_in M K p tp ks h \<longleftrightarrow>
     tp = [0] \<and> ks = [] \<and> h = 0 \<or>
     (\<exists>hi lo h' e. tp = [hi, lo] \<and> 192 \<le> unat hi \<and> ptr_target hi lo < p \<and>
        spells M K (ptr_target hi lo) ks h' e \<and> h = Suc h')"

lemma written_suffix:
  assumes b': "b' = take p b @ wire_labels (j1 @ j2) @ tp @ drop q b"
    and q: "q = p + length (wire_labels (j1 @ j2)) + length tp" "q \<le> length b"
    and ok: "labels_ok (j1 @ j2)" and K: "{p..<q} \<subseteq> K" and e: "ends_in b' K p tp ks h"
  shows "spells b' K (p + length (wire_labels j1)) (j2 @ ks) h q"
proof -
  let ?at = "p + length (wire_labels j1)"
  have len: "length b' = length b" using b' q by simp
  have "b' = (take p b @ wire_labels j1) @ (wire_labels j2 @ tp) @ drop q b" using b' by simp
  moreover have "length (take p b @ wire_labels j1) = ?at" using q by simp
  moreover have "?at + length (wire_labels j2 @ tp) = q" using q by simp
  ultimately have seg: "seg b' ?at q = wire_labels j2 @ tp" by (metis seg_append_exact)
  have sub: "{?at..<q} \<subseteq> K" using K by auto
  from e show ?thesis unfolding ends_in_def
  proof (elim disjE conjE exE)
    assume t: "tp = [0]" "ks = []" "h = 0"
    show ?thesis
      unfolding t using t q len sub seg ok by (auto intro!: spells.literal simp: wire_of_def)
  next
    fix hi lo h' e'
    assume t: "tp = [hi, lo]" "192 \<le> unat hi" "ptr_target hi lo < p"
      "spells b' K (ptr_target hi lo) ks h' e'" "h = Suc h'"
    show ?thesis
      unfolding t(5)
      by (rule spells.pointer [where hi = hi and lo = lo and e' = e'])
        (use t q len sub seg ok in simp_all)
  qed
qed

lemma split_shorter:
  assumes "j1 @ k1 = js @ ms" and "length (wire_labels j1) < length (wire_labels js)"
  obtains j2 where "js = j1 @ j2" "j2 \<noteq> []" "k1 = j2 @ ms"
  using assms by (auto simp: append_eq_append_conv2)

lemma record_fresh_inv:
  assumes inv: "comp_inv c b K p" and ls: "labels_ok (js @ ms)" "length (wire_of (js @ ms)) \<le> 255"
    and small: "length b \<le> 2 ^ 24"
    and b': "b' = take p b @ wire_labels js @ tp @ drop q b"
    and q: "q = p + length (wire_labels js) + length tp" "q \<le> length b"
    and K': "K' = K \<union> {p..<q}" and e: "ends_in b' K' p tp ks h"
    and same: "map lower ks = map lower ms" and hops: "h \<le> length ms" and tp: "0 < length tp"
    and c': "c' = record_fresh (wire_of (js @ ms)) p (length (wire_labels js)) c"
  shows "comp_inv c' b' K' q"
proof -
  let ?wire = "wire_of (js @ ms)" and ?fe = "length (wire_labels js)"
  let ?new = "fresh_loop p (length (arena c)) (length (arena c @ ?wire)) (0 + length ?wire) ?fe
    (map wire_of (rev (suffixes (js @ ms))))"
  have I: "p \<le> length b" "\<forall>k \<in> K. k < p" "length (arena c) \<le> 128 * p"
    "\<forall>e \<in> set (seen c). entry_ok c b K e" "\<forall>e \<in> set (seen c). unat (sx_offset e) < p"
    "sorted_wrt (<) (map (unat \<circ> sx_offset) (seen c))"
    "index_ok c"
    using inv by (auto simp: comp_inv_def table_inv_def)
  have len: "length b' = length b" using b' q by simp
  have agree: "k < length b' \<and> b' ! k = b ! k" if "k \<in> K" for k
    using that I(1,2) len by (auto simp: b' nth_append)
  have old: "entry_ok d b' K' x" if "x \<in> set (seen c)" "arena d = arena c @ xs" for d x xs
    using entry_ok_agree [OF _ _ agree that(2)] that(1) I(4) by (auto simp: K')
  have Kq: "\<forall>k \<in> K'. k < q" using I(2) q by (auto simp: K' intro: less_le_trans)
  show ?thesis
  proof (cases "?fe = 0")
    case True
    then have "c' = c" by (simp add: c' record_fresh_def)
    then show ?thesis using I len q Kq old [of _ c "[]"] tp
      by (auto simp: comp_inv_def table_inv_def intro: less_le_trans)
  next
    case False
    let ?d = "c\<lparr>arena := arena c @ ?wire, seen := seen c @ ?new\<rparr>"
    have c'd: "c' = index_from (length (seen c)) ?d"
      using False by (simp add: c' record_fresh_def Let_def ancestors_wire [OF ls(1)] del: wire_of_simps)
    have idx: "index_ok ?d" using I(7) by (fastforce simp: index_ok_def)
    note keeps = index_from_keeps [OF idx, of "length (seen c)", folded c'd]
    have ar: "arena c' = arena c @ ?wire" and sn: "seen c' = seen c @ ?new" using keeps by simp_all
    have new: "entry_ok c' b' K' x \<and> unat (sx_offset x) < q" if "x \<in> set ?new" for x
    proof -
      from fresh_loop_entries [OF that] obtain j1 k1 where x: "js @ ms = j1 @ k1"
        "length (wire_labels j1) < ?fe" "p + length (wire_labels j1) \<le> 0x3fff"
        "x = \<lparr>sx_start = of_nat (length (arena c) + length (wire_labels j1)),
              sx_end = of_nat (length (arena c @ ?wire)), sx_offset = of_nat (p + length (wire_labels j1))\<rparr>"
        by auto
      obtain j2 where j: "js = j1 @ j2" "j2 \<noteq> []" "k1 = j2 @ ms"
        using split_shorter [OF x(1) [symmetric] x(2)] by blast
      have w: "?wire = wire_labels j1 @ wire_of k1" using x(1) by (simp add: wire_of_append)
      have bound: "length (arena c @ ?wire) < 2 ^ 32"
        using I(1,3) small ls(2) by simp
      have u: "unat (sx_start x) = length (arena c @ wire_labels j1)"
        "unat (sx_end x) = length (arena c @ wire_labels j1) + length (wire_of k1)"
        "unat (sx_offset x) = p + length (wire_labels j1)"
        using bound x(3) unfolding x(4) w by (simp_all add: unat_of_nat take_bit_eq_mod del: of_nat_add)
      have "entry_bytes c' x = wire_of k1"
        unfolding entry_bytes_def u ar w using seg_append_exact [of "arena c @ wire_labels j1" "wire_of k1" "[]"]
        by simp
      moreover have "spells b' K' (unat (sx_offset x)) (j2 @ ks) h q"
        unfolding u by (rule written_suffix [OF b' [unfolded j(1)] q [unfolded j(1)] _ _ e])
          (use ls(1) j K' in auto)
      moreover have "map lower (j2 @ ks) = map lower k1" using same j by simp
      moreover have "h < length k1" using hops j by (cases j2) auto
      moreover have "unat (sx_end x) \<le> length (arena c')" using u w by (simp add: ar)
      moreover have "labels_ok k1" "k1 \<noteq> []" using x(1) ls(1) j by auto
      moreover have "unat (sx_offset x) < q" using u x(2) q by simp
      moreover have "unat (sx_offset x) \<le> 0x3fff" using u x(3) by simp
      ultimately show ?thesis unfolding entry_ok_def by blast
    qed
    have "sorted_wrt (<) (map (unat \<circ> sx_offset) (seen c'))"
      using I(5,6) fresh_loop_sorted [of p "length (arena c)" "length (arena c @ ?wire)" 0 "js @ ms" ?fe]
      by (auto simp: sn sorted_wrt_append simp del: wire_of_simps intro: less_le_trans)
    moreover have "length (arena c') \<le> 128 * q"
      using I(3) ls(2) q tp length_wire_ge2 [of js] ls(1) False by (cases js) (auto simp: ar)
    ultimately show ?thesis
      using I(5) len q Kq keeps new old [OF _ ar] unfolding comp_inv_def table_inv_def sn
      by (auto intro: less_le_trans)
  qed
qed

lemma write_two:
  "sbind (write_bytes p xs) (\<lambda>out. write_bytes out ys) s = (Inr q, s') \<longleftrightarrow>
     q = p + length xs + length ys \<and> q \<le> length (buf s) \<and>
     s' = s\<lparr>buf := take p (buf s) @ xs @ ys @ drop q (buf s)\<rparr>"
  by (auto simp: sbind_eq_Inr_conv write_bytes_ok add.commute [of "length ys"])

lemma lower_entry_labels:
  "labels_ok ls \<Longrightarrow> labels_ok ks \<Longrightarrow> lower (wire_of ls) = lower (wire_of ks) \<Longrightarrow>
   map lower ls = map lower ks"
  using lower_wire_of_eq by blast

lemma lookup_spells:
  assumes "comp_inv c b K p" and "labels_ok ms" and "compressor_lookup c (wire_of ms) = Some t"
  obtains ks h e where "spells b K (unat t) ks h e" "map lower ks = map lower ms" "h < length ms"
    "unat t < p" "unat t \<le> 0x3fff"
proof -
  from assms(1,3) lookup_sound [of c "wire_of ms" t] obtain x where
    x: "x \<in> set (seen c)" "sx_offset x = t" "lower (entry_bytes c x) = lower (wire_of ms)"
    by (auto simp: comp_inv_def table_inv_def)
  with assms(1) have e: "entry_ok c b K x" "unat t < p" by (auto simp: comp_inv_def table_inv_def)
  then obtain ls ks h q where l: "labels_ok ls" "entry_bytes c x = wire_of ls"
    "spells b K (unat t) ks h q" "map lower ks = map lower ls" "h < length ls" "unat t \<le> 0x3fff"
    using x(2) by (auto simp: entry_ok_def)
  have "map lower ls = map lower ms"
    using lower_entry_labels [OF l(1) assms(2)] x(3) l(2) by simp
  moreover then have "length ls = length ms" by (rule map_eq_imp_length_eq)
  ultimately show ?thesis using that l e(2) by simp
qed

lemma write_name_correct:
  assumes inv: "comp_inv (compressor s) (buf s) K p"
    and ls: "labels_ok ls" "length (wire_of ls) \<le> 255" and small: "length (buf s) \<le> 2 ^ 24"
    and w: "write_name (wire_of ls) p s = (Inr q, s')"
  shows "(\<exists>ks h. spells (buf s') (K \<union> {p..<q}) p ks h q \<and> map lower ks = map lower ls \<and> h \<le> length ls) \<and>
    comp_inv (compressor s') (buf s') (K \<union> {p..<q}) q"
proof -
  have fin: ?thesis
    if js: "ls = js @ ms" and b': "buf s' = take p (buf s) @ wire_labels js @ tp @ drop q (buf s)"
      and q: "q = p + length (wire_labels js) + length tp" "q \<le> length (buf s)"
      and e: "ends_in (buf s') (K \<union> {p..<q}) p tp ks h" and same: "map lower ks = map lower ms"
      and h: "h \<le> length ms" and tp: "0 < length tp"
      and c': "compressor s' = record_fresh (wire_of (js @ ms)) p (length (wire_labels js)) (compressor s)"
    for js ms tp ks h
  proof -
    have "spells (buf s') (K \<union> {p..<q}) (p + length (wire_labels [])) (js @ ks) h q"
      by (rule written_suffix [OF _ _ q(2) _ _ e]) (use b' q ls(1) js in auto)
    moreover have "map lower (js @ ks) = map lower ls" "h \<le> length ls" using same js h by auto
    moreover have "comp_inv (compressor s') (buf s') (K \<union> {p..<q}) q"
      using record_fresh_inv [OF inv _ _ small b' q refl e same h tp c'] ls js by simp
    ultimately show ?thesis by fastforce
  qed
  let ?m = "match_loop (compressor s) (length (wire_of ls)) (ancestors (wire_of ls))"
  show ?thesis
  proof (cases "ls = []")
    case True
    with w have "q = p + 1" "q \<le> length (buf s)" "s' = s\<lparr>buf := take p (buf s) @ [0] @ drop q (buf s)\<rparr>"
      by (auto simp: write_name_def is_root_def write_bytes_ok)
    then show ?thesis
      using fin [of "[]" "[]" "[0]" "[]" 0] True by (simp add: ends_in_def record_fresh_def)
  next
    case False
    show ?thesis
    proof (cases ?m)
      case None
      with False w have "sbind (write_bytes p (wire_labels ls)) (\<lambda>out. write_bytes out [0])
          (s\<lparr>compressor := record_fresh (wire_of ls) p (length (wire_labels ls)) (compressor s)\<rparr>) = (Inr q, s')"
        by (simp add: write_name_def write_parts_def wire_of_def is_root_def)
      then show ?thesis
        using fin [of ls "[]" "[0]" "[]" 0] by (auto simp: ends_in_def write_two)
    next
      case (Some st)
      obtain start t where st: "st = (start, t)" by (cases st)
      from match_loop_sound [of "compressor s" 0 ls start t] Some st obtain js ms where
        m: "ls = js @ ms" "start = length (wire_labels js)"
        "compressor_lookup (compressor s) (wire_of ms) = Some t"
        by (auto simp: ancestors_wire [OF ls(1)])
      then obtain ks h e where k: "spells (buf s) K (unat t) ks h e" "map lower ks = map lower ms"
        "h < length ms" "unat t < p" "unat t \<le> 0x3fff"
        using lookup_spells [OF inv _ m(3)] ls(1) by auto
      obtain hi lo where hl: "be16 (POINTER_TAG OR t) = [hi, lo]" "192 \<le> unat hi" "ptr_target hi lo = unat t"
        using pointer_octets [OF k(5)] by blast
      have "take start (wire_of ls) = wire_labels js" using m by (simp add: wire_of_append)
      with Some st False w have "sbind (write_bytes p (wire_labels js)) (\<lambda>out. write_bytes out [hi, lo])
          (s\<lparr>compressor := record_fresh (wire_of ls) p (length (wire_labels js)) (compressor s)\<rparr>) = (Inr q, s')"
        unfolding m(2) by (simp add: write_name_def write_parts_def hl)
      then have o: "q = p + length (wire_labels js) + 2" "q \<le> length (buf s)"
        "s' = s\<lparr>compressor := record_fresh (wire_of ls) p (length (wire_labels js)) (compressor s),
               buf := take p (buf s) @ wire_labels js @ [hi, lo] @ drop q (buf s)\<rparr>"
        by (auto simp: write_two)
      have agree: "x < length (buf s') \<and> buf s' ! x = buf s ! x" if "x \<in> K" for x
        using that inv o by (auto simp: comp_inv_def table_inv_def nth_append)
      have "spells (buf s') (K \<union> {p..<q}) (unat t) ks h e"
        by (rule spells_agree [OF k(1) _ agree]) auto
      then have "ends_in (buf s') (K \<union> {p..<q}) p [hi, lo] ks (Suc h)"
        using hl k(4) by (auto simp: ends_in_def)
      then show ?thesis
        using fin [of js ms "[hi, lo]" ks "Suc h"] o m k by simp
    qed
  qed
qed

lemma comp_inv_start: "p \<le> length b \<Longrightarrow> comp_inv (compressor_clear c) b {} p"
  by (simp add: comp_inv_def table_inv_def compressor_clear_def index_ok_def)

lemma comp_inv_bytes:
  assumes "comp_inv c b K p" and "p \<le> q" and "q \<le> length b'" and "take p b' = take p b"
  shows "comp_inv c b' K q"
proof -
  have I: "p \<le> length b" "\<forall>k \<in> K. k < p" using assms(1) by (auto simp: comp_inv_def table_inv_def)
  have agree: "k < length b' \<and> b' ! k = b ! k" if "k \<in> K" for k
    using that I assms by (metis less_le_trans nth_take)
  have "entry_ok c b' K x" if "entry_ok c b K x" for x
    using entry_ok_agree [OF that subset_refl agree, of c "[]"] by simp
  with assms I show ?thesis by (auto simp: comp_inv_def table_inv_def intro: less_le_trans)
qed

text \<open>
  C3. What \<^verbatim>\<open>NameCompressor::write_name\<close> writes, the message parser reads back: on a compressor
  that satisfies its invariant, a name of at most 50 labels written at a position is
  decoded there, from the finished buffer, as a name equal to it (up to ASCII case), ending
  where the writer stopped; and the invariant holds again for the next name.
\<close>

theorem write_name_round_trip:
  assumes "comp_inv (compressor s) (buf s) K p" and "wf_name n" and "label_count n \<le> 50"
    and "length (buf s) \<le> 2 ^ 24" and "write_name n p s = (Inr q, s')"
  shows "(\<exists>m. name_wire_from_bytes_in (drop p (buf s')) (buf s') = Inr (m, drop q (buf s')) \<and> name_eq m n) \<and>
    comp_inv (compressor s') (buf s') (K \<union> {p..<q}) q"
proof -
  obtain ls where ls: "labels_ok ls" "n = wire_of ls" "length (wire_of ls) \<le> 255"
    using assms(2) by (rule wf_nameE)
  from write_name_correct [OF assms(1) ls(1,3) assms(4)] assms(5) ls(2) obtain ks h where
    k: "spells (buf s') (K \<union> {p..<q}) p ks h q" "map lower ks = map lower ls" "h \<le> length ls"
    and inv: "comp_inv (compressor s') (buf s') (K \<union> {p..<q}) q"
    by blast
  have "length (buf s') = length (buf s)"
    using writes_fromD(1) [OF writes_from_write_name [of p n], of s] assms(5) by simp
  then have "length (buf s') \<le> usize_MAX" using assms(4) by (simp add: usize_MAX_def)
  moreover have "length (wire_of ks) \<le> 255" using k(2) ls(3) by (metis length_wire_of_lower)
  moreover have "h \<le> 50" using k(3) assms(3) ls by simp
  ultimately have "name_wire_from_bytes_in (drop p (buf s')) (buf s') = Inr (wire_of ks, drop q (buf s'))"
    using spells_decodes [OF k(1)] by blast
  moreover have "name_eq (wire_of ks) n"
    using k(2) ls spells_labels_ok [OF k(1)] by (simp add: name_eq_wire)
  ultimately show ?thesis using inv by blast
qed

lemma write_name_example:
  "write_name [1, 97, 0] 0 \<lparr>compressor = compressor_new, buf = [7, 7, 7, 9]\<rparr> =
   (Inr 3, \<lparr>compressor = record_fresh [1, 97, 0] 0 2 compressor_new, buf = [1, 97, 0, 9]\<rparr>)"
proof -
  have "ancestors [1, 97, 0] = [[1, 97, 0], [0]]"
    by (simp add: ancestors.simps [of "[1, 97, 0]"] ancestors.simps [of "[0]"])
  then show ?thesis
    by (simp add: write_name_def is_root_def compressor_lookup_def compressor_new_def write_parts_def
        write_bytes_def sbind_def numeral_eq_Suc)
qed

theorem write_name_round_trip_witness:
  "(\<exists>m. name_wire_from_bytes_in (drop 0 [1, 97, 0, 9]) [1, 97, 0, 9] = Inr (m, drop 3 [1, 97, 0, 9]) \<and>
     name_eq m [1, 97, 0]) \<and>
   comp_inv (record_fresh [1, 97, 0] 0 2 compressor_new) [1, 97, 0, 9] ({} \<union> {0..<3}) 3"
proof -
  let ?s = "\<lparr>compressor = compressor_new, buf = [7, 7, 7, 9]\<rparr>"
  let ?t = "\<lparr>compressor = record_fresh [1, 97, 0] 0 2 compressor_new, buf = [1, 97, 0, 9]\<rparr>"
  have "comp_inv (compressor ?s) (buf ?s) {} 0"
    by (simp add: comp_inv_def table_inv_def compressor_new_def index_ok_def)
  moreover have "wf_name (wire_of [[97]])"
    by (simp add: label_ok_def length_wire_of del: wire_of_simps)
  then have "wf_name [1, 97, 0]" by simp
  moreover have "label_count [1, 97, 0] \<le> 50" by (simp add: label_count_def)
  moreover have "write_name [1, 97, 0] 0 ?s = (Inr 3, ?t)" by (rule write_name_example)
  ultimately show ?thesis using write_name_round_trip [of ?s "{}" 0 "[1, 97, 0]" 3 ?t] by simp
qed

section \<open>Rewinding\<close>

lemma takeWhile_sorted:
  "sorted_wrt (<) (map f xs) \<Longrightarrow> takeWhile (\<lambda>x. f x < (n :: nat)) xs = filter (\<lambda>x. f x < n) xs"
proof (induction xs)
  case (Cons x xs)
  show ?case
  proof (cases "f x < n")
    case False
    with Cons.prems have "filter (\<lambda>x. f x < n) xs = []"
      by (auto simp: filter_empty_conv not_less intro: order_trans less_imp_le)
    with False show ?thesis by simp
  qed (use Cons in simp)
qed simp

text \<open>The binary search in \<^verbatim>\<open>rewind\<close> finds what a filter would, since the offsets increase.\<close>

lemma rewind_seen:
  assumes "sorted_wrt (<) (map (unat \<circ> sx_offset) (seen c))"
  shows "seen (compressor_rewind at c) = filter (\<lambda>e. unat (sx_offset e) < at) (seen c)"
proof -
  have tw: "takeWhile (\<lambda>e. unat (sx_offset e) < at) (seen c) = filter (\<lambda>e. unat (sx_offset e) < at) (seen c)"
    using takeWhile_sorted [of "unat \<circ> sx_offset" "seen c" at] assms by simp
  have "take (length (takeWhile P xs)) xs = takeWhile P xs" for P and xs :: "suffix_entry list"
    by (metis takeWhile_eq_take)
  then show ?thesis
    by (auto simp: compressor_rewind_def partition_point_def Let_def tw [symmetric])
      (metis order_refl take_all takeWhile_eq_take)
qed

lemma rewind_rest:
  "arena (compressor_rewind at c) = arena c" "index_ok c \<Longrightarrow> index_ok (compressor_rewind at c)"
proof -
  have "partition_point P xs \<le> length xs" for P and xs :: "suffix_entry list"
    by (simp add: partition_point_def length_takeWhile_le)
  then show "index_ok c \<Longrightarrow> index_ok (compressor_rewind at c)"
    by (auto simp: compressor_rewind_def index_ok_def Let_def min_def)
qed (simp add: compressor_rewind_def Let_def)

lemma rewind_restores:
  assumes inv: "table_inv c b K p" and g: "grows p c c'" and b': "take p b' = take p b" "length b' = length b"
  shows "table_inv (compressor_rewind p c') b' K p"
proof -
  obtain new xs where n: "seen c' = seen c @ new" "arena c' = arena c @ xs"
    "\<forall>e \<in> set new. p \<le> unat (sx_offset e)" and idx: "index_ok c'"
    using g inv by (auto simp: grows_def table_inv_def)
  have I: "p \<le> length b" "\<forall>k \<in> K. k < p" "\<forall>e \<in> set (seen c). entry_ok c b K e"
    "\<forall>e \<in> set (seen c). unat (sx_offset e) < p" "sorted_wrt (<) (map (unat \<circ> sx_offset) (seen c))"
    using inv by (auto simp: table_inv_def)
  let ?r = "compressor_rewind p c'"
  have "takeWhile (\<lambda>e. unat (sx_offset e) < p) (seen c') = seen c"
    using I(4) n(1,3) by (cases new) (auto simp: takeWhile_append)
  then have seen: "seen ?r = seen c"
    by (auto simp: compressor_rewind_def partition_point_def Let_def n(1))
  have agree: "k < length b' \<and> b' ! k = b ! k" if "k \<in> K" for k
    using that I(1,2) b' by (metis less_le_trans nth_take)
  have "entry_ok ?r b' K x" if "x \<in> set (seen c)" for x
    using entry_ok_agree [OF _ subset_refl agree, where c = c and c' = ?r and xs = xs] that I(3) n(2)
    by (simp add: rewind_rest)
  then show ?thesis using I b'(2) idx by (auto simp: table_inv_def seen rewind_rest)
qed

text \<open>
  \<^verbatim>\<open>NameCompressor::rewind\<close> undoes a write: after \<^verbatim>\<open>write_name\<close> at a position, whether it
  succeeded or failed half way, rewinding to that position restores the table's invariant
  for the octets before it, so no entry points at octets that will be overwritten.
\<close>

theorem rewind_after_write_name:
  assumes "table_inv (compressor s) (buf s) K p" and "write_name n p s = (r, s')"
  shows "table_inv (compressor_rewind p (compressor s')) (buf s') K p"
  using rewind_restores [OF assms(1)] writes_fromD [OF writes_from_write_name [of p n], of s] assms(2)
  by simp

theorem rewind_after_write_name_witness:
  "table_inv (compressor_rewind 0 (record_fresh [1, 97, 0] 0 2 compressor_new)) [1, 97, 0, 9] {} 0"
proof -
  let ?s = "\<lparr>compressor = compressor_new, buf = [7, 7, 7, 9]\<rparr>"
  let ?t = "\<lparr>compressor = record_fresh [1, 97, 0] 0 2 compressor_new, buf = [1, 97, 0, 9]\<rparr>"
  have "table_inv (compressor ?s) (buf ?s) {} 0"
    by (simp add: table_inv_def compressor_new_def index_ok_def)
  moreover have "write_name [1, 97, 0] 0 ?s = (Inr 3, ?t)" by (rule write_name_example)
  ultimately show ?thesis using rewind_after_write_name [of ?s "{}" 0 "[1, 97, 0]" "Inr 3" ?t] by simp
qed

end
