(* ===== verification/Records.thy ===== *)
theory Records
  imports Names Codes
begin

text \<open>
  \<^verbatim>\<open>rdns-core/src/record.rs\<close> (the typed view of RDATA) and \<^verbatim>\<open>rdns-core/src/record_data.rs\<close> (RDATA
  as it is stored, and the arena behind a zone). \<open>decode\<close> and \<open>encode_into\<close> are the two halves
  of the codec: one definition for each arm of the \<^verbatim>\<open>match\<close>. An \<^verbatim>\<open>Ipv4Addr\<close> and an \<^verbatim>\<open>Ipv6Addr\<close>
  are their 4 and 16 octets, an \<^verbatim>\<open>i32\<close> is its 32 bits.
\<close>

section \<open>Typed records\<close>

datatype parsed_record =
    PA bytes
  | PNS name
  | PCNAME name
  | PSOA name name serial u32 u32 u32 u32
  | PPTR name
  | PDNAME name
  | PSVCB rtype u16 name "(u16 \<times> bytes) list"
  | PMX u16 name
  | PTXT "bytes list"
  | PAAAA bytes
  | PDNSKEY rtype u16 byte byte bytes
  | PRRSIG rtype byte byte u32 u32 u32 u16 name bytes
  | PDS rtype u16 byte byte bytes
  | PNSEC name bytes
  | PNSEC3 byte byte u16 bytes bytes bytes
  | PUnknown rtype

subsection \<open>Decoding\<close>

text \<open>The loop of \<^verbatim>\<open>decode_svc_params\<close>: the octets left, and the parameters read.\<close>

function svc_params_loop :: "bytes \<Rightarrow> (u16 \<times> bytes) list \<Rightarrow> (u16 \<times> bytes) list wire_result" where
  "svc_params_loop rest params =
     (if rest = [] then Inr params
      else
        rbind (read_u16 rest) (\<lambda>r1.
        rbind (read_u16 (snd r1)) (\<lambda>r2.
        let key = fst r1; len = unat (fst r2); tail = snd r2 in
        if length tail < len then Inl (Truncated ''an SVCB parameter value'' len (length tail))
        else if params \<noteq> [] \<and> key \<le> fst (last params) then
          Inl (Malformed ''SVCB RDATA''
            (''SvcParamKeys must be in strictly increasing order (RFC 9460 '' @
             [CHR 0xC2, CHR 0xA7] @ ''2.2); '' @
             show_nat (unat key) @ '' follows '' @ show_nat (unat (fst (last params)))))
        else svc_params_loop (drop len tail) (params @ [(key, take len tail)]))))"
  by pat_completeness auto
termination
  by (relation "measure (\<lambda>(rest, params). length rest)")
    (auto simp: read_u16_def split: if_splits)

declare svc_params_loop.simps [simp del]

definition decode_svc_params :: "bytes \<Rightarrow> (u16 \<times> bytes) list wire_result" where
  "decode_svc_params rest = svc_params_loop rest []"

function txt_loop :: "bytes \<Rightarrow> bytes list \<Rightarrow> bytes list wire_result" where
  "txt_loop [] strings = Inr strings"
| "txt_loop (len # after_len) strings =
     (if length after_len < unat len
      then Inl (Truncated ''a TXT character-string'' (unat len) (length after_len))
      else txt_loop (drop (unat len) after_len) (strings @ [take (unat len) after_len]))"
  by pat_completeness auto
termination
  by (relation "measure (\<lambda>(rest, strings). length rest)") auto

definition decode_array :: "nat \<Rightarrow> bytes \<Rightarrow> bytes wire_result" where
  "decode_array n rdata =
     (if length rdata = n then Inr rdata
      else Inl (Malformed ''RDATA'' ''a fixed-width field has the wrong length''))"

definition decode_soa :: "bytes \<Rightarrow> bytes \<Rightarrow> parsed_record wire_result" where
  "decode_soa rdata message =
     rbind (from_wire_in rdata message) (\<lambda>(mname, rest).
     rbind (from_wire_in rest message) (\<lambda>(rname, rest).
     rbind (read_u32 rest) (\<lambda>(serial, rest).
     rbind (read_i32 rest) (\<lambda>(refresh, rest).
     rbind (read_i32 rest) (\<lambda>(retry, rest).
     rbind (read_i32 rest) (\<lambda>(expire, rest).
     rbind (read_u32 rest) (\<lambda>(minimum, rest).
     Inr (PSOA mname rname serial refresh retry expire minimum))))))))"

definition decode_svcb :: "rtype \<Rightarrow> bytes \<Rightarrow> bytes \<Rightarrow> parsed_record wire_result" where
  "decode_svcb t rdata message =
     rbind (read_u16 rdata) (\<lambda>(priority, rest).
     rbind (from_wire_in rest message) (\<lambda>(target, rest).
     rbind (decode_svc_params rest) (\<lambda>params.
     Inr (PSVCB t priority target params))))"

definition decode_mx :: "bytes \<Rightarrow> bytes \<Rightarrow> parsed_record wire_result" where
  "decode_mx rdata message =
     rbind (read_u16 rdata) (\<lambda>(preference, rest).
     rbind (from_wire_in rest message) (\<lambda>(exchange, rest).
     Inr (PMX preference exchange)))"

definition decode_ds :: "rtype \<Rightarrow> bytes \<Rightarrow> parsed_record wire_result" where
  "decode_ds t rdata =
     rbind (read_u16 rdata) (\<lambda>(key_tag, rest).
     if length rest < 2 then Inl (Truncated ''DS RDATA'' 4 (length rdata))
     else Inr (PDS t key_tag (rest ! 0) (rest ! 1) (drop 2 rest)))"

definition decode_rrsig :: "bytes \<Rightarrow> bytes \<Rightarrow> parsed_record wire_result" where
  "decode_rrsig rdata message =
     rbind (read_u16 rdata) (\<lambda>(type_covered, rest).
     if length rest < 2 then Inl (Truncated ''RRSIG RDATA'' 4 (length rdata))
     else let algorithm = rest ! 0; labels = rest ! 1 in
       rbind (read_u32 (drop 2 rest)) (\<lambda>(original_ttl, rest).
       rbind (read_u32 rest) (\<lambda>(expiration, rest).
       rbind (read_u32 rest) (\<lambda>(inception, rest).
       rbind (read_u16 rest) (\<lambda>(key_tag, rest).
       rbind (from_wire_in rest message) (\<lambda>(signer_name, rest).
       Inr (PRRSIG type_covered algorithm labels original_ttl inception expiration key_tag
              signer_name rest)))))))"

definition decode_nsec :: "bytes \<Rightarrow> bytes \<Rightarrow> parsed_record wire_result" where
  "decode_nsec rdata message =
     rbind (from_wire_in rdata message) (\<lambda>(next_domain_name, rest). Inr (PNSEC next_domain_name rest))"

definition decode_dnskey :: "rtype \<Rightarrow> bytes \<Rightarrow> parsed_record wire_result" where
  "decode_dnskey t rdata =
     rbind (read_u16 rdata) (\<lambda>(flags, rest).
     if length rest < 2 then Inl (Truncated ''DNSKEY RDATA'' 4 (length rdata))
     else Inr (PDNSKEY t flags (rest ! 0) (rest ! 1) (drop 2 rest)))"

definition decode_nsec3 :: "bytes \<Rightarrow> parsed_record wire_result" where
  "decode_nsec3 rdata =
     (if length rdata < 5 then Inl (Truncated ''NSEC3 RDATA'' 5 (length rdata))
      else
        rbind (read_u16 (drop 2 rdata)) (\<lambda>(iterations, rest).
        let salt_len = unat (rest ! 0) in
        if length rest < 1 + salt_len
        then Inl (Malformed ''NSEC3 RDATA'' ''the salt extends past the end of the record'')
        else let salt = seg rest 1 (1 + salt_len); rest = drop (1 + salt_len) rest in
          if rest = [] then Inl (Malformed ''NSEC3 RDATA'' ''there is no next-hashed-owner field'')
          else let next_owner_len = unat (rest ! 0) in
            if length rest < 1 + next_owner_len
            then Inl (Malformed ''NSEC3 RDATA''
                   ''the next-hashed-owner field extends past the end of the record'')
            else Inr (PNSEC3 (rdata ! 0) (rdata ! 1) iterations salt
                   (seg rest 1 (1 + next_owner_len)) (drop (1 + next_owner_len) rest))))"

definition decode :: "rtype \<Rightarrow> bytes \<Rightarrow> bytes \<Rightarrow> parsed_record wire_result" where
  "decode t rdata message =
     (if rdata = [] then Inr (PUnknown t)
      else if t = rt_A then rbind (decode_array 4 rdata) (\<lambda>a. Inr (PA a))
      else if t = rt_NS then rbind (from_wire_in rdata message) (\<lambda>(n, _). Inr (PNS n))
      else if t = rt_CNAME then rbind (from_wire_in rdata message) (\<lambda>(n, _). Inr (PCNAME n))
      else if t = rt_SOA then decode_soa rdata message
      else if t = rt_PTR then rbind (from_wire_in rdata message) (\<lambda>(n, _). Inr (PPTR n))
      else if t = rt_DNAME then rbind (from_wire_in rdata message) (\<lambda>(n, _). Inr (PDNAME n))
      else if t = rt_SVCB \<or> t = rt_HTTPS then decode_svcb t rdata message
      else if t = rt_MX then decode_mx rdata message
      else if t = rt_TXT then rbind (txt_loop rdata []) (\<lambda>ss. Inr (PTXT ss))
      else if t = rt_AAAA then rbind (decode_array 16 rdata) (\<lambda>a. Inr (PAAAA a))
      else if t = rt_DS \<or> t = rt_CDS then decode_ds t rdata
      else if t = rt_RRSIG then decode_rrsig rdata message
      else if t = rt_NSEC then decode_nsec rdata message
      else if t = rt_DNSKEY \<or> t = rt_CDNSKEY then decode_dnskey t rdata
      else if t = rt_NSEC3 then decode_nsec3 rdata
      else Inr (PUnknown t))"

subsection \<open>Encoding\<close>

text \<open>\<^verbatim>\<open>encode_into\<close> appends to a buffer, and an error leaves what it has appended.\<close>

definition append_out :: "bytes \<Rightarrow> (bytes, unit) st" where
  "append_out bs = (\<lambda>out. (Inr (), out @ bs))"

fun svc_encode_loop :: "u16 option \<Rightarrow> (u16 \<times> bytes) list \<Rightarrow> bytes \<Rightarrow> bytes wire_result" where
  "svc_encode_loop prev [] out = Inr out"
| "svc_encode_loop prev ((key, v) # ps) out =
     (if prev = Some key then
        Inl (Malformed ''SVCB RDATA''
          (''SvcParamKey '' @ show_nat (unat key) @ '' appears twice, and only one value can be sent''))
      else if length v > 65535 then Inl (TooLong ''an SVCB parameter value'' 65535 (length v))
      else svc_encode_loop (Some key) ps (out @ be16 key @ be16 (of_nat (length v)) @ v))"

definition encode_svc_params :: "(u16 \<times> bytes) list \<Rightarrow> bytes wire_result" where
  "encode_svc_params params = svc_encode_loop None (sort_key fst params) []"

fun txt_encode :: "bytes list \<Rightarrow> (bytes, unit) st" where
  "txt_encode [] = slift (Inr ())"
| "txt_encode (s # ss) =
     (if length s > 255 then slift (Inl (TooLong ''a TXT character-string'' 255 (length s)))
      else sbind (append_out (of_nat (length s) # s)) (\<lambda>_. txt_encode ss))"

definition length_octet :: "string \<Rightarrow> bytes \<Rightarrow> byte wire_result" where
  "length_octet what field =
     (if length field > 255 then Inl (TooLong what 255 (length field)) else Inr (of_nat (length field)))"

fun encode_into :: "parsed_record \<Rightarrow> (bytes, rtype) st" where
  "encode_into (PA addr) = sbind (append_out addr) (\<lambda>_. slift (Inr rt_A))"
| "encode_into (PAAAA addr) = sbind (append_out addr) (\<lambda>_. slift (Inr rt_AAAA))"
| "encode_into (PNS n) = sbind (append_out n) (\<lambda>_. slift (Inr rt_NS))"
| "encode_into (PCNAME n) = sbind (append_out n) (\<lambda>_. slift (Inr rt_CNAME))"
| "encode_into (PPTR n) = sbind (append_out n) (\<lambda>_. slift (Inr rt_PTR))"
| "encode_into (PDNAME n) = sbind (append_out n) (\<lambda>_. slift (Inr rt_DNAME))"
| "encode_into (PSVCB t priority target params) =
     sbind (append_out (be16 priority)) (\<lambda>_.
     sbind (append_out target) (\<lambda>_.
     sbind (slift (encode_svc_params params)) (\<lambda>ps.
     sbind (append_out ps) (\<lambda>_. slift (Inr t)))))"
| "encode_into (PMX preference exchange) =
     sbind (append_out (be16 preference)) (\<lambda>_. sbind (append_out exchange) (\<lambda>_. slift (Inr rt_MX)))"
| "encode_into (PTXT strings) =
     (if strings = [] then
        slift (Inl (Malformed ''a TXT record'' ''it must carry at least one character-string''))
      else sbind (txt_encode strings) (\<lambda>_. slift (Inr rt_TXT)))"
| "encode_into (PSOA mname rname serial refresh retry expire minimum) =
     sbind (append_out (mname @ rname @ be32 serial @ be32 refresh @ be32 retry @ be32 expire @
              be32 minimum)) (\<lambda>_. slift (Inr rt_SOA))"
| "encode_into (PDNSKEY t flags protocol algorithm public_key) =
     sbind (append_out (be16 flags @ [protocol, algorithm] @ public_key)) (\<lambda>_. slift (Inr t))"
| "encode_into (PRRSIG covered algorithm labels ottl inception expiration key_tag signer signature) =
     sbind (append_out (be16 covered @ [algorithm, labels] @ be32 ottl @ be32 expiration @
              be32 inception @ be16 key_tag @ signer @ signature)) (\<lambda>_. slift (Inr rt_RRSIG))"
| "encode_into (PDS t key_tag algorithm digest_type digest) =
     sbind (append_out (be16 key_tag @ [algorithm, digest_type] @ digest)) (\<lambda>_. slift (Inr t))"
| "encode_into (PNSEC next_domain_name type_bitmap) =
     sbind (append_out (next_domain_name @ type_bitmap)) (\<lambda>_. slift (Inr rt_NSEC))"
| "encode_into (PNSEC3 hash_algorithm flags iterations salt next_owner type_bitmap) =
     sbind (append_out ([hash_algorithm, flags] @ be16 iterations)) (\<lambda>_.
     sbind (slift (length_octet ''an NSEC3 salt'' salt)) (\<lambda>n.
     sbind (append_out (n # salt)) (\<lambda>_.
     sbind (slift (length_octet ''an NSEC3 next hashed owner'' next_owner)) (\<lambda>m.
     sbind (append_out (m # next_owner @ type_bitmap)) (\<lambda>_. slift (Inr rt_NSEC3))))))"
| "encode_into (PUnknown t) = slift (Inr t)"

definition encode :: "parsed_record \<Rightarrow> (rtype \<times> bytes) wire_result" where
  "encode p = (case encode_into p [] of (Inl e, _) \<Rightarrow> Inl e | (Inr t, out) \<Rightarrow> Inr (t, out))"

section \<open>Stored RDATA\<close>

record record_data =
  rd_type :: rtype
  rd_bytes :: bytes

definition rdata_from_wire :: "rtype \<Rightarrow> bytes \<Rightarrow> bytes \<Rightarrow> record_data wire_result" where
  "rdata_from_wire t rdata message =
     rbind (decode t rdata message) (\<lambda>parsed.
       case parsed of
         PUnknown _ \<Rightarrow> Inr \<lparr>rd_type = t, rd_bytes = rdata\<rparr>
       | _ \<Rightarrow> rbind (encode parsed) (\<lambda>(t', out). Inr \<lparr>rd_type = t', rd_bytes = out\<rparr>))"

definition rdata_from_parsed :: "parsed_record \<Rightarrow> record_data wire_result" where
  "rdata_from_parsed p = rbind (encode p) (\<lambda>(t, out). Inr \<lparr>rd_type = t, rd_bytes = out\<rparr>)"

definition rdata_parse :: "record_data \<Rightarrow> parsed_record wire_result" where
  "rdata_parse d = decode (rd_type d) (rd_bytes d) (rd_bytes d)"

definition rdata_new :: "rtype \<Rightarrow> bytes \<Rightarrow> record_data wire_result" where
  "rdata_new t rdata =
     (let stored = \<lparr>rd_type = t, rd_bytes = rdata\<rparr> in rbind (rdata_parse stored) (\<lambda>_. Inr stored))"

definition soa_scalars :: "record_data \<Rightarrow> bytes option" where
  "soa_scalars d =
     (if rd_type d \<noteq> rt_SOA then None
      else case skip_uncompressed_name (rd_bytes d) of
          None \<Rightarrow> None
        | Some after_mname \<Rightarrow>
            (case skip_uncompressed_name after_mname of
               None \<Rightarrow> None
             | Some after_rname \<Rightarrow>
                 if length after_rname < 20 then None else Some (take 20 after_rname)))"

definition soa_serial :: "record_data \<Rightarrow> serial option" where
  "soa_serial d = map_option (\<lambda>s. from_be32 (s ! 0) (s ! 1) (s ! 2) (s ! 3)) (soa_scalars d)"

definition soa_minimum :: "record_data \<Rightarrow> u32 option" where
  "soa_minimum d = map_option (\<lambda>s. from_be32 (s ! 16) (s ! 17) (s ! 18) (s ! 19)) (soa_scalars d)"

definition rrsig_type_covered :: "record_data \<Rightarrow> rtype option" where
  "rrsig_type_covered d =
     (if rd_type d \<noteq> rt_RRSIG then None
      else if length (rd_bytes d) < 2 then None
      else Some (from_be16 (rd_bytes d ! 0) (rd_bytes d ! 1)))"

definition nsec3_parameters :: "record_data \<Rightarrow> (u16 \<times> bytes) option" where
  "nsec3_parameters d =
     (let r = rd_bytes d in
      if rd_type d \<noteq> rt_NSEC3 then None
      else if length r < 4 then None
      else if length r < 5 then None
      else let salt_len = unat (r ! 4) in
        if length r < 5 + salt_len then None
        else Some (from_be16 (r ! 2) (r ! 3), seg r 5 (5 + salt_len)))"

record rdata_span =
  rs_off :: u32
  rs_len :: u16
  rs_type :: rtype

text \<open>The arena of RDATA. A panic, on an arena of 4 GiB, is \<open>None\<close>.\<close>

definition rdata_arena_push :: "record_data \<Rightarrow> bytes \<Rightarrow> (rdata_span \<times> bytes) option" where
  "rdata_arena_push d arena =
     (if length arena < 2 ^ 32
      then Some (\<lparr>rs_off = of_nat (length arena), rs_len = of_nat (length (rd_bytes d)),
                  rs_type = rd_type d\<rparr>, arena @ rd_bytes d)
      else None)"

definition rdata_arena_push_parsed :: "parsed_record \<Rightarrow> bytes \<Rightarrow> (rdata_span wire_result \<times> bytes) option" where
  "rdata_arena_push_parsed parsed arena =
     (case encode_into parsed arena of
        (Inl e, arena') \<Rightarrow> Some (Inl e, take (length arena) arena')
      | (Inr t, arena') \<Rightarrow>
          let len = length arena' - length arena in
          if length arena \<ge> 2 ^ 32 then None
          else if len > 65535 then Some (Inl (TooLong ''a record's RDATA'' 65535 len), arena')
          else Some (Inr \<lparr>rs_off = of_nat (length arena), rs_len = of_nat len, rs_type = t\<rparr>, arena'))"

definition rdata_arena_get :: "bytes \<Rightarrow> rdata_span \<Rightarrow> record_data" where
  "rdata_arena_get arena s =
     \<lparr>rd_type = rs_type s,
      rd_bytes = seg arena (unat (rs_off s)) (unat (rs_off s) + unat (rs_len s))\<rparr>"

section \<open>Round trips\<close>

text \<open>The values the types of \<^verbatim>\<open>ParsedRecord\<close>'s fields allow, and the arm each type code has.\<close>

fun parsed_ok :: "parsed_record \<Rightarrow> bool" where
  "parsed_ok (PA a) \<longleftrightarrow> length a = 4"
| "parsed_ok (PNS n) \<longleftrightarrow> wf_name n"
| "parsed_ok (PCNAME n) \<longleftrightarrow> wf_name n"
| "parsed_ok (PSOA m r _ _ _ _ _) \<longleftrightarrow> wf_name m \<and> wf_name r"
| "parsed_ok (PPTR n) \<longleftrightarrow> wf_name n"
| "parsed_ok (PDNAME n) \<longleftrightarrow> wf_name n"
| "parsed_ok (PSVCB t _ n _) \<longleftrightarrow> (t = rt_SVCB \<or> t = rt_HTTPS) \<and> wf_name n"
| "parsed_ok (PMX _ n) \<longleftrightarrow> wf_name n"
| "parsed_ok (PTXT _) \<longleftrightarrow> True"
| "parsed_ok (PAAAA a) \<longleftrightarrow> length a = 16"
| "parsed_ok (PDNSKEY t _ _ _ _) \<longleftrightarrow> t = rt_DNSKEY \<or> t = rt_CDNSKEY"
| "parsed_ok (PRRSIG _ _ _ _ _ _ _ n _) \<longleftrightarrow> wf_name n"
| "parsed_ok (PDS t _ _ _ _) \<longleftrightarrow> t = rt_DS \<or> t = rt_CDS"
| "parsed_ok (PNSEC n _) \<longleftrightarrow> wf_name n"
| "parsed_ok (PNSEC3 _ _ _ _ _ _) \<longleftrightarrow> True"
| "parsed_ok (PUnknown _) \<longleftrightarrow> False"

text \<open>The wire order of SvcParams is by key.\<close>

fun canon :: "parsed_record \<Rightarrow> parsed_record" where
  "canon (PSVCB t priority target params) = PSVCB t priority target (sort_key fst params)"
| "canon p = p"

lemma append_out_ok [simp]: "sbind (append_out bs) f out = f () (out @ bs)"
  by (simp add: sbind_def append_out_def)

lemma sbind_slift_Inr [simp]: "sbind (slift (Inr x)) f out = f x out"
  by (simp add: sbind_def)

lemma sbind_slift_Inl [simp]: "sbind (slift (Inl e)) f out = (Inl e, out)"
  by (simp add: sbind_def)

lemma svc_encode_decode:
  assumes "svc_encode_loop prev ps out = Inr w" and "sorted (map fst ps)"
    and "prev = (if acc = [] then None else Some (fst (last acc)))"
    and "acc \<noteq> [] \<Longrightarrow> ps \<noteq> [] \<Longrightarrow> fst (last acc) \<le> fst (hd ps)"
  shows "\<exists>body. w = out @ body \<and> svc_params_loop body acc = Inr (acc @ ps)"
  using assms
proof (induction prev ps out arbitrary: acc rule: svc_encode_loop.induct)
  case (1 prev out)
  then show ?case by (simp add: svc_params_loop.simps)
next
  case (2 prev key v ps out)
  from 2(2) have ne: "prev \<noteq> Some key" and len: "length v \<le> 65535"
    and rec: "svc_encode_loop (Some key) ps (out @ be16 key @ be16 (of_nat (length v)) @ v) = Inr w"
    by (auto split: if_splits)
  have hd: "key \<le> fst (hd ps)" if "ps \<noteq> []" using that "2.prems"(2) by (cases ps) simp_all
  have "\<exists>body. w = (out @ be16 key @ be16 (of_nat (length v)) @ v) @ body \<and>
      svc_params_loop body (acc @ [(key, v)]) = Inr ((acc @ [(key, v)]) @ ps)"
  proof (rule "2.IH")
    show "sorted (map fst ps)" using "2.prems"(2) by simp
    show "Some key = (if acc @ [(key, v)] = [] then None else Some (fst (last (acc @ [(key, v)]))))"
      by simp
    show "fst (last (acc @ [(key, v)])) \<le> fst (hd ps)" if "ps \<noteq> []" using hd [OF that] by simp
  qed (use ne len rec in simp_all)
  then obtain body where w: "w = (out @ be16 key @ be16 (of_nat (length v)) @ v) @ body"
    and body: "svc_params_loop body (acc @ [(key, v)]) = Inr (acc @ (key, v) # ps)"
    by auto
  have "\<not> (acc \<noteq> [] \<and> key \<le> fst (last acc))"
    using ne "2.prems"(3,4) by (auto simp: order_antisym)
  then have "svc_params_loop (be16 key @ be16 (of_nat (length v)) @ v @ body) acc = Inr (acc @ (key, v) # ps)"
    using body len
    by (subst svc_params_loop.simps) (auto simp: unat_of_nat_u16 Let_def)
  with w show ?case by auto
qed

lemma encode_svc_decode:
  assumes "encode_svc_params ps = Inr w"
  shows "decode_svc_params w = Inr (sort_key fst ps)"
  using svc_encode_decode [OF assms [unfolded encode_svc_params_def], of "[]"]
  by (auto simp: decode_svc_params_def)

lemma txt_encode_decode:
  "txt_encode ss out = (Inr (), w) \<Longrightarrow>
   \<exists>body. w = out @ body \<and> (\<forall>acc. txt_loop body acc = Inr (acc @ ss)) \<and> (ss \<noteq> [] \<longrightarrow> body \<noteq> [])"
proof (induction ss arbitrary: out)
  case (Cons s ss)
  then have len: "length s < 256" and "txt_encode ss (out @ of_nat (length s) # s) = (Inr (), w)"
    by (auto split: if_splits)
  from Cons.IH [OF this(2)] obtain body where
    "w = (out @ of_nat (length s) # s) @ body" "\<forall>acc. txt_loop body acc = Inr (acc @ ss)"
    by auto
  with len show ?case
    by (intro exI [of _ "of_nat (length s) # s @ body"]) (simp add: unat_of_nat_byte)
qed simp

lemma from_wire_in_wf [simp]: "wf_name n \<Longrightarrow> from_wire_in (n @ rest) message = Inr (n, rest)"
  by (simp add: from_wire_in_def name_wire_from_bytes_in_uncompressed)

lemma from_wire_in_wf_end [simp]: "wf_name n \<Longrightarrow> from_wire_in n message = Inr (n, [])"
  using from_wire_in_wf [of n "[]"] by simp

lemma wf_name_nonempty [simp]: "wf_name n \<Longrightarrow> n \<noteq> []"
  by (auto elim!: wf_nameE)

lemma read_be_end [simp]:
  "read_u16 (be16 x) = Inr (x, [])" "read_u32 (be32 y) = Inr (y, [])"
  using read_u16_be16 [of x "[]"] read_u32_be32 [of y "[]"] by simp_all

lemma decode_nsec3_encoded:
  assumes "length salt \<le> 255" and "length owner \<le> 255"
  shows "decode_nsec3 (a # f # be16 it @ of_nat (length salt) # salt @ of_nat (length owner) # owner @ bm) =
    Inr (PNSEC3 a f it salt owner bm)"
proof -
  have "unat (of_nat (length salt) :: byte) = length salt" "unat (of_nat (length owner) :: byte) = length owner"
    using assms by (simp_all add: unat_of_nat_byte)
  then show ?thesis by (simp add: decode_nsec3_def seg_def be16_def from_be16_be16 read_u16_def)
qed

text \<open>Each arm of \<^verbatim>\<open>decode\<close>, for RDATA that is not empty.\<close>

lemma decode_arms:
  assumes "w \<noteq> []"
  shows "decode rt_A w m = rbind (decode_array 4 w) (\<lambda>a. Inr (PA a))"
    "decode rt_AAAA w m = rbind (decode_array 16 w) (\<lambda>a. Inr (PAAAA a))"
    "decode rt_NS w m = rbind (from_wire_in w m) (\<lambda>(n, _). Inr (PNS n))"
    "decode rt_CNAME w m = rbind (from_wire_in w m) (\<lambda>(n, _). Inr (PCNAME n))"
    "decode rt_PTR w m = rbind (from_wire_in w m) (\<lambda>(n, _). Inr (PPTR n))"
    "decode rt_DNAME w m = rbind (from_wire_in w m) (\<lambda>(n, _). Inr (PDNAME n))"
    "decode rt_SOA w m = decode_soa w m"
    "decode rt_MX w m = decode_mx w m"
    "decode rt_TXT w m = rbind (txt_loop w []) (\<lambda>ss. Inr (PTXT ss))"
    "decode rt_RRSIG w m = decode_rrsig w m"
    "decode rt_NSEC w m = decode_nsec w m"
    "decode rt_NSEC3 w m = decode_nsec3 w"
    "t = rt_SVCB \<or> t = rt_HTTPS \<Longrightarrow> decode t w m = decode_svcb t w m"
    "t = rt_DS \<or> t = rt_CDS \<Longrightarrow> decode t w m = decode_ds t w"
    "t = rt_DNSKEY \<or> t = rt_CDNSKEY \<Longrightarrow> decode t w m = decode_dnskey t w"
  using assms by (auto simp: decode_def rtype_defs)

lemma decode_encoded:
  assumes ok: "parsed_ok p" and e: "encode_into p [] = (Inr t, w)"
  shows "decode t w message = Inr (canon p)"
proof (cases p)
  case (PSVCB t' priority target params)
  with e obtain ps where "encode_svc_params params = Inr ps" "t = t'" "w = be16 priority @ target @ ps"
    by (cases "encode_svc_params params") auto
  with PSVCB ok encode_svc_decode show ?thesis
    by (simp add: decode_arms decode_svcb_def)
next
  case (PTXT strings)
  with e have "t = rt_TXT" "txt_encode strings [] = (Inr (), w)" "strings \<noteq> []"
    by (auto simp: sbind_eq_Inr_conv split: if_splits)
  with txt_encode_decode [of strings "[]" w] PTXT show ?thesis
    by (auto simp: decode_arms)
next
  case (PNSEC3 ha f it salt owner bm)
  then have "encode_into p [] = (case length_octet ''an NSEC3 salt'' salt of
      Inl e \<Rightarrow> (Inl e, [ha, f] @ be16 it)
    | Inr n \<Rightarrow> (case length_octet ''an NSEC3 next hashed owner'' owner of
        Inl e \<Rightarrow> (Inl e, [ha, f] @ be16 it @ n # salt)
      | Inr m \<Rightarrow> (Inr rt_NSEC3, [ha, f] @ be16 it @ n # salt @ m # owner @ bm)))"
    by (simp split: sum.split)
  with e have "length salt \<le> 255" "length owner \<le> 255" "t = rt_NSEC3"
    "w = ha # f # be16 it @ of_nat (length salt) # salt @ of_nat (length owner) # owner @ bm"
    by (auto simp: length_octet_def split: if_splits)
  with PNSEC3 decode_nsec3_encoded show ?thesis by (simp add: decode_arms)
next
  case (PA a)
  with ok e have "w \<noteq> []" "t = rt_A" "length w = 4" "w = a" by auto
  with PA show ?thesis by (simp add: decode_arms decode_array_def)
next
  case (PAAAA a)
  with ok e have "w \<noteq> []" "t = rt_AAAA" "length w = 16" "w = a" by auto
  with PAAAA show ?thesis by (simp add: decode_arms decode_array_def)
qed (use ok e in \<open>auto simp: decode_arms decode_array_def decode_soa_def decode_mx_def decode_ds_def
  decode_rrsig_def decode_nsec_def decode_dnskey_def\<close>)

text \<open>
  C33. \<^verbatim>\<open>ParsedRecord::encode\<close> and \<^verbatim>\<open>decode\<close> are inverse: RDATA that a typed record encodes to
  decodes, under the type it encodes as and whatever the surrounding message, to the same
  record, its SvcParams in key order.
\<close>

theorem encode_decode_round_trip:
  assumes "parsed_ok p" and "encode p = Inr (t, w)"
  shows "decode t w message = Inr (canon p)"
  using decode_encoded [OF assms(1)] assms(2) by (auto simp: encode_def split: prod.splits sum.splits)

theorem encode_decode_round_trip_witness:
  "decode rt_MX [0, 10, 1, 97, 0] [] = Inr (canon (PMX 10 [1, 97, 0]))"
proof (rule encode_decode_round_trip)
  have "wf_name (wire_of [[97]])" by (simp add: label_ok_def length_wire_of del: wire_of_simps)
  then show "parsed_ok (PMX 10 [1, 97, 0])" by simp
  show "encode (PMX 10 [1, 97, 0]) = Inr (rt_MX, [0, 10, 1, 97, 0])"
    by (simp add: encode_def be16_def)
qed

section \<open>What decoding yields can be stored\<close>

lemma svc_params_loop_sound:
  assumes "svc_params_loop rest acc = Inr ps" and "sorted_wrt (<) (map fst acc)"
    and "\<forall>p \<in> set acc. length (snd p) \<le> 65535"
  shows "sorted_wrt (<) (map fst ps) \<and> (\<forall>p \<in> set ps. length (snd p) \<le> 65535)"
  using assms
proof (induction rest acc rule: svc_params_loop.induct)
  case (1 rest acc)
  show ?case
  proof (cases "rest = []")
    case True
    with 1 show ?thesis by (simp add: svc_params_loop.simps)
  next
    case False
    with "1.prems"(1) obtain r1 r2 where r: "read_u16 rest = Inr r1" "read_u16 (snd r1) = Inr r2"
      "\<not> length (snd r2) < unat (fst r2)" "\<not> (acc \<noteq> [] \<and> fst r1 \<le> fst (last acc))"
      "svc_params_loop (drop (unat (fst r2)) (snd r2)) (acc @ [(fst r1, take (unat (fst r2)) (snd r2))]) = Inr ps"
      by (subst (asm) svc_params_loop.simps) (auto simp: rbind_eq_Inr_conv Let_def split: if_splits)
    have last: "fst p < fst r1" if "p \<in> set acc" for p
      using that "1.prems"(2) r(4) by (cases acc rule: rev_cases) (auto simp: sorted_wrt_append)
    have "length (take (unat (fst r2)) (snd r2)) \<le> 65535" using unat_u16_less [of "fst r2"] by simp
    with "1.IH" [OF False r(1,2) refl refl refl r(3,4,5)] "1.prems"(2,3) last show ?thesis
      by (auto simp: sorted_wrt_append)
  qed
qed

lemma svc_encode_total:
  "sorted_wrt (<) (map fst ps) \<Longrightarrow> \<forall>p \<in> set ps. length (snd p) \<le> 65535 \<Longrightarrow>
   (\<forall>k. prev = Some k \<longrightarrow> (\<forall>p \<in> set ps. k \<noteq> fst p)) \<Longrightarrow> \<exists>w. svc_encode_loop prev ps out = Inr w"
  by (induction prev ps out rule: svc_encode_loop.induct) auto

lemma txt_loop_sound:
  "txt_loop rest acc = Inr ss \<Longrightarrow> \<forall>s \<in> set acc. length s \<le> 255 \<Longrightarrow>
   (\<forall>s \<in> set ss. length s \<le> 255) \<and> (acc \<noteq> [] \<or> rest \<noteq> [] \<longrightarrow> ss \<noteq> [])"
proof (induction rest acc rule: txt_loop.induct)
  case (2 len after_len strings)
  have "length (take (unat len) after_len) \<le> 255" using unat_byte_less [of len] by simp
  with 2 show ?case by (auto split: if_splits)
qed simp

lemma txt_encode_total:
  "\<forall>s \<in> set ss. length s \<le> 255 \<Longrightarrow> \<exists>w. txt_encode ss out = (Inr (), w)"
  by (induction ss arbitrary: out) auto

lemma from_wire_in_name: "from_wire_in d m = Inr (n, rest) \<Longrightarrow> wf_name n"
  by (simp add: from_wire_in_def name_wire_from_bytes_in_wf)

definition storable :: "rtype \<Rightarrow> parsed_record \<Rightarrow> bool" where
  "storable t p \<longleftrightarrow> parsed_ok p \<and> canon p = p \<and> (\<exists>w. encode p = Inr (t, w))"

lemma storable_simple:
  "length a = 4 \<Longrightarrow> storable rt_A (PA a)" "length a = 16 \<Longrightarrow> storable rt_AAAA (PAAAA a)"
  "wf_name n \<Longrightarrow> storable rt_NS (PNS n)" "wf_name n \<Longrightarrow> storable rt_CNAME (PCNAME n)"
  "wf_name n \<Longrightarrow> storable rt_PTR (PPTR n)" "wf_name n \<Longrightarrow> storable rt_DNAME (PDNAME n)"
  "wf_name n \<Longrightarrow> wf_name k \<Longrightarrow> storable rt_SOA (PSOA n k s1 s2 s3 s4 s5)"
  "wf_name n \<Longrightarrow> storable rt_MX (PMX p n)" "wf_name n \<Longrightarrow> storable rt_NSEC (PNSEC n bm)"
  "wf_name n \<Longrightarrow> storable rt_RRSIG (PRRSIG tc al lb ot ic ex kt n sg)"
  "t = rt_DS \<or> t = rt_CDS \<Longrightarrow> storable t (PDS t kt al dt dg)"
  "t = rt_DNSKEY \<or> t = rt_CDNSKEY \<Longrightarrow> storable t (PDNSKEY t fl pr al pk)"
  by (simp_all add: storable_def encode_def)

lemma storable_svcb:
  assumes "decode_svc_params r = Inr ps" and "t = rt_SVCB \<or> t = rt_HTTPS" and "wf_name n"
  shows "storable t (PSVCB t pr n ps)"
proof -
  have s: "sorted_wrt (<) (map fst ps)" "\<forall>p \<in> set ps. length (snd p) \<le> 65535"
    using svc_params_loop_sound [of r "[]" ps] assms(1) by (simp_all add: decode_svc_params_def)
  then have "sort_key fst ps = ps" by (simp add: sort_key_id_if_sorted strict_sorted_imp_sorted)
  moreover from svc_encode_total [OF s, of None "[]"] obtain w where "encode_svc_params ps = Inr w"
    using calculation by (auto simp: encode_svc_params_def)
  ultimately show ?thesis using assms(2,3) by (auto simp: storable_def encode_def)
qed

lemma storable_txt:
  assumes "txt_loop r [] = Inr ss" and "r \<noteq> []"
  shows "storable rt_TXT (PTXT ss)"
proof -
  have "\<forall>s \<in> set ss. length s \<le> 255" "ss \<noteq> []" using txt_loop_sound [OF assms(1)] assms(2) by auto
  with txt_encode_total [of ss "[]"] show ?thesis by (auto simp: storable_def encode_def)
qed

lemma storable_nsec3:
  assumes "decode_nsec3 r = Inr p"
  shows "storable rt_NSEC3 p"
proof -
  from assms obtain it rest where r: "read_u16 (drop 2 r) = Inr (it, rest)" "5 \<le> length r"
    by (auto simp: decode_nsec3_def rbind_eq_Inr_conv split: if_splits)
  define salt where "salt = seg rest 1 (1 + unat (rest ! 0))"
  define rest' where "rest' = drop (1 + unat (rest ! 0)) rest"
  define owner where "owner = seg rest' 1 (1 + unat (rest' ! 0))"
  from assms r have "p = PNSEC3 (r ! 0) (r ! 1) it salt owner (drop (1 + unat (rest' ! 0)) rest')"
    by (auto simp: decode_nsec3_def rbind_eq_Inr_conv salt_def rest'_def owner_def Let_def split: if_splits)
  moreover have "length salt \<le> 255" "length owner \<le> 255"
    using unat_byte_less [of "rest ! 0"] unat_byte_less [of "rest' ! 0"]
    by (simp_all add: salt_def owner_def seg_def)
  ultimately show ?thesis by (simp add: storable_def encode_def length_octet_def)
qed

lemma decode_storable:
  assumes "decode t r m = Inr p"
  shows "p = PUnknown t \<and> (\<forall>m'. decode t r m' = Inr (PUnknown t)) \<or> storable t p"
proof (cases "r = []")
  case True
  with assms show ?thesis by (simp add: decode_def)
next
  case r: False
  show ?thesis
  proof (cases "t \<in> set [rt_SVCB, rt_HTTPS, rt_TXT, rt_NSEC3]")
    case True
    with assms r show ?thesis
      by (auto simp: decode_arms decode_svcb_def rbind_eq_Inr_conv
          intro: storable_txt storable_nsec3 intro!: storable_svcb dest!: from_wire_in_name)
  next
    case False
    then have f: "t \<noteq> rt_SVCB" "t \<noteq> rt_HTTPS" "t \<noteq> rt_TXT" "t \<noteq> rt_NSEC3" by simp_all
    show ?thesis
    proof (cases "t \<in> set [rt_A, rt_AAAA, rt_NS, rt_CNAME, rt_PTR, rt_DNAME, rt_SOA, rt_MX, rt_NSEC,
        rt_RRSIG, rt_DS, rt_CDS, rt_DNSKEY, rt_CDNSKEY]")
      case True
      then show ?thesis
        using assms r storable_simple
        by (auto simp: decode_arms decode_array_def decode_soa_def decode_mx_def decode_nsec_def
            decode_rrsig_def decode_ds_def decode_dnskey_def rbind_eq_Inr_conv Let_def
            dest!: from_wire_in_name split: if_splits)
    next
      case False
      with f assms r show ?thesis by (auto simp: decode_def)
    qed
  qed
qed

lemma from_wire_decode:
  assumes d: "decode t r m = Inr p"
  shows "\<exists>d. rdata_from_wire t r m = Inr d \<and> rd_type d = t \<and> rdata_parse d = Inr p \<and>
    (if p = PUnknown t then rd_bytes d = r else encode p = Inr (t, rd_bytes d))"
  using decode_storable [OF d]
proof
  assume "p = PUnknown t \<and> (\<forall>m'. decode t r m' = Inr (PUnknown t))"
  then show ?thesis using d by (auto simp: rdata_from_wire_def rdata_parse_def)
next
  assume s: "storable t p"
  then obtain w where w: "encode p = Inr (t, w)" "parsed_ok p" "canon p = p"
    by (auto simp: storable_def)
  then have "decode t w w = Inr p"
    using decode_encoded [of p t w w] by (auto simp: encode_def split: prod.splits sum.splits)
  moreover have "rdata_from_wire t r m = Inr \<lparr>rd_type = t, rd_bytes = w\<rparr>" "p \<noteq> PUnknown t"
    using d w by (cases p; simp add: rdata_from_wire_def)+
  ultimately show ?thesis using w(1) by (simp add: rdata_parse_def)
qed

text \<open>
  C34. Reading RDATA off the wire and storing it: whenever the octets decode, compressed names
  included, \<^verbatim>\<open>RecordData::from_wire\<close> succeeds, keeps the type, and what it stores parses on its
  own to the same record. It fails exactly when decoding fails.
\<close>

theorem from_wire_stores:
  "(\<forall>p. decode t r m = Inr p \<longrightarrow>
      (\<exists>d. rdata_from_wire t r m = Inr d \<and> rd_type d = t \<and> rdata_parse d = Inr p)) \<and>
   (\<forall>e. decode t r m = Inl e \<longrightarrow> rdata_from_wire t r m = Inl e)"
  using from_wire_decode [of t r m] by (auto simp: rdata_from_wire_def)

theorem from_wire_stores_witness:
  "\<exists>d. rdata_from_wire rt_NS [1, 97, 0] [] = Inr d \<and> rd_type d = rt_NS \<and>
    rdata_parse d = Inr (PNS [1, 97, 0])"
proof -
  have "wf_name (wire_of [[97]])" by (simp add: label_ok_def length_wire_of del: wire_of_simps)
  then have "decode rt_NS [1, 97, 0] [] = Inr (PNS [1, 97, 0])" by (simp add: decode_arms)
  then show ?thesis using from_wire_stores [of rt_NS "[1, 97, 0]" "[]"] by blast
qed

section \<open>Reading fields in place\<close>

text \<open>
  The offset walks agree with the decoder: on RDATA stored from a typed record, SERIAL and
  MINIMUM of an SOA, TYPE COVERED of an RRSIG, and the iterations and salt of an NSEC3 read in
  place are the fields the record has.
\<close>

theorem accessors_agree:
  "wf_name m \<Longrightarrow> wf_name r \<Longrightarrow> rdata_from_parsed (PSOA m r s f y x i) = Inr d1 \<Longrightarrow>
   rdata_from_parsed (PRRSIG tc al lb ot ic ex kt sn sg) = Inr d2 \<Longrightarrow>
   rdata_from_parsed (PNSEC3 ha fl it salt own bm) = Inr d3 \<Longrightarrow>
   soa_serial d1 = Some s \<and> soa_minimum d1 = Some i \<and> rrsig_type_covered d2 = Some tc \<and>
   nsec3_parameters d3 = Some (it, salt)"
proof (intro conjI)
  assume n: "wf_name m" "wf_name r" and d1: "rdata_from_parsed (PSOA m r s f y x i) = Inr d1"
  then have "soa_scalars d1 = Some (be32 s @ be32 f @ be32 y @ be32 x @ be32 i)"
    using skip_uncompressed_name_wire
    by (auto simp: rdata_from_parsed_def encode_def soa_scalars_def)
  then show "soa_serial d1 = Some s" "soa_minimum d1 = Some i"
    by (simp_all add: soa_serial_def soa_minimum_def be32_def from_be32_be32)
next
  assume "rdata_from_parsed (PRRSIG tc al lb ot ic ex kt sn sg) = Inr d2"
  then show "rrsig_type_covered d2 = Some tc"
    by (auto simp: rdata_from_parsed_def encode_def rrsig_type_covered_def be16_def from_be16_be16)
next
  assume d3: "rdata_from_parsed (PNSEC3 ha fl it salt own bm) = Inr d3"
  then have "length salt \<le> 255"
    and "d3 = \<lparr>rd_type = rt_NSEC3, rd_bytes = [ha, fl] @ be16 it @ of_nat (length salt) # salt @
      of_nat (length own) # own @ bm\<rparr>"
    by (auto simp: rdata_from_parsed_def encode_def length_octet_def split: if_splits)
  then show "nsec3_parameters d3 = Some (it, salt)"
    by (simp add: nsec3_parameters_def be16_def from_be16_be16 unat_of_nat_byte seg_def Let_def)
qed

theorem accessors_agree_witness:
  "\<exists>d1 d2 d3. soa_serial d1 = Some 7 \<and> soa_minimum d1 = Some 300 \<and>
    rrsig_type_covered d2 = Some rt_A \<and> nsec3_parameters d3 = Some (5, [1, 2])"
proof -
  have r: "wf_name [0]" using wf_name_wire_of [of "[]"] by simp
  obtain d1 d2 d3 where d: "rdata_from_parsed (PSOA [0] [0] 7 1 1 1 300) = Inr d1"
    "rdata_from_parsed (PRRSIG rt_A 8 1 60 0 0 1 [0] []) = Inr d2"
    "rdata_from_parsed (PNSEC3 1 0 5 [1, 2] [3] []) = Inr d3"
    by (simp add: rdata_from_parsed_def encode_def length_octet_def)
  show ?thesis using accessors_agree [OF r r d] by blast
qed

section \<open>The arena\<close>

lemma txt_encode_prefix:
  "txt_encode ss out = (r, w) \<Longrightarrow> txt_encode ss (pre @ out) = (r, pre @ w)"
  by (induction ss arbitrary: out) (auto split: if_splits)

text \<open>What is already in the buffer makes no difference to what \<^verbatim>\<open>encode_into\<close> appends.\<close>

lemma encode_into_prefix: "encode_into p out = (r, w) \<Longrightarrow> encode_into p (pre @ out) = (r, pre @ w)"
proof (cases p)
  case (PSVCB t pr n ps)
  assume "encode_into p out = (r, w)"
  with PSVCB show ?thesis by (cases "encode_svc_params ps") auto
next
  case (PTXT ss)
  assume e: "encode_into p out = (r, w)"
  obtain r' w' where t: "txt_encode ss out = (r', w')" by (cases "txt_encode ss out")
  with e PTXT txt_encode_prefix [OF t, of pre] show ?thesis
    by (cases r') (auto split: if_splits)
next
  case (PNSEC3 ha fl it salt own bm)
  assume "encode_into p out = (r, w)"
  with PNSEC3 show ?thesis
    by (cases "length_octet ''an NSEC3 salt'' salt"; cases "length_octet ''an NSEC3 next hashed owner'' own") auto
qed auto

text \<open>
  RDATA of at most 65535 octets pushed into a zone's arena is read back from its span, type
  and octets, also after a later push; and \<^verbatim>\<open>push_parsed\<close> stores what \<^verbatim>\<open>from_parsed\<close> followed by
  \<^verbatim>\<open>push\<close> would.
\<close>

theorem rdata_arena_round_trip:
  assumes "length (rd_bytes d) \<le> 65535" and "rdata_arena_push d a = Some (s, a')"
  shows "rdata_arena_get (a' @ later) s = d \<and>
    (rdata_from_parsed p = Inr d \<longrightarrow> rdata_arena_push_parsed p a = Some (Inr s, a'))"
proof
  from assms have a: "length a < 2 ^ 32" "a' = a @ rd_bytes d"
    and s: "s = \<lparr>rs_off = of_nat (length a), rs_len = of_nat (length (rd_bytes d)), rs_type = rd_type d\<rparr>"
    by (auto simp: rdata_arena_push_def split: if_splits)
  then show "rdata_arena_get (a' @ later) s = d"
    using assms(1) seg_append_exact [of a "rd_bytes d" later]
    by (simp add: rdata_arena_get_def unat_of_nat_u16 unat_of_nat take_bit_eq_mod)
  show "rdata_from_parsed p = Inr d \<longrightarrow> rdata_arena_push_parsed p a = Some (Inr s, a')"
  proof
    assume "rdata_from_parsed p = Inr d"
    then have "encode_into p [] = (Inr (rd_type d), rd_bytes d)"
      by (auto simp: rdata_from_parsed_def encode_def split: prod.splits sum.splits)
    then have "encode_into p a = (Inr (rd_type d), a @ rd_bytes d)"
      using encode_into_prefix [of p "[]"] by auto
    with a s assms(1) show "rdata_arena_push_parsed p a = Some (Inr s, a')"
      by (simp add: rdata_arena_push_parsed_def)
  qed
qed

theorem rdata_arena_round_trip_witness:
  "rdata_arena_get ([9, 1, 2, 3, 4] @ [5]) \<lparr>rs_off = 1, rs_len = 4, rs_type = rt_A\<rparr> =
     \<lparr>rd_type = rt_A, rd_bytes = [1, 2, 3, 4]\<rparr> \<and>
   rdata_arena_push_parsed (PA [1, 2, 3, 4]) [9] =
     Some (Inr \<lparr>rs_off = 1, rs_len = 4, rs_type = rt_A\<rparr>, [9, 1, 2, 3, 4])"
  using rdata_arena_round_trip [of "\<lparr>rd_type = rt_A, rd_bytes = [1, 2, 3, 4]\<rparr>" "[9]"
      "\<lparr>rs_off = 1, rs_len = 4, rs_type = rt_A\<rparr>" "[9, 1, 2, 3, 4]" "[5]" "PA [1, 2, 3, 4]"]
  by (simp add: rdata_arena_push_def rdata_from_parsed_def encode_def)

lemma txt_encode_replicate:
  "length s \<le> 255 \<Longrightarrow>
   txt_encode (replicate n s) out = (Inr (), out @ concat (replicate n (of_nat (length s) # s)))"
  by (induction n arbitrary: out) simp_all

lemma push_parsed_too_long_keeps:
  assumes "length a < 2 ^ 32"
  shows "rdata_arena_push_parsed (PTXT (replicate 256 (replicate 255 x))) a =
    Some (Inl (TooLong ''a record's RDATA'' 65535 65536),
          a @ concat (replicate 256 (255 # replicate 255 x)))"
proof -
  have "txt_encode (replicate 256 (replicate 255 x)) a =
      (Inr (), a @ concat (replicate 256 (of_nat (length (replicate 255 x)) # replicate 255 x)))"
    by (rule txt_encode_replicate) simp
  then have e: "encode_into (PTXT (replicate 256 (replicate 255 x))) a =
      (Inr rt_TXT, a @ concat (replicate 256 (255 # replicate 255 x)))"
    by simp
  have "length (concat (replicate n (255 # replicate 255 x))) = n * 256" for n
    by (induction n) simp_all
  then show ?thesis
    using assms by (simp add: rdata_arena_push_parsed_def e del: encode_into.simps)
qed

text \<open>
  \<^verbatim>\<open>RdataArena::push_parsed\<close> does not always leave the arena as it was when it fails: RDATA
  over 65535 octets is refused after it has been appended, and stays.
\<close>

theorem push_parsed_leaves_octets:
  "\<exists>p e a'. rdata_arena_push_parsed p [] = Some (Inl e, a') \<and> a' \<noteq> []"
  using push_parsed_too_long_keeps [of "[]" 0]
  by (intro exI) auto

text \<open>
  The check in \<^verbatim>\<open>RecordData::new\<close> lets a compression pointer through: RDATA of an SOA whose
  RNAME points back into the RDATA itself is accepted, though the stored form is to be
  uncompressed; its SERIAL then cannot be read in place, and the name cannot be read
  without a message, which is how the message writer reads it.
\<close>

theorem rdata_new_accepts_pointer:
  "\<exists>d. rdata_new rt_SOA ([1, 97, 0, 192, 0] @ replicate 20 0) = Inr d \<and> soa_serial d = None \<and>
    \<not> is_ok (from_wire (drop 3 (rd_bytes d)))"
proof -
  let ?z = "replicate 20 0 :: bytes"
  let ?r = "[1, 97, 0, 192, 0] @ ?z"
  have ptr: "ptr_target 192 0 = 0" by (simp add: ptr_target_def from_be16_def POINTER_MASK_def)
  have "reads ?r 0 (drop 0 ?r) [[97]] 0 (192 # 0 # ?z)"
    using reads.literal [of "[[97]]" ?r 0 "192 # 0 # ?z"] by (simp add: label_ok_def)
  then have "reads ?r usize_MAX (wire_labels [] @ 192 # 0 # ?z) ([] @ [[97]]) (Suc 0) ?z"
    using ptr by (intro reads.pointer) (simp_all add: usize_MAX_def)
  then have rname: "from_wire_in (192 # 0 # ?z) ?r = Inr ([1, 97, 0], ?z)"
    unfolding from_wire_in_def name_wire_from_bytes_in_iff
    by (auto simp: MAX_DEPTH_def MAX_NAME_LEN_def intro!: exI [of _ "[[97]]"] exI [of _ "Suc 0"])
  have "wf_name (wire_of [[97]])" by (simp add: label_ok_def length_wire_of del: wire_of_simps)
  then have mname: "from_wire_in ?r ?r = Inr ([1, 97, 0], 192 # 0 # ?z)"
    using from_wire_in_wf [of "[1, 97, 0]" "192 # 0 # ?z" ?r] by simp
  have "decode rt_SOA ?r ?r = Inr (PSOA [1, 97, 0] [1, 97, 0] 0 0 0 0 0)"
    using rname mname
    by (simp add: decode_arms decode_soa_def read_u32_def read_i32_def from_be32_def numeral_eq_Suc)
  then have "rdata_new rt_SOA ?r = Inr \<lparr>rd_type = rt_SOA, rd_bytes = ?r\<rparr>"
    by (simp add: rdata_new_def rdata_parse_def)
  moreover have "soa_serial \<lparr>rd_type = rt_SOA, rd_bytes = ?r\<rparr> = None"
    by (simp add: soa_serial_def soa_scalars_def skip_uncompressed_name_def skip_uncompressed_loop.simps)
  moreover have "\<not> is_ok (from_wire (192 # 0 # ?z))"
  proof
    assume "is_ok (from_wire (192 # 0 # ?z))"
    then obtain ls rest where ls: "labels_ok ls" "192 # 0 # ?z = wire_of ls @ rest"
      unfolding is_ok_conv from_wire_def by (metis name_wire_from_bytes_correct surj_pair wf_nameE)
    then obtain l ks where [simp]: "ls = l # ks" by (cases ls) auto
    with ls have "(192 :: byte) = of_nat (length l)" "label_ok l" by auto
    then have "unat (192 :: byte) = length l" using label_okD(3) by metis
    with \<open>label_ok l\<close> show False by (simp add: label_ok_def)
  qed
  ultimately show ?thesis by (intro exI) auto
qed

end
