(* ===== verification/EdnsOpt.thy ===== *)
theory EdnsOpt
  imports Codes
begin

text \<open>
  \<^verbatim>\<open>rdns-core/src/edns.rs\<close> and \<^verbatim>\<open>rdns-core/src/ede.rs\<close>: the OPT pseudo-record of RFC 6891, its
  option list held as octets, and the Extended DNS Error option of RFC 8914. The closure
  that \<^verbatim>\<open>walk_options\<close> calls for each option is the list of the options it was called with.
\<close>

section \<open>The code\<close>

definition OPT_RECORD_TYPE :: rtype where "OPT_RECORD_TYPE = 41"
definition CLASSIC_UDP_SIZE :: u16 where "CLASSIC_UDP_SIZE = 512"
definition EDNS_VERSION :: byte where "EDNS_VERSION = 0"
definition FLAG_DAY_UDP_SIZE :: u16 where "FLAG_DAY_UDP_SIZE = 1232"
definition EDNS_OPTION_NSID :: u16 where "EDNS_OPTION_NSID = 3"
definition EDNS_OPTION_PADDING :: u16 where "EDNS_OPTION_PADDING = 12"
definition EDNS_OPTION_EXTENDED_ERROR :: u16 where "EDNS_OPTION_EXTENDED_ERROR = 15"
definition MAX_EXTRA_TEXT :: nat where "MAX_EXTRA_TEXT = 128"

record udp_sizes =
  advertised :: u16
  max_response :: u16

definition udp_sizes_new :: "u16 \<Rightarrow> u16 \<Rightarrow> udp_sizes" where
  "udp_sizes_new adv max_resp =
     \<lparr>advertised = max adv CLASSIC_UDP_SIZE, max_response = max max_resp CLASSIC_UDP_SIZE\<rparr>"

definition udp_sizes_default :: udp_sizes where
  "udp_sizes_default = udp_sizes_new FLAG_DAY_UDP_SIZE FLAG_DAY_UDP_SIZE"

record edns_option =
  opt_code :: u16
  opt_data :: bytes

definition append_to :: "edns_option \<Rightarrow> bytes \<Rightarrow> bytes wire_result" where
  "append_to opt rdata =
     (if length (opt_data opt) > 65535
      then Inl (TooLong ''EDNS option data'' 65535 (length (opt_data opt)))
      else Inr (rdata @ be16 (opt_code opt) @ be16 (of_nat (length (opt_data opt))) @ opt_data opt))"

record edns =
  udp_payload_size :: u16
  version :: byte
  do_bit :: bool
  opt_rdata :: bytes

record edns_header =
  eh_udp_payload_size :: u16
  eh_version :: byte
  eh_do_bit :: bool

definition edns_header_of :: "edns \<Rightarrow> edns_header" where
  "edns_header_of e =
     \<lparr>eh_udp_payload_size = udp_payload_size e, eh_version = version e, eh_do_bit = do_bit e\<rparr>"

definition from_opt :: "u16 \<Rightarrow> u32 \<Rightarrow> bytes \<Rightarrow> edns" where
  "from_opt sz flags rdata =
     \<lparr>udp_payload_size = sz, version = ucast (drop_bit 16 flags AND 0xff),
      do_bit = (flags AND 0x8000 \<noteq> 0), opt_rdata = rdata\<rparr>"

definition with_payload_size :: "u16 \<Rightarrow> edns" where
  "with_payload_size sz =
     \<lparr>udp_payload_size = sz, version = EDNS_VERSION, do_bit = False, opt_rdata = []\<rparr>"

fun append_all :: "edns_option list \<Rightarrow> bytes \<Rightarrow> bytes wire_result" where
  "append_all [] rdata = Inr rdata"
| "append_all (opt # opts) rdata = rbind (append_to opt rdata) (append_all opts)"

definition with_options :: "u16 \<Rightarrow> byte \<Rightarrow> bool \<Rightarrow> edns_option list \<Rightarrow> edns wire_result" where
  "with_options sz ver dob opts =
     rbind (append_all opts []) (\<lambda>rdata.
       Inr \<lparr>udp_payload_size = sz, version = ver, do_bit = dob, opt_rdata = rdata\<rparr>)"

function walk_options :: "bytes \<Rightarrow> edns_option list wire_result" where
  "walk_options rdata =
     (if rdata = [] then Inr []
      else if length rdata < 4 then Inl (Truncated ''an EDNS option header'' 4 (length rdata))
      else
        rbind (read_u16 rdata) (\<lambda>r1.
        rbind (read_u16 (snd r1)) (\<lambda>r2.
        let len = unat (fst r2); tail = snd r2 in
        if length tail < len then Inl (Truncated ''EDNS option data'' len (length tail))
        else rbind (walk_options (drop len tail)) (\<lambda>opts.
          Inr (\<lparr>opt_code = fst r1, opt_data = take len tail\<rparr> # opts)))))"
  by pat_completeness auto
termination
  by (relation "measure length") (auto simp: read_u16_def split: if_splits)

declare walk_options.simps [simp del]

definition edns_options :: "edns \<Rightarrow> edns_option list wire_result" where
  "edns_options e = walk_options (opt_rdata e)"

definition has_option :: "edns \<Rightarrow> u16 \<Rightarrow> bool wire_result" where
  "has_option e c = rbind (walk_options (opt_rdata e)) (\<lambda>opts. Inr (list_ex (\<lambda>opt. opt_code opt = c) opts))"

definition check_options :: "edns \<Rightarrow> unit wire_result" where
  "check_options e = rbind (walk_options (opt_rdata e)) (\<lambda>_. Inr ())"

definition edns_option_data :: "edns \<Rightarrow> u16 \<Rightarrow> bytes option wire_result" where
  "edns_option_data e c =
     rbind (walk_options (opt_rdata e)) (\<lambda>opts.
       Inr (map_option opt_data (find (\<lambda>opt. opt_code opt = c) opts)))"

subsection \<open>Extended errors\<close>

record extended_error =
  info_code :: u16
  extra_text :: bytes

text \<open>\<^verbatim>\<open>ExtendedError::new\<close> panics on text over the limit, which is \<open>None\<close>.\<close>

definition extended_error_new :: "u16 \<Rightarrow> bytes \<Rightarrow> extended_error option" where
  "extended_error_new c t =
     (if length t \<le> MAX_EXTRA_TEXT then Some \<lparr>info_code = c, extra_text = t\<rparr> else None)"

definition to_option :: "extended_error \<Rightarrow> edns_option" where
  "to_option err = \<lparr>opt_code = EDNS_OPTION_EXTENDED_ERROR, opt_data = be16 (info_code err) @ extra_text err\<rparr>"

definition info_code_of :: "bytes \<Rightarrow> u16 wire_result" where
  "info_code_of d =
     (if length d < 2 then Inl (Truncated ''an EDE INFO-CODE'' 2 (length d))
      else Inr (from_be16 (d ! 0) (d ! 1)))"

definition with_extended_error :: "edns \<Rightarrow> extended_error \<Rightarrow> edns wire_result" where
  "with_extended_error e err =
     rbind (append_to (to_option err) (opt_rdata e)) (\<lambda>rdata. Inr (e\<lparr>opt_rdata := rdata\<rparr>))"

section \<open>Option lists\<close>

lemma walk_options_one:
  assumes "length (opt_data opt) \<le> 65535"
  shows "walk_options (be16 (opt_code opt) @ be16 (of_nat (length (opt_data opt))) @ opt_data opt @ rest) =
    rbind (walk_options rest) (\<lambda>opts. Inr (opt # opts))"
proof -
  let ?d = "be16 (opt_code opt) @ be16 (of_nat (length (opt_data opt))) @ opt_data opt @ rest"
  have "?d \<noteq> []" "\<not> length ?d < 4" by (simp_all add: be16_def)
  then show ?thesis
    using assms by (cases opt) (subst walk_options.simps, simp add: unat_of_nat_u16 Let_def)
qed

lemma walk_options_Nil [simp]: "walk_options [] = Inr []"
  by (simp add: walk_options.simps)

lemma append_all_walk:
  "append_all opts out = Inr w \<Longrightarrow> \<exists>body. w = out @ body \<and>
     (\<forall>rest. walk_options (body @ rest) = rbind (walk_options rest) (\<lambda>more. Inr (opts @ more)))"
proof (induction opts arbitrary: out)
  case Nil
  have "rbind r Inr = r" for r :: "edns_option list wire_result" by (cases r) auto
  with Nil show ?case by auto
next
  case (Cons opt opts)
  then have len: "length (opt_data opt) \<le> 65535"
    and "append_all opts (out @ be16 (opt_code opt) @ be16 (of_nat (length (opt_data opt))) @ opt_data opt) = Inr w"
    by (auto simp: append_to_def split: if_splits)
  from Cons.IH [OF this(2)] obtain body where
    "w = (out @ be16 (opt_code opt) @ be16 (of_nat (length (opt_data opt))) @ opt_data opt) @ body"
    "\<forall>rest. walk_options (body @ rest) = rbind (walk_options rest) (\<lambda>more. Inr (opts @ more))"
    by blast
  with walk_options_one [OF len] show ?case
    by (intro exI [of _ "be16 (opt_code opt) @ be16 (of_nat (length (opt_data opt))) @ opt_data opt @ body"])
      (simp add: rbind_assoc)
qed

lemma read_u16_append: "read_u16 a = Inr (x, r) \<Longrightarrow> read_u16 (a @ b) = Inr (x, r @ b)"
  by (auto simp: read_u16_def nth_append split: if_splits)

lemma walk_options_append:
  "walk_options a = Inr opts \<Longrightarrow> walk_options (a @ b) = rbind (walk_options b) (\<lambda>more. Inr (opts @ more))"
proof (induction a arbitrary: opts rule: walk_options.induct)
  case (1 a)
  show ?case
  proof (cases "a = []")
    case True
    have "rbind r Inr = r" for r :: "edns_option list wire_result" by (cases r) auto
    with True 1 show ?thesis by simp
  next
    case False
    with "1.prems" obtain c r len tail os where a: "\<not> length a < 4" "read_u16 a = Inr (c, r)"
      "read_u16 r = Inr (len, tail)" "\<not> length tail < unat len"
      and w: "walk_options (drop (unat len) tail) = Inr os"
      and opts: "opts = \<lparr>opt_code = c, opt_data = take (unat len) tail\<rparr> # os"
      by (subst (asm) walk_options.simps) (auto simp: rbind_eq_Inr_conv Let_def split: if_splits)
    have IH: "walk_options (drop (unat len) tail @ b) = rbind (walk_options b) (\<lambda>more. Inr (os @ more))"
      using "1.IH" [OF False a(1,2) _ refl refl, of "(len, tail)" os] a w by simp
    have "drop (unat len) (tail @ b) = drop (unat len) tail @ b" "take (unat len) (tail @ b) = take (unat len) tail"
      using a(4) by simp_all
    with False a IH opts read_u16_append [OF a(2), of b] read_u16_append [OF a(3), of b]
    show ?thesis by (subst walk_options.simps) (simp add: Let_def rbind_assoc)
  qed
qed

text \<open>
  An OPT's options read back as they were given: the list \<^verbatim>\<open>with_options\<close> encodes is the
  list \<^verbatim>\<open>options\<close> parses, \<^verbatim>\<open>has_option\<close> and \<^verbatim>\<open>option\<close> answer from it, and encoding fails only for
  data over 65535 octets.
\<close>

theorem options_round_trip:
  "(case with_options sz ver dob opts of
      Inr e \<Rightarrow> edns_options e = Inr opts \<and> check_options e = Inr () \<and>
        has_option e c = Inr (\<exists>opt \<in> set opts. opt_code opt = c) \<and>
        edns_option_data e c = Inr (map_option opt_data (find (\<lambda>opt. opt_code opt = c) opts)) \<and>
        edns_header_of e = \<lparr>eh_udp_payload_size = sz, eh_version = ver, eh_do_bit = dob\<rparr>
    | Inl _ \<Rightarrow> \<exists>opt \<in> set opts. length (opt_data opt) > 65535)"
proof (cases "append_all opts []")
  case (Inl e)
  have "append_all os out = Inl e \<Longrightarrow> \<exists>opt \<in> set os. length (opt_data opt) > 65535" for os out
    by (induction os arbitrary: out) (auto simp: append_to_def split: if_splits)
  with Inl show ?thesis by (simp add: with_options_def)
next
  case (Inr w)
  from append_all_walk [OF Inr] have "walk_options w = Inr opts"
    by (metis append_Nil append_Nil2 rbind.simps(2) walk_options_Nil)
  with Inr show ?thesis
    by (simp add: with_options_def edns_options_def check_options_def has_option_def
        edns_option_data_def edns_header_of_def list_ex_iff)
qed

lemma with_extended_error_appends:
  assumes "edns_options e = Inr opts" and "extended_error_new c t = Some err"
  shows "\<exists>e'. with_extended_error e err = Inr e' \<and>
    edns_options e' = Inr (opts @ [\<lparr>opt_code = 15, opt_data = be16 c @ t\<rparr>]) \<and>
    info_code_of (be16 c @ t) = Inr c \<and> edns_header_of e' = edns_header_of e"
proof -
  from assms(2) have err: "err = \<lparr>info_code = c, extra_text = t\<rparr>" "length t \<le> 128"
    by (auto simp: extended_error_new_def MAX_EXTRA_TEXT_def split: if_splits)
  let ?opt = "\<lparr>opt_code = 15, opt_data = be16 c @ t\<rparr> :: edns_option"
  let ?w = "be16 (opt_code ?opt) @ be16 (of_nat (length (opt_data ?opt))) @ opt_data ?opt"
  have "append_to (to_option err) (opt_rdata e) = Inr (opt_rdata e @ ?w)"
    using err by (simp add: append_to_def to_option_def EDNS_OPTION_EXTENDED_ERROR_def)
  moreover have "walk_options ?w = Inr [?opt]"
    using walk_options_one [of ?opt "[]"] err by simp
  then have "walk_options (opt_rdata e @ ?w) = Inr (opts @ [?opt])"
    using walk_options_append [of "opt_rdata e" opts ?w] assms(1) by (simp add: edns_options_def)
  moreover have "info_code_of (be16 c @ t) = Inr c"
    by (simp add: info_code_of_def be16_def from_be16_be16)
  ultimately show ?thesis
    by (intro exI [of _ "e\<lparr>opt_rdata := opt_rdata e @ ?w\<rparr>"])
      (simp add: with_extended_error_def edns_options_def edns_header_of_def)
qed

text \<open>
  \<^verbatim>\<open>with_extended_error\<close> appends exactly one option to a well-formed list: code 15, INFO-CODE
  and text, which the client reads back; it never fails for an error that could be built,
  and the options before it, the size, the version and DO stay.
\<close>

theorem extended_error_appended:
  assumes "edns_options e = Inr opts" and "extended_error_new c t = Some err"
  shows "\<exists>e'. with_extended_error e err = Inr e' \<and>
    edns_options e' = Inr (opts @ [\<lparr>opt_code = 15, opt_data = be16 c @ t\<rparr>]) \<and>
    info_code_of (be16 c @ t) = Inr c \<and> edns_header_of e' = edns_header_of e"
  by (rule with_extended_error_appends [OF assms])

theorem extended_error_appended_witness:
  "\<exists>e'. with_extended_error (with_payload_size 1232) \<lparr>info_code = 7, extra_text = [120]\<rparr> = Inr e' \<and>
    edns_options e' = Inr ([] @ [\<lparr>opt_code = 15, opt_data = be16 7 @ [120]\<rparr>]) \<and>
    info_code_of (be16 7 @ [120]) = Inr 7 \<and> edns_header_of e' = edns_header_of (with_payload_size 1232)"
  by (rule extended_error_appended)
    (simp_all add: edns_options_def with_payload_size_def extended_error_new_def MAX_EXTRA_TEXT_def)

text \<open>The two sizes a server chooses are never below the classic 512.\<close>

lemma udp_sizes_floor:
  "CLASSIC_UDP_SIZE \<le> advertised (udp_sizes_new a m)" "CLASSIC_UDP_SIZE \<le> max_response (udp_sizes_new a m)"
  by (simp_all add: udp_sizes_new_def)

end
