(* ===== verification/Wire.thy ===== *)
theory Wire
  imports Compression Records EdnsOpt
begin

text \<open>
  Questions and resource records on the wire: the readers of \<^verbatim>\<open>rdns-core/src/message.rs\<close> and
  \<^verbatim>\<open>rdns-core/src/record.rs\<close> and the writers of \<^verbatim>\<open>rdns-core/src/response.rs\<close>. For each item the
  theory has a predicate that says the buffer holds it between two positions, the fact that
  the writer establishes the predicate, and the fact that the reader reads the item back
  from any message that agrees with the buffer there.
\<close>

section \<open>The code\<close>

record query_section =
  qname :: name
  qtype :: qtype
  qclass :: query_class

record resource_record =
  rr_name :: name
  rr_class :: dclass
  rr_ttl :: ttl
  rr_data :: record_data

record record_parts =
  rp_name :: dname
  rp_type :: rtype
  rp_class :: u16
  rp_ttl_bits :: u32
  rp_rdata :: bytes

datatype additional = ARecord resource_record | AOpt edns u32

subsection \<open>Reading\<close>

definition query_try_from_bytes :: "bytes \<Rightarrow> bytes \<Rightarrow> (query_section \<times> bytes) wire_result" where
  "query_try_from_bytes data message =
     rbind (from_wire_in data message) (\<lambda>(n, rest).
     rbind (read_u16 rest) (\<lambda>(t, rest).
     rbind (read_u16 rest) (\<lambda>(c, rest).
     Inr (\<lparr>qname = n, qtype = t, qclass = query_class_from_u16 c\<rparr>, rest))))"

definition read_record_parts :: "bytes \<Rightarrow> (record_parts \<times> bytes) wire_result" where
  "read_record_parts data =
     rbind (dname_try_from_bytes data) (\<lambda>(n, rest).
     rbind (read_u16 rest) (\<lambda>(t, rest).
     rbind (read_u16 rest) (\<lambda>(c, rest).
     rbind (read_i32 rest) (\<lambda>(ttl_bits, rest).
     rbind (read_u16 rest) (\<lambda>(len, rest).
     let rdatalen = unat len in
     if length rest < rdatalen then Inl (Truncated ''RDATA'' rdatalen (length rest))
     else Inr (\<lparr>rp_name = n, rp_type = t, rp_class = c, rp_ttl_bits = ttl_bits,
                rp_rdata = take rdatalen rest\<rparr>, drop rdatalen rest))))))"

definition from_parts :: "record_parts \<Rightarrow> bytes \<Rightarrow> resource_record wire_result" where
  "from_parts parts message =
     rbind (from_dname (rp_name parts) message) (\<lambda>n.
     rbind (rdata_from_wire (rp_type parts) (rp_rdata parts) message) (\<lambda>d.
     Inr \<lparr>rr_name = n, rr_class = rp_class parts, rr_ttl = ttl_from_wire (rp_ttl_bits parts),
          rr_data = d\<rparr>))"

definition rr_try_from_bytes :: "bytes \<Rightarrow> bytes \<Rightarrow> (resource_record \<times> bytes) wire_result" where
  "rr_try_from_bytes data message =
     rbind (read_record_parts data) (\<lambda>(parts, rest).
     rbind (from_parts parts message) (\<lambda>rr. Inr (rr, rest)))"

definition additional_try_from_bytes :: "bytes \<Rightarrow> bytes \<Rightarrow> (additional \<times> bytes) wire_result" where
  "additional_try_from_bytes data message =
     rbind (read_record_parts data) (\<lambda>(parts, rest).
     if rp_type parts \<noteq> OPT_RECORD_TYPE
     then rbind (from_parts parts message) (\<lambda>rr. Inr (ARecord rr, rest))
     else let flags = rp_ttl_bits parts in
       Inr (AOpt (from_opt (rp_class parts) flags (rp_rdata parts)) flags, rest))"

subsection \<open>Writing\<close>

definition write_query :: "query_section \<Rightarrow> nat \<Rightarrow> (out_state, nat) st" where
  "write_query q pos =
     sbind (write_name (qname q) pos) (\<lambda>pos.
     sbind (write_bytes pos (be16 (qtype q))) (\<lambda>pos.
     write_bytes pos (be16 (query_class_to_u16 (qclass q)))))"

definition write_rr :: "name \<Rightarrow> dclass \<Rightarrow> ttl \<Rightarrow> record_data \<Rightarrow> nat \<Rightarrow> (out_state, nat) st" where
  "write_rr n c t d pos =
     sbind (write_name n pos) (\<lambda>pos.
     sbind (write_bytes pos (be16 (rd_type d))) (\<lambda>pos.
     sbind (write_bytes pos (be16 c)) (\<lambda>pos.
     sbind (write_bytes pos (be32 (ttl_to_wire t))) (\<lambda>rdlen_at.
     sbind (write_bytes rdlen_at [0, 0]) (\<lambda>rdata_at.
     sbind (write_rdata (rd_type d) (rd_bytes d) rdata_at) (\<lambda>pos.
     if pos - rdata_at > 65535 then slift (Inl (TooLong ''RDATA'' 65535 (pos - rdata_at)))
     else sbind (write_bytes rdlen_at (be16 (of_nat (pos - rdata_at)))) (\<lambda>_. slift (Inr pos))))))))"

definition write_opt :: "edns \<Rightarrow> u16 \<Rightarrow> nat \<Rightarrow> (out_state, nat) st" where
  "write_opt e rcode pos =
     sbind (write_bytes pos [0]) (\<lambda>pos.
     sbind (write_bytes pos (be16 OPT_RECORD_TYPE)) (\<lambda>pos.
     sbind (write_bytes pos (be16 (udp_payload_size e))) (\<lambda>pos.
     let ttl = push_bit 24 (drop_bit 4 (ucast rcode)) OR push_bit 16 (ucast (version e)) OR
           (if do_bit e then 0x8000 else 0) in
     sbind (write_bytes pos (be32 ttl)) (\<lambda>pos.
     if length (opt_rdata e) > 65535
     then slift (Inl (TooLong ''OPT RDATA'' 65535 (length (opt_rdata e))))
     else
       sbind (write_bytes pos (be16 (of_nat (length (opt_rdata e))))) (\<lambda>pos.
       write_bytes pos (opt_rdata e))))))"

section \<open>Frames of the writers\<close>

lemma writes_from_query: "writes_from pos (write_query q pos)"
  unfolding write_query_def
  by (intro writes_from_sbind writes_from_write_name writes_from_bytes order_refl)

lemma writes_from_opt: "writes_from pos (write_opt e rcode pos)"
  unfolding write_opt_def Let_def
  by (intro writes_from_sbind writes_from_bytes order_refl)
    (simp add: writes_from_fail writes_from_bytes writes_from_sbind)

section \<open>What the buffer holds\<close>

text \<open>\<open>b'\<close> agrees with \<open>b\<close> at the positions of \<open>K\<close>.\<close>

definition agrees :: "nat set \<Rightarrow> bytes \<Rightarrow> bytes \<Rightarrow> bool" where
  "agrees K b b' \<longleftrightarrow> (\<forall>k \<in> K. k < length b' \<and> b' ! k = b ! k)"

definition holds :: "bytes \<Rightarrow> nat set \<Rightarrow> nat \<Rightarrow> nat \<Rightarrow> bytes \<Rightarrow> bool" where
  "holds b K p q bs \<longleftrightarrow> q = p + length bs \<and> q \<le> length b \<and> {p..<q} \<subseteq> K \<and> seg b p q = bs"

definition name_at :: "bytes \<Rightarrow> nat set \<Rightarrow> nat \<Rightarrow> nat \<Rightarrow> bytes list \<Rightarrow> bool" where
  "name_at b K p q ls \<longleftrightarrow>
     (\<exists>ks h. spells b K p ks h q \<and> map lower ks = map lower ls \<and> h \<le> length ls)"

lemma agrees_take:
  assumes "take p b' = take p b" and "length b' = length b" and "\<forall>k \<in> K. k < p" and "p \<le> length b"
  shows "agrees K b b'"
  unfolding agrees_def
proof
  fix k
  assume "k \<in> K"
  then have k: "k < p" using assms(3) by blast
  then have "b' ! k = b ! k" using assms(1) by (metis nth_take)
  then show "k < length b' \<and> b' ! k = b ! k" using k assms(2,4) by simp
qed

lemma agrees_refl: "\<forall>k \<in> K. k < length b \<Longrightarrow> agrees K b b"
  by (simp add: agrees_def)

lemma holds_agree:
  assumes "holds b K p q bs" and "agrees K b b'" and "K \<subseteq> K'" and "length b' = length b"
  shows "holds b' K' p q bs"
proof -
  have h: "q = p + length bs" "q \<le> length b" "{p..<q} \<subseteq> K" "seg b p q = bs"
    using assms(1) unfolding holds_def by blast+
  have "b' ! i = b ! i" if "p \<le> i" "i < q" for i
    using that h(3) assms(2) unfolding agrees_def by (meson atLeastLessThan_iff subsetD)
  then have "seg b' p q = seg b p q" using h(2) assms(4) by (intro seg_cong) simp_all
  moreover have "{p..<q} \<subseteq> K'" using h(3) assms(3) by (rule subset_trans)
  ultimately show ?thesis using h assms(4) by (simp only: holds_def)
qed

lemma name_at_agree:
  assumes "name_at b K p q ls" and "agrees K b b'" and "K \<subseteq> K'"
  shows "name_at b' K' p q ls"
  using assms spells_agree [of b K p _ _ q K' b'] unfolding name_at_def agrees_def by blast

lemma comp_inv_step:
  assumes "comp_inv c b K p" and "agrees K b b'" and "length b' = length b" and "K \<subseteq> K'"
    and "\<forall>k \<in> K'. k < q" and "p \<le> q" and "q \<le> length b"
  shows "comp_inv c b' K' q"
proof -
  have "entry_ok c b' K' x" if "entry_ok c b K x" for x
    using entry_ok_agree [OF that assms(4), of b' c "[]"] assms(2) by (auto simp: agrees_def)
  with assms show ?thesis by (auto simp: comp_inv_def table_inv_def intro: less_le_trans)
qed

lemma write_bytes_step:
  assumes inv: "comp_inv (compressor s) (buf s) K p" and w: "write_bytes p bs s = (Inr q, s')"
  shows "comp_inv (compressor s') (buf s') (K \<union> {p..<q}) q \<and> holds (buf s') (K \<union> {p..<q}) p q bs \<and>
    agrees K (buf s) (buf s') \<and> length (buf s') = length (buf s) \<and> q = p + length bs"
proof -
  from w have q: "q = p + length bs" "q \<le> length (buf s)"
    and s': "s' = s\<lparr>buf := take p (buf s) @ bs @ drop q (buf s)\<rparr>"
    by (auto simp: write_bytes_ok)
  have K: "\<forall>k \<in> K. k < p" "p \<le> length (buf s)" using inv by (auto simp: comp_inv_def table_inv_def)
  have len: "length (buf s') = length (buf s)" using q by (simp add: s')
  have ag: "agrees K (buf s) (buf s')"
    by (rule agrees_take [of p]) (use q K in \<open>simp_all add: s'\<close>)
  moreover have "comp_inv (compressor s) (buf s') (K \<union> {p..<q}) q"
    by (rule comp_inv_step [OF inv ag len]) (use K q in \<open>auto intro: less_le_trans\<close>)
  moreover have "seg (take p (buf s) @ bs @ drop q (buf s)) (length (take p (buf s))) (length (take p (buf s)) + length bs) = bs"
    by (rule seg_append_exact)
  ultimately show ?thesis using q K len by (simp add: s' holds_def)
qed

lemma write_name_step:
  assumes inv: "comp_inv (compressor s) (buf s) K p" and n: "labels_ok ls" "length (wire_of ls) \<le> 255"
    and small: "length (buf s) \<le> 2 ^ 24" and w: "write_name (wire_of ls) p s = (Inr q, s')"
  shows "comp_inv (compressor s') (buf s') (K \<union> {p..<q}) q \<and> name_at (buf s') (K \<union> {p..<q}) p q ls \<and>
    agrees K (buf s) (buf s') \<and> length (buf s') = length (buf s) \<and> p \<le> q"
proof -
  have K: "\<forall>k \<in> K. k < p" "p \<le> length (buf s)" using inv by (auto simp: comp_inv_def table_inv_def)
  have f: "take p (buf s') = take p (buf s)" "length (buf s') = length (buf s)" "p \<le> q"
    using writes_fromD [OF writes_from_write_name [of p "wire_of ls"], of s] w by simp_all
  have "agrees K (buf s) (buf s')" by (rule agrees_take [OF f(1,2) K])
  with write_name_correct [OF inv n small w] f show ?thesis by (auto simp: name_at_def)
qed

section \<open>Reading back\<close>

lemma seg_split: "a \<le> b \<Longrightarrow> b \<le> c \<Longrightarrow> seg xs a c = seg xs a b @ seg xs b c"
proof -
  assume "a \<le> b" "b \<le> c"
  then have c: "c - a = (b - a) + (c - b)" and b: "b - a + a = b" by simp_all
  show ?thesis unfolding seg_def c take_add by (simp add: b)
qed

lemma seg_empty [simp]: "seg xs a a = []"
  by (simp add: seg_def)

lemma seg_drop_end: "seg xs a (length xs) = drop a xs"
  by (simp add: seg_def)

lemma spells_reads_seg:
  assumes "spells M K p ls h e" and "p \<le> prev" and "e \<le> r" and "r \<le> length M"
  shows "reads M prev (seg M p r) ls h (seg M e r)"
  using assms(1)
proof cases
  case literal
  then have "seg M p r = wire_of ls @ seg M e r" using seg_split [of p e r M] assms by simp
  with literal show ?thesis by (simp add: reads.literal)
next
  case (pointer js hi lo ks h' e')
  then have "seg M p r = wire_labels js @ hi # lo # seg M e r" using seg_split [of p e r M] assms by simp
  moreover have "reads M (ptr_target hi lo) (drop (ptr_target hi lo) M) ks h' (drop e' M)"
    using pointer by (intro spells_reads) auto
  ultimately show ?thesis using pointer assms by (auto intro: reads.pointer)
qed

lemma name_at_reads:
  assumes "name_at M K p q ls" and "labels_ok ls" and "length ls \<le> 50" and "length (wire_of ls) \<le> 255"
    and "q \<le> r" and "r \<le> length M" and "length M \<le> usize_MAX"
  obtains ks nm where "labels_ok ks" "map lower ks = map lower ls" "length (wire_of ks) \<le> 255"
    "from_wire_in (seg M p r) M = Inr (wire_of ks, seg M q r)"
    "dname_try_from_bytes (seg M p r) = Inr (nm, seg M q r)" "from_dname nm M = Inr (wire_of ks)"
proof -
  from assms(1) obtain ks h where s: "spells M K p ks h q" "map lower ks = map lower ls" "h \<le> length ls"
    by (auto simp: name_at_def)
  have "p \<le> usize_MAX" using spells_bounds [OF s(1)] assms by simp
  from spells_reads_seg [OF s(1) this assms(5,6)]
  have rd: "reads M usize_MAX (seg M p r) ks h (seg M q r)" .
  have len: "length (wire_of ks) \<le> 255" using s(2) assms(4) by (metis length_wire_of_lower)
  from reads_parses [OF rd] obtain nm where nm: "dname_try_from_bytes (seg M p r) = Inr (nm, seg M q r)"
    by blast
  have "h \<le> MAX_DEPTH" using s(3) assms(3) by (simp add: MAX_DEPTH_def)
  then have "decode_wire M nm = Inr (wire_of ks)"
    using decode_wire_correct [OF nm] rd len by (auto simp: MAX_NAME_LEN_def)
  moreover from this nm have "from_wire_in (seg M p r) M = Inr (wire_of ks, seg M q r)"
    by (simp add: from_wire_in_def name_wire_from_bytes_in_def)
  ultimately show ?thesis
    using that [of ks nm] nm s(2) len spells_labels_ok [OF s(1)] by (simp add: from_dname_def)
qed

lemma holds_seg: "holds M K p q bs \<Longrightarrow> q \<le> r \<Longrightarrow> seg M p r = bs @ seg M q r"
  using seg_split [of p q r M] by (auto simp: holds_def)

section \<open>Questions\<close>

definition query_at :: "bytes \<Rightarrow> nat set \<Rightarrow> nat \<Rightarrow> nat \<Rightarrow> query_section \<Rightarrow> bool" where
  "query_at b K p q qs \<longleftrightarrow>
     (\<exists>e. name_at b K p e (name_labels (qname qs)) \<and>
        holds b K e q (be16 (qtype qs) @ be16 (query_class_to_u16 (qclass qs))))"

definition name_fits :: "name \<Rightarrow> bool" where
  "name_fits n \<longleftrightarrow> wf_name n \<and> label_count n \<le> 50"

definition query_equiv :: "query_section \<Rightarrow> query_section \<Rightarrow> bool" where
  "query_equiv a b \<longleftrightarrow> name_eq (qname a) (qname b) \<and> qtype a = qtype b \<and> qclass a = qclass b"

lemma holds_append:
  assumes "holds b K p q xs" and "holds b K q r ys"
  shows "holds b K p r (xs @ ys)"
  using assms seg_split [of p q r b] by (auto simp: holds_def) (metis atLeastLessThan_iff not_le subsetD)

lemma name_fitsE:
  assumes "name_fits n"
  obtains ls where "labels_ok ls" "n = wire_of ls" "length (wire_of ls) \<le> 255" "length ls \<le> 50"
    "name_labels n = ls"
  using assms by (auto simp: name_fits_def elim!: wf_nameE)

lemma write_query_step:
  assumes inv: "comp_inv (compressor s) (buf s) K p" and n: "wf_name (qname qs)"
    and small: "length (buf s) \<le> 2 ^ 24" and w: "write_query qs p s = (Inr q, s')"
  shows "comp_inv (compressor s') (buf s') (K \<union> {p..<q}) q \<and> query_at (buf s') (K \<union> {p..<q}) p q qs \<and>
    agrees K (buf s) (buf s') \<and> length (buf s') = length (buf s) \<and> p \<le> q"
proof -
  obtain ls where ls: "labels_ok ls" "qname qs = wire_of ls" "length (wire_of ls) \<le> 255"
    using n by (rule wf_nameE)
  from w obtain e s1 f s2 where w1: "write_name (wire_of ls) p s = (Inr e, s1)"
    and w2: "write_bytes e (be16 (qtype qs)) s1 = (Inr f, s2)"
    and w3: "write_bytes f (be16 (query_class_to_u16 (qclass qs))) s2 = (Inr q, s')"
    by (auto simp: write_query_def sbind_eq_Inr_conv ls)
  note a = write_name_step [OF inv ls(1,3) small w1]
  then have "comp_inv (compressor s1) (buf s1) (K \<union> {p..<e}) e" by blast
  note b = write_bytes_step [OF this w2]
  then have "comp_inv (compressor s2) (buf s2) (K \<union> {p..<e} \<union> {e..<f}) f" by blast
  note c = write_bytes_step [OF this w3]
  have K: "K \<union> {p..<e} \<union> {e..<f} \<union> {f..<q} = K \<union> {p..<q}" using a b c by auto
  have "name_at (buf s') (K \<union> {p..<q}) p e ls"
    using a b c name_at_agree by (metis (no_types, lifting) K Un_upper1 sup_assoc)
  moreover have "holds (buf s') (K \<union> {p..<q}) e f (be16 (qtype qs))"
    using b c holds_agree by (metis (no_types, lifting) K Un_upper1)
  moreover have "holds (buf s') (K \<union> {p..<q}) f q (be16 (query_class_to_u16 (qclass qs)))"
    using c unfolding K by blast
  ultimately have "query_at (buf s') (K \<union> {p..<q}) p q qs"
    using holds_append ls by (auto simp: query_at_def)
  moreover have "agrees K (buf s) (buf s')"
    using a b c by (auto simp: agrees_def)
  ultimately show ?thesis using a b c K by auto
qed

lemma query_at_reads:
  assumes "query_at M K p q qs" and "name_fits (qname qs)" and "query_class_ok (qclass qs)"
    and "q \<le> r" and "r \<le> length M" and "length M \<le> usize_MAX"
  shows "\<exists>qs'. query_try_from_bytes (seg M p r) M = Inr (qs', seg M q r) \<and> query_equiv qs' qs"
proof -
  obtain ls where ls: "labels_ok ls" "qname qs = wire_of ls" "length (wire_of ls) \<le> 255"
    "length ls \<le> 50" "name_labels (qname qs) = ls"
    using assms(2) by (rule name_fitsE)
  from assms(1) ls obtain e where e: "name_at M K p e ls"
    "holds M K e q (be16 (qtype qs) @ be16 (query_class_to_u16 (qclass qs)))"
    by (auto simp: query_at_def)
  have "e \<le> r" using e(2) assms(4) by (auto simp: holds_def)
  from name_at_reads [OF e(1) ls(1,4,3) this assms(5,6)] obtain ks where
    ks: "labels_ok ks" "map lower ks = map lower ls" "from_wire_in (seg M p r) M = Inr (wire_of ks, seg M e r)"
    by blast
  have "seg M e r = be16 (qtype qs) @ be16 (query_class_to_u16 (qclass qs)) @ seg M q r"
    using holds_seg [OF e(2) assms(4)] by simp
  with ks ls(1,2) assms(3) show ?thesis
    by (simp add: query_try_from_bytes_def query_equiv_def name_eq_wire query_class_ok_def)
qed

section \<open>RDATA\<close>

text \<open>One step of a writer: from \<open>p\<close> to \<open>q\<close>, the invariant again, nothing of \<open>K\<close> touched.\<close>

definition step :: "nat set \<Rightarrow> out_state \<Rightarrow> nat \<Rightarrow> nat \<Rightarrow> out_state \<Rightarrow> bool" where
  "step K s p q s' \<longleftrightarrow>
     comp_inv (compressor s') (buf s') (K \<union> {p..<q}) q \<and> agrees K (buf s) (buf s') \<and>
     length (buf s') = length (buf s) \<and> p \<le> q"

lemma step_trans:
  assumes "step K s p e s1" and "step (K \<union> {p..<e}) s1 e q s2"
  shows "step K s p q s2"
proof -
  have "K \<union> {p..<e} \<union> {e..<q} = K \<union> {p..<q}" using assms by (auto simp: step_def)
  with assms show ?thesis by (auto simp: step_def agrees_def)
qed

lemma step_inv: "step K s p q s' \<Longrightarrow> comp_inv (compressor s') (buf s') (K \<union> {p..<q}) q"
  by (simp add: step_def)

lemma step_keeps_name:
  assumes "step (K \<union> {p..<e}) s1 e q s2" and "name_at (buf s1) (K \<union> {p..<e}) a b ls" and "p \<le> e"
  shows "name_at (buf s2) (K \<union> {p..<q}) a b ls"
  by (rule name_at_agree [OF assms(2)]) (use assms in \<open>auto simp: step_def\<close>)

lemma step_keeps_bytes:
  assumes "step (K \<union> {p..<e}) s1 e q s2" and "holds (buf s1) (K \<union> {p..<e}) a b bs" and "p \<le> e"
  shows "holds (buf s2) (K \<union> {p..<q}) a b bs"
  by (rule holds_agree [OF assms(2)]) (use assms in \<open>auto simp: step_def\<close>)

lemma union_upto: "p \<le> e \<Longrightarrow> e \<le> q \<Longrightarrow> K \<union> {p..<e} \<union> {e..<q} = K \<union> {p..<q}" for p e q :: nat
  by auto

lemma step_bytes:
  assumes "comp_inv (compressor s) (buf s) K p" and "write_bytes p bs s = (Inr q, s')"
  shows "step K s p q s' \<and> holds (buf s') (K \<union> {p..<q}) p q bs"
  using write_bytes_step [OF assms] unfolding step_def by auto

lemma step_name:
  assumes "comp_inv (compressor s) (buf s) K p" and "labels_ok ls" and "length (wire_of ls) \<le> 255"
    and "length (buf s) \<le> 2 ^ 24" and "write_name (wire_of ls) p s = (Inr q, s')"
  shows "step K s p q s' \<and> name_at (buf s') (K \<union> {p..<q}) p q ls"
  using write_name_step [OF assms] by (simp add: step_def)

definition one_name :: "rtype \<Rightarrow> bool" where
  "one_name t \<longleftrightarrow> t = rt_NS \<or> t = rt_CNAME \<or> t = rt_PTR"

definition compressible :: "rtype \<Rightarrow> bool" where
  "compressible t \<longleftrightarrow> one_name t \<or> t = rt_SOA \<or> t = rt_MX"

definition names_at :: "bytes \<Rightarrow> nat set \<Rightarrow> nat \<Rightarrow> nat \<Rightarrow> bytes \<Rightarrow> bytes list \<Rightarrow> bytes \<Rightarrow> bool" where
  "names_at b K p q w ls rest \<longleftrightarrow>
     labels_ok ls \<and> length (wire_of ls) \<le> 255 \<and> w = wire_of ls @ rest \<and> name_at b K p q ls"

definition rdata_at :: "bytes \<Rightarrow> nat set \<Rightarrow> nat \<Rightarrow> nat \<Rightarrow> record_data \<Rightarrow> bool" where
  "rdata_at b K a q d \<longleftrightarrow>
     (let t = rd_type d; w = rd_bytes d in
      if one_name t then \<exists>ls e rest. names_at b K a e w ls rest \<and> holds b K e q rest
      else if t = rt_SOA then
        \<exists>ls ms e f rest rest'. names_at b K a e w ls rest \<and> names_at b K e f rest ms rest' \<and> holds b K f q rest'
      else if t = rt_MX then
        \<exists>ls e f rest. 2 \<le> length w \<and> holds b K a e (take 2 w) \<and> names_at b K e f (drop 2 w) ls rest \<and>
          holds b K f q rest
      else holds b K a q w)"

lemma from_wire_conv: "from_wire w = Inr (n, rest) \<longleftrightarrow> wf_name n \<and> w = n @ rest"
  by (simp add: from_wire_def name_wire_from_bytes_correct)

text \<open>A name out of RDATA, then what follows it: the shape the arms of \<^verbatim>\<open>write_rdata\<close> share.\<close>

lemma step_rdata_name:
  assumes inv: "comp_inv (compressor s) (buf s) K p" and small: "length (buf s) \<le> 2 ^ 24"
    and f: "from_wire w = Inr (n, rest)" and n: "write_name n p s = (Inr e, s1)"
  obtains ls where "step K s p e s1" "names_at (buf s1) (K \<union> {p..<e}) p e w ls rest"
proof -
  from f obtain ls where ls: "labels_ok ls" "n = wire_of ls" "length (wire_of ls) \<le> 255" "w = n @ rest"
    by (auto simp: from_wire_conv elim!: wf_nameE)
  with step_name [OF inv ls(1,3) small] n that show ?thesis by (auto simp: names_at_def)
qed

lemma step_rdata_tail:
  assumes inv: "comp_inv (compressor s) (buf s) K p" and small: "length (buf s) \<le> 2 ^ 24"
    and f: "from_wire w = Inr (n, rest)"
    and w: "sbind (write_name n p) (\<lambda>pos. write_bytes pos rest) s = (Inr q, s')"
  shows "step K s p q s' \<and> (\<exists>ls e. names_at (buf s') (K \<union> {p..<q}) p e w ls rest \<and>
    holds (buf s') (K \<union> {p..<q}) e q rest)"
proof -
  from w obtain e s1 where w1: "write_name n p s = (Inr e, s1)" and w2: "write_bytes e rest s1 = (Inr q, s')"
    by (auto simp: sbind_eq_Inr_conv)
  obtain ls where a: "step K s p e s1" "names_at (buf s1) (K \<union> {p..<e}) p e w ls rest"
    using step_rdata_name [OF inv small f w1] by blast
  from step_bytes [OF step_inv [OF a(1)] w2]
  have b: "step (K \<union> {p..<e}) s1 e q s'" "holds (buf s') (K \<union> {p..<e} \<union> {e..<q}) e q rest" by auto
  have pe: "p \<le> e" "e \<le> q" using a(1) b(1) by (auto simp: step_def)
  have "names_at (buf s') (K \<union> {p..<q}) p e w ls rest"
    using a(2) step_keeps_name [OF b(1) _ pe(1)] by (auto simp: names_at_def)
  with b(2) step_trans [OF a(1) b(1)] show ?thesis unfolding union_upto [OF pe] by blast
qed

lemma step_rdata:
  assumes inv: "comp_inv (compressor s) (buf s) K p" and small: "length (buf s) \<le> 2 ^ 24"
    and w: "write_rdata (rd_type d) (rd_bytes d) p s = (Inr q, s')"
  shows "step K s p q s' \<and> rdata_at (buf s') (K \<union> {p..<q}) p q d"
proof -
  let ?w = "rd_bytes d" and ?t = "rd_type d"
  consider (one) "one_name ?t" | (soa) "?t = rt_SOA" | (mx) "?t = rt_MX"
    | (plain) "\<not> one_name ?t" "?t \<noteq> rt_SOA" "?t \<noteq> rt_MX"
    by blast
  then show ?thesis
  proof cases
    case one
    with w obtain n rest where f: "from_wire ?w = Inr (n, rest)"
      and w': "sbind (write_name n p) (\<lambda>pos. write_bytes pos rest) s = (Inr q, s')"
      by (auto simp: write_rdata_def one_name_def sbind_eq_Inr_conv)
    from step_rdata_tail [OF inv small f w'] one show ?thesis by (auto simp: rdata_at_def)
  next
    case soa
    then have no: "\<not> one_name ?t" by (simp add: one_name_def rtype_defs)
    from soa w no obtain n rest n2 rest2 e s1 where f: "from_wire ?w = Inr (n, rest)"
      "from_wire rest = Inr (n2, rest2)" and w1: "write_name n p s = (Inr e, s1)"
      and w2: "sbind (write_name n2 e) (\<lambda>pos. write_bytes pos rest2) s1 = (Inr q, s')"
      by (auto simp: write_rdata_def one_name_def sbind_eq_Inr_conv)
    obtain ls where a: "step K s p e s1" "names_at (buf s1) (K \<union> {p..<e}) p e ?w ls rest"
      using step_rdata_name [OF inv small f(1) w1] by blast
    have "length (buf s1) \<le> 2 ^ 24" using a(1) small by (simp add: step_def)
    from step_rdata_tail [OF step_inv [OF a(1)] this f(2) w2] obtain ms f' where
      b: "step (K \<union> {p..<e}) s1 e q s'" "names_at (buf s') (K \<union> {p..<e} \<union> {e..<q}) e f' rest ms rest2"
      "holds (buf s') (K \<union> {p..<e} \<union> {e..<q}) f' q rest2"
      by blast
    have pe: "p \<le> e" "e \<le> q" using a(1) b(1) by (auto simp: step_def)
    have "names_at (buf s') (K \<union> {p..<q}) p e ?w ls rest"
      using a(2) step_keeps_name [OF b(1) _ pe(1)] by (auto simp: names_at_def)
    with b(2,3) step_trans [OF a(1) b(1)] soa no show ?thesis
      unfolding union_upto [OF pe] rdata_at_def Let_def by simp blast
  next
    case mx
    then have no: "\<not> one_name ?t" "?t \<noteq> rt_SOA" by (simp_all add: one_name_def rtype_defs)
    from mx w no obtain n rest e s1 where len: "2 \<le> length ?w"
      and f: "from_wire (drop 2 ?w) = Inr (n, rest)" and w1: "write_bytes p (take 2 ?w) s = (Inr e, s1)"
      and w2: "sbind (write_name n e) (\<lambda>pos. write_bytes pos rest) s1 = (Inr q, s')"
      by (auto simp: write_rdata_def one_name_def sbind_eq_Inr_conv split: if_splits)
    from step_bytes [OF inv w1]
    have a: "step K s p e s1" "holds (buf s1) (K \<union> {p..<e}) p e (take 2 ?w)" by auto
    have "length (buf s1) \<le> 2 ^ 24" using a(1) small by (simp add: step_def)
    from step_rdata_tail [OF step_inv [OF a(1)] this f w2] obtain ms f' where
      b: "step (K \<union> {p..<e}) s1 e q s'" "names_at (buf s') (K \<union> {p..<e} \<union> {e..<q}) e f' (drop 2 ?w) ms rest"
      "holds (buf s') (K \<union> {p..<e} \<union> {e..<q}) f' q rest"
      by blast
    have pe: "p \<le> e" "e \<le> q" using a(1) b(1) by (auto simp: step_def)
    from b(2,3) step_keeps_bytes [OF b(1) a(2) pe(1)] step_trans [OF a(1) b(1)] mx no len show ?thesis
      unfolding union_upto [OF pe] rdata_at_def Let_def by auto
  next
    case plain
    with w have "write_bytes p ?w s = (Inr q, s')" by (auto simp: write_rdata_def one_name_def)
    from step_bytes [OF inv this] plain show ?thesis by (simp add: rdata_at_def)
  qed
qed

subsection \<open>Reading RDATA back\<close>

text \<open>RDATA up to the case of the names that compression may respell.\<close>

fun parsed_fold :: "parsed_record \<Rightarrow> parsed_record" where
  "parsed_fold (PNS n) = PNS (lower n)"
| "parsed_fold (PCNAME n) = PCNAME (lower n)"
| "parsed_fold (PPTR n) = PPTR (lower n)"
| "parsed_fold (PSOA m r s f y x i) = PSOA (lower m) (lower r) s f y x i"
| "parsed_fold (PMX p n) = PMX p (lower n)"
| "parsed_fold p = p"

definition data_equiv :: "record_data \<Rightarrow> record_data \<Rightarrow> bool" where
  "data_equiv d d' \<longleftrightarrow> rd_type d = rd_type d' \<and>
     (if compressible (rd_type d)
      then \<exists>p p'. rdata_parse d = Inr p \<and> rdata_parse d' = Inr p' \<and> parsed_fold p = parsed_fold p'
      else rd_bytes d = rd_bytes d')"

text \<open>
  Stored RDATA that means the same wherever it is put: what \<^verbatim>\<open>from_wire\<close> and \<^verbatim>\<open>from_parsed\<close> build.
\<close>

definition data_ok :: "record_data \<Rightarrow> bool" where
  "data_ok d \<longleftrightarrow>
     (if compressible (rd_type d) then is_ok (rdata_parse d)
      else (\<exists>p. storable (rd_type d) p \<and> encode p = Inr (rd_type d, rd_bytes d)) \<or>
           (\<forall>m. decode (rd_type d) (rd_bytes d) m = Inr (PUnknown (rd_type d))))"

fun parsed_names :: "parsed_record \<Rightarrow> name list" where
  "parsed_names (PNS n) = [n]"
| "parsed_names (PCNAME n) = [n]"
| "parsed_names (PPTR n) = [n]"
| "parsed_names (PSOA m r s f y x i) = [m, r]"
| "parsed_names (PMX p n) = [n]"
| "parsed_names p = []"

definition data_fits :: "record_data \<Rightarrow> bool" where
  "data_fits d \<longleftrightarrow> data_ok d \<and>
     (case rdata_parse d of Inr p \<Rightarrow> list_all (\<lambda>n. label_count n \<le> 50) (parsed_names p) | Inl _ \<Rightarrow> True)"

lemma lower_wire_cong: "labels_ok ks \<Longrightarrow> labels_ok ls \<Longrightarrow> map lower ks = map lower ls \<Longrightarrow>
    lower (wire_of ks) = lower (wire_of ls)"
  by (simp add: lower_wire_of)

lemma decode_soa_conv:
  assumes "from_wire_in w m = Inr (n1, r1)" and "from_wire_in r1 m = Inr (n2, r2)"
  shows "decode_soa w m = Inr p \<longleftrightarrow>
    (\<exists>s f y x i a b c d e. read_u32 r2 = Inr (s, a) \<and> read_i32 a = Inr (f, b) \<and> read_i32 b = Inr (y, c) \<and>
       read_i32 c = Inr (x, d) \<and> read_u32 d = Inr (i, e) \<and> p = PSOA n1 n2 s f y x i)"
  using assms by (auto simp: decode_soa_def rbind_eq_Inr_conv)

lemma names_at_reads:
  assumes "names_at M K p e w ls rest" and "length ls \<le> 50" and "e \<le> r" and "r \<le> length M"
    and "length M \<le> usize_MAX"
  obtains ks where "labels_ok ks" "lower (wire_of ks) = lower (wire_of ls)" "seg M p r \<noteq> []"
    "from_wire_in (seg M p r) M = Inr (wire_of ks, seg M e r)"
    "from_wire_in w m = Inr (wire_of ls, rest)" "w \<noteq> []"
proof -
  have n: "labels_ok ls" "length (wire_of ls) \<le> 255" "w = wire_of ls @ rest" "name_at M K p e ls"
    using assms(1) by (auto simp: names_at_def)
  from name_at_reads [OF n(4,1) assms(2) n(2) assms(3-5)] obtain ks where
    k: "labels_ok ks" "map lower ks = map lower ls" "from_wire_in (seg M p r) M = Inr (wire_of ks, seg M e r)"
    by blast
  have "p < e" using n(4) spells_bounds by (auto simp: name_at_def)
  then have "seg M p r \<noteq> []" using assms(3,4) by (auto simp: seg_def)
  with k n lower_wire_cong [OF k(1) n(1) k(2)] that show ?thesis by simp
qed

lemma name_at_less: "name_at M K p e ls \<Longrightarrow> p < e"
  using spells_bounds by (fastforce simp: name_at_def)

lemma one_name_reads:
  assumes t: "one_name (rd_type d)" and at: "rdata_at M K a q d" and fits: "data_fits d"
    and q: "q \<le> length M" "length M \<le> usize_MAX"
  shows "\<exists>p p'. decode (rd_type d) (seg M a q) M = Inr p' \<and> rdata_parse d = Inr p \<and> parsed_fold p' = parsed_fold p"
proof -
  from at t obtain ls e rest where n: "names_at M K a e (rd_bytes d) ls rest" and h: "holds M K e q rest"
    by (auto simp: rdata_at_def)
  have lsok: "labels_ok ls" "length (wire_of ls) \<le> 255" "rd_bytes d = wire_of ls @ rest"
    using n by (auto simp: names_at_def)
  have "\<exists>C. \<forall>w m x. w \<noteq> [] \<longrightarrow> from_wire_in w m = Inr x \<longrightarrow> decode (rd_type d) w m = Inr (C (fst x)) \<and>
      parsed_names (C (fst x)) = [fst x] \<and> (\<forall>y. lower (fst x) = lower y \<longrightarrow> parsed_fold (C (fst x)) = parsed_fold (C y))"
    using t unfolding one_name_def
    by (elim disjE; intro exI) (simp_all add: decode_arms case_prod_beta; force)+
  then obtain C where C: "w \<noteq> [] \<Longrightarrow> from_wire_in w m = Inr x \<Longrightarrow> decode (rd_type d) w m = Inr (C (fst x)) \<and>
      parsed_names (C (fst x)) = [fst x] \<and> (\<forall>y. lower (fst x) = lower y \<longrightarrow> parsed_fold (C (fst x)) = parsed_fold (C y))"
    for w m x by blast
  from lsok have w: "wf_name (wire_of ls)" "rd_bytes d \<noteq> []" by simp_all
  have p: "rdata_parse d = Inr (C (wire_of ls))" "parsed_names (C (wire_of ls)) = [wire_of ls]"
    using C [OF w(2), of "rd_bytes d" "(wire_of ls, rest)"] w lsok(3) by (simp_all add: rdata_parse_def)
  with fits lsok(1) have "length ls \<le> 50" by (simp add: data_fits_def)
  moreover have "e \<le> q" using h by (simp add: holds_def)
  ultimately obtain ks where "lower (wire_of ks) = lower (wire_of ls)" "seg M a q \<noteq> []"
    "from_wire_in (seg M a q) M = Inr (wire_of ks, seg M e q)"
    using names_at_reads [OF n _ _ q] by blast
  with C [of "seg M a q" M "(wire_of ks, seg M e q)"] p show ?thesis by auto
qed


lemma soa_reads:
  assumes t: "rd_type d = rt_SOA" and at: "rdata_at M K a q d" and fits: "data_fits d"
    and q: "q \<le> length M" "length M \<le> usize_MAX"
  shows "\<exists>p p'. decode (rd_type d) (seg M a q) M = Inr p' \<and> rdata_parse d = Inr p \<and> parsed_fold p' = parsed_fold p"
proof -
  have no: "\<not> one_name (rd_type d)" "compressible (rd_type d)"
    using t by (simp_all add: one_name_def compressible_def rtype_defs)
  from at t no obtain ls ms e f rest rest' where n: "names_at M K a e (rd_bytes d) ls rest"
    "names_at M K e f rest ms rest'" and h: "holds M K f q rest'"
    by (auto simp: rdata_at_def)
  have ok: "labels_ok ls" "labels_ok ms" "rd_bytes d = wire_of ls @ wire_of ms @ rest'"
    "wf_name (wire_of ls)" "wf_name (wire_of ms)"
    using n by (auto simp: names_at_def)
  have parse: "rdata_parse d = decode_soa (rd_bytes d) (rd_bytes d)"
    using ok(4) by (simp add: rdata_parse_def t decode_arms ok(3))
  obtain p where p: "rdata_parse d = Inr p"
    using fits no by (auto simp: data_fits_def data_ok_def is_ok_def split: sum.splits)
  have fw: "from_wire_in (rd_bytes d) (rd_bytes d) = Inr (wire_of ls, wire_of ms @ rest')"
    "from_wire_in (wire_of ms @ rest') (rd_bytes d) = Inr (wire_of ms, rest')"
    using ok by simp_all
  from p obtain s g y x i where tail: "p = PSOA (wire_of ls) (wire_of ms) s g y x i"
    and dec: "\<And>w m k l r1. from_wire_in w m = Inr (k, r1) \<Longrightarrow> from_wire_in r1 m = Inr (l, rest') \<Longrightarrow>
      decode_soa w m = Inr (PSOA k l s g y x i)"
    unfolding parse decode_soa_conv [OF fw] by (auto simp: decode_soa_conv)
  from fits p tail ok have lens: "length ls \<le> 50" "length ms \<le> 50" by (simp_all add: data_fits_def)
  have le: "f \<le> q" "e \<le> f" using h n(2) name_at_less by (auto simp: holds_def names_at_def intro: less_imp_le)
  obtain ks where k: "lower (wire_of ks) = lower (wire_of ls)" "seg M a q \<noteq> []"
    "from_wire_in (seg M a q) M = Inr (wire_of ks, seg M e q)"
    using names_at_reads [OF n(1) lens(1) _ q] le by auto
  obtain js where j: "lower (wire_of js) = lower (wire_of ms)"
    "from_wire_in (seg M e q) M = Inr (wire_of js, seg M f q)"
    using names_at_reads [OF n(2) lens(2) le(1) q] by auto
  have "seg M f q = rest'" using h unfolding holds_def by blast
  with dec [OF k(3)] j k p tail t show ?thesis by (simp add: decode_arms)
qed

lemma mx_reads:
  assumes t: "rd_type d = rt_MX" and at: "rdata_at M K a q d" and fits: "data_fits d"
    and q: "q \<le> length M" "length M \<le> usize_MAX"
  shows "\<exists>p p'. decode (rd_type d) (seg M a q) M = Inr p' \<and> rdata_parse d = Inr p \<and> parsed_fold p' = parsed_fold p"
proof -
  have no: "\<not> one_name (rd_type d)" "rd_type d \<noteq> rt_SOA"
    using t by (simp_all add: one_name_def rtype_defs)
  from at t no obtain ls e f rest where len: "2 \<le> length (rd_bytes d)" and h: "holds M K a e (take 2 (rd_bytes d))"
    and n: "names_at M K e f (drop 2 (rd_bytes d)) ls rest" and h2: "holds M K f q rest"
    by (auto simp: rdata_at_def Let_def)
  obtain c w where w: "rd_bytes d = be16 c @ w"
    using len by (rule be16_split)
  have ok: "labels_ok ls" "w = wire_of ls @ rest" "wf_name (wire_of ls)"
    using n by (auto simp: names_at_def w)
  have p: "rdata_parse d = Inr (PMX c (wire_of ls))"
    using ok by (simp add: rdata_parse_def t decode_arms decode_mx_def w)
  with fits ok have "length ls \<le> 50" by (simp add: data_fits_def)
  moreover have le: "f \<le> q" "e \<le> f"
    using h2 n name_at_less by (auto simp: holds_def names_at_def intro: less_imp_le)
  ultimately obtain ks where k: "lower (wire_of ks) = lower (wire_of ls)"
    "from_wire_in (seg M e q) M = Inr (wire_of ks, seg M f q)"
    using names_at_reads [OF n _ _ q] by blast
  have "seg M a q = be16 c @ seg M e q" using holds_seg [OF h, of q] le w by simp
  with k p t show ?thesis by (simp add: decode_arms decode_mx_def)
qed

lemma rdata_at_reads:
  assumes at: "rdata_at M K a q d" and fits: "data_fits d" and q: "q \<le> length M" "length M \<le> usize_MAX"
  shows "\<exists>d'. rdata_from_wire (rd_type d) (seg M a q) M = Inr d' \<and> data_equiv d' d"
proof (cases "compressible (rd_type d)")
  case True
  then obtain p p' where "decode (rd_type d) (seg M a q) M = Inr p'" "rdata_parse d = Inr p"
    "parsed_fold p' = parsed_fold p"
    using one_name_reads [OF _ assms] soa_reads [OF _ assms] mx_reads [OF _ assms]
    unfolding compressible_def by blast
  with from_wire_decode True show ?thesis unfolding data_equiv_def by metis
next
  case False
  then have "holds M K a q (rd_bytes d)" using at by (auto simp: rdata_at_def compressible_def)
  then have w: "seg M a q = rd_bytes d" unfolding holds_def by blast
  from fits False consider (known) p where "storable (rd_type d) p" "encode p = Inr (rd_type d, rd_bytes d)"
    | (unknown) "decode (rd_type d) (rd_bytes d) M = Inr (PUnknown (rd_type d))"
    by (auto simp: data_fits_def data_ok_def)
  then show ?thesis
  proof cases
    case known
    then have "decode (rd_type d) (rd_bytes d) M = Inr p" "p \<noteq> PUnknown (rd_type d)"
      using decode_encoded [of p "rd_type d" "rd_bytes d" M]
      by (auto simp: storable_def encode_def split: prod.splits sum.splits)
    with from_wire_decode [of "rd_type d" "rd_bytes d" M p] known False w show ?thesis
      by (auto simp: data_equiv_def)
  next
    case unknown
    with from_wire_decode [of "rd_type d" "rd_bytes d" M] False w show ?thesis by (auto simp: data_equiv_def)
  qed
qed


section \<open>Records\<close>

definition rr_at :: "bytes \<Rightarrow> nat set \<Rightarrow> nat \<Rightarrow> nat \<Rightarrow> resource_record \<Rightarrow> bool" where
  "rr_at b K p q rr \<longleftrightarrow>
     (\<exists>e a. name_at b K p e (name_labels (rr_name rr)) \<and>
        holds b K e a (be16 (rd_type (rr_data rr)) @ be16 (rr_class rr) @ be32 (ttl_to_wire (rr_ttl rr)) @
          be16 (of_nat (q - a))) \<and>
        rdata_at b K a q (rr_data rr) \<and> a \<le> q \<and> q - a \<le> 65535)"

lemma names_at_agree:
  "names_at b K p q w ls rest \<Longrightarrow> agrees K b b' \<Longrightarrow> K \<subseteq> K' \<Longrightarrow> names_at b' K' p q w ls rest"
  unfolding names_at_def using name_at_agree by blast

lemma rdata_at_agree:
  assumes "rdata_at b K a q d" and "agrees K b b'" and "K \<subseteq> K'" and "length b' = length b"
  shows "rdata_at b' K' a q d"
  using assms(1) holds_agree [OF _ assms(2-4)] names_at_agree [OF _ assms(2,3)]
  unfolding rdata_at_def Let_def by (simp split: if_splits) (blast | metis)+

lemma rr_at_agree:
  assumes "rr_at b K p q rr" and "agrees K b b'" and "K \<subseteq> K'" and "length b' = length b"
  shows "rr_at b' K' p q rr"
  using assms(1) holds_agree [OF _ assms(2-4)] name_at_agree [OF _ assms(2,3)]
    rdata_at_agree [OF _ assms(2-4)]
  unfolding rr_at_def by blast

text \<open>The fixed fields before RDLENGTH.\<close>

lemma step_bytes_after:
  assumes s: "step K s0 p e s" and w: "write_bytes e bs s = (Inr q, s')"
  shows "step K s0 p q s' \<and> holds (buf s') (K \<union> {p..<q}) e q bs"
proof -
  have "step (K \<union> {p..<e}) s e q s' \<and> holds (buf s') (K \<union> {p..<e} \<union> {e..<q}) e q bs"
    using step_bytes [OF step_inv [OF s] w] .
  moreover have "K \<union> {p..<e} \<union> {e..<q} = K \<union> {p..<q}"
    by (rule union_upto) (use s calculation in \<open>auto simp: step_def\<close>)
  ultimately show ?thesis using step_trans [OF s] by simp
qed

lemma step_header:
  assumes inv: "comp_inv (compressor s) (buf s) K p" and n: "labels_ok ls" "length (wire_of ls) \<le> 255"
    and small: "length (buf s) \<le> 2 ^ 24" and w1: "write_name (wire_of ls) p s = (Inr e, s1)"
    and w2: "write_bytes e x s1 = (Inr f, s2)" and w3: "write_bytes f y s2 = (Inr g, s3)"
    and w4: "write_bytes g z s3 = (Inr l, s4)"
  shows "step K s p l s4 \<and> name_at (buf s4) (K \<union> {p..<l}) p e ls \<and>
    holds (buf s4) (K \<union> {p..<l}) e l (x @ y @ z)"
proof -
  have a: "step K s p e s1" "name_at (buf s1) (K \<union> {p..<e}) p e ls"
    using step_name [OF inv n small w1] by auto
  have b: "step K s p f s2" "holds (buf s2) (K \<union> {p..<f}) e f x"
    using step_bytes_after [OF a(1) w2] by auto
  have c: "step K s p g s3" "holds (buf s3) (K \<union> {p..<g}) f g y"
    using step_bytes_after [OF b(1) w3] by auto
  have d: "step K s p l s4" "holds (buf s4) (K \<union> {p..<l}) g l z"
    using step_bytes_after [OF c(1) w4] by auto
  have ag: "agrees (K \<union> {p..<e}) (buf s1) (buf s2)" "agrees (K \<union> {p..<f}) (buf s2) (buf s3)"
    "agrees (K \<union> {p..<g}) (buf s3) (buf s4)"
    using step_bytes [OF step_inv [OF a(1)] w2] step_bytes [OF step_inv [OF b(1)] w3]
      step_bytes [OF step_inv [OF c(1)] w4] by (auto simp: step_def)
  have le: "p \<le> e" "e \<le> f" "f \<le> g" "g \<le> l"
    using a b(2) c(2) d(2) by (auto simp: step_def holds_def)
  have len: "length (buf s4) = length (buf s3)" "length (buf s3) = length (buf s2)"
    "length (buf s2) = length (buf s1)"
    using a(1) b(1) c(1) d(1) by (auto simp: step_def)
  have sub: "K \<union> {p..<e} \<subseteq> K \<union> {p..<f}" "K \<union> {p..<f} \<subseteq> K \<union> {p..<g}" "K \<union> {p..<g} \<subseteq> K \<union> {p..<l}"
    using le by auto
  have "name_at (buf s4) (K \<union> {p..<l}) p e ls"
    using name_at_agree [OF name_at_agree [OF name_at_agree [OF a(2) ag(1) sub(1)] ag(2) sub(2)] ag(3) sub(3)] .
  moreover have "holds (buf s4) (K \<union> {p..<l}) e f x"
    using holds_agree [OF holds_agree [OF b(2) ag(2) sub(2) len(2)] ag(3) sub(3) len(1)] .
  moreover have "holds (buf s4) (K \<union> {p..<l}) f g y"
    using holds_agree [OF c(2) ag(3) sub(3) len(1)] .
  ultimately show ?thesis using d holds_append [of "buf s4" "K \<union> {p..<l}"] by blast
qed

text \<open>RDLENGTH is filled in last, over the two octets left for it.\<close>

lemma step_rr_close:
  assumes h: "step K s p l s4" "name_at (buf s4) (K \<union> {p..<l}) p e ls"
      "holds (buf s4) (K \<union> {p..<l}) e l
         (be16 (rd_type (rr_data rr)) @ be16 (rr_class rr) @ be32 (ttl_to_wire (rr_ttl rr)))"
    and r: "step (K \<union> {p..<l}) s5 a q s6" "rdata_at (buf s6) (K \<union> {p..<l} \<union> {a..<q}) a q (rr_data rr)"
    and ls: "name_labels (rr_name rr) = ls"
    and g: "agrees (K \<union> {p..<l}) (buf s4) (buf s5)" "length (buf s5) = length (buf s4)" "a = l + 2"
    and w: "write_bytes l (be16 (of_nat (q - a))) s6 = (Inr r, s')" and fit: "q - a \<le> 65535"
  shows "step K s p q s' \<and> rr_at (buf s') (K \<union> {p..<q}) p q rr"
proof -
  let ?H = "K \<union> {p..<l}" and ?A = "K \<union> {p..<q}"
  have i6: "comp_inv (compressor s6) (buf s6) (?H \<union> {a..<q}) q" by (rule step_inv [OF r(1)])
  have kH: "\<forall>k \<in> ?H. k < l" using step_inv [OF h(1)] unfolding comp_inv_def table_inv_def by blast
  have le: "p \<le> l" "a \<le> q" using h(1) r(1) by (simp_all add: step_def)
  have q6: "q \<le> length (buf s6)" using i6 by (simp add: comp_inv_def table_inv_def)
  from w have s': "s' = s6\<lparr>buf := take l (buf s6) @ be16 (of_nat (q - a)) @ drop a (buf s6)\<rparr>"
    by (auto simp: write_bytes_ok g(3))
  have len: "length (buf s') = length (buf s6)" using q6 le g(3) by (simp add: s')
  have nth: "buf s' ! k = buf s6 ! k" if "k < l \<or> a \<le> k" for k
  proof (cases "k < l")
    case False
    with that obtain j where "k = a + j" using le_Suc_ex by blast
    then show ?thesis using q6 le g(3) by (simp add: s' nth_append)
  qed (use q6 le g(3) in \<open>simp add: s' nth_append\<close>)
  have ag6: "agrees (?H \<union> {a..<q}) (buf s6) (buf s')"
    unfolding agrees_def
  proof
    fix k
    assume k: "k \<in> ?H \<union> {a..<q}"
    then have "k < l \<or> a \<le> k" "k < q" using kH le g(3) by (auto dest: bspec)
    with nth q6 len show "k < length (buf s') \<and> buf s' ! k = buf s6 ! k" by auto
  qed
  have ag4: "agrees ?H (buf s4) (buf s')"
    using g(1) r(1) ag6 unfolding step_def agrees_def by auto
  have sub: "?H \<subseteq> ?A" "?H \<union> {a..<q} \<subseteq> ?A" using le g(3) by auto
  have len4: "length (buf s') = length (buf s4)" using len r(1) g(2) by (simp add: step_def)
  have i': "comp_inv (compressor s') (buf s') ?A q"
  proof -
    have "comp_inv (compressor s6) (buf s') ?A q"
      by (rule comp_inv_step [OF i6 ag6 len sub(2)]) (use kH le g(3) q6 in \<open>auto intro: less_le_trans\<close>)
    then show ?thesis by (simp add: s')
  qed
  have "agrees K (buf s) (buf s')" using h(1) ag4 by (auto simp: step_def agrees_def)
  moreover have "length (buf s') = length (buf s)" using len4 h(1) by (simp add: step_def)
  moreover have "name_at (buf s') ?A p e ls" by (rule name_at_agree [OF h(2) ag4 sub(1)])
  moreover have "holds (buf s') ?A l a (be16 (of_nat (q - a)))"
    using seg_append_exact [of "take l (buf s6)" "be16 (of_nat (q - a))" "drop a (buf s6)"] q6 le g(3) len
    by (auto simp: holds_def s')
  moreover have "rdata_at (buf s') ?A a q (rr_data rr)" by (rule rdata_at_agree [OF r(2) ag6 sub(2) len])
  moreover from calculation(4) have "holds (buf s') ?A e a
      (be16 (rd_type (rr_data rr)) @ be16 (rr_class rr) @ be32 (ttl_to_wire (rr_ttl rr)) @ be16 (of_nat (q - a)))"
    using holds_append [OF holds_agree [OF h(3) ag4 sub(1) len4]] by fastforce
  ultimately show ?thesis
    using i' le g(3) fit ls unfolding step_def rr_at_def by (intro conjI exI [of _ e] exI [of _ a]) simp_all
qed

lemma step_rr:
  assumes inv: "comp_inv (compressor s) (buf s) K p" and n: "wf_name (rr_name rr)"
    and small: "length (buf s) \<le> 2 ^ 24"
    and w: "write_rr (rr_name rr) (rr_class rr) (rr_ttl rr) (rr_data rr) p s = (Inr q, s')"
  shows "step K s p q s' \<and> rr_at (buf s') (K \<union> {p..<q}) p q rr"
proof -
  let ?d = "rr_data rr"
  obtain ls where ls: "labels_ok ls" "rr_name rr = wire_of ls" "length (wire_of ls) \<le> 255"
    using n by (rule wf_nameE)
  from w obtain e s1 f s2 g s3 l s4 a s5 s6 r where w1: "write_name (wire_of ls) p s = (Inr e, s1)"
    and w2: "write_bytes e (be16 (rd_type ?d)) s1 = (Inr f, s2)"
    and w3: "write_bytes f (be16 (rr_class rr)) s2 = (Inr g, s3)"
    and w4: "write_bytes g (be32 (ttl_to_wire (rr_ttl rr))) s3 = (Inr l, s4)"
    and w5: "write_bytes l [0, 0] s4 = (Inr a, s5)"
    and w6: "write_rdata (rd_type ?d) (rd_bytes ?d) a s5 = (Inr q, s6)"
    and w7: "write_bytes l (be16 (of_nat (q - a))) s6 = (Inr r, s')" and fit: "q - a \<le> 65535"
    unfolding write_rr_def ls(2) sbind_eq_Inr_conv
    by (auto simp: sbind_eq_Inr_conv split: if_splits)
  let ?H = "K \<union> {p..<l}"
  have h: "step K s p l s4" "name_at (buf s4) ?H p e ls"
    "holds (buf s4) ?H e l (be16 (rd_type ?d) @ be16 (rr_class rr) @ be32 (ttl_to_wire (rr_ttl rr)))"
    using step_header [OF inv ls(1,3) small w1 w2 w3 w4] by auto
  have g: "agrees ?H (buf s4) (buf s5)" "length (buf s5) = length (buf s4)" "a = l + 2" "a \<le> length (buf s5)"
    "comp_inv (compressor s5) (buf s5) (?H \<union> {l..<a}) a"
    using write_bytes_step [OF step_inv [OF h(1)] w5] by (auto simp: holds_def)
  have "compressor s5 = compressor s4" using w5 by (auto simp: write_bytes_ok)
  have kH: "\<forall>k \<in> ?H. k < l" using step_inv [OF h(1)] unfolding comp_inv_def table_inv_def by blast
  have i5: "comp_inv (compressor s5) (buf s5) ?H a"
    unfolding \<open>compressor s5 = compressor s4\<close>
    by (rule comp_inv_step [OF step_inv [OF h(1)] g(1,2)]) (use kH g in \<open>auto intro: less_le_trans\<close>)
  have len5: "length (buf s5) \<le> 2 ^ 24" using g(2) h(1) small by (simp add: step_def)
  have r: "step ?H s5 a q s6" "rdata_at (buf s6) (?H \<union> {a..<q}) a q ?d"
    using step_rdata [OF i5 len5 w6] by auto
  show ?thesis
    by (rule step_rr_close [OF h r _ g(1,2,3) w7 fit]) (use ls in \<open>simp_all\<close>)
qed


definition rr_equiv :: "resource_record \<Rightarrow> resource_record \<Rightarrow> bool" where
  "rr_equiv r r' \<longleftrightarrow> name_eq (rr_name r) (rr_name r') \<and> rr_class r = rr_class r' \<and>
     rr_ttl r = ttl_from_wire (rr_ttl r') \<and> data_equiv (rr_data r) (rr_data r')"

definition rr_fits :: "resource_record \<Rightarrow> bool" where
  "rr_fits rr \<longleftrightarrow> name_fits (rr_name rr) \<and> data_fits (rr_data rr)"

lemma rr_at_parts:
  assumes at: "rr_at M K p q rr" and n: "name_fits (rr_name rr)"
    and q: "q \<le> r" "r \<le> length M" "length M \<le> usize_MAX"
  obtains a nm ks where "read_record_parts (seg M p r) =
      Inr (\<lparr>rp_name = nm, rp_type = rd_type (rr_data rr), rp_class = rr_class rr,
            rp_ttl_bits = rr_ttl rr, rp_rdata = seg M a q\<rparr>, seg M q r)"
    "from_dname nm M = Inr ks" "name_eq ks (rr_name rr)" "rdata_at M K a q (rr_data rr)"
proof -
  obtain ls where ls: "labels_ok ls" "rr_name rr = wire_of ls" "length (wire_of ls) \<le> 255"
    "length ls \<le> 50" "name_labels (rr_name rr) = ls"
    using n by (rule name_fitsE)
  from at ls obtain e a where e: "name_at M K p e ls"
    "holds M K e a (be16 (rd_type (rr_data rr)) @ be16 (rr_class rr) @ be32 (rr_ttl rr) @ be16 (of_nat (q - a)))"
    and a: "rdata_at M K a q (rr_data rr)" "a \<le> q" "q - a \<le> 65535"
    by (auto simp: rr_at_def ttl_to_wire_def)
  have le: "e \<le> r" "a \<le> r" using e(2) a(2) q(1) by (auto simp: holds_def)
  from name_at_reads [OF e(1) ls(1,4,3) le(1) q(2,3)] obtain ks nm where
    k: "labels_ok ks" "map lower ks = map lower ls" "dname_try_from_bytes (seg M p r) = Inr (nm, seg M e r)"
      "from_dname nm M = Inr (wire_of ks)"
    by metis
  have "seg M e r = be16 (rd_type (rr_data rr)) @ be16 (rr_class rr) @ be32 (rr_ttl rr) @
      be16 (of_nat (q - a)) @ seg M a q @ seg M q r"
    using holds_seg [OF e(2) le(2)] seg_split [OF a(2) q(1)] by simp
  moreover have "length (seg M a q) = q - a" using q by (simp add: seg_def)
  ultimately have "read_record_parts (seg M p r) =
      Inr (\<lparr>rp_name = nm, rp_type = rd_type (rr_data rr), rp_class = rr_class rr,
            rp_ttl_bits = rr_ttl rr, rp_rdata = seg M a q\<rparr>, seg M q r)"
    using k(3) a(3) by (simp add: read_record_parts_def Let_def unat_of_nat_u16)
  then show ?thesis
    using that k ls(1,2) a(1) by (simp add: name_eq_wire)
qed

lemma rr_at_reads:
  assumes at: "rr_at M K p q rr" and fits: "rr_fits rr"
    and q: "q \<le> r" "r \<le> length M" "length M \<le> usize_MAX"
  shows "\<exists>rr'. rr_try_from_bytes (seg M p r) M = Inr (rr', seg M q r) \<and> rr_equiv rr' rr"
    and "rd_type (rr_data rr) \<noteq> OPT_RECORD_TYPE \<Longrightarrow>
      \<exists>rr'. additional_try_from_bytes (seg M p r) M = Inr (ARecord rr', seg M q r) \<and> rr_equiv rr' rr"
proof -
  from rr_at_parts [OF at _ q] fits obtain a nm ks where p: "read_record_parts (seg M p r) =
      Inr (\<lparr>rp_name = nm, rp_type = rd_type (rr_data rr), rp_class = rr_class rr,
            rp_ttl_bits = rr_ttl rr, rp_rdata = seg M a q\<rparr>, seg M q r)"
    "from_dname nm M = Inr ks" "name_eq ks (rr_name rr)" "rdata_at M K a q (rr_data rr)"
    unfolding rr_fits_def by metis
  have "q \<le> length M" using q by simp
  with rdata_at_reads [OF p(4) _ _ q(3)] fits obtain d where
    d: "rdata_from_wire (rd_type (rr_data rr)) (seg M a q) M = Inr d" "data_equiv d (rr_data rr)"
    by (auto simp: rr_fits_def)
  let ?rr = "\<lparr>rr_name = ks, rr_class = rr_class rr, rr_ttl = ttl_from_wire (rr_ttl rr), rr_data = d\<rparr>"
  have "rr_equiv ?rr rr" using p(3) d(2) by (simp add: rr_equiv_def)
  with p d show "\<exists>rr'. rr_try_from_bytes (seg M p r) M = Inr (rr', seg M q r) \<and> rr_equiv rr' rr"
    by (auto simp: rr_try_from_bytes_def from_parts_def)
  from \<open>rr_equiv ?rr rr\<close> p d show "\<exists>rr'. additional_try_from_bytes (seg M p r) M = Inr (ARecord rr', seg M q r) \<and>
      rr_equiv rr' rr" if "rd_type (rr_data rr) \<noteq> OPT_RECORD_TYPE"
    using that by (auto simp: additional_try_from_bytes_def from_parts_def)
qed

section \<open>The OPT record\<close>

definition opt_flags :: "edns \<Rightarrow> u16 \<Rightarrow> u32" where
  "opt_flags e rcode = push_bit 24 (drop_bit 4 (ucast rcode)) OR push_bit 16 (ucast (version e)) OR
     (if do_bit e then 0x8000 else 0)"

definition opt_at :: "bytes \<Rightarrow> nat set \<Rightarrow> nat \<Rightarrow> nat \<Rightarrow> edns \<Rightarrow> u16 \<Rightarrow> bool" where
  "opt_at b K p q e rcode \<longleftrightarrow> length (opt_rdata e) \<le> 65535 \<and>
     holds b K p q ([0] @ be16 OPT_RECORD_TYPE @ be16 (udp_payload_size e) @ be32 (opt_flags e rcode) @
       be16 (of_nat (length (opt_rdata e))) @ opt_rdata e)"

lemma write_bytes_join:
  "write_bytes p xs s = (Inr e, s1) \<Longrightarrow> write_bytes e ys s1 = (Inr q, s') \<Longrightarrow>
   write_bytes p (xs @ ys) s = (Inr q, s')"
  by (auto simp: write_bytes_ok add_ac)

lemma write_opt_bytes:
  assumes "write_opt e rcode p s = (Inr q, s')"
  shows "length (opt_rdata e) \<le> 65535 \<and>
    write_bytes p ([0] @ be16 OPT_RECORD_TYPE @ be16 (udp_payload_size e) @ be32 (opt_flags e rcode) @
      be16 (of_nat (length (opt_rdata e))) @ opt_rdata e) s = (Inr q, s')"
proof -
  from assms obtain a sa b sb c sc d sd f sf where "length (opt_rdata e) \<le> 65535"
    "write_bytes p [0] s = (Inr a, sa)" "write_bytes a (be16 OPT_RECORD_TYPE) sa = (Inr b, sb)"
    "write_bytes b (be16 (udp_payload_size e)) sb = (Inr c, sc)"
    "write_bytes c (be32 (opt_flags e rcode)) sc = (Inr d, sd)"
    "write_bytes d (be16 (of_nat (length (opt_rdata e)))) sd = (Inr f, sf)"
    "write_bytes f (opt_rdata e) sf = (Inr q, s')"
    unfolding write_opt_def Let_def opt_flags_def [symmetric]
    by (auto simp: sbind_eq_Inr_conv split: if_splits)
  then show ?thesis by (blast intro: write_bytes_join)
qed

lemma step_opt:
  assumes "comp_inv (compressor s) (buf s) K p" and "write_opt e rcode p s = (Inr q, s')"
  shows "step K s p q s' \<and> opt_at (buf s') (K \<union> {p..<q}) p q e rcode"
  using step_bytes [OF assms(1)] write_opt_bytes [OF assms(2)] by (auto simp: opt_at_def)

lemma bit_opt_flags: "bit (opt_flags e rcode) n \<longleftrightarrow> n < 32 \<and>
    (24 \<le> n \<and> bit rcode (n - 20) \<or> 16 \<le> n \<and> n < 24 \<and> bit (version e) (n - 16) \<or> do_bit e \<and> n = 15)"
proof -
  have "bit (if do_bit e then 0x8000 else (0::u32)) n \<longleftrightarrow> do_bit e \<and> n = 15" by (auto simp: bit_int_masks)
  then show ?thesis
    unfolding opt_flags_def bit_or_iff by (auto simp: bit_simps dest: bit_imp_le_length)
qed

lemma opt_flags_fields:
  "ucast (drop_bit 16 (opt_flags e rcode) AND 0xff) = version e"
  "(opt_flags e rcode AND 0x8000 \<noteq> 0) = do_bit e"
proof -
  show "ucast (drop_bit 16 (opt_flags e rcode) AND 0xff) = version e"
    by (rule bit_eqI) (simp only: bit_unsigned_iff bit_and_iff bit_drop_bit_eq comp_def bit_opt_flags;
      auto simp: bit_int_masks dest: bit_imp_le_length)
  show "(opt_flags e rcode AND 0x8000 \<noteq> 0) = do_bit e"
    by (auto simp: bit_eq_iff [where 'a = u32] bit_and_iff bit_opt_flags bit_int_masks)
qed

lemma bits_below:
  fixes w :: u16
  assumes "w < 4096" and "bit w n"
  shows "n < 12"
proof -
  have "uint w < 2 ^ 12" using assms(1) by (simp add: word_less_alt)
  then have "take_bit 12 (uint w) = uint w" by (simp add: take_bit_int_eq_self_iff)
  moreover have "bit (uint w) n" using assms(2) bit_imp_le_length [OF assms(2)] by (simp add: bit_uint_iff)
  ultimately show ?thesis by (metis bit_take_bit_iff)
qed

lemma opt_flags_rcode:
  assumes "rcode < 4096"
  shows "drop_bit 24 (opt_flags e rcode) = ucast (drop_bit 4 rcode)"
  by (rule bit_eqI) (auto simp: bit_opt_flags bit_simps dest: bits_below [OF assms])

lemma root_name_reads: "dname_try_from_bytes (0 # rest) = Inr (\<lparr>encoded = [0], compressed = False\<rparr>, rest)"
  by (simp add: dname_try_from_bytes_def dname_scan.simps label_try_from_bytes_def)

lemma opt_at_reads:
  assumes at: "opt_at M K p q e rcode" and q: "q \<le> r"
  shows "additional_try_from_bytes (seg M p r) M = Inr (AOpt e (opt_flags e rcode), seg M q r)"
proof -
  have len: "length (opt_rdata e) \<le> 65535" using at by (simp add: opt_at_def)
  have "seg M p r = 0 # be16 OPT_RECORD_TYPE @ be16 (udp_payload_size e) @ be32 (opt_flags e rcode) @
       be16 (of_nat (length (opt_rdata e))) @ opt_rdata e @ seg M q r"
    using holds_seg q at by (fastforce simp: opt_at_def)
  then show ?thesis
    using len opt_flags_fields root_name_reads
    by (simp add: additional_try_from_bytes_def read_record_parts_def from_opt_def Let_def unat_of_nat_u16)
qed

end
