(* ===== verification/Message.thy ===== *)
theory Message
  imports Wire
begin

text \<open>
  \<^verbatim>\<open>rdns-core/src/message.rs\<close>, with the header writers of \<^verbatim>\<open>rdns-core/src/response.rs\<close> it calls: a
  message read from its octets, written with compression, and truncated to a limit. The
  locale \<open>section_codec\<close> is what a section needs of the items it holds; questions, records
  and the records of the additional section are its instances.
\<close>

section \<open>The code\<close>

record header =
  hd_id :: u16
  hd_response :: bool
  hd_opcode :: opcode
  hd_authoritive :: bool
  hd_truncation :: bool
  hd_recursion :: bool
  hd_recursion_ok :: bool
  hd_ad :: bool
  hd_cd :: bool
  hd_rcode :: response_code

record dns_message =
  dm_id :: u16
  dm_response :: bool
  dm_opcode :: opcode
  dm_authoritive :: bool
  dm_truncation :: bool
  dm_recursion :: bool
  dm_recursion_ok :: bool
  dm_ad :: bool
  dm_cd :: bool
  dm_rcode :: response_code
  dm_queries :: "query_section list"
  dm_answers :: "resource_record list"
  dm_authorities :: "resource_record list"
  dm_additionals :: "resource_record list"
  dm_edns :: "edns option"

definition HEADER_LEN :: nat where "HEADER_LEN = 12"

definition section_count :: "nat \<Rightarrow> string \<Rightarrow> u16 wire_result" where
  "section_count len what = (if len \<le> 65535 then Inr (of_nat len) else Inl (TooLong what 65535 len))"

definition framed :: "bytes \<Rightarrow> bytes wire_result" where
  "framed bs =
     (if length bs \<le> 65535 then Inr (be16 (of_nat (length bs)) @ bs)
      else Inl (TooLong ''a TCP message'' 65535 (length bs)))"

subsection \<open>Reading\<close>

text \<open>The loop \<^verbatim>\<open>for _ in 0..count\<close> over one section.\<close>

fun read_each :: "(bytes \<Rightarrow> ('a \<times> bytes) wire_result) \<Rightarrow> nat \<Rightarrow> bytes \<Rightarrow> ('a list \<times> bytes) wire_result" where
  "read_each f 0 rest = Inr ([], rest)"
| "read_each f (Suc n) rest =
     rbind (f rest) (\<lambda>(x, r). rbind (read_each f n r) (\<lambda>(xs, r). Inr (x # xs, r)))"

fun read_additional ::
  "bytes \<Rightarrow> nat \<Rightarrow> bytes \<Rightarrow> resource_record list \<Rightarrow> edns option \<Rightarrow> u16 \<Rightarrow>
   (resource_record list \<times> edns option \<times> u16) wire_result" where
  "read_additional message 0 rest additionals opt ext_rcode = Inr (additionals, opt, ext_rcode)"
| "read_additional message (Suc n) rest additionals opt ext_rcode =
     rbind (additional_try_from_bytes rest message) (\<lambda>(item, r).
       case item of
         ARecord rr \<Rightarrow> read_additional message n r (additionals @ [rr]) opt ext_rcode
       | AOpt e flags \<Rightarrow>
           if opt \<noteq> None then
             Inl (Malformed ''the additional section''
               (''more than one OPT record; RFC 6891 '' @ [CHR 0xC2, CHR 0xA7] @ ''6.1.1 allows one''))
           else read_additional message n r additionals (Some e) (ucast (drop_bit 24 flags)))"

definition message_try_from_bytes :: "bytes \<Rightarrow> dns_message wire_result" where
  "message_try_from_bytes data =
     (if length data < 12 then Inl (Truncated ''the DNS header'' 12 (length data))
      else
        rbind (read_u16 data) (\<lambda>(id', rest).
        rbind (read_u8 rest) (\<lambda>(hi, rest).
        rbind (read_u8 rest) (\<lambda>(lo, rest).
        rbind (read_u16 rest) (\<lambda>(query_len, rest).
        rbind (read_u16 rest) (\<lambda>(answer_len, rest).
        rbind (read_u16 rest) (\<lambda>(auth_len, rest).
        rbind (read_u16 rest) (\<lambda>(add_len, rest).
        rbind (read_each (\<lambda>d. query_try_from_bytes d data) (unat query_len) rest) (\<lambda>(queries, rest).
        rbind (read_each (\<lambda>d. rr_try_from_bytes d data) (unat answer_len) rest) (\<lambda>(answers, rest).
        rbind (read_each (\<lambda>d. rr_try_from_bytes d data) (unat auth_len) rest) (\<lambda>(authorities, rest).
        rbind (read_additional data (unat add_len) rest [] None 0) (\<lambda>(additionals, opt, ext_rcode).
        Inr \<lparr>dm_id = id', dm_response = (hi AND 0x80 = 0x80), dm_opcode = opcode_from_u8 (drop_bit 3 hi),
             dm_authoritive = (hi AND 0x04 = 0x04), dm_truncation = (hi AND 0x02 = 0x02),
             dm_recursion = (hi AND 0x01 = 0x01), dm_recursion_ok = (lo AND 0x80 = 0x80),
             dm_ad = (lo AND 0x20 = 0x20), dm_cd = (lo AND 0x10 = 0x10),
             dm_rcode = rcode_from_u16 (push_bit 4 ext_rcode OR ucast (lo AND 0x0f)),
             dm_queries = queries, dm_answers = answers, dm_authorities = authorities,
             dm_additionals = additionals, dm_edns = opt\<rparr>))))))))))))"

definition reply_to :: "dns_message \<Rightarrow> dns_message" where
  "reply_to request =
     \<lparr>dm_id = dm_id request, dm_response = True, dm_opcode = dm_opcode request,
      dm_authoritive = False, dm_truncation = False, dm_recursion = dm_recursion request,
      dm_recursion_ok = False, dm_ad = False, dm_cd = dm_cd request, dm_rcode = RcOk,
      dm_queries = dm_queries request, dm_answers = [], dm_authorities = [],
      dm_additionals = [], dm_edns = None\<rparr>"

subsection \<open>Writing\<close>

definition wire_rcode :: "response_code \<Rightarrow> bool \<Rightarrow> u16 wire_result" where
  "wire_rcode rc has_edns =
     (let rcode = rcode_to_u16 rc in
      if rcode > 0xfff then
        Inl (Malformed ''the header''
          (''RCODE '' @ show_nat (unat rcode) @ '' does not fit the 12 bits RFC 6891 '' @
           [CHR 0xC2, CHR 0xA7] @ ''6.1.3 gives it''))
      else if rcode > 0xf \<and> \<not> has_edns then
        Inl (Malformed ''the header''
          (''extended RCODE '' @ show_nat (unat rcode) @ '' needs an EDNS0 OPT record to carry '' @
           ''its high bits (RFC 6891 '' @ [CHR 0xC2, CHR 0xA7] @ ''6.1.3)''))
      else Inr rcode)"

definition header_hi :: "header \<Rightarrow> byte" where
  "header_hi h =
     push_bit 7 (of_bool (hd_response h)) OR push_bit 3 (opcode_to_u8 (hd_opcode h) AND 0xf) OR
     push_bit 2 (of_bool (hd_authoritive h)) OR push_bit 1 (of_bool (hd_truncation h)) OR
     of_bool (hd_recursion h)"

definition header_lo :: "header \<Rightarrow> u16 \<Rightarrow> byte" where
  "header_lo h rcode =
     push_bit 7 (of_bool (hd_recursion_ok h)) OR push_bit 5 (of_bool (hd_ad h)) OR
     push_bit 4 (of_bool (hd_cd h)) OR ucast (rcode AND 0xf)"

text \<open>The loops of the writers over the counts and over the items of a section.\<close>

fun write_each :: "('a \<Rightarrow> nat \<Rightarrow> (out_state, nat) st) \<Rightarrow> 'a list \<Rightarrow> nat \<Rightarrow> (out_state, nat) st" where
  "write_each w [] pos = slift (Inr pos)"
| "write_each w (x # xs) pos = sbind (w x pos) (write_each w xs)"

definition write_header :: "header \<Rightarrow> u16 \<Rightarrow> u16 list \<Rightarrow> (out_state, nat) st" where
  "write_header h rcode counts =
     sbind (write_bytes 0 (be16 (hd_id h))) (\<lambda>pos.
     sbind (write_bytes pos [header_hi h, header_lo h rcode]) (\<lambda>pos.
     write_each (\<lambda>count pos. write_bytes pos (be16 count)) counts pos))"

definition is_truncated :: "bytes \<Rightarrow> bool" where
  "is_truncated message \<longleftrightarrow> HEADER_LEN \<le> length message \<and> message ! 2 AND 2 \<noteq> 0"

definition write_record :: "resource_record \<Rightarrow> nat \<Rightarrow> (out_state, nat) st" where
  "write_record rr = write_rr (rr_name rr) (rr_class rr) (rr_ttl rr) (rr_data rr)"

definition header_of :: "dns_message \<Rightarrow> header" where
  "header_of m =
     \<lparr>hd_id = dm_id m, hd_response = dm_response m, hd_opcode = dm_opcode m,
      hd_authoritive = dm_authoritive m, hd_truncation = dm_truncation m,
      hd_recursion = dm_recursion m, hd_recursion_ok = dm_recursion_ok m, hd_ad = dm_ad m,
      hd_cd = dm_cd m, hd_rcode = dm_rcode m\<rparr>"

definition section_counts :: "dns_message \<Rightarrow> u16 list wire_result" where
  "section_counts m =
     (let arcount = length (dm_additionals m) + of_bool (dm_edns m \<noteq> None) in
      rbind (section_count (length (dm_queries m)) ''the question section'') (\<lambda>qd.
      rbind (section_count (length (dm_answers m)) ''the answer section'') (\<lambda>an.
      rbind (section_count (length (dm_authorities m)) ''the authority section'') (\<lambda>ns.
      rbind (section_count arcount ''the additional section'') (\<lambda>ar.
      Inr [qd, an, ns, ar])))))"

definition write_body :: "dns_message \<Rightarrow> u16 \<Rightarrow> nat \<Rightarrow> (out_state, nat) st" where
  "write_body m rcode pos =
     sbind (write_each write_query (dm_queries m) pos) (\<lambda>pos.
     sbind (write_each write_record (dm_answers m) pos) (\<lambda>pos.
     sbind (write_each write_record (dm_authorities m) pos) (\<lambda>pos.
     sbind (write_each write_record (dm_additionals m) pos) (\<lambda>pos.
     case dm_edns m of Some e \<Rightarrow> write_opt e rcode pos | None \<Rightarrow> slift (Inr pos)))))"

definition to_bytes_with :: "dns_message \<Rightarrow> (out_state, nat) st" where
  "to_bytes_with m = (\<lambda>s.
     sbind (slift (wire_rcode (dm_rcode m) (dm_edns m \<noteq> None))) (\<lambda>rcode.
     sbind (slift (section_counts m)) (\<lambda>counts.
     sbind (write_header (header_of m) rcode counts) (\<lambda>pos.
     write_body m rcode pos))) (s\<lparr>compressor := compressor_clear (compressor s)\<rparr>))"

definition to_bytes :: "dns_message \<Rightarrow> bytes \<Rightarrow> nat wire_result \<times> bytes" where
  "to_bytes m output =
     (let (r, s) = to_bytes_with m \<lparr>compressor = compressor_new, buf = output\<rparr> in (r, buf s))"

subsection \<open>EDNS and limits\<close>

definition message_edns_header :: "dns_message \<Rightarrow> edns_header option wire_result" where
  "message_edns_header m =
     (case dm_edns m of
        None \<Rightarrow> Inr None
      | Some e \<Rightarrow> rbind (check_options e) (\<lambda>_. Inr (Some (edns_header_of e))))"

definition message_udp_payload_size :: "dns_message \<Rightarrow> u16" where
  "message_udp_payload_size m =
     (case dm_edns m of None \<Rightarrow> CLASSIC_UDP_SIZE | Some e \<Rightarrow> max (udp_payload_size e) CLASSIC_UDP_SIZE)"

datatype transport = Udp | Tcp

definition reply_ceiling :: "udp_sizes \<Rightarrow> dns_message \<Rightarrow> transport \<Rightarrow> nat" where
  "reply_ceiling sizes request tr =
     (case tr of
        Tcp \<Rightarrow> 65535
      | Udp \<Rightarrow> unat (min (message_udp_payload_size request) (max_response sizes)))"

definition wire_size_bound :: "dns_message \<Rightarrow> nat" where
  "wire_size_bound m =
     HEADER_LEN + sum_list (map (\<lambda>q. length (qname q) + 4) (dm_queries m)) +
     sum_list (map (\<lambda>rr. length (rr_name rr) + 10 + length (rd_bytes (rr_data rr)))
       (dm_answers m @ dm_authorities m @ dm_additionals m)) +
     (case dm_edns m of None \<Rightarrow> 0 | Some e \<Rightarrow> 11 + length (opt_rdata e))"

definition buffer_full :: "wire_error \<Rightarrow> bool" where
  "buffer_full e = (case e of Truncated what _ _ \<Rightarrow> what = ''the output buffer'' | _ \<Rightarrow> False)"

definition resized :: "nat \<Rightarrow> out_state \<Rightarrow> out_state" where
  "resized n s = s\<lparr>buf := replicate n 0\<rparr>"

definition truncated_message :: "dns_message \<Rightarrow> dns_message" where
  "truncated_message m = m\<lparr>dm_truncation := True, dm_answers := [], dm_authorities := [], dm_additionals := []\<rparr>"

text \<open>
  The second attempt at a buffer that was too small stands behind a \<^verbatim>\<open>debug_assert\<close>, which a
  release build leaves out.
\<close>

definition to_bytes_within_buf_with :: "dns_message \<Rightarrow> nat \<Rightarrow> (out_state, unit) st" where
  "to_bytes_within_buf_with m max_len = (\<lambda>s.
     let scratch = min (wire_size_bound m) max_len;
         (wrote, s) = to_bytes_with m (resized scratch s);
         (wrote, s) = (case wrote of
             Inl e \<Rightarrow> if scratch < max_len \<and> buffer_full e then to_bytes_with m (resized max_len s) else (wrote, s)
           | Inr _ \<Rightarrow> (wrote, s));
         truncate = (\<lambda>s.
             let t = truncated_message m;
                 (r, s) = to_bytes_with t
                   (resized (max (wire_size_bound t) (min max_len (unat CLASSIC_UDP_SIZE))) s) in
             case r of Inl e \<Rightarrow> (Inl e, s) | Inr n \<Rightarrow> (Inr (), s\<lparr>buf := take n (buf s)\<rparr>)) in
     case wrote of
       Inr n \<Rightarrow> if n \<le> max_len then (Inr (), s\<lparr>buf := take n (buf s)\<rparr>) else truncate s
     | Inl e \<Rightarrow> if buffer_full e then truncate s else (Inl e, s))"

definition to_bytes_within :: "dns_message \<Rightarrow> nat \<Rightarrow> bytes wire_result" where
  "to_bytes_within m max_len =
     (let (r, s) = to_bytes_within_buf_with m max_len \<lparr>compressor = compressor_new, buf = []\<rparr> in
      rbind r (\<lambda>_. Inr (buf s)))"

subsection \<open>The builder\<close>

record message_builder =
  mb_id :: u16
  mb_queries :: "(name \<times> qtype) list"
  mb_recursion :: bool
  mb_edns :: "edns option"

definition DNSSEC_PAYLOAD_SIZE :: u16 where "DNSSEC_PAYLOAD_SIZE = 4096"

definition builder_new :: message_builder where
  "builder_new = \<lparr>mb_id = 0, mb_queries = [], mb_recursion = True, mb_edns = None\<rparr>"

definition with_query :: "name \<Rightarrow> qtype \<Rightarrow> message_builder \<Rightarrow> message_builder" where
  "with_query n t b = b\<lparr>mb_queries := mb_queries b @ [(n, t)]\<rparr>"

definition with_edns :: "u16 \<Rightarrow> bool \<Rightarrow> message_builder \<Rightarrow> message_builder" where
  "with_edns sz dob b = b\<lparr>mb_edns := Some ((with_payload_size sz)\<lparr>do_bit := dob\<rparr>)\<rparr>"

definition with_dnssec :: "bool \<Rightarrow> message_builder \<Rightarrow> message_builder" where
  "with_dnssec dnssec b = (if dnssec then with_edns DNSSEC_PAYLOAD_SIZE True b else b)"

text \<open>\<open>random\<close> is the number \<^verbatim>\<open>rand::random\<close> draws.\<close>

definition build :: "u16 \<Rightarrow> message_builder \<Rightarrow> dns_message" where
  "build random b =
     \<lparr>dm_id = (if mb_id b = 0 then random else mb_id b), dm_response = False, dm_opcode = Query,
      dm_authoritive = False, dm_truncation = False, dm_recursion = mb_recursion b,
      dm_recursion_ok = False, dm_ad = False, dm_cd = False, dm_rcode = RcOk,
      dm_queries = map (\<lambda>(n, t). \<lparr>qname = n, qtype = t, qclass = QC_IN\<rparr>) (mb_queries b),
      dm_answers = [], dm_authorities = [], dm_additionals = [], dm_edns = mb_edns b\<rparr>"


section \<open>Sections\<close>

text \<open>
  What a section needs of its items: the writer leaves an item in the buffer, later writes
  elsewhere and a cut behind the item leave it there, and the reader finds it.
\<close>

locale section_codec =
  fixes item_write :: "'a \<Rightarrow> nat \<Rightarrow> (out_state, nat) st"
    and item_read :: "bytes \<Rightarrow> bytes \<Rightarrow> ('b \<times> bytes) wire_result"
    and item_at :: "bytes \<Rightarrow> nat set \<Rightarrow> nat \<Rightarrow> nat \<Rightarrow> 'a \<Rightarrow> bool"
    and item_wf :: "'a \<Rightarrow> bool"
    and item_fits :: "'a \<Rightarrow> bool"
    and item_equiv :: "'b \<Rightarrow> 'a \<Rightarrow> bool"
  assumes item_step: "comp_inv (compressor s) (buf s) K p \<Longrightarrow> item_wf x \<Longrightarrow> length (buf s) \<le> 2 ^ 24 \<Longrightarrow>
      item_write x p s = (Inr q, s') \<Longrightarrow> step K s p q s' \<and> item_at (buf s') (K \<union> {p..<q}) p q x"
    and item_agree: "item_at b K p q x \<Longrightarrow> agrees K b b' \<Longrightarrow> K \<subseteq> K' \<Longrightarrow> length b' = length b \<Longrightarrow>
      item_at b' K' p q x"
    and item_take: "item_at b K p q x \<Longrightarrow> K \<subseteq> {..<n} \<Longrightarrow> q \<le> n \<Longrightarrow> n \<le> length b \<Longrightarrow> item_at (take n b) K p q x"
    and item_reads: "item_at M K p q x \<Longrightarrow> item_fits x \<Longrightarrow> q \<le> r \<Longrightarrow> r \<le> length M \<Longrightarrow> length M \<le> usize_MAX \<Longrightarrow>
      \<exists>y. item_read (seg M p r) M = Inr (y, seg M q r) \<and> item_equiv y x"
begin

fun items_at :: "bytes \<Rightarrow> nat set \<Rightarrow> nat \<Rightarrow> nat \<Rightarrow> 'a list \<Rightarrow> bool" where
  "items_at b K p q [] \<longleftrightarrow> p = q"
| "items_at b K p q (x # xs) \<longleftrightarrow> (\<exists>e. p \<le> e \<and> e \<le> q \<and> item_at b K p e x \<and> items_at b K e q xs)"

lemma items_le: "items_at b K p q xs \<Longrightarrow> p \<le> q"
  by (induction xs arbitrary: p) (auto intro: order_trans)

lemma items_append:
  "items_at b K p r (xs @ ys) \<longleftrightarrow> (\<exists>q. items_at b K p q xs \<and> items_at b K q r ys)"
proof (induction xs arbitrary: p)
  case (Cons x xs)
  show ?case using items_le by (simp add: Cons.IH) (meson order_trans)
qed simp

lemma items_agree:
  "items_at b K p q xs \<Longrightarrow> agrees K b b' \<Longrightarrow> K \<subseteq> K' \<Longrightarrow> length b' = length b \<Longrightarrow> items_at b' K' p q xs"
  by (induction xs arbitrary: p) (auto intro: item_agree)

lemma items_take:
  "items_at b K p q xs \<Longrightarrow> K \<subseteq> {..<n} \<Longrightarrow> q \<le> n \<Longrightarrow> n \<le> length b \<Longrightarrow> items_at (take n b) K p q xs"
proof (induction xs arbitrary: p)
  case (Cons x xs)
  then obtain e where "p \<le> e" "e \<le> q" "item_at b K p e x" "items_at b K e q xs" by auto
  with Cons item_take [of b K p e x n] show ?case by fastforce
qed simp

lemma items_step:
  assumes "comp_inv (compressor s) (buf s) K p" and "list_all item_wf xs" and "length (buf s) \<le> 2 ^ 24"
    and "write_each item_write xs p s = (Inr q, s')"
  shows "step K s p q s' \<and> items_at (buf s') (K \<union> {p..<q}) p q xs"
  using assms
proof (induction xs arbitrary: p s K)
  case Nil
  then show ?case by (simp add: step_def agrees_def comp_inv_def table_inv_def slift_def) (auto intro: less_le_trans)
next
  case (Cons x xs)
  from Cons.prems(4) obtain e s1 where w: "item_write x p s = (Inr e, s1)"
    "write_each item_write xs e s1 = (Inr q, s')"
    by (auto simp: sbind_eq_Inr_conv)
  have a: "step K s p e s1" "item_at (buf s1) (K \<union> {p..<e}) p e x"
    using item_step [OF Cons.prems(1) _ Cons.prems(3) w(1)] Cons.prems(2) by auto
  have "length (buf s1) \<le> 2 ^ 24" using a(1) Cons.prems(3) by (simp add: step_def)
  with Cons.IH [OF step_inv [OF a(1)] _ this w(2)] Cons.prems(2)
  have b: "step (K \<union> {p..<e}) s1 e q s'" "items_at (buf s') (K \<union> {p..<e} \<union> {e..<q}) e q xs"
    by auto
  have le: "p \<le> e" "e \<le> q" using a(1) b(1) by (simp_all add: step_def)
  have "item_at (buf s') (K \<union> {p..<q}) p e x"
    by (rule item_agree [OF a(2)]) (use b(1) le in \<open>auto simp: step_def\<close>)
  with b(2) le step_trans [OF a(1) b(1)] show ?case unfolding union_upto [OF le] by auto
qed

lemma items_read:
  assumes "items_at M K p q xs" and "list_all item_fits xs" and "q \<le> r" and "r \<le> length M"
    and "length M \<le> usize_MAX"
  shows "\<exists>ys. read_each (\<lambda>d. item_read d M) (length xs) (seg M p r) = Inr (ys, seg M q r) \<and>
    list_all2 item_equiv ys xs"
  using assms
proof (induction xs arbitrary: p)
  case (Cons x xs)
  then obtain e where e: "e \<le> q" "item_at M K p e x" "items_at M K e q xs" by auto
  obtain y where y: "item_read (seg M p r) M = Inr (y, seg M e r)" "item_equiv y x"
    using item_reads [OF e(2), of r] e(1) Cons.prems by fastforce
  obtain ys where "read_each (\<lambda>d. item_read d M) (length xs) (seg M e r) = Inr (ys, seg M q r)"
    "list_all2 item_equiv ys xs"
    using Cons.IH [OF e(3)] Cons.prems by auto
  with y show ?case by (intro exI [of _ "y # ys"]) simp
qed simp

end

lemma agrees_cut: "K \<subseteq> {..<n} \<Longrightarrow> n \<le> length b \<Longrightarrow> agrees K b (take n b)"
  by (auto simp: agrees_def)

lemma name_at_take: "name_at b K p q ls \<Longrightarrow> K \<subseteq> {..<n} \<Longrightarrow> n \<le> length b \<Longrightarrow> name_at (take n b) K p q ls"
  by (rule name_at_agree [OF _ agrees_cut]) auto

lemma seg_take: "q \<le> n \<Longrightarrow> seg (take n b) p q = seg b p q"
  by (simp add: seg_def drop_take min_def)

lemma holds_take: "holds b K p q bs \<Longrightarrow> q \<le> n \<Longrightarrow> n \<le> length b \<Longrightarrow> holds (take n b) K p q bs"
  by (auto simp: holds_def seg_take)

lemma query_at_take:
  "query_at b K p q x \<Longrightarrow> K \<subseteq> {..<n} \<Longrightarrow> q \<le> n \<Longrightarrow> n \<le> length b \<Longrightarrow> query_at (take n b) K p q x"
  unfolding query_at_def using name_at_take holds_take by blast

lemma query_at_agree:
  "query_at b K p q x \<Longrightarrow> agrees K b b' \<Longrightarrow> K \<subseteq> K' \<Longrightarrow> length b' = length b \<Longrightarrow> query_at b' K' p q x"
  unfolding query_at_def using name_at_agree [of b K _ _ _ b' K'] holds_agree [of b K _ _ _ b' K'] by blast

lemma names_at_take:
  "names_at b K p q w ls rest \<Longrightarrow> K \<subseteq> {..<n} \<Longrightarrow> n \<le> length b \<Longrightarrow> names_at (take n b) K p q w ls rest"
  unfolding names_at_def using name_at_take by blast

lemma names_at_le: "names_at b K p q w ls rest \<Longrightarrow> p \<le> q"
  unfolding names_at_def using name_at_less less_imp_le by blast

lemma holds_le: "holds b K p q bs \<Longrightarrow> p \<le> q"
  by (simp add: holds_def)

lemma rdata_at_take:
  assumes "rdata_at b K a q d" and "K \<subseteq> {..<n}" and "q \<le> n" and "n \<le> length b"
  shows "rdata_at (take n b) K a q d"
proof -
  note n = names_at_take [OF _ assms(2,4)]
  have h: "holds (take n b) K x y bs" if "holds b K x y bs" "y \<le> q" for x y bs
    by (rule holds_take) (use that assms in simp_all)
  consider (one) "one_name (rd_type d)" | (soa) "\<not> one_name (rd_type d)" "rd_type d = rt_SOA"
    | (mx) "\<not> one_name (rd_type d)" "rd_type d \<noteq> rt_SOA" "rd_type d = rt_MX"
    | (plain) "\<not> one_name (rd_type d)" "rd_type d \<noteq> rt_SOA" "rd_type d \<noteq> rt_MX"
    by blast
  then show ?thesis
  proof cases
    case mx
    with assms(1) obtain ls e f rest where "2 \<le> length (rd_bytes d)" "holds b K a e (take 2 (rd_bytes d))"
      "names_at b K e f (drop 2 (rd_bytes d)) ls rest" "holds b K f q rest"
      by (auto simp: rdata_at_def Let_def)
    moreover from this have "e \<le> q" using names_at_le holds_le by (meson order_trans)
    ultimately show ?thesis using mx n h by (auto simp: rdata_at_def Let_def) blast
  qed (use assms(1) n h in \<open>auto simp: rdata_at_def Let_def; blast\<close>)+
qed

lemma rr_at_take:
  "rr_at b K p q x \<Longrightarrow> K \<subseteq> {..<n} \<Longrightarrow> q \<le> n \<Longrightarrow> n \<le> length b \<Longrightarrow> rr_at (take n b) K p q x"
  unfolding rr_at_def using name_at_take [of b K _ _ _ n] holds_take [of b K _ _ _ n] rdata_at_take [of b K _ q _ n]
  by (meson order_trans)

interpretation queries: section_codec write_query query_try_from_bytes query_at "\<lambda>q. wf_name (qname q)"
  "\<lambda>q. name_fits (qname q) \<and> query_class_ok (qclass q)" query_equiv
proof unfold_locales
  show "step K s p q s' \<and> query_at (buf s') (K \<union> {p..<q}) p q x"
    if "comp_inv (compressor s) (buf s) K p" "wf_name (qname x)" "length (buf s) \<le> 2 ^ 24"
      "write_query x p s = (Inr q, s')" for s K p x q s'
    using write_query_step [OF that] by (simp add: step_def)
qed (auto intro: query_at_agree query_at_take query_at_reads)

interpretation records: section_codec write_record rr_try_from_bytes rr_at "\<lambda>r. wf_name (rr_name r)"
  rr_fits rr_equiv
proof unfold_locales
  show "step K s p q s' \<and> rr_at (buf s') (K \<union> {p..<q}) p q x"
    if "comp_inv (compressor s) (buf s) K p" "wf_name (rr_name x)" "length (buf s) \<le> 2 ^ 24"
      "write_record x p s = (Inr q, s')" for s K p x q s'
    using step_rr [OF that(1-3)] that(4) by (simp add: write_record_def)
qed (auto intro: rr_at_agree rr_at_take rr_at_reads(1))


interpretation additionals: section_codec write_record additional_try_from_bytes rr_at "\<lambda>r. wf_name (rr_name r)"
  "\<lambda>r. rr_fits r \<and> rd_type (rr_data r) \<noteq> OPT_RECORD_TYPE" "\<lambda>a r. \<exists>r'. a = ARecord r' \<and> rr_equiv r' r"
proof unfold_locales
  show "\<exists>y. additional_try_from_bytes (seg M p r) M = Inr (y, seg M q r) \<and> (\<exists>r'. y = ARecord r' \<and> rr_equiv r' x)"
    if "rr_at M K p q x" "rr_fits x \<and> rd_type (rr_data x) \<noteq> OPT_RECORD_TYPE" "q \<le> r" "r \<le> length M"
      "length M \<le> usize_MAX" for M K p q x r
    using rr_at_reads(2) [OF that(1) _ that(3-5)] that(2) by blast
qed (rule records.item_step records.item_agree records.item_take; assumption)+

section \<open>Header\<close>

definition header_bytes :: "header \<Rightarrow> u16 \<Rightarrow> u16 list \<Rightarrow> bytes" where
  "header_bytes h rcode counts = be16 (hd_id h) @ [header_hi h, header_lo h rcode] @ concat (map be16 counts)"

lemma write_counts:
  "write_each (\<lambda>count pos. write_bytes pos (be16 count)) counts p s = (Inr q, s') \<Longrightarrow> p \<le> length (buf s) \<Longrightarrow>
   write_bytes p (concat (map be16 counts)) s = (Inr q, s')"
proof (induction counts arbitrary: p s)
  case Nil
  then show ?case by (simp add: slift_def write_bytes_ok)
next
  case (Cons c cs)
  then obtain e s1 where w: "write_bytes p (be16 c) s = (Inr e, s1)"
    "write_each (\<lambda>count pos. write_bytes pos (be16 count)) cs e s1 = (Inr q, s')"
    by (auto simp: sbind_eq_Inr_conv)
  then have "e \<le> length (buf s1)" by (auto simp: write_bytes_ok)
  from write_bytes_join [OF w(1) Cons.IH [OF w(2) this]] show ?case by simp
qed

lemma write_header_bytes:
  assumes "write_header h rcode counts s = (Inr q, s')"
  shows "write_bytes 0 (header_bytes h rcode counts) s = (Inr q, s')"
proof -
  from assms obtain a s1 b s2 where w: "write_bytes 0 (be16 (hd_id h)) s = (Inr a, s1)"
    "write_bytes a [header_hi h, header_lo h rcode] s1 = (Inr b, s2)"
    "write_each (\<lambda>count pos. write_bytes pos (be16 count)) counts b s2 = (Inr q, s')"
    by (auto simp: write_header_def sbind_eq_Inr_conv)
  then have "b \<le> length (buf s2)" by (auto simp: write_bytes_ok)
  from write_bytes_join [OF w(1) write_bytes_join [OF w(2) write_counts [OF w(3) this]]]
  show ?thesis by (simp add: header_bytes_def)
qed

lemma bit_header_hi: "bit (header_hi h) n \<longleftrightarrow> n = 7 \<and> hd_response h \<or>
    3 \<le> n \<and> n < 7 \<and> bit (opcode_to_u8 (hd_opcode h)) (n - 3) \<or> n = 2 \<and> hd_authoritive h \<or>
    n = 1 \<and> hd_truncation h \<or> n = 0 \<and> hd_recursion h"
proof -
  have op: "bit (push_bit 3 (opcode_to_u8 (hd_opcode h) AND 0xf)) n \<longleftrightarrow>
      3 \<le> n \<and> n < 7 \<and> bit (opcode_to_u8 (hd_opcode h)) (n - 3)"
    by (simp only: bit_push_bit_iff bit_and_iff) (auto simp: bit_nibble)
  have rd: "bit (of_bool (hd_recursion h) :: byte) n \<longleftrightarrow> n = 0 \<and> hd_recursion h" by (auto simp: bit_simps)
  have f: "bit (push_bit 7 (of_bool (hd_response h)) :: byte) n \<longleftrightarrow> n = 7 \<and> hd_response h"
    "bit (push_bit 2 (of_bool (hd_authoritive h)) :: byte) n \<longleftrightarrow> n = 2 \<and> hd_authoritive h"
    "bit (push_bit 1 (of_bool (hd_truncation h)) :: byte) n \<longleftrightarrow> n = 1 \<and> hd_truncation h"
    by (rule bit_flag, simp)+
  show ?thesis unfolding header_hi_def bit_or_iff op rd f by blast
qed

lemma bit_header_lo: "bit (header_lo h rcode) n \<longleftrightarrow> n = 7 \<and> hd_recursion_ok h \<or> n = 5 \<and> hd_ad h \<or>
    n = 4 \<and> hd_cd h \<or> n < 4 \<and> bit rcode n"
proof -
  have rc: "bit (ucast (rcode AND 0xf) :: byte) n \<longleftrightarrow> n < 4 \<and> bit rcode n" by (auto simp: bit_simps bit_nibble)
  have f: "bit (push_bit 7 (of_bool (hd_recursion_ok h)) :: byte) n \<longleftrightarrow> n = 7 \<and> hd_recursion_ok h"
    "bit (push_bit 5 (of_bool (hd_ad h)) :: byte) n \<longleftrightarrow> n = 5 \<and> hd_ad h"
    "bit (push_bit 4 (of_bool (hd_cd h)) :: byte) n \<longleftrightarrow> n = 4 \<and> hd_cd h"
    by (rule bit_flag, simp)+
  show ?thesis unfolding header_lo_def bit_or_iff rc f by blast
qed

lemma header_opcode:
  assumes "opcode_ok (hd_opcode h)"
  shows "opcode_from_u8 (drop_bit 3 (header_hi h)) = hd_opcode h"
proof -
  have "drop_bit 3 (header_hi h) AND 0xf = opcode_to_u8 (hd_opcode h) AND 0xf"
    by (rule bit_eqI) (auto simp: bit_simps bit_nibble bit_header_hi)
  then have "opcode_from_u8 (drop_bit 3 (header_hi h)) = opcode_from_u8 (opcode_to_u8 (hd_opcode h))"
    by (simp add: opcode_from_u8_def)
  with assms show ?thesis by (simp add: opcode_ok_def)
qed

text \<open>The twelve bits of the RCODE, from the two places that carry them.\<close>

lemma header_rcode:
  "push_bit 4 (ucast (ucast (drop_bit 4 rcode) :: u32) :: u16) OR ucast (header_lo h rcode AND 0x0f) = rcode"
  by (rule bit_eqI) (auto simp: bit_simps bit_nibble bit_header_lo)

lemma header_rcode_low: "rcode \<le> 0xf \<Longrightarrow> ucast (header_lo h rcode AND 0x0f) = rcode"
proof -
  assume "rcode \<le> 0xf"
  then have "drop_bit 4 rcode = 0" by (simp add: drop_bit_eq_div word_le_nat_alt unat_arith_simps)
  with header_rcode [of rcode h] show ?thesis by simp
qed

lemmas header_fields = bit_header_hi bit_header_lo and_bit_byte


section \<open>The message in the buffer\<close>

definition opt_part_at :: "bytes \<Rightarrow> nat set \<Rightarrow> nat \<Rightarrow> nat \<Rightarrow> edns option \<Rightarrow> u16 \<Rightarrow> bool" where
  "opt_part_at b K p q opt rcode = (case opt of None \<Rightarrow> p = q | Some e \<Rightarrow> opt_at b K p q e rcode)"

definition body_at :: "bytes \<Rightarrow> nat set \<Rightarrow> nat \<Rightarrow> nat \<Rightarrow> dns_message \<Rightarrow> u16 \<Rightarrow> bool" where
  "body_at b K p q m rcode \<longleftrightarrow>
     (\<exists>a1 a2 a3 a4. queries.items_at b K p a1 (dm_queries m) \<and> records.items_at b K a1 a2 (dm_answers m) \<and>
        records.items_at b K a2 a3 (dm_authorities m) \<and> records.items_at b K a3 a4 (dm_additionals m) \<and>
        opt_part_at b K a4 q (dm_edns m) rcode \<and> a1 \<le> a2 \<and> a2 \<le> a3 \<and> a3 \<le> a4 \<and> a4 \<le> q)"

definition message_wf :: "dns_message \<Rightarrow> bool" where
  "message_wf m \<longleftrightarrow> list_all (\<lambda>q. wf_name (qname q)) (dm_queries m) \<and>
     list_all (\<lambda>r. wf_name (rr_name r)) (dm_answers m @ dm_authorities m @ dm_additionals m)"

lemma opt_part_agree:
  "opt_part_at b K p q opt rcode \<Longrightarrow> agrees K b b' \<Longrightarrow> K \<subseteq> K' \<Longrightarrow> length b' = length b \<Longrightarrow>
   opt_part_at b' K' p q opt rcode"
  unfolding opt_part_at_def opt_at_def using holds_agree [of b K p q _ b' K'] by (auto split: option.splits)

lemma opt_part_take:
  "opt_part_at b K p q opt rcode \<Longrightarrow> q \<le> n \<Longrightarrow> n \<le> length b \<Longrightarrow> opt_part_at (take n b) K p q opt rcode"
  unfolding opt_part_at_def opt_at_def using holds_take [of b K p q _ n] by (auto split: option.splits)

text \<open>One writer after another: what the first left is still there.\<close>

lemma step_seq:
  assumes a: "step K s p e s1" "P (buf s1) (K \<union> {p..<e})"
    and b: "step (K \<union> {p..<e}) s1 e q s2" "Q (buf s2) (K \<union> {p..<e} \<union> {e..<q})"
    and keep: "\<And>b K b' K'. P b K \<Longrightarrow> agrees K b b' \<Longrightarrow> K \<subseteq> K' \<Longrightarrow> length b' = length b \<Longrightarrow> P b' K'"
  shows "step K s p q s2 \<and> P (buf s2) (K \<union> {p..<q}) \<and> Q (buf s2) (K \<union> {p..<q}) \<and> p \<le> e \<and> e \<le> q"
proof -
  have le: "p \<le> e" "e \<le> q" using a(1) b(1) by (simp_all add: step_def)
  have "P (buf s2) (K \<union> {p..<q})"
    by (rule keep [OF a(2)]) (use b(1) le in \<open>auto simp: step_def\<close>)
  with le step_trans [OF a(1) b(1)] b(2) show ?thesis unfolding union_upto [OF le] by blast
qed

lemma step_refl: "comp_inv (compressor s) (buf s) K p \<Longrightarrow> step K s p p s"
  by (auto simp: step_def agrees_def comp_inv_def table_inv_def intro: less_le_trans)

lemma step_length: "step K s p q s' \<Longrightarrow> length (buf s') = length (buf s)"
  by (simp add: step_def)

lemma step_opt_part:
  assumes inv: "comp_inv (compressor s) (buf s) K p"
    and w: "(case opt of Some e \<Rightarrow> write_opt e rcode p | None \<Rightarrow> slift (Inr p)) s = (Inr q, s')"
  shows "step K s p q s' \<and> opt_part_at (buf s') (K \<union> {p..<q}) p q opt rcode"
proof (cases opt)
  case None
  with w step_refl [OF inv] show ?thesis by (simp add: opt_part_at_def slift_def)
next
  case (Some e)
  with w step_opt [OF inv] show ?thesis by (simp add: opt_part_at_def)
qed

lemma write_body_step:
  assumes inv: "comp_inv (compressor s) (buf s) K p" and wf: "message_wf m"
    and small: "length (buf s) \<le> 2 ^ 24" and w: "write_body m rcode p s = (Inr q, s')"
  shows "step K s p q s' \<and> body_at (buf s') (K \<union> {p..<q}) p q m rcode"
proof -
  from w obtain a1 s1 a2 s2 a3 s3 a4 s4 where w1: "write_each write_query (dm_queries m) p s = (Inr a1, s1)"
    and w2: "write_each write_record (dm_answers m) a1 s1 = (Inr a2, s2)"
    and w3: "write_each write_record (dm_authorities m) a2 s2 = (Inr a3, s3)"
    and w4: "write_each write_record (dm_additionals m) a3 s3 = (Inr a4, s4)"
    and w5: "(case dm_edns m of Some e \<Rightarrow> write_opt e rcode a4 | None \<Rightarrow> slift (Inr a4)) s4 = (Inr q, s')"
    by (auto simp: write_body_def sbind_eq_Inr_conv)
  have q: "step K s p a1 s1 \<and> queries.items_at (buf s1) (K \<union> {p..<a1}) p a1 (dm_queries m)"
    by (rule queries.items_step [OF inv _ small w1]) (use wf in \<open>simp add: message_wf_def\<close>)
  let ?K1 = "K \<union> {p..<a1}"
  have r2: "step ?K1 s1 a1 a2 s2 \<and> records.items_at (buf s2) (?K1 \<union> {a1..<a2}) a1 a2 (dm_answers m)"
    by (rule records.items_step [OF step_inv _ _ w2])
      (use q wf small step_length in \<open>auto simp: message_wf_def\<close>)
  let ?K2 = "?K1 \<union> {a1..<a2}"
  have r3: "step ?K2 s2 a2 a3 s3 \<and> records.items_at (buf s3) (?K2 \<union> {a2..<a3}) a2 a3 (dm_authorities m)"
    by (rule records.items_step [OF step_inv _ _ w3])
      (use q r2 wf small step_length in \<open>auto simp: message_wf_def\<close>)
  let ?K3 = "?K2 \<union> {a2..<a3}"
  have r4: "step ?K3 s3 a3 a4 s4 \<and> records.items_at (buf s4) (?K3 \<union> {a3..<a4}) a3 a4 (dm_additionals m)"
    by (rule records.items_step [OF step_inv _ _ w4])
      (use q r2 r3 wf small step_length in \<open>auto simp: message_wf_def\<close>)
  let ?K4 = "?K3 \<union> {a3..<a4}"
  have o: "step ?K4 s4 a4 q s' \<and> opt_part_at (buf s') (?K4 \<union> {a4..<q}) a4 q (dm_edns m) rcode"
    by (rule step_opt_part [OF step_inv w5]) (use r4 in auto)
  let ?P2 = "\<lambda>b K. records.items_at b K a1 a2 (dm_answers m)"
  let ?P3 = "\<lambda>b K. records.items_at b K a2 a3 (dm_authorities m)"
  let ?P4 = "\<lambda>b K. records.items_at b K a3 a4 (dm_additionals m)"
  let ?Q4 = "\<lambda>b K. opt_part_at b K a4 q (dm_edns m) rcode"
  let ?Q3 = "\<lambda>b K. ?P4 b K \<and> ?Q4 b K \<and> a3 \<le> a4 \<and> a4 \<le> q"
  let ?Q2 = "\<lambda>b K. ?P3 b K \<and> ?Q3 b K \<and> a2 \<le> a3 \<and> a3 \<le> q"
  let ?Q1 = "\<lambda>b K. ?P2 b K \<and> ?Q2 b K \<and> a1 \<le> a2 \<and> a2 \<le> q"
  have c4: "step ?K3 s3 a3 q s' \<and> ?Q3 (buf s') (?K3 \<union> {a3..<q})"
    by (rule step_seq [where P = ?P4 and Q = ?Q4]) (use r4 o records.items_agree in blast)+
  have c3: "step ?K2 s2 a2 q s' \<and> ?Q2 (buf s') (?K2 \<union> {a2..<q})"
    by (rule step_seq [where P = ?P3 and Q = ?Q3]) (use r3 c4 records.items_agree in blast)+
  have c2: "step ?K1 s1 a1 q s' \<and> ?Q1 (buf s') (?K1 \<union> {a1..<q})"
    by (rule step_seq [where P = ?P2 and Q = ?Q2]) (use r2 c3 records.items_agree in blast)+
  have c1: "step K s p q s' \<and> queries.items_at (buf s') (K \<union> {p..<q}) p a1 (dm_queries m) \<and>
      ?Q1 (buf s') (K \<union> {p..<q}) \<and> p \<le> a1 \<and> a1 \<le> q"
    by (rule step_seq [where P = "\<lambda>b K. queries.items_at b K p a1 (dm_queries m)" and Q = ?Q1])
      (use q c2 queries.items_agree in blast)+
  from c1 show ?thesis unfolding body_at_def by blast
qed


section \<open>Round trip\<close>

definition message_fits :: "dns_message \<Rightarrow> bool" where
  "message_fits m \<longleftrightarrow> opcode_ok (dm_opcode m) \<and> rcode_ok (dm_rcode m) \<and>
     list_all (\<lambda>q. name_fits (qname q) \<and> query_class_ok (qclass q)) (dm_queries m) \<and>
     list_all rr_fits (dm_answers m) \<and> list_all rr_fits (dm_authorities m) \<and>
     list_all (\<lambda>r. rr_fits r \<and> rd_type (rr_data r) \<noteq> OPT_RECORD_TYPE) (dm_additionals m)"

text \<open>
  Equality of messages up to what the wire does not carry: the case of a name that
  compression shares with an earlier one, and a TTL with the top bit set, which reads as 0.
\<close>

definition message_equiv :: "dns_message \<Rightarrow> dns_message \<Rightarrow> bool" where
  "message_equiv a b \<longleftrightarrow> header_of a = header_of b \<and>
     list_all2 query_equiv (dm_queries a) (dm_queries b) \<and> list_all2 rr_equiv (dm_answers a) (dm_answers b) \<and>
     list_all2 rr_equiv (dm_authorities a) (dm_authorities b) \<and>
     list_all2 rr_equiv (dm_additionals a) (dm_additionals b) \<and> dm_edns a = dm_edns b"

lemma message_fits_wf: "message_fits m \<Longrightarrow> message_wf m"
  by (auto simp: message_fits_def message_wf_def name_fits_def rr_fits_def list_all_iff)

lemma read_additional_records:
  assumes "read_each (\<lambda>d. additional_try_from_bytes d M) n rest = Inr (ys, rest')"
    and "list_all2 (\<lambda>a r. \<exists>r'. a = ARecord r' \<and> rr_equiv r' r) ys xs"
  shows "\<exists>rs. list_all2 rr_equiv rs xs \<and>
    (\<forall>k acc opt ext. read_additional M (n + k) rest acc opt ext = read_additional M k rest' (acc @ rs) opt ext)"
  using assms
proof (induction n arbitrary: rest ys xs)
  case (Suc n)
  then obtain y ys' r where y: "additional_try_from_bytes rest M = Inr (y, r)" "ys = y # ys'"
    "read_each (\<lambda>d. additional_try_from_bytes d M) n r = Inr (ys', rest')"
    by (auto simp: rbind_eq_Inr_conv)
  with Suc.prems(2) obtain x xs' r' where x: "xs = x # xs'" "y = ARecord r'" "rr_equiv r' x"
    "list_all2 (\<lambda>a r. \<exists>r'. a = ARecord r' \<and> rr_equiv r' r) ys' xs'"
    by (auto simp: list_all2_Cons1)
  from Suc.IH [OF y(3) x(4)] obtain rs where "list_all2 rr_equiv rs xs'"
    "\<And>k acc opt ext. read_additional M (n + k) r acc opt ext = read_additional M k rest' (acc @ rs) opt ext"
    by blast
  with x y(1) show ?case by (intro exI [of _ "r' # rs"]) simp
qed simp

lemma read_opt_part:
  assumes at: "opt_part_at M K p (length M) opt rcode" and "rcode < 4096"
  shows "read_additional M (of_bool (opt \<noteq> None)) (seg M p (length M)) acc None 0 =
    Inr (acc, opt, (if opt = None then 0 else ucast (ucast (drop_bit 4 rcode) :: u32)))"
proof (cases opt)
  case (Some e)
  with at have "opt_at M K p (length M) e rcode" by (simp add: opt_part_at_def)
  from opt_at_reads [OF this] opt_flags_rcode [OF assms(2)] Some show ?thesis by simp
qed simp

lemma body_reads:
  assumes at: "body_at M K p (length M) m rcode" and fits: "message_fits m" and "rcode < 4096"
    and len: "length M \<le> usize_MAX"
  obtains qs an ns ar r1 r2 r3 where
    "read_each (\<lambda>d. query_try_from_bytes d M) (length (dm_queries m)) (seg M p (length M)) = Inr (qs, r1)"
    "read_each (\<lambda>d. rr_try_from_bytes d M) (length (dm_answers m)) r1 = Inr (an, r2)"
    "read_each (\<lambda>d. rr_try_from_bytes d M) (length (dm_authorities m)) r2 = Inr (ns, r3)"
    "read_additional M (length (dm_additionals m) + of_bool (dm_edns m \<noteq> None)) r3 [] None 0 =
       Inr (ar, dm_edns m, (if dm_edns m = None then 0 else ucast (ucast (drop_bit 4 rcode) :: u32)))"
    "list_all2 query_equiv qs (dm_queries m)" "list_all2 rr_equiv an (dm_answers m)"
    "list_all2 rr_equiv ns (dm_authorities m)" "list_all2 rr_equiv ar (dm_additionals m)"
proof -
  from at obtain a1 a2 a3 a4 where q: "queries.items_at M K p a1 (dm_queries m)"
    and an: "records.items_at M K a1 a2 (dm_answers m)" and ns: "records.items_at M K a2 a3 (dm_authorities m)"
    and ar: "records.items_at M K a3 a4 (dm_additionals m)"
    and o: "opt_part_at M K a4 (length M) (dm_edns m) rcode"
    and le: "a1 \<le> a2" "a2 \<le> a3" "a3 \<le> a4" "a4 \<le> length M"
    by (auto simp: body_at_def)
  have le': "a3 \<le> length M" "a2 \<le> length M" "a1 \<le> length M" using le by simp_all
  from queries.items_read [OF q _ le'(3) order_refl len] fits obtain qs where
    q': "read_each (\<lambda>d. query_try_from_bytes d M) (length (dm_queries m)) (seg M p (length M)) =
      Inr (qs, seg M a1 (length M))" "list_all2 query_equiv qs (dm_queries m)"
    by (auto simp: message_fits_def)
  from records.items_read [OF an _ le'(2) order_refl len] fits obtain rs where
    an': "read_each (\<lambda>d. rr_try_from_bytes d M) (length (dm_answers m)) (seg M a1 (length M)) =
      Inr (rs, seg M a2 (length M))" "list_all2 rr_equiv rs (dm_answers m)"
    by (auto simp: message_fits_def)
  from records.items_read [OF ns _ le'(1) order_refl len] fits obtain us where
    ns': "read_each (\<lambda>d. rr_try_from_bytes d M) (length (dm_authorities m)) (seg M a2 (length M)) =
      Inr (us, seg M a3 (length M))" "list_all2 rr_equiv us (dm_authorities m)"
    by (auto simp: message_fits_def)
  from additionals.items_read [OF ar _ le(4) order_refl len] fits obtain ys where
    ar': "read_each (\<lambda>d. additional_try_from_bytes d M) (length (dm_additionals m)) (seg M a3 (length M)) =
      Inr (ys, seg M a4 (length M))"
      "list_all2 (\<lambda>a r. \<exists>r'. a = ARecord r' \<and> rr_equiv r' r) ys (dm_additionals m)"
    by (auto simp: message_fits_def)
  from read_additional_records [OF ar'] obtain ws where
    "list_all2 rr_equiv ws (dm_additionals m)"
    "read_additional M (length (dm_additionals m) + of_bool (dm_edns m \<noteq> None)) (seg M a3 (length M)) [] None 0 =
     read_additional M (of_bool (dm_edns m \<noteq> None)) (seg M a4 (length M)) ws None 0"
    by fastforce
  with read_opt_part [OF o assms(3)] that q' an' ns' show ?thesis by simp
qed


lemma wire_rcode_Inr:
  "wire_rcode rc has_edns = Inr rcode \<longleftrightarrow>
     rcode = rcode_to_u16 rc \<and> rcode \<le> 0xfff \<and> (rcode \<le> 0xf \<or> has_edns)"
  by (auto simp: wire_rcode_def Let_def split: if_splits)

lemma section_count_Inr: "section_count n what = Inr c \<longleftrightarrow> n \<le> 65535 \<and> c = of_nat n"
  by (auto simp: section_count_def)

lemma section_counts_Inr:
  "section_counts m = Inr cs \<longleftrightarrow>
     (let ar = length (dm_additionals m) + of_bool (dm_edns m \<noteq> None) in
      length (dm_queries m) \<le> 65535 \<and> length (dm_answers m) \<le> 65535 \<and> length (dm_authorities m) \<le> 65535 \<and>
      ar \<le> 65535 \<and> cs = [of_nat (length (dm_queries m)), of_nat (length (dm_answers m)),
        of_nat (length (dm_authorities m)), of_nat ar])"
  by (auto simp: section_counts_def Let_def rbind_eq_Inr_conv section_count_Inr)

lemma message_reads:
  assumes M: "M = header_bytes (header_of m) rcode counts @ seg M 12 (length M)"
    and rc: "wire_rcode (dm_rcode m) (dm_edns m \<noteq> None) = Inr rcode" and cs: "section_counts m = Inr counts"
    and at: "body_at M K 12 (length M) m rcode" and fits: "message_fits m" and len: "length M \<le> usize_MAX"
  shows "\<exists>m'. message_try_from_bytes M = Inr m' \<and> message_equiv m' m"
proof -
  let ?h = "header_of m" and ?ar = "length (dm_additionals m) + of_bool (dm_edns m \<noteq> None)"
  have r: "rcode = rcode_to_u16 (dm_rcode m)" "rcode \<le> 0xfff" "rcode \<le> 0xf \<or> dm_edns m \<noteq> None"
    using rc by (auto simp: wire_rcode_Inr)
  then have r12: "rcode < 4096" by (simp add: word_le_nat_alt word_less_nat_alt)
  obtain qs an ns ar r1 r2 r3 where b:
    "read_each (\<lambda>d. query_try_from_bytes d M) (length (dm_queries m)) (seg M 12 (length M)) = Inr (qs, r1)"
    "read_each (\<lambda>d. rr_try_from_bytes d M) (length (dm_answers m)) r1 = Inr (an, r2)"
    "read_each (\<lambda>d. rr_try_from_bytes d M) (length (dm_authorities m)) r2 = Inr (ns, r3)"
    "read_additional M ?ar r3 [] None 0 =
       Inr (ar, dm_edns m, (if dm_edns m = None then 0 else ucast (ucast (drop_bit 4 rcode) :: u32)))"
    "list_all2 query_equiv qs (dm_queries m)" "list_all2 rr_equiv an (dm_answers m)"
    "list_all2 rr_equiv ns (dm_authorities m)" "list_all2 rr_equiv ar (dm_additionals m)"
    by (rule body_reads [OF at fits r12 len])
  have c: "length (dm_queries m) \<le> 65535" "length (dm_answers m) \<le> 65535" "length (dm_authorities m) \<le> 65535"
    "?ar \<le> 65535" "counts = [of_nat (length (dm_queries m)), of_nat (length (dm_answers m)),
      of_nat (length (dm_authorities m)), of_nat ?ar]"
    using cs unfolding section_counts_Inr Let_def by blast+
  have M': "M = be16 (dm_id m) @ header_hi ?h # header_lo ?h rcode # be16 (of_nat (length (dm_queries m))) @
      be16 (of_nat (length (dm_answers m))) @ be16 (of_nat (length (dm_authorities m))) @ be16 (of_nat ?ar) @
      seg M 12 (length M)"
    by (subst M) (simp add: header_bytes_def c(5) header_of_def)
  have l12: "\<not> length M < 12" by (subst M') (simp add: be16_def)
  have rcx: "push_bit 4 (if dm_edns m = None then 0 else ucast (ucast (drop_bit 4 rcode) :: u32)) OR
      ucast (header_lo ?h rcode AND 0x0f) = rcode"
    using header_rcode [of rcode ?h] header_rcode_low [of rcode ?h] r(3) by auto
  let ?m = "\<lparr>dm_id = dm_id m, dm_response = (header_hi ?h AND 0x80 = 0x80),
      dm_opcode = opcode_from_u8 (drop_bit 3 (header_hi ?h)),
      dm_authoritive = (header_hi ?h AND 0x04 = 0x04), dm_truncation = (header_hi ?h AND 0x02 = 0x02),
      dm_recursion = (header_hi ?h AND 0x01 = 0x01), dm_recursion_ok = (header_lo ?h rcode AND 0x80 = 0x80),
      dm_ad = (header_lo ?h rcode AND 0x20 = 0x20), dm_cd = (header_lo ?h rcode AND 0x10 = 0x10),
      dm_rcode = rcode_from_u16 rcode, dm_queries = qs, dm_answers = an, dm_authorities = ns,
      dm_additionals = ar, dm_edns = dm_edns m\<rparr>"
  have r1: "read_u16 M = Inr (dm_id m, header_hi ?h # header_lo ?h rcode # be16 (of_nat (length (dm_queries m))) @
      be16 (of_nat (length (dm_answers m))) @ be16 (of_nat (length (dm_authorities m))) @ be16 (of_nat ?ar) @
      seg M 12 (length M))"
    by (subst M') (rule read_u16_be16)
  have "message_try_from_bytes M = Inr ?m"
  proof -
    obtain A where A: "A = ?ar" by blast
    have u: "unat (of_nat (length (dm_queries m)) :: u16) = length (dm_queries m)"
      "unat (of_nat (length (dm_answers m)) :: u16) = length (dm_answers m)"
      "unat (of_nat (length (dm_authorities m)) :: u16) = length (dm_authorities m)"
      "unat (of_nat A :: u16) = A"
      by (rule unat_of_nat_u16, use c(1-4) A in simp)+
    show ?thesis
      using b(1-4) rcx unfolding message_try_from_bytes_def if_not_P [OF l12] r1
      unfolding A [symmetric] by (simp add: u)
  qed
  moreover have "header_of ?m = header_of m"
    using header_opcode [of ?h] fits r(1) unfolding header_fields
    by (simp add: header_of_def message_fits_def rcode_ok_def)
  ultimately show ?thesis using b(5-8) by (auto simp: message_equiv_def)
qed


lemma body_at_take:
  assumes "body_at b K p q m rcode" and "K \<subseteq> {..<q}" and "q \<le> length b"
  shows "body_at (take q b) K p q m rcode"
proof -
  from assms(1) obtain a1 a2 a3 a4 where at: "queries.items_at b K p a1 (dm_queries m)"
    "records.items_at b K a1 a2 (dm_answers m)" "records.items_at b K a2 a3 (dm_authorities m)"
    "records.items_at b K a3 a4 (dm_additionals m)" "opt_part_at b K a4 q (dm_edns m) rcode"
    and le: "a1 \<le> a2" "a2 \<le> a3" "a3 \<le> a4" "a4 \<le> q"
    by (auto simp: body_at_def)
  have le': "a1 \<le> q" "a2 \<le> q" "a3 \<le> q" using le by simp_all
  from at le le' assms(2,3) show ?thesis
    unfolding body_at_def
    by (intro exI [of _ a1] exI [of _ a2] exI [of _ a3] exI [of _ a4] conjI)
      (auto intro: queries.items_take records.items_take opt_part_take)
qed

lemma comp_inv_header: "p \<le> length b \<Longrightarrow> comp_inv (compressor_clear c) b {0..<p} p"
  by (simp add: comp_inv_def table_inv_def compressor_clear_def index_ok_def)

lemma length_header_bytes: "length cs = 4 \<Longrightarrow> length (header_bytes h rcode cs) = 12"
  by (auto simp: header_bytes_def be16_def length_Suc_conv numeral_eq_Suc)

text \<open>What \<^verbatim>\<open>to_bytes_with\<close> leaves in the buffer when it succeeds.\<close>

lemma to_bytes_with_at:
  assumes w: "to_bytes_with m s = (Inr n, s')" and wf: "message_wf m" and small: "length (buf s) \<le> 2 ^ 24"
  obtains rcode counts K where "wire_rcode (dm_rcode m) (dm_edns m \<noteq> None) = Inr rcode"
    "section_counts m = Inr counts" "12 \<le> n" "n \<le> length (buf s')" "length (buf s') = length (buf s)"
    "take n (buf s') = header_bytes (header_of m) rcode counts @ seg (buf s') 12 n"
    "body_at (take n (buf s')) K 12 n m rcode"
proof -
  let ?s0 = "s\<lparr>compressor := compressor_clear (compressor s)\<rparr>"
  from w obtain rcode counts pos s1 where r: "wire_rcode (dm_rcode m) (dm_edns m \<noteq> None) = Inr rcode"
    and c: "section_counts m = Inr counts" and h: "write_header (header_of m) rcode counts ?s0 = (Inr pos, s1)"
    and b: "write_body m rcode pos s1 = (Inr n, s')"
    by (auto simp: to_bytes_with_def sbind_eq_Inr_conv slift_def split: sum.splits)
  let ?hb = "header_bytes (header_of m) rcode counts"
  have "length counts = 4" using c by (auto simp: section_counts_Inr Let_def)
  then have l: "length ?hb = 12" by (rule length_header_bytes)
  have s1: "pos = 12" "12 \<le> length (buf s)" "s1 = ?s0\<lparr>buf := ?hb @ drop 12 (buf s)\<rparr>"
    using write_header_bytes [OF h] l by (auto simp: write_bytes_ok)
  have len1: "length (buf s1) = length (buf s)" using s1(2) l by (simp add: s1(3))
  have "comp_inv (compressor s1) (buf s1) {0..<12} 12"
    using comp_inv_header [of 12 "buf s1" "compressor s"] s1(2) len1 by (simp add: s1(3))
  from write_body_step [OF this wf _ b [unfolded s1(1)]] small len1
  have st: "step {0..<12} s1 12 n s'" "body_at (buf s') ({0..<12} \<union> {12..<n}) 12 n m rcode"
    by auto
  have n: "12 \<le> n" "n \<le> length (buf s')" "length (buf s') = length (buf s)"
    using st(1) len1 step_inv [OF st(1)] by (auto simp: step_def comp_inv_def table_inv_def)
  have "take 12 (buf s') = ?hb"
  proof (rule nth_equalityI)
    show "length (take 12 (buf s')) = length ?hb" using n l by simp
    show "take 12 (buf s') ! i = ?hb ! i" if "i < length (take 12 (buf s'))" for i
      using that st(1) l by (auto simp: step_def agrees_def s1(3) nth_append)
  qed
  then have "take n (buf s') = ?hb @ seg (buf s') 12 n"
    using n seg_split [of 0 12 n "buf s'"] by (simp add: seg_def)
  moreover have "body_at (take n (buf s')) ({0..<12} \<union> {12..<n}) 12 n m rcode"
    by (rule body_at_take [OF st(2)]) (use n in auto)
  ultimately show ?thesis using that r c n by blast
qed

lemma to_bytes_with_reads:
  assumes w: "to_bytes_with m s = (Inr n, s')" and fits: "message_fits m" and small: "length (buf s) \<le> 2 ^ 24"
  shows "\<exists>m'. message_try_from_bytes (take n (buf s')) = Inr m' \<and> message_equiv m' m"
proof -
  obtain rcode counts K where a: "wire_rcode (dm_rcode m) (dm_edns m \<noteq> None) = Inr rcode"
    "section_counts m = Inr counts" "12 \<le> n" "n \<le> length (buf s')" "length (buf s') = length (buf s)"
    "take n (buf s') = header_bytes (header_of m) rcode counts @ seg (buf s') 12 n"
    "body_at (take n (buf s')) K 12 n m rcode"
    by (rule to_bytes_with_at [OF w message_fits_wf [OF fits] small])
  have "length (take n (buf s')) = n" using a(4) by simp
  moreover have "seg (take n (buf s')) 12 n = seg (buf s') 12 n" by (simp add: seg_take)
  moreover have "n \<le> usize_MAX" using a(4,5) small by (simp add: usize_MAX_def)
  ultimately show ?thesis
    using message_reads [of "take n (buf s')" m rcode counts K] a fits by simp
qed

end
