(* ===== verification/Limits.thy ===== *)
theory Limits
  imports Message
begin

text \<open>
  How long a written message is: the bound \<^verbatim>\<open>wire_size_bound\<close> of \<^verbatim>\<open>rdns-core/src/message.rs\<close> and
  the truncation of \<^verbatim>\<open>to_bytes_within_buf_with\<close>. \<open>bounded p n m\<close> says that \<open>m\<close>, started at \<open>p\<close>,
  needs no more than \<open>n\<close> octets.
\<close>

section \<open>Bounds of the writers\<close>

definition bounded :: "nat \<Rightarrow> nat \<Rightarrow> (out_state, nat) st \<Rightarrow> bool" where
  "bounded p n m \<longleftrightarrow> (\<forall>s. length (buf (snd (m s))) = length (buf s) \<and>
     (case fst (m s) of
        Inr q \<Rightarrow> p \<le> q \<and> q \<le> p + n
      | Inl e \<Rightarrow> buffer_full e \<longrightarrow> length (buf s) < p + n))"

lemma boundedI:
  assumes "\<And>s r s'. m s = (r, s') \<Longrightarrow> length (buf s') = length (buf s) \<and>
      (case r of Inr q \<Rightarrow> p \<le> q \<and> q \<le> p + n | Inl e \<Rightarrow> buffer_full e \<longrightarrow> length (buf s) < p + n)"
  shows "bounded p n m"
  using assms unfolding bounded_def by (metis prod.collapse)

lemma bounded_mono: "bounded p n m \<Longrightarrow> n \<le> k \<Longrightarrow> bounded p k m"
  unfolding bounded_def by (fastforce split: sum.splits)

lemma bounded_bytes: "bounded p (length bs) (write_bytes p bs)"
  by (rule boundedI) (auto simp: write_bytes_def Let_def split: if_splits)

lemma bounded_slift_Inr: "bounded p 0 (slift (Inr p))"
  by (rule boundedI) (auto simp: slift_def)

lemma bounded_slift_Inl: "\<not> buffer_full e \<Longrightarrow> bounded p n (slift (Inl e))"
  by (rule boundedI) (auto simp: slift_def)

lemma bounded_at:
  assumes "bounded p n m" and "m s = (r, s')"
  shows "length (buf s') = length (buf s)"
    and "case r of Inr q \<Rightarrow> p \<le> q \<and> q \<le> p + n | Inl e \<Rightarrow> buffer_full e \<longrightarrow> length (buf s) < p + n"
  using assms unfolding bounded_def by (metis fst_conv snd_conv)+

lemma bounded_sbind:
  assumes m: "bounded p n m" and f: "\<And>q. p \<le> q \<Longrightarrow> q \<le> p + n \<Longrightarrow> bounded q k (f q)"
  shows "bounded p (n + k) (sbind m f)"
proof (rule boundedI)
  fix s r s'
  assume r: "sbind m f s = (r, s')"
  obtain r1 s1 where m1: "m s = (r1, s1)" by fastforce
  note b = bounded_at [OF m m1]
  show "length (buf s') = length (buf s) \<and>
      (case r of Inr q \<Rightarrow> p \<le> q \<and> q \<le> p + (n + k) | Inl e \<Rightarrow> buffer_full e \<longrightarrow> length (buf s) < p + (n + k))"
  proof (cases r1)
    case (Inl e)
    with r m1 b show ?thesis by (auto simp: sbind_def)
  next
    case (Inr q)
    with b have q: "p \<le> q" "q \<le> p + n" by simp_all
    have "f q s1 = (r, s')" using r m1 Inr by (simp add: sbind_def)
    from bounded_at [OF f [OF q] this] b(1) q show ?thesis by (auto split: sum.splits)
  qed
qed

lemma bounded_bytes_then:
  assumes f: "\<And>q. q = p + length bs \<Longrightarrow> bounded q k (f q)" and N: "N = length bs + k"
  shows "bounded p N (sbind (write_bytes p bs) f)"
  unfolding N
proof (rule boundedI)
  fix s r s'
  assume r: "sbind (write_bytes p bs) f s = (r, s')"
  show "length (buf s') = length (buf s) \<and>
      (case r of Inr q \<Rightarrow> p \<le> q \<and> q \<le> p + (length bs + k) | Inl e \<Rightarrow> buffer_full e \<longrightarrow> length (buf s) < p + (length bs + k))"
  proof (cases "p + length bs \<le> length (buf s)")
    case True
    then obtain s1 where s1: "write_bytes p bs s = (Inr (p + length bs), s1)" "length (buf s1) = length (buf s)"
      by (auto simp: write_bytes_def Let_def)
    with r have "f (p + length bs) s1 = (r, s')" by (simp add: sbind_def)
    from bounded_at [OF f [OF refl] this] s1(2) show ?thesis by (auto split: sum.splits)
  next
    case False
    with r show ?thesis by (auto simp: sbind_def write_bytes_def Let_def)
  qed
qed

lemma bounded_slift_sbind:
  assumes "\<And>x. r = Inr x \<Longrightarrow> bounded p n (f x)" and "\<And>e. r = Inl e \<Longrightarrow> \<not> buffer_full e"
  shows "bounded p n (sbind (slift r) f)"
proof (cases r)
  case (Inl e)
  then have "sbind (slift r) f = slift (Inl e)" by (auto simp: sbind_def slift_def)
  with Inl assms(2) bounded_slift_Inl show ?thesis by simp
next
  case (Inr x)
  then have "sbind (slift r) f = f x" by (auto simp: sbind_def slift_def)
  with Inr assms(1) show ?thesis by simp
qed

lemma bounded_each:
  assumes "\<And>x p. x \<in> set xs \<Longrightarrow> bounded p (size_of x) (w x p)"
  shows "bounded p (sum_list (map size_of xs)) (write_each w xs p)"
  using assms by (induction xs arbitrary: p) (auto intro: bounded_slift_Inr bounded_sbind)

section \<open>Names and records\<close>

lemma label_error_not_full: "label_try_from_bytes d = Inl e \<Longrightarrow> \<not> buffer_full e"
  by (auto simp: label_try_from_bytes_def buffer_full_def Let_def split: list.splits if_splits)

lemma dname_scan_error: "dname_scan data len = Inl e \<Longrightarrow> \<not> buffer_full e"
proof (induction data len rule: dname_scan.induct)
  case (1 data len)
  show ?case
  proof (cases "label_try_from_bytes (drop len data)")
    case (Inl e')
    with "1.prems" label_error_not_full show ?thesis by (subst (asm) dname_scan.simps) auto
  next
    case (Inr l)
    with 1 show ?thesis by (subst (asm) (2) dname_scan.simps) (auto split: label.splits)
  qed
qed

lemma from_wire_error: "from_wire w = Inl e \<Longrightarrow> \<not> buffer_full e"
  using dname_scan_error [of w 0]
  by (auto simp: from_wire_def name_wire_from_bytes_def dname_try_from_bytes_def dname_to_wire_def check_name_len_def
      buffer_full_def rbind_eq_Inl_conv split: if_splits)

lemma bounded_name:
  assumes "wf_name n"
  shows "bounded p (length n) (write_name n p)"
proof (rule boundedI)
  fix s r s'
  assume r: "write_name n p s = (r, s')"
  obtain ls where ls: "labels_ok ls" "n = wire_of ls" using assms by (rule wf_nameE)
  show "length (buf s') = length (buf s) \<and>
      (case r of Inr q \<Rightarrow> p \<le> q \<and> q \<le> p + length n | Inl e \<Rightarrow> buffer_full e \<longrightarrow> length (buf s) < p + length n)"
  proof (cases "is_root n")
    case True
    with r show ?thesis
      by (auto simp: write_name_def is_root_def write_bytes_def Let_def split: if_splits)
  next
    case False
    let ?m = "match_loop (compressor s) (length n) (ancestors n)"
    show ?thesis
    proof (cases ?m)
      case None
      moreover obtain k where "length n = Suc k" by (cases n) (simp_all add: ls(2))
      ultimately show ?thesis using False r
        by (auto simp: write_name_def write_parts_def write_bytes_def Let_def sbind_def split: if_splits)
    next
      case (Some st)
      obtain start t where st: "st = (start, t)" by fastforce
      with Some ls match_loop_sound [of "compressor s" 0 ls start t] obtain js ks where
        k: "ls = js @ ks" "ks \<noteq> []" "start = length (wire_labels js)"
        by (auto simp: ancestors_wire)
      then have "3 \<le> length (wire_of ks)" using ls(1) by (cases ks) (auto simp: label_ok_def length_wire_of)
      then have "start + 2 \<le> length n" "start \<le> length n" using k ls(2) by (simp_all add: wire_of_append)
      with False Some st r show ?thesis
        by (auto simp: write_name_def write_parts_def write_bytes_def Let_def sbind_def be16_def split: if_splits)
    qed
  qed
qed


lemma bounded_name_tail: "wf_name n \<Longrightarrow> bounded p (length n + length rest) (sbind (write_name n p) (\<lambda>pos. write_bytes pos rest))"
  by (intro bounded_sbind bounded_name bounded_bytes)

lemma bounded_rdata: "bounded p (length w) (write_rdata t w p)"
proof -
  have one: "bounded p (length w) (sbind (slift (from_wire w)) (\<lambda>(n, rest). sbind (write_name n p) (\<lambda>pos. write_bytes pos rest)))"
    for w p
    by (rule bounded_slift_sbind) (auto simp: from_wire_conv intro: bounded_name_tail dest: from_wire_error)
  have soa: "bounded p (length w) (sbind (slift (from_wire w)) (\<lambda>(m, rest). sbind (slift (from_wire rest)) (\<lambda>(n, rest).
      sbind (write_name m p) (\<lambda>pos. sbind (write_name n pos) (\<lambda>pos. write_bytes pos rest)))))"
    by (rule bounded_slift_sbind)
      (auto simp: from_wire_conv dest: from_wire_error intro!: bounded_slift_sbind bounded_sbind [OF bounded_name]
        bounded_name_tail)
  have mx: "bounded p (length w) (sbind (write_bytes p (take 2 w)) (\<lambda>pos. sbind (slift (from_wire (drop 2 w)))
      (\<lambda>(n, rest). sbind (write_name n pos) (\<lambda>pos. write_bytes pos rest))))" if "2 \<le> length w"
    by (rule bounded_bytes_then [OF one]) (use that in simp)
  have short: "\<not> buffer_full (Truncated ''MX RDATA'' 2 (length w))" by (simp add: buffer_full_def)
  show ?thesis
    using one soa mx bounded_bytes [of p w] bounded_slift_Inl [OF short, of p "length w"]
    by (auto simp: write_rdata_def not_less)
qed

lemma bounded_rr:
  assumes "wf_name n"
  shows "bounded p (length n + 10 + length (rd_bytes d)) (write_rr n c t d p)"
proof -
  have close: "bounded q 0 (if q - a > 65535 then slift (Inl (TooLong ''RDATA'' 65535 (q - a)))
      else sbind (write_bytes l (be16 (of_nat (q - a)))) (\<lambda>_. slift (Inr q)))" if "a = l + 2" "a \<le> q" for a l q
    using that by (intro boundedI)
      (auto simp: slift_def buffer_full_def sbind_def write_bytes_def Let_def be16_def split: if_splits)
  have rd: "bounded a (length (rd_bytes d) + 0) (sbind (write_rdata (rd_type d) (rd_bytes d) a) (\<lambda>q.
      if q - a > 65535 then slift (Inl (TooLong ''RDATA'' 65535 (q - a)))
      else sbind (write_bytes l (be16 (of_nat (q - a)))) (\<lambda>_. slift (Inr q))))" if "a = l + 2" for a l
    by (rule bounded_sbind [OF bounded_rdata close]) (use that in simp_all)
  have l2: "bounded l (2 + length (rd_bytes d)) (sbind (write_bytes l [0, 0]) (\<lambda>a.
      sbind (write_rdata (rd_type d) (rd_bytes d) a) (\<lambda>q.
      if q - a > 65535 then slift (Inl (TooLong ''RDATA'' 65535 (q - a)))
      else sbind (write_bytes l (be16 (of_nat (q - a)))) (\<lambda>_. slift (Inr q)))))" for l
    by (rule bounded_bytes_then [OF rd]) simp_all
  have "bounded p (length n + (2 + (2 + (4 + (2 + length (rd_bytes d)))))) (write_rr n c t d p)"
    unfolding write_rr_def
    by (rule bounded_sbind [OF bounded_name [OF assms]])
      (rule bounded_bytes_then [OF bounded_bytes_then [OF bounded_bytes_then [OF l2]]]; simp add: be16_def be32_def)
  then show ?thesis by (simp add: algebra_simps)
qed


lemma bounded_query: "wf_name (qname q) \<Longrightarrow> bounded p (length (qname q) + 4) (write_query q p)"
  unfolding write_query_def
  by (rule bounded_sbind [OF bounded_name], assumption, rule bounded_bytes_then, rule bounded_mono, rule bounded_bytes)
    (simp_all add: be16_def)

lemma bounded_opt: "bounded p (11 + length (opt_rdata e)) (write_opt e rcode p)"
proof -
  have rd: "bounded q (2 + length (opt_rdata e))
      (if length (opt_rdata e) > 65535 then slift (Inl (TooLong ''OPT RDATA'' 65535 (length (opt_rdata e))))
       else sbind (write_bytes q (be16 (of_nat (length (opt_rdata e))))) (\<lambda>q. write_bytes q (opt_rdata e)))" for q
  proof (cases "length (opt_rdata e) > 65535")
    case True
    then show ?thesis by (simp add: bounded_slift_Inl buffer_full_def)
  next
    case False
    have "bounded q (2 + length (opt_rdata e))
      (sbind (write_bytes q (be16 (of_nat (length (opt_rdata e))))) (\<lambda>q. write_bytes q (opt_rdata e)))"
      by (rule bounded_bytes_then [OF bounded_bytes]) (simp add: be16_def)
    with False show ?thesis by simp
  qed
  show ?thesis
    unfolding write_opt_def Let_def
    by (rule bounded_bytes_then [OF bounded_bytes_then [OF bounded_bytes_then [OF bounded_bytes_then [OF rd]]]];
        simp add: be16_def be32_def)
qed

lemma bounded_body:
  assumes "message_wf m"
  shows "bounded p (wire_size_bound m - HEADER_LEN) (write_body m rcode p)"
proof -
  let ?rr = "\<lambda>rr. length (rr_name rr) + 10 + length (rd_bytes (rr_data rr))"
  have q: "bounded p (sum_list (map (\<lambda>q. length (qname q) + 4) (dm_queries m))) (write_each write_query (dm_queries m) p)" for p
    using assms by (intro bounded_each bounded_query) (auto simp: message_wf_def list_all_iff)
  have r: "bounded p (sum_list (map ?rr xs)) (write_each write_record xs p)" if "\<forall>x \<in> set xs. wf_name (rr_name x)" for xs p
    unfolding write_record_def using that by (intro bounded_each bounded_rr) auto
  have o: "bounded p (case dm_edns m of None \<Rightarrow> 0 | Some e \<Rightarrow> 11 + length (opt_rdata e))
      (case dm_edns m of Some e \<Rightarrow> write_opt e rcode p | None \<Rightarrow> slift (Inr p))" for p
    by (simp add: bounded_opt bounded_slift_Inr split: option.splits)
  have "bounded p (sum_list (map (\<lambda>q. length (qname q) + 4) (dm_queries m)) + (sum_list (map ?rr (dm_answers m)) +
      (sum_list (map ?rr (dm_authorities m)) + (sum_list (map ?rr (dm_additionals m)) +
      (case dm_edns m of None \<Rightarrow> 0 | Some e \<Rightarrow> 11 + length (opt_rdata e)))))) (write_body m rcode p)"
    unfolding write_body_def
    by (intro bounded_sbind q r o) (use assms in \<open>auto simp: message_wf_def list_all_iff\<close>)
  then show ?thesis by (simp add: wire_size_bound_def add.assoc)
qed

lemma bounded_header:
  assumes "length counts = 4"
  shows "bounded 0 HEADER_LEN (write_header h rcode counts)"
proof -
  have "bounded p (sum_list (map (\<lambda>_. 2) counts)) (write_each (\<lambda>count pos. write_bytes pos (be16 count)) counts p)" for p
    by (rule bounded_each, rule bounded_mono [OF bounded_bytes]) (simp add: be16_def)
  then have "bounded p 8 (write_each (\<lambda>count pos. write_bytes pos (be16 count)) counts p)" for p
    using assms by (simp add: sum_list_triv)
  then show ?thesis
    unfolding write_header_def HEADER_LEN_def
    by (intro bounded_bytes_then) (simp_all add: be16_def)
qed

lemma rcode_error: "wire_rcode rc b = Inl e \<Longrightarrow> \<not> buffer_full e"
  by (auto simp: wire_rcode_def Let_def buffer_full_def split: if_splits)

lemma counts_error: "section_counts m = Inl e \<Longrightarrow> \<not> buffer_full e"
  by (auto simp: section_counts_def section_count_def Let_def buffer_full_def rbind_eq_Inl_conv split: if_splits)

lemma bounded_to_bytes:
  assumes wf: "message_wf m"
  shows "bounded 0 (wire_size_bound m) (to_bytes_with m)"
proof -
  let ?m = "sbind (slift (wire_rcode (dm_rcode m) (dm_edns m \<noteq> None))) (\<lambda>rcode.
     sbind (slift (section_counts m)) (\<lambda>counts.
     sbind (write_header (header_of m) rcode counts) (\<lambda>pos. write_body m rcode pos)))"
  have "HEADER_LEN + (wire_size_bound m - HEADER_LEN) = wire_size_bound m" by (simp add: wire_size_bound_def)
  then have "bounded 0 (wire_size_bound m) (sbind (write_header (header_of m) rcode counts) (\<lambda>pos. write_body m rcode pos))"
    if "length counts = 4" for rcode counts
    using bounded_sbind [OF bounded_header [OF that] bounded_body [OF wf], of "header_of m" rcode "\<lambda>_. rcode"] by simp
  then have "bounded 0 (wire_size_bound m) ?m"
    by (intro bounded_slift_sbind) (auto simp: section_counts_Inr Let_def dest: rcode_error counts_error)
  then have b: "bounded 0 (wire_size_bound m) ?m" .
  show ?thesis
  proof (rule boundedI)
    fix s r s'
    assume "to_bytes_with m s = (r, s')"
    then have "?m (s\<lparr>compressor := compressor_clear (compressor s)\<rparr>) = (r, s')" by (simp only: to_bytes_with_def)
    from bounded_at [OF b this] show "length (buf s') = length (buf s) \<and> (case r of
        Inr q \<Rightarrow> 0 \<le> q \<and> q \<le> 0 + wire_size_bound m | Inl e \<Rightarrow> buffer_full e \<longrightarrow> length (buf s) < 0 + wire_size_bound m)"
      by (simp split: sum.splits)
  qed
qed


section \<open>Writing succeeds\<close>

text \<open>A writer that fails only for want of room.\<close>

definition only_full :: "(out_state, 'a) st \<Rightarrow> bool" where
  "only_full m \<longleftrightarrow> (\<forall>s e s'. m s = (Inl e, s') \<longrightarrow> buffer_full e)"

lemma only_full_bytes: "only_full (write_bytes p bs)"
  by (auto simp: only_full_def write_bytes_def Let_def buffer_full_def split: if_splits)

lemma only_full_Inr: "only_full (slift (Inr x))"
  by (simp add: only_full_def slift_def)

lemma only_full_sbind: "only_full m \<Longrightarrow> (\<And>x. only_full (f x)) \<Longrightarrow> only_full (sbind m f)"
  unfolding only_full_def sbind_def by (auto split: prod.splits sum.splits)

lemma only_full_each: "(\<And>x p. x \<in> set xs \<Longrightarrow> only_full (w x p)) \<Longrightarrow> only_full (write_each w xs p)"
  by (induction xs arbitrary: p) (auto intro: only_full_Inr only_full_sbind)

lemma only_full_slift_sbind: "r = Inr x \<Longrightarrow> only_full (f x) \<Longrightarrow> only_full (sbind (slift r) f)"
  by (auto simp: only_full_def)

lemma only_full_name: "only_full (write_name n p)"
proof -
  have "only_full (write_parts bs m p)" for bs m
    unfolding write_parts_def by (intro only_full_sbind only_full_bytes) (auto split: option.splits intro: only_full_bytes)
  then show ?thesis
    using only_full_bytes unfolding only_full_def write_name_def by (auto simp: Let_def split: if_splits)
qed

definition data_writable :: "record_data \<Rightarrow> bool" where
  "data_writable d \<longleftrightarrow> length (rd_bytes d) \<le> 65535 \<and>
     (compressible (rd_type d) \<longrightarrow> (\<exists>p. storable (rd_type d) p \<and> encode p = Inr (rd_type d, rd_bytes d)))"

lemma from_wire_wf [simp]: "wf_name n \<Longrightarrow> from_wire (n @ rest) = Inr (n, rest)"
  by (simp add: from_wire_conv)

lemma from_wire_wf_end [simp]: "wf_name n \<Longrightarrow> from_wire n = Inr (n, [])"
  using from_wire_wf [of n "[]"] by simp

lemma encode_simps:
  "encode (PNS n) = Inr (rt_NS, n)" "encode (PCNAME n) = Inr (rt_CNAME, n)" "encode (PPTR n) = Inr (rt_PTR, n)"
  "encode (PMX c n) = Inr (rt_MX, be16 c @ n)"
  "encode (PSOA m n s f y x i) = Inr (rt_SOA, m @ n @ be32 s @ be32 f @ be32 y @ be32 x @ be32 i)"
  by (simp_all add: encode_def)

fun ptype :: "parsed_record \<Rightarrow> rtype" where
  "ptype (PA _) = rt_A"
| "ptype (PNS _) = rt_NS"
| "ptype (PCNAME _) = rt_CNAME"
| "ptype (PSOA _ _ _ _ _ _ _) = rt_SOA"
| "ptype (PPTR _) = rt_PTR"
| "ptype (PDNAME _) = rt_DNAME"
| "ptype (PSVCB t _ _ _) = t"
| "ptype (PMX _ _) = rt_MX"
| "ptype (PTXT _) = rt_TXT"
| "ptype (PAAAA _) = rt_AAAA"
| "ptype (PDNSKEY t _ _ _ _) = t"
| "ptype (PRRSIG _ _ _ _ _ _ _ _ _) = rt_RRSIG"
| "ptype (PDS t _ _ _ _) = t"
| "ptype (PNSEC _ _) = rt_NSEC"
| "ptype (PNSEC3 _ _ _ _ _ _) = rt_NSEC3"
| "ptype (PUnknown t) = t"

lemma encode_type: "encode p = Inr (t, w) \<Longrightarrow> t = ptype p"
  by (cases p) (auto simp: encode_def sbind_def slift_def append_out_def split: if_splits sum.splits prod.splits)

lemma storable_one:
  assumes "storable t p" and e: "encode p = Inr (t, w)"
  shows "one_name t \<Longrightarrow> wf_name w"
    and "t = rt_SOA \<Longrightarrow> \<exists>m n rest. wf_name m \<and> wf_name n \<and> w = m @ n @ rest"
    and "t = rt_MX \<Longrightarrow> \<exists>a n. wf_name n \<and> w = be16 a @ n"
proof -
  have p: "parsed_ok p" "t = ptype p" using assms encode_type by (auto simp: storable_def)
  show "one_name t \<Longrightarrow> wf_name w" using p e by (cases p) (auto simp: one_name_def rtype_defs encode_simps)
  show "t = rt_SOA \<Longrightarrow> \<exists>m n rest. wf_name m \<and> wf_name n \<and> w = m @ n @ rest"
    using p e by (cases p) (auto simp: rtype_defs encode_simps)
  show "t = rt_MX \<Longrightarrow> \<exists>a n. wf_name n \<and> w = be16 a @ n"
    using p e by (cases p) (auto simp: rtype_defs encode_simps)
qed

lemma only_full_rdata:
  assumes "data_writable d"
  shows "only_full (write_rdata (rd_type d) (rd_bytes d) p)"
proof (cases "compressible (rd_type d)")
  case False
  then show ?thesis by (auto simp: write_rdata_def compressible_def one_name_def intro: only_full_bytes)
next
  case True
  with assms obtain r where r: "storable (rd_type d) r" "encode r = Inr (rd_type d, rd_bytes d)"
    by (auto simp: data_writable_def)
  note f = only_full_sbind only_full_name only_full_bytes
  from True consider (one) "one_name (rd_type d)" | (soa) "rd_type d = rt_SOA" | (mx) "rd_type d = rt_MX"
    by (auto simp: compressible_def)
  then show ?thesis
  proof cases
    case one
    then have "wf_name (rd_bytes d)" by (rule storable_one(1) [OF r])
    with one show ?thesis
      by (auto simp: write_rdata_def one_name_def intro!: f only_full_slift_sbind)
  next
    case soa
    from storable_one(2) [OF r this] obtain m n rest where "wf_name m" "wf_name n" "rd_bytes d = m @ n @ rest" by blast
    then show ?thesis unfolding soa
      by (auto simp: write_rdata_def rtype_defs intro!: f only_full_slift_sbind)
  next
    case mx
    from storable_one(3) [OF r this] obtain a n where "wf_name n" "rd_bytes d = be16 a @ n" by blast
    then show ?thesis unfolding mx
      by (auto simp: write_rdata_def rtype_defs be16_def intro!: f only_full_slift_sbind)
  qed
qed


lemma only_full_rr:
  assumes "data_writable d"
  shows "only_full (write_rr n c t d p)"
proof -
  have close: "only_full (sbind (write_rdata (rd_type d) (rd_bytes d) a) (\<lambda>q.
      if q - a > 65535 then slift (Inl (TooLong ''RDATA'' 65535 (q - a)))
      else sbind (write_bytes l (be16 (of_nat (q - a)))) (\<lambda>_. slift (Inr q))))" for a l
    unfolding only_full_def
  proof (intro allI impI)
    fix s e s'
    assume w: "sbind (write_rdata (rd_type d) (rd_bytes d) a) (\<lambda>q.
      if q - a > 65535 then slift (Inl (TooLong ''RDATA'' 65535 (q - a)))
      else sbind (write_bytes l (be16 (of_nat (q - a)))) (\<lambda>_. slift (Inr q))) s = (Inl e, s')"
    obtain r s1 where r: "write_rdata (rd_type d) (rd_bytes d) a s = (r, s1)" by fastforce
    show "buffer_full e"
    proof (cases r)
      case (Inl e')
      with w r only_full_rdata [OF assms] show ?thesis by (auto simp: sbind_def only_full_def)
    next
      case (Inr q)
      have "q \<le> a + length (rd_bytes d)" using bounded_at(2) [OF bounded_rdata r] Inr by simp
      then have "\<not> q - a > 65535" using assms unfolding data_writable_def by linarith
      with w r Inr have "sbind (write_bytes l (be16 (of_nat (q - a)))) (\<lambda>_. slift (Inr q)) s1 = (Inl e, s')"
        by (simp add: sbind_def)
      moreover have "only_full (sbind (write_bytes l (be16 (of_nat (q - a)))) (\<lambda>_. slift (Inr q)))"
        by (intro only_full_sbind only_full_bytes only_full_Inr)
      ultimately show ?thesis unfolding only_full_def by blast
    qed
  qed
  show ?thesis unfolding write_rr_def
    by (intro only_full_sbind only_full_name only_full_bytes close)
qed

definition message_writable :: "dns_message \<Rightarrow> bool" where
  "message_writable m \<longleftrightarrow>
     list_all (\<lambda>r. data_writable (rr_data r)) (dm_answers m @ dm_authorities m @ dm_additionals m) \<and>
     (case dm_edns m of None \<Rightarrow> True | Some e \<Rightarrow> length (opt_rdata e) \<le> 65535) \<and>
     is_ok (wire_rcode (dm_rcode m) (dm_edns m \<noteq> None)) \<and> is_ok (section_counts m)"

lemma only_full_to_bytes:
  assumes "message_writable m"
  shows "only_full (to_bytes_with m)"
proof -
  obtain rcode counts where rc: "wire_rcode (dm_rcode m) (dm_edns m \<noteq> None) = Inr rcode" "section_counts m = Inr counts"
    using assms by (auto simp: message_writable_def is_ok_def split: sum.splits)
  have rr: "\<And>x. x \<in> set (dm_answers m) \<union> set (dm_authorities m) \<union> set (dm_additionals m) \<Longrightarrow> data_writable (rr_data x)"
    using assms by (auto simp: message_writable_def list_all_iff)
  have opt: "only_full (case dm_edns m of Some e \<Rightarrow> write_opt e rcode p | None \<Rightarrow> slift (Inr p))" for p
    using assms unfolding write_opt_def Let_def message_writable_def
    by (cases "dm_edns m") (auto intro!: only_full_sbind only_full_bytes only_full_Inr)
  have "only_full (sbind (write_header (header_of m) rcode counts) (\<lambda>pos. write_body m rcode pos))"
    unfolding write_header_def write_body_def
    by (intro only_full_sbind only_full_bytes only_full_each opt)
      (auto simp: write_query_def write_record_def intro!: only_full_sbind only_full_name only_full_bytes only_full_rr rr)
  then show ?thesis unfolding to_bytes_with_def rc only_full_def by simp
qed

lemma to_bytes_with_succeeds:
  assumes "message_writable m" and "message_wf m" and "wire_size_bound m \<le> length (buf s)"
  obtains n s' where "to_bytes_with m s = (Inr n, s')" "n \<le> wire_size_bound m"
proof -
  obtain r s' where r: "to_bytes_with m s = (r, s')" by fastforce
  note b = bounded_at(2) [OF bounded_to_bytes [OF assms(2)] r]
  show ?thesis
  proof (cases r)
    case (Inl e)
    then have "buffer_full e" using only_full_to_bytes [OF assms(1)] r by (auto simp: only_full_def)
    with b Inl assms(3) show ?thesis by simp
  next
    case (Inr n)
    with b r that show ?thesis by simp
  qed
qed

section \<open>Properties\<close>

text \<open>
  C1. A message survives the wire. A message whose names have at most 50 labels, whose RDATA is what
  \<^verbatim>\<open>from_wire\<close> or \<^verbatim>\<open>from_parsed\<close> store, and whose counts and RCODE fit their fields is written into
  any buffer of \<^verbatim>\<open>wire_size_bound\<close> octets, and \<^verbatim>\<open>DnsMessage::try_from_bytes\<close> reads the octets written
  as the same message, up to the case of names and a TTL over 2^31 - 1.
\<close>

theorem message_round_trip:
  assumes "message_fits m" and "message_writable m" and "wire_size_bound m \<le> length (buf s)"
    and "length (buf s) \<le> 2 ^ 24"
  shows "\<exists>n s' m'. to_bytes_with m s = (Inr n, s') \<and> n \<le> wire_size_bound m \<and>
    message_try_from_bytes (take n (buf s')) = Inr m' \<and> message_equiv m' m"
proof -
  obtain n s' where "to_bytes_with m s = (Inr n, s')" "n \<le> wire_size_bound m"
    by (rule to_bytes_with_succeeds [OF assms(2) message_fits_wf [OF assms(1)] assms(3)])
  with to_bytes_with_reads [OF _ assms(1,4)] show ?thesis by blast
qed

text \<open>A question and its answer, for the witnesses.\<close>

definition example_reply :: dns_message where
  "example_reply =
     (reply_to (build 7 (with_query [1, 97, 0] 2 builder_new)))
       \<lparr>dm_answers := [\<lparr>rr_name = [1, 97, 0], rr_class = 1, rr_ttl = 60,
          rr_data = \<lparr>rd_type = rt_NS, rd_bytes = [1, 98, 0]\<rparr>\<rparr>]\<rparr>"

lemma wf_example: "wf_name [1, 97, 0]" "wf_name [1, 98, 0]" "label_count [1, 97, 0] = 1" "label_count [1, 98, 0] = 1"
proof -
  have ok: "labels_ok [[97]]" "labels_ok [[98]]" by (simp_all add: label_ok_def)
  have w: "[1, 97, 0] = wire_of [[97]]" "[1, 98, 0] = wire_of [[98]]" by simp_all
  show "wf_name [1, 97, 0]" "wf_name [1, 98, 0]"
    unfolding w using ok by (simp_all add: length_wire_of del: wire_of_simps)
  show "label_count [1, 97, 0] = 1" "label_count [1, 98, 0] = 1" unfolding w using ok by (simp_all del: wire_of_simps)
qed

lemma example_reply_ok: "message_fits example_reply" "message_writable example_reply" "wire_size_bound example_reply = 35"
proof -
  let ?d = "\<lparr>rd_type = rt_NS, rd_bytes = [1, 98, 0]\<rparr>"
  have p: "rdata_parse ?d = Inr (PNS [1, 98, 0])"
    by (simp add: rdata_parse_def decode_arms wf_example)
  have c: "compressible rt_NS" by (simp add: compressible_def one_name_def)
  have fits: "data_fits ?d"
    using p c wf_example by (simp add: data_fits_def data_ok_def is_ok_def)
  have wr: "data_writable ?d"
    using storable_simple(3) [OF wf_example(2)] by (auto simp: data_writable_def encode_simps intro!: exI [of _ "PNS [1, 98, 0]"])
  show "message_fits example_reply"
    using fits wf_example
    by (simp add: message_fits_def example_reply_def reply_to_def build_def with_query_def builder_new_def
        rr_fits_def name_fits_def opcode_ok_def rcode_ok_def query_class_ok_def opcode_from_u8_def
        rcode_from_u16_def query_class_from_u16_def)
  show "message_writable example_reply"
    using wr by (simp add: message_writable_def example_reply_def reply_to_def build_def with_query_def
        builder_new_def is_ok_def wire_rcode_def section_counts_def section_count_def Let_def)
  show "wire_size_bound example_reply = 35"
    by (simp add: wire_size_bound_def example_reply_def reply_to_def build_def with_query_def builder_new_def HEADER_LEN_def)
qed

theorem message_round_trip_witness:
  "\<exists>n s' m'. to_bytes_with example_reply \<lparr>compressor = compressor_new, buf = replicate 512 0\<rparr> = (Inr n, s') \<and>
    n \<le> wire_size_bound example_reply \<and> message_try_from_bytes (take n (buf s')) = Inr m' \<and> message_equiv m' example_reply"
  by (rule message_round_trip) (simp_all add: example_reply_ok)

text \<open>
  C4. The bound is sound: in a buffer of \<^verbatim>\<open>wire_size_bound\<close> octets a message is never refused for
  want of room, and what is written is no longer than the bound. So the second attempt in
  \<^verbatim>\<open>to_bytes_within_buf_with\<close> is never made.
\<close>

theorem wire_size_bound_sound:
  assumes "message_wf m" and "wire_size_bound m \<le> length (buf s)"
  shows "case fst (to_bytes_with m s) of Inr n \<Rightarrow> n \<le> wire_size_bound m | Inl e \<Rightarrow> \<not> buffer_full e"
proof -
  obtain r s' where r: "to_bytes_with m s = (r, s')" by fastforce
  from bounded_at(2) [OF bounded_to_bytes [OF assms(1)] r] assms(2) r show ?thesis by (auto split: sum.splits)
qed


theorem wire_size_bound_sound_witness:
  "case fst (to_bytes_with example_reply \<lparr>compressor = compressor_new, buf = replicate 512 0\<rparr>) of
     Inr n \<Rightarrow> n \<le> wire_size_bound example_reply | Inl e \<Rightarrow> \<not> buffer_full e"
  by (rule wire_size_bound_sound) (simp_all add: example_reply_ok message_fits_wf)

end
