(* ===== verification/Response.thy ===== *)
theory Response
  imports Limits
begin

text \<open>
  \<^verbatim>\<open>rdns-core/src/response.rs\<close>: a reply written into the send buffer as its records are found.
  The specification of a sequence of calls is the \<^verbatim>\<open>DnsMessage\<close> they describe; the
  simulation \<open>rw_sim\<close> relates a writer to it. The rest of the file is what a reply's OPT is
  made of: the client's EDNS, the OPT mirrored back, padding.
\<close>

section \<open>The code\<close>

subsection \<open>The writer\<close>

datatype section_id = Answer | Authority | Additional

fun section_index :: "section_id \<Rightarrow> nat" where
  "section_index Answer = 1"
| "section_index Authority = 2"
| "section_index Additional = 3"

record response_writer =
  rw_out :: out_state
  rw_limit :: nat
  rw_pos :: nat
  rw_body :: nat
  rw_counts :: "u16 list"
  rw_section :: section_id
  rw_header :: header
  rw_edns :: "edns option"
  rw_extended_error :: "extended_error option"
  rw_truncated :: bool

text \<open>A writer's borrow of the buffer and the compressor.\<close>

definition on_out :: "(out_state, 'a) st \<Rightarrow> (response_writer, 'a) st" where
  "on_out m w = (let (r, s) = m (rw_out w) in (r, w\<lparr>rw_out := s\<rparr>))"

definition rw_start :: "out_state \<Rightarrow> nat \<Rightarrow> dns_message \<Rightarrow> response_writer wire_result" where
  "rw_start s max_len request =
     (let s = \<lparr>compressor = compressor_clear (compressor s),
               buf = replicate (max max_len (unat CLASSIC_UDP_SIZE)) 0\<rparr> in
      rbind (section_count (length (dm_queries request)) ''the question section'') (\<lambda>qdcount.
      let (r, s) = write_each write_query (dm_queries request) HEADER_LEN s in
      rbind r (\<lambda>pos.
      Inr \<lparr>rw_out = s, rw_limit = max_len, rw_pos = pos, rw_body = pos, rw_counts = [qdcount, 0, 0, 0],
           rw_section = Answer,
           rw_header = \<lparr>hd_id = dm_id request, hd_response = True, hd_opcode = dm_opcode request,
             hd_authoritive = False, hd_truncation = False, hd_recursion = dm_recursion request,
             hd_recursion_ok = False, hd_ad = False, hd_cd = dm_cd request, hd_rcode = RcOk\<rparr>,
           rw_edns = None, rw_extended_error = None, rw_truncated = False\<rparr>)))"

definition set_authoritative :: "bool \<Rightarrow> response_writer \<Rightarrow> response_writer" where
  "set_authoritative b w = w\<lparr>rw_header := (rw_header w)\<lparr>hd_authoritive := b\<rparr>\<rparr>"

definition set_rcode :: "response_code \<Rightarrow> response_writer \<Rightarrow> response_writer" where
  "set_rcode rc w = w\<lparr>rw_header := (rw_header w)\<lparr>hd_rcode := rc\<rparr>\<rparr>"

definition rw_set_edns :: "edns \<Rightarrow> response_writer \<Rightarrow> response_writer" where
  "rw_set_edns e w = w\<lparr>rw_edns := Some e\<rparr>"

definition set_extended_error :: "extended_error \<Rightarrow> response_writer \<Rightarrow> response_writer" where
  "set_extended_error err w = w\<lparr>rw_extended_error := Some err\<rparr>"

definition rw_truncate :: "response_writer \<Rightarrow> response_writer" where
  "rw_truncate w =
     w\<lparr>rw_truncated := True, rw_pos := rw_body w, rw_counts := [rw_counts w ! 0, 0, 0, 0],
       rw_out := (rw_out w)\<lparr>compressor := compressor_rewind (rw_body w) (compressor (rw_out w))\<rparr>\<rparr>"

text \<open>
  \<^verbatim>\<open>push\<close> in a release build: the \<^verbatim>\<open>debug_assert\<close> on the order of the sections is a hypothesis of
  what is proved, and the count wraps.
\<close>

definition rw_push :: "section_id \<Rightarrow> resource_record \<Rightarrow> (response_writer, unit) st" where
  "rw_push sect rr w =
     (if rw_truncated w then (Inr (), w)
      else let w = w\<lparr>rw_section := sect\<rparr>; i = section_index sect in
        case on_out (write_record rr (rw_pos w)) w of
          (Inr end_pos, w) \<Rightarrow>
            if end_pos \<le> rw_limit w
            then (Inr (), w\<lparr>rw_pos := end_pos, rw_counts := (rw_counts w)[i := rw_counts w ! i + 1]\<rparr>)
            else (Inr (), rw_truncate w)
        | (Inl e, w) \<Rightarrow> if buffer_full e then (Inr (), rw_truncate w) else (Inl e, w))"

definition rw_write_opt :: "edns \<Rightarrow> u16 \<Rightarrow> (response_writer, unit) st" where
  "rw_write_opt e rcode w =
     (let retry = (\<lambda>w. let w = rw_truncate w in
         case on_out (write_opt e rcode (rw_pos w)) w of
           (Inr end_pos, w) \<Rightarrow> (Inr (), w\<lparr>rw_pos := end_pos, rw_counts := (rw_counts w)[3 := 1]\<rparr>)
         | (Inl err, w) \<Rightarrow> (Inl err, w)) in
      case on_out (write_opt e rcode (rw_pos w)) w of
        (Inr end_pos, w) \<Rightarrow>
          if end_pos \<le> rw_limit w
          then (Inr (), w\<lparr>rw_pos := end_pos, rw_counts := (rw_counts w)[3 := rw_counts w ! 3 + 1]\<rparr>)
          else retry w
      | (Inl err, w) \<Rightarrow> if buffer_full err then retry w else (Inl err, w))"

text \<open>The OPT that goes out: the one set, with the extended error if there is one.\<close>

definition opt_to_write :: "edns option \<Rightarrow> extended_error option \<Rightarrow> edns option wire_result" where
  "opt_to_write opt err =
     (case opt of
        None \<Rightarrow> Inr None
      | Some e \<Rightarrow>
          (case err of
             None \<Rightarrow> Inr (Some e)
           | Some x \<Rightarrow> rbind (with_extended_error e x) (\<lambda>e. Inr (Some e))))"

definition rw_write_header :: "u16 \<Rightarrow> (response_writer, bytes) st" where
  "rw_write_header rcode w =
     (let h = (rw_header w)\<lparr>hd_truncation := rw_truncated w\<rparr> in
      case on_out (write_header h rcode (rw_counts w)) w of
        (Inr _, w) \<Rightarrow> (Inr (take (rw_pos w) (buf (rw_out w))), w)
      | (Inl e, w) \<Rightarrow> (Inl e, w))"

definition rw_finish :: "(response_writer, bytes) st" where
  "rw_finish =
     (\<lambda>w. sbind (slift (wire_rcode (hd_rcode (rw_header w)) (rw_edns w \<noteq> None))) (\<lambda>rcode.
       sbind (slift (opt_to_write (rw_edns w) (rw_extended_error w))) (\<lambda>opt.
       sbind (case opt of None \<Rightarrow> slift (Inr ()) | Some e \<Rightarrow> rw_write_opt e rcode) (\<lambda>_.
       rw_write_header rcode))) w)"


section \<open>Calls and what they describe\<close>

datatype rw_call = SetAuthoritative bool | SetRcode response_code | SetEdns edns
  | SetExtendedError extended_error | Push section_id resource_record

fun rw_do :: "rw_call \<Rightarrow> (response_writer, unit) st" where
  "rw_do (SetAuthoritative b) w = (Inr (), set_authoritative b w)"
| "rw_do (SetRcode rc) w = (Inr (), set_rcode rc w)"
| "rw_do (SetEdns e) w = (Inr (), rw_set_edns e w)"
| "rw_do (SetExtendedError err) w = (Inr (), set_extended_error err w)"
| "rw_do (Push sect rr) w = rw_push sect rr w"

fun rw_run :: "rw_call list \<Rightarrow> (response_writer, unit) st" where
  "rw_run [] = slift (Inr ())"
| "rw_run (c # cs) = sbind (rw_do c) (\<lambda>_. rw_run cs)"

definition write_reply :: "out_state \<Rightarrow> nat \<Rightarrow> dns_message \<Rightarrow> rw_call list \<Rightarrow> bytes wire_result" where
  "write_reply s max_len request cs =
     rbind (rw_start s max_len request) (\<lambda>w. fst (sbind (rw_run cs) (\<lambda>_. rw_finish) w))"

record reply_spec =
  sp_message :: dns_message
  sp_error :: "extended_error option"

fun spec_push :: "section_id \<Rightarrow> resource_record \<Rightarrow> dns_message \<Rightarrow> dns_message" where
  "spec_push Answer rr m = m\<lparr>dm_answers := dm_answers m @ [rr]\<rparr>"
| "spec_push Authority rr m = m\<lparr>dm_authorities := dm_authorities m @ [rr]\<rparr>"
| "spec_push Additional rr m = m\<lparr>dm_additionals := dm_additionals m @ [rr]\<rparr>"

fun spec_do :: "rw_call \<Rightarrow> reply_spec \<Rightarrow> reply_spec" where
  "spec_do (SetAuthoritative b) sp = sp\<lparr>sp_message := (sp_message sp)\<lparr>dm_authoritive := b\<rparr>\<rparr>"
| "spec_do (SetRcode rc) sp = sp\<lparr>sp_message := (sp_message sp)\<lparr>dm_rcode := rc\<rparr>\<rparr>"
| "spec_do (SetEdns e) sp = sp\<lparr>sp_message := (sp_message sp)\<lparr>dm_edns := Some e\<rparr>\<rparr>"
| "spec_do (SetExtendedError err) sp = sp\<lparr>sp_error := Some err\<rparr>"
| "spec_do (Push sect rr) sp = sp\<lparr>sp_message := spec_push sect rr (sp_message sp)\<rparr>"

text \<open>The sections of the calls are in order, as the wire has them.\<close>

fun in_order :: "nat \<Rightarrow> rw_call list \<Rightarrow> bool" where
  "in_order n [] \<longleftrightarrow> True"
| "in_order n (Push sect rr # cs) \<longleftrightarrow>
     n \<le> section_index sect \<and> wf_name (rr_name rr) \<and> in_order (section_index sect) cs"
| "in_order n (_ # cs) \<longleftrightarrow> in_order n cs"

definition all_records :: "dns_message \<Rightarrow> resource_record list" where
  "all_records m = dm_answers m @ dm_authorities m @ dm_additionals m"

definition counts_of :: "dns_message \<Rightarrow> u16 list" where
  "counts_of m = [of_nat (length (dm_queries m)), of_nat (length (dm_answers m)),
     of_nat (length (dm_authorities m)), of_nat (length (dm_additionals m))]"

definition later_empty :: "nat \<Rightarrow> dns_message \<Rightarrow> bool" where
  "later_empty n m \<longleftrightarrow> (n < 2 \<longrightarrow> dm_authorities m = []) \<and> (n < 3 \<longrightarrow> dm_additionals m = [])"

definition rw_sim :: "nat \<Rightarrow> response_writer \<Rightarrow> reply_spec \<Rightarrow> bool" where
  "rw_sim n w sp \<longleftrightarrow>
     (let m = sp_message sp; b = buf (rw_out w) in
      rw_header w = header_of m \<and> \<not> dm_truncation m \<and> rw_edns w = dm_edns m \<and>
      rw_extended_error w = sp_error sp \<and> length b = max (rw_limit w) 512 \<and>
      length (dm_queries m) \<le> 65535 \<and> later_empty n m \<and>
      queries.items_at b {12..<rw_body w} 12 (rw_body w) (dm_queries m) \<and> rw_body w \<le> length b \<and>
      (if rw_truncated w
       then rw_pos w = rw_body w \<and> rw_counts w = [of_nat (length (dm_queries m)), 0, 0, 0]
       else comp_inv (compressor (rw_out w)) b {12..<rw_pos w} (rw_pos w) \<and> rw_body w \<le> rw_pos w \<and>
         records.items_at b {12..<rw_pos w} (rw_body w) (rw_pos w) (all_records m) \<and>
         rw_counts w = counts_of m \<and> (all_records m = [] \<or> rw_pos w \<le> rw_limit w)))"

section \<open>Frames\<close>

text \<open>A writer that leaves the octets before \<open>p\<close> alone, also when it fails.\<close>

definition keeps :: "nat \<Rightarrow> (out_state, nat) st \<Rightarrow> bool" where
  "keeps p m \<longleftrightarrow> (\<forall>s. length (buf (snd (m s))) = length (buf s) \<and> take p (buf (snd (m s))) = take p (buf s) \<and>
     (\<forall>q. fst (m s) = Inr q \<longrightarrow> p \<le> q))"

lemma keeps_writes_from: "writes_from q m \<Longrightarrow> p \<le> q \<Longrightarrow> keeps p m"
  unfolding keeps_def using writes_fromD [OF writes_from_weaken] by metis

lemma keeps_sbind:
  assumes "keeps p m" and "\<And>x. p \<le> x \<Longrightarrow> keeps p (f x)"
  shows "keeps p (sbind m f)"
  unfolding keeps_def
proof
  fix s
  obtain r s' where m: "m s = (r, s')" by fastforce
  show "length (buf (snd (sbind m f s))) = length (buf s) \<and> take p (buf (snd (sbind m f s))) = take p (buf s) \<and>
     (\<forall>q. fst (sbind m f s) = Inr q \<longrightarrow> p \<le> q)"
    using assms m unfolding keeps_def by (cases r) (auto simp: sbind_def dest: spec [of _ s] spec [of _ s'])
qed

lemma keeps_slift: "(\<And>q. r = Inr q \<Longrightarrow> p \<le> q) \<Longrightarrow> keeps p (slift r)"
  by (auto simp: keeps_def slift_def)

lemma keeps_bytes: "p \<le> x \<Longrightarrow> keeps p (write_bytes x bs)"
  by (rule keeps_writes_from [OF writes_from_bytes [OF order_refl]])

lemma keeps_record: "keeps p (write_record rr p)"
  unfolding write_record_def write_rr_def
  by (intro keeps_sbind keeps_writes_from [OF writes_from_write_name] keeps_bytes
      keeps_writes_from [OF writes_from_write_rdata] order_refl)
    (auto intro!: keeps_sbind keeps_slift keeps_bytes)

lemma keeps_agrees:
  assumes "keeps p m" and "K \<subseteq> {..<p}" and "p \<le> length (buf s)" and "m s = (r, s')"
  shows "agrees K (buf s) (buf s')" and "length (buf s') = length (buf s)"
proof -
  have t: "take p (buf s') = take p (buf s)" "length (buf s') = length (buf s)"
    using assms(1,4) unfolding keeps_def by (metis snd_conv)+
  show "agrees K (buf s) (buf s')" by (rule agrees_take [OF t]) (use assms in auto)
  show "length (buf s') = length (buf s)" by (rule t(2))
qed


section \<open>The simulation\<close>

lemma spec_push_same [simp]:
  "header_of (spec_push sect rr m) = header_of m" "dm_edns (spec_push sect rr m) = dm_edns m"
  "dm_queries (spec_push sect rr m) = dm_queries m" "dm_truncation (spec_push sect rr m) = dm_truncation m"
  by (cases sect; simp add: header_of_def)+

lemma spec_push_records:
  assumes "later_empty n m" and "n \<le> section_index sect"
  shows "all_records (spec_push sect rr m) = all_records m @ [rr]"
    and "counts_of (spec_push sect rr m) =
      (counts_of m)[section_index sect := counts_of m ! section_index sect + 1]"
    and "later_empty (section_index sect) (spec_push sect rr m)"
  using assms by (cases sect; auto simp: all_records_def counts_of_def later_empty_def add.commute)+

lemma rw_start_sim:
  assumes w: "rw_start s max_len request = Inr w" and wf: "list_all (\<lambda>q. wf_name (qname q)) (dm_queries request)"
    and small: "max_len \<le> 65535"
  shows "rw_sim 1 w \<lparr>sp_message = reply_to request, sp_error = None\<rparr> \<and> rw_limit w = max_len"
proof -
  let ?s = "\<lparr>compressor = compressor_clear (compressor s), buf = replicate (max max_len 512) (0 :: byte)\<rparr>"
  have c: "unat CLASSIC_UDP_SIZE = 512" by (simp add: CLASSIC_UDP_SIZE_def)
  obtain r s' where q: "write_each write_query (dm_queries request) 12 ?s = (r, s')" by fastforce
  from w q obtain pos where r: "r = Inr pos" and n: "length (dm_queries request) \<le> 65535"
    and w': "w = \<lparr>rw_out = s', rw_limit = max_len, rw_pos = pos, rw_body = pos,
        rw_counts = [of_nat (length (dm_queries request)), 0, 0, 0], rw_section = Answer,
        rw_header = header_of (reply_to request), rw_edns = None, rw_extended_error = None, rw_truncated = False\<rparr>"
    unfolding rw_start_def Let_def c HEADER_LEN_def
    by (cases r) (auto simp: rbind_eq_Inr_conv section_count_Inr header_of_def reply_to_def)
  have "comp_inv (compressor ?s) (buf ?s) {} 12" using comp_inv_start [of 12 "buf ?s"] by simp
  from queries.items_step [OF this wf _ q [unfolded r]] small
  have st: "step {} ?s 12 pos s'" "queries.items_at (buf s') ({} \<union> {12..<pos}) 12 pos (dm_queries request)" by auto
  have "comp_inv (compressor s') (buf s') {12..<pos} pos" using step_inv [OF st(1)] by simp
  moreover from this have "pos \<le> length (buf s')" by (simp add: comp_inv_def table_inv_def)
  moreover have "length (buf s') = max max_len 512" using st(1) by (simp add: step_def)
  ultimately show ?thesis
    using st(2) n by (simp add: rw_sim_def w' reply_to_def later_empty_def all_records_def counts_of_def)
qed

lemma rw_sim_count: "rw_sim n w sp \<Longrightarrow> rw_counts w ! 0 = of_nat (length (dm_queries (sp_message sp)))"
  by (auto simp: rw_sim_def Let_def counts_of_def split: if_splits)

text \<open>Dropping back to the question, whatever was written behind it.\<close>

lemma rw_truncate_sim:
  assumes sim: "rw_sim n w sp" and w1: "w1 = w\<lparr>rw_section := sect, rw_out := s1\<rparr>"
    and ag: "agrees {12..<rw_body w} (buf (rw_out w)) (buf s1)" "length (buf s1) = length (buf (rw_out w))"
    and m: "header_of m = header_of (sp_message sp)" "dm_edns m = dm_edns (sp_message sp)"
      "dm_queries m = dm_queries (sp_message sp)" "dm_truncation m = dm_truncation (sp_message sp)" "later_empty k m"
  shows "rw_sim k (rw_truncate w1) (sp\<lparr>sp_message := m\<rparr>)"
proof -
  have "queries.items_at (buf s1) {12..<rw_body w} 12 (rw_body w) (dm_queries m)"
    by (rule queries.items_agree [OF _ ag(1) _ ag(2)]) (use sim m(3) in \<open>auto simp: rw_sim_def Let_def\<close>)
  with sim ag m rw_sim_count [OF sim] show ?thesis
    by (simp add: rw_sim_def Let_def rw_truncate_def w1)
qed

lemma rw_push_sim:
  assumes sim: "rw_sim n w sp" and n: "n \<le> section_index sect" and wf: "wf_name (rr_name rr)"
    and small: "rw_limit w \<le> 65535" and p: "rw_push sect rr w = (Inr (), w')"
  shows "rw_sim (section_index sect) w' (spec_do (Push sect rr) sp) \<and> rw_limit w' = rw_limit w"
proof (cases "rw_truncated w")
  case True
  with p have "w' = w" by (simp add: rw_push_def)
  with True sim spec_push_records [of n "sp_message sp" sect rr] n show ?thesis by (simp add: rw_sim_def Let_def)
next
  case False
  let ?m = "sp_message sp" and ?b = "buf (rw_out w)" and ?p = "rw_pos w"
  have later: "later_empty n ?m" using sim by (simp add: rw_sim_def Let_def)
  have s: "comp_inv (compressor (rw_out w)) ?b {12..<?p} ?p" "rw_body w \<le> ?p" "length ?b = max (rw_limit w) 512"
    "records.items_at ?b {12..<?p} (rw_body w) ?p (all_records ?m)" "rw_counts w = counts_of ?m"
    "queries.items_at ?b {12..<rw_body w} 12 (rw_body w) (dm_queries ?m)"
    using sim False by (auto simp: rw_sim_def Let_def)
  have pl: "?p \<le> length ?b" using s(1) by (simp add: comp_inv_def table_inv_def)
  obtain r s1 where w: "write_record rr ?p (rw_out w) = (r, s1)" by fastforce
  let ?w1 = "w\<lparr>rw_section := sect, rw_out := s1\<rparr>"
  have sub: "{12..<rw_body w} \<subseteq> {..<?p}" using s(2) by auto
  note ag = keeps_agrees [OF keeps_record sub pl w]
  have trunc: "rw_sim (section_index sect) (rw_truncate ?w1) (spec_do (Push sect rr) sp)"
    using rw_truncate_sim [OF sim refl ag, of "spec_push sect rr ?m" "section_index sect" sect]
      spec_push_records(3) [OF later n] by simp
  show ?thesis
  proof (cases "\<exists>q. r = Inr q \<and> q \<le> rw_limit w")
    case True
    then obtain q where q: "r = Inr q" "q \<le> rw_limit w" by blast
    have st: "step {12..<?p} (rw_out w) ?p q s1" "rr_at (buf s1) ({12..<?p} \<union> {?p..<q}) ?p q rr"
      using records.item_step [OF s(1) wf _ w [unfolded q(1)]] s(3) small by auto
    have "12 \<le> ?p" using queries.items_le [OF s(6)] s(2) by simp
    then have K: "{12..<?p} \<union> {?p..<q} = {12..<q}" using st(1) by (auto simp: step_def)
    have rec: "records.items_at (buf s1) {12..<q} (rw_body w) q (all_records ?m @ [rr])"
    proof -
      have "records.items_at (buf s1) {12..<q} (rw_body w) ?p (all_records ?m)"
        by (rule records.items_agree [OF s(4)]) (use st(1) K in \<open>auto simp: step_def\<close>)
      moreover have "records.items_at (buf s1) {12..<q} ?p q [rr]"
        using st K by (auto simp: step_def)
      ultimately show ?thesis unfolding records.items_append by blast
    qed
    have qs: "queries.items_at (buf s1) {12..<rw_body w} 12 (rw_body w) (dm_queries ?m)"
      by (rule queries.items_agree [OF s(6)]) (use ag in auto)
    have "w' = ?w1\<lparr>rw_pos := q, rw_counts := (rw_counts w)[section_index sect := rw_counts w ! section_index sect + 1]\<rparr>"
      using p False w q by (simp add: rw_push_def on_out_def Let_def)
    with sim False rec qs spec_push_records [OF later n, of rr] s(5) q(2) st(1) step_inv [OF st(1), unfolded K]
    show ?thesis by (auto simp: rw_sim_def Let_def step_def)
  next
    case no: False
    with p False w have "w' = rw_truncate ?w1"
      by (cases r) (auto simp: rw_push_def on_out_def Let_def split: if_splits)
    with trunc show ?thesis by (simp add: rw_truncate_def)
  qed
qed


lemma rw_do_sim:
  assumes "rw_sim n w sp" and "in_order n (c # cs)" and "rw_limit w \<le> 65535" and "rw_do c w = (Inr (), w')"
  shows "\<exists>k. rw_sim k w' (spec_do c sp) \<and> in_order k cs \<and> rw_limit w' = rw_limit w"
proof (cases c)
  case (Push sect rr)
  with assms rw_push_sim [of n w sp sect rr w'] show ?thesis by auto
qed (use assms in \<open>auto simp: rw_sim_def Let_def header_of_def set_authoritative_def set_rcode_def rw_set_edns_def
    set_extended_error_def later_empty_def counts_of_def all_records_def\<close>)

lemma rw_run_sim:
  assumes "rw_sim n w sp" and "in_order n cs" and "rw_limit w \<le> 65535" and "rw_run cs w = (Inr (), w')"
  shows "\<exists>k. rw_sim k w' (fold spec_do cs sp) \<and> rw_limit w' = rw_limit w"
  using assms
proof (induction cs arbitrary: n w sp)
  case Nil
  then show ?case by (auto simp: slift_def)
next
  case (Cons c cs)
  then obtain w1 where w1: "rw_do c w = (Inr (), w1)" "rw_run cs w1 = (Inr (), w')"
    by (auto simp: sbind_eq_Inr_conv)
  from rw_do_sim [OF Cons.prems(1,2,3) w1(1)] obtain k where "rw_sim k w1 (spec_do c sp)" "in_order k cs"
    "rw_limit w1 = rw_limit w"
    by blast
  with Cons.IH [OF this(1,2) _ w1(2)] Cons.prems(3) show ?case by auto
qed

section \<open>Finishing\<close>

text \<open>The message a writer will send: what was described, or the question alone with TC.\<close>

definition sent :: "response_writer \<Rightarrow> reply_spec \<Rightarrow> edns option \<Rightarrow> dns_message" where
  "sent w sp opt =
     (let m = (sp_message sp)\<lparr>dm_edns := opt\<rparr> in if rw_truncated w then truncated_message m else m)"

definition final_at :: "response_writer \<Rightarrow> dns_message \<Rightarrow> u16 \<Rightarrow> bool" where
  "final_at w m rcode \<longleftrightarrow> body_at (buf (rw_out w)) {12..<rw_pos w} 12 (rw_pos w) m rcode \<and>
     section_counts m = Inr (rw_counts w) \<and> 12 \<le> rw_pos w \<and> rw_pos w \<le> length (buf (rw_out w)) \<and>
     length (buf (rw_out w)) = max (rw_limit w) 512"

lemma body_of:
  assumes "queries.items_at b K p a (dm_queries m)" and "records.items_at b K a c (all_records m)"
    and "opt_part_at b K c q (dm_edns m) rcode" and "c \<le> q"
  shows "body_at b K p q m rcode"
  using assms records.items_le unfolding body_at_def all_records_def records.items_append by blast

lemma records_length: "records.items_at b K p q xs \<Longrightarrow> p + length xs \<le> q"
proof (induction xs arbitrary: p)
  case (Cons x xs)
  then obtain e where e: "rr_at b K p e x" "records.items_at b K e q xs" by auto
  then have "p < e" using name_at_less holds_le unfolding rr_at_def by (meson le_less_trans less_le_trans)
  with Cons.IH [OF e(2)] show ?case by simp
qed simp

lemma write_bytes_frame:
  assumes w: "write_bytes p bs s = (Inr q, s')" and K: "K \<subseteq> {..<p}"
  shows "holds (buf s') (K \<union> {p..<q}) p q bs \<and> agrees K (buf s) (buf s') \<and>
    length (buf s') = length (buf s) \<and> p \<le> q \<and> q \<le> length (buf s)"
proof -
  from w have q: "q = p + length bs" "q \<le> length (buf s)" "buf s' = take p (buf s) @ bs @ drop q (buf s)"
    by (auto simp: write_bytes_ok)
  have len: "length (buf s') = length (buf s)" using q by simp
  have "seg (take p (buf s) @ bs @ drop q (buf s)) (length (take p (buf s))) (length (take p (buf s)) + length bs) = bs"
    by (rule seg_append_exact)
  then have "seg (buf s') p q = bs" using q by simp
  moreover have "agrees K (buf s) (buf s')"
    by (rule agrees_take [of p]) (use q K len in auto)
  ultimately show ?thesis unfolding holds_def using q(1,2) len by auto
qed

lemma write_opt_frame:
  assumes w: "write_opt e rcode p s = (Inr q, s')" and K: "K \<subseteq> {..<p}"
  shows "opt_at (buf s') (K \<union> {p..<q}) p q e rcode \<and> agrees K (buf s) (buf s') \<and>
    length (buf s') = length (buf s) \<and> p \<le> q \<and> q \<le> length (buf s)"
  using write_opt_bytes [OF w] write_bytes_frame [OF _ K] by (auto simp: opt_at_def)

lemma keeps_opt: "keeps p (write_opt e rcode p)"
  by (rule keeps_writes_from [OF writes_from_opt order_refl])

text \<open>The counts of what a writer holds fit their fields.\<close>

lemma rw_sim_counts:
  assumes sim: "rw_sim n w sp" and small: "rw_limit w \<le> 65535"
  shows "section_counts (sent w sp opt) =
    Inr ((rw_counts w)[3 := rw_counts w ! 3 + of_bool (opt \<noteq> None)])"
proof (cases "rw_truncated w")
  case True
  with sim show ?thesis
    by (auto simp: rw_sim_def Let_def sent_def truncated_message_def section_counts_Inr)
next
  case False
  let ?m = "sp_message sp"
  have "records.items_at (buf (rw_out w)) {12..<rw_pos w} (rw_body w) (rw_pos w) (all_records ?m)"
    "all_records ?m = [] \<or> rw_pos w \<le> rw_limit w" "12 \<le> rw_body w"
    using sim False queries.items_le by (auto simp: rw_sim_def Let_def)
  with records_length small have "length (all_records ?m) \<le> 65534" by fastforce
  with sim False show ?thesis
    by (auto simp: rw_sim_def Let_def sent_def section_counts_Inr all_records_def counts_of_def add.commute)
qed

lemma opt_end:
  assumes sim: "rw_sim n w sp" and small: "rw_limit w \<le> 65535"
    and o: "write_opt e rcode (rw_pos w) (rw_out w) = (Inr q, s1)"
  shows "final_at (w\<lparr>rw_out := s1, rw_pos := q, rw_counts := (rw_counts w)[3 := rw_counts w ! 3 + 1]\<rparr>)
    (sent w sp (Some e)) rcode"
proof -
  let ?b = "buf (rw_out w)" and ?m = "sp_message sp" and ?p = "rw_pos w"
  have q: "queries.items_at ?b {12..<rw_body w} 12 (rw_body w) (dm_queries ?m)" using sim by (simp add: rw_sim_def Let_def)
  have le: "12 \<le> rw_body w" "rw_body w \<le> ?p"
    using queries.items_le [OF q] sim by (auto simp: rw_sim_def Let_def split: if_splits)
  have K: "{12..<?p} \<subseteq> {..<?p}" by auto
  note f = write_opt_frame [OF o K]
  have U: "{12..<?p} \<union> {?p..<q} = {12..<q}" using le f by auto
  have q': "queries.items_at (buf s1) {12..<q} 12 (rw_body w) (dm_queries ?m)"
    by (rule queries.items_agree [OF queries.items_agree [OF q agrees_refl, of "{12..<?p}"]])
      (use f le sim in \<open>auto simp: rw_sim_def Let_def\<close>)
  have r': "records.items_at (buf s1) {12..<q} (rw_body w) ?p (all_records (sent w sp (Some e)))"
  proof (cases "rw_truncated w")
    case True
    with sim show ?thesis by (simp add: rw_sim_def Let_def sent_def truncated_message_def all_records_def)
  next
    case False
    then have "records.items_at ?b {12..<?p} (rw_body w) ?p (all_records ?m)" using sim by (simp add: rw_sim_def Let_def)
    from records.items_agree [OF this, of "buf s1" "{12..<q}"] f False show ?thesis
      by (auto simp: sent_def all_records_def)
  qed
  have "body_at (buf s1) {12..<q} 12 q (sent w sp (Some e)) rcode"
    by (rule body_of [OF _ r']) (use q' f U in \<open>auto simp: sent_def truncated_message_def opt_part_at_def Let_def\<close>)
  then show ?thesis
    using rw_sim_counts [OF sim small, of "Some e"] f le sim by (simp add: final_at_def rw_sim_def Let_def)
qed


lemma rw_truncate_after_opt:
  assumes sim: "rw_sim n w sp" and o: "write_opt e rcode (rw_pos w) (rw_out w) = (r, s1)"
  shows "rw_sim n (rw_truncate (w\<lparr>rw_out := s1\<rparr>)) sp"
proof -
  have le: "rw_body w \<le> rw_pos w" "rw_pos w \<le> length (buf (rw_out w))"
    using sim by (auto simp: rw_sim_def Let_def comp_inv_def table_inv_def split: if_splits)
  then have sub: "{12..<rw_body w} \<subseteq> {..<rw_pos w}" by auto
  have w: "w\<lparr>rw_out := s1\<rparr> = w\<lparr>rw_section := rw_section w, rw_out := s1\<rparr>" by simp
  have "later_empty n (sp_message sp)" using sim by (simp add: rw_sim_def Let_def)
  with rw_truncate_sim [OF sim w keeps_agrees [OF keeps_opt sub le(2) o], of "sp_message sp" n] show ?thesis by simp
qed

lemma rw_write_opt_final:
  assumes sim: "rw_sim n w sp" and small: "rw_limit w \<le> 65535" and p: "rw_write_opt e rcode w = (Inr (), w')"
  shows "final_at w' (sent w' sp (Some e)) rcode \<and> rw_header w' = rw_header w \<and> rw_limit w' = rw_limit w \<and>
    (rw_truncated w' \<or> rw_pos w' \<le> rw_limit w)"
proof -
  obtain r s1 where o: "write_opt e rcode (rw_pos w) (rw_out w) = (r, s1)" by fastforce
  show ?thesis
  proof (cases "\<exists>q. r = Inr q \<and> q \<le> rw_limit w")
    case True
    then obtain q where q: "r = Inr q" "q \<le> rw_limit w" by blast
    with p o have "w' = w\<lparr>rw_out := s1, rw_pos := q, rw_counts := (rw_counts w)[3 := rw_counts w ! 3 + 1]\<rparr>"
      by (simp add: rw_write_opt_def on_out_def Let_def)
    with opt_end [OF sim small o [unfolded q(1)]] q(2) show ?thesis by (simp add: sent_def)
  next
    case False
    let ?w2 = "rw_truncate (w\<lparr>rw_out := s1\<rparr>)"
    have sim2: "rw_sim n ?w2 sp" by (rule rw_truncate_after_opt [OF sim o])
    obtain r2 s2 where o2: "write_opt e rcode (rw_pos ?w2) (rw_out ?w2) = (r2, s2)" by fastforce
    have retry: "w' = ?w2\<lparr>rw_out := s2, rw_pos := q, rw_counts := (rw_counts ?w2)[3 := 1]\<rparr>" if "r2 = Inr q" for q
      using p o False o2 that
      by (cases r) (auto simp: rw_write_opt_def on_out_def Let_def split: if_splits)
    obtain q where q: "r2 = Inr q"
      using p o False o2 by (cases r; cases r2) (auto simp: rw_write_opt_def on_out_def Let_def split: if_splits)
    have "rw_limit ?w2 \<le> 65535" using small by (simp add: rw_truncate_def)
    from opt_end [OF sim2 this o2 [unfolded q]] retry [OF q] show ?thesis
      by (simp add: rw_truncate_def sent_def)
  qed
qed

lemma final_without_opt:
  assumes sim: "rw_sim n w sp" and small: "rw_limit w \<le> 65535" and none: "rw_edns w = None"
  shows "final_at w (sent w sp None) rcode"
proof -
  let ?b = "buf (rw_out w)" and ?m = "sp_message sp" and ?p = "rw_pos w"
  have q: "queries.items_at ?b {12..<rw_body w} 12 (rw_body w) (dm_queries ?m)" "rw_body w \<le> length ?b"
    using sim by (auto simp: rw_sim_def Let_def)
  have le: "12 \<le> rw_body w" "rw_body w \<le> ?p" "?p \<le> length ?b"
    using queries.items_le [OF q(1)] sim by (auto simp: rw_sim_def Let_def comp_inv_def table_inv_def split: if_splits)
  have q': "queries.items_at ?b {12..<?p} 12 (rw_body w) (dm_queries ?m)"
    by (rule queries.items_agree [OF q(1) agrees_refl]) (use le q(2) in auto)
  have r': "records.items_at ?b {12..<?p} (rw_body w) ?p (all_records (sent w sp None))"
    using sim by (auto simp: rw_sim_def Let_def sent_def truncated_message_def all_records_def)
  have "body_at ?b {12..<?p} 12 ?p (sent w sp None) rcode"
    by (rule body_of [OF _ r']) (use q' in \<open>auto simp: sent_def truncated_message_def opt_part_at_def Let_def\<close>)
  moreover have "length (rw_counts w) = 4" using sim by (auto simp: rw_sim_def Let_def counts_of_def split: if_splits)
  ultimately show ?thesis using rw_sim_counts [OF sim small, of None] le sim by (simp add: final_at_def rw_sim_def Let_def)
qed

lemma body_at_agree:
  assumes "body_at b K p q m rcode" and "agrees K b b'" and "length b' = length b"
  shows "body_at b' K p q m rcode"
  using assms(1) queries.items_agree [OF _ assms(2) subset_refl assms(3)] records.items_agree [OF _ assms(2) subset_refl assms(3)]
    opt_part_agree [OF _ assms(2) subset_refl assms(3)]
  unfolding body_at_def by blast

lemma finish_reads:
  assumes fin: "final_at w m rcode" and rc: "wire_rcode (dm_rcode m) (dm_edns m \<noteq> None) = Inr rcode"
    and h: "write_header (header_of m) rcode (rw_counts w) (rw_out w) = (Inr x, s')" and fits: "message_fits m"
    and len: "length (buf (rw_out w)) \<le> usize_MAX"
  shows "\<exists>m'. message_try_from_bytes (take (rw_pos w) (buf s')) = Inr m' \<and> message_equiv m' m"
proof -
  let ?hb = "header_bytes (header_of m) rcode (rw_counts w)" and ?p = "rw_pos w" and ?M = "take (rw_pos w) (buf s')"
  have f: "body_at (buf (rw_out w)) {12..<?p} 12 ?p m rcode" "section_counts m = Inr (rw_counts w)" "12 \<le> ?p"
    "?p \<le> length (buf (rw_out w))"
    using fin by (auto simp: final_at_def)
  have "length (rw_counts w) = 4" using f(2) by (auto simp: section_counts_Inr Let_def)
  then have l: "length ?hb = 12" by (rule length_header_bytes)
  have b: "buf s' = ?hb @ drop 12 (buf (rw_out w))" "length (buf s') = length (buf (rw_out w))"
    using write_header_bytes [OF h] l by (auto simp: write_bytes_ok)
  have ag: "agrees {12..<?p} (buf (rw_out w)) (buf s')" using f(4) l by (auto simp: agrees_def b(1) nth_append)
  have "body_at ?M {12..<?p} 12 ?p m rcode"
    by (rule body_at_take [OF body_at_agree [OF f(1) ag b(2)]]) (use f(4) b(2) in auto)
  moreover have lM: "length ?M = ?p" using f(4) b(2) by simp
  moreover have "?M = ?hb @ seg ?M 12 (length ?M)"
    unfolding lM using seg_split [of 0 12 ?p ?M] f(3,4) l b by (simp add: seg_def)
  ultimately show ?thesis
    using message_reads [of ?M m rcode "rw_counts w" "{12..<?p}"] rc f fits len by simp
qed


lemma opt_to_write_None: "opt_to_write opt err = Inr opt' \<Longrightarrow> opt' = None \<longleftrightarrow> opt = None"
  by (auto simp: opt_to_write_def rbind_eq_Inr_conv split: option.splits)

lemma message_fits_truncated: "message_fits m \<Longrightarrow> message_fits (truncated_message m)"
  by (simp add: message_fits_def truncated_message_def)

lemma rw_finish_final:
  assumes sim: "rw_sim n w sp" and small: "rw_limit w \<le> 65535" and f: "rw_finish w = (Inr bs, w'')"
  obtains rcode opt w' x s' where "wire_rcode (dm_rcode (sp_message sp)) (dm_edns (sp_message sp) \<noteq> None) = Inr rcode"
    "opt_to_write (dm_edns (sp_message sp)) (sp_error sp) = Inr opt" "final_at w' (sent w' sp opt) rcode"
    "rw_header w' = rw_header w" "rw_limit w' = rw_limit w"
    "rw_truncated w' \<or> rw_pos w' \<le> rw_limit w \<or> opt = None \<and> all_records (sp_message sp) = []"
    "write_header ((rw_header w')\<lparr>hd_truncation := rw_truncated w'\<rparr>) rcode (rw_counts w') (rw_out w') = (Inr x, s')"
    "bs = take (rw_pos w') (buf s')"
proof -
  have sp: "rw_edns w = dm_edns (sp_message sp)" "rw_extended_error w = sp_error sp"
    "hd_rcode (rw_header w) = dm_rcode (sp_message sp)"
    using sim by (auto simp: rw_sim_def Let_def header_of_def)
  from f obtain rcode opt w' where r: "wire_rcode (dm_rcode (sp_message sp)) (dm_edns (sp_message sp) \<noteq> None) = Inr rcode"
    and o: "opt_to_write (dm_edns (sp_message sp)) (sp_error sp) = Inr opt"
    and w': "(case opt of None \<Rightarrow> slift (Inr ()) | Some e \<Rightarrow> rw_write_opt e rcode) w = (Inr (), w')"
    and h': "rw_write_header rcode w' = (Inr bs, w'')"
    unfolding rw_finish_def sp by (auto simp: sbind_eq_Inr_conv slift_def split: sum.splits)
  obtain x s' where h: "write_header ((rw_header w')\<lparr>hd_truncation := rw_truncated w'\<rparr>) rcode (rw_counts w') (rw_out w') = (Inr x, s')"
    and bs: "bs = take (rw_pos w') (buf s')"
    using h' by (cases "write_header ((rw_header w')\<lparr>hd_truncation := rw_truncated w'\<rparr>) rcode (rw_counts w') (rw_out w')")
      (auto simp: rw_write_header_def on_out_def Let_def split: sum.splits)
  have "final_at w' (sent w' sp opt) rcode \<and> rw_header w' = rw_header w \<and> rw_limit w' = rw_limit w \<and>
    (rw_truncated w' \<or> rw_pos w' \<le> rw_limit w \<or> opt = None \<and> all_records (sp_message sp) = [])"
  proof (cases opt)
    case None
    then have "w' = w" "rw_edns w = None" using w' opt_to_write_None [OF o] sp by (simp_all add: slift_def)
    with final_without_opt [OF sim small] None sim show ?thesis by (auto simp: rw_sim_def Let_def)
  next
    case (Some e)
    with rw_write_opt_final [OF sim small, of e rcode w'] w' show ?thesis by auto
  qed
  with that r o h bs show ?thesis by blast
qed

lemma write_replyE:
  assumes "write_reply s max_len request cs = Inr bs"
  obtains w0 w1 w2 where "rw_start s max_len request = Inr w0" "rw_run cs w0 = (Inr (), w1)" "rw_finish w1 = (Inr bs, w2)"
proof -
  from assms obtain w0 where w0: "rw_start s max_len request = Inr w0" "fst (sbind (rw_run cs) (\<lambda>_. rw_finish) w0) = Inr bs"
    by (auto simp: write_reply_def rbind_eq_Inr_conv)
  obtain w2 where "sbind (rw_run cs) (\<lambda>_. rw_finish) w0 = (Inr bs, w2)" using w0(2) by (metis prod.collapse)
  with w0(1) that show ?thesis by (auto simp: sbind_eq_Inr_conv)
qed

section \<open>A reply is always written\<close>

definition question_size :: "dns_message \<Rightarrow> nat" where
  "question_size m = 12 + sum_list (map (\<lambda>q. length (qname q) + 4) (dm_queries m))"

definition opt_size :: "edns option \<Rightarrow> nat" where
  "opt_size opt = (case opt of None \<Rightarrow> 0 | Some e \<Rightarrow> 11 + length (opt_rdata e))"

definition call_writable :: "rw_call \<Rightarrow> bool" where
  "call_writable c = (case c of Push sect rr \<Rightarrow> data_writable (rr_data rr) | _ \<Rightarrow> True)"

lemma fits_succeeds:
  assumes b: "bounded p n m" and f: "only_full m" and len: "p + n \<le> length (buf s)"
  obtains q s' where "m s = (Inr q, s')" "q \<le> p + n"
proof -
  obtain r s' where r: "m s = (r, s')" by fastforce
  show ?thesis
  proof (cases r)
    case (Inl e)
    then have "buffer_full e" using f r by (auto simp: only_full_def)
    with bounded_at(2) [OF b r] Inl len show ?thesis by simp
  next
    case (Inr q)
    with bounded_at(2) [OF b r] that r show ?thesis by simp
  qed
qed

lemma rw_start_succeeds:
  assumes wf: "list_all (\<lambda>q. wf_name (qname q)) (dm_queries request)" and n: "length (dm_queries request) \<le> 65535"
    and sz: "question_size request \<le> max max_len 512"
  shows "\<exists>w. rw_start s max_len request = Inr w \<and> rw_body w \<le> question_size request"
proof -
  let ?s = "\<lparr>compressor = compressor_clear (compressor s), buf = replicate (max max_len 512) (0 :: byte)\<rparr>"
  have c: "unat CLASSIC_UDP_SIZE = 512" by (simp add: CLASSIC_UDP_SIZE_def)
  have b: "bounded 12 (sum_list (map (\<lambda>q. length (qname q) + 4) (dm_queries request))) (write_each write_query (dm_queries request) 12)"
    using wf by (intro bounded_each bounded_query) (auto simp: list_all_iff)
  have f: "only_full (write_each write_query (dm_queries request) 12)"
    by (intro only_full_each) (auto simp: write_query_def intro!: only_full_sbind only_full_name only_full_bytes)
  obtain q s' where "write_each write_query (dm_queries request) 12 ?s = (Inr q, s')" "q \<le> question_size request"
    by (rule fits_succeeds [OF b f, of ?s]) (use sz in \<open>simp_all add: question_size_def\<close>)
  with n show ?thesis
    by (simp add: rw_start_def c HEADER_LEN_def section_count_def)
qed

lemma rw_do_succeeds:
  assumes "call_writable c"
  shows "\<exists>w'. rw_do c w = (Inr (), w') \<and> rw_body w' = rw_body w"
proof (cases c)
  case (Push sect rr)
  obtain r s1 where r: "write_record rr (rw_pos w) (rw_out w) = (r, s1)" by fastforce
  have "only_full (write_record rr (rw_pos w))"
    using assms Push by (auto simp: call_writable_def write_record_def intro: only_full_rr)
  then have "buffer_full e" if "r = Inl e" for e using r that by (auto simp: only_full_def)
  with Push r show ?thesis
    by (cases r) (auto simp: rw_push_def on_out_def Let_def rw_truncate_def)
qed (auto simp: set_authoritative_def set_rcode_def rw_set_edns_def set_extended_error_def)

lemma rw_run_succeeds:
  "list_all call_writable cs \<Longrightarrow> \<exists>w'. rw_run cs w = (Inr (), w') \<and> rw_body w' = rw_body w"
proof (induction cs arbitrary: w)
  case (Cons c cs)
  then obtain w1 where "rw_do c w = (Inr (), w1)" "rw_body w1 = rw_body w" using rw_do_succeeds by force
  with Cons.IH [of w1] Cons.prems show ?case by (auto simp: sbind_def)
qed (simp add: slift_def)

lemma only_full_opt: "length (opt_rdata e) \<le> 65535 \<Longrightarrow> only_full (write_opt e rcode p)"
  unfolding write_opt_def Let_def by (auto intro!: only_full_sbind only_full_bytes)

lemma rw_truncate_pos: "rw_pos (rw_truncate (w\<lparr>rw_out := s1\<rparr>)) = rw_body w"
  by (simp add: rw_truncate_def)

lemma rw_write_opt_succeeds:
  assumes sim: "rw_sim n w sp" and e: "length (opt_rdata e) \<le> 65535"
    and sz: "rw_body w + opt_size (Some e) \<le> length (buf (rw_out w))"
  shows "\<exists>w'. rw_write_opt e rcode w = (Inr (), w')"
proof -
  obtain r s1 where o: "write_opt e rcode (rw_pos w) (rw_out w) = (r, s1)" by fastforce
  have "buffer_full err" if "r = Inl err" for err
    using only_full_opt [OF e, of rcode "rw_pos w"] o that unfolding only_full_def by blast
  moreover have "\<exists>q s2. write_opt e rcode (rw_pos (rw_truncate (w\<lparr>rw_out := s1\<rparr>))) (rw_out (rw_truncate (w\<lparr>rw_out := s1\<rparr>))) = (Inr q, s2)"
  proof -
    have "length (buf s1) = length (buf (rw_out w))"
      using bounded_at(1) [OF bounded_opt o] .
    then have "rw_body w + (11 + length (opt_rdata e)) \<le> length (buf (rw_out (rw_truncate (w\<lparr>rw_out := s1\<rparr>))))"
      using sz by (simp add: rw_truncate_def opt_size_def)
    from fits_succeeds [OF bounded_opt only_full_opt [OF e] this] show ?thesis by (metis rw_truncate_pos)
  qed
  ultimately show ?thesis using o
    by (cases r) (auto simp: rw_write_opt_def on_out_def Let_def)
qed

lemma rw_finish_succeeds:
  assumes sim: "rw_sim n w sp" and small: "rw_limit w \<le> 65535"
    and rc: "is_ok (wire_rcode (dm_rcode (sp_message sp)) (dm_edns (sp_message sp) \<noteq> None))"
    and opt: "opt_to_write (dm_edns (sp_message sp)) (sp_error sp) = Inr opt"
    and e: "\<And>e. opt = Some e \<Longrightarrow> length (opt_rdata e) \<le> 65535" and sz: "rw_body w + opt_size opt \<le> max (rw_limit w) 512"
  shows "\<exists>bs w'. rw_finish w = (Inr bs, w')"
proof -
  have sp: "rw_edns w = dm_edns (sp_message sp)" "rw_extended_error w = sp_error sp"
    "hd_rcode (rw_header w) = dm_rcode (sp_message sp)" "length (buf (rw_out w)) = max (rw_limit w) 512"
    using sim by (auto simp: rw_sim_def Let_def header_of_def)
  obtain rcode where r: "wire_rcode (dm_rcode (sp_message sp)) (dm_edns (sp_message sp) \<noteq> None) = Inr rcode"
    using rc by (auto simp: is_ok_def split: sum.splits)
  obtain w' where w': "(case opt of None \<Rightarrow> slift (Inr ()) | Some e \<Rightarrow> rw_write_opt e rcode) w = (Inr (), w')"
    and fin: "final_at w' (sent w' sp opt) rcode"
  proof (cases opt)
    case None
    with final_without_opt [OF sim small] opt_to_write_None [OF opt] that sp show ?thesis by (simp add: slift_def)
  next
    case (Some x)
    with rw_write_opt_succeeds [OF sim e] sz sp obtain w' where "rw_write_opt x rcode w = (Inr (), w')" by auto
    with rw_write_opt_final [OF sim small this] that Some show ?thesis by simp
  qed
  have b: "length (rw_counts w') = 4" "12 \<le> length (buf (rw_out w'))"
    using fin by (auto simp: final_at_def section_counts_Inr Let_def)
  have "only_full (write_header h rcode (rw_counts w'))" for h
    unfolding write_header_def by (intro only_full_sbind only_full_bytes only_full_each)
  with fits_succeeds [OF bounded_header [OF b(1)], of _ rcode "rw_out w'"] b(2)
  obtain x s' where "write_header ((rw_header w')\<lparr>hd_truncation := rw_truncated w'\<rparr>) rcode (rw_counts w') (rw_out w') = (Inr x, s')"
    by (metis HEADER_LEN_def add_0)
  then have "\<exists>bs w''. rw_write_header rcode w' = (Inr bs, w'')" by (simp add: rw_write_header_def on_out_def)
  with w' r opt show ?thesis unfolding rw_finish_def sp by (auto simp: sbind_def)
qed

lemma spec_queries: "dm_queries (sp_message (fold spec_do cs x)) = dm_queries (sp_message x)"
proof (induction cs arbitrary: x)
  case (Cons c cs)
  then show ?case by (cases c) simp_all
qed simp

lemma write_reply_reads:
  assumes w: "write_reply s max_len request cs = Inr bs" and limit: "max_len \<le> 65535"
    and wf: "list_all (\<lambda>q. wf_name (qname q)) (dm_queries request)" and ord: "in_order 1 cs"
    and sp: "sp = fold spec_do cs \<lparr>sp_message = reply_to request, sp_error = None\<rparr>"
    and opt: "opt_to_write (dm_edns (sp_message sp)) (sp_error sp) = Inr opt"
    and m: "m = (sp_message sp)\<lparr>dm_edns := opt\<rparr>" and fits: "message_fits m"
  shows "\<exists>m'. message_try_from_bytes bs = Inr m' \<and>
    (message_equiv m' m \<and> (length bs \<le> max_len \<or> all_records m = [] \<and> dm_edns m = None) \<or>
     message_equiv m' (truncated_message m))"
proof -
  from w obtain w0 w1 w2 where start: "rw_start s max_len request = Inr w0" and run: "rw_run cs w0 = (Inr (), w1)"
    and fin: "rw_finish w1 = (Inr bs, w2)"
    by (rule write_replyE)
  from rw_start_sim [OF start wf limit] have s0: "rw_sim 1 w0 \<lparr>sp_message = reply_to request, sp_error = None\<rparr>"
    "rw_limit w0 = max_len" by auto
  obtain k where s1: "rw_sim k w1 sp" "rw_limit w1 = max_len"
    using rw_run_sim [OF s0(1) ord _ run] s0(2) limit sp by auto
  have small: "rw_limit w1 \<le> 65535" using s1(2) limit by simp
  obtain rcode opt' w' x s' where f: "wire_rcode (dm_rcode (sp_message sp)) (dm_edns (sp_message sp) \<noteq> None) = Inr rcode"
    "opt_to_write (dm_edns (sp_message sp)) (sp_error sp) = Inr opt'" "final_at w' (sent w' sp opt') rcode"
    "rw_header w' = rw_header w1" "rw_limit w' = rw_limit w1" "rw_truncated w' \<or> rw_pos w' \<le> rw_limit w1 \<or> opt' = None \<and> all_records (sp_message sp) = []"
    "write_header ((rw_header w')\<lparr>hd_truncation := rw_truncated w'\<rparr>) rcode (rw_counts w') (rw_out w') = (Inr x, s')"
    "bs = take (rw_pos w') (buf s')"
    by (rule rw_finish_final [OF s1(1) small fin])
  have o: "opt' = opt" using f(2) opt by simp
  have m': "sent w' sp opt = (if rw_truncated w' then truncated_message m else m)" by (simp add: sent_def m)
  have "header_of (sent w' sp opt) = (rw_header w')\<lparr>hd_truncation := rw_truncated w'\<rparr>"
    using s1(1) f(4) by (auto simp: rw_sim_def Let_def sent_def truncated_message_def header_of_def)
  then have h: "write_header (header_of (sent w' sp opt)) rcode (rw_counts w') (rw_out w') = (Inr x, s')" using f(7) by simp
  have rc: "wire_rcode (dm_rcode (sent w' sp opt)) (dm_edns (sent w' sp opt) \<noteq> None) = Inr rcode"
    using f(1) opt_to_write_None [OF opt] by (auto simp: sent_def truncated_message_def Let_def)
  have lb: "length (buf (rw_out w')) \<le> usize_MAX"
    using f(3,5) small by (auto simp: final_at_def usize_MAX_def)
  have "message_fits (sent w' sp opt)" using fits message_fits_truncated by (simp add: m')
  from finish_reads [OF f(3) [unfolded o] rc h this lb] f(8) obtain m' where
    r: "message_try_from_bytes bs = Inr m'" "message_equiv m' (sent w' sp opt)" by blast
  have "length bs \<le> rw_pos w'" by (simp add: f(8))
  then have "rw_truncated w' \<or> length bs \<le> max_len \<or> all_records m = [] \<and> dm_edns m = None"
    using f(6) s1(2) o by (auto simp: m all_records_def)
  with r m' show ?thesis by (auto split: if_splits)
qed


lemma write_reply_succeeds:
  assumes limit: "max_len \<le> 65535"
    and wf: "list_all (\<lambda>q. wf_name (qname q)) (dm_queries request)" "length (dm_queries request) \<le> 65535"
    and ord: "in_order 1 cs" "list_all call_writable cs"
    and sp: "sp = fold spec_do cs \<lparr>sp_message = reply_to request, sp_error = None\<rparr>"
    and rc: "is_ok (wire_rcode (dm_rcode (sp_message sp)) (dm_edns (sp_message sp) \<noteq> None))"
    and opt: "opt_to_write (dm_edns (sp_message sp)) (sp_error sp) = Inr opt"
    and e: "\<And>e. opt = Some e \<Longrightarrow> length (opt_rdata e) \<le> 65535"
    and sz: "question_size request + opt_size opt \<le> max max_len 512"
  shows "\<exists>bs. write_reply s max_len request cs = Inr bs"
proof -
  have "question_size request \<le> max max_len 512" using sz by simp
  from rw_start_succeeds [OF wf this, of s] obtain w0 where
    w0: "rw_start s max_len request = Inr w0" "rw_body w0 \<le> question_size request" by blast
  obtain w1 where w1: "rw_run cs w0 = (Inr (), w1)" "rw_body w1 = rw_body w0"
    using rw_run_succeeds [OF ord(2)] by blast
  from rw_start_sim [OF w0(1) wf(1) limit] have s0: "rw_sim 1 w0 \<lparr>sp_message = reply_to request, sp_error = None\<rparr>"
    "rw_limit w0 = max_len" by auto
  obtain k where s1: "rw_sim k w1 sp" "rw_limit w1 = max_len"
    using rw_run_sim [OF s0(1) ord(1) _ w1(1)] s0(2) limit sp by auto
  have "rw_limit w1 \<le> 65535" using s1(2) limit by simp
  from rw_finish_succeeds [OF s1(1) this rc opt e] sz s1(2) w1(2) w0(2)
  obtain bs w2 where "rw_finish w1 = (Inr bs, w2)" by fastforce
  with w0(1) w1(1) show ?thesis by (simp add: write_reply_def sbind_def)
qed

section \<open>Properties\<close>

text \<open>
  C5. A reply is the message its calls describe, and it is always written. For a question and an OPT
  that fit the limit or 512 octets, \<^verbatim>\<open>start\<close>, any sequence of calls in section order and \<^verbatim>\<open>finish\<close>
  succeed, and the octets read back as the request's echo with the flags, RCODE, records and OPT that
  were set, the extended error in the OPT, within the limit; or, where that does not fit, as the
  same message without records and with TC set.
\<close>

theorem write_reply_correct:
  assumes limit: "max_len \<le> 65535" and req: "length (dm_queries request) \<le> 65535"
    and ord: "in_order 1 cs" "list_all call_writable cs"
    and sp: "sp = fold spec_do cs \<lparr>sp_message = reply_to request, sp_error = None\<rparr>"
    and rc: "is_ok (wire_rcode (dm_rcode (sp_message sp)) (dm_edns (sp_message sp) \<noteq> None))"
    and opt: "opt_to_write (dm_edns (sp_message sp)) (sp_error sp) = Inr opt"
    and sz: "question_size request + opt_size opt \<le> max max_len 512"
    and m: "m = (sp_message sp)\<lparr>dm_edns := opt\<rparr>" and fits: "message_fits m"
  shows "\<exists>bs m'. write_reply s max_len request cs = Inr bs \<and> message_try_from_bytes bs = Inr m' \<and>
    (message_equiv m' m \<and> (length bs \<le> max_len \<or> all_records m = [] \<and> dm_edns m = None) \<or>
     message_equiv m' (truncated_message m))"
proof -
  have q: "dm_queries m = dm_queries request" by (simp add: m sp spec_queries reply_to_def)
  then have wf: "list_all (\<lambda>q. wf_name (qname q)) (dm_queries request)"
    using message_fits_wf [OF fits] by (simp add: message_wf_def)
  have e: "length (opt_rdata e) \<le> 65535" if "opt = Some e" for e
    using sz limit that by (simp add: opt_size_def)
  from write_reply_succeeds [OF limit wf req ord sp rc opt e sz, of s] obtain bs where
    bs: "write_reply s max_len request cs = Inr bs" by blast
  from write_reply_reads [OF bs limit wf ord(1) sp opt m fits] bs show ?thesis by blast
qed

theorem write_reply_correct_witness:
  "\<exists>bs m'. write_reply \<lparr>compressor = compressor_new, buf = []\<rparr> 512 (build 7 (with_query [1, 97, 0] 2 builder_new))
      [SetAuthoritative True, Push Answer \<lparr>rr_name = [1, 97, 0], rr_class = 1, rr_ttl = 60,
          rr_data = \<lparr>rd_type = rt_NS, rd_bytes = [1, 98, 0]\<rparr>\<rparr>] = Inr bs \<and>
    message_try_from_bytes bs = Inr m' \<and>
    (message_equiv m' (example_reply\<lparr>dm_authoritive := True\<rparr>) \<and>
       (length bs \<le> 512 \<or> all_records (example_reply\<lparr>dm_authoritive := True\<rparr>) = [] \<and>
          dm_edns (example_reply\<lparr>dm_authoritive := True\<rparr>) = None) \<or>
     message_equiv m' (truncated_message (example_reply\<lparr>dm_authoritive := True\<rparr>)))"
proof (rule write_reply_correct [OF _ _ _ _ refl, where opt = None])
  have f: "message_fits (example_reply\<lparr>dm_authoritive := True\<rparr>)" 
    using example_reply_ok(1) by (simp add: message_fits_def)
  show "message_fits (example_reply\<lparr>dm_authoritive := True\<rparr>)" by (rule f)
  have "data_writable (rr_data (hd (dm_answers example_reply)))"
    using example_reply_ok(2) by (simp add: message_writable_def example_reply_def)
  then show "list_all call_writable [SetAuthoritative True, Push Answer \<lparr>rr_name = [1, 97, 0], rr_class = 1, rr_ttl = 60,
          rr_data = \<lparr>rd_type = rt_NS, rd_bytes = [1, 98, 0]\<rparr>\<rparr>]"
    by (simp add: call_writable_def example_reply_def)
qed (simp_all add: wf_example reply_to_def build_def with_query_def builder_new_def is_ok_def wire_rcode_def
    opt_to_write_def question_size_def opt_size_def example_reply_def)

end
