(* ===== verification/Padding.thy ===== *)
theory Padding
  imports Response
begin

text \<open>
  The end of \<^verbatim>\<open>rdns-core/src/response.rs\<close>: what a request's OPT asks for, the OPT a reply mirrors
  back, and the two functions that change a finished message in place by adding an option to
  an OPT that is its last record.
\<close>

section \<open>The code\<close>

datatype client_edns = EdnsAbsent | EdnsPresent (ce_do: bool) (ce_padding: bool) (ce_nsid: bool)

record server_opt =
  so_payload_size :: u16
  so_nsid :: "bytes option"

definition client_edns_of :: "dns_message \<Rightarrow> response_code + client_edns" where
  "client_edns_of request =
     (case message_edns_header request of
        Inl _ \<Rightarrow> Inl FormatError
      | Inr None \<Rightarrow> Inr EdnsAbsent
      | Inr (Some e) \<Rightarrow>
          if eh_version e > EDNS_VERSION then Inl BadOptVersion
          else Inr (EdnsPresent (eh_do_bit e)
            (case dm_edns request of None \<Rightarrow> False | Some opt \<Rightarrow> has_option opt EDNS_OPTION_PADDING = Inr True)
            (case dm_edns request of None \<Rightarrow> False | Some opt \<Rightarrow> has_option opt EDNS_OPTION_NSID = Inr True)))"

definition client_edns_total :: "dns_message \<Rightarrow> client_edns" where
  "client_edns_total request =
     (case client_edns_of request of Inr c \<Rightarrow> c | Inl _ \<Rightarrow> EdnsPresent False False False)"

fun is_present :: "client_edns \<Rightarrow> bool" where
  "is_present EdnsAbsent = False"
| "is_present (EdnsPresent _ _ _) = True"

fun asks_do :: "client_edns \<Rightarrow> bool" where
  "asks_do EdnsAbsent = False"
| "asks_do (EdnsPresent d _ _) = d"

fun asks_padding :: "client_edns \<Rightarrow> bool" where
  "asks_padding EdnsAbsent = False"
| "asks_padding (EdnsPresent _ p _) = p"

fun asks_nsid :: "client_edns \<Rightarrow> bool" where
  "asks_nsid EdnsAbsent = False"
| "asks_nsid (EdnsPresent _ _ n) = n"

definition mirror :: "client_edns \<Rightarrow> server_opt \<Rightarrow> edns option" where
  "mirror c server =
     (if is_present c then
        let bare = with_payload_size (so_payload_size server);
            e = (case (if asks_nsid c then so_nsid server else None) of
                   Some nsid \<Rightarrow>
                     (case with_options (so_payload_size server) EDNS_VERSION False
                             [\<lparr>opt_code = EDNS_OPTION_NSID, opt_data = nsid\<rparr>] of
                        Inr e \<Rightarrow> e
                      | Inl _ \<Rightarrow> bare)
                 | None \<Rightarrow> bare) in
        Some (e\<lparr>do_bit := asks_do c\<rparr>)
      else None)"

definition mirror_with :: "client_edns \<Rightarrow> server_opt \<Rightarrow> extended_error option \<Rightarrow> edns option" where
  "mirror_with c server err =
     (case mirror c server of
        None \<Rightarrow> None
      | Some mirrored \<Rightarrow>
          (case err of
             None \<Rightarrow> Some mirrored
           | Some x \<Rightarrow>
               (case with_extended_error mirrored x of
                  Inr annotated \<Rightarrow> Some annotated
                | Inl _ \<Rightarrow> mirror c server)))"

subsection \<open>In place\<close>

definition PADDING_BLOCK :: nat where "PADDING_BLOCK = 468"

function skip_name :: "bytes \<Rightarrow> nat \<Rightarrow> nat option" where
  "skip_name msg pos =
     (if pos < length msg then
        (let len = msg ! pos in
         if len = 0 then Some (pos + 1)
         else if len AND 0xc0 = 0xc0 then (if pos + 2 \<le> length msg then Some (pos + 2) else None)
         else if len AND 0xc0 = 0 then skip_name msg (pos + 1 + unat len)
         else None)
      else None)"
  by pat_completeness auto
termination
  by (relation "measure (\<lambda>(msg, pos). length msg - pos)") auto

declare skip_name.simps [simp del]

text \<open>The two loops of \<^verbatim>\<open>last_record_is_opt\<close>: over the questions, and over the records.\<close>

fun skip_questions :: "bytes \<Rightarrow> nat \<Rightarrow> nat \<Rightarrow> nat option" where
  "skip_questions msg 0 pos = Some pos"
| "skip_questions msg (Suc n) pos =
     (case skip_name msg pos of None \<Rightarrow> None | Some p \<Rightarrow> skip_questions msg n (p + 4))"

fun skip_records :: "bytes \<Rightarrow> nat \<Rightarrow> nat \<Rightarrow> (nat \<times> u16 \<times> nat) option \<Rightarrow> (nat \<times> (nat \<times> u16 \<times> nat) option) option" where
  "skip_records msg 0 pos final = Some (pos, final)"
| "skip_records msg (Suc n) pos final =
     (case skip_name msg pos of
        None \<Rightarrow> None
      | Some p \<Rightarrow>
          if p + 10 \<le> length msg then
            let rtype = from_be16 (msg ! p) (msg ! (p + 1));
                rdlen = unat (from_be16 (msg ! (p + 8)) (msg ! (p + 9))) in
            skip_records msg n (p + (10 + rdlen)) (Some (pos, rtype, p + 8))
          else None)"

definition count_at :: "bytes \<Rightarrow> nat \<Rightarrow> nat" where
  "count_at msg i = unat (from_be16 (msg ! i) (msg ! (i + 1)))"

definition last_record_is_opt :: "bytes \<Rightarrow> nat option" where
  "last_record_is_opt msg =
     (if length msg < HEADER_LEN then None
      else if count_at msg 10 = 0 then None
      else case skip_questions msg (count_at msg 4) HEADER_LEN of
          None \<Rightarrow> None
        | Some pos \<Rightarrow>
            (case skip_records msg (count_at msg 6 + count_at msg 8 + count_at msg 10) pos None of
               None \<Rightarrow> None
             | Some (_, None) \<Rightarrow> None
             | Some (pos, Some (start, rtype, rdlen)) \<Rightarrow>
                 if pos = length msg \<and> rtype = OPT_RECORD_TYPE \<and> start < length msg \<and> msg ! start = 0
                 then Some rdlen else None))"

definition put16 :: "bytes \<Rightarrow> nat \<Rightarrow> u16 \<Rightarrow> bytes" where
  "put16 msg i v = take i msg @ be16 v @ drop (i + 2) msg"

definition div_ceil :: "nat \<Rightarrow> nat \<Rightarrow> nat" where
  "div_ceil a b = (a + b - 1) div b"

definition pad_reply :: "bytes \<Rightarrow> nat \<Rightarrow> nat \<Rightarrow> bool \<times> bytes" where
  "pad_reply reply payload frame =
     (case last_record_is_opt reply of
        None \<Rightarrow> (False, reply)
      | Some at \<Rightarrow>
          let len = length reply;
              limit = (if len \<le> payload then payload else frame);
              target = min (div_ceil (len + 4) PADDING_BLOCK * PADDING_BLOCK) limit in
          if target < len + 4 then (False, reply)
          else
            let pad = target - len - 4; rdlen = count_at reply at in
            if rdlen + 4 + pad > 65535 then (False, reply)
            else if pad > 65535 then (False, reply)
            else (True, put16 reply at (of_nat (rdlen + 4 + pad)) @ be16 EDNS_OPTION_PADDING @
                    be16 (of_nat pad) @ replicate pad 0))"

definition append_option :: "bytes \<Rightarrow> u16 \<Rightarrow> bytes \<Rightarrow> bool \<times> bytes" where
  "append_option msg c data =
     (case last_record_is_opt msg of
        None \<Rightarrow> (False, msg)
      | Some at \<Rightarrow>
          let rdlen = count_at msg at in
          if rdlen + 4 + length data > 65535 \<or> length data > 65535 then (False, msg)
          else (True, put16 msg at (of_nat (rdlen + 4 + length data)) @ be16 c @
                  be16 (of_nat (length data)) @ data))"

section \<open>What a reply's OPT carries\<close>

definition mirrored_options :: "client_edns \<Rightarrow> server_opt \<Rightarrow> extended_error option \<Rightarrow> edns_option list" where
  "mirrored_options c server err =
     (case (if asks_nsid c then so_nsid server else None) of
        None \<Rightarrow> [] | Some n \<Rightarrow> [\<lparr>opt_code = EDNS_OPTION_NSID, opt_data = n\<rparr>]) @
     (case err of None \<Rightarrow> [] | Some x \<Rightarrow> [to_option x])"

lemma mirror_options:
  assumes "\<And>n. so_nsid server = Some n \<Longrightarrow> length n \<le> 65535" and "is_present c"
  shows "\<exists>e. mirror c server = Some e \<and> edns_options e = Inr (mirrored_options c server None) \<and>
    edns_header_of e = \<lparr>eh_udp_payload_size = so_payload_size server, eh_version = 0, eh_do_bit = asks_do c\<rparr>"
proof (cases "if asks_nsid c then so_nsid server else None")
  case None
  with assms(2) show ?thesis
    by (simp add: mirror_def mirrored_options_def edns_options_def with_payload_size_def edns_header_of_def EDNS_VERSION_def Let_def)
next
  case (Some n)
  then have "length n \<le> 65535" using assms(1) by (simp split: if_splits)
  then have "with_options (so_payload_size server) EDNS_VERSION False [\<lparr>opt_code = EDNS_OPTION_NSID, opt_data = n\<rparr>] =
      Inr \<lparr>udp_payload_size = so_payload_size server, version = 0, do_bit = False,
           opt_rdata = be16 EDNS_OPTION_NSID @ be16 (of_nat (length n)) @ n\<rparr>"
    by (simp add: with_options_def append_to_def EDNS_VERSION_def)
  moreover have "walk_options (be16 EDNS_OPTION_NSID @ be16 (of_nat (length n)) @ n) =
      Inr [\<lparr>opt_code = EDNS_OPTION_NSID, opt_data = n\<rparr>]"
    using walk_options_one [of "\<lparr>opt_code = EDNS_OPTION_NSID, opt_data = n\<rparr>" "[]"] \<open>length n \<le> 65535\<close> by simp
  ultimately show ?thesis
    using Some assms(2) by (simp add: mirror_def mirrored_options_def edns_options_def edns_header_of_def)
qed

text \<open>
  A reply's OPT is the server's own. It is there exactly when the request had one, it carries the
  server's payload size, version 0 and the client's DO, and its options are the server's NSID, if
  the client asked for it and one is configured, and the extended error, if there is one: no
  option of the client's comes back.
\<close>

theorem mirror_with_options:
  assumes "\<forall>n. so_nsid server = Some n \<longrightarrow> length n \<le> 65535"
    and "\<forall>x. err = Some x \<longrightarrow> extended_error_new (info_code x) (extra_text x) = Some x"
  shows "(is_present c \<longrightarrow> (\<exists>e. mirror_with c server err = Some e \<and>
      edns_options e = Inr (mirrored_options c server err) \<and>
      edns_header_of e = \<lparr>eh_udp_payload_size = so_payload_size server, eh_version = 0, eh_do_bit = asks_do c\<rparr>)) \<and>
    (\<not> is_present c \<longrightarrow> mirror_with c server err = None)"
proof (intro conjI impI)
  assume "is_present c"
  from mirror_options [OF _ this, of server] assms(1) obtain e where e: "mirror c server = Some e"
    "edns_options e = Inr (mirrored_options c server None)"
    "edns_header_of e = \<lparr>eh_udp_payload_size = so_payload_size server, eh_version = 0, eh_do_bit = asks_do c\<rparr>" by blast
  show "\<exists>e. mirror_with c server err = Some e \<and> edns_options e = Inr (mirrored_options c server err) \<and>
      edns_header_of e = \<lparr>eh_udp_payload_size = so_payload_size server, eh_version = 0, eh_do_bit = asks_do c\<rparr>"
  proof (cases err)
    case None
    with e show ?thesis by (simp add: mirror_with_def)
  next
    case (Some x)
    with with_extended_error_appends [OF e(2), of "info_code x" "extra_text x" x] assms(2) e show ?thesis
      by (auto simp: mirror_with_def mirrored_options_def to_option_def EDNS_OPTION_EXTENDED_ERROR_def)
  qed
qed (simp add: mirror_with_def mirror_def)

theorem mirror_with_options_witness:
  "\<exists>e. mirror_with (EdnsPresent True False True) \<lparr>so_payload_size = 1232, so_nsid = Some [9]\<rparr>
      (Some \<lparr>info_code = 7, extra_text = []\<rparr>) = Some e \<and>
    edns_options e = Inr [\<lparr>opt_code = 3, opt_data = [9]\<rparr>, \<lparr>opt_code = 15, opt_data = [0, 7]\<rparr>]"
  using mirror_with_options [of "\<lparr>so_payload_size = 1232, so_nsid = Some [9]\<rparr>" "Some \<lparr>info_code = 7, extra_text = []\<rparr>"
    "EdnsPresent True False True"]
  by (auto simp: extended_error_new_def mirrored_options_def to_option_def EDNS_OPTION_NSID_def
      EDNS_OPTION_EXTENDED_ERROR_def be16_def)

section \<open>The walk over a message\<close>

lemma bit_c0: "bit (0xc0 :: byte) n \<longleftrightarrow> n = 6 \<or> n = 7"
proof -
  have "(0xc0 :: byte) = push_bit 6 (mask 2)" by (simp add: mask_eq_exp_minus_1)
  moreover have "bit (push_bit 6 (mask 2) :: byte) n \<longleftrightarrow> n = 6 \<or> n = 7" by (auto simp: bit_simps)
  ultimately show ?thesis by simp
qed

lemma byte_c0: "(b :: byte) AND 0xc0 = 0xc0 \<longleftrightarrow> 192 \<le> unat b" "(b :: byte) AND 0xc0 = 0 \<longleftrightarrow> unat b < 64"
proof -
  have d: "drop_bit 6 (b AND 0xc0) = drop_bit 6 b"
  proof (rule bit_eqI)
    fix n
    show "bit (drop_bit 6 (b AND 0xc0)) n = bit (drop_bit 6 b) n"
      using bit_imp_le_length [of b "6 + n"] unfolding bit_drop_bit_eq comp_apply bit_and_iff bit_c0 by auto
  qed
  have e: "b AND 0xc0 = c \<longleftrightarrow> drop_bit 6 b = drop_bit 6 c" if "\<And>n. bit c n \<Longrightarrow> n = 6 \<or> n = 7" for c
  proof
    assume "drop_bit 6 b = drop_bit 6 c"
    then have *: "bit b (6 + k) \<longleftrightarrow> bit c (6 + k)" for k by (metis bit_drop_bit_eq comp_apply)
    show "b AND 0xc0 = c"
    proof (rule bit_eqI)
      fix n
      show "bit (b AND 0xc0) n \<longleftrightarrow> bit c n" unfolding bit_and_iff bit_c0 using * [of 0] * [of 1] that [of n] by auto
    qed
  qed (use d in auto)
  have "b AND 0xc0 = 0xc0 \<longleftrightarrow> drop_bit 6 b = drop_bit 6 0xc0" by (rule e) (simp only: bit_c0)
  then show "b AND 0xc0 = 0xc0 \<longleftrightarrow> 192 \<le> unat b" by (simp add: byte_kind_conv)
  show "b AND 0xc0 = 0 \<longleftrightarrow> unat b < 64" using e [of 0] by (simp add: byte_kind_conv)
qed

lemma drop_Cons: "drop p xs = x # rest \<Longrightarrow> p < length xs \<and> xs ! p = x \<and> drop (p + 1) xs = rest"
  by (metis Suc_eq_plus1 drop_Suc list.sel(3) list.sel(1) hd_drop_conv_nth tl_drop drop_all list.distinct(1) not_le)

lemma drop_after: "drop p xs = ys @ rest \<Longrightarrow> drop (p + length ys) xs = rest"
  by (metis add.commute append_eq_conv_conj drop_drop)

lemma skip_name_zero: "drop p msg = 0 # rest \<Longrightarrow> skip_name msg p = Some (p + 1)"
  using drop_Cons [of p msg 0 rest] by (subst skip_name.simps) simp

lemma skip_name_pointer: "drop p msg = hi # lo # rest \<Longrightarrow> 192 \<le> unat hi \<Longrightarrow> skip_name msg p = Some (p + 2)"
  using drop_Cons [of p msg hi "lo # rest"] drop_Cons [of "p + 1" msg lo rest]
  by (subst skip_name.simps) (auto simp: byte_c0 Let_def)

lemma skip_name_labels:
  "labels_ok ls \<Longrightarrow> drop p msg = wire_labels ls @ rest \<Longrightarrow>
   skip_name msg p = skip_name msg (p + length (wire_labels ls))"
proof (induction ls arbitrary: p)
  case (Cons l ls)
  then have d: "drop p msg = of_nat (length l) # l @ wire_labels ls @ rest" by simp
  have l: "1 \<le> length l" "length l \<le> 63" using Cons.prems(1) by (auto simp: label_ok_def)
  have "drop (p + 1 + length l) msg = wire_labels ls @ rest"
    by (rule drop_after) (use drop_Cons [OF d] in simp)
  with Cons.IH [of "p + 1 + length l"] Cons.prems(1)
  have "skip_name msg (p + 1 + length l) = skip_name msg (p + length (wire_labels (l # ls)))"
    by (simp add: add.assoc)
  moreover have "skip_name msg p = skip_name msg (p + 1 + length l)"
  proof -
    have "unat (of_nat (length l) :: byte) = length l" using l by (simp add: unat_of_nat_byte)
    moreover from this have "(of_nat (length l) :: byte) \<noteq> 0" using l by (metis not_one_le_zero unat_0)
    ultimately show ?thesis
      using drop_Cons [OF d] l by (subst skip_name.simps) (simp add: byte_c0 Let_def)
  qed
  ultimately show ?case by simp
qed simp

lemma skip_name_at:
  assumes "name_at b K p q ls"
  shows "skip_name b p = Some q"
proof -
  from assms obtain ks h where "spells b K p ks h q" by (auto simp: name_at_def)
  then show ?thesis
  proof cases
    case literal
    then have "drop p b = wire_labels ks @ 0 # drop q b"
      using drop_seg [of p q b] by (simp add: wire_of_def)
    with skip_name_labels [OF literal(2) this] skip_name_zero [OF drop_after [OF this]] literal
    show ?thesis by (simp add: wire_of_def)
  next
    case (pointer ls hi lo)
    then have d: "drop p b = wire_labels ls @ hi # lo # drop q b"
      using drop_seg [of p q b] by simp
    with skip_name_labels [OF _ this] skip_name_pointer [OF drop_after [OF this]] pointer
    show ?thesis by simp
  qed
qed

lemma skip_questions_at: "queries.items_at b K p q qs \<Longrightarrow> skip_questions b (length qs) p = Some q"
  by (induction qs arbitrary: p) (auto simp: query_at_def holds_def skip_name_at)

lemma holds_count:
  assumes "holds b K e a (xs @ be16 v @ ys)"
  shows "from_be16 (b ! (e + length xs)) (b ! (e + length xs + 1)) = v"
proof -
  have s: "seg b e a = xs @ be16 v @ ys" "a \<le> length b" "a = e + length (xs @ be16 v @ ys)" using assms by (auto simp: holds_def)
  have n: "seg b e a ! i = b ! (e + i)" if "e + i < a" for i using that s(2) by (simp add: seg_def)
  have "b ! (e + length xs) = be16 v ! 0" "b ! (e + length xs + 1) = be16 v ! 1"
    using n [of "length xs"] n [of "length xs + 1"] s by (simp_all add: nth_append)
  then show ?thesis by (simp add: be16_def from_be16_be16)
qed

lemma skip_record_at:
  assumes "rr_at b K p q rr"
  shows "\<exists>f'. skip_records b (Suc n) p f = skip_records b n q f'"
proof -
  from assms obtain e a where a: "name_at b K p e (name_labels (rr_name rr))"
    "holds b K e a (be16 (rd_type (rr_data rr)) @ be16 (rr_class rr) @ be32 (ttl_to_wire (rr_ttl rr)) @ be16 (of_nat (q - a)))"
    "a \<le> q" "q - a \<le> 65535"
    by (auto simp: rr_at_def)
  have l: "a = e + 10" "a \<le> length b" using a(2) by (auto simp: holds_def)
  have "unat (from_be16 (b ! (e + 8)) (b ! (e + 9))) = q - a"
    using holds_count [of b K e a "be16 (rd_type (rr_data rr)) @ be16 (rr_class rr) @ be32 (ttl_to_wire (rr_ttl rr))" "of_nat (q - a)" "[]"] a(2,4)
    by (simp add: unat_of_nat_u16 add.commute del: of_nat_diff)
  with l a(3) skip_name_at [OF a(1)] show ?thesis by (auto simp: Let_def)
qed

lemma skip_records_at:
  "records.items_at b K p q xs \<Longrightarrow> \<exists>f'. skip_records b (length xs + n) p f = skip_records b n q f'"
proof (induction xs arbitrary: p f)
  case (Cons x xs)
  then obtain e where "rr_at b K p e x" "records.items_at b K e q xs" by auto
  with skip_record_at [of b K p e x "length xs + n" f] Cons.IH [of e] show ?case by fastforce
qed auto

lemma skip_opt_at:
  assumes "opt_at b K p q e rcode"
  shows "skip_records b 1 p f = Some (q, Some (p, OPT_RECORD_TYPE, p + 9))" "b ! p = 0" "p < length b"
    "q = p + 11 + length (opt_rdata e)" "count_at b (p + 9) = length (opt_rdata e)"
proof -
  let ?n = "length (opt_rdata e)"
  have h: "holds b K p q (0 # be16 OPT_RECORD_TYPE @ be16 (udp_payload_size e) @ be32 (opt_flags e rcode) @
      be16 (of_nat ?n) @ opt_rdata e)" "?n \<le> 65535"
    using assms by (auto simp: opt_at_def)
  then show q: "q = p + 11 + ?n" by (simp add: holds_def)
  have d: "drop p b = 0 # be16 OPT_RECORD_TYPE @ be16 (udp_payload_size e) @ be32 (opt_flags e rcode) @
      be16 (of_nat ?n) @ opt_rdata e @ drop q b" "q \<le> length b"
    using h(1) drop_seg [of p q b] by (auto simp: holds_def)
  show p: "b ! p = 0" "p < length b" using drop_Cons [OF d(1)] by auto
  have t: "from_be16 (b ! (p + 1)) (b ! (p + 2)) = OPT_RECORD_TYPE"
    using holds_count [of b K p q "[0]" OPT_RECORD_TYPE] h(1) by simp
  have c: "from_be16 (b ! (p + 9)) (b ! (p + 10)) = of_nat ?n"
    using holds_count [of b K p q "0 # be16 OPT_RECORD_TYPE @ be16 (udp_payload_size e) @ be32 (opt_flags e rcode)"
        "of_nat ?n" "opt_rdata e"] h(1) by (simp add: add.commute)
  then show "count_at b (p + 9) = ?n" using h(2) by (simp add: count_at_def unat_of_nat_u16 add.commute)
  show "skip_records b 1 p f = Some (q, Some (p, OPT_RECORD_TYPE, p + 9))"
    using skip_name_zero [OF d(1)] t c d(2) q h(2) by (simp add: Let_def unat_of_nat_u16 add.commute)
qed

section \<open>An option more\<close>

lemma sbind_assoc: "sbind (sbind m f) g = sbind m (\<lambda>x. sbind (f x) g)"
  by (auto simp: sbind_def fun_eq_iff split: prod.splits sum.splits)

lemma take_exact: "k = length xs \<Longrightarrow> take k (xs @ ys) = xs"
  by simp

text \<open>The OPT is written last, and what comes before it does not depend on it.\<close>

lemma to_bytes_with_opt:
  assumes w: "to_bytes_with m s = (Inr n, s')" and o: "dm_edns m = Some e"
    and rc: "wire_rcode (dm_rcode m) (dm_edns m \<noteq> None) = Inr rcode"
  obtains r s1 where "\<And>e'. to_bytes_with (m\<lparr>dm_edns := Some e'\<rparr>) s = write_opt e' rcode r s1"
proof -
  let ?s0 = "s\<lparr>compressor := compressor_clear (compressor s)\<rparr>" and ?m0 = "m\<lparr>dm_edns := None\<rparr>"
  have body: "write_body (m\<lparr>dm_edns := Some e'\<rparr>) rcode p = sbind (write_body ?m0 rcode p) (write_opt e' rcode)" for e' p
    by (simp add: write_body_def sbind_assoc) (simp add: sbind_def slift_def)
  from w rc obtain counts pos sh where c: "section_counts m = Inr counts"
    and h: "write_header (header_of m) rcode counts ?s0 = (Inr pos, sh)" and b: "write_body m rcode pos sh = (Inr n, s')"
    by (auto simp: to_bytes_with_def sbind_eq_Inr_conv slift_def split: sum.splits)
  moreover have "m\<lparr>dm_edns := Some e\<rparr> = m" using o by (cases m) simp
  ultimately obtain r s1 where b0: "write_body ?m0 rcode pos sh = (Inr r, s1)"
    using body [of e pos] by (auto simp: sbind_eq_Inr_conv)
  have same: "section_counts (m\<lparr>dm_edns := Some e'\<rparr>) = section_counts m" "header_of (m\<lparr>dm_edns := Some e'\<rparr>) = header_of m"
    "wire_rcode (dm_rcode m) True = Inr rcode" for e'
    using o rc by (simp_all add: section_counts_def header_of_def)
  have "to_bytes_with (m\<lparr>dm_edns := Some e'\<rparr>) s = write_opt e' rcode r s1" for e'
    by (simp add: to_bytes_with_def same c h body b0 sbind_def)
  then show ?thesis by (rule that)
qed

lemma last_record_written:
  assumes w: "to_bytes_with m s = (Inr n, s')" and o: "dm_edns m = Some e" and wf: "message_wf m"
    and small: "length (buf s) \<le> 2 ^ 24"
  shows "11 + length (opt_rdata e) \<le> n" "n \<le> length (buf s')" "length (opt_rdata e) \<le> 65535"
    "last_record_is_opt (take n (buf s')) = Some (n - length (opt_rdata e) - 2)"
    "count_at (take n (buf s')) (n - length (opt_rdata e) - 2) = length (opt_rdata e)"
proof -
  let ?b = "take n (buf s')"
  obtain rcode counts K where a: "section_counts m = Inr counts" "12 \<le> n" "n \<le> length (buf s')"
    "?b = header_bytes (header_of m) rcode counts @ seg (buf s') 12 n" "body_at ?b K 12 n m rcode"
    by (rule to_bytes_with_at [OF w wf small])
  from a(5) obtain a1 a2 a3 a4 where b: "queries.items_at ?b K 12 a1 (dm_queries m)"
    "records.items_at ?b K a1 a2 (dm_answers m)" "records.items_at ?b K a2 a3 (dm_authorities m)"
    "records.items_at ?b K a3 a4 (dm_additionals m)" "opt_at ?b K a4 n e rcode"
    using o by (auto simp: body_at_def opt_part_at_def)
  note opt = skip_opt_at [OF b(5)]
  show "11 + length (opt_rdata e) \<le> n" "n \<le> length (buf s')" using opt(4) a(3) by auto
  show "length (opt_rdata e) \<le> 65535" using b(5) by (simp add: opt_at_def)
  have at: "n - length (opt_rdata e) - 2 = a4 + 9" using opt(4) by simp
  show "count_at ?b (n - length (opt_rdata e) - 2) = length (opt_rdata e)" unfolding at by (rule opt(5))
  have cs: "length (dm_queries m) \<le> 65535" "length (dm_answers m) \<le> 65535" "length (dm_authorities m) \<le> 65535"
    "length (dm_additionals m) + 1 \<le> 65535"
    "counts = [of_nat (length (dm_queries m)), of_nat (length (dm_answers m)),
       of_nat (length (dm_authorities m)), of_nat (length (dm_additionals m) + 1)]"
    using a(1) o by (auto simp: section_counts_Inr Let_def)
  have c: "count_at ?b 4 = length (dm_queries m)" "count_at ?b 6 = length (dm_answers m)"
    "count_at ?b 8 = length (dm_authorities m)" "count_at ?b 10 = length (dm_additionals m) + 1"
    using cs(1-3) unat_of_nat_u16 [OF cs(4)] unfolding count_at_def a(4) cs(5)
    by (simp_all add: header_bytes_def be16_def nth_append from_be16_be16 unat_of_nat_u16)
  obtain f where "skip_records ?b (length (dm_answers m) + (length (dm_authorities m) + (length (dm_additionals m) + 1))) a1 None =
      skip_records ?b 1 a4 f"
    using skip_records_at [OF b(2), of "length (dm_authorities m) + (length (dm_additionals m) + 1)" None]
      skip_records_at [OF b(3), of "length (dm_additionals m) + 1"] skip_records_at [OF b(4), of 1] by metis
  with opt(1) have r: "skip_records ?b (length (dm_answers m) + length (dm_authorities m) + (length (dm_additionals m) + 1)) a1 None =
      Some (n, Some (a4, OPT_RECORD_TYPE, a4 + 9))" by (metis add.assoc)
  show "last_record_is_opt ?b = Some (n - length (opt_rdata e) - 2)"
    unfolding last_record_is_opt_def c at HEADER_LEN_def skip_questions_at [OF b(1)] option.case r
    using opt(2,3) a(2,3) by simp
qed

lemma append_option_written:
  assumes w: "to_bytes_with m s = (Inr n, s')" and o: "dm_edns m = Some e" and wf: "message_wf m"
    and small: "length (buf s) \<le> 2 ^ 24"
    and e': "e' = e\<lparr>opt_rdata := opt_rdata e @ be16 c @ be16 (of_nat (length data)) @ data\<rparr>"
    and fit: "length (opt_rdata e') \<le> 65535" and room: "n + 4 + length data \<le> length (buf s)"
  shows "\<exists>s''. to_bytes_with (m\<lparr>dm_edns := Some e'\<rparr>) s = (Inr (n + 4 + length data), s'') \<and>
    append_option (take n (buf s')) c data = (True, take (n + 4 + length data) (buf s''))"
proof -
  let ?n = "length (opt_rdata e)"
  note l = last_record_written [OF w o wf small]
  have me: "m\<lparr>dm_edns := Some e\<rparr> = m" using o by (cases m) simp
  obtain rcode where rc: "wire_rcode (dm_rcode m) (dm_edns m \<noteq> None) = Inr rcode"
    by (rule to_bytes_with_at [OF w wf small])
  obtain r s1 where opt: "to_bytes_with (m\<lparr>dm_edns := Some e'\<rparr>) s = write_opt e' rcode r s1" for e'
    using to_bytes_with_opt [OF w o rc] by metis
  let ?h = "[0] @ be16 OPT_RECORD_TYPE @ be16 (udp_payload_size e) @ be32 (opt_flags e rcode)"
  have "write_opt e rcode r s1 = (Inr n, s')" using opt [of e] w me by simp
  from write_opt_bytes [OF this] have b: "n = r + 11 + ?n" "n \<le> length (buf s1)"
    "buf s' = take r (buf s1) @ ?h @ be16 (of_nat ?n) @ opt_rdata e @ drop n (buf s1)"
    by (auto simp: write_bytes_ok)
  have len1: "length (buf s1) = length (buf s)"
  proof -
    have "length (buf s') = length (buf s)" by (rule to_bytes_with_at [OF w wf small])
    moreover have "length (buf s') = length (buf s1)" using arg_cong [OF b(3), of length] b(1,2) by simp
    ultimately show ?thesis by simp
  qed
  have l': "r + (11 + length (opt_rdata e')) = n + 4 + length data" using b(1) by (simp add: e')
  have "r + (11 + length (opt_rdata e')) \<le> length (buf s1)" using l' room len1 by simp
  from fits_succeeds [OF bounded_opt only_full_opt [OF fit] this] obtain q s'' where
    w'': "write_opt e' rcode r s1 = (Inr q, s'')" by metis
  have same: "udp_payload_size e' = udp_payload_size e" "opt_flags e' rcode = opt_flags e rcode" by (simp_all add: e' opt_flags_def)
  have q: "q = r + (11 + length (opt_rdata e'))"
    "buf s'' = take r (buf s1) @ ?h @ be16 (of_nat (length (opt_rdata e'))) @ opt_rdata e' @ drop q (buf s1)"
    using write_opt_bytes [OF w''] by (auto simp: write_bytes_ok same)
  note w' = w'' [unfolded q(1) l'] q(2) [unfolded q(1) l']
  have at: "n - ?n - 2 = r + 9" using b(1) by simp
  have fl: "rdlen + 4 + length data = length (opt_rdata e')" if "rdlen = ?n" for rdlen using that by (simp add: e')
  have rl: "r \<le> length (buf s1)" using b by simp
  have tk: "take n (buf s') = take r (buf s1) @ ?h @ be16 (of_nat ?n) @ opt_rdata e"
    "take (n + 4 + length data) (buf s'') = take r (buf s1) @ ?h @ be16 (of_nat (length (opt_rdata e'))) @ opt_rdata e'"
    using b(1) rl l' unfolding b(3) w'(2)
    by (simp_all only: append_assoc [symmetric]) (simp_all add: take_exact del: append_assoc)
  have p: "put16 (take n (buf s')) (r + 9) v = take r (buf s1) @ ?h @ be16 v @ opt_rdata e" for v
    unfolding put16_def tk(1) using rl by simp
  have "append_option (take n (buf s')) c data = (True, take (n + 4 + length data) (buf s''))"
    using fit unfolding append_option_def l(4) option.case l(5) Let_def fl [OF refl] unfolding at p tk(2) by (simp add: e')
  with opt [of e'] w'(1) show ?thesis by simp
qed

lemma append_option_full:
  assumes w: "to_bytes_with m s = (Inr n, s')" and o: "dm_edns m = Some e" and wf: "message_wf m"
    and small: "length (buf s) \<le> 2 ^ 24" and full: "length (opt_rdata e) + 4 + length data > 65535"
  shows "append_option (take n (buf s')) c data = (False, take n (buf s'))"
  using last_record_written [OF w o wf small] full by (simp add: append_option_def)

text \<open>Padding is one more option: the same walk, the same length field, zeros for its data.\<close>

definition padding_of :: "nat \<Rightarrow> nat \<Rightarrow> nat \<Rightarrow> nat" where
  "padding_of len payload frame =
     min (div_ceil (len + 4) PADDING_BLOCK * PADDING_BLOCK) (if len \<le> payload then payload else frame) - len - 4"

lemma div_ceil_bounds:
  assumes "0 < b"
  shows "x \<le> div_ceil x b * b" and "div_ceil x b * b < x + b"
proof -
  have "div_ceil x b * b + (x + b - 1) mod b = x + b - 1" by (simp add: div_ceil_def)
  moreover have "(x + b - 1) mod b \<le> b - 1" using assms mod_less_divisor [of b "x + b - 1"] by linarith
  ultimately show "x \<le> div_ceil x b * b" "div_ceil x b * b < x + b" using assms by linarith+
qed

lemma pad_reply_append:
  assumes "len + 4 \<le> (if len \<le> payload then payload else frame)" and "len = length b"
  shows "pad_reply b payload frame = append_option b EDNS_OPTION_PADDING (replicate (padding_of len payload frame) 0)"
proof -
  have "len + 4 \<le> div_ceil (len + 4) PADDING_BLOCK * PADDING_BLOCK"
    by (rule div_ceil_bounds) (simp add: PADDING_BLOCK_def)
  with assms show ?thesis
    by (auto simp: pad_reply_def append_option_def padding_of_def Let_def add_diff_eq split: option.splits)
qed

lemma pad_reply_refuses:
  assumes "(if length b \<le> payload then payload else frame) < length b + 4"
  shows "pad_reply b payload frame = (False, b)"
  using assms by (auto simp: pad_reply_def Let_def split: option.splits)

lemma padded_length:
  assumes "len + 4 \<le> limit" and "limit = (if len \<le> payload then payload else frame)"
  shows "len + 4 + padding_of len payload frame \<le> limit"
    and "(len + 4 + padding_of len payload frame) mod PADDING_BLOCK = 0 \<or> len + 4 + padding_of len payload frame = limit"
    and "padding_of len payload frame < PADDING_BLOCK"
proof -
  let ?t = "div_ceil (len + 4) PADDING_BLOCK * PADDING_BLOCK"
  have t: "len + 4 \<le> ?t" "?t < len + 4 + PADDING_BLOCK" by (rule div_ceil_bounds; simp add: PADDING_BLOCK_def)+
  then have p: "len + 4 + padding_of len payload frame = min ?t limit"
    using assms by (simp add: padding_of_def)
  show "len + 4 + padding_of len payload frame \<le> limit" unfolding p by simp
  show "(len + 4 + padding_of len payload frame) mod PADDING_BLOCK = 0 \<or> len + 4 + padding_of len payload frame = limit"
    unfolding p by (simp add: min_def)
  show "padding_of len payload frame < PADDING_BLOCK" using p t by simp
qed

definition with_option :: "edns \<Rightarrow> u16 \<Rightarrow> bytes \<Rightarrow> edns" where
  "with_option e c data = e\<lparr>opt_rdata := opt_rdata e @ be16 c @ be16 (of_nat (length data)) @ data\<rparr>"

lemma length_with_option [simp]: "length (opt_rdata (with_option e c data)) = length (opt_rdata e) + 4 + length data"
  by (simp add: with_option_def)

lemma append_option_reads:
  assumes w: "to_bytes_with m s = (Inr n, s')" and o: "dm_edns m = Some e" and fits: "message_fits m"
    and small: "length (buf s) \<le> 2 ^ 24" and fit: "length (opt_rdata e) + 4 + length data \<le> 65535"
    and room: "n + 4 + length data \<le> length (buf s)"
  obtains b' m' where "append_option (take n (buf s')) c data = (True, b')" "length b' = n + 4 + length data"
    "message_try_from_bytes b' = Inr m'" "message_equiv m' (m\<lparr>dm_edns := Some (with_option e c data)\<rparr>)"
proof -
  let ?m = "m\<lparr>dm_edns := Some (with_option e c data)\<rparr>" and ?n = "n + 4 + length data"
  from append_option_written [OF w o message_fits_wf [OF fits] small with_option_def _ room] fit
  obtain s'' where s'': "to_bytes_with ?m s = (Inr ?n, s'')"
    "append_option (take n (buf s')) c data = (True, take ?n (buf s''))" by auto
  have f: "message_fits ?m" using fits by (simp add: message_fits_def)
  have "?n \<le> length (buf s'')" by (rule to_bytes_with_at [OF s''(1) message_fits_wf [OF f] small])
  with to_bytes_with_reads [OF s''(1) f small] that s''(2) show ?thesis by auto
qed

section \<open>Properties\<close>

text \<open>
  An option is appended in place. On the octets of a message with an OPT, \<^verbatim>\<open>append_option\<close> finds the
  OPT at the end, and its result reads as the message whose OPT has that one option more; when the
  option would not fit RDLENGTH it says so and leaves the octets alone.
\<close>

theorem append_option_correct:
  assumes "to_bytes_with m s = (Inr n, s')" and "dm_edns m = Some e" and "message_fits m"
    and "length (buf s) \<le> 2 ^ 24" and "n + 4 + length data \<le> length (buf s)"
  shows "if length (opt_rdata e) + 4 + length data \<le> 65535
    then \<exists>b' m'. append_option (take n (buf s')) c data = (True, b') \<and> length b' = n + 4 + length data \<and>
      message_try_from_bytes b' = Inr m' \<and> message_equiv m' (m\<lparr>dm_edns := Some (with_option e c data)\<rparr>)
    else append_option (take n (buf s')) c data = (False, take n (buf s'))"
proof (cases "length (opt_rdata e) + 4 + length data \<le> 65535")
  case True
  from append_option_reads [OF assms(1-4) True assms(5)] True show ?thesis by (simp only: if_True) blast
next
  case False
  with append_option_full [OF assms(1,2) message_fits_wf [OF assms(3)] assms(4)] show ?thesis by simp
qed

definition example_padded :: dns_message where
  "example_padded = example_reply\<lparr>dm_edns := Some (with_payload_size 1232)\<rparr>"

lemma example_padded_written:
  obtains n s' where "to_bytes_with example_padded \<lparr>compressor = compressor_new, buf = replicate 512 0\<rparr> = (Inr n, s')" "n \<le> 46"
    "message_fits example_padded"
proof -
  have f: "message_fits example_padded" using example_reply_ok(1) by (simp add: message_fits_def example_padded_def)
  have w: "message_writable example_padded"
    using example_reply_ok(2) unfolding message_writable_def
    by (simp add: example_padded_def with_payload_size_def is_ok_def wire_rcode_def section_counts_def section_count_def
        example_reply_def reply_to_def build_def with_query_def builder_new_def Let_def)
  have b: "wire_size_bound example_padded = 46"
    using example_reply_ok(3) by (simp add: example_padded_def wire_size_bound_def with_payload_size_def example_reply_def
        reply_to_def build_def with_query_def builder_new_def)
  have "wire_size_bound example_padded \<le> length (buf \<lparr>compressor = compressor_new, buf = replicate 512 0\<rparr>)" by (simp add: b)
  from to_bytes_with_succeeds [OF w message_fits_wf [OF f] this] that f b show ?thesis by metis
qed

theorem append_option_correct_witness:
  "\<exists>n s' b' m'. to_bytes_with example_padded \<lparr>compressor = compressor_new, buf = replicate 512 0\<rparr> = (Inr n, s') \<and>
    append_option (take n (buf s')) 11 [] = (True, b') \<and> message_try_from_bytes b' = Inr m' \<and>
    message_equiv m' (example_padded\<lparr>dm_edns := Some (with_option (with_payload_size 1232) 11 [])\<rparr>)"
proof -
  obtain n s' where w: "to_bytes_with example_padded \<lparr>compressor = compressor_new, buf = replicate 512 0\<rparr> = (Inr n, s')" "n \<le> 46"
    "message_fits example_padded" by (rule example_padded_written)
  have "length (opt_rdata (with_payload_size 1232)) + 4 + length ([] :: bytes) \<le> 65535" by (simp add: with_payload_size_def)
  with append_option_correct [OF w(1) _ w(3), of "with_payload_size 1232" "[]" 11] w show ?thesis
    by (auto simp: example_padded_def)
qed

text \<open>
  C6. Padding changes nothing but the length. Where the limit (the client's payload size or, past it, the
  frame) leaves room for the option, \<^verbatim>\<open>pad_reply\<close> brings the reply to the next multiple of 468 or to
  the limit, never past it, and the padded octets read as the same message with one Padding
  option of zeros; otherwise the reply is left as it was.
\<close>

theorem pad_reply_correct:
  assumes w: "to_bytes_with m s = (Inr n, s')" and o: "dm_edns m = Some e" and fits: "message_fits m"
    and small: "length (buf s) \<le> 2 ^ 24" and limit: "limit = (if n \<le> payload then payload else frame)" "limit \<le> length (buf s)"
    and pad: "pad = padding_of n payload frame"
  shows "if n + 4 \<le> limit \<and> length (opt_rdata e) + 4 + pad \<le> 65535
    then \<exists>b' m'. pad_reply (take n (buf s')) payload frame = (True, b') \<and> length b' \<le> limit \<and> length b' < n + 4 + PADDING_BLOCK \<and>
      (length b' mod PADDING_BLOCK = 0 \<or> length b' = limit) \<and> message_try_from_bytes b' = Inr m' \<and>
      message_equiv m' (m\<lparr>dm_edns := Some (with_option e EDNS_OPTION_PADDING (replicate pad 0))\<rparr>)
    else pad_reply (take n (buf s')) payload frame = (False, take n (buf s'))"
proof -
  have l: "length (take n (buf s')) = n" using last_record_written [OF w o message_fits_wf [OF fits] small] by simp
  consider (no_room) "limit < n + 4" | (full) "n + 4 \<le> limit" "length (opt_rdata e) + 4 + pad > 65535"
    | (fits) "n + 4 \<le> limit" "length (opt_rdata e) + 4 + pad \<le> 65535" by linarith
  then show ?thesis
  proof cases
    case no_room
    with pad_reply_refuses [of "take n (buf s')" payload frame] l limit(1) show ?thesis by simp
  next
    case full
    with pad_reply_append [of n payload frame] l limit(1) append_option_full [OF w o message_fits_wf [OF fits] small, of "replicate pad 0"] pad
    show ?thesis by simp
  next
    case fits
    note p = padded_length [OF fits(1) limit(1), folded pad]
    have "n + 4 + length (replicate pad (0 :: byte)) \<le> length (buf s)" using p(1) limit(2) by simp
    from append_option_reads [OF w o assms(3) small _ this] fits(2) obtain b' m' where
      "append_option (take n (buf s')) EDNS_OPTION_PADDING (replicate pad 0) = (True, b')" "length b' = n + 4 + pad"
      "message_try_from_bytes b' = Inr m'"
      "message_equiv m' (m\<lparr>dm_edns := Some (with_option e EDNS_OPTION_PADDING (replicate pad 0))\<rparr>)"
      by (metis length_replicate)
    with p pad_reply_append [of n payload frame "take n (buf s')"] fits l limit(1) pad show ?thesis by auto
  qed
qed

theorem pad_reply_correct_witness:
  "\<exists>n s' b' m'. to_bytes_with example_padded \<lparr>compressor = compressor_new, buf = replicate 512 0\<rparr> = (Inr n, s') \<and>
    pad_reply (take n (buf s')) 512 512 = (True, b') \<and> (length b' mod PADDING_BLOCK = 0 \<or> length b' = 512) \<and>
    message_try_from_bytes b' = Inr m'"
proof -
  obtain n s' where w: "to_bytes_with example_padded \<lparr>compressor = compressor_new, buf = replicate 512 0\<rparr> = (Inr n, s')" "n \<le> 46"
    "message_fits example_padded" by (rule example_padded_written)
  have "padding_of n 512 512 < 468" using padded_length(3) [of n 512 512 512] w(2) by (simp add: PADDING_BLOCK_def)
  with pad_reply_correct [OF w(1) _ w(3), of "with_payload_size 1232" 512 512 512 "padding_of n 512 512"] w show ?thesis
    by (auto simp: example_padded_def with_payload_size_def)
qed

end
