(* ===== verification/Presentation.thy ===== *)
theory Presentation
  imports Names
begin

text \<open>
  Names as text: the reader and the writer of \<^verbatim>\<open>rdns-core/src/name.rs\<close> (RFC 1035 section 5.1)
  and the helpers of \<^verbatim>\<open>rdns-core/src/text_names.rs\<close>. A \<^verbatim>\<open>&str\<close> is the list of its UTF-8 octets.
  The buffer the reader fills is the list of the octets written so far with the buffer's
  capacity beside it; the position \<^verbatim>\<open>at\<close> is the length of that list.
\<close>

section \<open>Reading\<close>

abbreviation "BACKSLASH \<equiv> (92 :: byte)"
abbreviation "DOT \<equiv> (46 :: byte)"

definition push :: "nat \<Rightarrow> bytes \<Rightarrow> byte \<Rightarrow> bytes wire_result" where
  "push cap out b =
     (if length out \<ge> cap then Inl (TooLong ''a domain name'' MAX_NAME_LEN (length out + 1))
      else Inr (out @ [b]))"

definition finish_label :: "bytes \<Rightarrow> nat \<Rightarrow> nat \<Rightarrow> bytes wire_result" where
  "finish_label out start len =
     (if len > MAX_LABEL_LEN then Inl (TooLong ''a label'' MAX_LABEL_LEN len)
      else Inr (out[start := of_nat len]))"

definition decode_escape :: "bytes \<Rightarrow> (byte \<times> nat) wire_result" where
  "decode_escape bs =
     (if length bs \<le> 1
      then Inl (Malformed ''a domain name'' ''it ends with a backslash, which escapes nothing'')
      else if \<not> is_digit (bs ! 1) then Inr (bs ! 1, 2)
      else if length bs < 4 \<or> \<not> list_all is_digit (seg bs 1 4)
      then Inl (Malformed ''a domain name''
             ''a backslash before a digit begins a three-digit decimal escape'')
      else let n = digit_value (bs ! 1) * 100 + digit_value (bs ! 2) * 10 + digit_value (bs ! 3) in
        if n > 255
        then Inl (Malformed ''a domain name''
               (''the decimal escape '' @ [CHR 92] @ show_nat n @ '' is over 255''))
        else Inr (of_nat n, 4))"

text \<open>The end of the loop body: an octet of a label, the label opened first where none is.\<close>

definition put_octet :: "nat \<Rightarrow> bytes \<Rightarrow> nat option \<Rightarrow> byte \<Rightarrow> (bytes \<times> nat option) wire_result" where
  "put_octet cap out label_start b =
     (case label_start of
        None \<Rightarrow> rbind (push cap out 0)
          (\<lambda>out'. rbind (push cap out' b) (\<lambda>out''. Inr (out'', Some (length out))))
      | Some start \<Rightarrow> rbind (push cap out b) (\<lambda>out'. Inr (out', Some start)))"

lemma decode_escape_used: "decode_escape bs = Inr (b, used) \<Longrightarrow> 2 \<le> used \<and> used \<le> length bs"
  by (auto simp: decode_escape_def Let_def split: if_splits)

function presentation_loop ::
  "nat \<Rightarrow> bytes \<Rightarrow> bytes \<Rightarrow> nat option \<Rightarrow> (bytes \<times> nat option) wire_result" where
  "presentation_loop cap [] out label_start = Inr (out, label_start)"
| "presentation_loop cap (b # bs) out label_start =
     (if b = BACKSLASH then
        rbind (decode_escape (b # bs)) (\<lambda>r.
          rbind (put_octet cap out label_start (fst r)) (\<lambda>s.
            presentation_loop cap (drop (snd r) (b # bs)) (fst s) (snd s)))
      else if b = DOT then
        (case label_start of
           None \<Rightarrow> Inl (Malformed ''a domain name'' ''a label may not be empty'')
         | Some start \<Rightarrow>
             rbind (finish_label out start (length out - start - 1)) (\<lambda>out'.
               presentation_loop cap bs out' None))
      else
        rbind (put_octet cap out label_start b) (\<lambda>s.
          presentation_loop cap bs (fst s) (snd s)))"
  by pat_completeness auto
termination
proof (relation "measure (\<lambda>(cap, bs, out, ls). length bs)", goal_cases)
  case (2 cap b bs out ls r s)
  then show ?case using decode_escape_used [of "b # bs" "fst r" "snd r"] by simp
qed auto

declare presentation_loop.simps(2) [simp del]

text \<open>A name that did not end on a separator still owes its last length.\<close>

definition close_label :: "bytes \<Rightarrow> nat option \<Rightarrow> bytes wire_result" where
  "close_label out label_start =
     (case label_start of
        None \<Rightarrow> Inr out
      | Some start \<Rightarrow> finish_label out start (length out - start - 1))"

definition presentation_wire_in :: "nat \<Rightarrow> bytes \<Rightarrow> bytes wire_result" where
  "presentation_wire_in cap t =
     (if t = [] \<or> t = [DOT] then Inr [0]
      else rbind (presentation_loop cap t [] None) (\<lambda>s.
        rbind (close_label (fst s) (snd s)) (\<lambda>out.
        rbind (push cap out 0) (\<lambda>out.
        rbind (check_name_len (length out)) (\<lambda>_. Inr out)))))"

definition from_presentation :: "bytes \<Rightarrow> name wire_result" where
  "from_presentation t = presentation_wire_in MAX_NAME_LEN t"

section \<open>Trimming and absolute names\<close>

text \<open>
  \<^verbatim>\<open>str::trim\<close>: the characters of the Unicode property \<open>White_Space\<close>, as their UTF-8 octets.
\<close>

definition white_space :: "bytes list" where
  "white_space =
     [[9], [10], [11], [12], [13], [32], [0xC2, 0x85], [0xC2, 0xA0], [0xE1, 0x9A, 0x80],
      [0xE2, 0x80, 0x80], [0xE2, 0x80, 0x81], [0xE2, 0x80, 0x82], [0xE2, 0x80, 0x83],
      [0xE2, 0x80, 0x84], [0xE2, 0x80, 0x85], [0xE2, 0x80, 0x86], [0xE2, 0x80, 0x87],
      [0xE2, 0x80, 0x88], [0xE2, 0x80, 0x89], [0xE2, 0x80, 0x8A], [0xE2, 0x80, 0xA8],
      [0xE2, 0x80, 0xA9], [0xE2, 0x80, 0xAF], [0xE2, 0x81, 0x9F], [0xE3, 0x80, 0x80]]"

fun strip_one :: "bytes list \<Rightarrow> bytes \<Rightarrow> bytes option" where
  "strip_one [] t = None"
| "strip_one (w # ws) t =
     (if w \<noteq> [] \<and> take (length w) t = w then Some (drop (length w) t) else strip_one ws t)"

lemma strip_one_shorter: "strip_one ws t = Some u \<Longrightarrow> length u < length t"
proof (induction ws)
  case (Cons w ws)
  have "length (drop (length w) t) < length t" if "w \<noteq> []" "take (length w) t = w"
    using that by (cases t) auto
  with Cons show ?case by (auto split: if_splits)
qed simp

function trim_front :: "bytes list \<Rightarrow> bytes \<Rightarrow> bytes" where
  "trim_front ws t = (case strip_one ws t of None \<Rightarrow> t | Some u \<Rightarrow> trim_front ws u)"
  by pat_completeness auto
termination
  by (relation "measure (\<lambda>(ws, t). length t)") (auto dest: strip_one_shorter)

declare trim_front.simps [simp del]

definition trim :: "bytes \<Rightarrow> bytes" where
  "trim t = rev (trim_front (map rev white_space) (rev (trim_front white_space t)))"

definition absolutized_in :: "bytes \<Rightarrow> name \<Rightarrow> name wire_result" where
  "absolutized_in text0 origin =
     (let t = trim text0 in
      if t = [] \<or> t = [64] then Inr origin
      else rbind (presentation_wire_in MAX_NAME_LEN t) (\<lambda>out.
        if last t = DOT then Inr out
        else let head = length out - 1; joined_len = head + length origin in
          rbind (check_name_len joined_len) (\<lambda>_. Inr (take head out @ origin))))"

section \<open>Writing\<close>

definition escape_octet :: "byte \<Rightarrow> bytes" where
  "escape_octet b =
     (if b \<in> set [46, 92, 59, 34, 40, 41, 64, 36] then [BACKSLASH, b]
      else if 0x21 \<le> b \<and> b \<le> 0x7e then [b]
      else BACKSLASH # dec3 b)"

definition escape_label :: "bytes \<Rightarrow> bytes" where
  "escape_label l = concat (map escape_octet l)"

definition to_presentation :: "name \<Rightarrow> bytes" where
  "to_presentation w =
     (if is_root w then [DOT] else concat (map (\<lambda>l. escape_label l @ [DOT]) (name_labels w)))"

section \<open>Text names\<close>

definition ascii_lowered :: "bytes \<Rightarrow> bytes" where
  "ascii_lowered t = map to_lower t"

definition has_ascii_uppercase :: "bytes \<Rightarrow> bool" where
  "has_ascii_uppercase t =
     (foldl (\<lambda>seen b. seen OR (if b - 65 < 26 then 1 else 0)) (0 :: byte) t \<noteq> 0)"

text \<open>The backward walk over the backslashes before position \<open>at\<close>.\<close>

fun backslashes_before :: "bytes \<Rightarrow> nat \<Rightarrow> nat" where
  "backslashes_before bs 0 = 0"
| "backslashes_before bs (Suc k) = (if bs ! k = BACKSLASH then Suc (backslashes_before bs k) else 0)"

definition separates_labels :: "bytes \<Rightarrow> nat \<Rightarrow> bool" where
  "separates_labels bs at \<longleftrightarrow> even (backslashes_before bs at)"

definition ends_with_root :: "bytes \<Rightarrow> bool" where
  "ends_with_root t \<longleftrightarrow>
     t \<noteq> [] \<and> t ! (length t - 1) = DOT \<and> separates_labels t (length t - 1)"

definition absolute :: "bytes \<Rightarrow> bytes" where
  "absolute t = (if ends_with_root t then t else t @ [DOT])"

definition absolute_lowered :: "bytes \<Rightarrow> bytes" where
  "absolute_lowered t =
     (let needs_dot = \<not> ends_with_root t; needs_fold = has_ascii_uppercase t in
      if \<not> needs_dot \<and> \<not> needs_fold then t
      else map to_lower t @ (if needs_dot then [DOT] else []))"

section \<open>One octet\<close>

lemma from_presentationE:
  assumes "from_presentation t = Inr w" and "t \<noteq> []" and "t \<noteq> [DOT]"
  obtains out ls out' where "presentation_loop MAX_NAME_LEN t [] None = Inr (out, ls)"
    "close_label out ls = Inr out'" "push MAX_NAME_LEN out' 0 = Inr w" "length w \<le> 255"
  using assms
  by (auto simp: from_presentation_def presentation_wire_in_def rbind_eq_Inr_conv
      check_name_len_def MAX_NAME_LEN_def split: if_splits)

lemma unat_digit: "d < 10 \<Longrightarrow> unat (digit d) = 48 + d"
  unfolding digit_def by (rule unat_of_nat_byte) simp

lemma is_digit_digit [simp]: "d < 10 \<Longrightarrow> is_digit (digit d)"
  by (simp add: is_digit_def word_le_nat_alt unat_digit)

lemma digit_value_digit [simp]:
  assumes "d < 10"
  shows "digit_value (digit d) = d"
proof -
  have "48 \<le> digit d" using assms by (simp add: word_le_nat_alt unat_digit)
  then have "unat (digit d - 48) = unat (digit d) - unat (48 :: byte)" by (rule unat_sub)
  with assms show ?thesis by (simp add: digit_value_def unat_digit)
qed

lemma decimal_digits: "(n :: nat) div 100 * 100 + n div 10 mod 10 * 10 + n mod 10 = n"
proof -
  have "n div 100 = n div 10 div 10" by (simp add: div_mult2_eq [symmetric])
  then show ?thesis
    using div_mult_mod_eq [of n 10] div_mult_mod_eq [of "n div 10" 10] by linarith
qed

lemma decode_dec3 [simp]: "decode_escape (BACKSLASH # dec3 b @ rest) = Inr (b, 4)"
proof -
  let ?x = "unat b div 100" and ?y = "unat b div 10 mod 10" and ?z = "unat b mod 10"
  have lt: "?x < 10" "?y < 10" "?z < 10" using unat_byte_less [of b] by auto
  have n: "?x * 100 + ?y * 10 + ?z = unat b" by (rule decimal_digits)
  have "unat b \<le> 255" using unat_byte_less [of b] by simp
  with lt n have "decode_escape (BACKSLASH # digit ?x # digit ?y # digit ?z # rest) = Inr (b, 4)"
    unfolding decode_escape_def
    by (simp add: seg_def numeral_2_eq_2 numeral_3_eq_3 Let_def del: unat_mod_distrib unat_div_distrib)
  then show ?thesis by (simp add: dec3_def)
qed

lemma special_not_digit:
  "b \<in> set [46, 92, 59, 34, 40, 41, 64, 36] \<Longrightarrow> \<not> is_digit b"
  by (auto simp: is_digit_def)

lemma presentation_loop_octet [simp]:
  "presentation_loop cap (escape_octet b @ rest) out ls =
   rbind (put_octet cap out ls b) (\<lambda>s. presentation_loop cap rest (fst s) (snd s))"
proof -
  consider (special) "b \<in> set [46, 92, 59, 34, 40, 41, 64, 36]"
    | (plain) "b \<notin> set [46, 92, 59, 34, 40, 41, 64, 36]" "0x21 \<le> b \<and> b \<le> 0x7e"
    | (decimal) "b \<notin> set [46, 92, 59, 34, 40, 41, 64, 36]" "\<not> (0x21 \<le> b \<and> b \<le> 0x7e)"
    by blast
  then show ?thesis
  proof cases
    case special
    then have "decode_escape (BACKSLASH # b # rest) = Inr (b, 2)"
      using special_not_digit by (simp add: decode_escape_def)
    then show ?thesis using special
      by (simp add: escape_octet_def presentation_loop.simps(2) numeral_eq_Suc)
  next
    case plain
    then show ?thesis by (simp add: escape_octet_def presentation_loop.simps(2))
  next
    case decimal
    then have "escape_octet b = BACKSLASH # dec3 b" by (simp add: escape_octet_def)
    moreover have "drop 4 (BACKSLASH # dec3 b @ rest) = rest" by (simp add: dec3_def)
    ultimately show ?thesis
      using decode_dec3 [of b rest] by (simp add: presentation_loop.simps(2) del: decode_dec3)
  qed
qed

section \<open>What the reader writes\<close>

text \<open>
  The reader's state between two octets of text: whole labels, and the label it is in, its
  length octet still zero.
\<close>

definition writing :: "bytes \<Rightarrow> nat option \<Rightarrow> bytes list \<Rightarrow> bytes \<Rightarrow> bool" where
  "writing out label_start ds part \<longleftrightarrow>
     labels_ok ds \<and>
     (case label_start of
        None \<Rightarrow> out = wire_labels ds \<and> part = []
      | Some start \<Rightarrow> start = length (wire_labels ds) \<and> part \<noteq> [] \<and>
                      out = wire_labels ds @ 0 # part)"

lemma writing_start: "writing [] None [] []"
  by (simp add: writing_def)

lemma put_octet_writing:
  assumes "writing out ls ds part" and "put_octet cap out ls b = Inr (out', ls')"
  shows "writing out' ls' ds (part @ [b]) \<and> ls' \<noteq> None \<and> length out' \<le> cap"
  using assms
  by (auto simp: writing_def put_octet_def push_def rbind_eq_Inr_conv split: option.splits if_splits)

lemma finish_label_writing:
  assumes "writing out (Some start) ds part"
    and "finish_label out start (length out - start - 1) = Inr out'"
  shows "writing out' None (ds @ [part]) [] \<and> length out' = length out"
  using assms
  by (auto simp: writing_def finish_label_def MAX_LABEL_LEN_def label_ok_def Suc_le_eq
      split: if_splits)

lemma presentation_loop_writing:
  "presentation_loop cap t out ls = Inr (out', ls') \<Longrightarrow> writing out ls ds part \<Longrightarrow>
   \<exists>ds' part'. writing out' ls' ds' part'"
proof (induction cap t out ls arbitrary: ds part rule: presentation_loop.induct)
  case (1 cap out ls)
  then show ?case by auto
next
  case (2 cap b bs out ls)
  consider "b = BACKSLASH" | "b = DOT" | "b \<noteq> BACKSLASH" "b \<noteq> DOT" by blast
  then show ?case
  proof cases
    case 1
    with "2.prems" obtain r s where r: "decode_escape (b # bs) = Inr r"
      "put_octet cap out ls (fst r) = Inr s"
      "presentation_loop cap (drop (snd r) (b # bs)) (fst s) (snd s) = Inr (out', ls')"
      by (auto simp: presentation_loop.simps(2) rbind_eq_Inr_conv)
    with "2.IH"(1) [OF 1 r] "2.prems"(2) put_octet_writing [of out ls _ _ cap "fst r" "fst s" "snd s"]
    show ?thesis by (metis prod.collapse)
  next
    case 2
    with "2.prems" obtain start out1 where o: "ls = Some start"
      "finish_label out start (length out - start - 1) = Inr out1"
      "presentation_loop cap bs out1 None = Inr (out', ls')"
      by (auto simp: presentation_loop.simps(2) rbind_eq_Inr_conv split: option.splits)
    have "b \<noteq> BACKSLASH" using 2 by simp
    from "2.IH"(2) [OF this 2 o] finish_label_writing o "2.prems"(2) show ?thesis by metis
  next
    case 3
    with "2.prems" obtain s where s: "put_octet cap out ls b = Inr s"
      "presentation_loop cap bs (fst s) (snd s) = Inr (out', ls')"
      by (auto simp: presentation_loop.simps(2) rbind_eq_Inr_conv)
    with "2.IH"(3) [OF 3 s] "2.prems"(2) put_octet_writing [of out ls _ _ cap b "fst s" "snd s"]
    show ?thesis by (metis prod.collapse)
  qed
qed

lemma wf_name_root [simp]: "wf_name [0]"
  using wf_name_wire_of [of "[]"] by simp

lemma from_presentation_is_name:
  assumes "from_presentation t = Inr w"
  shows "wf_name w"
proof (cases "t = [] \<or> t = [DOT]")
  case True
  with assms show ?thesis by (auto simp: from_presentation_def presentation_wire_in_def)
next
  case False
  then have "t \<noteq> []" "t \<noteq> [DOT]" by auto
  with assms obtain out ls out' where
    loop: "presentation_loop MAX_NAME_LEN t [] None = Inr (out, ls)"
    and fin: "close_label out ls = Inr out'"
    and w: "push MAX_NAME_LEN out' 0 = Inr w" "length w \<le> 255"
    by (rule from_presentationE)
  from presentation_loop_writing [OF loop writing_start] obtain ds part where
    wr: "writing out ls ds part" by blast
  have "\<exists>ds'. writing out' None ds' []"
  proof (cases ls)
    case None
    then show ?thesis using wr fin by (auto simp: writing_def close_label_def)
  next
    case (Some start)
    then show ?thesis using wr fin finish_label_writing [of out start ds part out']
      by (auto simp: close_label_def)
  qed
  then obtain ds' where "labels_ok ds'" "out' = wire_labels ds'" by (auto simp: writing_def)
  moreover from w(1) have "w = out' @ [0]" by (simp add: push_def split: if_splits)
  ultimately show ?thesis using w(2) by (metis wf_name_wire_of wire_of_def)
qed

text \<open>Whatever text \<^verbatim>\<open>from_presentation\<close> accepts, the octets it returns are a name.\<close>

theorem from_presentation_wf:
  assumes "from_presentation t = Inr w"
  shows "wf_name w"
  using assms by (rule from_presentation_is_name)

theorem from_presentation_wf_witness: "wf_name [1, 97, 0]"
proof (rule from_presentation_wf)
  show "from_presentation [97, 46] = Inr [1, 97, 0]" by code_simp
qed

section \<open>Round trip\<close>

lemma presentation_loop_part:
  assumes "length pre + 1 + length part + length l \<le> cap"
  shows "presentation_loop cap (escape_label l @ rest) (pre @ 0 # part) (Some (length pre)) =
    presentation_loop cap rest (pre @ 0 # part @ l) (Some (length pre))"
  using assms
proof (induction l arbitrary: part)
  case Nil
  then show ?case by (simp add: escape_label_def)
next
  case (Cons b l)
  from Cons.IH [of "part @ [b]"] Cons.prems show ?case
    by (simp add: escape_label_def put_octet_def push_def)
qed

lemma presentation_loop_label:
  assumes "label_ok l" and "length pre + 1 + length l \<le> cap"
  shows "presentation_loop cap (escape_label l @ DOT # rest) pre None =
    presentation_loop cap rest (pre @ of_nat (length l) # l) None"
proof -
  obtain b l' where l: "l = b # l'" using assms(1) by (cases l) (auto simp: label_ok_def)
  have "presentation_loop cap (escape_label l @ DOT # rest) pre None =
    presentation_loop cap (escape_label l' @ DOT # rest) (pre @ 0 # [b]) (Some (length pre))"
    using assms(2) by (simp add: l escape_label_def put_octet_def push_def)
  also have "\<dots> = presentation_loop cap (DOT # rest) (pre @ 0 # l) (Some (length pre))"
    using presentation_loop_part [of pre "[b]" l' cap "DOT # rest"] assms(2) by (simp add: l)
  also have "\<dots> = presentation_loop cap rest (pre @ of_nat (length l) # l) None"
    using assms(1)
    by (simp add: presentation_loop.simps(2) finish_label_def MAX_LABEL_LEN_def label_ok_def)
  finally show ?thesis .
qed

lemma presentation_loop_labels:
  assumes "labels_ok ls" and "length pre + length (wire_labels ls) \<le> cap"
  shows "presentation_loop cap (concat (map (\<lambda>l. escape_label l @ [DOT]) ls)) pre None =
    Inr (pre @ wire_labels ls, None)"
  using assms
  by (induction ls arbitrary: pre) (simp_all add: presentation_loop_label)

lemma escape_octet_not_dot: "escape_octet b \<noteq> [] \<and> hd (escape_octet b) \<noteq> DOT"
  by (auto simp: escape_octet_def)

text \<open>
  C36. Presentation text reads back as the name it was written from: every label, any octets
  in it, escapes included.
\<close>

theorem presentation_round_trip:
  assumes "wf_name w"
  shows "from_presentation (to_presentation w) = Inr w"
  using assms
proof (rule wf_nameE)
  fix ls
  assume ls: "labels_ok ls" and w: "w = wire_of ls" and len: "length (wire_of ls) \<le> 255"
  let ?t = "concat (map (\<lambda>l. escape_label l @ [DOT]) ls)"
  show ?thesis
  proof (cases ls)
    case Nil
    then show ?thesis
      by (simp add: w to_presentation_def is_root_def from_presentation_def presentation_wire_in_def)
  next
    case (Cons l ls')
    then obtain b l' where l: "l = b # l'" using ls by (cases l) (auto simp: label_ok_def)
    have t: "to_presentation w = ?t" using ls Cons by (simp add: w to_presentation_def del: wire_of_simps)
    have "?t \<noteq> []" "?t \<noteq> [DOT]"
      using escape_octet_not_dot [of b] by (auto simp: Cons l escape_label_def neq_Nil_conv)
    moreover have "presentation_loop MAX_NAME_LEN ?t [] None = Inr (wire_labels ls, None)"
      using presentation_loop_labels [OF ls, of "[]" MAX_NAME_LEN] len
      by (simp add: MAX_NAME_LEN_def length_wire_of)
    ultimately show ?thesis
      using len unfolding t
      by (simp add: from_presentation_def presentation_wire_in_def push_def check_name_len_def
          MAX_NAME_LEN_def close_label_def w wire_of_def)
  qed
qed

theorem presentation_round_trip_witness:
  "from_presentation (to_presentation [2, 46, 0xff, 0]) = Inr [2, 46, 0xff, 0]"
proof (rule presentation_round_trip)
  have "wf_name (wire_of [[46, 0xff]])"
    by (simp add: label_ok_def length_wire_of del: wire_of_simps)
  then show "wf_name [2, 46, 0xff, 0]" by simp
qed

section \<open>Absolute text\<close>

lemma is_upper_wrapping: "b - 65 < 26 \<longleftrightarrow> is_upper b"
proof -
  have "unat (b - 65) = (if 65 \<le> unat b then unat b - 65 else unat b + 256 - 65)"
    using unat_byte_less [of b] unat_sub_if' [of b 65] by (auto simp: word_le_nat_alt)
  then show ?thesis
    using unat_byte_less [of b] by (auto simp: is_upper_def word_le_nat_alt word_less_nat_alt split: if_splits)
qed

lemma has_ascii_uppercase_fold:
  "foldl (\<lambda>seen b. seen OR (if b - 65 < 26 then 1 else 0)) s t \<noteq> (0 :: byte) \<longleftrightarrow>
   s \<noteq> 0 \<or> list_ex is_upper t"
  by (induction t arbitrary: s) (auto simp: is_upper_wrapping or_eq_0_iff)

lemma has_ascii_uppercase_iff: "has_ascii_uppercase t \<longleftrightarrow> list_ex is_upper t"
  using has_ascii_uppercase_fold [of 0 t] by (simp add: has_ascii_uppercase_def)

text \<open>
  \<^verbatim>\<open>absolute_lowered\<close> is the folded text made absolute, whichever of its copies it takes.
\<close>

theorem absolute_lowered_correct: "absolute_lowered t = ascii_lowered (absolute t)"
proof -
  have dot: "to_lower DOT = DOT" by (simp add: to_lower_def is_upper_def)
  show ?thesis
    by (auto simp: absolute_lowered_def absolute_def ascii_lowered_def Let_def dot
        has_ascii_uppercase_iff lower_id lower_def [symmetric])
qed

definition trailing_backslashes :: "bytes \<Rightarrow> nat" where
  "trailing_backslashes t = length (takeWhile ((=) BACKSLASH) (rev t))"

lemma backslashes_before_trailing:
  "at \<le> length t \<Longrightarrow> backslashes_before t at = trailing_backslashes (take at t)"
  by (induction at) (auto simp: trailing_backslashes_def take_Suc_conv_app_nth)

lemma ends_with_root_snoc:
  "ends_with_root (t @ [b]) \<longleftrightarrow> b = DOT \<and> even (trailing_backslashes t)"
  by (auto simp: ends_with_root_def separates_labels_def backslashes_before_trailing)

lemma decode_escape_append:
  "decode_escape bs = Inr r \<Longrightarrow> decode_escape (bs @ xs) = Inr r"
  by (auto simp: decode_escape_def nth_append seg_append_left Let_def split: if_splits)

lemma decode_escape_trailing:
  assumes "decode_escape (BACKSLASH # bs) = Inr (x, used)" and "even (trailing_backslashes pre)"
  shows "even (trailing_backslashes (pre @ take used (BACKSLASH # bs)))"
proof (cases "used = 2")
  case True
  with assms(1) obtain y ys where "bs = y # ys"
    by (cases bs) (auto simp: decode_escape_def)
  with assms(2) True show ?thesis by (simp add: trailing_backslashes_def)
next
  case False
  with assms(1) have "used = 4" and len: "4 \<le> length (BACKSLASH # bs)"
    and "is_digit ((BACKSLASH # bs) ! 3)"
    by (auto simp: decode_escape_def Let_def seg_def list_all_length split: if_splits)
  moreover from len have "take 4 (BACKSLASH # bs) = take 3 (BACKSLASH # bs) @ [(BACKSLASH # bs) ! 3]"
    using take_Suc_conv_app_nth [of 3 "BACKSLASH # bs"] by simp
  moreover have "is_digit BACKSLASH = False" by (simp add: is_digit_def)
  ultimately show ?thesis by (auto simp: trailing_backslashes_def simp del: take_Suc_Cons nth_Cons_numeral)
qed

lemma put_octet_Some: "put_octet cap out ls b = Inr s \<Longrightarrow> snd s \<noteq> None"
  by (auto simp: put_octet_def rbind_eq_Inr_conv split: option.splits)

lemma presentation_loop_ends:
  "presentation_loop cap t out ls = Inr (out', None) \<Longrightarrow> even (trailing_backslashes pre) \<Longrightarrow>
   t = [] \<and> ls = None \<or> ends_with_root (pre @ t)"
proof (induction cap t out ls arbitrary: pre rule: presentation_loop.induct)
  case (1 cap out ls)
  then show ?case by auto
next
  case (2 cap b bs out ls)
  consider "b = BACKSLASH" | "b = DOT" | "b \<noteq> BACKSLASH" "b \<noteq> DOT" by blast
  then show ?case
  proof cases
    case 1
    with "2.prems" obtain r s where r: "decode_escape (b # bs) = Inr r"
      "put_octet cap out ls (fst r) = Inr s"
      "presentation_loop cap (drop (snd r) (b # bs)) (fst s) (snd s) = Inr (out', None)"
      by (auto simp: presentation_loop.simps(2) rbind_eq_Inr_conv)
    have "even (trailing_backslashes (pre @ take (snd r) (b # bs)))"
      using r(1) "2.prems"(2) 1 decode_escape_trailing [of bs "fst r" "snd r" pre] by simp
    from "2.IH"(1) [OF 1 r this] put_octet_Some [OF r(2)] show ?thesis
      by (metis append.assoc append_take_drop_id)
  next
    case 2
    with "2.prems" obtain start out1 where o: "ls = Some start"
      "finish_label out start (length out - start - 1) = Inr out1"
      "presentation_loop cap bs out1 None = Inr (out', None)"
      by (auto simp: presentation_loop.simps(2) rbind_eq_Inr_conv split: option.splits)
    have "b \<noteq> BACKSLASH" using 2 by simp
    moreover have "even (trailing_backslashes (pre @ [b]))"
      using 2 by (simp add: trailing_backslashes_def)
    ultimately have "bs = [] \<or> ends_with_root ((pre @ [b]) @ bs)"
      using "2.IH"(2) [OF _ 2 o] by blast
    with "2.prems"(2) 2 show ?thesis using ends_with_root_snoc [of pre b] by auto
  next
    case 3
    with "2.prems" obtain s where s: "put_octet cap out ls b = Inr s"
      "presentation_loop cap bs (fst s) (snd s) = Inr (out', None)"
      by (auto simp: presentation_loop.simps(2) rbind_eq_Inr_conv)
    have "even (trailing_backslashes (pre @ [b]))" using 3 by (auto simp: trailing_backslashes_def)
    from "2.IH"(3) [OF 3 s this] put_octet_Some [OF s(1)] show ?thesis by simp
  qed
qed

lemma presentation_loop_append:
  "presentation_loop cap t out ls = Inr (out', ls') \<Longrightarrow>
   presentation_loop cap (t @ u) out ls = presentation_loop cap u out' ls'"
proof (induction cap t out ls rule: presentation_loop.induct)
  case (1 cap out ls)
  then show ?case by simp
next
  case (2 cap b bs out ls)
  consider "b = BACKSLASH" | "b = DOT" | "b \<noteq> BACKSLASH" "b \<noteq> DOT" by blast
  then show ?case
  proof cases
    case 1
    with "2.prems" obtain r s where r: "decode_escape (b # bs) = Inr r"
      "put_octet cap out ls (fst r) = Inr s"
      "presentation_loop cap (drop (snd r) (b # bs)) (fst s) (snd s) = Inr (out', ls')"
      by (auto simp: presentation_loop.simps(2) rbind_eq_Inr_conv)
    have "snd r \<le> length (b # bs)"
      using decode_escape_used [of "b # bs" "fst r" "snd r"] r(1) by simp
    then have "drop (snd r) (b # bs @ u) = drop (snd r) (b # bs) @ u"
      using drop_append [of "snd r" "b # bs" u] by simp
    with "2.IH"(1) [OF 1 r] r decode_escape_append [OF r(1), of u] 1 show ?thesis
      by (simp add: presentation_loop.simps(2))
  next
    case 2
    with "2.prems" obtain start out1 where o: "ls = Some start"
      "finish_label out start (length out - start - 1) = Inr out1"
      "presentation_loop cap bs out1 None = Inr (out', ls')"
      by (auto simp: presentation_loop.simps(2) rbind_eq_Inr_conv split: option.splits)
    with "2.IH"(2) [OF _ 2 o] 2 show ?thesis by (simp add: presentation_loop.simps(2))
  next
    case 3
    with "2.prems" obtain s where s: "put_octet cap out ls b = Inr s"
      "presentation_loop cap bs (fst s) (snd s) = Inr (out', ls')"
      by (auto simp: presentation_loop.simps(2) rbind_eq_Inr_conv)
    from "2.IH"(3) [OF 3 s] 3 s show ?thesis by (simp add: presentation_loop.simps(2))
  qed
qed

text \<open>
  Making text absolute does not change the name it spells: where text reads as a name,
  \<^verbatim>\<open>absolute\<close> of it reads as the same name, the escape-aware test of the last dot included.
\<close>

theorem absolute_same_name:
  assumes "from_presentation t = Inr w"
  shows "from_presentation (absolute t) = Inr w"
proof (cases "ends_with_root t \<or> t = []")
  case True
  with assms show ?thesis
    by (auto simp: absolute_def from_presentation_def presentation_wire_in_def)
next
  case False
  then have "t \<noteq> [DOT]" using ends_with_root_snoc [of "[]" DOT] by (auto simp: trailing_backslashes_def)
  moreover have "t \<noteq> []" using False by simp
  ultimately obtain out ls out' where
    loop: "presentation_loop MAX_NAME_LEN t [] None = Inr (out, ls)"
    and fin: "close_label out ls = Inr out'"
    and w: "push MAX_NAME_LEN out' 0 = Inr w" "length w \<le> 255"
    using assms by (auto elim: from_presentationE [of t w])
  have "ls \<noteq> None"
    using presentation_loop_ends [of MAX_NAME_LEN t "[]" None out "[]"] loop False
    by (auto simp: trailing_backslashes_def)
  then obtain start where [simp]: "ls = Some start" by auto
  have "presentation_loop MAX_NAME_LEN (t @ [DOT]) [] None = Inr (out', None)"
    using presentation_loop_append [OF loop, of "[DOT]"] fin
    by (simp add: presentation_loop.simps(2) close_label_def)
  with False w show ?thesis
    by (simp add: absolute_def from_presentation_def presentation_wire_in_def close_label_def
        check_name_len_def MAX_NAME_LEN_def)
qed

theorem absolute_same_name_witness:
  "from_presentation (absolute [97, 92, 46]) = Inr [2, 97, 46, 0]"
proof (rule absolute_same_name)
  show "from_presentation [97, 92, 46] = Inr [2, 97, 46, 0]" by code_simp
qed

section \<open>Zone-file names\<close>

text \<open>
  \<^verbatim>\<open>absolutized_in\<close> on text with nothing to trim: \<^verbatim>\<open>@\<close> is the origin; text whose last octet is
  not a dot is relative, so its labels go before the origin's, unless that is over 255
  octets; text whose last octet is a dot is taken as it is.
\<close>

theorem absolutized_in_correct:
  assumes "trim t = t" and "t \<noteq> []" and "t \<noteq> [64]"
    and "from_presentation t = Inr (wire_of ls)" and "labels_ok ls"
  shows "absolutized_in t (wire_of os) =
    (if last t = DOT then Inr (wire_of ls)
     else if length (wire_of (ls @ os)) \<le> 255 then Inr (wire_of (ls @ os))
     else Inl (TooLong ''a domain name'' 255 (length (wire_of (ls @ os)))))"
proof -
  have "take (length (wire_of ls) - 1) (wire_of ls) = wire_labels ls"
    "length (wire_of ls) - 1 = length (wire_labels ls)"
    by (simp_all add: wire_of_def)
  with assms show ?thesis
    by (simp add: absolutized_in_def from_presentation_def Let_def check_name_len_def
        MAX_NAME_LEN_def wire_of_append)
qed

theorem absolutized_in_witness:
  "absolutized_in [97] (wire_of [[98]]) = Inr (wire_of [[97], [98]])"
proof -
  have "trim [97] = [97]" "from_presentation [97] = Inr (wire_of [[97]])" by code_simp+
  from absolutized_in_correct [of "[97]" "[[97]]" "[[98]]", OF this(1) _ _ this(2)]
  show ?thesis by (simp add: label_ok_def)
qed

text \<open>
  The test \<^verbatim>\<open>text.ends_with('.')\<close> in \<^verbatim>\<open>absolutized_in\<close> is not the escape-aware one: the text
  \<open>a\.\<close> is one relative label by \<open>ends_with_root\<close>, and \<^verbatim>\<open>absolutized_in\<close> leaves it at the root
  whatever the origin is.
\<close>

theorem absolutized_in_escaped_dot:
  "\<not> ends_with_root [97, BACKSLASH, DOT] \<and>
   absolutized_in [97, BACKSLASH, DOT] origin = Inr (wire_of [[97, DOT]])"
proof -
  have "\<not> ends_with_root [97, BACKSLASH, DOT]" by code_simp
  moreover have "trim [97, BACKSLASH, DOT] = [97, BACKSLASH, DOT]"
    "presentation_wire_in MAX_NAME_LEN [97, BACKSLASH, DOT] = Inr (wire_of [[97, DOT]])"
    by code_simp+
  ultimately show ?thesis by (simp add: absolutized_in_def Let_def)
qed

end
