(* ===== verification/Eviction.thy ===== *)
theory Eviction
  imports Message "HOL-Library.Multiset" "HOL-Library.AList"
begin

text \<open>
  What the resolver's caches share: \<^verbatim>\<open>rdns/src/deadline.rs\<close> (the saturating arithmetic of expiry),
  \<^verbatim>\<open>StalePolicy\<close> of \<^verbatim>\<open>rdns/src/cache.rs\<close>, \<^verbatim>\<open>rdns/src/eviction.rs\<close> (halving a full cache) and
  \<^verbatim>\<open>rdns-core/src/name_keys.rs\<close> (names as map keys). A \<^verbatim>\<open>HashMap\<close> is an association list with
  distinct keys; its order stands for the map's iteration order, which is unspecified, and no
  theorem assumes anything about it. Unix seconds are natural numbers up to \<^verbatim>\<open>u64::MAX\<close>.
\<close>

section \<open>The code\<close>

subsection \<open>Deadlines\<close>

definition u64_MAX :: nat where "u64_MAX = 18446744073709551615"

definition saturating_add :: "nat \<Rightarrow> nat \<Rightarrow> nat" where
  "saturating_add a b = min (a + b) u64_MAX"

type_synonym deadline = nat

definition deadline_after :: "nat \<Rightarrow> nat \<Rightarrow> deadline" where
  "deadline_after now secs = saturating_add now secs"

definition is_live :: "deadline \<Rightarrow> nat \<Rightarrow> bool" where
  "is_live d now \<longleftrightarrow> now < d"

definition remaining :: "deadline \<Rightarrow> nat \<Rightarrow> nat" where
  "remaining d now = d - now"

definition remaining_ttl :: "deadline \<Rightarrow> nat \<Rightarrow> u32" where
  "remaining_ttl d now = (if remaining d now \<le> 4294967295 then of_nat (remaining d now) else 4294967295)"

definition extended_by :: "deadline \<Rightarrow> nat \<Rightarrow> deadline" where
  "extended_by d secs = saturating_add d secs"

definition STALE_REFRESH_INTERVAL :: nat where "STALE_REFRESH_INTERVAL = 30"

definition claim_stale_refresh :: "bool \<Rightarrow> nat \<Rightarrow> deadline \<Rightarrow> bool \<times> deadline" where
  "claim_stale_refresh refreshing now d =
     (let refresh = refreshing \<and> \<not> is_live d now in
      (refresh, if refresh then deadline_after now STALE_REFRESH_INTERVAL else d))"

subsection \<open>Serving stale\<close>

record stale_policy =
  max_stale :: nat

definition STALE_OFF :: stale_policy where "STALE_OFF = \<lparr>max_stale = 0\<rparr>"

definition stale_is_on :: "stale_policy \<Rightarrow> bool" where
  "stale_is_on p \<longleftrightarrow> max_stale p > 0"

definition policy_keeps :: "stale_policy \<Rightarrow> deadline \<Rightarrow> nat \<Rightarrow> bool" where
  "policy_keeps p expires_at now = is_live (extended_by expires_at (max_stale p)) now"

subsection \<open>Halving\<close>

record halving =
  cutoff :: nat
  ties_to_keep :: nat

definition halving_plan :: "nat list \<Rightarrow> nat \<Rightarrow> halving option" where
  "halving_plan expiries target =
     (if length expiries \<le> target then None
      else if target = 0 then Some \<lparr>cutoff = u64_MAX, ties_to_keep = 0\<rparr>
      else
        let remove = length expiries - target;
            c = sort expiries ! remove;
            strictly_newer = length (filter (\<lambda>e. e > c) expiries) in
        Some \<lparr>cutoff = c, ties_to_keep = target - strictly_newer\<rparr>)"

definition halving_keep :: "nat \<Rightarrow> halving \<Rightarrow> bool \<times> halving" where
  "halving_keep expires_at h =
     (if expires_at > cutoff h then (True, h)
      else if expires_at = cutoff h \<and> ties_to_keep h > 0
      then (True, h\<lparr>ties_to_keep := ties_to_keep h - 1\<rparr>)
      else (False, h))"

text \<open>\<^verbatim>\<open>HashMap::retain\<close> with a closure that borrows the plan.\<close>

fun retain_halving :: "('a \<Rightarrow> nat) \<Rightarrow> 'a list \<Rightarrow> halving \<Rightarrow> 'a list \<times> halving" where
  "retain_halving f [] h = ([], h)"
| "retain_halving f (x # xs) h =
     (let (k, h) = halving_keep (f x) h; (ys, h) = retain_halving f xs h in
      (if k then x # ys else ys, h))"

subsection \<open>Names as keys\<close>

type_synonym name_key = bytes
type_synonym name_type_key = "bytes \<times> qtype"

definition name_key_new :: "name \<Rightarrow> name_key" where
  "name_key_new n = folded n"

definition name_type_key_new :: "name \<Rightarrow> qtype \<Rightarrow> name_type_key" where
  "name_type_key_new n t = (name_key_new n, t)"

definition is_at_or_below :: "bytes \<Rightarrow> name \<Rightarrow> bool" where
  "is_at_or_below key node = (case from_wire_slice key of Inr n \<Rightarrow> is_at_or_under n node | Inl _ \<Rightarrow> False)"

section \<open>Halving leaves the latest half\<close>

text \<open>What a retain with a plan keeps, counted by expiry alone.\<close>

fun kept :: "nat list \<Rightarrow> halving \<Rightarrow> nat" where
  "kept es h = length (filter (\<lambda>e. e > cutoff h) es) + min (ties_to_keep h) (length (filter (\<lambda>e. e = cutoff h) es))"

lemma retain_halving_counts:
  "retain_halving f xs h = (ys, h') \<Longrightarrow>
   length ys = kept (map f xs) h \<and> cutoff h' = cutoff h \<and>
   ties_to_keep h' = ties_to_keep h - length (filter (\<lambda>x. f x = cutoff h) xs)"
proof (induction xs arbitrary: h ys h')
  case (Cons x xs)
  obtain zs where z: "retain_halving f xs (snd (halving_keep (f x) h)) = (zs, h')"
    "ys = (if fst (halving_keep (f x) h) then x # zs else zs)"
    using Cons.prems by (auto simp: Let_def split: prod.splits)
  from Cons.IH [OF z(1)] z(2) show ?case
    by (auto simp: halving_keep_def min_def Suc_le_eq split: if_splits)
qed simp

lemma retain_halving_subset:
  "retain_halving f xs h = (ys, h') \<Longrightarrow> set ys \<subseteq> set xs \<and> (\<forall>x \<in> set ys. cutoff h \<le> f x) \<and>
   (\<forall>x \<in> set xs - set ys. f x \<le> cutoff h)"
proof (induction xs arbitrary: h ys h')
  case (Cons x xs)
  obtain zs where z: "retain_halving f xs (snd (halving_keep (f x) h)) = (zs, h')"
    "ys = (if fst (halving_keep (f x) h) then x # zs else zs)"
    using Cons.prems by (auto simp: Let_def split: prod.splits)
  have "cutoff (snd (halving_keep (f x) h)) = cutoff h" by (simp add: halving_keep_def)
  with Cons.IH [OF z(1)] z(2) show ?case by (auto simp: halving_keep_def split: if_splits)
qed simp

lemma retain_halving_map_distinct:
  "retain_halving f xs h = (ys, h') \<Longrightarrow> distinct (map g xs) \<Longrightarrow> distinct (map g ys)"
proof (induction xs arbitrary: h ys h')
  case (Cons x xs)
  obtain zs where z: "retain_halving f xs (snd (halving_keep (f x) h)) = (zs, h')"
    "ys = (if fst (halving_keep (f x) h) then x # zs else zs)"
    using Cons.prems by (auto simp: Let_def split: prod.splits)
  from Cons.IH [OF z(1)] retain_halving_subset [OF z(1)] Cons.prems(2) z(2) show ?case by auto
qed simp

lemma length_filter_sort: "length (filter P (sort xs)) = length (filter P (xs :: nat list))"
  by (metis mset_filter mset_sort size_mset)

lemma sorted_counts:
  assumes "sorted s" and "r < length (s :: nat list)"
  shows "length (filter (\<lambda>e. e > s ! r) s) < length s - r" and "length s - r \<le> length (filter (\<lambda>e. s ! r \<le> e) s)"
proof -
  have s: "s = take (r + 1) s @ drop (r + 1) s" "s = take r s @ drop r s" by simp_all
  have "\<forall>e \<in> set (take (r + 1) s). e \<le> s ! r"
    using assms by (auto simp: in_set_conv_nth sorted_nth_mono)
  then have "filter (\<lambda>e. e > s ! r) (take (r + 1) s) = []" by (auto simp: filter_empty_conv)
  then have "length (filter (\<lambda>e. e > s ! r) s) = length (filter (\<lambda>e. e > s ! r) (drop (r + 1) s))"
    by (metis append_Nil filter_append s(1))
  also have "\<dots> \<le> length (drop (r + 1) s)" by (rule length_filter_le)
  finally show "length (filter (\<lambda>e. e > s ! r) s) < length s - r" using assms(2) by simp
  have "\<forall>e \<in> set (drop r s). s ! r \<le> e" using assms by (auto simp: in_set_conv_nth sorted_nth_mono)
  then have "filter (\<lambda>e. s ! r \<le> e) (drop r s) = drop r s" by (simp add: filter_id_conv)
  then have "length (filter (\<lambda>e. s ! r \<le> e) s) = length (filter (\<lambda>e. s ! r \<le> e) (take r s)) + (length s - r)"
    by (metis filter_append length_append length_drop s(2))
  then show "length s - r \<le> length (filter (\<lambda>e. s ! r \<le> e) s)" by simp
qed

lemma halving_plan_keeps:
  assumes "halving_plan es target = Some h" and "\<forall>e \<in> set es. e \<le> u64_MAX"
  shows "kept es h = target"
proof (cases "target = 0")
  case True
  then have h: "h = \<lparr>cutoff = u64_MAX, ties_to_keep = 0\<rparr>"
    using assms(1) by (auto simp: halving_plan_def split: if_splits)
  have "filter (\<lambda>e. e > u64_MAX) es = []" using assms(2) by (auto simp: filter_empty_conv not_less)
  with True h show ?thesis by simp
next
  case False
  let ?r = "length es - target"
  let ?c = "sort es ! ?r"
  have n: "target < length es" using assms(1) by (auto simp: halving_plan_def split: if_splits)
  have h: "h = \<lparr>cutoff = ?c, ties_to_keep = target - length (filter (\<lambda>e. e > ?c) es)\<rparr>"
    using assms(1) False n by (auto simp: halving_plan_def Let_def)
  have "?r < length (sort es)" using n False by simp
  from sorted_counts [OF _ this]
  have c: "length (filter (\<lambda>e. e > ?c) es) < target" "target \<le> length (filter (\<lambda>e. ?c \<le> e) es)"
    using n by (simp_all add: length_filter_sort)
  have "length (filter (\<lambda>e. d \<le> e) es) = length (filter (\<lambda>e. e > d) es) + length (filter (\<lambda>e. e = d) es)" for d :: nat
    by (induction es) auto
  with c h show ?thesis by simp
qed

lemma kept_append: "kept (xs @ ys) h =
    kept xs h + kept ys (h\<lparr>ties_to_keep := ties_to_keep h - length (filter (\<lambda>e. e = cutoff h) xs)\<rparr>)"
  by auto

lemma length_filter_eq: "length (filter (\<lambda>x. f x = c) xs) = length (filter (\<lambda>e. e = c) (map f xs))"
  by (simp add: filter_map comp_def)

text \<open>One plan over two maps keeps what it keeps of both together.\<close>

lemma retain_halving_two:
  assumes "retain_halving f xs h = (xs', h1)" and "retain_halving g ys h1 = (ys', h2)"
  shows "length xs' + length ys' = kept (map f xs @ map g ys) h"
proof -
  have "h1 = h\<lparr>ties_to_keep := ties_to_keep h - length (filter (\<lambda>e. e = cutoff h) (map f xs))\<rparr>"
    using retain_halving_counts [OF assms(1)] length_filter_eq [of f] by (cases h1; cases h) auto
  with retain_halving_counts [OF assms(1)] retain_halving_counts [OF assms(2)] show ?thesis
    unfolding kept_append by simp
qed

section \<open>Tables\<close>

text \<open>A map as an association list: distinct keys, and \<open>R\<close> of every key and its value.\<close>

definition tab_ok :: "('k \<Rightarrow> 'v \<Rightarrow> bool) \<Rightarrow> ('k \<times> 'v) list \<Rightarrow> bool" where
  "tab_ok R t \<longleftrightarrow> distinct (map fst t) \<and> (\<forall>(k, e) \<in> set t. R k e)"

lemma tab_ok_nil [simp]: "tab_ok R []"
  by (simp add: tab_ok_def)

lemma update_subset: "set (AList.update k e t) \<subseteq> insert (k, e) (set t)"
  by (induction t) auto

lemma tab_ok_update: "tab_ok R t \<Longrightarrow> R k e \<Longrightarrow> tab_ok R (AList.update k e t)"
  unfolding tab_ok_def using update_subset [of k e t] by (auto simp: AList.distinct_update)

lemma tab_ok_subset: "tab_ok R t \<Longrightarrow> set t' \<subseteq> set t \<Longrightarrow> distinct (map fst t') \<Longrightarrow> tab_ok R t'"
  by (auto simp: tab_ok_def)

lemma tab_ok_filter: "tab_ok R t \<Longrightarrow> tab_ok R (filter P t)"
  by (auto simp: tab_ok_def distinct_map_filter)

lemma tab_ok_delete: "tab_ok R t \<Longrightarrow> tab_ok R (AList.delete k t)"
  by (simp add: AList.delete_eq tab_ok_filter)

lemma tab_ok_find: "tab_ok R t \<Longrightarrow> map_of t k = Some e \<Longrightarrow> R k e"
  by (auto simp: tab_ok_def dest: map_of_SomeD)

lemma tab_ok_mono: "tab_ok R t \<Longrightarrow> (\<And>k e. R k e \<Longrightarrow> S k e) \<Longrightarrow> tab_ok S t"
  by (auto simp: tab_ok_def)

lemma tab_ok_retain: "tab_ok R t \<Longrightarrow> retain_halving f t h = (t', h') \<Longrightarrow> tab_ok R t'"
  using tab_ok_subset [of R t t'] retain_halving_subset [of f t h t' h'] retain_halving_map_distinct [of f t h t' h' fst]
  by (simp add: tab_ok_def)

lemma length_update: "length (AList.update k e t) = (if k \<in> fst ` set t then length t else length t + 1)"
  by (induction t) auto

lemma sub_table: "tab_ok R t \<Longrightarrow> set t' \<subseteq> set t \<Longrightarrow> map_of t' k = Some e \<Longrightarrow> map_of t k = Some e"
  by (meson map_of_SomeD map_of_is_SomeI subsetD tab_ok_def)

section \<open>A bounded store\<close>

text \<open>
  The interface of a cache to its bound: making room frees a place of a full store, and an insert
  takes at most one. A store that makes room before it inserts then never passes its bound.
  \<open>known\<close> is whether the key's presence excuses making room.
\<close>

locale bounded_store =
  fixes store_size :: "'s \<Rightarrow> nat" and store_cap :: "'s \<Rightarrow> nat" and store_inv :: "'s \<Rightarrow> bool"
    and store_has :: "'k \<Rightarrow> 's \<Rightarrow> bool" and store_room :: "nat \<Rightarrow> 's \<Rightarrow> 's" and store_insert :: "'k \<Rightarrow> 'e \<Rightarrow> 's \<Rightarrow> 's"
    and known :: "bool"
  assumes room: "store_inv s \<Longrightarrow> 0 < store_cap s \<Longrightarrow> store_size s = store_cap s \<Longrightarrow>
      store_size (store_room now s) < store_cap s \<and> store_inv (store_room now s) \<and> store_cap (store_room now s) = store_cap s"
    and grows: "store_inv s \<Longrightarrow> store_size (store_insert k e s) = (if store_has k s then store_size s else store_size s + 1)"
    and cap_kept: "store_cap (store_insert k e s) = store_cap s"
begin

definition bounded_put :: "nat \<Rightarrow> 'k \<Rightarrow> 'e \<Rightarrow> 's \<Rightarrow> 's" where
  "bounded_put now k e s =
     store_insert k e (if \<not> (known \<and> store_has k s) \<and> store_size s \<ge> store_cap s then store_room now s else s)"

lemma bounded_put_bounded:
  assumes "store_inv s" and "0 < store_cap s" and "store_size s \<le> store_cap s"
  shows "store_size (bounded_put now k e s) \<le> store_cap (bounded_put now k e s)"
    and "store_cap (bounded_put now k e s) = store_cap s"
proof -
  show c: "store_cap (bounded_put now k e s) = store_cap s"
    using room [OF assms(1,2)] assms(3) by (simp add: bounded_put_def cap_kept)
  show "store_size (bounded_put now k e s) \<le> store_cap (bounded_put now k e s)"
    unfolding c using room [OF assms(1,2), of now] assms grows by (auto simp: bounded_put_def)
qed

end

section \<open>Properties\<close>

text \<open>
  Halving keeps the latest. Where more than \<open>target\<close> entries are held, a pass with the plan leaves exactly
  \<open>target\<close> of them, ties at the boundary included, each of which expires no earlier than every entry removed;
  with a target of zero it removes everything.
\<close>

theorem halving_correct:
  assumes "halving_plan (map f xs) target = Some h" and "\<forall>x \<in> set xs. f x \<le> u64_MAX"
    and "retain_halving f xs h = (ys, h')"
  shows "length ys = target \<and> set ys \<subseteq> set xs \<and> (\<forall>x \<in> set xs - set ys. \<forall>y \<in> set ys. f x \<le> f y)"
proof -
  have "length ys = target"
    using halving_plan_keeps [OF assms(1)] retain_halving_counts [OF assms(3)] assms(2) by simp
  with retain_halving_subset [OF assms(3)] show ?thesis by (meson order_trans)
qed

theorem halving_correct_witness:
  "length (fst (retain_halving id [7, 3, 7, 7, 9] \<lparr>cutoff = 7, ties_to_keep = 1\<rparr>)) = 2 \<and>
   fst (retain_halving id [7, 3, 7, 7, 9] \<lparr>cutoff = 7, ties_to_keep = 1\<rparr>) = [7, 9]"
proof -
  have p: "halving_plan (map id [7, 3, 7, 7, 9]) 2 = Some \<lparr>cutoff = 7, ties_to_keep = 1\<rparr>" by code_simp
  have r: "retain_halving id [7, 3, 7, 7, 9] \<lparr>cutoff = 7, ties_to_keep = 1\<rparr> = ([7, 9], \<lparr>cutoff = 7, ties_to_keep = 0\<rparr>)"
    by code_simp
  have "\<forall>x \<in> set [7, 3, 7, 7, 9 :: nat]. id x \<le> u64_MAX" by (simp add: u64_MAX_def)
  from halving_correct [OF p this r] r show ?thesis by simp
qed

end
