(* ===== verification/AnswerCache.thy ===== *)
theory AnswerCache
  imports Eviction
begin

text \<open>
  The resolver's cache of answers, \<^verbatim>\<open>rdns/src/cache.rs\<close>, with every operation of \<^verbatim>\<open>DnsCache\<close>. The
  clock is an argument of the operations that read it, twice where the code reads it twice, and
  a mutex is the state it guards with a flag for poisoning. A run is a sequence of operations;
  the theorems say what every run keeps, and what a hit says of the puts before it.
\<close>

section \<open>The code\<close>

datatype outcome = Secure | Insecure | Bogus | Indeterminate

definition outcome_is_secure :: "outcome \<Rightarrow> bool" where
  "outcome_is_secure o' \<longleftrightarrow> o' = Secure"

definition MAX_CACHE_TTL :: nat where "MAX_CACHE_TTL = 86400"
definition STALE_ANSWER_TTL :: u32 where "STALE_ANSWER_TTL = 30"
definition PREFETCH_AT :: nat where "PREFETCH_AT = 10"

record answer_entry =
  ae_records :: "resource_record list"
  ae_expires_at :: deadline
  ae_ttl :: nat
  ae_outcome :: outcome
  ae_refreshing :: bool
  ae_stale_refresh_after :: deadline
  ae_learned_at :: nat

definition is_expired :: "answer_entry \<Rightarrow> nat \<Rightarrow> bool" where
  "is_expired e now \<longleftrightarrow> \<not> is_live (ae_expires_at e) now"

definition nearly_expired :: "answer_entry \<Rightarrow> nat \<Rightarrow> bool" where
  "nearly_expired e now \<longleftrightarrow> remaining (ae_expires_at e) now \<le> ae_ttl e div PREFETCH_AT"

record cached =
  hit_records :: "resource_record list"
  hit_outcome :: outcome
  hit_refresh :: bool
  hit_learned_at :: nat

record dumped =
  du_records :: "resource_record list"
  du_remaining :: nat
  du_stale :: bool
  du_outcome :: outcome

record dns_cache =
  dc_table :: "(name_type_key \<times> answer_entry) list"
  dc_max_entries :: nat
  dc_stale :: stale_policy
  dc_poisoned :: bool

definition dns_cache_new :: "nat \<Rightarrow> dns_cache" where
  "dns_cache_new max_entries = \<lparr>dc_table = [], dc_max_entries = max_entries, dc_stale = STALE_OFF, dc_poisoned = False\<rparr>"

definition with_stale :: "nat \<Rightarrow> stale_policy \<Rightarrow> dns_cache" where
  "with_stale max_entries stale = (dns_cache_new max_entries)\<lparr>dc_stale := stale\<rparr>"

definition cache_lookup :: "nat \<Rightarrow> name \<Rightarrow> qtype \<Rightarrow> bool \<Rightarrow> dns_cache \<Rightarrow> cached option \<times> dns_cache" where
  "cache_lookup now n t prefetching c =
     (if dc_poisoned c then (None, c)
      else
        let key = name_type_key_new n t in
        case map_of (dc_table c) key of
          None \<Rightarrow> (None, c)
        | Some e \<Rightarrow>
            if \<not> is_expired e now then
              let refresh = prefetching \<and> \<not> ae_refreshing e \<and> nearly_expired e now;
                  e' = (if refresh then e\<lparr>ae_refreshing := True\<rparr> else e) in
              (Some \<lparr>hit_records = ae_records e, hit_outcome = ae_outcome e, hit_refresh = refresh,
                     hit_learned_at = ae_learned_at e\<rparr>,
               c\<lparr>dc_table := AList.update key e' (dc_table c)\<rparr>)
            else if \<not> policy_keeps (dc_stale c) (ae_expires_at e) now
            then (None, c\<lparr>dc_table := AList.delete key (dc_table c)\<rparr>)
            else (None, c))"

definition cache_get_validated :: "nat \<Rightarrow> name \<Rightarrow> qtype \<Rightarrow> dns_cache \<Rightarrow> (resource_record list \<times> bool) option \<times> dns_cache" where
  "cache_get_validated now n t c =
     (let (hit, c) = cache_lookup now n t False c in
      (map_option (\<lambda>h. (hit_records h, outcome_is_secure (hit_outcome h))) hit, c))"

definition cache_get :: "nat \<Rightarrow> name \<Rightarrow> qtype \<Rightarrow> dns_cache \<Rightarrow> resource_record list option \<times> dns_cache" where
  "cache_get now n t c = (let (r, c) = cache_get_validated now n t c in (map_option fst r, c))"

definition cache_get_stale :: "nat \<Rightarrow> name \<Rightarrow> qtype \<Rightarrow> bool \<Rightarrow> dns_cache \<Rightarrow> cached option \<times> dns_cache" where
  "cache_get_stale now n t refreshing c =
     (if \<not> stale_is_on (dc_stale c) then (None, c)
      else if dc_poisoned c then (None, c)
      else
        let key = name_type_key_new n t in
        case map_of (dc_table c) key of
          None \<Rightarrow> (None, c)
        | Some e \<Rightarrow>
            if is_expired e now \<and> policy_keeps (dc_stale c) (ae_expires_at e) now then
              let (refresh, after) = claim_stale_refresh refreshing now (ae_stale_refresh_after e) in
              (Some \<lparr>hit_records = map (\<lambda>rr. rr\<lparr>rr_ttl := STALE_ANSWER_TTL\<rparr>) (ae_records e),
                     hit_outcome = ae_outcome e, hit_refresh = refresh, hit_learned_at = ae_learned_at e\<rparr>,
               c\<lparr>dc_table := AList.update key (e\<lparr>ae_stale_refresh_after := after\<rparr>) (dc_table c)\<rparr>)
            else (None, c))"

definition evict_oldest :: "nat \<Rightarrow> dns_cache \<Rightarrow> dns_cache" where
  "evict_oldest now c =
     (let t = filter (\<lambda>(_, e). policy_keeps (dc_stale c) (ae_expires_at e) now) (dc_table c) in
      case halving_plan (map (\<lambda>(_, e). ae_expires_at e) t) (dc_max_entries c div 2) of
        None \<Rightarrow> c\<lparr>dc_table := t\<rparr>
      | Some plan \<Rightarrow> c\<lparr>dc_table := fst (retain_halving (\<lambda>(_, e). ae_expires_at e) t plan)\<rparr>)"

text \<open>The shortest TTL of the records, each capped at a day.\<close>

definition min_ttl :: "resource_record list \<Rightarrow> nat" where
  "min_ttl records =
     (case map (\<lambda>r. unat (ttl_capped_at (rr_ttl r) (of_nat MAX_CACHE_TTL))) records of
        [] \<Rightarrow> 300 | t # ts \<Rightarrow> foldl min t ts)"

definition entry_of :: "nat \<Rightarrow> resource_record list \<Rightarrow> outcome \<Rightarrow> answer_entry" where
  "entry_of now records out =
     \<lparr>ae_records = records, ae_expires_at = deadline_after now (min_ttl records), ae_ttl = min_ttl records,
      ae_outcome = out, ae_refreshing = False, ae_stale_refresh_after = 0, ae_learned_at = now\<rparr>"

definition put_validated ::
  "nat \<Rightarrow> nat \<Rightarrow> name \<Rightarrow> qtype \<Rightarrow> resource_record list \<Rightarrow> outcome \<Rightarrow> dns_cache \<Rightarrow> dns_cache" where
  "put_validated now now' n t records out c =
     (if records = [] \<or> dc_max_entries c = 0 then c
      else if dc_poisoned c then c
      else
        let c = (if length (dc_table c) \<ge> dc_max_entries c then evict_oldest now' c else c) in
        c\<lparr>dc_table := AList.update (name_type_key_new n t) (entry_of now records out) (dc_table c)\<rparr>)"

definition cache_put :: "nat \<Rightarrow> nat \<Rightarrow> name \<Rightarrow> qtype \<Rightarrow> resource_record list \<Rightarrow> dns_cache \<Rightarrow> dns_cache" where
  "cache_put now now' n t records c = put_validated now now' n t records Indeterminate c"

definition get_stats :: "nat \<Rightarrow> dns_cache \<Rightarrow> nat \<times> nat \<times> nat" where
  "get_stats now c =
     (if dc_poisoned c then (0, 0, 0)
      else
        let expired = length (filter (\<lambda>(_, e). is_expired e now) (dc_table c)); total = length (dc_table c) in
        (total, total - expired, expired))"

definition cache_forget_at_or_below :: "name \<Rightarrow> dns_cache \<Rightarrow> nat \<times> dns_cache" where
  "cache_forget_at_or_below node c =
     (if dc_poisoned c then (0, c)
      else
        let t = filter (\<lambda>(key, _). \<not> is_at_or_below (fst key) node) (dc_table c) in
        (length (dc_table c) - length t, c\<lparr>dc_table := t\<rparr>))"

definition cache_forget_name :: "name \<Rightarrow> dns_cache \<Rightarrow> nat \<times> dns_cache" where
  "cache_forget_name n c =
     (if dc_poisoned c then (0, c)
      else
        let t = filter (\<lambda>(key, _). fst key \<noteq> folded n) (dc_table c) in
        (length (dc_table c) - length t, c\<lparr>dc_table := t\<rparr>))"

definition cache_len :: "dns_cache \<Rightarrow> nat" where
  "cache_len c = (if dc_poisoned c then 0 else length (dc_table c))"

definition cache_dump :: "nat \<Rightarrow> name \<Rightarrow> dns_cache \<Rightarrow> dumped list" where
  "cache_dump now node c =
     (if dc_poisoned c then []
      else map (\<lambda>(_, e). \<lparr>du_records = ae_records e, du_remaining = remaining (ae_expires_at e) now,
                          du_stale = is_expired e now, du_outcome = ae_outcome e\<rparr>)
             (filter (\<lambda>(key, _). is_at_or_below (fst key) node) (dc_table c)))"

definition cache_clear :: "dns_cache \<Rightarrow> dns_cache" where
  "cache_clear c = (if dc_poisoned c then c else c\<lparr>dc_table := []\<rparr>)"

section \<open>Entries and tables\<close>

lemma foldl_min_le: "foldl min (t :: nat) ts \<le> t"
proof (induction ts arbitrary: t)
  case (Cons u ts)
  from Cons.IH [of "min t u"] show ?case by simp
qed simp

lemma capped_le: "unat (ttl_capped_at t (of_nat MAX_CACHE_TTL)) \<le> MAX_CACHE_TTL"
proof -
  have "unat (of_nat MAX_CACHE_TTL :: u32) = MAX_CACHE_TTL" by (simp add: MAX_CACHE_TTL_def)
  then show ?thesis by (auto simp: ttl_capped_at_def word_less_nat_alt)
qed

lemma min_ttl_Min:
  "records \<noteq> [] \<Longrightarrow> min_ttl records = Min ((\<lambda>r. min (unat (rr_ttl r)) MAX_CACHE_TTL) ` set records)"
proof (cases records)
  case (Cons r rs)
  have f: "foldl min t ts = Min (insert t (set ts))" for t :: nat and ts
  proof (induction ts arbitrary: t)
    case (Cons u ts)
    have "Min (insert (min t u) (set ts)) = Min (insert t (insert u (set ts)))" by (cases "ts = []") (simp_all add: min.assoc)
    then show ?case using Cons [of "min t u"] by simp
  qed simp
  have c: "unat (ttl_capped_at t (of_nat MAX_CACHE_TTL)) = min (unat t) MAX_CACHE_TTL" for t
    by (auto simp: ttl_capped_at_def MAX_CACHE_TTL_def min_def word_le_nat_alt word_less_nat_alt)
  show ?thesis unfolding min_ttl_def Cons by (simp add: f c)
qed simp

lemma min_ttl_le: "min_ttl records \<le> MAX_CACHE_TTL"
proof (cases records)
  case (Cons r rs)
  have "foldl min (unat (ttl_capped_at (rr_ttl r) (of_nat MAX_CACHE_TTL))) ts \<le> MAX_CACHE_TTL" for ts
    by (rule order_trans [OF foldl_min_le capped_le])
  with Cons show ?thesis by (simp only: min_ttl_def list.map list.case)
qed (simp add: min_ttl_def MAX_CACHE_TTL_def)

definition answer_ok :: "answer_entry \<Rightarrow> bool" where
  "answer_ok e \<longleftrightarrow> ae_records e \<noteq> [] \<and> ae_ttl e = min_ttl (ae_records e) \<and>
     ae_expires_at e = deadline_after (ae_learned_at e) (ae_ttl e) \<and> ae_stale_refresh_after e \<le> u64_MAX"

abbreviation table_ok :: "(name_type_key \<times> answer_entry) list \<Rightarrow> bool" where
  "table_ok \<equiv> tab_ok (\<lambda>_. answer_ok)"

definition cache_inv :: "dns_cache \<Rightarrow> bool" where
  "cache_inv c \<longleftrightarrow> table_ok (dc_table c) \<and> length (dc_table c) \<le> dc_max_entries c"

lemma deadline_le [simp]: "deadline_after now secs \<le> u64_MAX"
  by (simp add: deadline_after_def saturating_add_def)

lemma entry_of_ok: "records \<noteq> [] \<Longrightarrow> answer_ok (entry_of now records out)"
  by (simp add: answer_ok_def entry_of_def)

lemma answer_ok_expires: "answer_ok e \<Longrightarrow> ae_expires_at e \<le> u64_MAX"
  by (simp add: answer_ok_def)

lemma evict_oldest_frame [simp]:
  "dc_max_entries (evict_oldest now c) = dc_max_entries c" "dc_stale (evict_oldest now c) = dc_stale c"
  "dc_poisoned (evict_oldest now c) = dc_poisoned c"
  by (simp_all add: evict_oldest_def Let_def split: option.splits)

lemma evict_oldest_table:
  assumes "table_ok (dc_table c)"
  shows "table_ok (dc_table (evict_oldest now c)) \<and> set (dc_table (evict_oldest now c)) \<subseteq> set (dc_table c) \<and>
    length (dc_table (evict_oldest now c)) \<le> dc_max_entries c div 2"
proof -
  let ?t = "filter (\<lambda>(_, e). policy_keeps (dc_stale c) (ae_expires_at e) now) (dc_table c)" and ?f = "\<lambda>(_, e). ae_expires_at e"
  have t: "table_ok ?t" using assms by (rule tab_ok_filter)
  have le: "\<forall>x \<in> set ?t. ?f x \<le> u64_MAX" using t answer_ok_expires by (auto simp: tab_ok_def)
  show ?thesis
  proof (cases "halving_plan (map ?f ?t) (dc_max_entries c div 2)")
    case None
    then have "length ?t \<le> dc_max_entries c div 2" by (auto simp: halving_plan_def Let_def split: if_splits)
    with None t show ?thesis by (auto simp: evict_oldest_def Let_def)
  next
    case (Some h)
    obtain ys h' where r: "retain_halving ?f ?t h = (ys, h')" by fastforce
    have "table_ok ys" by (rule tab_ok_retain [OF t r])
    moreover have "length ys = dc_max_entries c div 2"
      using halving_plan_keeps [OF Some] le retain_halving_counts [OF r] by simp
    ultimately show ?thesis
      using Some r retain_halving_subset [OF r] by (auto simp: evict_oldest_def Let_def)
  qed
qed

definition table_insert :: "name_type_key \<Rightarrow> answer_entry \<Rightarrow> dns_cache \<Rightarrow> dns_cache" where
  "table_insert k e c = c\<lparr>dc_table := AList.update k e (dc_table c)\<rparr>"

interpretation answers: bounded_store "\<lambda>c. length (dc_table c)" dc_max_entries "\<lambda>c. table_ok (dc_table c)"
  "\<lambda>k c. k \<in> fst ` set (dc_table c)" evict_oldest table_insert False
proof
  fix c :: dns_cache and now
  assume c: "table_ok (dc_table c)" "0 < dc_max_entries c" "length (dc_table c) = dc_max_entries c"
  then show "length (dc_table (evict_oldest now c)) < dc_max_entries c \<and> table_ok (dc_table (evict_oldest now c)) \<and>
      dc_max_entries (evict_oldest now c) = dc_max_entries c"
    using evict_oldest_table [OF c(1), of now] by auto
qed (simp_all add: table_insert_def length_update)

lemma put_validated_conv:
  "put_validated now now' n t records out c =
     (if records = [] \<or> dc_max_entries c = 0 \<or> dc_poisoned c then c
      else answers.bounded_put now' (name_type_key_new n t) (entry_of now records out) c)"
  by (simp add: put_validated_def answers.bounded_put_def table_insert_def Let_def)

lemma put_validated_table:
  assumes "records \<noteq> []" and "dc_max_entries c \<noteq> 0" and "\<not> dc_poisoned c"
  shows "dc_table (put_validated now now' n t records out c) = AList.update (name_type_key_new n t) (entry_of now records out)
     (dc_table (if length (dc_table c) \<ge> dc_max_entries c then evict_oldest now' c else c))"
  using assms by (simp add: put_validated_def Let_def)

section \<open>Runs\<close>

datatype cache_op =
    Lookup nat name qtype bool
  | GetStale nat name qtype bool
  | Put nat nat name qtype "resource_record list" outcome
  | ForgetBelow name
  | ForgetName name
  | Clear

fun cache_do :: "cache_op \<Rightarrow> dns_cache \<Rightarrow> cached option \<times> dns_cache" where
  "cache_do (Lookup now n t p) c = cache_lookup now n t p c"
| "cache_do (GetStale now n t r) c = cache_get_stale now n t r c"
| "cache_do (Put now now' n t rs out) c = (None, put_validated now now' n t rs out c)"
| "cache_do (ForgetBelow n) c = (None, snd (cache_forget_at_or_below n c))"
| "cache_do (ForgetName n) c = (None, snd (cache_forget_name n c))"
| "cache_do Clear c = (None, cache_clear c)"

text \<open>A run and its events: each operation with what it answered.\<close>

inductive cache_run :: "dns_cache \<Rightarrow> (cache_op \<times> cached option) list \<Rightarrow> dns_cache \<Rightarrow> bool" where
  run_nil: "cache_run c [] c"
| run_step: "cache_run c es c' \<Longrightarrow> cache_do op c' = (r, c'') \<Longrightarrow> cache_run c (es @ [(op, r)]) c''"

inductive_cases cache_run_snocE: "cache_run c (es @ [e]) c'"

subsection \<open>What a step does to an entry\<close>

lemma put_validated_inv: "cache_inv c \<Longrightarrow> cache_inv (put_validated now now' n t records out c)"
proof (cases "records = [] \<or> dc_max_entries c = 0 \<or> dc_poisoned c")
  case False
  assume inv: "cache_inv c"
  let ?c = "if length (dc_table c) \<ge> dc_max_entries c then evict_oldest now' c else c"
  have "table_ok (dc_table ?c)" using inv evict_oldest_table by (auto simp: cache_inv_def)
  then have "table_ok (dc_table (put_validated now now' n t records out c))"
    using False entry_of_ok by (auto simp: put_validated_def Let_def intro!: tab_ok_update)
  moreover have "length (dc_table (put_validated now now' n t records out c)) \<le> dc_max_entries (put_validated now now' n t records out c)"
    using False inv answers.bounded_put_bounded [of c now'] by (simp add: put_validated_conv cache_inv_def)
  ultimately show ?thesis by (simp add: cache_inv_def)
qed (simp add: put_validated_conv)

fun put_entry :: "cache_op \<Rightarrow> (name_type_key \<times> answer_entry) option" where
  "put_entry (Put now now' n t rs out) = (if rs = [] then None else Some (name_type_key_new n t, entry_of now rs out))"
| "put_entry _ = None"

definition same_answer :: "answer_entry \<Rightarrow> answer_entry \<Rightarrow> bool" where
  "same_answer e e' \<longleftrightarrow> ae_records e' = ae_records e \<and> ae_outcome e' = ae_outcome e \<and> ae_ttl e' = ae_ttl e \<and>
     ae_expires_at e' = ae_expires_at e \<and> ae_learned_at e' = ae_learned_at e"

definition advances :: "answer_entry \<Rightarrow> answer_entry \<Rightarrow> bool" where
  "advances e e' \<longleftrightarrow> same_answer e e' \<and> (ae_refreshing e \<longrightarrow> ae_refreshing e') \<and>
     ae_stale_refresh_after e \<le> ae_stale_refresh_after e'"

lemma advances_refl [simp]: "advances e e"
  by (simp add: advances_def same_answer_def)

lemma advances_trans: "advances a b \<Longrightarrow> advances b c \<Longrightarrow> advances a c"
  by (auto simp: advances_def same_answer_def)

lemma claim_later:
  "claim_stale_refresh refreshing now d = (r, d') \<Longrightarrow> d \<le> u64_MAX \<Longrightarrow> d \<le> d' \<and> d' \<le> u64_MAX \<and>
   (r \<longrightarrow> d \<le> now \<and> d' = saturating_add now STALE_REFRESH_INTERVAL)"
  by (auto simp: claim_stale_refresh_def deadline_after_def saturating_add_def is_live_def Let_def)

text \<open>The three shapes of an answer's lookup, and the two of a stale one's.\<close>

lemma cache_lookup_cases:
  obtains (unchanged) "cache_lookup now n t p c = (None, c)"
  | (dropped) "cache_lookup now n t p c = (None, c\<lparr>dc_table := AList.delete (name_type_key_new n t) (dc_table c)\<rparr>)"
  | (hit) e r where "map_of (dc_table c) (name_type_key_new n t) = Some e" "now < ae_expires_at e"
      "r \<longleftrightarrow> p \<and> \<not> ae_refreshing e \<and> nearly_expired e now"
      "cache_lookup now n t p c =
         (Some \<lparr>hit_records = ae_records e, hit_outcome = ae_outcome e, hit_refresh = r, hit_learned_at = ae_learned_at e\<rparr>,
          c\<lparr>dc_table := AList.update (name_type_key_new n t) (e\<lparr>ae_refreshing := ae_refreshing e \<or> r\<rparr>) (dc_table c)\<rparr>)"
proof (cases "dc_poisoned c")
  case False
  show ?thesis
  proof (cases "map_of (dc_table c) (name_type_key_new n t)")
    case None
    with False unchanged show ?thesis by (simp add: cache_lookup_def)
  next
    case (Some e)
    show ?thesis
    proof (cases "is_expired e now")
      case True
      with Some False unchanged dropped show ?thesis
        by (cases "policy_keeps (dc_stale c) (ae_expires_at e) now") (simp_all add: cache_lookup_def)
    next
      case nexp: False
      let ?r = "p \<and> \<not> ae_refreshing e \<and> nearly_expired e now"
      have "(if ?r then e\<lparr>ae_refreshing := True\<rparr> else e) = e\<lparr>ae_refreshing := ae_refreshing e \<or> ?r\<rparr>" by (cases e) auto
      with Some False nexp show ?thesis
        by (intro hit [of e ?r]) (simp_all add: cache_lookup_def Let_def is_expired_def is_live_def)
    qed
  qed
qed (simp add: cache_lookup_def unchanged)

lemma cache_get_stale_cases:
  obtains (unchanged) "cache_get_stale now n t p c = (None, c)"
  | (hit) e r d where "map_of (dc_table c) (name_type_key_new n t) = Some e" "ae_expires_at e \<le> now"
      "policy_keeps (dc_stale c) (ae_expires_at e) now" "claim_stale_refresh p now (ae_stale_refresh_after e) = (r, d)"
      "cache_get_stale now n t p c =
         (Some \<lparr>hit_records = map (\<lambda>rr. rr\<lparr>rr_ttl := STALE_ANSWER_TTL\<rparr>) (ae_records e), hit_outcome = ae_outcome e,
            hit_refresh = r, hit_learned_at = ae_learned_at e\<rparr>,
          c\<lparr>dc_table := AList.update (name_type_key_new n t) (e\<lparr>ae_stale_refresh_after := d\<rparr>) (dc_table c)\<rparr>)"
proof (cases "\<not> stale_is_on (dc_stale c) \<or> dc_poisoned c")
  case False
  show ?thesis
  proof (cases "map_of (dc_table c) (name_type_key_new n t)")
    case None
    with False unchanged show ?thesis by (simp add: cache_get_stale_def)
  next
    case (Some e)
    obtain r d where rd: "claim_stale_refresh p now (ae_stale_refresh_after e) = (r, d)" by fastforce
    show ?thesis
    proof (cases "is_expired e now \<and> policy_keeps (dc_stale c) (ae_expires_at e) now")
      case True
      with Some False rd show ?thesis
        by (intro hit [of e r d]) (simp_all add: cache_get_stale_def Let_def is_expired_def is_live_def)
    next
      case F: False
      with Some False show ?thesis by (intro unchanged) (auto simp: cache_get_stale_def Let_def)
    qed
  qed
qed (auto simp: cache_get_stale_def unchanged)

lemma cache_do_frame [simp]:
  "dc_max_entries (snd (cache_do op c)) = dc_max_entries c" "dc_stale (snd (cache_do op c)) = dc_stale c"
  "dc_poisoned (snd (cache_do op c)) = dc_poisoned c"
  by (cases op; simp add: cache_lookup_def cache_get_stale_def put_validated_def cache_forget_at_or_below_def
      cache_forget_name_def cache_clear_def Let_def split: option.splits prod.splits)+

lemma advance_ok: "answer_ok e \<Longrightarrow> same_answer e e' \<Longrightarrow> ae_stale_refresh_after e' \<le> u64_MAX \<Longrightarrow> answer_ok e'"
  by (auto simp: answer_ok_def same_answer_def)

lemma cache_inv_update:
  assumes "cache_inv c" and "map_of (dc_table c) k = Some e" and "same_answer e e'" and "ae_stale_refresh_after e' \<le> u64_MAX"
  shows "cache_inv (c\<lparr>dc_table := AList.update k e' (dc_table c)\<rparr>)"
proof -
  have ok: "table_ok (dc_table c)" using assms(1) by (simp add: cache_inv_def)
  have "k \<in> fst ` set (dc_table c)" using assms(2) by (force dest: map_of_SomeD)
  with assms(1) tab_ok_update [OF ok advance_ok [OF tab_ok_find [OF ok assms(2)] assms(3,4)]] show ?thesis
    by (simp add: cache_inv_def length_update)
qed

lemma cache_inv_filter: "cache_inv c \<Longrightarrow> cache_inv (c\<lparr>dc_table := filter P (dc_table c)\<rparr>)"
  by (auto simp: cache_inv_def tab_ok_filter intro: order_trans [OF length_filter_le])

lemma inv_stale_le: "cache_inv c \<Longrightarrow> map_of (dc_table c) k = Some e \<Longrightarrow> ae_stale_refresh_after e \<le> u64_MAX"
  using tab_ok_find [of "\<lambda>_. answer_ok" "dc_table c" k e] by (simp add: cache_inv_def answer_ok_def)

lemma cache_do_inv:
  assumes "cache_inv c"
  shows "cache_inv (snd (cache_do op c))"
proof (cases op)
  case (Lookup now n t p)
  show ?thesis
  proof (rule cache_lookup_cases [of now n t p c])
    fix e r
    assume "map_of (dc_table c) (name_type_key_new n t) = Some e"
    from cache_inv_update [OF assms this] inv_stale_le [OF assms this]
    show ?thesis if "cache_lookup now n t p c =
         (Some \<lparr>hit_records = ae_records e, hit_outcome = ae_outcome e, hit_refresh = r, hit_learned_at = ae_learned_at e\<rparr>,
          c\<lparr>dc_table := AList.update (name_type_key_new n t) (e\<lparr>ae_refreshing := ae_refreshing e \<or> r\<rparr>) (dc_table c)\<rparr>)"
      using that Lookup by (simp add: same_answer_def)
  qed (use Lookup assms cache_inv_filter in \<open>auto simp: AList.delete_eq\<close>)
next
  case (GetStale now n t p)
  show ?thesis
  proof (rule cache_get_stale_cases [of now n t p c])
    fix e r d
    assume "map_of (dc_table c) (name_type_key_new n t) = Some e" "claim_stale_refresh p now (ae_stale_refresh_after e) = (r, d)"
    with cache_inv_update [OF assms this(1)] claim_later [OF this(2) inv_stale_le [OF assms this(1)]]
    show ?thesis if "cache_get_stale now n t p c =
         (Some \<lparr>hit_records = map (\<lambda>rr. rr\<lparr>rr_ttl := STALE_ANSWER_TTL\<rparr>) (ae_records e), hit_outcome = ae_outcome e,
            hit_refresh = r, hit_learned_at = ae_learned_at e\<rparr>,
          c\<lparr>dc_table := AList.update (name_type_key_new n t) (e\<lparr>ae_stale_refresh_after := d\<rparr>) (dc_table c)\<rparr>)"
      using that GetStale by (simp add: same_answer_def)
  qed (use GetStale assms in auto)
next
  case Clear
  with assms show ?thesis by (auto simp: cache_clear_def cache_inv_def tab_ok_def)
qed (use assms cache_inv_filter put_validated_inv in \<open>auto simp: cache_forget_at_or_below_def cache_forget_name_def Let_def\<close>)

lemma step_entry:
  assumes inv: "cache_inv c" and k: "map_of (dc_table (snd (cache_do op c))) k = Some e'"
  shows "put_entry op = Some (k, e') \<or> (\<exists>e. map_of (dc_table c) k = Some e \<and> advances e e')"
proof -
  have ok: "table_ok (dc_table c)" using inv by (simp add: cache_inv_def)
  have keep: "\<exists>e. map_of (dc_table c) k = Some e \<and> advances e e'" if "set t \<subseteq> set (dc_table c)" "map_of t k = Some e'" for t
    using sub_table [OF ok that] by auto
  have upd: "\<exists>e. map_of (dc_table c) k = Some e \<and> advances e e'"
    if "map_of (AList.update k' b (dc_table c)) k = Some e'" "map_of (dc_table c) k' = Some a" "advances a b" for k' a b
    using that by (auto simp: AList.update_conv' split: if_splits)
  show ?thesis
  proof (cases op)
    case (Lookup now n t p)
    with k show ?thesis
    proof (cases rule: cache_lookup_cases [of now n t p c])
      case dropped
      with Lookup k keep [of "AList.delete (name_type_key_new n t) (dc_table c)"] show ?thesis by (simp add: AList.delete_eq)
    next
      case (hit e r)
      have "advances e (e\<lparr>ae_refreshing := ae_refreshing e \<or> r\<rparr>)" by (simp add: advances_def same_answer_def)
      with Lookup k hit(4) upd [OF _ hit(1)] show ?thesis by simp
    qed auto
  next
    case (GetStale now n t p)
    with k show ?thesis
    proof (cases rule: cache_get_stale_cases [of now n t p c])
      case (hit e r d)
      with GetStale k claim_later [OF hit(4) inv_stale_le [OF inv hit(1)]] show ?thesis
        by (auto simp: advances_def same_answer_def dest!: upd)
    qed auto
  next
    case (Put now now' n t rs out)
    show ?thesis
    proof (cases "rs = [] \<or> dc_max_entries c = 0 \<or> dc_poisoned c")
      case True
      with k Put show ?thesis by (auto simp: put_validated_conv)
    next
      case False
      let ?c = "if length (dc_table c) \<ge> dc_max_entries c then evict_oldest now' c else c"
      have sub: "set (dc_table ?c) \<subseteq> set (dc_table c)" using evict_oldest_table [OF ok] by auto
      have "map_of (AList.update (name_type_key_new n t) (entry_of now rs out) (dc_table ?c)) k = Some e'"
        using k Put False by (simp add: put_validated_table)
      then show ?thesis using Put False keep [OF sub] by (auto simp: AList.update_conv' split: if_splits)
    qed
  qed (use k keep [OF filter_is_subset] in
      \<open>auto simp: cache_forget_at_or_below_def cache_forget_name_def cache_clear_def Let_def split: if_splits\<close>)
qed

subsection \<open>What the puts of a run say\<close>

text \<open>
  The specification: the last put of each question, less what was forgotten. It has no bound, no
  expiry and no flags.
\<close>

fun cache_spec_do :: "cache_op \<Rightarrow> (name_type_key \<Rightarrow> answer_entry option) \<Rightarrow> name_type_key \<Rightarrow> answer_entry option" where
  "cache_spec_do (Put now now' n t rs out) m =
     (if rs = [] then m else m(name_type_key_new n t \<mapsto> entry_of now rs out))"
| "cache_spec_do (ForgetBelow node) m = (\<lambda>k. if is_at_or_below (fst k) node then None else m k)"
| "cache_spec_do (ForgetName n) m = (\<lambda>k. if fst k = folded n then None else m k)"
| "cache_spec_do Clear m = Map.empty"
| "cache_spec_do _ m = m"

definition last_put :: "(cache_op \<times> cached option) list \<Rightarrow> name_type_key \<Rightarrow> answer_entry option" where
  "last_put es = fold cache_spec_do (map fst es) Map.empty"

lemma last_put_simps [simp]: "last_put [] = Map.empty" "last_put (es @ [(op, r)]) = cache_spec_do op (last_put es)"
  by (simp_all add: last_put_def)

lemma with_stale_simps [simp]:
  "dc_table (with_stale cap pol) = []" "dc_poisoned (with_stale cap pol) = False"
  "dc_max_entries (with_stale cap pol) = cap" "dc_stale (with_stale cap pol) = pol"
  by (simp_all add: with_stale_def dns_cache_new_def)

lemma run_inv:
  "cache_run c es c' \<Longrightarrow> cache_inv c \<Longrightarrow> cache_inv c' \<and> dc_max_entries c' = dc_max_entries c \<and>
   dc_stale c' = dc_stale c \<and> dc_poisoned c' = dc_poisoned c"
proof (induction rule: cache_run.induct)
  case (run_step c es c' op r c'')
  with cache_do_inv [of c' op] cache_do_frame [of op c'] show ?case by (metis snd_conv)
qed simp

lemma with_stale_inv [simp]: "cache_inv (with_stale cap pol)"
  by (simp add: cache_inv_def tab_ok_def)

lemma forgotten:
  assumes "cache_inv c" and "\<not> dc_poisoned c" and "map_of (dc_table (snd (cache_do op c))) k = Some e'"
    and "map_of (dc_table c) k = Some e" and "put_entry op \<noteq> Some (k, e')"
  shows "cache_spec_do op m k = m k"
proof (cases op)
  case (Put now now' n t rs out)
  show ?thesis
  proof (cases "rs = [] \<or> k \<noteq> name_type_key_new n t")
    case False
    moreover have "dc_max_entries c \<noteq> 0" using assms(1,4) by (cases "dc_table c") (auto simp: cache_inv_def)
    ultimately show ?thesis using Put assms(2,3,5) put_validated_table [of rs c] by (simp add: AList.update_conv')
  qed (use Put in auto)
qed (use assms in \<open>auto simp: cache_forget_at_or_below_def cache_forget_name_def cache_clear_def Let_def dest!: map_of_SomeD\<close>)

lemma run_refines:
  assumes "cache_run c0 es c" and "c0 = with_stale cap pol" and "map_of (dc_table c) k = Some e"
  shows "\<exists>p. last_put es k = Some p \<and> same_answer p e"
  using assms
proof (induction arbitrary: k e rule: cache_run.induct)
  case (run_step c0 es c op r c')
  have inv: "cache_inv c" "\<not> dc_poisoned c" using run_inv [OF run_step.hyps(1)] run_step.prems(1) by auto
  have k: "map_of (dc_table (snd (cache_do op c))) k = Some e" using run_step by simp
  show ?case
  proof (cases "put_entry op = Some (k, e)")
    case True
    then show ?thesis by (cases op) (auto simp: same_answer_def split: if_splits)
  next
    case False
    with step_entry [OF inv(1) k] obtain e0 where e0: "map_of (dc_table c) k = Some e0" "advances e0 e" by blast
    with run_step.IH [OF run_step.prems(1) e0(1)] forgotten [OF inv k e0(1) False, of "last_put es"] show ?thesis
      by (auto simp: advances_def same_answer_def)
  qed
qed simp

subsection \<open>Refreshes\<close>

definition asks_refresh :: "name_type_key \<Rightarrow> cache_op \<times> cached option \<Rightarrow> bool" where
  "asks_refresh k ev \<longleftrightarrow> (case ev of (Lookup now n t p, Some h) \<Rightarrow> name_type_key_new n t = k \<and> hit_refresh h | _ \<Rightarrow> False)"

definition puts_key :: "name_type_key \<Rightarrow> cache_op \<times> cached option \<Rightarrow> bool" where
  "puts_key k ev \<longleftrightarrow> (case put_entry (fst ev) of Some (k', _) \<Rightarrow> k' = k | None \<Rightarrow> False)"

definition owed :: "name_type_key \<Rightarrow> dns_cache \<Rightarrow> nat" where
  "owed k c = (case map_of (dc_table c) k of Some e \<Rightarrow> of_bool (\<not> ae_refreshing e) | None \<Rightarrow> 0)"

lemma owed_step:
  assumes "cache_inv c" and "cache_do op c = (r, c')"
  shows "of_bool (asks_refresh k (op, r)) + owed k c' \<le> owed k c + of_bool (puts_key k (op, r))"
proof (cases "asks_refresh k (op, r)")
  case True
  then obtain now n t p h where op: "op = Lookup now n t p" "r = Some h" "name_type_key_new n t = k" "hit_refresh h"
    by (auto simp: asks_refresh_def split: cache_op.splits option.splits)
  have "owed k c = 1 \<and> owed k c' = 0"
    by (rule cache_lookup_cases [of now n t p c]) (use assms(2) op in \<open>auto simp: owed_def AList.update_conv'\<close>)
  then show ?thesis by simp
next
  case False
  show ?thesis
  proof (cases "map_of (dc_table c') k")
    case (Some e')
    with assms step_entry [of c op k e'] have
      "put_entry op = Some (k, e') \<or> (\<exists>e. map_of (dc_table c) k = Some e \<and> advances e e')" by simp
    with Some False show ?thesis by (auto simp: owed_def puts_key_def advances_def split: option.splits)
  qed (use False in \<open>simp add: owed_def\<close>)
qed

lemma refreshes_bounded:
  "cache_run c es c' \<Longrightarrow> cache_inv c \<Longrightarrow>
   length (filter (asks_refresh k) es) + owed k c' \<le> owed k c + length (filter (puts_key k) es)"
proof (induction rule: cache_run.induct)
  case (run_step c es c' op r c'')
  from owed_step [OF _ run_step.hyps(2), of k] run_inv [OF run_step.hyps(1) run_step.prems] run_step.IH [OF run_step.prems]
  show ?case by (auto split: if_splits)
qed simp

lemma run_keeps_entry:
  "cache_run c es c' \<Longrightarrow> cache_inv c \<Longrightarrow> \<forall>ev \<in> set es. \<not> puts_key k ev \<Longrightarrow> map_of (dc_table c') k = Some e' \<Longrightarrow>
   \<exists>e. map_of (dc_table c) k = Some e \<and> advances e e'"
proof (induction arbitrary: e' rule: cache_run.induct)
  case (run_step c es c' op r c'')
  have "put_entry op \<noteq> Some (k, e')" using run_step.prems(2) by (auto simp: puts_key_def)
  with step_entry [of c' op k e'] run_inv [OF run_step.hyps(1) run_step.prems(1)] run_step.hyps(2) run_step.prems(3)
  obtain e1 where "map_of (dc_table c') k = Some e1" "advances e1 e'" by auto
  with run_step.IH [OF run_step.prems(1)] run_step.prems(2) show ?case by (auto intro: advances_trans)
qed auto

section \<open>Properties\<close>

text \<open>
  C26. The cache stays within its bound. After any run from a new cache, no more entries are held than
  \<^verbatim>\<open>max_entries\<close>, no question twice, and every entry has records and expires, after it was learned,
  when the shortest TTL of its records has passed, each taken as a day at most.
\<close>

theorem cache_bounded:
  assumes "cache_run (with_stale cap pol) es c"
  shows "length (dc_table c) \<le> cap \<and> distinct (map fst (dc_table c)) \<and>
    (\<forall>(k, e) \<in> set (dc_table c). ae_records e \<noteq> [] \<and> ae_expires_at e = deadline_after (ae_learned_at e) (min_ttl (ae_records e)) \<and>
       min_ttl (ae_records e) = Min ((\<lambda>r. min (unat (rr_ttl r)) 86400) ` set (ae_records e)) \<and> min_ttl (ae_records e) \<le> 86400)"
proof -
  have "cache_inv c" "dc_max_entries c = cap" using run_inv [OF assms] by auto
  then have "length (dc_table c) \<le> cap" "distinct (map fst (dc_table c))" "\<forall>(k, e) \<in> set (dc_table c). answer_ok e"
    by (simp_all add: cache_inv_def tab_ok_def)
  then show ?thesis using min_ttl_le by (fastforce simp: answer_ok_def MAX_CACHE_TTL_def min_ttl_Min)
qed

text \<open>
  C25. A hit is the last answer stored. Whatever was done to the cache before, records a lookup returns are those of
  the last put of that question that was not forgotten since, with the outcome validation gave them, before
  their TTL ran out; a stale answer is the same with a TTL of 30, after the TTL and within the stale window.
\<close>

theorem cache_hit_sound:
  assumes "cache_run (with_stale cap pol) es c"
  shows "(fst (cache_lookup now n t p c) = Some h \<longrightarrow>
      (\<exists>e. last_put es (name_type_key_new n t) = Some e \<and> hit_records h = ae_records e \<and> hit_outcome h = ae_outcome e \<and>
         hit_learned_at h = ae_learned_at e \<and> now < ae_expires_at e)) \<and>
    (fst (cache_get_stale now n t r c) = Some h \<longrightarrow>
      (\<exists>e. last_put es (name_type_key_new n t) = Some e \<and> hit_outcome h = ae_outcome e \<and>
         hit_records h = map (\<lambda>rr. rr\<lparr>rr_ttl := 30\<rparr>) (ae_records e) \<and>
         ae_expires_at e \<le> now \<and> now < saturating_add (ae_expires_at e) (max_stale pol)))"
proof (intro conjI impI)
  assume h: "fst (cache_lookup now n t p c) = Some h"
  show "\<exists>e. last_put es (name_type_key_new n t) = Some e \<and> hit_records h = ae_records e \<and> hit_outcome h = ae_outcome e \<and>
         hit_learned_at h = ae_learned_at e \<and> now < ae_expires_at e"
  proof (rule cache_lookup_cases [of now n t p c])
    fix e r
    assume e: "map_of (dc_table c) (name_type_key_new n t) = Some e" "now < ae_expires_at e"
      "cache_lookup now n t p c =
         (Some \<lparr>hit_records = ae_records e, hit_outcome = ae_outcome e, hit_refresh = r, hit_learned_at = ae_learned_at e\<rparr>,
          c\<lparr>dc_table := AList.update (name_type_key_new n t) (e\<lparr>ae_refreshing := ae_refreshing e \<or> r\<rparr>) (dc_table c)\<rparr>)"
    with run_refines [OF assms refl e(1)] h show ?thesis by (auto simp: same_answer_def)
  qed (use h in auto)
next
  assume h: "fst (cache_get_stale now n t r c) = Some h"
  have pol: "dc_stale c = pol" using run_inv [OF assms] by simp
  show "\<exists>e. last_put es (name_type_key_new n t) = Some e \<and> hit_outcome h = ae_outcome e \<and>
         hit_records h = map (\<lambda>rr. rr\<lparr>rr_ttl := 30\<rparr>) (ae_records e) \<and>
         ae_expires_at e \<le> now \<and> now < saturating_add (ae_expires_at e) (max_stale pol)"
    by (rule cache_get_stale_cases [of now n t r c])
      (use h pol run_refines [OF assms refl] in
        \<open>fastforce simp: same_answer_def policy_keeps_def is_live_def extended_by_def STALE_ANSWER_TTL_def\<close>)+
qed

definition example_rr :: resource_record where
  "example_rr = \<lparr>rr_name = [1, 97, 0], rr_class = 1, rr_ttl = 60, rr_data = \<lparr>rd_type = 1, rd_bytes = [192, 0, 2, 1]\<rparr>\<rparr>"

definition example_run :: "(cache_op \<times> cached option) list" where
  "example_run = [(Put 1000 1000 [1, 97, 0] 1 [example_rr] Insecure, None)]"

definition example_cache :: dns_cache where
  "example_cache = put_validated 1000 1000 [1, 97, 0] 1 [example_rr] Insecure (with_stale 2 \<lparr>max_stale = 100\<rparr>)"

lemma example_run_ok: "cache_run (with_stale 2 \<lparr>max_stale = 100\<rparr>) example_run example_cache"
  using run_step [OF run_nil, of "Put 1000 1000 [1, 97, 0] 1 [example_rr] Insecure" "with_stale 2 \<lparr>max_stale = 100\<rparr>" None example_cache]
  by (simp add: example_run_def example_cache_def)

lemma example_key: "name_type_key_new [1, 65, 0] 1 = ([1, 97, 0], 1)" "name_type_key_new [1, 97, 0] 1 = ([1, 97, 0], 1)"
  by (simp_all add: name_type_key_new_def name_key_new_def folded_def is_upper_def to_lower_def word_le_nat_alt)

lemma example_entry: "min_ttl [example_rr] = 60" "ae_expires_at (entry_of 1000 [example_rr] out) = 1060"
  by (simp_all add: min_ttl_def example_rr_def ttl_capped_at_def MAX_CACHE_TTL_def entry_of_def deadline_after_def
      saturating_add_def u64_MAX_def)

lemma example_cache_simps:
  "dc_table example_cache = [(([1, 97, 0], 1), entry_of 1000 [example_rr] Insecure)]"
  "dc_poisoned example_cache = False" "dc_stale example_cache = \<lparr>max_stale = 100\<rparr>"
  by (simp_all add: example_cache_def put_validated_def Let_def example_key)

theorem cache_bounded_witness:
  "length (dc_table example_cache) \<le> 2 \<and> distinct (map fst (dc_table example_cache)) \<and>
   map fst (dc_table example_cache) = [([1, 97, 0], 1)]"
proof -
  have "map fst (dc_table example_cache) = [([1, 97, 0], 1)]" by (simp add: example_cache_simps)
  with cache_bounded [OF example_run_ok] show ?thesis by simp
qed

theorem cache_hit_sound_witness:
  "(\<exists>h. fst (cache_lookup 1059 [1, 65, 0] 1 False example_cache) = Some h \<and> hit_records h = [example_rr]) \<and>
   (\<exists>h. fst (cache_get_stale 1060 [1, 65, 0] 1 False example_cache) = Some h \<and>
      hit_records h = [example_rr\<lparr>rr_ttl := 30\<rparr>])"
proof -
  have l: "last_put example_run ([1, 97, 0], 1) = Some (entry_of 1000 [example_rr] Insecure)"
    by (simp add: last_put_def example_run_def example_key)
  have "\<exists>h. fst (cache_lookup 1059 [1, 65, 0] 1 False example_cache) = Some h" "\<exists>h. fst (cache_get_stale 1060 [1, 65, 0] 1 False example_cache) = Some h"
    by (simp_all add: cache_lookup_def cache_get_stale_def example_cache_simps example_key example_entry is_expired_def is_live_def
        stale_is_on_def policy_keeps_def extended_by_def saturating_add_def u64_MAX_def Let_def split: prod.splits)
  then obtain h h' where h: "fst (cache_lookup 1059 [1, 65, 0] 1 False example_cache) = Some h"
    "fst (cache_get_stale 1060 [1, 65, 0] 1 False example_cache) = Some h'" by blast
  from cache_hit_sound [OF example_run_ok, of 1059 "[1, 65, 0]" 1 False h] h(1)
    cache_hit_sound [OF example_run_ok, of 1060 "[1, 65, 0]" 1 False h' False] h(2)
  show ?thesis unfolding example_key l h by (auto simp: entry_of_def)
qed

text \<open>
  C32. What is stored is answered. A lookup of the question just stored, in any case of its name, gives the records
  and outcome stored until their TTL has run out, whatever was in the cache and however full it was.
\<close>

theorem cache_put_then_hit:
  assumes "cache_run (with_stale cap pol) es c" and "0 < cap" and "records \<noteq> []"
    and "name_eq n n'" and "now1 < deadline_after now (min_ttl records)"
  shows "\<exists>r. fst (cache_lookup now1 n' t p (put_validated now now' n t records out c)) =
    Some \<lparr>hit_records = records, hit_outcome = out, hit_refresh = r, hit_learned_at = now\<rparr>"
proof -
  have c: "dc_max_entries c = cap" "\<not> dc_poisoned c" using run_inv [OF assms(1)] by auto
  let ?c = "put_validated now now' n t records out c"
  have k: "name_type_key_new n' t = name_type_key_new n t"
    using assms(4) by (simp add: name_type_key_new_def name_key_new_def folded_lower name_eq_def eq_ignore_case_lower)
  have "map_of (dc_table ?c) (name_type_key_new n' t) = Some (entry_of now records out)"
    using put_validated_table [of records c] assms(2,3) c by (simp add: k AList.update_conv')
  moreover have "\<not> dc_poisoned ?c" using cache_do_frame(3) [of "Put now now' n t records out" c] c by simp
  ultimately show ?thesis using assms(5)
    by (simp add: cache_lookup_def Let_def is_expired_def is_live_def entry_of_def)
qed

theorem cache_put_then_hit_witness:
  "\<exists>r. fst (cache_lookup 1059 [1, 65, 0] 1 False (put_validated 1000 1000 [1, 97, 0] 1 [example_rr] Secure example_cache)) =
    Some \<lparr>hit_records = [example_rr], hit_outcome = Secure, hit_refresh = r, hit_learned_at = 1000\<rparr>"
proof (rule cache_put_then_hit [OF example_run_ok])
  show "name_eq [1, 97, 0] [1, 65, 0]" by (simp add: name_eq_def eq_ignore_case_lower lower_def to_lower_def is_upper_def word_le_nat_alt)
  show "1059 < deadline_after 1000 (min_ttl [example_rr])" using example_entry by (simp add: entry_of_def)
qed simp_all

text \<open>
  A refresh is handed out sparingly. In any run, the lookups of a question that are told to prefetch it are no more
  than the times it was stored: one per entry, however many clients ask in the last tenth of its TTL.
\<close>

theorem prefetch_once_per_entry:
  assumes "cache_run (with_stale cap pol) es c"
  shows "length (filter (asks_refresh k) es) \<le> length (filter (puts_key k) es)"
  using refreshes_bounded [OF assms, of k] by (simp add: owed_def)

definition example_prefetch :: "(cache_op \<times> cached option) list" where
  "example_prefetch = example_run @
     [(Lookup 1059 [1, 97, 0] 1 True, fst (cache_lookup 1059 [1, 97, 0] 1 True example_cache))]"

theorem prefetch_once_per_entry_witness:
  "length (filter (asks_refresh ([1, 97, 0], 1)) example_prefetch) = 1 \<and>
   length (filter (asks_refresh ([1, 97, 0], 1)) example_prefetch) \<le> length (filter (puts_key ([1, 97, 0], 1)) example_prefetch)"
proof -
  have "cache_run (with_stale 2 \<lparr>max_stale = 100\<rparr>) example_prefetch (snd (cache_lookup 1059 [1, 97, 0] 1 True example_cache))"
    unfolding example_prefetch_def by (rule run_step [OF example_run_ok]) simp
  moreover have "length (filter (asks_refresh ([1, 97, 0], 1)) example_prefetch) = 1"
    by (simp add: example_prefetch_def example_run_def asks_refresh_def cache_lookup_def example_cache_simps example_key example_entry
        is_expired_def is_live_def nearly_expired_def remaining_def PREFETCH_AT_def Let_def) (simp add: entry_of_def example_entry)
  ultimately show ?thesis using prefetch_once_per_entry by blast
qed

text \<open>
  Stale refreshes are at least 30 seconds apart. Between two stale answers of one question that both ask for a refresh,
  with no new answer stored in between, at least \<^verbatim>\<open>STALE_REFRESH_INTERVAL\<close> seconds pass (RFC 8767 section 5).
\<close>

theorem stale_refresh_interval:
  assumes "cache_run (with_stale cap pol) es c" and "cache_get_stale now n t r c = (Some h, c1)" and "hit_refresh h"
    and "cache_run c1 es' c2" and "\<forall>ev \<in> set es'. \<not> puts_key (name_type_key_new n t) ev"
    and "cache_get_stale now' n t r' c2 = (Some h', c3)" and "hit_refresh h'"
  shows "saturating_add now 30 \<le> now'"
proof -
  let ?k = "name_type_key_new n t"
  have inv: "cache_inv c" using run_inv [OF assms(1)] by simp
  then have inv1: "cache_inv c1" using cache_do_inv [of c "GetStale now n t r"] assms(2) by simp
  have inv2: "cache_inv c2" using run_inv [OF assms(4) inv1] by simp
  obtain e1 where e1: "map_of (dc_table c1) ?k = Some e1" "ae_stale_refresh_after e1 = saturating_add now 30"
  proof (rule cache_get_stale_cases [of now n t r c])
    fix e r' d
    assume *: "map_of (dc_table c) ?k = Some e" "claim_stale_refresh r now (ae_stale_refresh_after e) = (r', d)"
      "cache_get_stale now n t r c =
         (Some \<lparr>hit_records = map (\<lambda>rr. rr\<lparr>rr_ttl := STALE_ANSWER_TTL\<rparr>) (ae_records e), hit_outcome = ae_outcome e,
            hit_refresh = r', hit_learned_at = ae_learned_at e\<rparr>,
          c\<lparr>dc_table := AList.update ?k (e\<lparr>ae_stale_refresh_after := d\<rparr>) (dc_table c)\<rparr>)"
    with claim_later [OF *(2) inv_stale_le [OF inv *(1)]] assms(2,3) that show ?thesis
      by (auto simp: AList.update_conv' STALE_REFRESH_INTERVAL_def)
  qed (use assms(2) in auto)
  show ?thesis
  proof (rule cache_get_stale_cases [of now' n t r' c2])
    fix e r'' d
    assume *: "map_of (dc_table c2) ?k = Some e" "claim_stale_refresh r' now' (ae_stale_refresh_after e) = (r'', d)"
      "cache_get_stale now' n t r' c2 =
         (Some \<lparr>hit_records = map (\<lambda>rr. rr\<lparr>rr_ttl := STALE_ANSWER_TTL\<rparr>) (ae_records e), hit_outcome = ae_outcome e,
            hit_refresh = r'', hit_learned_at = ae_learned_at e\<rparr>,
          c2\<lparr>dc_table := AList.update ?k (e\<lparr>ae_stale_refresh_after := d\<rparr>) (dc_table c2)\<rparr>)"
    with claim_later [OF *(2) inv_stale_le [OF inv2 *(1)]] assms(6,7) run_keeps_entry [OF assms(4) inv1 assms(5) *(1)] e1
    show ?thesis by (auto simp: advances_def)
  qed (use assms(6) in auto)
qed

definition example_stale :: dns_cache where
  "example_stale = snd (cache_get_stale 1060 [1, 97, 0] 1 True example_cache)"

lemmas example_stale_simps = cache_get_stale_def example_cache_simps example_key example_entry is_expired_def is_live_def
  stale_is_on_def policy_keeps_def extended_by_def saturating_add_def u64_MAX_def claim_stale_refresh_def deadline_after_def
  STALE_REFRESH_INTERVAL_def entry_of_def Let_def

theorem stale_refresh_interval_witness:
  "hit_refresh (the (fst (cache_get_stale 1060 [1, 97, 0] 1 True example_cache))) \<and>
   hit_refresh (the (fst (cache_get_stale 1090 [1, 97, 0] 1 True example_stale))) \<and> saturating_add 1060 30 \<le> 1090"
proof -
  obtain h where h: "cache_get_stale 1060 [1, 97, 0] 1 True example_cache = (Some h, example_stale)" "hit_refresh h"
    by (simp add: example_stale_def example_stale_simps)
  obtain h' c3 where h': "cache_get_stale 1090 [1, 97, 0] 1 True example_stale = (Some h', c3)" "hit_refresh h'"
    by (simp add: example_stale_def example_stale_simps)
  from stale_refresh_interval [OF example_run_ok h run_nil _ h'] h h' show ?thesis by simp
qed

end
