(* ===== verification/NegativeCache.thy ===== *)
theory NegativeCache
  imports AnswerCache
begin

text \<open>
  The resolver's cache of denials, \<^verbatim>\<open>rdns/src/negative_cache.rs\<close>: NXDOMAIN by name, NODATA by name
  and type, under one bound. As in the answer cache the clock is an argument and a map is an
  association list.
\<close>

section \<open>The code\<close>

definition MAX_NEGATIVE_TTL :: u32 where "MAX_NEGATIVE_TTL = 3600"

record negative_answer =
  na_rcode :: response_code
  na_authority :: "resource_record list"
  na_outcome :: outcome
  na_ttl :: u32
  na_refresh :: bool
  na_learned_at :: nat

record neg_entry =
  ne_rcode :: response_code
  ne_authority :: "resource_record list"
  ne_outcome :: outcome
  ne_expires_at :: deadline
  ne_stale_refresh_after :: deadline
  ne_learned_at :: nat

definition neg_live :: "neg_entry \<Rightarrow> nat \<Rightarrow> bool" where
  "neg_live e now = is_live (ne_expires_at e) now"

definition neg_stale :: "neg_entry \<Rightarrow> nat \<Rightarrow> stale_policy \<Rightarrow> bool" where
  "neg_stale e now p \<longleftrightarrow> \<not> neg_live e now \<and> policy_keeps p (ne_expires_at e) now"

definition with_ttl :: "neg_entry \<Rightarrow> u32 \<Rightarrow> negative_answer" where
  "with_ttl e ttl =
     \<lparr>na_rcode = ne_rcode e, na_authority = map (\<lambda>rr. rr\<lparr>rr_ttl := ttl\<rparr>) (ne_authority e), na_outcome = ne_outcome e,
      na_ttl = ttl, na_refresh = False, na_learned_at = ne_learned_at e\<rparr>"

definition neg_answer :: "neg_entry \<Rightarrow> nat \<Rightarrow> negative_answer" where
  "neg_answer e now = with_ttl e (remaining_ttl (ne_expires_at e) now)"

definition stale_answer :: "nat \<Rightarrow> bool \<Rightarrow> neg_entry \<Rightarrow> negative_answer \<times> neg_entry" where
  "stale_answer now refreshing e =
     (let (refresh, after) = claim_stale_refresh refreshing now (ne_stale_refresh_after e);
          e = e\<lparr>ne_stale_refresh_after := after\<rparr> in
      ((with_ttl e STALE_ANSWER_TTL)\<lparr>na_refresh := refresh\<rparr>, e))"

record neg_entries =
  nxdomain :: "(name_key \<times> neg_entry) list"
  nodata :: "(name_type_key \<times> neg_entry) list"

definition entries_len :: "neg_entries \<Rightarrow> nat" where
  "entries_len es = length (nxdomain es) + length (nodata es)"

record negative_cache =
  nc_entries :: neg_entries
  nc_max_entries :: nat
  nc_stale :: stale_policy
  nc_poisoned :: bool

definition negative_cache_new :: "nat \<Rightarrow> negative_cache" where
  "negative_cache_new max_entries =
     \<lparr>nc_entries = \<lparr>nxdomain = [], nodata = []\<rparr>, nc_max_entries = max_entries, nc_stale = STALE_OFF, nc_poisoned = False\<rparr>"

definition negative_with_stale :: "nat \<Rightarrow> stale_policy \<Rightarrow> negative_cache" where
  "negative_with_stale max_entries stale = (negative_cache_new max_entries)\<lparr>nc_stale := stale\<rparr>"

definition make_room :: "nat \<Rightarrow> nat \<Rightarrow> stale_policy \<Rightarrow> neg_entries \<Rightarrow> neg_entries" where
  "make_room max_entries now stale es =
     (let before = entries_len es;
          nx = filter (\<lambda>(_, e). policy_keeps stale (ne_expires_at e) now) (nxdomain es);
          nd = filter (\<lambda>(_, e). policy_keeps stale (ne_expires_at e) now) (nodata es);
          es = \<lparr>nxdomain = nx, nodata = nd\<rparr> in
      if entries_len es < before then es
      else
        case halving_plan (map (\<lambda>(_, e). ne_expires_at e) nx @ map (\<lambda>(_, e). ne_expires_at e) nd) (max_entries div 2) of
          None \<Rightarrow> es
        | Some plan \<Rightarrow>
            let (nx, plan) = retain_halving (\<lambda>(_, e). ne_expires_at e) nx plan;
                (nd, plan) = retain_halving (\<lambda>(_, e). ne_expires_at e) nd plan in
            \<lparr>nxdomain = nx, nodata = nd\<rparr>)"

text \<open>How long a response's "no" is good for (RFC 2308 section 5), if it says.\<close>

definition negative_ttl :: "dns_message \<Rightarrow> u32 option" where
  "negative_ttl response =
     (case find (\<lambda>rr. rd_type (rr_data rr) = rt_SOA) (dm_authorities response) of
        None \<Rightarrow> None
      | Some soa_rr \<Rightarrow>
          (case rdata_parse (rr_data soa_rr) of
             Inr (PSOA mname rname serial refresh retry expire minimum) \<Rightarrow>
               let ttl = ttl_capped_at (ttl_negative_answer (rr_ttl soa_rr) minimum) MAX_NEGATIVE_TTL in
               if ttl = 0 then None else Some ttl
           | _ \<Rightarrow> None))"

definition neg_insert :: "nat \<Rightarrow> name \<Rightarrow> qtype \<Rightarrow> dns_message \<Rightarrow> outcome \<Rightarrow> negative_cache \<Rightarrow> negative_cache" where
  "neg_insert now qn qt response out c =
     (if nc_max_entries c = 0 \<or> dm_answers response \<noteq> [] then c
      else if dm_rcode response \<noteq> NoSuchDomain \<and> dm_rcode response \<noteq> RcOk then c
      else case negative_ttl response of
          None \<Rightarrow> c
        | Some ttl \<Rightarrow>
            let e = \<lparr>ne_rcode = dm_rcode response, ne_authority = dm_authorities response, ne_outcome = out,
                     ne_expires_at = deadline_after now (unat ttl), ne_stale_refresh_after = 0, ne_learned_at = now\<rparr>;
                es = nc_entries c in
            if nc_poisoned c then c
            else if dm_rcode response = NoSuchDomain then
              let key = name_key_new qn;
                  es = (if map_of (nxdomain es) (folded qn) = None \<and> entries_len es \<ge> nc_max_entries c
                        then make_room (nc_max_entries c) now (nc_stale c) es else es) in
              c\<lparr>nc_entries := es\<lparr>nxdomain := AList.update key e (nxdomain es)\<rparr>\<rparr>
            else
              let key = name_type_key_new qn qt;
                  es = (if map_of (nodata es) key = None \<and> entries_len es \<ge> nc_max_entries c
                        then make_room (nc_max_entries c) now (nc_stale c) es else es) in
              c\<lparr>nc_entries := es\<lparr>nodata := AList.update key e (nodata es)\<rparr>\<rparr>)"

text \<open>The walk over the ancestors of a name, deepest first, for one that satisfies \<open>P\<close>.\<close>

fun denied_at :: "(neg_entry \<Rightarrow> bool) \<Rightarrow> (name_key \<times> neg_entry) list \<Rightarrow> name list \<Rightarrow> (name_key \<times> neg_entry) option" where
  "denied_at P nx [] = None"
| "denied_at P nx (a # as) =
     (case map_of nx a of
        Some e \<Rightarrow> if P e then Some (a, e) else denied_at P nx as
      | None \<Rightarrow> denied_at P nx as)"

definition neg_get :: "nat \<Rightarrow> name \<Rightarrow> qtype \<Rightarrow> negative_cache \<Rightarrow> negative_answer option" where
  "neg_get now qn qt c =
     (if nc_max_entries c = 0 then None
      else if nc_poisoned c then None
      else
        let n = folded qn; es = nc_entries c in
        case denied_at (\<lambda>e. neg_live e now) (nxdomain es) (ancestors n) of
          Some (_, e) \<Rightarrow> Some (neg_answer e now)
        | None \<Rightarrow>
            (case map_of (nodata es) (n, qt) of
               Some e \<Rightarrow> if neg_live e now then Some (neg_answer e now) else None
             | None \<Rightarrow> None))"

definition neg_get_stale ::
  "nat \<Rightarrow> name \<Rightarrow> qtype \<Rightarrow> bool \<Rightarrow> negative_cache \<Rightarrow> negative_answer option \<times> negative_cache" where
  "neg_get_stale now qn qt refreshing c =
     (if nc_max_entries c = 0 \<or> \<not> stale_is_on (nc_stale c) then (None, c)
      else if nc_poisoned c then (None, c)
      else
        let n = folded qn; es = nc_entries c in
        case denied_at (\<lambda>e. neg_stale e now (nc_stale c)) (nxdomain es) (ancestors n) of
          Some (a, e) \<Rightarrow>
            let (ans, e) = stale_answer now refreshing e in
            (Some ans, c\<lparr>nc_entries := es\<lparr>nxdomain := AList.update a e (nxdomain es)\<rparr>\<rparr>)
        | None \<Rightarrow>
            (case map_of (nodata es) (n, qt) of
               Some e \<Rightarrow>
                 if neg_stale e now (nc_stale c) then
                   let (ans, e) = stale_answer now refreshing e in
                   (Some ans, c\<lparr>nc_entries := es\<lparr>nodata := AList.update (n, qt) e (nodata es)\<rparr>\<rparr>)
                 else (None, c)
             | None \<Rightarrow> (None, c)))"

definition forget_refuted :: "name \<Rightarrow> qtype \<Rightarrow> negative_cache \<Rightarrow> negative_cache" where
  "forget_refuted qn qt c =
     (if nc_poisoned c then c
      else
        let n = folded qn; es = nc_entries c in
        c\<lparr>nc_entries := \<lparr>nxdomain = fold AList.delete (ancestors n) (nxdomain es),
                         nodata = AList.delete (n, qt) (nodata es)\<rparr>\<rparr>)"

definition neg_len :: "negative_cache \<Rightarrow> nat" where
  "neg_len c = (if nc_poisoned c then 0 else entries_len (nc_entries c))"

definition neg_forget_at_or_below :: "name \<Rightarrow> negative_cache \<Rightarrow> nat \<times> negative_cache" where
  "neg_forget_at_or_below node c =
     (if nc_poisoned c then (0, c)
      else
        let es = nc_entries c;
            es' = \<lparr>nxdomain = filter (\<lambda>(key, _). \<not> is_at_or_under key node) (nxdomain es),
                   nodata = filter (\<lambda>(key, _). \<not> is_at_or_below (fst key) node) (nodata es)\<rparr> in
        (entries_len es - entries_len es', c\<lparr>nc_entries := es'\<rparr>))"

definition neg_forget_name :: "name \<Rightarrow> negative_cache \<Rightarrow> nat \<times> negative_cache" where
  "neg_forget_name n c =
     (if nc_poisoned c then (0, c)
      else
        let es = nc_entries c;
            es' = \<lparr>nxdomain = AList.delete (folded n) (nxdomain es),
                   nodata = filter (\<lambda>(key, _). fst key \<noteq> folded n) (nodata es)\<rparr> in
        (entries_len es - entries_len es', c\<lparr>nc_entries := es'\<rparr>))"

definition neg_clear :: "negative_cache \<Rightarrow> negative_cache" where
  "neg_clear c = (if nc_poisoned c then c else c\<lparr>nc_entries := \<lparr>nxdomain = [], nodata = []\<rparr>\<rparr>)"

section \<open>Where an entry comes from\<close>

datatype neg_op =
    NInsert nat name qtype dns_message outcome
  | NGetStale nat name qtype bool
  | NForgetRefuted name qtype
  | NForgetBelow name
  | NForgetName name
  | NClear

fun neg_do :: "neg_op \<Rightarrow> negative_cache \<Rightarrow> negative_cache" where
  "neg_do (NInsert now n t m out) c = neg_insert now n t m out c"
| "neg_do (NGetStale now n t r) c = snd (neg_get_stale now n t r c)"
| "neg_do (NForgetRefuted n t) c = forget_refuted n t c"
| "neg_do (NForgetBelow n) c = snd (neg_forget_at_or_below n c)"
| "neg_do (NForgetName n) c = snd (neg_forget_name n c)"
| "neg_do NClear c = neg_clear c"

text \<open>\<open>e\<close> is what an insert of the response \<open>m\<close> at \<open>now\<close> stores, but for the moment of its next stale refresh.\<close>

definition denial_of :: "nat \<Rightarrow> dns_message \<Rightarrow> outcome \<Rightarrow> neg_entry \<Rightarrow> bool" where
  "denial_of now m out e \<longleftrightarrow> dm_answers m = [] \<and> ne_rcode e = dm_rcode m \<and> ne_authority e = dm_authorities m \<and>
     ne_outcome e = out \<and> ne_learned_at e = now \<and>
     (\<exists>ttl. negative_ttl m = Some ttl \<and> ne_expires_at e = deadline_after now (unat ttl))"

definition nx_from :: "neg_op set \<Rightarrow> name_key \<Rightarrow> neg_entry \<Rightarrow> bool" where
  "nx_from ops k e \<longleftrightarrow> (\<exists>now n t m out. NInsert now n t m out \<in> ops \<and> k = folded n \<and> dm_rcode m = NoSuchDomain \<and> denial_of now m out e)"

definition nd_from :: "neg_op set \<Rightarrow> name_type_key \<Rightarrow> neg_entry \<Rightarrow> bool" where
  "nd_from ops k e \<longleftrightarrow> (\<exists>now n t m out. NInsert now n t m out \<in> ops \<and> k = (folded n, t) \<and> dm_rcode m = RcOk \<and> denial_of now m out e)"

definition entries_ok :: "neg_op set \<Rightarrow> neg_entries \<Rightarrow> bool" where
  "entries_ok ops es \<longleftrightarrow> tab_ok (nx_from ops) (nxdomain es) \<and> tab_ok (nd_from ops) (nodata es)"

lemma from_mono: "nx_from ops k e \<Longrightarrow> ops \<subseteq> ops' \<Longrightarrow> nx_from ops' k e" "nd_from ops k' e \<Longrightarrow> ops \<subseteq> ops' \<Longrightarrow> nd_from ops' k' e"
  unfolding nx_from_def nd_from_def by blast+

lemma entries_ok_mono: "entries_ok ops es \<Longrightarrow> ops \<subseteq> ops' \<Longrightarrow> entries_ok ops' es"
  unfolding entries_ok_def by (auto intro: tab_ok_mono [of "nx_from ops"] tab_ok_mono [of "nd_from ops"] from_mono)

lemma from_expires: "nx_from ops k e \<Longrightarrow> ne_expires_at e \<le> u64_MAX" "nd_from ops k' e \<Longrightarrow> ne_expires_at e \<le> u64_MAX"
  by (auto simp: nx_from_def nd_from_def denial_of_def)

lemma from_refresh: "nx_from ops k e \<Longrightarrow> nx_from ops k (e\<lparr>ne_stale_refresh_after := d\<rparr>)"
  "nd_from ops k' e \<Longrightarrow> nd_from ops k' (e\<lparr>ne_stale_refresh_after := d\<rparr>)"
  by (auto simp: nx_from_def nd_from_def denial_of_def)

section \<open>The bound\<close>

lemma make_room_ok:
  assumes "entries_ok ops es"
  shows "entries_ok ops (make_room cap now p es) \<and> (0 < cap \<longrightarrow> entries_len es = cap \<longrightarrow> entries_len (make_room cap now p es) < cap)"
proof -
  let ?nx = "filter (\<lambda>(_, e). policy_keeps p (ne_expires_at e) now) (nxdomain es)"
  let ?nd = "filter (\<lambda>(_, e). policy_keeps p (ne_expires_at e) now) (nodata es)"
  let ?es = "\<lparr>nxdomain = ?nx, nodata = ?nd\<rparr>"
  let ?xs = "map (\<lambda>(_, e). ne_expires_at e) ?nx @ map (\<lambda>(_, e). ne_expires_at e) ?nd"
  have ok: "entries_ok ops ?es" using assms by (simp add: entries_ok_def tab_ok_filter)
  show ?thesis
  proof (cases "entries_len ?es < entries_len es")
    case True
    with ok show ?thesis by (simp add: make_room_def Let_def)
  next
    case False
    then have same: "entries_len ?es = entries_len es"
    proof -
      have "length ?nx \<le> length (nxdomain es)" "length ?nd \<le> length (nodata es)" by (rule length_filter_le)+
      with False show ?thesis unfolding entries_len_def neg_entries.simps by linarith
    qed
    show ?thesis
    proof (cases "halving_plan ?xs (cap div 2)")
      case None
      then have "length ?xs \<le> cap div 2" by (auto simp: halving_plan_def Let_def split: if_splits)
      then have "entries_len ?es \<le> cap div 2" by (simp add: entries_len_def)
      moreover have "make_room cap now p es = ?es" unfolding make_room_def Let_def using None False by simp
      ultimately show ?thesis using ok same by auto
    next
      case (Some h)
      obtain nx h1 where nx: "retain_halving (\<lambda>(_, e). ne_expires_at e) ?nx h = (nx, h1)" by fastforce
      obtain nd h2 where nd: "retain_halving (\<lambda>(_, e). ne_expires_at e) ?nd h1 = (nd, h2)" by fastforce
      have "ne_expires_at e \<le> u64_MAX" if "(k, e) \<in> set ?nx" for k e
        using ok that from_expires(1) unfolding entries_ok_def tab_ok_def neg_entries.simps by blast
      moreover have "ne_expires_at e \<le> u64_MAX" if "(k, e) \<in> set ?nd" for k e
        using ok that from_expires(2) unfolding entries_ok_def tab_ok_def neg_entries.simps by blast
      ultimately have "\<forall>e \<in> set ?xs. e \<le> u64_MAX" by fastforce
      from halving_plan_keeps [OF Some this] retain_halving_two [OF nx nd] have "length nx + length nd = cap div 2" by simp
      moreover have "entries_ok ops \<lparr>nxdomain = nx, nodata = nd\<rparr>"
        using ok tab_ok_retain [OF _ nx] tab_ok_retain [OF _ nd] by (simp add: entries_ok_def)
      moreover have "make_room cap now p es = \<lparr>nxdomain = nx, nodata = nd\<rparr>"
        unfolding make_room_def Let_def using Some False nx nd by simp
      ultimately show ?thesis by (auto simp: entries_len_def)
    qed
  qed
qed

fun neg_has :: "name_key + name_type_key \<Rightarrow> negative_cache \<Rightarrow> bool" where
  "neg_has (Inl k) c \<longleftrightarrow> map_of (nxdomain (nc_entries c)) k \<noteq> None"
| "neg_has (Inr k) c \<longleftrightarrow> map_of (nodata (nc_entries c)) k \<noteq> None"

fun neg_store :: "name_key + name_type_key \<Rightarrow> neg_entry \<Rightarrow> negative_cache \<Rightarrow> negative_cache" where
  "neg_store (Inl k) e c = c\<lparr>nc_entries := (nc_entries c)\<lparr>nxdomain := AList.update k e (nxdomain (nc_entries c))\<rparr>\<rparr>"
| "neg_store (Inr k) e c = c\<lparr>nc_entries := (nc_entries c)\<lparr>nodata := AList.update k e (nodata (nc_entries c))\<rparr>\<rparr>"

definition neg_room :: "nat \<Rightarrow> negative_cache \<Rightarrow> negative_cache" where
  "neg_room now c = c\<lparr>nc_entries := make_room (nc_max_entries c) now (nc_stale c) (nc_entries c)\<rparr>"

interpretation denials: bounded_store "\<lambda>c. entries_len (nc_entries c)" nc_max_entries "\<lambda>c. \<exists>ops. entries_ok ops (nc_entries c)"
  neg_has neg_room neg_store True
proof
  fix c :: negative_cache and now
  assume c: "\<exists>ops. entries_ok ops (nc_entries c)" "0 < nc_max_entries c" "entries_len (nc_entries c) = nc_max_entries c"
  then obtain ops where "entries_ok ops (nc_entries c)" by blast
  from make_room_ok [OF this, of "nc_max_entries c" now "nc_stale c"] c(2,3)
  show "entries_len (nc_entries (neg_room now c)) < nc_max_entries c \<and> (\<exists>ops. entries_ok ops (nc_entries (neg_room now c))) \<and>
      nc_max_entries (neg_room now c) = nc_max_entries c" by (auto simp: neg_room_def)
next
  fix c :: negative_cache and k e
  show "entries_len (nc_entries (neg_store k e c)) =
      (if neg_has k c then entries_len (nc_entries c) else entries_len (nc_entries c) + 1)"
    by (cases k) (auto simp: entries_len_def length_update map_of_eq_None_iff)
  show "nc_max_entries (neg_store k e c) = nc_max_entries c" by (cases k) simp_all
qed

section \<open>What every operation keeps\<close>

definition neg_inv :: "neg_op set \<Rightarrow> negative_cache \<Rightarrow> bool" where
  "neg_inv ops c \<longleftrightarrow> entries_ok ops (nc_entries c) \<and> entries_len (nc_entries c) \<le> nc_max_entries c"

lemma neg_insert_conv:
  "neg_insert now qn qt m out c =
     (case negative_ttl m of
        None \<Rightarrow> c
      | Some ttl \<Rightarrow>
          if nc_max_entries c = 0 \<or> dm_answers m \<noteq> [] \<or> nc_poisoned c \<or> dm_rcode m \<noteq> NoSuchDomain \<and> dm_rcode m \<noteq> RcOk then c
          else denials.bounded_put now (if dm_rcode m = NoSuchDomain then Inl (folded qn) else Inr (folded qn, qt))
            \<lparr>ne_rcode = dm_rcode m, ne_authority = dm_authorities m, ne_outcome = out,
             ne_expires_at = deadline_after now (unat ttl), ne_stale_refresh_after = 0, ne_learned_at = now\<rparr> c)"
  by (auto simp: neg_insert_def denials.bounded_put_def neg_room_def name_key_new_def name_type_key_new_def Let_def
      split: option.splits)

lemma neg_store_ok:
  assumes "entries_ok ops (nc_entries c)"
    and "\<And>n. k = Inl n \<Longrightarrow> nx_from ops n e" and "\<And>n. k = Inr n \<Longrightarrow> nd_from ops n e"
  shows "entries_ok ops (nc_entries (neg_store k e c))"
  using assms by (cases k) (auto simp: entries_ok_def intro: tab_ok_update)

lemma neg_insert_inv:
  assumes "neg_inv ops c" and "NInsert now qn qt m out \<in> ops"
  shows "neg_inv ops (neg_insert now qn qt m out c)"
proof (cases "negative_ttl m = None \<or> nc_max_entries c = 0 \<or> dm_answers m \<noteq> [] \<or> nc_poisoned c \<or> dm_rcode m \<noteq> NoSuchDomain \<and> dm_rcode m \<noteq> RcOk")
  case True
  with assms(1) show ?thesis by (auto simp: neg_insert_conv split: option.splits)
next
  case False
  then obtain ttl where ttl: "negative_ttl m = Some ttl" by auto
  let ?e = "\<lparr>ne_rcode = dm_rcode m, ne_authority = dm_authorities m, ne_outcome = out,
     ne_expires_at = deadline_after now (unat ttl), ne_stale_refresh_after = 0, ne_learned_at = now\<rparr>"
  let ?k = "if dm_rcode m = NoSuchDomain then Inl (folded qn) else Inr (folded qn, qt)"
  have d: "denial_of now m out ?e" using False ttl by (simp add: denial_of_def)
  have ins: "neg_insert now qn qt m out c = denials.bounded_put now ?k ?e c" using False ttl by (auto simp: neg_insert_conv)
  have ok: "entries_ok ops (nc_entries c)" using assms(1) by (simp add: neg_inv_def)
  have "entries_ok ops (nc_entries (neg_room now c))" using make_room_ok [OF ok] by (simp add: neg_room_def)
  moreover have "nx_from ops (folded qn) ?e" if "dm_rcode m = NoSuchDomain"
    unfolding nx_from_def using d assms(2) that by blast
  moreover have "nd_from ops (folded qn, qt) ?e" if "dm_rcode m \<noteq> NoSuchDomain"
    unfolding nd_from_def using d assms(2) that False by blast
  ultimately have "entries_ok ops (nc_entries (denials.bounded_put now ?k ?e c))"
    unfolding denials.bounded_put_def using ok by (intro neg_store_ok) (auto split: if_splits)
  moreover have "entries_len (nc_entries (denials.bounded_put now ?k ?e c)) \<le> nc_max_entries (denials.bounded_put now ?k ?e c)"
    by (rule denials.bounded_put_bounded) (use ok False assms(1) in \<open>auto simp: neg_inv_def\<close>)
  ultimately show ?thesis by (simp add: ins neg_inv_def)
qed

lemma denied_at_SomeD: "denied_at P nx as = Some (a, e) \<Longrightarrow> a \<in> set as \<and> map_of nx a = Some e \<and> P e"
  by (induction as) (auto split: option.splits if_splits)

lemma denied_at_None: "denied_at P nx as = None \<longleftrightarrow> (\<forall>a \<in> set as. \<forall>e. map_of nx a = Some e \<longrightarrow> \<not> P e)"
  by (induction as) (auto split: option.splits)

lemma neg_get_stale_inv:
  assumes "neg_inv ops c"
  shows "neg_inv ops (snd (neg_get_stale now qn qt r c))"
proof -
  have ok: "tab_ok (nx_from ops) (nxdomain (nc_entries c))" "tab_ok (nd_from ops) (nodata (nc_entries c))"
    using assms by (simp_all add: neg_inv_def entries_ok_def)
  have upd: "neg_inv ops (neg_store k (snd (stale_answer now r e)) c)" if "neg_has k c"
    "case k of Inl n \<Rightarrow> nx_from ops n e | Inr n \<Rightarrow> nd_from ops n e" for k e
  proof -
    obtain x d where sa: "stale_answer now r e = (x, e\<lparr>ne_stale_refresh_after := d\<rparr>)"
      by (cases "claim_stale_refresh r now (ne_stale_refresh_after e)") (simp add: stale_answer_def Let_def)
    have "entries_ok ops (nc_entries (neg_store k (e\<lparr>ne_stale_refresh_after := d\<rparr>) c))"
      by (rule neg_store_ok) (use assms that(2) from_refresh in \<open>auto simp: neg_inv_def\<close>)
    moreover have "entries_len (nc_entries (neg_store k (e\<lparr>ne_stale_refresh_after := d\<rparr>) c)) = entries_len (nc_entries c)"
      using denials.grows [of c k "e\<lparr>ne_stale_refresh_after := d\<rparr>"] that(1) assms by (auto simp: neg_inv_def)
    ultimately show ?thesis using assms by (simp add: sa neg_inv_def denials.cap_kept)
  qed
  show ?thesis
  proof (cases "denied_at (\<lambda>e. neg_stale e now (nc_stale c)) (nxdomain (nc_entries c)) (ancestors (folded qn))")
    case (Some ae)
    obtain a e where ae: "ae = (a, e)" by fastforce
    with Some denied_at_SomeD have "map_of (nxdomain (nc_entries c)) a = Some e" by fastforce
    with upd [of "Inl a" e] tab_ok_find [OF ok(1) this] assms Some ae show ?thesis
      by (auto simp: neg_get_stale_def Let_def split: prod.splits)
  next
    case None
    show ?thesis
    proof (cases "map_of (nodata (nc_entries c)) (folded qn, qt)")
      case (Some e)
      with upd [of "Inr (folded qn, qt)" e] tab_ok_find [OF ok(2) Some] assms None show ?thesis
        by (auto simp: neg_get_stale_def Let_def split: prod.splits)
    qed (use None assms in \<open>auto simp: neg_get_stale_def Let_def\<close>)
  qed
qed

lemma tab_ok_fold_delete: "tab_ok R t \<Longrightarrow> tab_ok R (fold AList.delete ks t)"
  by (induction ks arbitrary: t) (auto intro: tab_ok_delete)

lemma length_fold_delete: "length (fold AList.delete ks t) \<le> length t"
  by (induction ks arbitrary: t) (auto intro: order_trans [OF _ AList.length_delete_le])

lemma neg_shrink_inv:
  assumes "neg_inv ops c" and "tab_ok (nx_from ops) nx" and "tab_ok (nd_from ops) nd"
    and "length nx \<le> length (nxdomain (nc_entries c))" and "length nd \<le> length (nodata (nc_entries c))"
  shows "neg_inv ops (c\<lparr>nc_entries := \<lparr>nxdomain = nx, nodata = nd\<rparr>\<rparr>)"
  using assms by (simp add: neg_inv_def entries_ok_def entries_len_def)

lemma neg_do_inv:
  assumes "neg_inv ops c" and "op \<in> ops"
  shows "neg_inv ops (neg_do op c)"
proof -
  have ok: "tab_ok (nx_from ops) (nxdomain (nc_entries c))" "tab_ok (nd_from ops) (nodata (nc_entries c))"
    using assms by (simp_all add: neg_inv_def entries_ok_def)
  note shrink = neg_shrink_inv [OF assms(1)]
  show ?thesis
  proof (cases op)
    case (NInsert now n t m out)
    with assms neg_insert_inv show ?thesis by simp
  next
    case (NGetStale now n t r)
    with assms neg_get_stale_inv show ?thesis by simp
  next
    case (NForgetRefuted n t)
    with assms(1) show ?thesis
      by (auto simp: forget_refuted_def Let_def intro!: shrink tab_ok_fold_delete tab_ok_delete ok length_fold_delete AList.length_delete_le)
  next
    case (NForgetBelow n)
    with assms(1) show ?thesis
      by (auto simp: neg_forget_at_or_below_def Let_def intro!: shrink tab_ok_filter ok length_filter_le)
  next
    case (NForgetName n)
    with assms(1) show ?thesis
      by (auto simp: neg_forget_name_def Let_def intro!: shrink tab_ok_filter tab_ok_delete ok length_filter_le AList.length_delete_le)
  next
    case NClear
    with assms(1) show ?thesis by (auto simp: neg_clear_def intro!: shrink)
  qed
qed

lemma neg_do_frame [simp]:
  "nc_max_entries (neg_do op c) = nc_max_entries c" "nc_stale (neg_do op c) = nc_stale c" "nc_poisoned (neg_do op c) = nc_poisoned c"
  by (cases op; simp add: neg_insert_def neg_get_stale_def forget_refuted_def neg_forget_at_or_below_def neg_forget_name_def
      neg_clear_def Let_def split: option.splits prod.splits)+

lemma neg_fold_frame:
  "nc_max_entries (fold neg_do ops c) = nc_max_entries c" "nc_stale (fold neg_do ops c) = nc_stale c"
  "nc_poisoned (fold neg_do ops c) = nc_poisoned c"
  by (induction ops arbitrary: c) auto

lemma neg_fold_inv: "neg_inv all c \<Longrightarrow> set ops \<subseteq> all \<Longrightarrow> neg_inv all (fold neg_do ops c)"
  by (induction ops arbitrary: c) (auto intro: neg_do_inv)

lemma negative_new_inv [simp]: "neg_inv ops (negative_with_stale cap pol)" "nc_max_entries (negative_with_stale cap pol) = cap"
  "nc_poisoned (negative_with_stale cap pol) = False" "nc_stale (negative_with_stale cap pol) = pol"
  by (simp_all add: neg_inv_def entries_ok_def entries_len_def negative_with_stale_def negative_cache_new_def)

lemma negative_ttl_range: "negative_ttl m = Some ttl \<Longrightarrow> 0 < unat ttl \<and> unat ttl \<le> 3600"
  by (auto simp: negative_ttl_def ttl_capped_at_def MAX_NEGATIVE_TTL_def Let_def word_less_nat_alt unat_gt_0
      split: option.splits sum.splits parsed_record.splits if_splits)

lemma folded_name:
  assumes "wf_name n"
  shows "folded n = wire_of (map lower (name_labels n)) \<and> labels_ok (map lower (name_labels n))"
  using assms by (elim wf_nameE) (auto simp: folded_lower lower_wire_of)

lemma ancestors_folded:
  assumes "wf_name w" and "wf_name v"
  shows "folded v \<in> set (ancestors (folded w)) \<longleftrightarrow> is_at_or_under w v"
proof -
  from assms obtain ls ks where w: "w = wire_of ls" "labels_ok ls" and v: "v = wire_of ks" "labels_ok ks"
    by (elim wf_nameE) auto
  have "labels_ok ms" if "suffix ms (map lower ls)" for ms
    using that w(2) labels_ok_lower [of ls] by (auto simp: suffix_def simp del: labels_ok_lower)
  then have "wire_of (map lower ks) = wire_of ms \<longleftrightarrow> map lower ks = ms" if "suffix ms (map lower ls)" for ms
    using that v(2) wire_of_inj by (metis labels_ok_lower)
  then show ?thesis
    using w v by (auto simp: folded_lower lower_wire_of ancestors_wire is_at_or_under_wire image_iff)
qed

text \<open>An NXDOMAIN for \<^verbatim>\<open>a.\<close> with an SOA of the root, for the witnesses.\<close>

definition example_soa :: resource_record where
  "example_soa = \<lparr>rr_name = [0], rr_class = 1, rr_ttl = 900,
     rr_data = \<lparr>rd_type = rt_SOA, rd_bytes = [0, 0, 0, 0, 0, 1, 0, 0, 0, 2, 0, 0, 0, 3, 0, 0, 0, 4, 0, 0, 0, 60]\<rparr>\<rparr>"

definition example_denial :: dns_message where
  "example_denial = (reply_to (build 7 (with_query [1, 97, 0] 1 builder_new)))
     \<lparr>dm_rcode := NoSuchDomain, dm_authorities := [example_soa]\<rparr>"

lemma wf_root: "wf_name [0]"
  using wf_name_wire_of [of "[]"] by simp

lemma example_denial_simps: "negative_ttl example_denial = Some 60" "dm_answers example_denial = []" "dm_rcode example_denial = NoSuchDomain"
proof -
  have "rdata_parse (rr_data example_soa) = Inr (PSOA [0] [0] 1 2 3 4 60)"
    using decode_encoded [of "PSOA [0] [0] 1 2 3 4 60" rt_SOA
        "[0, 0, 0, 0, 0, 1, 0, 0, 0, 2, 0, 0, 0, 3, 0, 0, 0, 4, 0, 0, 0, 60]"] wf_root
    by (simp add: example_soa_def rdata_parse_def be32_def)
  then show "negative_ttl example_denial = Some 60"
    by (simp add: negative_ttl_def example_denial_def example_soa_def ttl_negative_answer_def ttl_capped_at_def MAX_NEGATIVE_TTL_def)
qed (simp_all add: example_denial_def reply_to_def build_def with_query_def builder_new_def)

lemma example_names: "wf_name [1, 97, 0]" "wf_name [1, 98, 1, 65, 0]" "is_at_or_under [1, 98, 1, 65, 0] [1, 97, 0]"
proof -
  have "wf_name (wire_of [[97]])" "wf_name (wire_of [[98], [65]])"
    by (simp_all add: wf_name_wire_of label_ok_def del: wire_of_simps) (simp_all add: length_wire_of)
  then show "wf_name [1, 97, 0]" "wf_name [1, 98, 1, 65, 0]" by simp_all
  have "lower [97] = lower [65]" by (simp add: lower_def to_lower_def is_upper_def word_le_nat_alt)
  then show "is_at_or_under [1, 98, 1, 65, 0] [1, 97, 0]"
    using is_at_or_under_wire [of "[[98], [65]]" "[[97]]"] by (simp add: label_ok_def suffix_def)
qed

definition example_denials :: negative_cache where
  "example_denials = fold neg_do [NInsert 1000 [1, 97, 0] 1 example_denial Insecure] (negative_with_stale 4 STALE_OFF)"

lemma example_denials_frame: "\<not> nc_poisoned example_denials" "nc_max_entries example_denials = 4"
  unfolding example_denials_def neg_fold_frame by simp_all

lemma unat_60: "unat (60 :: u32) = 60"
  by simp

section \<open>Properties\<close>

text \<open>
  The denial cache stays within its bound, which spans both maps: after any operations no more denials are held
  than \<^verbatim>\<open>max_entries\<close>, none twice, each for at most an hour from when it was learned.
\<close>

theorem negative_bounded:
  assumes "c = fold neg_do ops (negative_with_stale cap pol)"
  shows "length (nxdomain (nc_entries c)) + length (nodata (nc_entries c)) \<le> cap \<and>
    distinct (map fst (nxdomain (nc_entries c))) \<and> distinct (map fst (nodata (nc_entries c))) \<and>
    (\<forall>e \<in> snd ` set (nxdomain (nc_entries c)) \<union> snd ` set (nodata (nc_entries c)). ne_expires_at e \<le> ne_learned_at e + 3600)"
proof -
  have inv: "neg_inv (set ops) c" unfolding assms by (rule neg_fold_inv) simp_all
  have d: "ne_expires_at e \<le> ne_learned_at e + 3600" if "denial_of now m out e" for now m out e
    using that negative_ttl_range by (fastforce simp: denial_of_def deadline_after_def saturating_add_def)
  have "nc_max_entries c = cap" by (simp add: assms neg_fold_frame)
  with inv show ?thesis
    using d by (auto simp: neg_inv_def entries_len_def entries_ok_def tab_ok_def nx_from_def nd_from_def)
qed

theorem negative_bounded_witness:
  "length (nxdomain (nc_entries (fold neg_do [NClear] (negative_with_stale 4 STALE_OFF)))) \<le> 4 \<and>
   distinct (map fst (nodata (nc_entries (fold neg_do [NClear] (negative_with_stale 4 STALE_OFF)))))"
  using negative_bounded [OF refl, of "[NClear]" 4 STALE_OFF] by auto

text \<open>
  C27. A denial is earned. What \<^verbatim>\<open>get\<close> answers was inserted: a response without answers, with an SOA whose negative TTL has
  not run out, that was NXDOMAIN for the name or an ancestor of it, or NOERROR for just this name and type; the
  answer carries its RCODE, its authority records with the time that is left as their TTL, and its outcome.
\<close>

theorem negative_get_sound:
  assumes "c = fold neg_do ops (negative_with_stale cap pol)" and "neg_get now qn qt c = Some a" and "wf_name qn"
    and "\<forall>now0 n t m out. NInsert now0 n t m out \<in> set ops \<longrightarrow> wf_name n"
  shows "\<exists>now0 n t m out ttl. NInsert now0 n t m out \<in> set ops \<and> dm_answers m = [] \<and> negative_ttl m = Some ttl \<and>
    now < now0 + unat ttl \<and> na_rcode a = dm_rcode m \<and> na_outcome a = out \<and>
    na_authority a = map (\<lambda>rr. rr\<lparr>rr_ttl := na_ttl a\<rparr>) (dm_authorities m) \<and>
    (dm_rcode m = NoSuchDomain \<and> is_at_or_under qn n \<or> dm_rcode m = RcOk \<and> name_eq n qn \<and> t = qt)"
proof -
  have inv: "neg_inv (set ops) c" unfolding assms(1) by (rule neg_fold_inv) simp_all
  have ok: "tab_ok (nx_from (set ops)) (nxdomain (nc_entries c))" "tab_ok (nd_from (set ops)) (nodata (nc_entries c))"
    using inv by (simp_all add: neg_inv_def entries_ok_def)
  from assms(2) consider
      (nx) k e where "k \<in> set (ancestors (folded qn))" "map_of (nxdomain (nc_entries c)) k = Some e" "neg_live e now" "a = neg_answer e now"
    | (nd) e where "map_of (nodata (nc_entries c)) (folded qn, qt) = Some e" "neg_live e now" "a = neg_answer e now"
    by (auto simp: neg_get_def Let_def split: if_splits option.splits dest: denied_at_SomeD)
  then obtain e now0 n t m out where e: "NInsert now0 n t m out \<in> set ops" "denial_of now0 m out e" "neg_live e now"
      "a = neg_answer e now" "dm_rcode m = NoSuchDomain \<and> folded n \<in> set (ancestors (folded qn)) \<or> dm_rcode m = RcOk \<and> folded n = folded qn \<and> t = qt"
  proof cases
    case (nx k e)
    with tab_ok_find [OF ok(1) nx(2)] that show ?thesis unfolding nx_from_def by blast
  next
    case (nd e)
    with tab_ok_find [OF ok(2) nd(1)] that show ?thesis unfolding nd_from_def by (metis prod.inject)
  qed
  from e(1) assms(4) have "wf_name n" by blast
  with e(5) ancestors_folded [OF assms(3)] have
    "dm_rcode m = NoSuchDomain \<and> is_at_or_under qn n \<or> dm_rcode m = RcOk \<and> name_eq n qn \<and> t = qt"
    by (auto simp: name_eq_def eq_ignore_case_lower folded_lower)
  moreover from e(2) obtain ttl where ttl: "negative_ttl m = Some ttl" "ne_expires_at e = deadline_after now0 (unat ttl)"
    "dm_answers m = []" by (auto simp: denial_of_def)
  moreover have "now < now0 + unat ttl"
    using e(3) ttl(2) by (simp add: neg_live_def is_live_def deadline_after_def saturating_add_def)
  moreover have "na_rcode a = dm_rcode m" "na_outcome a = out" "na_authority a = map (\<lambda>rr. rr\<lparr>rr_ttl := na_ttl a\<rparr>) (dm_authorities m)"
    using e(2) by (simp_all add: e(4) denial_of_def neg_answer_def with_ttl_def)
  ultimately show ?thesis using e(1) by blast
qed

theorem negative_get_sound_witness:
  "\<exists>a. neg_get 1010 [1, 98, 1, 65, 0] 28 example_denials = Some a \<and> na_rcode a = NoSuchDomain \<and> na_outcome a = Insecure \<and>
    na_authority a = [example_soa\<lparr>rr_ttl := na_ttl a\<rparr>]"
proof -
  have key: "folded [1, 97, 0] = [1, 97, 0]" "folded [1, 98, 1, 65, 0] = [1, 98, 1, 97, 0]"
    by (simp_all add: folded_def is_upper_def to_lower_def word_le_nat_alt)
  have anc: "[1, 97, 0] \<in> set (ancestors [1, 98, 1, 97, 0])"
    using ancestors_folded [of "[1, 98, 1, 65, 0]" "[1, 97, 0]"] example_names by (simp add: key)
  have "denied_at (\<lambda>e. neg_live e 1010) (nxdomain (nc_entries example_denials)) (ancestors [1, 98, 1, 97, 0]) \<noteq> None"
    unfolding denied_at_None using anc
    by (force simp: example_denials_def neg_insert_def example_denial_simps negative_with_stale_def negative_cache_new_def Let_def entries_len_def
        key name_key_new_def neg_live_def is_live_def deadline_after_def saturating_add_def u64_MAX_def)
  then obtain a where a: "neg_get 1010 [1, 98, 1, 65, 0] 28 example_denials = Some a"
    by (auto simp: neg_get_def key Let_def example_denials_frame)
  have "\<forall>now0 n t m out. NInsert now0 n t m out \<in> set [NInsert 1000 [1, 97, 0] 1 example_denial Insecure] \<longrightarrow> wf_name n"
    using example_names(1) by simp
  from negative_get_sound [OF example_denials_def a example_names(2) this] a show ?thesis by (auto simp: example_denial_simps example_denial_def)
qed

text \<open>
  C31. NXDOMAIN denies the subtree (RFC 8020). Once a cacheable NXDOMAIN for a name is inserted, every name at or under it is
  answered NXDOMAIN, for every type, until the negative TTL has run out, whatever else was cached.
\<close>

theorem nxdomain_denies_subtree:
  assumes "c = fold neg_do ops (negative_with_stale cap pol)" and "0 < cap" and "wf_name n" and "wf_name w"
    and "is_at_or_under w n" and "dm_answers m = []" and "dm_rcode m = NoSuchDomain" and "negative_ttl m = Some ttl"
    and "now1 < deadline_after now (unat ttl)"
  shows "\<exists>a. neg_get now1 w t (neg_insert now n qt m out c) = Some a \<and> na_rcode a = NoSuchDomain"
proof -
  let ?c = "neg_insert now n qt m out c" and ?ops = "insert (NInsert now n qt m out) (set ops)"
  let ?e = "\<lparr>ne_rcode = dm_rcode m, ne_authority = dm_authorities m, ne_outcome = out,
     ne_expires_at = deadline_after now (unat ttl), ne_stale_refresh_after = 0, ne_learned_at = now\<rparr>"
  have c: "nc_max_entries c = cap" "\<not> nc_poisoned c" by (simp_all add: assms(1) neg_fold_frame)
  have "neg_inv ?ops c" unfolding assms(1) by (rule neg_fold_inv) auto
  then have "neg_inv ?ops ?c" by (rule neg_insert_inv) simp
  then have ok: "tab_ok (nx_from ?ops) (nxdomain (nc_entries ?c))" by (simp add: neg_inv_def entries_ok_def)
  have ins: "map_of (nxdomain (nc_entries ?c)) (folded n) = Some ?e"
    using assms(2,6-8) c by (simp add: neg_insert_conv denials.bounded_put_def AList.update_conv')
  have fr: "nc_max_entries ?c = cap" "\<not> nc_poisoned ?c" using neg_do_frame [of "NInsert now n qt m out" c] c by simp_all
  let ?d = "denied_at (\<lambda>e. neg_live e now1) (nxdomain (nc_entries ?c)) (ancestors (folded w))"
  have "?d \<noteq> None"
    unfolding denied_at_None using ins assms(9) ancestors_folded [OF assms(4,3)] assms(5) by (force simp: neg_live_def is_live_def)
  then obtain k e where d: "?d = Some (k, e)" by auto
  have "nx_from ?ops k e" using denied_at_SomeD [OF d] tab_ok_find [OF ok] by blast
  then have "ne_rcode e = NoSuchDomain" unfolding nx_from_def denial_of_def by auto
  with d fr assms(2) show ?thesis by (simp add: neg_get_def Let_def neg_answer_def with_ttl_def)
qed

theorem nxdomain_denies_subtree_witness:
  "\<exists>a. neg_get 1010 [1, 98, 1, 65, 0] 28 (neg_insert 1000 [1, 97, 0] 1 example_denial Insecure
      (fold neg_do [] (negative_with_stale 1 STALE_OFF))) = Some a \<and> na_rcode a = NoSuchDomain"
  using nxdomain_denies_subtree [OF refl _ example_names example_denial_simps(2,3,1), where cap = 1 and ?now1.0 = 1010 and now = 1000 and t = 28 and qt = 1 and
      out = Insecure and ops = "[]" and pol = STALE_OFF] unat_60
  by (simp add: deadline_after_def saturating_add_def u64_MAX_def)

text \<open>
  A newer answer is not shadowed: after \<^verbatim>\<open>forget_refuted\<close>, which the writer of an answer calls, no denial is left for that
  question, neither of the type nor of the name or an ancestor.
\<close>

theorem forget_refuted_clears:
  assumes "\<not> nc_poisoned c"
  shows "neg_get now n t (forget_refuted n t c) = None \<and> fst (neg_get_stale now n t r (forget_refuted n t c)) = None"
proof -
  have "map_of (fold AList.delete ks tab) k = None" if "k \<in> set ks" for ks k and tab :: "(name_key \<times> neg_entry) list"
    using that
  proof (induction ks arbitrary: tab)
    case (Cons k' ks)
    have "map_of (fold AList.delete ks tab') k = None" if "map_of tab' k = None" for tab' :: "(name_key \<times> neg_entry) list"
      using that by (induction ks arbitrary: tab') (auto simp: AList.delete_conv')
    with Cons show ?case by (auto simp: AList.delete_conv')
  qed simp
  then have "denied_at P (fold AList.delete (ancestors (folded n)) (nxdomain (nc_entries c))) (ancestors (folded n)) = None" for P
    unfolding denied_at_None by simp
  moreover have "map_of (AList.delete (folded n, t) (nodata (nc_entries c))) (folded n, t) = None"
    by (simp add: AList.delete_conv')
  ultimately show ?thesis using assms by (simp add: neg_get_def neg_get_stale_def forget_refuted_def Let_def)
qed

theorem forget_refuted_clears_witness:
  "neg_get 1010 [1, 97, 0] 1 (forget_refuted [1, 97, 0] 1 example_denials) = None"
  using forget_refuted_clears [of example_denials 1010 "[1, 97, 0]" 1] example_denials_frame by simp

end
