(* ===== verification/Anchors.thy ===== *)
theory Anchors
  imports Eviction
begin

text \<open>
  Following a trust anchor as it rolls: the keys, DS records and key tags of \<^verbatim>\<open>rdns/src/dnssec.rs\<close>
  and the state machine of \<^verbatim>\<open>rdns/src/rfc5011.rs\<close>. The hash functions of the sha1 and sha2 crates
  are the parameter \<open>sha\<close>, a function of the digest type and the octets. What \<^verbatim>\<open>observe\<close> is given
  is data here, as it is there: the caller has validated the RRset and says which keys signed it.
\<close>

section \<open>The code\<close>

subsection \<open>Keys and DS records\<close>

definition DNSKEY_FLAG_ZONE :: u16 where "DNSKEY_FLAG_ZONE = 0x0100"
definition DNSKEY_FLAG_SEP :: u16 where "DNSKEY_FLAG_SEP = 0x0001"
definition DNSKEY_FLAG_REVOKE :: u16 where "DNSKEY_FLAG_REVOKE = 0x0080"
definition DNSKEY_PROTOCOL_DNSSEC :: byte where "DNSKEY_PROTOCOL_DNSSEC = 3"

record dnskey =
  dk_owner :: name
  dk_flags :: u16
  dk_protocol :: byte
  dk_algorithm :: byte
  dk_public_key :: bytes

definition dnskey_rdata :: "dnskey \<Rightarrow> bytes" where
  "dnskey_rdata k = be16 (dk_flags k) @ [dk_protocol k, dk_algorithm k] @ dk_public_key k"

fun key_tag_sum :: "nat \<Rightarrow> bytes \<Rightarrow> u32 \<Rightarrow> u32" where
  "key_tag_sum i [] s = s"
| "key_tag_sum i (b # bs) s =
     key_tag_sum (Suc i) bs (s + (if i mod 2 = 0 then push_bit 8 (ucast b) else ucast b))"

definition key_tag_of_rdata :: "bytes \<Rightarrow> u16" where
  "key_tag_of_rdata rdata =
     (let s = key_tag_sum 0 rdata 0; s = s + (drop_bit 16 s AND 0xffff) in ucast (s AND 0xffff))"

definition key_tag :: "dnskey \<Rightarrow> u16" where
  "key_tag k = key_tag_of_rdata (be16 (dk_flags k) @ [dk_protocol k, dk_algorithm k] @ dk_public_key k)"

definition is_zone_key :: "dnskey \<Rightarrow> bool" where
  "is_zone_key k \<longleftrightarrow> dk_flags k AND DNSKEY_FLAG_ZONE \<noteq> 0 \<and> dk_protocol k = DNSKEY_PROTOCOL_DNSSEC"

definition is_sep :: "dnskey \<Rightarrow> bool" where
  "is_sep k \<longleftrightarrow> dk_flags k AND DNSKEY_FLAG_SEP \<noteq> 0"

record ds_record =
  ds_owner :: name
  ds_key_tag :: u16
  ds_algorithm :: byte
  ds_digest_type :: byte
  ds_digest_octets :: bytes

type_synonym hashes = "byte \<Rightarrow> bytes \<Rightarrow> bytes"

definition ds_digest :: "hashes \<Rightarrow> dnskey \<Rightarrow> byte \<Rightarrow> bytes option" where
  "ds_digest sha k digest_type =
     (let input = folded (dk_owner k) @ dnskey_rdata k in
      if digest_type = 1 \<or> digest_type = 2 \<or> digest_type = 4 then Some (sha digest_type input) else None)"

text \<open>\<^verbatim>\<open>Ds::matches_key\<close>; its callers take an unsupported digest type as no match.\<close>

definition matches_key :: "hashes \<Rightarrow> ds_record \<Rightarrow> dnskey \<Rightarrow> bool option" where
  "matches_key sha ds k =
     (if ds_key_tag ds \<noteq> key_tag k \<or> ds_algorithm ds \<noteq> dk_algorithm k then Some False
      else case ds_digest sha k (ds_digest_type ds) of
          None \<Rightarrow> None
        | Some computed \<Rightarrow> Some (computed = ds_digest_octets ds))"

subsection \<open>The state machine\<close>

definition ADD_HOLD_DOWN :: nat where "ADD_HOLD_DOWN = 2592000"
definition REMOVE_HOLD_DOWN :: nat where "REMOVE_HOLD_DOWN = 2592000"
definition DS_DIGEST_SHA256 :: byte where "DS_DIGEST_SHA256 = 2"

datatype key_state = AddPend | Valid | Missing | Revoked

definition is_anchor :: "key_state \<Rightarrow> bool" where
  "is_anchor s \<longleftrightarrow> s = Valid \<or> s = Missing"

record tracked_key =
  tk_key :: dnskey
  tk_state :: key_state
  tk_since :: nat

definition hold_down_elapsed :: "tracked_key \<Rightarrow> nat \<Rightarrow> bool" where
  "hold_down_elapsed t now \<longleftrightarrow> now - tk_since t \<ge> ADD_HOLD_DOWN"

text \<open>A change names its zone; here as the name, where the code has its text.\<close>

datatype anchor_change =
    Pending name u16 | Trusted name u16 | Withdrawn name u16 | Absent name u16 | Returned name u16
  | RevokedKey name u16 | Forgotten name u16

record managed_anchors =
  ma_ds :: "ds_record list"
  ma_keys :: "tracked_key list"

definition from_ds :: "ds_record list \<Rightarrow> managed_anchors" where
  "from_ds anchors = \<lparr>ma_ds = anchors, ma_keys = []\<rparr>"

definition is_candidate_anchor :: "dnskey \<Rightarrow> bool" where
  "is_candidate_anchor k \<longleftrightarrow> is_zone_key k \<and> is_sep k"

definition same_key :: "dnskey \<Rightarrow> dnskey \<Rightarrow> bool" where
  "same_key a b \<longleftrightarrow> dk_algorithm a = dk_algorithm b \<and> dk_protocol a = dk_protocol b \<and>
     dk_public_key a = dk_public_key b \<and> name_eq (dk_owner a) (dk_owner b)"

definition unwrap_or_false :: "bool option \<Rightarrow> bool" where
  "unwrap_or_false r = (case r of Some b \<Rightarrow> b | None \<Rightarrow> False)"

definition anchor_ds :: "hashes \<Rightarrow> dnskey \<Rightarrow> ds_record option" where
  "anchor_ds sha k =
     (case ds_digest sha k DS_DIGEST_SHA256 of
        None \<Rightarrow> None
      | Some digest \<Rightarrow> Some \<lparr>ds_owner = dk_owner k, ds_key_tag = key_tag k, ds_algorithm = dk_algorithm k,
          ds_digest_type = DS_DIGEST_SHA256, ds_digest_octets = digest\<rparr>)"

text \<open>\<^verbatim>\<open>Ds\<close>'s derived equality, with that of \<^verbatim>\<open>Name\<close> for the owner.\<close>

definition ds_eq :: "ds_record \<Rightarrow> ds_record \<Rightarrow> bool" where
  "ds_eq a b \<longleftrightarrow> name_eq (ds_owner a) (ds_owner b) \<and> ds_key_tag a = ds_key_tag b \<and> ds_algorithm a = ds_algorithm b \<and>
     ds_digest_type a = ds_digest_type b \<and> ds_digest_octets a = ds_digest_octets b"

definition trust_anchors :: "hashes \<Rightarrow> managed_anchors \<Rightarrow> ds_record list" where
  "trust_anchors sha a =
     (let revoked = filter (\<lambda>t. tk_state t = Revoked) (ma_keys a);
          anchors = filter (\<lambda>ds. \<not> list_ex (\<lambda>r. unwrap_or_false (matches_key sha ds (tk_key r))) revoked) (ma_ds a) in
      fold (\<lambda>t anchors. case anchor_ds sha (tk_key t) of
                None \<Rightarrow> anchors
              | Some ds \<Rightarrow> if list_ex (ds_eq ds) anchors then anchors else anchors @ [ds])
        (filter (\<lambda>t. is_anchor (tk_state t)) (ma_keys a)) anchors)"

definition has_anchor_for :: "name \<Rightarrow> managed_anchors \<Rightarrow> bool" where
  "has_anchor_for zone a \<longleftrightarrow> list_ex (\<lambda>ds. name_eq (ds_owner ds) zone) (ma_ds a) \<or>
     list_ex (\<lambda>t. is_anchor (tk_state t) \<and> name_eq (dk_owner (tk_key t)) zone) (ma_keys a)"

text \<open>\<^verbatim>\<open>iter_mut().find(..)\<close>: change the first tracked key that is this one.\<close>

fun update_first :: "(tracked_key \<Rightarrow> bool) \<Rightarrow> (tracked_key \<Rightarrow> tracked_key) \<Rightarrow> tracked_key list \<Rightarrow> tracked_key list" where
  "update_first P f [] = []"
| "update_first P f (t # ts) = (if P t then f t # ts else t # update_first P f ts)"

text \<open>The first loop of \<^verbatim>\<open>observe\<close>: revocations.\<close>

definition revoke_one :: "name \<Rightarrow> dnskey list \<Rightarrow> nat \<Rightarrow> dnskey \<Rightarrow> tracked_key list \<times> anchor_change list \<Rightarrow>
    tracked_key list \<times> anchor_change list" where
  "revoke_one zone self_signers now key s =
     (let (keys, changes) = s in
      if \<not> name_eq (dk_owner key) zone then s
      else if dk_flags key AND DNSKEY_FLAG_REVOKE = 0 then s
      else if \<not> list_ex (\<lambda>signer. same_key signer key) self_signers then s
      else case find (\<lambda>t. same_key (tk_key t) key) keys of
          None \<Rightarrow> s
        | Some t \<Rightarrow>
            if tk_state t \<noteq> Revoked then
              (update_first (\<lambda>t. same_key (tk_key t) key) (\<lambda>t. t\<lparr>tk_state := Revoked, tk_since := now\<rparr>) keys,
               changes @ [RevokedKey zone (key_tag (tk_key t))])
            else s)"

text \<open>The second: keys present.\<close>

definition present_one :: "hashes \<Rightarrow> ds_record list \<Rightarrow> name \<Rightarrow> nat \<Rightarrow> dnskey \<Rightarrow> tracked_key list \<times> anchor_change list \<Rightarrow>
    tracked_key list \<times> anchor_change list" where
  "present_one sha dss zone now key s =
     (let (keys, changes) = s in
      if \<not> name_eq (dk_owner key) zone then s
      else if dk_flags key AND DNSKEY_FLAG_REVOKE \<noteq> 0 then s
      else if \<not> is_candidate_anchor key then s
      else case find (\<lambda>t. same_key (tk_key t) key) keys of
          None \<Rightarrow>
            let anchored = list_ex (\<lambda>ds. name_eq (ds_owner ds) (dk_owner key) \<and> unwrap_or_false (matches_key sha ds key)) dss in
            (keys @ [\<lparr>tk_key = key, tk_state = (if anchored then Valid else AddPend), tk_since = now\<rparr>],
             changes @ [if anchored then Trusted zone (key_tag key) else Pending zone (key_tag key)])
        | Some t \<Rightarrow>
            (case tk_state t of
               AddPend \<Rightarrow>
                 if hold_down_elapsed t now then
                   (update_first (\<lambda>t. same_key (tk_key t) key) (\<lambda>t. t\<lparr>tk_state := Valid, tk_since := now\<rparr>) keys,
                    changes @ [Trusted zone (key_tag key)])
                 else s
             | Missing \<Rightarrow>
                 (update_first (\<lambda>t. same_key (tk_key t) key) (\<lambda>t. t\<lparr>tk_state := Valid, tk_since := now\<rparr>) keys,
                  changes @ [Returned zone (key_tag key)])
             | Valid \<Rightarrow> s
             | Revoked \<Rightarrow> s))"

text \<open>The third: keys tracked and not present. It gives the key as it is left, whether it is forgotten, and the change.\<close>

definition absent_one :: "name \<Rightarrow> dnskey list \<Rightarrow> nat \<Rightarrow> tracked_key \<Rightarrow> tracked_key \<times> bool \<times> anchor_change list" where
  "absent_one zone rrset now t =
     (if \<not> name_eq (dk_owner (tk_key t)) zone then (t, False, [])
      else if list_ex (\<lambda>k. same_key k (tk_key t)) rrset then (t, False, [])
      else case tk_state t of
          AddPend \<Rightarrow> (t, True, [Withdrawn zone (key_tag (tk_key t))])
        | Valid \<Rightarrow> (t\<lparr>tk_state := Missing, tk_since := now\<rparr>, False, [Absent zone (key_tag (tk_key t))])
        | Missing \<Rightarrow> (t, False, [])
        | Revoked \<Rightarrow>
            if now - tk_since t \<ge> REMOVE_HOLD_DOWN then (t, True, [Forgotten zone (key_tag (tk_key t))]) else (t, False, []))"

definition observe :: "hashes \<Rightarrow> name \<Rightarrow> dnskey list \<Rightarrow> dnskey list \<Rightarrow> nat \<Rightarrow> managed_anchors \<Rightarrow> managed_anchors \<times> anchor_change list" where
  "observe sha zone rrset self_signers now a =
     (if \<not> has_anchor_for zone a then (a, [])
      else
        let s = fold (revoke_one zone self_signers now) rrset (ma_keys a, []);
            (keys, changes) = fold (present_one sha (ma_ds a) zone now) rrset s;
            rs = map (absent_one zone rrset now) keys;
            forgotten = map (\<lambda>(t, _, _). tk_key t) (filter (\<lambda>(_, f, _). f) rs);
            keys = map (\<lambda>(t, _, _). t) rs in
        (a\<lparr>ma_keys := filter (\<lambda>t. \<not> list_ex (\<lambda>f. same_key f (tk_key t)) forgotten) keys\<rparr>,
         changes @ concat (map (\<lambda>(_, _, c). c) rs)))"

subsection \<open>Intervals\<close>

definition query_interval :: "u32 \<Rightarrow> nat \<Rightarrow> nat" where
  "query_interval original_ttl signature_remaining =
     max 3600 (min (min 1296000 (unat original_ttl div 2)) (signature_remaining div 2))"

definition retry_interval :: "u32 \<Rightarrow> nat \<Rightarrow> nat" where
  "retry_interval original_ttl signature_remaining =
     max 3600 (min (min 86400 (unat original_ttl div 10)) (signature_remaining div 10))"

section \<open>One key at a time\<close>

text \<open>
  A key's identity is its algorithm, protocol, public key and owner up to case; the flags are not
  part of it. No two tracked keys share one.
\<close>

type_synonym key_ident = "byte \<times> byte \<times> bytes \<times> bytes"

definition key_id :: "dnskey \<Rightarrow> key_ident" where
  "key_id k = (dk_algorithm k, dk_protocol k, dk_public_key k, lower (dk_owner k))"

definition tid :: "tracked_key \<Rightarrow> key_ident" where
  "tid t = key_id (tk_key t)"

definition in_zone :: "name \<Rightarrow> key_ident \<Rightarrow> bool" where
  "in_zone zone i \<longleftrightarrow> snd (snd (snd i)) = lower zone"

definition keys_inv :: "tracked_key list \<Rightarrow> bool" where
  "keys_inv keys \<longleftrightarrow> distinct (map tid keys)"

lemma same_key_id: "same_key a b \<longleftrightarrow> key_id a = key_id b"
  by (auto simp: same_key_def key_id_def name_eq_def eq_ignore_case_lower)

lemma owner_in_zone: "name_eq (dk_owner k) zone \<longleftrightarrow> in_zone zone (key_id k)"
  by (simp add: name_eq_def eq_ignore_case_lower in_zone_def key_id_def)

definition look :: "tracked_key list \<Rightarrow> key_ident \<Rightarrow> tracked_key option" where
  "look keys i = find (\<lambda>t. tid t = i) keys"

text \<open>A key as the specification sees it: its state, if it is tracked, and since when.\<close>

definition st :: "tracked_key list \<Rightarrow> key_ident \<Rightarrow> (key_state \<times> nat) option" where
  "st keys i = map_option (\<lambda>t. (tk_state t, tk_since t)) (look keys i)"

lemma look_simps [simp]: "look [] i = None" "look (t # ts) i = (if tid t = i then Some t else look ts i)"
  by (simp_all add: look_def)

lemma look_append: "look (xs @ ys) i = (case look xs i of None \<Rightarrow> look ys i | Some t \<Rightarrow> Some t)"
  by (induction xs) auto

lemma look_None: "look keys i = None \<longleftrightarrow> i \<notin> tid ` set keys"
  by (induction keys) auto

lemma look_SomeD: "look keys i = Some t \<Longrightarrow> t \<in> set keys \<and> tid t = i"
  by (induction keys) (auto split: if_splits)

lemma look_update:
  assumes "\<And>t. tid (f t) = tid t"
  shows "look (update_first (\<lambda>t. tid t = j) f keys) i = (if i = j then map_option f (look keys i) else look keys i)"
    and "map tid (update_first (\<lambda>t. tid t = j) f keys) = map tid keys"
  by (induction keys) (auto simp: assms)

lemma tid_upd [simp]: "tid (t\<lparr>tk_state := s, tk_since := n\<rparr>) = tid t"
  by (simp add: tid_def)

subsection \<open>Revocations\<close>

definition revokes :: "name \<Rightarrow> dnskey list \<Rightarrow> key_ident \<Rightarrow> dnskey \<Rightarrow> bool" where
  "revokes zone signers i k \<longleftrightarrow> key_id k = i \<and> in_zone zone i \<and> dk_flags k AND DNSKEY_FLAG_REVOKE \<noteq> 0 \<and>
     (\<exists>s \<in> set signers. key_id s = i)"

fun revoke_st :: "nat \<Rightarrow> (key_state \<times> nat) option \<Rightarrow> (key_state \<times> nat) option" where
  "revoke_st now (Some (Revoked, s)) = Some (Revoked, s)"
| "revoke_st now (Some (q, s)) = Some (Revoked, now)"
| "revoke_st now None = None"

lemma revoke_st_idem [simp]: "revoke_st now (revoke_st now x) = revoke_st now x"
  by (cases "(now, x)" rule: revoke_st.cases) auto

lemma revoke_one_st:
  "st (fst (revoke_one zone signers now k (keys, ch))) i = (if revokes zone signers i k then revoke_st now (st keys i) else st keys i) \<and>
   map tid (fst (revoke_one zone signers now k (keys, ch))) = map tid keys"
proof -
  have P: "(\<lambda>t. same_key (tk_key t) k) = (\<lambda>t. tid t = key_id k)" by (simp add: same_key_id tid_def)
  have f: "find (\<lambda>t. tid t = key_id k) keys = look keys (key_id k)" by (simp add: look_def)
  have r: "revoke_st now (Some (q, s)) = (if q = Revoked then Some (q, s) else Some (Revoked, now))" for q s by (cases q) auto
  show ?thesis
    unfolding revoke_one_def Let_def P
    by (auto simp: f owner_in_zone same_key_id list_ex_iff revokes_def st_def look_update r split: option.splits)
qed

lemma revoke_loop_st:
  "st (fst (fold (revoke_one zone signers now) rrset (keys, ch))) i =
     (if \<exists>k \<in> set rrset. revokes zone signers i k then revoke_st now (st keys i) else st keys i) \<and>
   map tid (fst (fold (revoke_one zone signers now) rrset (keys, ch))) = map tid keys"
proof (induction rrset arbitrary: keys ch)
  case (Cons k ks)
  obtain keys' ch' where r: "revoke_one zone signers now k (keys, ch) = (keys', ch')" by fastforce
  with revoke_one_st [of zone signers now k keys ch i] Cons.IH [of keys' ch'] show ?case by auto
qed simp

subsection \<open>Keys present\<close>

definition presents :: "name \<Rightarrow> key_ident \<Rightarrow> dnskey \<Rightarrow> bool" where
  "presents zone i k \<longleftrightarrow> key_id k = i \<and> in_zone zone i \<and> dk_flags k AND DNSKEY_FLAG_REVOKE = 0 \<and> is_candidate_anchor k"

definition anchored :: "hashes \<Rightarrow> ds_record list \<Rightarrow> dnskey \<Rightarrow> bool" where
  "anchored sha dss k \<longleftrightarrow> (\<exists>ds \<in> set dss. name_eq (ds_owner ds) (dk_owner k) \<and> matches_key sha ds k = Some True)"

fun present_st :: "bool \<Rightarrow> nat \<Rightarrow> (key_state \<times> nat) option \<Rightarrow> (key_state \<times> nat) option" where
  "present_st anch now None = Some (if anch then Valid else AddPend, now)"
| "present_st anch now (Some (AddPend, s)) = Some (if now - s \<ge> ADD_HOLD_DOWN then (Valid, now) else (AddPend, s))"
| "present_st anch now (Some (Missing, s)) = Some (Valid, now)"
| "present_st anch now (Some (q, s)) = Some (q, s)"

lemma present_st_idem [simp]: "present_st b now (present_st a now x) = present_st a now x"
  by (cases "(a, now, x)" rule: present_st.cases) (auto simp: ADD_HOLD_DOWN_def)

lemma present_one_st:
  "st (fst (present_one sha dss zone now k (keys, ch))) i =
     (if presents zone i k then present_st (anchored sha dss k) now (st keys i) else st keys i) \<and>
   (keys_inv keys \<longrightarrow> keys_inv (fst (present_one sha dss zone now k (keys, ch))))"
proof -
  have P: "(\<lambda>t. same_key (tk_key t) k) = (\<lambda>t. tid t = key_id k)" by (simp add: same_key_id tid_def)
  have f: "find (\<lambda>t. tid t = key_id k) keys = look keys (key_id k)" by (simp add: look_def)
  have an: "list_ex (\<lambda>ds. name_eq (ds_owner ds) (dk_owner k) \<and> unwrap_or_false (matches_key sha ds k)) dss = anchored sha dss k"
    by (auto simp: anchored_def list_ex_iff unwrap_or_false_def split: option.splits)
  show ?thesis
  proof (cases "name_eq (dk_owner k) zone \<and> dk_flags k AND DNSKEY_FLAG_REVOKE = 0 \<and> is_candidate_anchor k")
    case False
    then show ?thesis by (auto simp: present_one_def presents_def owner_in_zone)
  next
    case True
    then have pr: "presents zone i k \<longleftrightarrow> key_id k = i" by (auto simp: presents_def owner_in_zone)
    show ?thesis
    proof (cases "look keys (key_id k)")
      case None
      have fst: "fst (present_one sha dss zone now k (keys, ch)) =
          keys @ [\<lparr>tk_key = k, tk_state = (if anchored sha dss k then Valid else AddPend), tk_since = now\<rparr>]"
        using True None unfolding present_one_def Let_def P an by (simp add: f)
      have "key_id k \<notin> tid ` set keys" using None by (simp add: look_None)
      then have "keys_inv keys \<longrightarrow> keys_inv (fst (present_one sha dss zone now k (keys, ch)))"
        by (simp add: fst keys_inv_def tid_def)
      moreover have "look (fst (present_one sha dss zone now k (keys, ch))) i = (if key_id k = i
          then Some \<lparr>tk_key = k, tk_state = (if anchored sha dss k then Valid else AddPend), tk_since = now\<rparr> else look keys i)"
        using None by (cases "key_id k = i") (auto simp: fst look_append tid_def split: option.splits)
      ultimately show ?thesis using None by (cases "key_id k = i") (simp_all add: st_def pr)
    next
      case (Some t)
      have tu: "tid (t\<lparr>tk_state := Valid, tk_since := now\<rparr>) = tid t" for t by simp
      have "fst (present_one sha dss zone now k (keys, ch)) =
          (if tk_state t = Missing \<or> tk_state t = AddPend \<and> now - tk_since t \<ge> ADD_HOLD_DOWN
           then update_first (\<lambda>t. tid t = key_id k) (\<lambda>t. t\<lparr>tk_state := Valid, tk_since := now\<rparr>) keys else keys)"
        using True Some unfolding present_one_def Let_def P an
        by (cases "tk_state t") (simp_all add: f hold_down_elapsed_def)
      with Some pr show ?thesis
        by (cases "tk_state t"; cases "i = key_id k") (simp_all add: st_def look_update [OF tu] keys_inv_def)
    qed
  qed
qed

lemma present_loop_st:
  "st (fst (fold (present_one sha dss zone now) rrset (keys, ch))) i =
     (case find (presents zone i) rrset of
        Some k \<Rightarrow> present_st (anchored sha dss k) now (st keys i) | None \<Rightarrow> st keys i) \<and>
   (keys_inv keys \<longrightarrow> keys_inv (fst (fold (present_one sha dss zone now) rrset (keys, ch))))"
proof (induction rrset arbitrary: keys ch)
  case (Cons k ks)
  obtain keys' ch' where r: "present_one sha dss zone now k (keys, ch) = (keys', ch')" by fastforce
  with present_one_st [of sha dss zone now k keys ch i] Cons.IH [of keys' ch'] show ?case
    by (auto split: option.splits)
qed simp

subsection \<open>Keys absent\<close>

fun absent_st :: "nat \<Rightarrow> (key_state \<times> nat) option \<Rightarrow> (key_state \<times> nat) option" where
  "absent_st now (Some (AddPend, s)) = None"
| "absent_st now (Some (Valid, s)) = Some (Missing, now)"
| "absent_st now (Some (Revoked, s)) = (if now - s \<ge> REMOVE_HOLD_DOWN then None else Some (Revoked, s))"
| "absent_st now x = x"

lemma absent_one_tid [simp]: "tid (fst (absent_one zone rrset now t)) = tid t"
  by (auto simp: absent_one_def split: key_state.splits)

lemma look_filter_map:
  assumes "\<And>t. tid (g t) = tid t"
  shows "look (filter (\<lambda>t. \<not> G (tid t)) (map g ks)) i = (case look ks i of None \<Rightarrow> None | Some t \<Rightarrow> if G i then None else Some (g t))"
  by (induction ks) (auto simp: assms split: option.splits)

lemma absent_loop_look:
  assumes rs: "rs = map (absent_one zone rrset now) keys" and "keys_inv keys"
  shows "look (filter (\<lambda>t. \<not> list_ex (\<lambda>f. same_key f (tk_key t)) (map (\<lambda>(t, _, _). tk_key t) (filter (\<lambda>(_, f, _). f) rs)))
      (map (\<lambda>(t, _, _). t) rs)) i =
    (case look keys i of
       None \<Rightarrow> None
     | Some t \<Rightarrow> if fst (snd (absent_one zone rrset now t)) then None else Some (fst (absent_one zone rrset now t)))"
proof -
  let ?a = "absent_one zone rrset now"
  let ?gone = "\<lambda>i. \<exists>t \<in> set keys. tid t = i \<and> fst (snd (?a t))"
  have gone: "list_ex (\<lambda>f. same_key f (tk_key t)) (map (\<lambda>(t, _, _). tk_key t) (filter (\<lambda>(_, f, _). f) rs)) \<longleftrightarrow> ?gone (tid t)" for t
  proof -
    have "list_ex (\<lambda>f. same_key f (tk_key t)) (map (\<lambda>(t, _, _). tk_key t) (filter (\<lambda>(_, f, _). f) rs)) \<longleftrightarrow>
        (\<exists>u \<in> set keys. fst (snd (?a u)) \<and> tid (fst (?a u)) = tid t)"
      by (force simp: rs list_ex_iff same_key_id tid_def case_prod_beta)
    then show ?thesis by auto
  qed
  have m: "map (\<lambda>(t, _, _). t) rs = map (\<lambda>t. fst (?a t)) keys" by (simp add: rs case_prod_beta)
  have "look (filter (\<lambda>t. \<not> ?gone (tid t)) (map (\<lambda>t. fst (?a t)) keys)) i =
      (case look keys i of None \<Rightarrow> None | Some t \<Rightarrow> if ?gone i then None else Some (fst (?a t)))"
    by (rule look_filter_map) simp
  moreover have "?gone i \<longleftrightarrow> fst (snd (?a t))" if "look keys i = Some t" for t
    using assms(2) look_SomeD [OF that] by (auto simp: keys_inv_def distinct_map inj_on_def)
  ultimately show ?thesis unfolding gone m by (auto split: option.splits)
qed

lemma absent_loop_inv:
  assumes "keys_inv keys"
  shows "keys_inv (filter P (map (\<lambda>(t, _, _). t) (map (absent_one zone rrset now) keys)))"
proof -
  have "map tid (map (\<lambda>(t, _, _). t) (map (absent_one zone rrset now) keys)) = map tid keys"
    by (simp add: case_prod_beta)
  with assms show ?thesis by (metis keys_inv_def distinct_map_filter)
qed

lemma absent_one_st:
  "(if fst (snd (absent_one zone rrset now t)) then None
    else Some (tk_state (fst (absent_one zone rrset now t)), tk_since (fst (absent_one zone rrset now t)))) =
   (if in_zone zone (tid t) \<and> tid t \<notin> key_id ` set rrset then absent_st now (Some (tk_state t, tk_since t))
    else Some (tk_state t, tk_since t))"
  unfolding absent_one_def owner_in_zone same_key_id list_ex_iff tid_def image_iff
  by (cases "tk_state t") (auto; metis)+

subsection \<open>The whole step\<close>

definition key_next :: "hashes \<Rightarrow> ds_record list \<Rightarrow> name \<Rightarrow> dnskey list \<Rightarrow> dnskey list \<Rightarrow> nat \<Rightarrow> key_ident \<Rightarrow>
    (key_state \<times> nat) option \<Rightarrow> (key_state \<times> nat) option" where
  "key_next sha dss zone rrset signers now i x =
     (let x = (if \<exists>k \<in> set rrset. revokes zone signers i k then revoke_st now x else x);
          x = (case find (presents zone i) rrset of
                 Some k \<Rightarrow> present_st (anchored sha dss k) now x | None \<Rightarrow> x) in
      if in_zone zone i \<and> i \<notin> key_id ` set rrset then absent_st now x else x)"

lemma observe_st:
  assumes "keys_inv (ma_keys a)" and "has_anchor_for zone a"
  shows "st (ma_keys (fst (observe sha zone rrset signers now a))) i =
      key_next sha (ma_ds a) zone rrset signers now i (st (ma_keys a) i)"
    and "keys_inv (ma_keys (fst (observe sha zone rrset signers now a)))"
proof -
  obtain k1 c1 where l1: "fold (revoke_one zone signers now) rrset (ma_keys a, []) = (k1, c1)" by fastforce
  obtain k2 c2 where l2: "fold (present_one sha (ma_ds a) zone now) rrset (k1, c1) = (k2, c2)" by fastforce
  note s1 = revoke_loop_st [of zone signers now rrset "ma_keys a" "[]", unfolded l1, simplified]
  note s2 = present_loop_st [of sha "ma_ds a" zone now rrset k1 c1, unfolded l2, simplified]
  let ?rs = "map (absent_one zone rrset now) k2"
  let ?k3 = "filter (\<lambda>t. \<not> list_ex (\<lambda>f. same_key f (tk_key t)) (map (\<lambda>(t, _, _). tk_key t) (filter (\<lambda>(_, f, _). f) ?rs)))
      (map (\<lambda>(t, _, _). t) ?rs)"
  have k3: "ma_keys (fst (observe sha zone rrset signers now a)) = ?k3"
    using assms(2) l1 l2 by (simp add: observe_def Let_def)
  have inv: "keys_inv k2" using s1 s2 assms(1) by (simp add: keys_inv_def)
  show "keys_inv (ma_keys (fst (observe sha zone rrset signers now a)))"
    unfolding k3 by (rule absent_loop_inv [OF inv])
  have n: "absent_st now None = None" by simp
  have "st ?k3 i = (if in_zone zone i \<and> i \<notin> key_id ` set rrset then absent_st now (st k2 i) else st k2 i)"
  proof (cases "look k2 i")
    case None
    then show ?thesis unfolding st_def absent_loop_look [OF refl inv] by simp
  next
    case (Some t)
    with absent_one_st [of zone rrset now t] look_SomeD [OF Some] show ?thesis
      unfolding st_def absent_loop_look [OF refl inv] by (auto split: if_splits)
  qed
  with s1 s2 show "st (ma_keys (fst (observe sha zone rrset signers now a))) i =
      key_next sha (ma_ds a) zone rrset signers now i (st (ma_keys a) i)"
    unfolding k3 key_next_def Let_def by (simp split: option.splits)
qed

lemma key_next_elsewhere: "\<not> in_zone zone i \<Longrightarrow> key_next sha dss zone rrset signers now i x = x"
proof -
  assume z: "\<not> in_zone zone i"
  then have "find (presents zone i) rrset = None" by (auto simp: find_None_iff presents_def)
  with z show ?thesis by (simp add: key_next_def revokes_def)
qed

section \<open>A history of observations\<close>

text \<open>
  A validator starts from its configured DS records and observes: the newest observation is the
  head of the list.
\<close>

record observation =
  ob_zone :: name
  ob_rrset :: "dnskey list"
  ob_signers :: "dnskey list"
  ob_now :: nat

fun anchors_after :: "hashes \<Rightarrow> ds_record list \<Rightarrow> observation list \<Rightarrow> managed_anchors" where
  "anchors_after sha dss [] = from_ds dss"
| "anchors_after sha dss (ob # h) =
     fst (observe sha (ob_zone ob) (ob_rrset ob) (ob_signers ob) (ob_now ob) (anchors_after sha dss h))"

abbreviation key_st :: "hashes \<Rightarrow> ds_record list \<Rightarrow> observation list \<Rightarrow> key_ident \<Rightarrow> (key_state \<times> nat) option" where
  "key_st sha dss h \<equiv> st (ma_keys (anchors_after sha dss h))"

text \<open>What one observation says of a key: its zone's RRset holds it at all, holds it as a healthy candidate, revokes it.\<close>

definition concerns :: "key_ident \<Rightarrow> observation \<Rightarrow> bool" where
  "concerns i ob \<longleftrightarrow> in_zone (ob_zone ob) i"

definition holds :: "key_ident \<Rightarrow> observation \<Rightarrow> bool" where
  "holds i ob \<longleftrightarrow> (concerns i ob \<longrightarrow> i \<in> key_id ` set (ob_rrset ob))"

definition shows_key :: "key_ident \<Rightarrow> observation \<Rightarrow> bool" where
  "shows_key i ob \<longleftrightarrow> (\<exists>k \<in> set (ob_rrset ob). presents (ob_zone ob) i k)"

definition self_revoked :: "key_ident \<Rightarrow> observation \<Rightarrow> bool" where
  "self_revoked i ob \<longleftrightarrow> (\<exists>k \<in> set (ob_rrset ob). revokes (ob_zone ob) (ob_signers ob) i k)"

definition configured :: "hashes \<Rightarrow> ds_record list \<Rightarrow> key_ident \<Rightarrow> observation \<Rightarrow> bool" where
  "configured sha dss i ob \<longleftrightarrow> (\<exists>k \<in> set (ob_rrset ob). presents (ob_zone ob) i k \<and> anchored sha dss k)"

text \<open>
  A key has earned its trust when it was seen under a configured DS, or shown at two observations
  at least the hold-down apart with every observation of its zone in between holding it.
\<close>

definition pending_since :: "observation list \<Rightarrow> key_ident \<Rightarrow> nat \<Rightarrow> bool" where
  "pending_since h i s \<longleftrightarrow> (\<exists>b ob c. h = b @ ob # c \<and> ob_now ob = s \<and> shows_key i ob \<and> (\<forall>x \<in> set b. holds i x))"

definition earned :: "hashes \<Rightarrow> ds_record list \<Rightarrow> observation list \<Rightarrow> key_ident \<Rightarrow> bool" where
  "earned sha dss h i \<longleftrightarrow>
     (\<exists>ob \<in> set h. configured sha dss i ob) \<or>
     (\<exists>a o2 b s. h = a @ o2 # b \<and> shows_key i o2 \<and> pending_since b i s \<and> ob_now o2 \<ge> s + ADD_HOLD_DOWN)"

fun justified :: "hashes \<Rightarrow> ds_record list \<Rightarrow> observation list \<Rightarrow> key_ident \<Rightarrow> (key_state \<times> nat) option \<Rightarrow> bool" where
  "justified sha dss h i None = True"
| "justified sha dss h i (Some (AddPend, s)) = pending_since h i s"
| "justified sha dss h i (Some (Revoked, s)) = (\<exists>ob \<in> set h. ob_now ob = s \<and> self_revoked i ob)"
| "justified sha dss h i (Some (q, s)) = earned sha dss h i"

lemma observe_ds [simp]: "ma_ds (fst (observe sha zone rrset signers now a)) = ma_ds a"
  by (simp add: observe_def Let_def case_prod_beta)

lemma anchors_after_ds [simp]: "ma_ds (anchors_after sha dss h) = dss"
  by (induction h) (simp_all add: from_ds_def)

lemma observe_ignored: "\<not> has_anchor_for zone a \<Longrightarrow> fst (observe sha zone rrset signers now a) = a"
  by (simp add: observe_def)

lemma anchors_after_inv: "keys_inv (ma_keys (anchors_after sha dss h))"
proof (induction h)
  case (Cons ob h)
  then show ?case
    by (cases "has_anchor_for (ob_zone ob) (anchors_after sha dss h)") (simp_all add: observe_st(2) observe_ignored)
qed (simp add: from_ds_def keys_inv_def)

text \<open>Only keys of zones with a configured DS are ever tracked, so no observation of a tracked key's zone is ignored.\<close>

definition ds_zone :: "ds_record list \<Rightarrow> key_ident \<Rightarrow> bool" where
  "ds_zone dss i \<longleftrightarrow> (\<exists>ds \<in> set dss. in_zone (ds_owner ds) i)"

lemma in_zone_same: "in_zone z i \<Longrightarrow> in_zone z' i \<Longrightarrow> name_eq z z'"
  by (simp add: in_zone_def name_eq_def eq_ignore_case_lower)

lemma st_in: "t \<in> set keys \<Longrightarrow> st keys (tid t) \<noteq> None"
  using look_None [of keys "tid t"] by (auto simp: st_def)

lemma has_anchor_ds_zone:
  assumes "has_anchor_for zone a" and "in_zone zone i"
    and tracked: "\<And>j. st (ma_keys a) j \<noteq> None \<Longrightarrow> ds_zone (ma_ds a) j"
  shows "ds_zone (ma_ds a) i"
proof -
  consider ds where "ds \<in> set (ma_ds a)" "name_eq (ds_owner ds) zone"
    | t where "t \<in> set (ma_keys a)" "name_eq (dk_owner (tk_key t)) zone"
    using assms(1) by (auto simp: has_anchor_for_def list_ex_iff)
  then show ?thesis
  proof cases
    case 1
    with assms(2) show ?thesis
      by (auto simp: ds_zone_def in_zone_def name_eq_def eq_ignore_case_lower intro!: bexI [of _ ds])
  next
    case 2
    with tracked [OF st_in [OF 2(1)]] assms(2) show ?thesis
      by (auto simp: ds_zone_def in_zone_def name_eq_def eq_ignore_case_lower tid_def key_id_def)
  qed
qed

lemma tracked_ds_zone: "key_st sha dss h i \<noteq> None \<Longrightarrow> ds_zone dss i"
proof (induction h arbitrary: i)
  case (Cons ob h)
  let ?a = "anchors_after sha dss h"
  show ?case
  proof (cases "has_anchor_for (ob_zone ob) ?a \<and> in_zone (ob_zone ob) i")
    case True
    with Cons.IH has_anchor_ds_zone [of "ob_zone ob" ?a i] show ?thesis by simp
  next
    case False
    with Cons.prems have "key_st sha dss h i \<noteq> None"
      by (cases "has_anchor_for (ob_zone ob) ?a")
        (simp_all add: observe_st [OF anchors_after_inv] key_next_elsewhere observe_ignored)
    then show ?thesis by (rule Cons.IH)
  qed
qed (simp add: from_ds_def st_def)

lemma key_st_step:
  assumes "ds_zone dss i"
  shows "key_st sha dss (ob # h) i =
    key_next sha dss (ob_zone ob) (ob_rrset ob) (ob_signers ob) (ob_now ob) i (key_st sha dss h i)"
proof (cases "in_zone (ob_zone ob) i")
  case True
  with assms have "has_anchor_for (ob_zone ob) (anchors_after sha dss h)"
    by (auto simp: ds_zone_def has_anchor_for_def list_ex_iff intro: in_zone_same)
  then show ?thesis by (simp add: observe_st [OF anchors_after_inv])
next
  case False
  then show ?thesis
    by (cases "has_anchor_for (ob_zone ob) (anchors_after sha dss h)")
      (simp_all add: observe_st [OF anchors_after_inv] key_next_elsewhere observe_ignored)
qed

section \<open>Why a key is trusted, or not\<close>

lemma pending_since_Cons: "pending_since h i s \<Longrightarrow> holds i ob \<Longrightarrow> pending_since (ob # h) i s"
  unfolding pending_since_def
  by (elim exE conjE, rule_tac x = "ob # b" in exI) auto

lemma pending_since_now: "shows_key i ob \<Longrightarrow> pending_since (ob # h) i (ob_now ob)"
  unfolding pending_since_def by (intro exI [of _ "[]"] exI [of _ ob] exI [of _ h]) simp

lemma earned_Cons: "earned sha dss h i \<Longrightarrow> earned sha dss (ob # h) i"
  unfolding earned_def by (metis append_Cons list.set_intros(2))

lemma earned_now:
  "configured sha dss i ob \<Longrightarrow> earned sha dss (ob # h) i"
  "shows_key i ob \<Longrightarrow> pending_since h i s \<Longrightarrow> ob_now ob - s \<ge> ADD_HOLD_DOWN \<Longrightarrow> earned sha dss (ob # h) i"
proof -
  assume "shows_key i ob" "pending_since h i s" "ob_now ob - s \<ge> ADD_HOLD_DOWN"
  moreover from this(3) have "ob_now ob \<ge> s + ADD_HOLD_DOWN" by (simp add: ADD_HOLD_DOWN_def)
  ultimately show "earned sha dss (ob # h) i" unfolding earned_def by (metis append_Nil)
qed (simp add: earned_def)

lemma justified_Cons:
  assumes "justified sha dss h i x" and "\<And>s. x = Some (AddPend, s) \<Longrightarrow> holds i ob"
  shows "justified sha dss (ob # h) i x"
  using assms by (cases "(sha, dss, h, i, x)" rule: justified.cases) (auto intro: pending_since_Cons earned_Cons)

lemma justified_revoke:
  "justified sha dss h i x \<Longrightarrow> self_revoked i ob \<Longrightarrow> justified sha dss (ob # h) i (revoke_st (ob_now ob) x)"
  by (cases "(ob_now ob, x)" rule: revoke_st.cases) auto

lemma justified_present:
  assumes j: "justified sha dss h i x" and k: "k \<in> set (ob_rrset ob)" "presents (ob_zone ob) i k"
  shows "justified sha dss (ob # h) i (present_st (anchored sha dss k) (ob_now ob) x)"
proof -
  have s: "shows_key i ob" and c: "anchored sha dss k \<Longrightarrow> configured sha dss i ob" and hd: "holds i ob"
    using k by (auto simp: shows_key_def configured_def holds_def presents_def)
  show ?thesis
    using j by (cases "(anchored sha dss k, ob_now ob, x)" rule: present_st.cases)
      (auto intro: pending_since_now [OF s] pending_since_Cons [OF _ hd] earned_now(1) [OF c] earned_now(2) [OF s] earned_Cons)
qed

lemma present_st_Revoked: "present_st anch now (revoke_st now' x) = revoke_st now' x \<or> x = None"
  by (cases "(now', x)" rule: revoke_st.cases) auto

lemma key_next_cases:
  obtains (elsewhere) "\<not> in_zone zone i" "key_next sha dss zone rrset signers now i x = x"
  | (gone) "in_zone zone i" "i \<notin> key_id ` set rrset" "key_next sha dss zone rrset signers now i x = absent_st now x"
  | (revoked) "in_zone zone i" "\<exists>k \<in> set rrset. revokes zone signers i k" "x \<noteq> None"
      "key_next sha dss zone rrset signers now i x = revoke_st now x"
  | (present) k where "in_zone zone i" "k \<in> set rrset" "presents zone i k"
      "key_next sha dss zone rrset signers now i x = present_st (anchored sha dss k) now x"
      "x = None \<or> \<not> (\<exists>k \<in> set rrset. revokes zone signers i k)"
  | (held) "in_zone zone i" "i \<in> key_id ` set rrset" "\<not> (\<exists>k \<in> set rrset. revokes zone signers i k) \<or> x = None"
      "key_next sha dss zone rrset signers now i x = x"
proof -
  consider "\<not> in_zone zone i" | "in_zone zone i" "i \<notin> key_id ` set rrset" | "in_zone zone i" "i \<in> key_id ` set rrset" by blast
  then show thesis
  proof cases
    case 1
    then show thesis by (metis elsewhere key_next_elsewhere)
  next
    case 2
    then have "find (presents zone i) rrset = None" "\<not> (\<exists>k \<in> set rrset. revokes zone signers i k)"
      by (auto simp: find_None_iff presents_def revokes_def)
    with 2 gone show thesis by (simp add: key_next_def)
  next
    case 3
    show thesis
    proof (cases "(\<exists>k \<in> set rrset. revokes zone signers i k) \<and> x \<noteq> None")
      case True
      with 3 have "key_next sha dss zone rrset signers now i x = revoke_st now x"
        using present_st_Revoked [of _ now now x] by (auto simp: key_next_def Let_def split: option.splits)
      with True 3 revoked show thesis by blast
    next
      case False
      then have r: "(if \<exists>k \<in> set rrset. revokes zone signers i k then revoke_st now x else x) = x"
        by (cases x) auto
      show thesis
      proof (cases "find (presents zone i) rrset")
        case None
        with r 3 have "key_next sha dss zone rrset signers now i x = x" by (auto simp: key_next_def Let_def)
        with 3 False held show thesis by blast
      next
        case (Some k)
        with r 3 have "key_next sha dss zone rrset signers now i x = present_st (anchored sha dss k) now x"
          by (auto simp: key_next_def Let_def)
        moreover from Some have "k \<in> set rrset" "presents zone i k" by (auto simp: find_Some_iff)
        moreover have "x = None \<or> \<not> (\<exists>k \<in> set rrset. revokes zone signers i k)" using False by blast
        ultimately show thesis using 3(1) by (intro present)
      qed
    qed
  qed
qed

lemma justified_step:
  assumes j: "justified sha dss h i x"
  shows "justified sha dss (ob # h) i (key_next sha dss (ob_zone ob) (ob_rrset ob) (ob_signers ob) (ob_now ob) i x)"
proof (cases rule: key_next_cases [of "ob_zone ob" i sha dss "ob_rrset ob" "ob_signers ob" "ob_now ob" x])
  case elsewhere
  then show ?thesis using justified_Cons [OF j] by (auto simp: holds_def concerns_def)
next
  case gone
  have "justified sha dss (ob # h) i (absent_st (ob_now ob) x)"
    using j by (cases "(ob_now ob, x)" rule: absent_st.cases) (auto intro: earned_Cons)
  then show ?thesis using gone by simp
next
  case revoked
  then show ?thesis using justified_revoke [OF j] by (simp add: self_revoked_def)
next
  case (present k)
  then show ?thesis using justified_present [OF j, of k ob] by simp
next
  case held
  then show ?thesis using justified_Cons [OF j] by (auto simp: holds_def concerns_def)
qed

lemma key_justified: "justified sha dss h i (key_st sha dss h i)"
proof (induction h)
  case (Cons ob h)
  show ?case
  proof (cases "ds_zone dss i")
    case True
    show ?thesis unfolding key_st_step [OF True] by (rule justified_step [OF Cons.IH])
  next
    case False
    then have "key_st sha dss (ob # h) i = None" using tracked_ds_zone by blast
    then show ?thesis by (metis justified.simps(1))
  qed
qed (simp add: from_ds_def st_def)

text \<open>Once revoked, a key stays revoked for as long as the observations come within the remove hold-down.\<close>

lemma revoked_stays:
  assumes "key_st sha dss h i = Some (Revoked, s)" and "\<forall>ob \<in> set later. ob_now ob < s + REMOVE_HOLD_DOWN"
  shows "key_st sha dss (later @ h) i = Some (Revoked, s)"
  using assms(2)
proof (induction later)
  case (Cons ob later)
  then have IH: "key_st sha dss (later @ h) i = Some (Revoked, s)" and t: "\<not> ob_now ob - s \<ge> REMOVE_HOLD_DOWN"
    by (auto simp: REMOVE_HOLD_DOWN_def)
  have z: "ds_zone dss i" using tracked_ds_zone IH by blast
  have "key_next sha dss (ob_zone ob) (ob_rrset ob) (ob_signers ob) (ob_now ob) i (Some (Revoked, s)) = Some (Revoked, s)"
    using t by (cases rule: key_next_cases [of "ob_zone ob" i sha dss "ob_rrset ob" "ob_signers ob" "ob_now ob" "Some (Revoked, s)"]) auto
  then show ?case using key_st_step [OF z, of sha ob "later @ h"] IH by simp
qed (use assms(1) in simp)

lemma revoked_now:
  assumes "key_st sha dss h i = Some (q, s)" and "self_revoked i ob" and "q \<noteq> Revoked"
  shows "key_st sha dss (ob # h) i = Some (Revoked, ob_now ob)"
proof -
  have z: "ds_zone dss i" using tracked_ds_zone assms(1) by blast
  have r: "revoke_st (ob_now ob) (Some (q, s)) = Some (Revoked, ob_now ob)" using assms(3) by (cases q) auto
  obtain k where k: "k \<in> set (ob_rrset ob)" "revokes (ob_zone ob) (ob_signers ob) i k"
    using assms(2) by (auto simp: self_revoked_def)
  then have "i \<in> key_id ` set (ob_rrset ob)" "in_zone (ob_zone ob) i" by (auto simp: revokes_def)
  then have "key_next sha dss (ob_zone ob) (ob_rrset ob) (ob_signers ob) (ob_now ob) i (Some (q, s)) = Some (Revoked, ob_now ob)"
    using k r by (cases rule: key_next_cases [of "ob_zone ob" i sha dss "ob_rrset ob" "ob_signers ob" "ob_now ob" "Some (q, s)"]) auto
  then show ?thesis using key_st_step [OF z, of sha ob h] assms(1) by simp
qed

lemma trust_anchors_fold:
  "ds \<in> set (fold (\<lambda>t anchors. case f t of None \<Rightarrow> anchors
        | Some ds \<Rightarrow> if list_ex (ds_eq ds) anchors then anchors else anchors @ [ds]) ts anchors) \<Longrightarrow>
   ds \<in> set anchors \<or> (\<exists>t \<in> set ts. f t = Some ds)"
proof (induction ts arbitrary: anchors)
  case (Cons t ts)
  let ?anchors = "case f t of None \<Rightarrow> anchors | Some ds \<Rightarrow> if list_ex (ds_eq ds) anchors then anchors else anchors @ [ds]"
  have "ds \<in> set ?anchors \<or> (\<exists>t \<in> set ts. f t = Some ds)" using Cons by simp
  then show ?case by (auto split: option.splits if_splits)
qed simp

lemma trust_anchors_cases:
  assumes "ds \<in> set (trust_anchors sha a)"
  obtains (configured) "ds \<in> set (ma_ds a)"
      "\<forall>t \<in> set (ma_keys a). tk_state t = Revoked \<longrightarrow> matches_key sha ds (tk_key t) \<noteq> Some True"
  | (tracked) t where "t \<in> set (ma_keys a)" "is_anchor (tk_state t)" "anchor_ds sha (tk_key t) = Some ds"
proof -
  have "ds \<in> set (filter (\<lambda>ds. \<not> list_ex (\<lambda>r. unwrap_or_false (matches_key sha ds (tk_key r)))
        (filter (\<lambda>t. tk_state t = Revoked) (ma_keys a))) (ma_ds a)) \<or>
      (\<exists>t \<in> set (filter (\<lambda>t. is_anchor (tk_state t)) (ma_keys a)). anchor_ds sha (tk_key t) = Some ds)"
    by (rule trust_anchors_fold [where f = "\<lambda>t. anchor_ds sha (tk_key t)"]) (use assms in \<open>simp add: trust_anchors_def Let_def\<close>)
  moreover have "unwrap_or_false r \<longleftrightarrow> r = Some True" for r by (simp add: unwrap_or_false_def split: option.splits)
  ultimately show thesis using configured tracked by (auto simp: list_ex_iff)
qed

lemma look_inv: "keys_inv keys \<Longrightarrow> t \<in> set keys \<Longrightarrow> look keys (tid t) = Some t"
  by (induction keys) (auto simp: keys_inv_def rev_image_eqI)

lemma tracked_anchor_earned:
  assumes "t \<in> set (ma_keys (anchors_after sha dss h))" and "is_anchor (tk_state t)"
  shows "earned sha dss h (tid t)"
proof -
  have "key_st sha dss h (tid t) = Some (tk_state t, tk_since t)"
    using look_inv [OF anchors_after_inv assms(1)] by (simp add: st_def)
  then show ?thesis
    using key_justified [of sha dss h "tid t"] assms(2) by (auto simp: is_anchor_def)
qed

section \<open>Properties\<close>

text \<open>
  C29. One observation moves every key as RFC 5011 has it, and no other: a tracked key whose zone
  signs, with that key, an RRset holding it with the REVOKE bit is revoked; a candidate the RRset
  holds unrevoked enters its hold-down (or is valid at once under a configured DS), completes it,
  or comes back from being missing; an absent one is dropped from its hold-down, goes missing, or
  is forgotten once revoked for the remove hold-down. Keys of other zones are untouched, a zone
  with no anchor is not observed at all, no key is tracked twice, and the configured DS records
  never change.
\<close>

theorem observe_refines:
  assumes "keys_inv (ma_keys a)"
  shows "let a' = fst (observe sha zone rrset signers now a) in
    keys_inv (ma_keys a') \<and> ma_ds a' = ma_ds a \<and>
    (\<forall>i. st (ma_keys a') i =
      (if has_anchor_for zone a then key_next sha (ma_ds a) zone rrset signers now i (st (ma_keys a) i)
       else st (ma_keys a) i)) \<and>
    (\<forall>i. \<not> in_zone zone i \<longrightarrow> st (ma_keys a') i = st (ma_keys a) i)"
proof (cases "has_anchor_for zone a")
  case True
  then show ?thesis by (simp add: Let_def observe_st [OF assms True] key_next_elsewhere)
next
  case False
  then show ?thesis using assms by (simp add: Let_def observe_ignored)
qed

text \<open>
  C28. Every DS the validator is given was earned: it is a configured one that matches no key that
  revoked itself, or the digest of a tracked key that was seen under a configured DS or was shown
  at two observations at least thirty days apart with every observation of its zone between them
  holding it.
\<close>

theorem trust_anchors_earned:
  assumes "ds \<in> set (trust_anchors sha (anchors_after sha dss h))"
  shows "(ds \<in> set dss \<and>
      (\<forall>t \<in> set (ma_keys (anchors_after sha dss h)). tk_state t = Revoked \<longrightarrow> matches_key sha ds (tk_key t) \<noteq> Some True)) \<or>
    (\<exists>k. anchor_ds sha k = Some ds \<and> earned sha dss h (key_id k))"
  using assms
proof (cases rule: trust_anchors_cases)
  case configured
  then show ?thesis by simp
next
  case (tracked t)
  then show ?thesis using tracked_anchor_earned [of t sha dss h] by (auto simp: tid_def)
qed

text \<open>
  C30. A key is revoked only by itself, and that lasts: a key found revoked was, at the time
  recorded, in its zone's RRset with the REVOKE bit set and among the keys that signed it; and a
  tracked key that so revokes itself stays revoked through whatever is observed before the remove
  hold-down is over, its republication included.
\<close>

theorem revocation_lasts:
  assumes "key_st sha dss h i = Some (q, s)" and "q \<noteq> Revoked" and "self_revoked i ob"
    and "\<forall>x \<in> set later. ob_now x < ob_now ob + REMOVE_HOLD_DOWN"
  shows "key_st sha dss (later @ ob # h) i = Some (Revoked, ob_now ob) \<and>
    (\<forall>h' j t. key_st sha dss h' j = Some (Revoked, t) \<longrightarrow> (\<exists>x \<in> set h'. ob_now x = t \<and> self_revoked j x))"
proof -
  have "\<exists>x \<in> set h'. ob_now x = t \<and> self_revoked j x" if "key_st sha dss h' j = Some (Revoked, t)" for h' j t
    using key_justified [of sha dss h' j] by (simp add: that)
  then show ?thesis using revoked_stays [OF revoked_now [OF assms(1,3,2)] assms(4)] by blast
qed

text \<open>The digest of a key matches the key.\<close>

lemma anchor_ds_matches: "anchor_ds sha k = Some ds \<Longrightarrow> matches_key sha ds k = Some True"
  by (auto simp: anchor_ds_def matches_key_def ds_digest_def Let_def split: if_splits)

lemma trust_anchors_keep:
  assumes "ds \<in> set (ma_ds a)" and "\<forall>t \<in> set (ma_keys a). tk_state t = Revoked \<longrightarrow> matches_key sha ds (tk_key t) \<noteq> Some True"
  shows "ds \<in> set (trust_anchors sha a)"
proof -
  have keep: "ds \<in> set anchors \<Longrightarrow> ds \<in> set (fold (\<lambda>t anchors. case f t of None \<Rightarrow> anchors
        | Some d \<Rightarrow> if list_ex (ds_eq d) anchors then anchors else anchors @ [d]) ts anchors)" for f and ts :: "tracked_key list" and anchors
    by (induction ts arbitrary: anchors) (auto split: option.split)
  have "unwrap_or_false r \<longleftrightarrow> r = Some True" for r by (simp add: unwrap_or_false_def split: option.splits)
  then show ?thesis
    unfolding trust_anchors_def Let_def by (intro keep [where f = "\<lambda>t. anchor_ds sha (tk_key t)"]) (use assms in \<open>auto simp: list_ex_iff\<close>)
qed

lemma forgotten_after:
  assumes "key_st sha dss h i = Some (Revoked, s)" and "concerns i ob" and "\<not> holds i ob" and "s + REMOVE_HOLD_DOWN \<le> ob_now ob"
  shows "key_st sha dss (ob # h) i = None"
proof -
  have z: "ds_zone dss i" using tracked_ds_zone assms(1) by blast
  have out: "i \<notin> key_id ` set (ob_rrset ob)" "in_zone (ob_zone ob) i" using assms(2,3) by (auto simp: holds_def concerns_def)
  have "ob_now ob - s \<ge> REMOVE_HOLD_DOWN" using assms(4) by simp
  then have "key_next sha dss (ob_zone ob) (ob_rrset ob) (ob_signers ob) (ob_now ob) i (Some (Revoked, s)) = None"
    using out by (cases rule: key_next_cases [of "ob_zone ob" i sha dss "ob_rrset ob" "ob_signers ob" "ob_now ob" "Some (Revoked, s)"]) (auto simp: presents_def revokes_def)
  then show ?thesis using key_st_step [OF z, of sha ob h] assms(1) by simp
qed

lemma shown_anew:
  assumes "ds_zone dss i" and "key_st sha dss h i = None" and "k \<in> set (ob_rrset ob)" and "presents (ob_zone ob) i k"
    and "\<forall>j \<in> set (ob_rrset ob). key_id j = i \<longrightarrow> j = k" and "anchored sha dss k"
  shows "key_st sha dss (ob # h) i = Some (Valid, ob_now ob)"
proof -
  have "\<exists>j. find (presents (ob_zone ob) i) (ob_rrset ob) = Some j" using assms(3,4) by (metis find_None_iff not_Some_eq)
  then obtain j where j: "find (presents (ob_zone ob) i) (ob_rrset ob) = Some j" by blast
  then have "j \<in> set (ob_rrset ob)" "presents (ob_zone ob) i j" by (auto simp: find_Some_iff)
  then have "j = k" using assms(5) by (simp add: presents_def)
  moreover have "i \<in> key_id ` set (ob_rrset ob)" using assms(3,4) by (auto simp: presents_def)
  ultimately show ?thesis using key_st_step [OF assms(1), of sha ob h] assms(2,6) j by (simp add: key_next_def Let_def)
qed

text \<open>
  C37. A revocation is forgotten with the key. Take any history after which a key is revoked, a
  configured DS that matches it and no key of another identity, and a next observation of its zone
  that does not hold the key and comes the remove hold-down or more after the revocation. Before that
  observation the DS is withheld from the validator; after it the key is no longer tracked and the DS
  is a trust anchor again; and if a later RRset of the zone holds the key without the REVOKE bit, as
  it was tracked, it is valid at once.
\<close>

theorem forgotten_revocation_restores_ds:
  assumes "t \<in> set (ma_keys (anchors_after sha dss h))" and "tk_state t = Revoked"
    and "ds \<in> set dss" and "matches_key sha ds (tk_key t) = Some True"
    and "\<forall>k. matches_key sha ds k = Some True \<longrightarrow> same_key k (tk_key t)"
    and "name_eq (dk_owner (tk_key t)) (ob_zone ob)" and "\<forall>k \<in> set (ob_rrset ob). \<not> same_key k (tk_key t)"
    and "tk_since t + REMOVE_HOLD_DOWN \<le> ob_now ob"
  shows "ds \<notin> set (trust_anchors sha (anchors_after sha dss h)) \<and>
    (\<forall>u \<in> set (ma_keys (anchors_after sha dss (ob # h))). \<not> same_key (tk_key u) (tk_key t)) \<and>
    ds \<in> set (trust_anchors sha (anchors_after sha dss (ob # h))) \<and>
    (\<forall>later. tk_key t \<in> set (ob_rrset later) \<and> (\<forall>k \<in> set (ob_rrset later). same_key k (tk_key t) \<longrightarrow> k = tk_key t) \<and>
        presents (ob_zone later) (tid t) (tk_key t) \<and> name_eq (ds_owner ds) (dk_owner (tk_key t)) \<longrightarrow>
      key_st sha dss (later # ob # h) (tid t) = Some (Valid, ob_now later))"
proof -
  note same = same_key_id tid_def [symmetric]
  have st: "key_st sha dss h (tid t) = Some (Revoked, tk_since t)"
    using look_inv [OF anchors_after_inv assms(1)] assms(2) by (simp add: st_def)
  have gone: "key_st sha dss (ob # h) (tid t) = None"
    by (rule forgotten_after [OF st]) (use assms(6-8) in \<open>auto simp: concerns_def holds_def owner_in_zone same\<close>)
  then have none: "\<forall>u \<in> set (ma_keys (anchors_after sha dss (ob # h))). \<not> same_key (tk_key u) (tk_key t)"
    unfolding same using st_in by metis
  have "ds \<notin> set (trust_anchors sha (anchors_after sha dss h))"
  proof
    assume "ds \<in> set (trust_anchors sha (anchors_after sha dss h))"
    then show False
    proof (cases rule: trust_anchors_cases)
      case configured
      then show ?thesis using assms(1,2,4) by blast
    next
      case (tracked u)
      then have "tid u = tid t" using assms(5) anchor_ds_matches unfolding same by (metis tid_def)
      then have "u = t" using look_inv [OF anchors_after_inv] assms(1) tracked(1) by (metis option.inject)
      then show ?thesis using tracked(2) assms(2) by (simp add: is_anchor_def)
    qed
  qed
  moreover have "ds \<in> set (trust_anchors sha (anchors_after sha dss (ob # h)))"
    by (rule trust_anchors_keep) (use assms(3,5) none in \<open>auto simp del: anchors_after.simps(2)\<close>)
  moreover have "key_st sha dss (later # ob # h) (tid t) = Some (Valid, ob_now later)"
    if l: "tk_key t \<in> set (ob_rrset later)" "\<forall>k \<in> set (ob_rrset later). same_key k (tk_key t) \<longrightarrow> k = tk_key t"
      "presents (ob_zone later) (tid t) (tk_key t)" "name_eq (ds_owner ds) (dk_owner (tk_key t))" for later
  proof (rule shown_anew [OF _ gone l(1,3)])
    show "ds_zone dss (tid t)" by (rule tracked_ds_zone [of sha dss h]) (simp add: st)
    show "\<forall>j \<in> set (ob_rrset later). key_id j = tid t \<longrightarrow> j = tk_key t" using l(2) by (simp add: same)
    show "anchored sha dss (tk_key t)" using assms(3,4) l(4) by (auto simp: anchored_def)
  qed
  ultimately show ?thesis using none by blast
qed

section \<open>Witnesses\<close>

text \<open>
  A root key of algorithm 8 under a configured DS, and a successor of algorithm 13: both are seen,
  again thirty days later, and then the first revokes itself.
\<close>

definition old_key :: dnskey where
  "old_key = \<lparr>dk_owner = [0], dk_flags = 0x101, dk_protocol = 3, dk_algorithm = 8, dk_public_key = [1, 2]\<rparr>"

definition new_key :: dnskey where
  "new_key = \<lparr>dk_owner = [0], dk_flags = 0x101, dk_protocol = 3, dk_algorithm = 13, dk_public_key = [3, 4]\<rparr>"

definition root_ds :: "hashes \<Rightarrow> ds_record" where
  "root_ds sha = \<lparr>ds_owner = [0], ds_key_tag = key_tag old_key, ds_algorithm = 8, ds_digest_type = 2,
     ds_digest_octets = sha 2 (folded [0] @ dnskey_rdata old_key)\<rparr>"

definition both_seen :: "nat \<Rightarrow> observation" where
  "both_seen t = \<lparr>ob_zone = [0], ob_rrset = [old_key, new_key], ob_signers = [old_key], ob_now = t\<rparr>"

definition old_revoked :: "nat \<Rightarrow> observation" where
  "old_revoked t = \<lparr>ob_zone = [0], ob_rrset = [old_key\<lparr>dk_flags := 0x181\<rparr>, new_key], ob_signers = [old_key, new_key], ob_now = t\<rparr>"

definition new_only :: "nat \<Rightarrow> observation" where
  "new_only t = \<lparr>ob_zone = [0], ob_rrset = [new_key], ob_signers = [new_key], ob_now = t\<rparr>"

lemmas scenario = old_key_def new_key_def root_ds_def both_seen_def old_revoked_def new_only_def

lemma key_id_scenario: "key_id old_key \<noteq> key_id new_key" "key_id (old_key\<lparr>dk_flags := f\<rparr>) = key_id old_key"
  by (simp_all add: key_id_def scenario)

lemma root_ds_matches: "matches_key sha (root_ds sha) old_key = Some True"
  by (simp add: matches_key_def ds_digest_def Let_def scenario)

abbreviation revoked_copy :: dnskey where
  "revoked_copy \<equiv> old_key\<lparr>dk_flags := 0x181\<rparr>"

lemma scenario_same [simp]:
  "same_key old_key old_key" "same_key new_key new_key" "same_key revoked_copy old_key" "same_key old_key revoked_copy"
  "\<not> same_key old_key new_key" "\<not> same_key new_key old_key" "\<not> same_key revoked_copy new_key" "\<not> same_key new_key revoked_copy"
  by (simp_all add: same_key_def scenario name_eq_def eq_ignore_case_lower)

lemma scenario_flags [simp]:
  "name_eq (dk_owner old_key) [0]" "name_eq (dk_owner new_key) [0]" "name_eq (ds_owner (root_ds sha)) (dk_owner old_key)"
  "name_eq (ds_owner (root_ds sha)) [0]"
  "dk_flags old_key AND DNSKEY_FLAG_REVOKE = 0" "dk_flags new_key AND DNSKEY_FLAG_REVOKE = 0"
  "(0x181 :: u16) AND DNSKEY_FLAG_REVOKE \<noteq> 0"
  "is_candidate_anchor old_key" "is_candidate_anchor new_key"
  by (simp_all add: scenario name_eq_def eq_ignore_case_lower is_candidate_anchor_def is_zone_key_def is_sep_def
      DNSKEY_FLAG_REVOKE_def DNSKEY_FLAG_ZONE_def DNSKEY_FLAG_SEP_def DNSKEY_PROTOCOL_DNSSEC_def)

lemma scenario_ds [simp]:
  "matches_key sha (root_ds sha) old_key = Some True" "matches_key sha (root_ds sha) new_key = Some False"
  by (rule root_ds_matches) (simp add: matches_key_def scenario)

lemma has_anchor_root [simp]: "ma_ds a = [root_ds sha] \<Longrightarrow> has_anchor_for [0] a"
  by (simp add: has_anchor_for_def)

lemmas scenario_step = observe_def Let_def revoke_one_def present_one_def absent_one_def unwrap_or_false_def
  hold_down_elapsed_def ADD_HOLD_DOWN_def REMOVE_HOLD_DOWN_def both_seen_def old_revoked_def new_only_def from_ds_def

text \<open>With digests that are the octets themselves, the algorithm of the DS tells where the owner ends.\<close>

lemma root_ds_only:
  assumes "matches_key (\<lambda>_ bs. bs) (root_ds (\<lambda>_ bs. bs)) k = Some True"
  shows "same_key k old_key"
proof -
  have root: "folded [0] = [0]" by (simp add: folded_def is_upper_def word_le_nat_alt)
  have alg: "dk_algorithm k = 8" and oct: "folded (dk_owner k) @ be16 (dk_flags k) @ [dk_protocol k, 8] @ dk_public_key k = [0, 1, 1, 3, 8, 1, 2]"
    using assms by (auto simp: matches_key_def ds_digest_def dnskey_rdata_def root_ds_def old_key_def Let_def be16_def root split: if_splits)
  obtain f g where be: "be16 (dk_flags k) = [f, g]" by (simp add: be16_def)
  have "folded (dk_owner k) = [0] \<and> dk_protocol k = 3 \<and> dk_public_key k = [1, 2]"
    using oct unfolding be by (auto simp: append_eq_Cons_conv)
  then show ?thesis using alg by (simp add: same_key_def old_key_def name_eq_def eq_ignore_case_lower folded_lower [symmetric] root)
qed

lemma scenario1: "anchors_after sha [root_ds sha] [both_seen 0] =
    \<lparr>ma_ds = [root_ds sha], ma_keys = [\<lparr>tk_key = old_key, tk_state = Valid, tk_since = 0\<rparr>,
      \<lparr>tk_key = new_key, tk_state = AddPend, tk_since = 0\<rparr>]\<rparr>"
  by (simp add: scenario_step)

lemma scenario2: "anchors_after sha [root_ds sha] [both_seen 2592000, both_seen 0] =
    \<lparr>ma_ds = [root_ds sha], ma_keys = [\<lparr>tk_key = old_key, tk_state = Valid, tk_since = 0\<rparr>,
      \<lparr>tk_key = new_key, tk_state = Valid, tk_since = 2592000\<rparr>]\<rparr>"
  unfolding anchors_after.simps(2) [of _ _ "both_seen 2592000"] scenario1 by (simp add: scenario_step)

lemma scenario3: "anchors_after sha [root_ds sha] [old_revoked 3000000, both_seen 2592000, both_seen 0] =
    \<lparr>ma_ds = [root_ds sha], ma_keys = [\<lparr>tk_key = old_key, tk_state = Revoked, tk_since = 3000000\<rparr>,
      \<lparr>tk_key = new_key, tk_state = Valid, tk_since = 2592000\<rparr>]\<rparr>"
  unfolding anchors_after.simps(2) [of _ _ "old_revoked _"] scenario2 by (simp add: scenario_step)

theorem observe_refines_witness:
  "let a = anchors_after (\<lambda>_ _. []) [root_ds (\<lambda>_ _. [])] [both_seen 0];
       a' = fst (observe (\<lambda>_ _. []) [0] [old_key, new_key] [old_key] 2592000 a) in
   keys_inv (ma_keys a) \<and> keys_inv (ma_keys a') \<and>
   st (ma_keys a') (key_id new_key) = key_next (\<lambda>_ _. []) (ma_ds a) [0] [old_key, new_key] [old_key] 2592000 (key_id new_key)
     (st (ma_keys a) (key_id new_key))"
proof -
  let ?sha = "\<lambda>_ _. []" and ?a = "anchors_after (\<lambda>_ _. []) [root_ds (\<lambda>_ _. [])] [both_seen 0]"
  have "keys_inv (ma_keys ?a)" by (rule anchors_after_inv)
  moreover have "has_anchor_for [0] ?a" by (rule has_anchor_root [of _ ?sha]) (simp add: from_ds_def)
  ultimately show ?thesis
    using observe_refines [of ?a ?sha "[0]" "[old_key, new_key]" "[old_key]" 2592000]
    by (simp add: Let_def del: anchors_after.simps split_paired_All)
qed

theorem trust_anchors_earned_witness:
  "\<exists>k. anchor_ds (\<lambda>_ _. []) k = anchor_ds (\<lambda>_ _. []) new_key \<and>
    earned (\<lambda>_ _. []) [root_ds (\<lambda>_ _. [])] [both_seen 2592000, both_seen 0] (key_id k)"
proof -
  let ?sha = "\<lambda>_ _. []" and ?h = "[both_seen 2592000, both_seen 0]"
  let ?ds = "the (anchor_ds ?sha new_key)"
  have d: "anchor_ds ?sha new_key = Some ?ds" by (simp add: anchor_ds_def ds_digest_def DS_DIGEST_SHA256_def Let_def)
  have "?ds \<in> set (trust_anchors ?sha (anchors_after ?sha [root_ds ?sha] ?h))"
    unfolding scenario2
    by (simp add: trust_anchors_def Let_def is_anchor_def anchor_ds_def ds_digest_def DS_DIGEST_SHA256_def ds_eq_def scenario)
  moreover have "?ds \<notin> set [root_ds ?sha]"
    by (auto simp: anchor_ds_def ds_digest_def DS_DIGEST_SHA256_def scenario Let_def dest!: arg_cong [of _ _ ds_algorithm])
  ultimately show ?thesis using trust_anchors_earned [of ?ds ?sha "[root_ds ?sha]" ?h] d by auto
qed

theorem revocation_lasts_witness:
  "key_st (\<lambda>_ _. []) [root_ds (\<lambda>_ _. [])] [both_seen 5000000, old_revoked 3000000, both_seen 2592000, both_seen 0]
     (key_id old_key) = Some (Revoked, 3000000)"
proof -
  let ?sha = "\<lambda>_ _. []" and ?h = "[both_seen 2592000, both_seen 0]"
  have "key_st ?sha [root_ds ?sha] ?h (key_id old_key) = Some (Valid, 0)"
    unfolding scenario2 by (simp add: st_def tid_def)
  moreover have "self_revoked (key_id old_key) (old_revoked 3000000)"
    by (simp add: self_revoked_def revokes_def old_revoked_def in_zone_def key_id_def scenario DNSKEY_FLAG_REVOKE_def)
  moreover have "\<forall>x \<in> set [both_seen 5000000]. ob_now x < ob_now (old_revoked 3000000) + REMOVE_HOLD_DOWN"
    by (simp add: both_seen_def old_revoked_def REMOVE_HOLD_DOWN_def)
  ultimately have "key_st ?sha [root_ds ?sha] ([both_seen 5000000] @ old_revoked 3000000 # ?h) (key_id old_key) =
      Some (Revoked, ob_now (old_revoked 3000000))"
    using revocation_lasts [of ?sha "[root_ds ?sha]" ?h "key_id old_key" Valid 0 "old_revoked 3000000" "[both_seen 5000000]"]
    by (simp del: anchors_after.simps)
  then show ?thesis by (simp only: append_Cons append_Nil old_revoked_def observation.simps)
qed

theorem forgotten_revocation_restores_ds_witness:
  "root_ds (\<lambda>_ bs. bs) \<in> set (trust_anchors (\<lambda>_ bs. bs) (anchors_after (\<lambda>_ bs. bs) [root_ds (\<lambda>_ bs. bs)]
     [new_only 5592000, old_revoked 3000000, both_seen 2592000, both_seen 0]))"
proof -
  let ?sha = "\<lambda>(_ :: byte) (bs :: bytes). bs"
  let ?t = "\<lparr>tk_key = old_key, tk_state = Revoked, tk_since = 3000000\<rparr>"
  have t: "?t \<in> set (ma_keys (anchors_after ?sha [root_ds ?sha] [old_revoked 3000000, both_seen 2592000, both_seen 0]))"
    unfolding scenario3 by simp
  have only: "same_key k old_key" if "matches_key ?sha (root_ds ?sha) k = Some True" for k
    using that by (rule root_ds_only)
  show ?thesis
    using forgotten_revocation_restores_ds [OF t, of "root_ds ?sha" "new_only 5592000"] only
    by (simp add: new_only_def REMOVE_HOLD_DOWN_def del: anchors_after.simps(2))
qed

end
