(* ===== verification/NameIndex.thy ===== *)
theory NameIndex
  imports Names
begin

text \<open>
  The name index of a zone (\<^verbatim>\<open>rdns/src/zone.rs\<close>, \<^verbatim>\<open>NameIndex\<close>): every owner name's octets in one
  arena, and a hash table whose entries point into it. A \<^verbatim>\<open>hashbrown::HashTable\<close> takes the hash and
  the equality from its caller; here it is the list of its entries with their hashes, and a probe
  finds an entry with the hash that satisfies the equality, as its documentation has it. The counts
  and lengths the code holds as \<^verbatim>\<open>u32\<close> are numbers here: a name has at most 255 octets, and no zone
  in memory has \<open>2 ^ 32\<close> names below one name. \<open>imap\<close> is the map from names the index stands for.
\<close>

section \<open>The code\<close>

datatype slot = Ent | One nat | Spilled nat

record interned =
  in_off :: nat
  in_len :: nat
  in_children :: nat
  in_slot :: slot

record name_index =
  ni_names :: bytes
  ni_table :: "(u64 \<times> interned) list"

definition name_index_default :: name_index where
  "name_index_default = \<lparr>ni_names = [], ni_table = []\<rparr>"

definition from_le_bytes :: "bytes \<Rightarrow> u64" where
  "from_le_bytes bs = foldr (\<lambda>b acc. push_bit 8 acc OR ucast b) bs 0"

text \<open>The chunks of eight octets, and what is left.\<close>

function hash_chunks :: "bytes \<Rightarrow> u64 \<Rightarrow> u64 \<times> bytes" where
  "hash_chunks key h =
     (if length key < 8 then (h, key)
      else hash_chunks (drop 8 key) ((word_rotl 5 h XOR from_le_bytes (take 8 key)) * 0x517cc1b727220a95))"
  by pat_completeness auto
termination
  by (relation "measure (\<lambda>(key, _). length key)") auto

declare hash_chunks.simps [simp del]

definition name_hash :: "bytes \<Rightarrow> u64" where
  "name_hash key =
     (let (h, rem) = hash_chunks key 0; tail = from_le_bytes rem in
      (word_rotl 5 h XOR tail) * 0x517cc1b727220a95)"

definition interned_octets :: "bytes \<Rightarrow> interned \<Rightarrow> bytes" where
  "interned_octets names at = seg names (in_off at) (in_off at + in_len at)"

text \<open>A probe of the table; a change of the entry found; and the removal of it.\<close>

abbreviation hit :: "bytes \<Rightarrow> bytes \<Rightarrow> u64 \<times> interned \<Rightarrow> bool" where
  "hit names key \<equiv> (\<lambda>(h, at). h = name_hash key \<and> interned_octets names at = key)"

definition index_find :: "bytes \<Rightarrow> name_index \<Rightarrow> interned option" where
  "index_find key ix = map_option snd (find (hit (ni_names ix) key) (ni_table ix))"

definition index_get :: "bytes \<Rightarrow> name_index \<Rightarrow> slot option" where
  "index_get key ix = map_option in_slot (index_find key ix)"

definition contains_key :: "bytes \<Rightarrow> name_index \<Rightarrow> bool" where
  "contains_key key ix \<longleftrightarrow> index_find key ix \<noteq> None"

definition index_clear :: "name_index \<Rightarrow> name_index" where
  "index_clear ix = \<lparr>ni_names = [], ni_table = []\<rparr>"

fun map_first :: "('a \<Rightarrow> bool) \<Rightarrow> ('a \<Rightarrow> 'a) \<Rightarrow> 'a list \<Rightarrow> 'a list" where
  "map_first P f [] = []"
| "map_first P f (x # xs) = (if P x then f x # xs else x # map_first P f xs)"

fun remove_first :: "('a \<Rightarrow> bool) \<Rightarrow> 'a list \<Rightarrow> 'a list" where
  "remove_first P [] = []"
| "remove_first P (x # xs) = (if P x then xs else x # remove_first P xs)"

text \<open>
  \<^verbatim>\<open>node_mut\<close> gives a reference into the table: the entry as it is, whether it was inserted by the
  call, and the index; what a caller writes through the reference is \<open>set_slot\<close> or \<open>add_child\<close>.
\<close>

definition node_mut :: "bytes \<Rightarrow> (nat \<times> nat) option \<Rightarrow> name_index \<Rightarrow> interned \<times> bool \<times> name_index" where
  "node_mut key place ix =
     (case index_find key ix of
        Some at \<Rightarrow> (at, False, ix)
      | None \<Rightarrow>
          let (off, len, names) =
                (case place of Some (off, len) \<Rightarrow> (off, len, ni_names ix)
                 | None \<Rightarrow> (length (ni_names ix), length key, ni_names ix @ key));
              at = \<lparr>in_off = off, in_len = len, in_children = 0, in_slot = Ent\<rparr> in
          (at, True, \<lparr>ni_names = names, ni_table = (name_hash key, at) # ni_table ix\<rparr>))"

definition index_remove :: "bytes \<Rightarrow> name_index \<Rightarrow> name_index" where
  "index_remove key ix = ix\<lparr>ni_table := remove_first (hit (ni_names ix) key) (ni_table ix)\<rparr>"

text \<open>Writing the slot of a name the index holds; \<^verbatim>\<open>slot_of_mut\<close> gives none for another.\<close>

definition set_slot :: "bytes \<Rightarrow> slot \<Rightarrow> name_index \<Rightarrow> name_index" where
  "set_slot key s ix =
     ix\<lparr>ni_table := map_first (hit (ni_names ix) key) (\<lambda>(h, at). (h, at\<lparr>in_slot := s\<rparr>)) (ni_table ix)\<rparr>"

definition add_child :: "bytes \<Rightarrow> name_index \<Rightarrow> name_index" where
  "add_child key ix =
     ix\<lparr>ni_table := map_first (hit (ni_names ix) key)
       (\<lambda>(h, at). (h, at\<lparr>in_children := in_children at + 1\<rparr>)) (ni_table ix)\<rparr>"

definition credit :: "bytes \<Rightarrow> int \<Rightarrow> name_index \<Rightarrow> name_index" where
  "credit key delta ix =
     ix\<lparr>ni_table := map_first (hit (ni_names ix) key)
       (\<lambda>(h, at). (h, at\<lparr>in_children := nat (int (in_children at) + delta)\<rparr>)) (ni_table ix)\<rparr>"

definition intern :: "bytes \<Rightarrow> name_index \<Rightarrow> (nat \<times> nat) \<times> name_index" where
  "intern key ix =
     (case index_find key ix of
        Some at \<Rightarrow> ((in_off at, in_len at), ix)
      | None \<Rightarrow> ((length (ni_names ix), length key), ix\<lparr>ni_names := ni_names ix @ key\<rparr>))"

section \<open>The map it stands for\<close>

definition entry_ok :: "bytes \<Rightarrow> u64 \<times> interned \<Rightarrow> bool" where
  "entry_ok names = (\<lambda>(h, at). in_off at + in_len at \<le> length names \<and> h = name_hash (interned_octets names at))"

definition nindex_ok :: "name_index \<Rightarrow> bool" where
  "nindex_ok ix \<longleftrightarrow> (\<forall>x \<in> set (ni_table ix). entry_ok (ni_names ix) x) \<and>
     distinct (map (\<lambda>(_, at). interned_octets (ni_names ix) at) (ni_table ix))"

definition imap :: "name_index \<Rightarrow> bytes \<Rightarrow> (nat \<times> slot) option" where
  "imap ix key = map_option (\<lambda>at. (in_children at, in_slot at)) (index_find key ix)"

text \<open>The octets a range of the arena names.\<close>

definition names_range :: "name_index \<Rightarrow> nat \<times> nat \<Rightarrow> bytes \<Rightarrow> bool" where
  "names_range ix r key \<longleftrightarrow> fst r + snd r \<le> length (ni_names ix) \<and> seg (ni_names ix) (fst r) (fst r + snd r) = key"

lemma nindex_ok_default [simp]: "nindex_ok name_index_default" "nindex_ok (index_clear ix)"
  "imap name_index_default key = None" "imap (index_clear ix) key = None"
  by (simp_all add: nindex_ok_def name_index_default_def index_clear_def imap_def index_find_def)

lemma index_get_imap: "index_get key ix = map_option snd (imap ix key)"
  by (simp add: index_get_def imap_def option.map_comp comp_def)

lemma contains_key_imap: "contains_key key ix \<longleftrightarrow> imap ix key \<noteq> None"
  by (simp add: contains_key_def imap_def)

lemma find_SomeD: "find P xs = Some x \<Longrightarrow> x \<in> set xs \<and> P x"
  by (auto simp: find_Some_iff)

lemma find_map_first:
  assumes "\<And>x. P x \<Longrightarrow> P (f x)"
  shows "find P (map_first P f xs) = map_option f (find P xs)"
  by (induction xs) (auto simp: assms)

lemma find_map_first_other:
  assumes "\<And>x. x \<in> set xs \<Longrightarrow> P x \<Longrightarrow> \<not> Q x" "\<And>x. x \<in> set xs \<Longrightarrow> P x \<Longrightarrow> \<not> Q (f x)"
  shows "find Q (map_first P f xs) = find Q xs"
  using assms by (induction xs) auto

lemma map_first_map: "(\<And>x. g (f x) = g x) \<Longrightarrow> map g (map_first P f xs) = map g xs"
  by (induction xs) auto

lemma set_map_first: "set (map_first P f xs) \<subseteq> set xs \<union> f ` set xs"
  by (induction xs) auto

lemma find_remove_first_other:
  "(\<And>x. x \<in> set xs \<Longrightarrow> P x \<Longrightarrow> \<not> Q x) \<Longrightarrow> find Q (remove_first P xs) = find Q xs"
  by (induction xs) auto

lemma remove_first_set: "set (remove_first P xs) \<subseteq> set xs"
  by (induction xs) auto

lemma remove_first_distinct: "distinct (map g xs) \<Longrightarrow> distinct (map g (remove_first P xs))"
  by (induction xs) (use remove_first_set in fastforce)+

text \<open>A change of the entry at a name that keeps where its octets are changes the map there and nowhere else.\<close>

lemma update_entry:
  fixes key :: bytes
  assumes "nindex_ok ix"
    and f: "\<And>h at. \<exists>at'. f (h, at) = (h, at') \<and> in_off at' = in_off at \<and> in_len at' = in_len at \<and>
      (in_children at', in_slot at') = g (in_children at, in_slot at)"
  defines "ix' \<equiv> ix\<lparr>ni_table := map_first (hit (ni_names ix) key) f (ni_table ix)\<rparr>"
  shows "nindex_ok ix'" and "imap ix' = (imap ix)(key := map_option g (imap ix key))"
    and "names_range ix' = names_range ix"
proof -
  let ?n = "ni_names ix"
  have oct: "(case f x of (_, at) \<Rightarrow> interned_octets ?n at) = (case x of (_, at) \<Rightarrow> interned_octets ?n at)" for x
    using f [of "fst x" "snd x"] by (auto simp: interned_octets_def split: prod.splits)
  have ok: "entry_ok ?n (f x) \<longleftrightarrow> entry_ok ?n x" for x
    using f [of "fst x" "snd x"] by (auto simp: entry_ok_def interned_octets_def split: prod.splits)
  show "nindex_ok ix'"
    using assms(1) set_map_first [of "hit ?n key" f "ni_table ix"] ok
    unfolding nindex_ok_def ix'_def by (auto simp: map_first_map [of "\<lambda>(_, at). interned_octets ?n at" f, OF oct])
  have hitf: "hit ?n k (f x) \<longleftrightarrow> hit ?n k x" for k x
    using f [of "fst x" "snd x"] by (auto simp: interned_octets_def split: prod.splits)
  have "imap ix' k = (if k = key then map_option g (imap ix key) else imap ix k)" for k
  proof (cases "k = key")
    case True
    have "find (hit ?n key) (map_first (hit ?n key) f (ni_table ix)) = map_option f (find (hit ?n key) (ni_table ix))"
      by (rule find_map_first) (simp only: hitf)
    moreover have "(in_children (snd (f x)), in_slot (snd (f x))) = g (in_children (snd x), in_slot (snd x))" for x
      using f [of "fst x" "snd x"] by auto
    ultimately show ?thesis
      using True by (simp add: imap_def index_find_def ix'_def option.map_comp comp_def)
  next
    case False
    have "find (hit ?n k) (map_first (hit ?n key) f (ni_table ix)) = find (hit ?n k) (ni_table ix)"
    proof (rule find_map_first_other)
      fix x assume "hit ?n key x"
      then show n: "\<not> hit ?n k x" using False by auto
      show "\<not> hit ?n k (f x)" using n unfolding hitf .
    qed
    then show ?thesis using False by (simp add: imap_def index_find_def ix'_def)
  qed
  then show "imap ix' = (imap ix)(key := map_option g (imap ix key))" by auto
  show "names_range ix' = names_range ix" by (intro ext) (simp add: names_range_def ix'_def)
qed

lemma set_slot_ok:
  assumes "nindex_ok ix"
  shows "nindex_ok (set_slot key s ix)"
    and "imap (set_slot key s ix) = (imap ix)(key := map_option (\<lambda>(c, _). (c, s)) (imap ix key))"
  unfolding set_slot_def
  by (rule update_entry(1,2) [OF assms, where g = "\<lambda>(c, _). (c, s)"]; simp)+

lemma credit_ok:
  assumes "nindex_ok ix"
  shows "nindex_ok (credit key d ix)"
    and "imap (credit key d ix) = (imap ix)(key := map_option (\<lambda>(c, s). (nat (int c + d), s)) (imap ix key))"
  unfolding credit_def
  by (rule update_entry(1,2) [OF assms, where g = "\<lambda>(c, s). (nat (int c + d), s)"]; simp)+

lemma add_child_ok:
  assumes "nindex_ok ix"
  shows "nindex_ok (add_child key ix)"
    and "imap (add_child key ix) = (imap ix)(key := map_option (\<lambda>(c, s). (c + 1, s)) (imap ix key))"
    and "names_range (add_child key ix) = names_range ix"
  unfolding add_child_def
  by (rule update_entry [OF assms, where g = "\<lambda>(c, s). (c + 1, s)"]; simp)+

lemma index_remove_ok:
  assumes "nindex_ok ix"
  shows "nindex_ok (index_remove key ix)" and "imap (index_remove key ix) = (imap ix)(key := None)"
proof -
  let ?n = "ni_names ix"
  show "nindex_ok (index_remove key ix)"
    using assms remove_first_set [of "hit ?n key" "ni_table ix"]
    unfolding nindex_ok_def index_remove_def by (auto intro: remove_first_distinct)
  have none: "find (hit ?n key) (remove_first (hit ?n key) xs) = None"
    if "distinct (map (\<lambda>(_, at). interned_octets ?n at) xs)" for xs
    using that by (induction xs) (auto simp: find_None_iff image_iff)
  have "imap (index_remove key ix) k = (if k = key then None else imap ix k)" for k
  proof (cases "k = key")
    case True
    then show ?thesis using none assms by (simp add: imap_def index_find_def index_remove_def nindex_ok_def)
  next
    case False
    have "find (hit ?n k) (remove_first (hit ?n key) (ni_table ix)) = find (hit ?n k) (ni_table ix)"
      by (rule find_remove_first_other) (use False in auto)
    then show ?thesis using False by (simp add: imap_def index_find_def index_remove_def)
  qed
  then show "imap (index_remove key ix) = (imap ix)(key := None)" by auto
qed

lemma interned_octets_append: "in_off at + in_len at \<le> length names \<Longrightarrow> interned_octets (names @ added) at = interned_octets names at"
  by (simp add: interned_octets_def seg_append_left)

lemma names_extend:
  fixes added :: bytes
  assumes "nindex_ok ix"
  defines "ix' \<equiv> ix\<lparr>ni_names := ni_names ix @ added\<rparr>"
  shows "nindex_ok ix'" and "imap ix' = imap ix" and "names_range ix r k \<Longrightarrow> names_range ix' r k"
proof -
  have oct: "interned_octets (ni_names ix @ added) (snd x) = interned_octets (ni_names ix) (snd x)" if "x \<in> set (ni_table ix)" for x
    using assms(1) that by (intro interned_octets_append) (auto simp: nindex_ok_def entry_ok_def)
  have ok: "entry_ok (ni_names ix @ added) x" if "x \<in> set (ni_table ix)" for x
    using assms(1) that oct [OF that] by (auto simp: nindex_ok_def entry_ok_def)
  have same: "map (\<lambda>(_, at). interned_octets (ni_names ix @ added) at) (ni_table ix) = map (\<lambda>(_, at). interned_octets (ni_names ix) at) (ni_table ix)"
    by (rule map_cong [OF refl]) (use oct in auto)
  have n: "ni_names ix' = ni_names ix @ added" and tb: "ni_table ix' = ni_table ix" by (simp_all add: ix'_def)
  show "nindex_ok ix'"
    using assms(1) ok unfolding nindex_ok_def n tb same by blast
  have "find (hit (ni_names ix @ added) k) (ni_table ix) = find (hit (ni_names ix) k) (ni_table ix)" for k
    by (rule find_cong [OF refl]) (use oct in auto)
  then show "imap ix' = imap ix" by (intro ext) (simp add: imap_def index_find_def ix'_def)
  show "names_range ix r k \<Longrightarrow> names_range ix' r k"
    by (auto simp: names_range_def ix'_def seg_append_left)
qed

lemma intern_ok:
  assumes "nindex_ok ix" and "intern key ix = (r, ix')"
  shows "nindex_ok ix'" and "imap ix' = imap ix" and "names_range ix' r key"
proof -
  have "nindex_ok ix' \<and> imap ix' = imap ix \<and> names_range ix' r key"
  proof (cases "index_find key ix")
    case None
    then have *: "ix' = ix\<lparr>ni_names := ni_names ix @ key\<rparr>" "r = (length (ni_names ix), length key)"
      using assms(2) by (auto simp: intern_def)
    have "seg (ni_names ix @ key) (length (ni_names ix)) (length (ni_names ix) + length key) = key"
      using seg_append_exact [of "ni_names ix" key "[]"] by simp
    then show ?thesis
      unfolding * using names_extend(1,2) [OF assms(1), where added = key] by (simp add: names_range_def)
  next
    case (Some at)
    then obtain h where "(h, at) \<in> set (ni_table ix)" "interned_octets (ni_names ix) at = key"
      by (auto simp: index_find_def dest!: find_SomeD)
    then show ?thesis
      using assms Some by (auto simp: intern_def names_range_def nindex_ok_def entry_ok_def interned_octets_def)
  qed
  then show "nindex_ok ix'" "imap ix' = imap ix" "names_range ix' r key" by auto
qed

lemma index_find_None:
  assumes "nindex_ok ix"
  shows "index_find key ix = None \<longleftrightarrow> (\<forall>x \<in> set (ni_table ix). interned_octets (ni_names ix) (snd x) \<noteq> key)"
proof -
  have "hit (ni_names ix) key x \<longleftrightarrow> interned_octets (ni_names ix) (snd x) = key" if "x \<in> set (ni_table ix)" for x
    using assms that by (auto simp: nindex_ok_def entry_ok_def case_prod_beta)
  then have "find (hit (ni_names ix) key) (ni_table ix) = find (\<lambda>x. interned_octets (ni_names ix) (snd x) = key) (ni_table ix)"
    by (rule find_cong [OF refl])
  then show ?thesis unfolding index_find_def by (simp only: option.map_disc_iff find_None_iff) blast
qed

lemma finite_dom_imap: assumes "nindex_ok ix" shows "finite (dom (imap ix))"
proof -
  have "dom (imap ix) \<subseteq> (\<lambda>x. interned_octets (ni_names ix) (snd x)) ` set (ni_table ix)"
  proof
    fix k assume "k \<in> dom (imap ix)"
    then have "index_find k ix \<noteq> None" by (auto simp: imap_def)
    then show "k \<in> (\<lambda>x. interned_octets (ni_names ix) (snd x)) ` set (ni_table ix)"
      unfolding index_find_None [OF assms] by blast
  qed
  then show ?thesis by (rule finite_subset) simp
qed

text \<open>With the place of the name's octets given, \<^verbatim>\<open>node_mut\<close> inserts the name if it is new and changes nothing else.\<close>

lemma node_mut_ok:
  assumes "nindex_ok ix" and "names_range ix r key" and "node_mut key (Some r) ix = (at, fresh, ix')"
  shows "nindex_ok ix'" and "fresh \<longleftrightarrow> imap ix key = None"
    and "imap ix' = (if fresh then (imap ix)(key \<mapsto> (0, Ent)) else imap ix)"
    and "imap ix' key = Some (in_children at, in_slot at)" and "names_range ix' = names_range ix"
proof -
  have "nindex_ok ix' \<and> (fresh \<longleftrightarrow> imap ix key = None) \<and>
    imap ix' = (if fresh then (imap ix)(key \<mapsto> (0, Ent)) else imap ix) \<and>
    imap ix' key = Some (in_children at, in_slot at) \<and> names_range ix' = names_range ix"
  proof (cases "index_find key ix")
    case (Some at)
    then show ?thesis using assms by (auto simp: node_mut_def imap_def)
  next
    case None
    obtain off len where r: "r = (off, len)" by fastforce
    let ?at = "\<lparr>in_off = off, in_len = len, in_children = 0, in_slot = Ent\<rparr>"
    have o: "interned_octets (ni_names ix) ?at = key" using assms(2) by (simp add: interned_octets_def names_range_def r)
    have ix': "ix' = ix\<lparr>ni_table := (name_hash key, ?at) # ni_table ix\<rparr>" and f: "fresh" and a: "at = ?at"
      using assms(3) None by (auto simp: node_mut_def r Let_def)
    have "nindex_ok ix'"
      using assms(1,2) None index_find_None [OF assms(1), of key]
      by (auto simp: ix' nindex_ok_def entry_ok_def o names_range_def r image_iff case_prod_beta)
    moreover have "imap ix' k = (if k = key then Some (0, Ent) else imap ix k)" for k
      using o by (auto simp: imap_def index_find_def ix')
    ultimately show ?thesis
      using None f by (auto simp: imap_def a ix' names_range_def fun_eq_iff)
  qed
  then show "nindex_ok ix'" and "fresh \<longleftrightarrow> imap ix key = None"
    and "imap ix' = (if fresh then (imap ix)(key \<mapsto> (0, Ent)) else imap ix)"
    and "imap ix' key = Some (in_children at, in_slot at)" and "names_range ix' = names_range ix" by auto
qed

end
