(* ===== verification/ZoneIndex.thy ===== *)
theory ZoneIndex
  imports NameIndex
begin

text \<open>
  How a zone (\<^verbatim>\<open>rdns/src/zone.rs\<close>) files its records in the name index: the position lists, the empty
  non-terminals above an owner name with their counts of children, and what a removal undoes. Two
  invariants: \<open>slots_ok\<close>, that the slots of the index are exactly the positions of the records at
  each name, and \<open>nodes_ok\<close>, that the names of the index are closed under the parent within the
  zone, count their children, and are each there for a reason.
\<close>

section \<open>The code\<close>

text \<open>\<^verbatim>\<open>parent_key\<close>, on octets.\<close>

fun parent_key :: "bytes \<Rightarrow> bytes option" where
  "parent_key [] = None"
| "parent_key (l # tail) =
     (let len = unat l in if len = 0 \<or> length tail < len then None else Some (drop len tail))"

definition parent_in_zone :: "bytes \<Rightarrow> bytes \<Rightarrow> bytes option" where
  "parent_in_zone name origin =
     (if name = origin then None
      else case parent_key name of
          None \<Rightarrow> None
        | Some p \<Rightarrow> if length p \<ge> length origin then Some p else None)"

text \<open>The positions a slot names; \<open>zone_ok\<close> below keeps the list within the range of the spills.\<close>

definition slot_positions :: "nat list list \<Rightarrow> slot \<Rightarrow> nat list" where
  "slot_positions spills s = (case s of Ent \<Rightarrow> [] | One p \<Rightarrow> [p] | Spilled l \<Rightarrow> spills ! l)"

definition file_position :: "name_index \<Rightarrow> nat list list \<Rightarrow> bytes \<Rightarrow> nat \<times> nat \<Rightarrow> nat \<Rightarrow> bool \<times> name_index \<times> nat list list" where
  "file_position index spills key at position =
     (let next_list = length spills; (node, fresh, index) = node_mut key (Some at) index in
      case in_slot node of
        Ent \<Rightarrow> (fresh, set_slot key (One position) index, spills)
      | One first \<Rightarrow> (fresh, set_slot key (Spilled next_list) index, spills @ [[first, position]])
      | Spilled l \<Rightarrow> (fresh, index, spills[l := spills ! l @ [position]]))"

lemma parent_key_shorter: "parent_key w = Some p \<Longrightarrow> length p < length w"
  by (cases w) (auto simp: Let_def split: if_splits)

lemma parent_in_zone_shorter: "parent_in_zone w origin = Some p \<Longrightarrow> length p < length w"
  by (auto simp: parent_in_zone_def dest: parent_key_shorter split: option.splits if_splits)

text \<open>\<open>at\<close> is where the octets of the name that was filed are; each ancestor's are a suffix of them.\<close>

function note_non_terminals :: "nat \<times> nat \<Rightarrow> bytes \<Rightarrow> bytes \<Rightarrow> name_index \<Rightarrow> name_index" where
  "note_non_terminals at origin name index =
     (case parent_in_zone name origin of
        None \<Rightarrow> index
      | Some par \<Rightarrow>
          let (off, len) = at; skipped = len - length par;
              (node, fresh, index) = node_mut par (Some (off + skipped, len - skipped)) index;
              index = add_child par index in
          if \<not> fresh then index else note_non_terminals at origin par index)"
  by pat_completeness auto
termination
  by (relation "measure (\<lambda>(_, _, name, _). length name)") (auto dest: parent_in_zone_shorter)

declare note_non_terminals.simps [simp del]

text \<open>The step \<^verbatim>\<open>take_in\<close> and \<^verbatim>\<open>reindex\<close> share: intern the name, file the position, and note the ancestors of a new name.\<close>

definition enter :: "bytes \<Rightarrow> bytes \<Rightarrow> nat \<Rightarrow> name_index \<times> nat list list \<Rightarrow> name_index \<times> nat list list" where
  "enter origin key position s =
     (let (index, spills) = s; (at, index) = intern key index; (fresh, index, spills) = file_position index spills key at position in
      (if fresh then note_non_terminals at origin key index else index, spills))"

text \<open>\<^verbatim>\<open>unfile\<close>: a missing name or position is the panic of its \<^verbatim>\<open>expect\<close>. The result says whether the name has records left.\<close>

definition unfile :: "bytes \<Rightarrow> nat \<Rightarrow> name_index \<times> nat list list \<Rightarrow> (bool \<times> name_index \<times> nat list list) option" where
  "unfile key position s =
     (let (index, spills) = s in
      case index_get key index of
        None \<Rightarrow> None
      | Some Ent \<Rightarrow> Some (False, index, spills)
      | Some (One only) \<Rightarrow> Some (False, set_slot key Ent index, spills)
      | Some (Spilled l) \<Rightarrow>
          if position \<notin> set (spills ! l) then None
          else
            let positions = rev (remove1 position (rev (spills ! l))) in
            (case positions of
               [] \<Rightarrow> Some (False, set_slot key Ent index, spills[l := []])
             | [p] \<Rightarrow> Some (True, set_slot key (One p) index, spills[l := []])
             | _ \<Rightarrow> Some (True, index, spills[l := positions])))"

text \<open>\<^verbatim>\<open>refile\<close> changes the first position in the list that is \<open>from\<close>.\<close>

definition refile :: "bytes \<Rightarrow> nat \<Rightarrow> nat \<Rightarrow> name_index \<times> nat list list \<Rightarrow> (name_index \<times> nat list list) option" where
  "refile key src dst s =
     (let (index, spills) = s in
      case index_get key index of
        None \<Rightarrow> None
      | Some Ent \<Rightarrow> Some (index, spills)
      | Some (One only) \<Rightarrow> Some (set_slot key (One dst) index, spills)
      | Some (Spilled l) \<Rightarrow>
          if src \<notin> set (spills ! l) then None
          else Some (index, spills[l := map_first (\<lambda>held. held = src) (\<lambda>_. dst) (spills ! l)]))"

function prune :: "bytes \<Rightarrow> bytes \<Rightarrow> name_index \<Rightarrow> name_index" where
  "prune origin name index =
     (case index_find name index of
        None \<Rightarrow> index
      | Some at \<Rightarrow>
          if in_children at > 0 \<or> in_slot at \<noteq> Ent then index
          else
            let index = index_remove name index in
            case parent_in_zone name origin of
              None \<Rightarrow> index
            | Some par \<Rightarrow> prune origin par (credit par (-1) index))"
  by pat_completeness auto
termination
  by (relation "measure (\<lambda>(_, name, _). length name)") (auto dest: parent_in_zone_shorter)

declare prune.simps [simp del]

section \<open>The invariants\<close>

type_synonym node_map = "bytes \<Rightarrow> (nat \<times> slot) option"

text \<open>\<open>K\<close> gives the name of the record at a position.\<close>

definition slot_ok :: "(nat \<Rightarrow> bytes option) \<Rightarrow> nat list list \<Rightarrow> bytes \<Rightarrow> slot \<Rightarrow> bool" where
  "slot_ok K sp key s \<longleftrightarrow> distinct (slot_positions sp s) \<and> set (slot_positions sp s) = {p. K p = Some key} \<and>
     (\<forall>l. s = Spilled l \<longrightarrow> l < length sp \<and> 2 \<le> length (sp ! l))"

definition slots_ok :: "(nat \<Rightarrow> bytes option) \<Rightarrow> node_map \<Rightarrow> nat list list \<Rightarrow> bool" where
  "slots_ok K I sp \<longleftrightarrow>
     (\<forall>key c s. I key = Some (c, s) \<longrightarrow> slot_ok K sp key s) \<and>
     (\<forall>key p. I key = None \<longrightarrow> K p \<noteq> Some key) \<and>
     (\<forall>k k' c c' l. I k = Some (c, Spilled l) \<longrightarrow> I k' = Some (c', Spilled l) \<longrightarrow> k = k')"

text \<open>The names counted as children; one name may be left out while its insertion is under way.\<close>

definition children :: "bytes \<Rightarrow> node_map \<Rightarrow> bytes set \<Rightarrow> bytes \<Rightarrow> bytes set" where
  "children og I out k = {x \<in> dom I - out. parent_in_zone x og = Some k}"

definition nodes_but :: "bytes \<Rightarrow> node_map \<Rightarrow> bytes set \<Rightarrow> bytes set \<Rightarrow> bool" where
  "nodes_but og I out unneeded \<longleftrightarrow> finite (dom I) \<and>
     (\<forall>x p. x \<in> dom I - out \<longrightarrow> parent_in_zone x og = Some p \<longrightarrow> p \<in> dom I) \<and>
     (\<forall>k c s. I k = Some (c, s) \<longrightarrow> c = card (children og I out k)) \<and>
     (\<forall>k c s. I k = Some (c, s) \<longrightarrow> k \<in> unneeded \<or> s \<noteq> Ent \<or> c > 0)"

abbreviation nodes_ok :: "bytes \<Rightarrow> node_map \<Rightarrow> bool" where
  "nodes_ok og I \<equiv> nodes_but og I {} {}"

lemma children_insert:
  "x \<in> dom I \<Longrightarrow> children og I {} k = (if parent_in_zone x og = Some k then insert x (children og I {x} k) else children og I {x} k)"
  by (auto simp: children_def)

lemma finite_children: "finite (dom I) \<Longrightarrow> finite (children og I out k)"
  by (simp add: children_def)

lemma card_children:
  assumes "finite (dom I)" and "x \<in> dom I"
  shows "card (children og I {} k) = card (children og I {x} k) + (if parent_in_zone x og = Some k then 1 else 0)"
proof -
  have "x \<notin> children og I {x} k" by (simp add: children_def)
  then show ?thesis using finite_children [OF assms(1), of og "{x}" k] by (simp add: children_insert [OF assms(2)])
qed

lemma parent_not_self: "parent_in_zone x og \<noteq> Some x"
  using parent_in_zone_shorter by fastforce

section \<open>Filing\<close>

lemma slots_okD:
  assumes "slots_ok K I sp"
  shows "I key = Some (c, s) \<Longrightarrow> slot_ok K sp key s" and "I key = None \<Longrightarrow> K p \<noteq> Some key"
    and "I k = Some (c, Spilled l) \<Longrightarrow> I k' = Some (c', Spilled l) \<Longrightarrow> k = k'"
  using assms unfolding slots_ok_def by blast+

lemma slot_positions_simps [simp]:
  "slot_positions sp Ent = []" "slot_positions sp (One p) = [p]" "slot_positions sp (Spilled l) = sp ! l"
  by (simp_all add: slot_positions_def)

lemma slots_ok_spilled:
  assumes "slots_ok K I sp" and "I k = Some (c, Spilled l)"
  shows "l < length sp" "distinct (sp ! l)" "set (sp ! l) = {p. K p = Some k}" "2 \<le> length (sp ! l)"
  using slots_okD(1) [OF assms] by (auto simp: slot_ok_def)

text \<open>Changing the positions at one name: its slot, its list, and nothing that belongs to another name.\<close>

lemma slots_ok_change:
  assumes ok: "slots_ok K I sp"
    and key: "I' key = Some (c', s')" "slot_ok K' sp' key s'"
    and others: "\<And>k. k \<noteq> key \<Longrightarrow> map_option snd (I' k) = map_option snd (I k)"
    and K: "\<And>k p. k \<noteq> key \<Longrightarrow> K' p = Some k \<longleftrightarrow> K p = Some k"
    and lists: "\<And>k c l. k \<noteq> key \<Longrightarrow> I k = Some (c, Spilled l) \<Longrightarrow> l < length sp' \<and> sp' ! l = sp ! l \<and> s' \<noteq> Spilled l"
  shows "slots_ok K' I' sp'"
proof -
  have other: "\<exists>c. I k = Some (c, s)" if "k \<noteq> key" "I' k = Some (c0, s)" for k c0 s
    using others [OF that(1)] that(2) by (auto simp: map_option_case split: option.splits)
  have "slot_ok K' sp' k s" if k: "I' k = Some (c0, s)" for k c0 s
  proof (cases "k = key")
    case False
    then obtain c1 where I: "I k = Some (c1, s)" using other [OF False k] by blast
    note old = slots_okD(1) [OF ok I]
    have "slot_positions sp' s = slot_positions sp s"
      using lists [OF False] I by (cases s) simp_all
    moreover have "{p. K' p = Some k} = {p. K p = Some k}" using K [OF False] by simp
    moreover have "l < length sp' \<and> 2 \<le> length (sp' ! l)" if "s = Spilled l" for l
      using old lists [OF False, of c1 l] I that by (simp add: slot_ok_def)
    ultimately show ?thesis using old by (simp add: slot_ok_def)
  qed (use key k in auto)
  moreover have "K' p \<noteq> Some k" if "I' k = None" for k p
  proof -
    have "k \<noteq> key" using that key by auto
    moreover from this have "I k = None" using that others [of k] by simp
    ultimately show ?thesis using slots_okD(2) [OF ok] K by blast
  qed
  moreover have "k = k'" if "I' k = Some (c, Spilled l)" "I' k' = Some (c1, Spilled l)" for k k' c c1 l
  proof -
    consider "k = key" "k' = key" | "k \<noteq> key" "k' \<noteq> key" | "k = key" "k' \<noteq> key" | "k \<noteq> key" "k' = key" by blast
    then show ?thesis
    proof cases
      case 2
      then show ?thesis using other [OF 2(1) that(1)] other [OF 2(2) that(2)] slots_okD(3) [OF ok] by blast
    next
      case 3
      then show ?thesis using other [OF 3(2) that(2)] lists [OF 3(2)] that(1) key(1) by auto
    next
      case 4
      then show ?thesis using other [OF 4(1) that(1)] lists [OF 4(1)] that(2) key(1) by auto
    qed simp
  qed
  ultimately show ?thesis unfolding slots_ok_def by blast
qed

lemma file_position_ok:
  assumes ix: "nindex_ok ix" and r: "names_range ix at key" and ok: "slots_ok K (imap ix) sp" and new: "K p = None"
    and f: "file_position ix sp key at p = (fresh, ix', sp')"
  shows "nindex_ok ix'" and "fresh \<longleftrightarrow> imap ix key = None" and "slots_ok (K(p \<mapsto> key)) (imap ix') sp'"
    and "names_range ix' = names_range ix"
    and "\<exists>s. s \<noteq> Ent \<and> imap ix' = (imap ix)(key \<mapsto> (case imap ix key of None \<Rightarrow> 0 | Some (c, _) \<Rightarrow> c, s))"
proof -
  obtain node ix1 where nm: "node_mut key (Some at) ix = (node, fresh, ix1)"
    using f by (auto simp: file_position_def Let_def split: prod.splits slot.splits)
  note n = node_mut_ok [OF ix r nm]
  let ?I1 = "imap ix1"
  have nr: "names_range (set_slot key s ix1) = names_range ix1" for s
    by (intro ext) (simp add: names_range_def set_slot_def)
  have ok1: "slots_ok K ?I1 sp"
    unfolding n(3) using ok slots_okD(2) [OF ok, of key] n(2)
    by (auto simp: slots_ok_def slot_ok_def)
  let ?c = "in_children node"
  have base: "?I1 = (imap ix)(key \<mapsto> (case imap ix key of None \<Rightarrow> 0 | Some (c, _) \<Rightarrow> c, in_slot node))"
    using n(3,4) n(2) by (cases fresh) (auto simp: fun_eq_iff split: option.splits)
  have lst: "l < length sp \<and> s' \<noteq> Spilled l" if "imap ix1 k = Some (c, Spilled l)" "k \<noteq> key" "s' = in_slot node \<or> (\<forall>l. s' = Spilled l \<longrightarrow> l = length sp)" for k c l s'
    using slots_ok_spilled(1) [OF ok1 that(1)] slots_okD(3) [OF ok1 that(1)] n(4) that(2,3) by auto
  have Kp: "set (slot_positions sp (in_slot node)) = {q. K q = Some key}" "distinct (slot_positions sp (in_slot node))"
    using slots_okD(1) [OF ok1 n(4)] by (auto simp: slot_ok_def)
  have K': "{q. (K(p \<mapsto> key)) q = Some key} = insert p {q. K q = Some key}" by auto
  have pn: "p \<notin> {q. K q = Some key}" using new by simp
  have "nindex_ok ix' \<and> slots_ok (K(p \<mapsto> key)) (imap ix') sp' \<and> names_range ix' = names_range ix \<and>
    (\<exists>s. s \<noteq> Ent \<and> imap ix' = (imap ix)(key \<mapsto> (case imap ix key of None \<Rightarrow> 0 | Some (c, _) \<Rightarrow> c, s)))"
  proof (cases "in_slot node")
    case Ent
    then have *: "ix' = set_slot key (One p) ix1" "sp' = sp" using f nm by (auto simp: file_position_def)
    have I': "imap ix' = ?I1(key \<mapsto> (?c, One p))" unfolding * set_slot_ok(2) [OF n(1)] n(4) by simp
    have "slots_ok (K(p \<mapsto> key)) (imap ix') sp"
      unfolding I' using lst Kp pn Ent new
      by (intro slots_ok_change [OF ok1, of _ key ?c "One p"]) (auto simp: slot_ok_def K')
    moreover have "imap ix' = (imap ix)(key \<mapsto> (case imap ix key of None \<Rightarrow> 0 | Some (c, _) \<Rightarrow> c, One p))"
      using n(4) unfolding I' base by auto
    ultimately show ?thesis using set_slot_ok(1) [OF n(1)] n(5) nr by (auto simp: *)
  next
    case (One q)
    have qp: "q \<noteq> p" using Kp(1) pn One by auto
    from One have *: "ix' = set_slot key (Spilled (length sp)) ix1" "sp' = sp @ [[q, p]]" using f nm by (auto simp: file_position_def)
    have I': "imap ix' = ?I1(key \<mapsto> (?c, Spilled (length sp)))" unfolding * set_slot_ok(2) [OF n(1)] n(4) by simp
    have "slots_ok (K(p \<mapsto> key)) (imap ix') (sp @ [[q, p]])"
      unfolding I' using lst Kp pn One new qp
      by (intro slots_ok_change [OF ok1, of _ key ?c "Spilled (length sp)"]) (auto simp: slot_ok_def K' nth_append)
    moreover have "imap ix' = (imap ix)(key \<mapsto> (case imap ix key of None \<Rightarrow> 0 | Some (c, _) \<Rightarrow> c, Spilled (length sp)))"
      using n(4) unfolding I' base by auto
    ultimately show ?thesis using set_slot_ok(1) [OF n(1)] n(5) nr by (auto simp: *)
  next
    case (Spilled l)
    then have *: "ix' = ix1" "sp' = sp[l := sp ! l @ [p]]" using f nm by (auto simp: file_position_def)
    have l: "l < length sp" "2 \<le> length (sp ! l)" using slots_ok_spilled [OF ok1] n(4) Spilled by auto
    have "slots_ok (K(p \<mapsto> key)) (imap ix') (sp[l := sp ! l @ [p]])"
      unfolding * using lst [where s' = "Spilled l"] Kp pn Spilled l n(4) new
      by (intro slots_ok_change [OF ok1, of _ key ?c "Spilled l"]) (auto simp: slot_ok_def K')
    then show ?thesis using n(1,5) base Spilled by (auto simp: *)
  qed
  then show "nindex_ok ix'" "slots_ok (K(p \<mapsto> key)) (imap ix') sp'" "names_range ix' = names_range ix"
    "\<exists>s. s \<noteq> Ent \<and> imap ix' = (imap ix)(key \<mapsto> (case imap ix key of None \<Rightarrow> 0 | Some (c, _) \<Rightarrow> c, s))" by auto
  show "fresh \<longleftrightarrow> imap ix key = None" by (rule n(2))
qed

subsection \<open>The names above\<close>

lemma parent_in_zone_suffix:
  "parent_in_zone w og = Some p \<Longrightarrow> p = drop (length w - length p) w \<and> length og \<le> length p"
proof -
  assume a: "parent_in_zone w og = Some p"
  then obtain l tl where w: "w = l # tl" by (cases w) (auto simp: parent_in_zone_def split: if_splits)
  from a have "unat l \<le> length tl" "p = drop (unat l) tl" "length og \<le> length p"
    by (auto simp: w parent_in_zone_def Let_def split: if_splits option.splits)
  then show ?thesis by (simp add: w Suc_diff_le)
qed

lemma parent_range:
  assumes "names_range ix (off, length key) key" and "w = drop (length key - length w) key" and "parent_in_zone w og = Some p"
  shows "p = drop (length key - length p) key"
    and "names_range ix (off + (length key - length p), length key - (length key - length p)) p"
proof -
  note p = parent_in_zone_suffix [OF assms(3)] parent_in_zone_shorter [OF assms(3)]
  have "length w = length (drop (length key - length w) key)" using arg_cong [OF assms(2), of length] .
  then have lw: "length w \<le> length key" by simp
  have "p = drop (length w - length p) (drop (length key - length w) key)"
    using p(1) by (subst assms(2) [symmetric]) simp
  also have "\<dots> = drop (length key - length p) key" using lw p(2) by simp
  finally show d: "p = drop (length key - length p) key" .
  let ?s = "length key - length p"
  have "seg (ni_names ix) (off + ?s) (off + length key) = drop ?s (seg (ni_names ix) off (off + length key))"
    by (simp add: seg_def drop_take add.commute)
  moreover have "off + ?s + (length key - ?s) = off + length key" by simp
  ultimately show "names_range ix (off + ?s, length key - ?s) p"
    using assms(1) d by (simp add: names_range_def)
qed

lemma nodes_butD:
  assumes "nodes_but og I out un"
  shows "finite (dom I)" and "x \<in> dom I \<Longrightarrow> x \<notin> out \<Longrightarrow> parent_in_zone x og = Some p \<Longrightarrow> p \<in> dom I"
    and "I k = Some (c, s) \<Longrightarrow> c = card (children og I out k)"
    and "I k = Some (c, s) \<Longrightarrow> k \<in> un \<or> s \<noteq> Ent \<or> c > 0"
  using assms unfolding nodes_but_def by blast+

text \<open>Counting one more child at the parent of the name whose insertion is under way.\<close>

lemma credit_parent:
  assumes n: "nodes_but og I {w} {}" and w: "w \<in> dom I" and p: "parent_in_zone w og = Some p"
    and I1: "I1 = (if I p = None then I(p \<mapsto> (0, Ent)) else I)"
    and I2: "I2 = I1(p := map_option (\<lambda>(c, s). (c + 1, s)) (I1 p))"
  shows "nodes_but og I2 (if I p = None then {p} else {}) {}"
proof -
  note nd = nodes_butD [OF n]
  have dom2: "dom I2 = insert p (dom I)" by (auto simp: I1 I2 split: if_splits option.splits)
  have out: "children og I2 (if I p = None then {p} else {}) k = children og I {} k" for k
    using dom2 by (auto simp: children_def)
  have cnt: "card (children og I {} k) = card (children og I {w} k) + (if k = p then 1 else 0)" for k
    using card_children [OF nd(1) w, of og k] p by auto
  have none: "children og I {w} p = {}" if "I p = None"
    using nd(2) that by (auto simp: children_def)
  have val: "c = card (children og I {} k) \<and> (s \<noteq> Ent \<or> c > 0)" if "I2 k = Some (c, s)" for k c s
  proof (cases "k = p")
    case True
    show ?thesis
    proof (cases "I p")
      case None
      then show ?thesis using that True none cnt [of p] by (simp add: I1 I2)
    next
      case (Some x)
      obtain c0 s0 where x: "x = (c0, s0)" by fastforce
      then have "c = c0 + 1" "s = s0" using that True Some by (auto simp: I1 I2)
      then show ?thesis using nd(3) [of p c0 s0] cnt [of p] Some True x by simp
    qed
  next
    case False
    then have "I k = Some (c, s)" using that by (auto simp: I1 I2 split: if_splits)
    then show ?thesis using nd(3) [of k c s] nd(4) [of k c s] cnt [of k] False by simp
  qed
  have closed: "q \<in> dom I2" if "x \<in> dom I2 - (if I p = None then {p} else {})" "parent_in_zone x og = Some q" for x q
  proof (cases "x = w")
    case True
    then show ?thesis using that p dom2 by simp
  next
    case False
    then have "x \<in> dom I" using that dom2 by (auto split: if_splits)
    then show ?thesis using nd(2) [of x q] that False dom2 by simp
  qed
  show ?thesis
    unfolding nodes_but_def out using val closed nd(1) dom2 by (metis finite.insertI)
qed

lemma note_non_terminals_ok:
  assumes "nindex_ok ix" and "names_range ix (off, length key) key" and "w = drop (length key - length w) key"
    and "nodes_but og (imap ix) {w} {}" and "w \<in> dom (imap ix)"
  defines "ix' \<equiv> note_non_terminals (off, length key) og w ix"
  shows "nindex_ok ix' \<and> nodes_ok og (imap ix') \<and>
    (\<forall>k. map_option snd (imap ix' k) = map_option snd (imap ix k) \<or> imap ix k = None \<and> map_option snd (imap ix' k) = Some Ent)"
  unfolding ix'_def using assms(1-5)
proof (induction "length w" arbitrary: w ix rule: less_induct)
  case (less w ix)
  show ?case
  proof (cases "parent_in_zone w og")
    case None
    have ch: "children og (imap ix) {} k = children og (imap ix) {w} k" for k
      using None by (auto simp: children_def)
    have "nodes_ok og (imap ix)"
      using less.prems(4) None ch unfolding nodes_but_def by (metis DiffI Diff_empty option.distinct(1) singletonD)
    then show ?thesis using less.prems None by (simp add: note_non_terminals.simps)
  next
    case (Some p)
    let ?r = "(off + (length key - length p), length key - (length key - length p))"
    obtain node fresh ix1 where nm: "node_mut p (Some ?r) ix = (node, fresh, ix1)" by (metis prod_cases3)
    note pr = parent_range [OF less.prems(2,3) Some]
    note n = node_mut_ok [OF less.prems(1) pr(2) nm]
    let ?ix2 = "add_child p ix1"
    note a = add_child_ok [OF n(1), of p]
    have nodes: "nodes_but og (imap ?ix2) (if fresh then {p} else {}) {}"
      using credit_parent [OF less.prems(4,5) Some refl refl] n(2,3) a(2) by (cases fresh) auto
    have snds: "map_option snd (imap ?ix2 k) = map_option snd (imap ix k) \<or>
        imap ix k = None \<and> map_option snd (imap ?ix2 k) = Some Ent" for k
      using n(2,3) a(2) by (cases "imap ix k") (auto simp: option.map_comp comp_def case_prod_beta)
    have step: "note_non_terminals (off, length key) og w ix =
        (if \<not> fresh then ?ix2 else note_non_terminals (off, length key) og p ?ix2)"
      using Some nm by (subst note_non_terminals.simps) simp
    show ?thesis
    proof (cases fresh)
      case False
      then show ?thesis using step nodes snds a(1) by auto
    next
      case True
      have "p \<in> dom (imap ?ix2)" using n(4) a(2) by auto
      moreover have "names_range ?ix2 (off, length key) key" using less.prems(2) n(5) a(3) by simp
      ultimately have IH: "nindex_ok (note_non_terminals (off, length key) og p ?ix2) \<and>
          nodes_ok og (imap (note_non_terminals (off, length key) og p ?ix2)) \<and>
          (\<forall>k. map_option snd (imap (note_non_terminals (off, length key) og p ?ix2) k) = map_option snd (imap ?ix2 k) \<or>
            imap ?ix2 k = None \<and> map_option snd (imap (note_non_terminals (off, length key) og p ?ix2) k) = Some Ent)"
        using less.hyps [OF parent_in_zone_shorter [OF Some] a(1)] True pr(1) nodes by simp
      have "imap ix k = None" if "imap ?ix2 k = None" for k using snds [of k] that by auto
      then show ?thesis using IH snds step True by metis
    qed
  qed
qed

section \<open>One record in, one record out\<close>

lemma slots_ok_snd:
  assumes "slots_ok K I sp"
    and "\<And>k. map_option snd (I' k) = map_option snd (I k) \<or> I k = None \<and> map_option snd (I' k) = Some Ent"
  shows "slots_ok K I' sp"
proof -
  have new: "(\<exists>c. I k = Some (c, s)) \<or> I k = None \<and> s = Ent" if "I' k = Some (c', s)" for k c' s
    using assms(2) [of k] that by (cases "I k") auto
  have "slot_ok K sp k s" if "I' k = Some (c, s)" for k c s
    using new [OF that] slots_okD(1,2) [OF assms(1)] by (auto simp: slot_ok_def)
  moreover have "K p \<noteq> Some k" if "I' k = None" for k p
    using assms(2) [of k] that slots_okD(2) [OF assms(1), of k p] by auto
  moreover have "k = k'" if "I' k = Some (c, Spilled l)" "I' k' = Some (c', Spilled l)" for k k' c c' l
    using new [OF that(1)] new [OF that(2)] slots_okD(3) [OF assms(1)] by blast
  ultimately show ?thesis unfolding slots_ok_def by blast
qed

lemma nodes_ok_cong:
  assumes "nodes_but og I {} un" and "map_option fst \<circ> I' = map_option fst \<circ> I"
    and "\<And>k c s. I' k = Some (c, s) \<Longrightarrow> k \<in> un' \<or> s \<noteq> Ent \<or> (\<exists>s. I k = Some (c, s) \<and> k \<notin> un \<and> s = Ent)"
  shows "nodes_but og I' {} un'"
proof -
  have "I' k = None \<longleftrightarrow> I k = None" for k using fun_cong [OF assms(2), of k] by (cases "I k"; cases "I' k") auto
  then have d: "dom I' = dom I" by (simp add: dom_def)
  have c: "children og I' {} k = children og I {} k" for k by (simp add: children_def d)
  have v: "\<exists>s'. I k = Some (c, s')" if "I' k = Some (c, s)" for k c s
    using fun_cong [OF assms(2), of k] that by (cases "I k") auto
  note nd = nodes_butD [OF assms(1)]
  show ?thesis
    unfolding nodes_but_def c d
  proof (intro conjI allI impI)
    show "p \<in> dom I" if "x \<in> dom I - {}" "parent_in_zone x og = Some p" for x p using nd(2) that by simp
    show "n = card (children og I {} k)" if "I' k = Some (n, s)" for k n s using v [OF that] nd(3) by blast
    show "k \<in> un' \<or> s \<noteq> Ent \<or> n > 0" if "I' k = Some (n, s)" for k n s
      using assms(3) [OF that] nd(4) [of k n Ent] by blast
  qed (rule nd(1))
qed

lemma enter_ok:
  assumes ix: "nindex_ok ix" and ok: "slots_ok K (imap ix) sp" and nodes: "nodes_ok og (imap ix)" and new: "K p = None"
    and e: "enter og key p (ix, sp) = (ix', sp')"
  shows "nindex_ok ix' \<and> slots_ok (K(p \<mapsto> key)) (imap ix') sp' \<and> nodes_ok og (imap ix')"
proof -
  obtain at ix0 where i: "intern key ix = (at, ix0)" by fastforce
  obtain fresh ix1 sp1 where f: "file_position ix0 sp key at p = (fresh, ix1, sp1)" by (metis prod_cases3)
  note i_ok = intern_ok [OF ix i]
  note f_ok = file_position_ok [OF i_ok(1,3) ok [folded i_ok(2)] new f]
  have e': "ix' = (if fresh then note_non_terminals at og key ix1 else ix1)" "sp' = sp1"
    using e i f by (auto simp: enter_def)
  obtain s where s: "s \<noteq> Ent" "imap ix1 = (imap ix)(key \<mapsto> (case imap ix key of None \<Rightarrow> 0 | Some (c, _) \<Rightarrow> c, s))"
    using f_ok(5) i_ok(2) by auto
  note nd = nodes_butD [OF nodes]
  show ?thesis
  proof (cases fresh)
    case False
    then obtain c s0 where k: "imap ix key = Some (c, s0)" using f_ok(2) i_ok(2) by fastforce
    have "nodes_ok og (imap ix1)"
      by (rule nodes_ok_cong [OF nodes]) (use s k nd(4) in \<open>auto simp: fun_eq_iff split: if_splits\<close>)
    then show ?thesis using e' False f_ok(1,3) by simp
  next
    case True
    then have none: "imap ix key = None" using f_ok(2) i_ok(2) by simp
    have at: "snd at = length key"
      using i_ok(3) by (auto simp: names_range_def seg_def min_def split: if_splits)
    have I1: "imap ix1 = (imap ix)(key \<mapsto> (0, s))" using s none by simp
    have ch: "children og (imap ix1) {key} k = children og (imap ix) {} k" for k
      unfolding I1 using none by (auto simp: children_def)
    have nokey: "children og (imap ix) {} key = {}" using nd(2) none by (auto simp: children_def)
    have "nodes_but og (imap ix1) {key} {}"
      unfolding nodes_but_def ch
    proof (intro conjI allI impI)
      show "finite (dom (imap ix1))" using nd(1) I1 by simp
      show "q \<in> dom (imap ix1)" if "x \<in> dom (imap ix1) - {key}" "parent_in_zone x og = Some q" for x q
        using that nd(2) [of x q] I1 by (auto split: if_splits)
      show "c = card (children og (imap ix) {} k)" if "imap ix1 k = Some (c, s')" for k c s'
        using that nd(3) [of k c s'] nokey I1 by (auto split: if_splits)
      show "k \<in> {} \<or> s' \<noteq> Ent \<or> 0 < c" if "imap ix1 k = Some (c, s')" for k c s'
        using that nd(4) [of k c s'] s(1) I1 by (auto split: if_splits)
    qed
    moreover have "names_range ix1 (fst at, length key) key" using i_ok(3) f_ok(4) at by (cases at) simp
    ultimately have n: "nindex_ok ix'" "nodes_ok og (imap ix')"
      "\<And>k. map_option snd (imap ix' k) = map_option snd (imap ix1 k) \<or> imap ix1 k = None \<and> map_option snd (imap ix' k) = Some Ent"
      using note_non_terminals_ok [OF f_ok(1), of "fst at" key key og] at I1 True e' by (cases at; simp)+
    then show ?thesis using slots_ok_snd [OF f_ok(3) n(3)] e'(2) by simp
  qed
qed

lemma slots_ok_at:
  assumes "slots_ok K I sp" and "K p = Some key"
  obtains c s where "I key = Some (c, s)" "p \<in> set (slot_positions sp s)" "slot_ok K sp key s" "s \<noteq> Ent"
proof -
  obtain c s where I: "I key = Some (c, s)" using slots_okD(2) [OF assms(1), of key p] assms(2) by fastforce
  then have s: "slot_ok K sp key s" by (rule slots_okD(1) [OF assms(1)])
  then have "p \<in> set (slot_positions sp s)" using assms(2) by (simp add: slot_ok_def)
  moreover from this have "s \<noteq> Ent" by auto
  ultimately show thesis using that I s by blast
qed

lemma remove_position:
  assumes "distinct xs"
  shows "set (rev (remove1 p (rev xs))) = set xs - {p}" and "distinct (rev (remove1 p (rev xs)))"
  using assms by (simp_all add: set_remove1_eq)

text \<open>What a change of the slots of one name does to the rest.\<close>

lemma one_name_change:
  assumes ok: "slots_ok K I sp" and I: "I key = Some (c, s)"
    and s': "slot_ok K' sp' key s'" "\<And>l. s' = Spilled l \<Longrightarrow> s = Spilled l"
    and K: "\<And>k q. k \<noteq> key \<Longrightarrow> K' q = Some k \<longleftrightarrow> K q = Some k"
    and sp: "length sp' = length sp" "\<And>l. l < length sp \<Longrightarrow> s \<noteq> Spilled l \<Longrightarrow> sp' ! l = sp ! l"
  shows "slots_ok K' (I(key \<mapsto> (c, s'))) sp'"
proof (rule slots_ok_change [OF ok, of _ key c s'])
  show "l < length sp' \<and> sp' ! l = sp ! l \<and> s' \<noteq> Spilled l" if "k \<noteq> key" "I k = Some (c0, Spilled l)" for k c0 l
  proof -
    have "s \<noteq> Spilled l" using slots_okD(3) [OF ok that(2)] I that(1) by auto
    then show ?thesis using sp slots_ok_spilled(1) [OF ok that(2)] s'(2) by auto
  qed
qed (use s' K in auto)

lemma unfile_ok:
  assumes ix: "nindex_ok ix" and ok: "slots_ok K (imap ix) sp" and p: "K p = Some key"
  obtains left ix' sp' c s' where "unfile key p (ix, sp) = Some (left, ix', sp')" "nindex_ok ix'"
    "imap ix' = (imap ix)(key \<mapsto> (c, s'))" "slots_ok (K(p := None)) (imap ix') sp'" "left \<longleftrightarrow> s' \<noteq> Ent"
    "\<exists>s0. imap ix key = Some (c, s0)"
proof -
  obtain c s where I: "imap ix key = Some (c, s)" and pin: "p \<in> set (slot_positions sp s)" and sok: "slot_ok K sp key s" and ne: "s \<noteq> Ent"
    by (rule slots_ok_at [OF ok p])
  have get: "index_get key ix = Some s" by (simp add: index_get_imap I)
  have K': "{q. (K(p := None)) q = Some key} = set (slot_positions sp s) - {p}" using sok by (auto simp: slot_ok_def)
  have Ko: "(K(p := None)) q = Some k \<longleftrightarrow> K q = Some k" if "k \<noteq> key" for k q using that p by auto
  have set: "imap (set_slot key t ix) = (imap ix)(key \<mapsto> (c, t))" for t using set_slot_ok(2) [OF ix] I by simp
  note change = one_name_change [OF ok I _ _ Ko]
  show thesis
  proof (cases s)
    case (One q)
    then have "q = p" using pin by simp
    then have "slots_ok (K(p := None)) ((imap ix)(key \<mapsto> (c, Ent))) sp"
      using One K' by (intro change) (auto simp: slot_ok_def)
    then show thesis
      using that [of False "set_slot key Ent ix" sp c Ent] One get set_slot_ok(1) [OF ix] set I by (simp add: unfile_def)
  next
    case (Spilled l)
    have l: "l < length sp" "distinct (sp ! l)" "2 \<le> length (sp ! l)" using slots_ok_spilled [OF ok] I Spilled by auto
    let ?ps = "rev (remove1 p (rev (sp ! l)))"
    note rp = remove_position [OF l(2), of p]
    have len: "length ?ps = length (sp ! l) - 1" using pin Spilled by (simp add: length_remove1)
    have pos: "set ?ps = {q. (K(p := None)) q = Some key}" using rp(1) K' Spilled by simp
    show thesis
    proof (cases "\<exists>q. ?ps = [q]")
      case True
      then obtain q where q: "?ps = [q]" by blast
      have "slots_ok (K(p := None)) ((imap ix)(key \<mapsto> (c, One q))) (sp[l := []])"
        using q pos Spilled by (intro change) (auto simp: slot_ok_def)
      moreover have "unfile key p (ix, sp) = Some (True, set_slot key (One q) ix, sp[l := []])"
        using q pin Spilled get by (simp add: unfile_def Let_def)
      ultimately show thesis using that [of True "set_slot key (One q) ix" "sp[l := []]" c "One q"] set_slot_ok(1) [OF ix] set I by simp
    next
      case False
      then obtain a b r where abr: "?ps = a # b # r" using len l(3) by (cases ?ps rule: remdups_adj.cases) auto
      have "slots_ok (K(p := None)) ((imap ix)(key \<mapsto> (c, s))) (sp[l := ?ps])"
      proof (rule change)
        show "slot_ok (K(p := None)) (sp[l := ?ps]) key s"
          using abr pos rp(2) l(1) Spilled by (auto simp: slot_ok_def simp del: set_rev distinct_rev)
      qed (use Spilled in auto)
      moreover have "unfile key p (ix, sp) = Some (True, ix, sp[l := ?ps])"
        using abr pin Spilled get by (simp add: unfile_def Let_def)
      moreover have "imap ix = (imap ix)(key \<mapsto> (c, s))" using I by auto
      ultimately show thesis using that [of True ix "sp[l := ?ps]" c s] ix I Spilled by (metis slot.distinct(3))
    qed
  qed (use ne in simp)
qed

lemma map_first_swap:
  fixes xs :: "nat list"
  assumes "distinct xs" and "src \<in> set xs" and "dst \<notin> set xs"
  shows "set (map_first (\<lambda>held. held = src) (\<lambda>_. dst) xs) = insert dst (set xs - {src})"
    and "distinct (map_first (\<lambda>held. held = src) (\<lambda>_. dst) xs)"
    and "length (map_first (\<lambda>held. held = src) (\<lambda>_. dst) xs) = length xs"
proof -
  have l: "length (map_first P f ys) = length ys" for P f and ys :: "nat list" by (induction ys) auto
  have none: "map_first (\<lambda>held. held = src) (\<lambda>_. dst) ys = ys" if "src \<notin> set ys" for ys using that by (induction ys) auto
  have *: "set (map_first (\<lambda>held. held = src) (\<lambda>_. dst) xs) = insert dst (set xs - {src}) \<and>
      distinct (map_first (\<lambda>held. held = src) (\<lambda>_. dst) xs)"
    using assms
  proof (induction xs)
    case (Cons x xs)
    show ?case
    proof (cases "x = src")
      case True
      then show ?thesis using Cons.prems by auto
    next
      case False
      then have "set (map_first (\<lambda>held. held = src) (\<lambda>_. dst) xs) = insert dst (set xs - {src}) \<and>
          distinct (map_first (\<lambda>held. held = src) (\<lambda>_. dst) xs)"
        using Cons by simp
      then show ?thesis using False Cons.prems by auto
    qed
  qed simp
  then show "set (map_first (\<lambda>held. held = src) (\<lambda>_. dst) xs) = insert dst (set xs - {src})"
    "distinct (map_first (\<lambda>held. held = src) (\<lambda>_. dst) xs)" by auto
  show "length (map_first (\<lambda>held. held = src) (\<lambda>_. dst) xs) = length xs" by (rule l)
qed

lemma refile_ok:
  assumes ix: "nindex_ok ix" and ok: "slots_ok K (imap ix) sp" and src: "K src = Some key" and dst: "K dst = None"
  obtains ix' sp' c s0 s' where "refile key src dst (ix, sp) = Some (ix', sp')" "nindex_ok ix'" "s' \<noteq> Ent"
    "imap ix key = Some (c, s0)" "s0 \<noteq> Ent" "imap ix' = (imap ix)(key \<mapsto> (c, s'))" "slots_ok (K(src := None, dst \<mapsto> key)) (imap ix') sp'"
proof -
  obtain c s where I: "imap ix key = Some (c, s)" and pin: "src \<in> set (slot_positions sp s)" and sok: "slot_ok K sp key s" and ne: "s \<noteq> Ent"
    by (rule slots_ok_at [OF ok src])
  have get: "index_get key ix = Some s" by (simp add: index_get_imap I)
  have sd: "src \<noteq> dst" using src dst by auto
  let ?K = "K(src := None, dst \<mapsto> key)"
  have K': "{q. ?K q = Some key} = insert dst (set (slot_positions sp s) - {src})" using sok sd by (auto simp: slot_ok_def)
  have Ko: "?K q = Some k \<longleftrightarrow> K q = Some k" if "k \<noteq> key" for k q using that src dst by auto
  have dn: "dst \<notin> set (slot_positions sp s)" using sok dst by (auto simp: slot_ok_def)
  note change = one_name_change [OF ok I _ _ Ko]
  show thesis
  proof (cases s)
    case (One q)
    then have q: "q = src" using pin by simp
    have "slots_ok ?K ((imap ix)(key \<mapsto> (c, One dst))) sp"
      using One K' q by (intro change) (auto simp: slot_ok_def)
    moreover have "imap (set_slot key (One dst) ix) = (imap ix)(key \<mapsto> (c, One dst))" using set_slot_ok(2) [OF ix] I by simp
    ultimately show thesis
      using that [of "set_slot key (One dst) ix" sp "One dst" c s] One get set_slot_ok(1) [OF ix] I by (simp add: refile_def)
  next
    case (Spilled l)
    have l: "l < length sp" "distinct (sp ! l)" "2 \<le> length (sp ! l)" using slots_ok_spilled [OF ok] I Spilled by auto
    let ?ps = "map_first (\<lambda>held. held = src) (\<lambda>_. dst) (sp ! l)"
    note ps = map_first_swap [OF l(2), of src dst]
    have "slots_ok ?K ((imap ix)(key \<mapsto> (c, s))) (sp[l := ?ps])"
    proof (rule change)
      show "slot_ok ?K (sp[l := ?ps]) key s"
        unfolding slot_ok_def K' using ps pin dn Spilled l by simp
    qed (use Spilled in auto)
    moreover have "refile key src dst (ix, sp) = Some (ix, sp[l := ?ps])"
      using pin Spilled get by (simp add: refile_def)
    moreover have "(imap ix)(key \<mapsto> (c, s)) = imap ix" using I by auto
    ultimately show thesis using that [of ix "sp[l := ?ps]" s c s] ix I ne by simp
  qed (use ne in simp)
qed

lemma prune_ok:
  assumes "nindex_ok ix" and "nodes_but og (imap ix) {} {w}"
  defines "ix' \<equiv> prune og w ix"
  shows "nindex_ok ix' \<and> nodes_ok og (imap ix') \<and>
    (\<forall>k. map_option snd (imap ix' k) = map_option snd (imap ix k) \<or> imap ix' k = None \<and> map_option snd (imap ix k) = Some Ent)"
  unfolding ix'_def using assms(1,2)
proof (induction "length w" arbitrary: w ix rule: less_induct)
  case (less w ix)
  note nd = nodes_butD [OF less.prems(2)]
  show ?case
  proof (cases "index_find w ix")
    case None
    then have "imap ix w = None" by (simp add: imap_def)
    then have "nodes_ok og (imap ix)" using less.prems(2) unfolding nodes_but_def by (metis empty_iff option.distinct(1) singletonD)
    then show ?thesis using None less.prems(1) by (simp add: prune.simps)
  next
    case (Some at)
    then have I: "imap ix w = Some (in_children at, in_slot at)" by (simp add: imap_def)
    show ?thesis
    proof (cases "in_children at > 0 \<or> in_slot at \<noteq> Ent")
      case True
      then have "nodes_ok og (imap ix)" using less.prems(2) I unfolding nodes_but_def by (metis empty_iff option.inject prod.inject singletonD)
      then show ?thesis using True Some less.prems(1) by (simp add: prune.simps)
    next
      case False
      let ?ix1 = "index_remove w ix"
      note r = index_remove_ok [OF less.prems(1), of w]
      have w: "w \<in> dom (imap ix)" and I0: "imap ix w = Some (0, Ent)" using I False by auto
      have nokids: "children og (imap ix) {} w = {}"
        using nd(3) [OF I0] finite_children [OF nd(1)] by simp
      have kids1: "card (children og (imap ix) {} k) = card (children og (imap ?ix1) {} k) + (if parent_in_zone w og = Some k then 1 else 0)" for k
      proof -
        have "children og (imap ?ix1) {} k = children og (imap ix) {w} k" unfolding r(2) by (auto simp: children_def)
        then show ?thesis using card_children [OF nd(1) w, of og k] by simp
      qed
      have fin1: "finite (dom (imap ?ix1))" using nd(1) r(2) by simp
      have closed1: "p \<in> dom (imap ?ix1)" if "x \<in> dom (imap ?ix1)" "parent_in_zone x og = Some p" for x p
      proof -
        have "x \<in> dom (imap ix)" using that(1) r(2) by auto
        then have "p \<in> dom (imap ix)" "p \<noteq> w" using nd(2) [of x p] that(2) nokids by (auto simp: children_def)
        then show ?thesis using r(2) by auto
      qed
      have old: "imap ix k = Some (c, s) \<and> k \<noteq> w" if "imap ?ix1 k = Some (c, s)" for k c s
        using that r(2) by (auto split: if_splits)
      show ?thesis
      proof (cases "parent_in_zone w og")
        case None
        have "nodes_ok og (imap ?ix1)"
          unfolding nodes_but_def
        proof (intro conjI allI impI)
          show "c = card (children og (imap ?ix1) {} k)" if "imap ?ix1 k = Some (c, s)" for k c s
            using nd(3) [of k c s] old [OF that] kids1 [of k] None by simp
          show "k \<in> {} \<or> s \<noteq> Ent \<or> 0 < c" if "imap ?ix1 k = Some (c, s)" for k c s
            using nd(4) [of k c s] old [OF that] by auto
        qed (use fin1 closed1 in auto)
        then show ?thesis using None Some False r I0 by (subst (1 2 3 4) prune.simps) auto
      next
        case (Some p)
        let ?ix2 = "credit p (-1) ?ix1"
        note c = credit_ok [OF r(1), of p "-1"]
        have step: "prune og w ix = prune og p ?ix2"
          using \<open>index_find w ix = Some at\<close> False Some by (subst prune.simps) simp
        have dom2: "dom (imap ?ix2) = dom (imap ?ix1)" unfolding c(2) by (auto split: if_splits)
        have ch2: "children og (imap ?ix2) {} k = children og (imap ?ix1) {} k" for k by (simp add: children_def dom2)
        have "nodes_but og (imap ?ix2) {} {p}"
          unfolding nodes_but_def ch2 dom2
        proof (intro conjI allI impI)
          show "c = card (children og (imap ?ix1) {} k)" if v: "imap ?ix2 k = Some (c, s)" for k c s
          proof (cases "k = p")
            case True
            then obtain c0 where "imap ?ix1 p = Some (c0, s)" "c = c0 - 1"
              using v unfolding c(2) by (cases "imap ?ix1 p") (auto simp: nat_diff_distrib)
            then show ?thesis using nd(3) [of p c0 s] old [of p c0 s] kids1 [of p] Some True by simp
          next
            case False
            then have "imap ?ix1 k = Some (c, s)" using v unfolding c(2) by simp
            then show ?thesis using nd(3) [of k c s] old [of k c s] kids1 [of k] Some False by simp
          qed
          show "k \<in> {p} \<or> s \<noteq> Ent \<or> 0 < c" if v: "imap ?ix2 k = Some (c, s)" for k c s
            using nd(4) [of k c s] old [of k c s] v unfolding c(2) by (cases "k = p") auto
        qed (use fin1 closed1 in auto)
        then have IH: "nindex_ok (prune og p ?ix2) \<and> nodes_ok og (imap (prune og p ?ix2)) \<and>
            (\<forall>k. map_option snd (imap (prune og p ?ix2) k) = map_option snd (imap ?ix2 k) \<or>
              imap (prune og p ?ix2) k = None \<and> map_option snd (imap ?ix2 k) = Some Ent)"
          by (rule less.hyps [OF parent_in_zone_shorter [OF Some] c(1)])
        have snd2: "map_option snd (imap ?ix2 k) = (if k = w then None else map_option snd (imap ix k))" for k
          unfolding c(2) r(2) by (auto simp: option.map_comp comp_def case_prod_beta)
        show ?thesis unfolding step using IH snd2 I0 by (metis option.map_disc_iff option.simps(9) snd_conv)
      qed
    qed
  qed
qed

end
