(* ===== verification/Denial.thy ===== *)
theory Denial
  imports Names Codes
begin

text \<open>
  \<^verbatim>\<open>rdns-present/src/denial_wire.rs\<close>: the encodings denial records are written in. Canonical name
  order and the sort key whose plain order it is meant to be, type bitmaps, and base32hex. A
  comparison of two iterators is \<open>iter_cmp\<close>; the loops over a bitmap recurse on its length.
\<close>

section \<open>The code\<close>

definition NSEC3_HASH_LEN :: nat where "NSEC3_HASH_LEN = 20"

type_synonym nsec3_hash = bytes

definition nsec3_hash_from_wire :: "bytes \<Rightarrow> nsec3_hash option" where
  "nsec3_hash_from_wire bs = (if length bs = NSEC3_HASH_LEN then Some bs else None)"

subsection \<open>Canonical order\<close>

text \<open>\<^verbatim>\<open>std::cmp::Ordering\<close>, and \<^verbatim>\<open>Iterator::cmp\<close> over a comparison of the items.\<close>

datatype ordering = OLess | OEqual | OGreater

fun iter_cmp :: "('a \<Rightarrow> 'a \<Rightarrow> ordering) \<Rightarrow> 'a list \<Rightarrow> 'a list \<Rightarrow> ordering" where
  "iter_cmp c [] [] = OEqual"
| "iter_cmp c [] (_ # _) = OLess"
| "iter_cmp c (_ # _) [] = OGreater"
| "iter_cmp c (a # as) (b # bs) = (case c a b of OEqual \<Rightarrow> iter_cmp c as bs | r \<Rightarrow> r)"

definition byte_cmp :: "byte \<Rightarrow> byte \<Rightarrow> ordering" where
  "byte_cmp a b = (if a < b then OLess else if a = b then OEqual else OGreater)"

definition folded_cmp :: "bytes \<Rightarrow> bytes \<Rightarrow> ordering" where
  "folded_cmp a b = iter_cmp byte_cmp (map to_lower a) (map to_lower b)"

definition reversed_labels :: "name \<Rightarrow> bytes list" where
  "reversed_labels n =
     map (\<lambda>i. case name_labels (name_suffix n i) of [] \<Rightarrow> [] | l # _ \<Rightarrow> l) [1..<Suc (label_count n)]"

definition canonical_name_cmp :: "name \<Rightarrow> name \<Rightarrow> ordering" where
  "canonical_name_cmp a b = iter_cmp folded_cmp (reversed_labels a) (reversed_labels b)"

type_synonym canonical_key = bytes

definition canonical_sort_key :: "name \<Rightarrow> canonical_key" where
  "canonical_sort_key n = concat (map (\<lambda>l. map to_lower l @ [0]) (reversed_labels n))"

subsection \<open>Type bitmaps\<close>

text \<open>A type is a window and a bit in it; bit 0 is the high bit of the first octet.\<close>

definition type_window :: "u16 \<Rightarrow> byte" where
  "type_window t = ucast (drop_bit 8 t)"

definition type_bit :: "u16 \<Rightarrow> nat" where
  "type_bit t = unat (t AND 0xff)"

definition high_bit :: "nat \<Rightarrow> byte" where
  "high_bit i = drop_bit i 0x80"

fun bitmap_has_type :: "bytes \<Rightarrow> u16 \<Rightarrow> bool" where
  "bitmap_has_type (window # l # rest) t =
     (let len = unat l in
      if len = 0 \<or> len > 32 \<or> length rest < len then False
      else if window = type_window t then
        let bits = take len rest; byte = type_bit t div 8 in
        byte < length bits \<and> bits ! byte AND high_bit (type_bit t mod 8) \<noteq> 0
      else bitmap_has_type (drop len rest) t)"
| "bitmap_has_type _ t = False"

definition set_bit_in :: "nat \<Rightarrow> bytes \<Rightarrow> bytes" where
  "set_bit_in n bits =
     (let byte = n div 8;
          bits = (if length bits \<le> byte then bits @ replicate (byte + 1 - length bits) 0 else bits) in
      bits[byte := bits ! byte OR high_bit (n mod 8)])"

fun set_in_window :: "byte \<Rightarrow> nat \<Rightarrow> (byte \<times> bytes) list \<Rightarrow> (byte \<times> bytes) list" where
  "set_in_window w n [] = [(w, set_bit_in n [])]"
| "set_in_window w n ((v, bits) # ws) =
     (if v = w then (v, set_bit_in n bits) # ws else (v, bits) # set_in_window w n ws)"

definition build_type_bitmap :: "u16 list \<Rightarrow> bytes" where
  "build_type_bitmap types =
     (let windows = fold (\<lambda>t. set_in_window (type_window t) (type_bit t)) types [] in
      concat (map (\<lambda>(w, bits). w # of_nat (length bits) # bits) (sort_key fst windows)))"

text \<open>The loop over one octet takes its highest bit first and clears it; then a window, octet by octet.\<close>

definition leading_zeros :: "byte \<Rightarrow> nat" where
  "leading_zeros r = length (takeWhile (\<lambda>i. r AND high_bit i = 0) [0..<8])"

lemma high_bit_push: "i < 8 \<Longrightarrow> high_bit i = push_bit (7 - i) 1"
proof -
  assume "i < 8"
  then consider "i = 0" | "i = 1" | "i = 2" | "i = 3" | "i = 4" | "i = 5" | "i = 6" | "i = 7" by linarith
  then show ?thesis by cases (simp_all add: high_bit_def)
qed

lemma high_bit_bit: "i < 8 \<Longrightarrow> bit (high_bit i) n \<longleftrightarrow> n = 7 - i"
  by (auto simp: high_bit_push bit_simps)

lemma and_high_bit:
  assumes "i < 8"
  shows "(r :: byte) AND high_bit i = 0 \<longleftrightarrow> \<not> bit r (7 - i)"
proof
  assume "r AND high_bit i = 0"
  then have "\<not> bit (r AND high_bit i) (7 - i)" by simp
  then show "\<not> bit r (7 - i)" using assms by (simp add: bit_and_iff high_bit_bit)
next
  assume "\<not> bit r (7 - i)"
  then show "r AND high_bit i = 0" using assms by (intro bit_eqI) (auto simp: bit_and_iff high_bit_bit)
qed

lemma leading_zeros_bit:
  assumes "r \<noteq> 0"
  shows "leading_zeros r < 8" and "bit r (7 - leading_zeros r)"
proof -
  obtain n where n: "bit r n"
  proof (rule ccontr)
    assume "\<not> thesis"
    then have "r = 0" using that by (intro bit_eqI) auto
    with assms show False by simp
  qed
  then have n8: "n < 8" using bit_byte_beyond [of n r] not_le by blast
  let ?P = "\<lambda>i. r AND high_bit i = 0"
  have "\<not> ?P (7 - n)" using n n8 by (simp add: and_high_bit)
  then have "\<not> (\<forall>i \<in> set (rev (rev [0..<8])). ?P i)" using n8 by force
  then have ne: "takeWhile ?P [0..<8] \<noteq> [0..<8]" unfolding takeWhile_eq_all_conv by simp
  have "prefix (takeWhile ?P [0..<8]) [0..<8]" by (rule takeWhile_is_prefix)
  with ne have "strict_prefix (takeWhile ?P [0..<8]) [0..<8]" by (simp add: strict_prefix_def)
  then have "leading_zeros r < length [0..<8 :: nat]" unfolding leading_zeros_def by (rule prefix_length_less)
  then show l: "leading_zeros r < 8" by simp
  have "\<not> ?P ([0..<8] ! leading_zeros r)" using l unfolding leading_zeros_def by (intro nth_length_takeWhile) simp
  then show "bit r (7 - leading_zeros r)" using l by (simp add: and_high_bit)
qed

lemma clear_bit_less:
  assumes "i < 8" and "bit r (7 - i)"
  shows "unat (r AND NOT (high_bit i)) < unat (r :: byte)"
proof -
  have "r AND NOT (high_bit i) \<le> r" by (rule word_and_le2)
  moreover have "\<not> bit (r AND NOT (high_bit i)) (7 - i)" using assms(1) by (simp add: bit_simps high_bit_bit)
  then have "r AND NOT (high_bit i) \<noteq> r" using assms(2) by auto
  ultimately show ?thesis by (metis word_less_nat_alt order_le_neq_trans)
qed

function types_of_octet :: "u16 \<Rightarrow> nat \<Rightarrow> byte \<Rightarrow> u16 list" where
  "types_of_octet window byte remaining =
     (if remaining = 0 then []
      else let n = leading_zeros remaining in
        (push_bit 8 window OR of_nat (byte * 8 + n)) # types_of_octet window byte (remaining AND NOT (high_bit n)))"
  by pat_completeness auto
termination
  by (relation "measure (\<lambda>(_, _, r). unat r)") (simp_all add: clear_bit_less leading_zeros_bit)

declare types_of_octet.simps [simp del]

definition types_of_window :: "byte \<Rightarrow> bytes \<Rightarrow> u16 list" where
  "types_of_window window bits =
     concat (map (\<lambda>(byte, b). types_of_octet (ucast window) byte b) (enumerate 0 bits))"

text \<open>\<open>Inl\<close> holds what was read before the damage.\<close>

fun bitmap_types_exact :: "bytes \<Rightarrow> u16 list \<Rightarrow> u16 list + u16 list" where
  "bitmap_types_exact [] types = Inr types"
| "bitmap_types_exact [_] types = Inl types"
| "bitmap_types_exact (window # l # rest) types =
     (let len = unat l in
      if len = 0 \<or> len > 32 \<or> length rest < len then Inl types
      else bitmap_types_exact (drop len rest) (types @ types_of_window window (take len rest)))"

subsection \<open>base32hex\<close>

definition base32hex_len :: "nat \<Rightarrow> nat" where
  "base32hex_len len = (len * 8 + 4) div 5"

definition BASE32HEX :: bytes where
  "BASE32HEX = [48, 49, 50, 51, 52, 53, 54, 55, 56, 57,
     65, 66, 67, 68, 69, 70, 71, 72, 73, 74, 75, 76, 77, 78, 79, 80, 81, 82, 83, 84, 85, 86]"

definition BASE32HEX_LOWER :: bytes where
  "BASE32HEX_LOWER = [48, 49, 50, 51, 52, 53, 54, 55, 56, 57,
     97, 98, 99, 100, 101, 102, 103, 104, 105, 106, 107, 108, 109, 110, 111, 112, 113, 114, 115, 116, 117, 118]"

definition chunk_chars :: "bytes \<Rightarrow> bytes \<Rightarrow> bytes" where
  "chunk_chars alphabet chunk =
     (let buf = chunk @ replicate (5 - length chunk) 0;
          bits = foldl (\<lambda>acc b. push_bit 8 acc OR ucast b) (0 :: u64) buf in
      map (\<lambda>i. alphabet ! unat (drop_bit (35 - i * 5) bits AND 0x1f)) [0..<base32hex_len (length chunk)])"

function base32hex_chars :: "bytes \<Rightarrow> bytes \<Rightarrow> bytes" where
  "base32hex_chars alphabet data =
     (if data = [] then [] else chunk_chars alphabet (take 5 data) @ base32hex_chars alphabet (drop 5 data))"
  by pat_completeness auto
termination
  by (relation "measure (\<lambda>(_, data). length data)") auto

declare base32hex_chars.simps [simp del]

definition base32hex_encode :: "bytes \<Rightarrow> bytes" where
  "base32hex_encode data = base32hex_chars BASE32HEX data"

definition base32hex_value :: "byte \<Rightarrow> byte option" where
  "base32hex_value c =
     (if 48 \<le> c \<and> c \<le> 57 then Some (c - 48)
      else if 97 \<le> c \<and> c \<le> 118 then Some (c - 97 + 10)
      else if 65 \<le> c \<and> c \<le> 86 then Some (c - 65 + 10)
      else None)"

text \<open>The loop carries the accumulator, the number of bits not yet given out, and the octets given out.\<close>

fun base32hex_loop :: "bytes \<Rightarrow> u64 \<Rightarrow> nat \<Rightarrow> bytes \<Rightarrow> bytes wire_result" where
  "base32hex_loop [] acc bits out = Inr out"
| "base32hex_loop (c # cs) acc bits out =
     (case base32hex_value c of
        None \<Rightarrow> Inl (Malformed ''base32hex text'' ''invalid character'')
      | Some value \<Rightarrow>
          let acc = push_bit 5 acc OR ucast value; bits = bits + 5 in
          if bits \<ge> 8 then base32hex_loop cs acc (bits - 8) (out @ [ucast (drop_bit (bits - 8) acc)])
          else base32hex_loop cs acc bits out)"

definition base32hex_decode :: "bytes \<Rightarrow> bytes wire_result" where
  "base32hex_decode text = base32hex_loop text 0 0 []"

section \<open>Canonical order\<close>

lemma reversed_labels_wire:
  assumes "labels_ok ls" and "length (wire_of ls) \<le> 255"
  shows "reversed_labels (wire_of ls) = rev ls"
proof (rule nth_equalityI)
  fix i assume "i < length (reversed_labels (wire_of ls))"
  then have i: "i < length ls" using assms by (simp add: reversed_labels_def del: upt_Suc)
  have s: "name_suffix (wire_of ls) (Suc i) = wire_of (drop (length ls - Suc i) ls)"
    using assms i name_suffix_correct [of ls "Suc i"] by simp
  have "labels_ok (drop (length ls - Suc i) ls)"
    using assms(1) unfolding labels_ok_def by (auto simp: list_all_iff dest: in_set_dropD)
  then have "name_labels (name_suffix (wire_of ls) (Suc i)) = drop (length ls - Suc i) ls" by (simp add: s)
  moreover have "drop (length ls - Suc i) ls = ls ! (length ls - Suc i) # drop (length ls - i) ls"
    using i Cons_nth_drop_Suc [of "length ls - Suc i" ls] by (simp add: Suc_diff_Suc)
  ultimately show "reversed_labels (wire_of ls) ! i = rev ls ! i"
    using assms i by (simp add: reversed_labels_def rev_nth del: upt_Suc)
qed (use assms in \<open>simp add: reversed_labels_def del: upt_Suc\<close>)

lemma byte_cmp_simps [simp]:
  "byte_cmp a a = OEqual" "byte_cmp a b = OEqual \<longleftrightarrow> a = b"
  "b \<noteq> 0 \<Longrightarrow> byte_cmp 0 b = OLess" "b \<noteq> 0 \<Longrightarrow> byte_cmp b 0 = OGreater"
  by (auto simp: byte_cmp_def word_gt_0)

lemma iter_cmp_equal: "iter_cmp byte_cmp as bs = OEqual \<longleftrightarrow> as = bs"
  by (induction byte_cmp as bs rule: iter_cmp.induct) (auto split: ordering.splits)

text \<open>A terminator below every octet of the labels makes the comparison of the joined labels that of the labels.\<close>

lemma iter_cmp_terminated:
  assumes "0 \<notin> set l" and "0 \<notin> set k"
  shows "iter_cmp byte_cmp (l @ 0 # as) (k @ 0 # bs) =
    (case iter_cmp byte_cmp l k of OEqual \<Rightarrow> iter_cmp byte_cmp as bs | r \<Rightarrow> r)"
  using assms
proof (induction byte_cmp l k rule: iter_cmp.induct)
  case (4 a l b k)
  then show ?case by (cases "byte_cmp a b") simp_all
qed (auto split: ordering.splits)

lemma iter_cmp_joined:
  assumes "\<forall>l \<in> set ls. 0 \<notin> set l" and "\<forall>k \<in> set ks. 0 \<notin> set k"
  shows "iter_cmp byte_cmp (concat (map (\<lambda>l. map to_lower l @ [0]) ls)) (concat (map (\<lambda>l. map to_lower l @ [0]) ks)) =
    iter_cmp folded_cmp ls ks"
  using assms
proof (induction folded_cmp ls ks rule: iter_cmp.induct)
  case (2 k ks)
  then show ?case by (cases k) simp_all
next
  case (3 l ls)
  then show ?case by (cases l) simp_all
next
  case (4 l ls k ks)
  have z: "0 \<notin> to_lower ` set (x :: bytes)" if "0 \<notin> set x" for x
  proof
    assume "0 \<in> to_lower ` set x"
    then obtain b where "b \<in> set x" "to_lower b = 0" by auto
    then show False using that to_lower_eq_small [of 0 b] by auto
  qed
  have "iter_cmp byte_cmp (map to_lower l @ 0 # as) (map to_lower k @ 0 # bs) =
      (case folded_cmp l k of OEqual \<Rightarrow> iter_cmp byte_cmp as bs | r \<Rightarrow> r)" for as bs
    unfolding folded_cmp_def using 4 by (intro iter_cmp_terminated) (auto simp: z)
  with 4 show ?case by (cases "folded_cmp l k") simp_all
qed simp

lemma canonical_sort_key_wire:
  assumes "labels_ok ls" and "length (wire_of ls) \<le> 255"
  shows "canonical_sort_key (wire_of ls) = concat (map (\<lambda>l. map to_lower l @ [0]) (rev ls))"
  by (simp add: canonical_sort_key_def reversed_labels_wire [OF assms])

subsection \<open>RFC 4034, section 6.1\<close>

text \<open>
  The order of the RFC on lists of labels, leftmost label first: the names are compared label by label
  from the right, upper-case letters as lower-case ones, each label as an octet string in which an
  absent octet comes before any other. \<open>lexord\<close> is the library's dictionary order.
\<close>

definition octets_before :: "(bytes \<times> bytes) set" where
  "octets_before = lexord {(x, y). x < y}"

definition canonical_before :: "bytes list \<Rightarrow> bytes list \<Rightarrow> bool" where
  "canonical_before ls ks \<longleftrightarrow> (rev (map lower ls), rev (map lower ks)) \<in> lexord octets_before"

text \<open>What a comparison promises, and that comparing lists item by item promises it too.\<close>

locale comparison =
  fixes cmp :: "'a \<Rightarrow> 'a \<Rightarrow> ordering"
  assumes equal: "cmp x y = OEqual \<longleftrightarrow> x = y"
    and flip: "cmp x y = OGreater \<longleftrightarrow> cmp y x = OLess"
begin

lemma iter_equal: "iter_cmp cmp xs ys = OEqual \<longleftrightarrow> xs = ys"
proof (induction xs ys rule: list_induct2')
  case (4 a as b bs)
  then show ?case using equal [of a b] by (cases "cmp a b") auto
qed simp_all

lemma iter_less: "iter_cmp cmp xs ys = OLess \<longleftrightarrow> (xs, ys) \<in> lexord {(x, y). cmp x y = OLess}"
proof (induction xs ys rule: list_induct2')
  case (4 a as b bs)
  then show ?case using equal [of a b] by (cases "cmp a b") auto
qed simp_all

lemma iter_greater: "iter_cmp cmp xs ys = OGreater \<longleftrightarrow> iter_cmp cmp ys xs = OLess"
proof (induction xs ys rule: list_induct2')
  case (4 a as b bs)
  have "cmp b a = OLess \<longleftrightarrow> cmp a b = OGreater" "cmp b a = OEqual \<longleftrightarrow> cmp a b = OEqual" using flip [of a b] equal by auto
  then show ?case using 4 by (cases "cmp a b"; cases "cmp b a") auto
qed simp_all

lemma iter_comparison: "comparison (iter_cmp cmp)"
  by unfold_locales (rule iter_equal, rule iter_greater)

end

interpretation octet: comparison byte_cmp
  by unfold_locales (auto simp: byte_cmp_def)

interpretation octet_string: comparison "iter_cmp byte_cmp"
  by (rule octet.iter_comparison)

lemma folded_cmp_labels: "iter_cmp folded_cmp ls ks = iter_cmp (iter_cmp byte_cmp) (map lower ls) (map lower ks)"
  by (induction folded_cmp ls ks rule: iter_cmp.induct) (simp_all add: folded_cmp_def lower_def split: ordering.split)

lemma octet_string_before: "{(l, k). iter_cmp byte_cmp l k = OLess} = octets_before"
  unfolding octets_before_def octet.iter_less by (auto simp: byte_cmp_def intro!: arg_cong [of _ _ lexord])

lemma canonical_labels:
  "iter_cmp folded_cmp (rev ls) (rev ks) = OLess \<longleftrightarrow> canonical_before ls ks"
  "iter_cmp folded_cmp (rev ls) (rev ks) = OGreater \<longleftrightarrow> canonical_before ks ls"
  "iter_cmp folded_cmp (rev ls) (rev ks) = OEqual \<longleftrightarrow> map lower ls = map lower ks"
  unfolding folded_cmp_labels canonical_before_def octet_string.iter_greater octet_string.iter_less octet_string.iter_equal octet_string_before
  by (simp_all add: rev_map [symmetric])

text \<open>
  C24. Names are ordered as RFC 4034 section 6.1 has it, by labels from the right, without case, each
  an octet string. \<^verbatim>\<open>canonical_name_cmp\<close> decides that order on all names; comparing the sort keys a
  zone's NSEC chain is kept under, octet by octet, decides it on names whose labels hold no zero octet.
\<close>

theorem canonical_sort_key_order:
  assumes "labels_ok ls" and "length (wire_of ls) \<le> 255" and "labels_ok ks" and "length (wire_of ks) \<le> 255"
  defines "c \<equiv> canonical_name_cmp (wire_of ls) (wire_of ks)"
  shows "(c = OLess \<longleftrightarrow> canonical_before ls ks) \<and> (c = OGreater \<longleftrightarrow> canonical_before ks ls) \<and>
    (c = OEqual \<longleftrightarrow> map lower ls = map lower ks) \<and>
    ((\<forall>l \<in> set ls \<union> set ks. 0 \<notin> set l) \<longrightarrow>
      iter_cmp byte_cmp (canonical_sort_key (wire_of ls)) (canonical_sort_key (wire_of ks)) = c)"
proof -
  have "c = iter_cmp folded_cmp (rev ls) (rev ks)"
    using assms(1-4) by (simp add: c_def canonical_name_cmp_def reversed_labels_wire)
  moreover have "iter_cmp byte_cmp (canonical_sort_key (wire_of ls)) (canonical_sort_key (wire_of ks)) = c" if "\<forall>l \<in> set ls \<union> set ks. 0 \<notin> set l"
    using assms(1-4) that by (simp add: c_def canonical_sort_key_wire canonical_name_cmp_def reversed_labels_wire iter_cmp_joined)
  ultimately show ?thesis by (simp add: canonical_labels)
qed

theorem canonical_sort_key_order_witness:
  "canonical_before [[98]] [[97], [122]] \<and> canonical_name_cmp (wire_of [[97], [122]]) (wire_of [[98]]) = OGreater \<and>
   iter_cmp byte_cmp (canonical_sort_key (wire_of [[97], [122]])) (canonical_sort_key (wire_of [[98]])) = OGreater"
proof -
  have ok: "labels_ok [[97], [122]]" "labels_ok [[98]]" "length (wire_of [[97], [122]]) \<le> 255" "length (wire_of [[98]]) \<le> 255"
    by (simp_all add: label_ok_def)
  have "canonical_before [[98]] [[97], [122]]"
    by (simp add: canonical_before_def octets_before_def lower_def to_lower_def is_upper_def word_le_nat_alt word_less_nat_alt)
  then show ?thesis using canonical_sort_key_order [OF ok(1,3,2,4)] by (simp del: wire_of_simps)
qed

text \<open>
  A label that holds a zero octet breaks the key: the one label \<^verbatim>\<open>a\000b\<close> and the two labels
  \<^verbatim>\<open>b.a\<close> are different names with the same sort key.
\<close>

theorem canonical_sort_key_zero_octet:
  "wf_name [3, 97, 0, 98, 0] \<and> wf_name [1, 98, 1, 97, 0] \<and>
   canonical_name_cmp [3, 97, 0, 98, 0] [1, 98, 1, 97, 0] \<noteq> OEqual \<and>
   canonical_sort_key [3, 97, 0, 98, 0] = canonical_sort_key [1, 98, 1, 97, 0]"
proof -
  let ?a = "[[97, 0, 98]] :: bytes list" and ?b = "[[98], [97]] :: bytes list"
  have ok: "labels_ok ?a" "labels_ok ?b" by (simp_all add: label_ok_def)
  have w: "wire_of ?a = [3, 97, 0, 98, 0]" "wire_of ?b = [1, 98, 1, 97, 0]" by simp_all
  have "canonical_sort_key (wire_of ?a) = canonical_sort_key (wire_of ?b)"
    by (subst (1 2) canonical_sort_key_wire) (use ok in \<open>simp_all add: to_lower_def is_upper_def word_le_nat_alt\<close>)
  moreover have "canonical_name_cmp (wire_of ?a) (wire_of ?b) \<noteq> OEqual"
    unfolding canonical_name_cmp_def
    by (subst (1 2) reversed_labels_wire)
      (use ok in \<open>simp_all add: folded_cmp_def to_lower_def is_upper_def word_le_nat_alt byte_cmp_def\<close>)
  ultimately show ?thesis using ok wf_name_wire_of [of ?a] wf_name_wire_of [of ?b] by simp
qed

section \<open>Type bitmaps\<close>

text \<open>A type as the number of its window and its bit there.\<close>

definition type_of :: "byte \<Rightarrow> nat \<Rightarrow> u16" where
  "type_of w n = push_bit 8 (ucast w) OR of_nat n"

definition bit_in :: "bytes \<Rightarrow> nat \<Rightarrow> bool" where
  "bit_in bits n \<longleftrightarrow> n div 8 < length bits \<and> bit (bits ! (n div 8)) (7 - n mod 8)"

lemma unat_type_of:
  assumes "n < 256"
  shows "unat (type_of w n) = 256 * unat w + n"
proof -
  have "push_bit 8 (ucast w :: u16) AND of_nat n = 0"
  proof (rule bit_eqI)
    fix m
    have "\<not> bit n m" if "8 \<le> m"
    proof -
      have "n < 2 ^ m" using assms power_increasing [OF that, of "2 :: nat"] by simp
      then show ?thesis by (simp add: bit_iff_odd)
    qed
    then show "bit (push_bit 8 (ucast w) AND of_nat n :: u16) m = bit (0 :: u16) m"
      by (auto simp: bit_simps)
  qed
  then have "type_of w n = push_bit 8 (ucast w) + of_nat n"
    by (simp add: type_of_def disjunctive_add_eq_or)
  moreover have "unat (push_bit 8 (ucast w :: u16)) = 256 * unat w"
    using unat_byte_less [of w] by (simp add: push_bit_eq_mult unat_word_ariths unsigned_ucast_eq take_bit_eq_mod)
  ultimately show ?thesis
    using assms unat_byte_less [of w] by (simp add: unat_word_ariths unat_of_nat)
qed

lemma type_parts:
  "unat (type_window t) = unat t div 256" "type_bit t = unat t mod 256" "type_bit t < 256"
proof -
  show "unat (type_window t) = unat t div 256"
    using unat_u16_less [of t] by (simp add: type_window_def unsigned_ucast_eq take_bit_eq_mod drop_bit_eq_div unat_div_distrib)
  have "t AND 0xff = take_bit 8 t" by (simp add: take_bit_eq_mask mask_eq_exp_minus_1)
  then show "type_bit t = unat t mod 256"
    unfolding type_bit_def by (simp only: unsigned_take_bit_eq) (simp add: take_bit_eq_mod)
  then show "type_bit t < 256" by simp
qed

lemma type_of_parts [simp]: "type_of (type_window t) (type_bit t) = t"
  using unat_type_of [of "type_bit t" "type_window t"] type_parts [of t]
  by (metis mult_div_mod_eq unsigned_word_eqI)

lemma type_of_eq: "n < 256 \<Longrightarrow> t = type_of w n \<longleftrightarrow> w = type_window t \<and> n = type_bit t"
proof
  assume n: "n < 256" and t: "t = type_of w n"
  have u: "unat t = 256 * unat w + n" unfolding t by (rule unat_type_of [OF n])
  have "unat (type_window t) = unat w" "type_bit t = n" using n unfolding type_parts u by simp_all
  then show "w = type_window t \<and> n = type_bit t" by (metis unsigned_word_eqI)
qed auto

subsection \<open>Setting bits\<close>

lemma length_set_bit_in: "length (set_bit_in n bits) = max (length bits) (n div 8 + 1)"
  by (simp add: set_bit_in_def Let_def max_def)

lemma bit_in_set: "bit_in (set_bit_in m bits) n \<longleftrightarrow> bit_in bits n \<or> n = m"
proof -
  let ?bits = "if length bits \<le> m div 8 then bits @ replicate (m div 8 + 1 - length bits) 0 else bits"
  have len: "m div 8 < length ?bits" by simp
  have pad: "n div 8 < length ?bits \<and> bit (?bits ! (n div 8)) k \<longleftrightarrow> n div 8 < length bits \<and> bit (bits ! (n div 8)) k" for k
    by (auto simp: nth_append)
  have "n = m \<longleftrightarrow> n div 8 = m div 8 \<and> 7 - n mod 8 = 7 - m mod 8"
  proof
    assume "n div 8 = m div 8 \<and> 7 - n mod 8 = 7 - m mod 8"
    moreover have "n mod 8 < 8" "m mod 8 < 8" by simp_all
    ultimately have "n div 8 = m div 8" "n mod 8 = m mod 8" by linarith+
    then show "n = m" by (metis mult_div_mod_eq)
  qed simp
  then show ?thesis
    using len pad [of "7 - n mod 8"]
    unfolding bit_in_def set_bit_in_def Let_def
    by (auto simp: nth_list_update bit_or_iff high_bit_bit simp del: replicate_Suc split: if_splits)
qed

definition windows_ok :: "(byte \<times> bytes) list \<Rightarrow> bool" where
  "windows_ok ws \<longleftrightarrow> distinct (map fst ws) \<and> (\<forall>(w, bits) \<in> set ws. bits \<noteq> [] \<and> length bits \<le> 32)"

definition in_windows :: "(byte \<times> bytes) list \<Rightarrow> u16 \<Rightarrow> bool" where
  "in_windows ws t \<longleftrightarrow> (\<exists>bits. (type_window t, bits) \<in> set ws \<and> bit_in bits (type_bit t))"

lemma set_in_window_fst: "fst ` set (set_in_window w n ws) = insert w (fst ` set ws)"
proof (induction ws)
  case (Cons x ws)
  then show ?case by (cases x) (simp add: insert_commute)
qed simp

lemma set_in_window_ok:
  assumes "windows_ok ws" and "n < 256"
  shows "windows_ok (set_in_window w n ws)"
  using assms(1)
proof (induction ws)
  case Nil
  have "length (set_bit_in n []) = n div 8 + 1" by (simp add: length_set_bit_in)
  then show ?case using assms(2) by (auto simp: windows_ok_def)
next
  case (Cons x ws)
  obtain v bits where x: "x = (v, bits)" by fastforce
  have "length (set_bit_in n bits) = max (length bits) (n div 8 + 1)" by (rule length_set_bit_in)
  then show ?case
    using Cons assms(2) set_in_window_fst [of w n ws]
    by (auto simp: windows_ok_def x image_iff)
qed

lemma in_windows_set:
  assumes "windows_ok ws" and "n < 256"
  shows "in_windows (set_in_window w n ws) t \<longleftrightarrow> in_windows ws t \<or> t = type_of w n"
  unfolding type_of_eq [OF assms(2)]
  using assms(1)
proof (induction ws)
  case Nil
  have "bit_in (set_bit_in n []) m \<longleftrightarrow> m = n" for m by (simp add: bit_in_set) (simp add: bit_in_def)
  then show ?case by (auto simp: in_windows_def)
next
  case (Cons x ws)
  obtain v bits where x: "x = (v, bits)" by fastforce
  have ok: "windows_ok ws" and new: "v \<notin> fst ` set ws" using Cons.prems by (auto simp: windows_ok_def x)
  have split: "in_windows ((u, b) # ws') t \<longleftrightarrow> (u = type_window t \<and> bit_in b (type_bit t)) \<or> in_windows ws' t" for u b ws'
    by (auto simp: in_windows_def)
  show ?case
    using Cons.IH [OF ok] by (auto simp: x split bit_in_set)
qed

lemma windows_fold:
  "windows_ok ws \<Longrightarrow> windows_ok (fold (\<lambda>t. set_in_window (type_window t) (type_bit t)) ts ws) \<and>
   (in_windows (fold (\<lambda>t. set_in_window (type_window t) (type_bit t)) ts ws) t \<longleftrightarrow> in_windows ws t \<or> t \<in> set ts)"
proof (induction ts arbitrary: ws)
  case (Cons u ts)
  note ok = set_in_window_ok [OF Cons.prems type_parts(3) [of u]]
  show ?case
    using Cons.IH [OF ok [of "type_window u"]] in_windows_set [OF Cons.prems type_parts(3) [of u], of "type_window u" t] by auto
qed simp

lemma windows_sorted:
  assumes "windows_ok ws"
  shows "windows_ok (sort_key fst ws)" and "in_windows (sort_key fst ws) t \<longleftrightarrow> in_windows ws t"
    and "sorted_wrt (<) (map fst (sort_key fst ws))"
proof -
  have d: "distinct (map fst (sort_key fst ws))"
    using assms by (simp add: windows_ok_def distinct_map)
  with assms show "windows_ok (sort_key fst ws)" by (simp add: windows_ok_def)
  show "in_windows (sort_key fst ws) t \<longleftrightarrow> in_windows ws t" by (simp add: in_windows_def)
  show "sorted_wrt (<) (map fst (sort_key fst ws))" using d by (simp add: strict_sorted_iff)
qed

subsection \<open>Reading a bitmap\<close>

abbreviation windows_wire :: "(byte \<times> bytes) list \<Rightarrow> bytes" where
  "windows_wire ws \<equiv> concat (map (\<lambda>(w, bits). w # of_nat (length bits) # bits) ws)"

lemma unat_window_len: "windows_ok ((w, bits) # ws) \<Longrightarrow> unat (of_nat (length bits) :: byte) = length bits \<and> length bits \<le> 32 \<and> bits \<noteq> []"
  by (auto simp: windows_ok_def unat_of_nat_byte)

lemma bitmap_has_type_windows: "windows_ok ws \<Longrightarrow> bitmap_has_type (windows_wire ws) t \<longleftrightarrow> in_windows ws t"
proof (induction ws)
  case (Cons x ws)
  obtain w bits where x: "x = (w, bits)" by fastforce
  note len = unat_window_len [OF Cons.prems [unfolded x]]
  have ok: "windows_ok ws" and new: "w \<notin> fst ` set ws" using Cons.prems by (auto simp: windows_ok_def x)
  have "(type_window t, b) \<notin> set ws" if "w = type_window t" for b using that new by force
  then have "in_windows (x # ws) t \<longleftrightarrow> (if w = type_window t then bit_in bits (type_bit t) else in_windows ws t)"
    by (auto simp: in_windows_def x)
  then show ?case using len Cons.IH [OF ok] by (auto simp: x Let_def bit_in_def and_high_bit)
qed (simp add: in_windows_def)

lemma types_of_octet_filter:
  "types_of_octet w byte r = map (\<lambda>i. push_bit 8 w OR of_nat (byte * 8 + i)) (filter (\<lambda>i. bit r (7 - i)) [0..<8])"
proof (induction w byte r rule: types_of_octet.induct)
  case (1 w byte r)
  show ?case
  proof (cases "r = 0")
    case False
    let ?n = "leading_zeros r"
    note n = leading_zeros_bit [OF False]
    have up: "[0..<8] = [0..<?n] @ ?n # [Suc ?n..<8]"
      using n(1) by (metis upt_add_eq_append upt_conv_Cons le_add1 less_imp_le_nat le_add_diff_inverse zero_le)
    have low: "\<not> bit r (7 - i)" if "i < ?n" for i
    proof -
      have "i \<in> set (take ?n [0..<8])" using that n(1) by simp
      then have "i \<in> set (takeWhile (\<lambda>i. r AND high_bit i = 0) [0..<8])"
        unfolding leading_zeros_def by (simp add: takeWhile_eq_take [symmetric])
      then show ?thesis using that n(1) by (auto dest!: set_takeWhileD simp: and_high_bit)
    qed
    let ?r = "r AND NOT (high_bit ?n)"
    have b: "bit ?r (7 - i) \<longleftrightarrow> bit r (7 - i) \<and> i \<noteq> ?n" if "i < 8" for i
    proof -
      have "7 - i = 7 - ?n \<longleftrightarrow> i = ?n" using that n(1) by linarith
      then show ?thesis by (auto simp: bit_simps high_bit_bit [OF n(1)])
    qed
    have "filter (\<lambda>i. bit r (7 - i)) [0..<8] = ?n # filter (\<lambda>i. bit r (7 - i)) [Suc ?n..<8]"
      using n low unfolding up by (simp add: filter_False)
    moreover have "filter (\<lambda>i. bit ?r (7 - i)) [0..<8] = filter (\<lambda>i. bit r (7 - i)) [Suc ?n..<8]"
    proof -
      have "filter (\<lambda>i. bit ?r (7 - i)) [0..<8] = filter (\<lambda>i. bit r (7 - i) \<and> i \<noteq> ?n) [0..<8]"
        by (rule filter_cong [OF refl]) (simp add: b)
      also have "\<dots> = filter (\<lambda>i. bit r (7 - i)) [Suc ?n..<8]"
        unfolding up by (auto simp: low filter_empty_conv intro: filter_cong)
      finally show ?thesis .
    qed
    ultimately show ?thesis
      using "1.IH" [OF False refl] False by (subst types_of_octet.simps) (simp add: Let_def)
  qed (simp add: types_of_octet.simps)
qed

lemma types_of_window_filter:
  "types_of_window w bits = map (type_of w) (filter (bit_in bits) [0..<8 * length bits])"
proof (induction bits rule: rev_induct)
  case (snoc b bits)
  let ?k = "length bits"
  have up: "[0..<8 * length (bits @ [b])] = [0..<8 * ?k] @ map (\<lambda>i. 8 * ?k + i) [0..<8]"
    using map_add_upt [of "8 * ?k" 8] upt_add_eq_append [of 0 "8 * ?k" 8] by (simp add: add.commute)
  have lo: "bit_in (bits @ [b]) n \<longleftrightarrow> bit_in bits n" if "n < 8 * ?k" for n
    using that by (simp add: bit_in_def nth_append less_mult_imp_div_less mult.commute)
  have hi: "bit_in (bits @ [b]) (8 * ?k + i) \<longleftrightarrow> bit b (7 - i)" if "i < 8" for i
    using that by (simp add: bit_in_def)
  have "filter (bit_in (bits @ [b])) [0..<8 * length (bits @ [b])] =
      filter (bit_in bits) [0..<8 * ?k] @ map (\<lambda>i. 8 * ?k + i) (filter (\<lambda>i. bit b (7 - i)) [0..<8])"
    unfolding up filter_append filter_map o_def
    by (intro arg_cong2 [where f = append] arg_cong [where f = "map _"] filter_cong refl) (simp_all add: lo hi)
  then show ?case
    using snoc by (simp add: types_of_window_def enumerate_append_eq types_of_octet_filter type_of_def [abs_def] mult.commute comp_def)
qed (simp add: types_of_window_def)

lemma bitmap_types_windows:
  "windows_ok ws \<Longrightarrow> bitmap_types_exact (windows_wire ws) acc = Inr (acc @ concat (map (\<lambda>(w, bits). types_of_window w bits) ws))"
proof (induction ws arbitrary: acc)
  case (Cons x ws)
  obtain w bits where x: "x = (w, bits)" by fastforce
  note len = unat_window_len [OF Cons.prems [unfolded x]]
  have ok: "windows_ok ws" using Cons.prems by (auto simp: windows_ok_def)
  show ?case using len Cons.IH [OF ok] by (simp add: x Let_def)
qed simp

lemma types_of_window_sorted:
  assumes "length bits \<le> 32"
  shows "sorted_wrt (<) (types_of_window w bits)"
    and "t \<in> set (types_of_window w bits) \<longleftrightarrow> type_window t = w \<and> bit_in bits (type_bit t)"
proof -
  have n: "n < 256" if "n < 8 * length bits" for n using that assms by simp
  have "sorted_wrt (<) (filter (bit_in bits) [0..<8 * length bits])" by (intro sorted_wrt_filter) simp
  then show "sorted_wrt (<) (types_of_window w bits)"
    unfolding types_of_window_filter sorted_wrt_map
    by (rule sorted_wrt_mono_rel [rotated]) (use n in \<open>auto simp: word_less_nat_alt unat_type_of\<close>)
  have "bit_in bits m \<Longrightarrow> m < 8 * length bits" for m by (auto simp: bit_in_def less_mult_imp_div_less)
  then show "t \<in> set (types_of_window w bits) \<longleftrightarrow> type_window t = w \<and> bit_in bits (type_bit t)"
    unfolding types_of_window_filter using n type_of_eq [of _ t w] by (auto simp: image_iff)
qed

lemma windows_types_sorted:
  assumes "windows_ok ws" and "sorted_wrt (<) (map fst ws)"
  shows "sorted_wrt (<) (concat (map (\<lambda>(w, bits). types_of_window w bits) ws))"
    and "t \<in> set (concat (map (\<lambda>(w, bits). types_of_window w bits) ws)) \<longleftrightarrow> in_windows ws t"
proof -
  have m: "t \<in> set (types_of_window w bits) \<longleftrightarrow> type_window t = w \<and> bit_in bits (type_bit t)"
    if "(w, bits) \<in> set ws" for w bits t
    using that assms(1) by (intro types_of_window_sorted) (auto simp: windows_ok_def)
  show "t \<in> set (concat (map (\<lambda>(w, bits). types_of_window w bits) ws)) \<longleftrightarrow> in_windows ws t"
  proof -
    have "t \<in> set (concat (map (\<lambda>(w, bits). types_of_window w bits) ws)) \<longleftrightarrow>
        (\<exists>w bits. (w, bits) \<in> set ws \<and> t \<in> set (types_of_window w bits))"
      by (auto simp: image_iff)
    also have "\<dots> \<longleftrightarrow> (\<exists>w bits. (w, bits) \<in> set ws \<and> type_window t = w \<and> bit_in bits (type_bit t))"
      using m by blast
    finally show ?thesis by (simp add: in_windows_def)
  qed
  show "sorted_wrt (<) (concat (map (\<lambda>(w, bits). types_of_window w bits) ws))"
    using assms m
  proof (induction ws)
    case (Cons x ws)
    obtain w bits where x: "x = (w, bits)" by fastforce
    have "sorted_wrt (<) (types_of_window w bits)"
      using Cons.prems(1) by (intro types_of_window_sorted) (auto simp: windows_ok_def x)
    moreover have "a < b" if a: "a \<in> set (types_of_window w bits)" and y: "y \<in> set ws" "b \<in> set (types_of_window (fst y) (snd y))" for a b y
    proof -
      have "type_window a = w" "type_window b = fst y" using Cons.prems(3) a y by (auto simp: x)
      moreover have "w < fst y" using Cons.prems(2) y by (auto simp: x)
      ultimately have "unat a div 256 < unat b div 256"
        by (simp add: type_parts(1) [symmetric] word_less_nat_alt)
      then show ?thesis unfolding word_less_nat_alt by (metis div_le_mono not_le)
    qed
    ultimately show ?case using Cons by (auto simp: x sorted_wrt_append windows_ok_def)
  qed simp
qed

text \<open>
  The type bitmap built for a list of types holds exactly those types: each is found, no other
  is, and reading the whole bitmap back succeeds and gives them in ascending order, each once.
\<close>

theorem type_bitmap_round_trip:
  "(bitmap_has_type (build_type_bitmap ts) t \<longleftrightarrow> t \<in> set ts) \<and>
   (\<exists>us. bitmap_types_exact (build_type_bitmap ts) [] = Inr us \<and> set us = set ts \<and> sorted_wrt (<) us)"
proof -
  let ?ws = "fold (\<lambda>t. set_in_window (type_window t) (type_bit t)) ts []"
  let ?ss = "sort_key fst ?ws"
  have nil: "windows_ok []" by (simp add: windows_ok_def)
  have ok: "windows_ok ?ws" and mem: "in_windows ?ws u \<longleftrightarrow> u \<in> set ts" for u
    using windows_fold [OF nil] by (auto simp: in_windows_def)
  have b: "build_type_bitmap ts = windows_wire ?ss" by (simp add: build_type_bitmap_def)
  note s = windows_sorted [OF ok]
  show ?thesis
    unfolding b bitmap_has_type_windows [OF s(1)] bitmap_types_windows [OF s(1)]
    using windows_types_sorted [OF s(1,3)] s(2) mem by auto
qed

end
