(* ===== verification/Zone.thy ===== *)
theory Zone
  imports ZoneIndex Denial Wire "HOL-Library.AList" "HOL-Library.Multiset"
begin

text \<open>
  \<^verbatim>\<open>rdns/src/zone.rs\<close>: one zone in memory. Owner names and RDATA live in two arenas, a stored record
  is two spans and two scalars, and the name index, the chains of denial records and the shortcuts
  are derived. \<open>zone_recs\<close> is the list of records a zone stands for; \<open>zone_ok\<close> is what every
  operation keeps. A panic is \<open>None\<close>: an arena past 4 GiB, a position out of range, an index that
  disagrees with the records. A \<^verbatim>\<open>BTreeMap\<close> is an association list without order, from which the
  greatest key below a bound is picked.
\<close>

section \<open>The code\<close>

record zone_record =
  zr_name :: name
  zr_ttl :: ttl
  zr_class :: dclass
  zr_rdata :: record_data

record stored =
  sr_name :: name_span
  sr_ttl :: ttl
  sr_class :: dclass
  sr_rdata :: rdata_span

record shortcuts =
  sc_wildcards :: bool
  sc_delegations :: bool
  sc_dnames :: bool

definition shortcuts_default :: shortcuts where
  "shortcuts_default = \<lparr>sc_wildcards = False, sc_delegations = False, sc_dnames = False\<rparr>"

definition shortcuts_note :: "bytes \<Rightarrow> rtype \<Rightarrow> bool \<Rightarrow> shortcuts \<Rightarrow> shortcuts" where
  "shortcuts_note key t at_apex s =
     \<lparr>sc_wildcards = (sc_wildcards s \<or> take 2 key = [1, 42]),
      sc_delegations = (sc_delegations s \<or> t = rt_NS \<and> \<not> at_apex),
      sc_dnames = (sc_dnames s \<or> t = rt_DNAME)\<rparr>"

record zone =
  z_origin :: name
  z_records :: "stored list"
  z_names :: bytes
  z_rdata :: bytes
  z_index :: name_index
  z_spills :: "nat list list"
  z_removed :: nat
  z_nsec :: "(canonical_key \<times> nat) list"
  z_nsec3 :: "(nsec3_hash \<times> nat) list"
  z_shortcuts :: shortcuts

definition zone_new :: "name \<Rightarrow> zone" where
  "zone_new origin =
     \<lparr>z_origin = origin, z_records = [], z_names = [], z_rdata = [], z_index = name_index_default, z_spills = [],
      z_removed = 0, z_nsec = [], z_nsec3 = [], z_shortcuts = shortcuts_default\<rparr>"

definition record_of :: "bytes \<Rightarrow> bytes \<Rightarrow> stored \<Rightarrow> zone_record" where
  "record_of names rdata s =
     \<lparr>zr_name = arena_get names (sr_name s), zr_ttl = sr_ttl s, zr_class = sr_class s, zr_rdata = rdata_arena_get rdata (sr_rdata s)\<rparr>"

text \<open>\<^verbatim>\<open>Zone::record\<close>, for a position the zone holds, and all of them.\<close>

definition zone_record_at :: "zone \<Rightarrow> nat \<Rightarrow> zone_record" where
  "zone_record_at z at = record_of (z_names z) (z_rdata z) (z_records z ! at)"

definition zone_recs :: "zone \<Rightarrow> zone_record list" where
  "zone_recs z = map (record_of (z_names z) (z_rdata z)) (z_records z)"

definition origin_key :: "zone \<Rightarrow> bytes" where
  "origin_key z = folded (z_origin z)"

datatype chain_key = CkNsec canonical_key | CkNsec3 nsec3_hash

text \<open>A label that is not UTF-8 does not decode as base32hex either.\<close>

definition chain_key_of :: "name \<Rightarrow> rtype \<Rightarrow> chain_key option" where
  "chain_key_of n t =
     (if t = rt_NSEC then Some (CkNsec (canonical_sort_key n))
      else if t = rt_NSEC3 then
        (case name_labels n of
           [] \<Rightarrow> None
         | label # _ \<Rightarrow>
             (case base32hex_decode label of
                Inl _ \<Rightarrow> None
              | Inr decoded \<Rightarrow> map_option CkNsec3 (nsec3_hash_from_wire decoded)))
      else None)"

definition chain_insert :: "chain_key option \<Rightarrow> nat \<Rightarrow> zone \<Rightarrow> zone" where
  "chain_insert k position z =
     (case k of
        Some (CkNsec k) \<Rightarrow> z\<lparr>z_nsec := AList.update k position (z_nsec z)\<rparr>
      | Some (CkNsec3 k) \<Rightarrow> z\<lparr>z_nsec3 := AList.update k position (z_nsec3 z)\<rparr>
      | None \<Rightarrow> z)"

definition chain_remove :: "chain_key option \<Rightarrow> zone \<Rightarrow> zone" where
  "chain_remove k z =
     (case k of
        Some (CkNsec k) \<Rightarrow> z\<lparr>z_nsec := AList.delete k (z_nsec z)\<rparr>
      | Some (CkNsec3 k) \<Rightarrow> z\<lparr>z_nsec3 := AList.delete k (z_nsec3 z)\<rparr>
      | None \<Rightarrow> z)"

subsection \<open>Adding\<close>

definition take_in :: "name \<Rightarrow> ttl \<Rightarrow> dclass \<Rightarrow> rdata_span \<Rightarrow> zone \<Rightarrow> zone option" where
  "take_in n t c rdata z =
     (let key = folded n; position = length (z_records z); og = folded (z_origin z); at_apex = (key = og);
          z = z\<lparr>z_shortcuts := shortcuts_note key (rs_type rdata) at_apex (z_shortcuts z)\<rparr>;
          (ix, spills) = enter og key position (z_index z, z_spills z);
          z = z\<lparr>z_index := ix, z_spills := spills\<rparr>;
          z = chain_insert (chain_key_of n (rs_type rdata)) position z in
      case arena_push (z_names z) n of
        None \<Rightarrow> None
      | Some (names, span) \<Rightarrow>
          Some (z\<lparr>z_names := names,
            z_records := z_records z @ [\<lparr>sr_name = span, sr_ttl = t, sr_class = c, sr_rdata = rdata\<rparr>]\<rparr>))"

definition zone_add :: "zone_record \<Rightarrow> zone \<Rightarrow> zone option" where
  "zone_add r z =
     (case rdata_arena_push (zr_rdata r) (z_rdata z) of
        None \<Rightarrow> None
      | Some (rdata, octs) \<Rightarrow> take_in (zr_name r) (zr_ttl r) (zr_class r) rdata (z\<lparr>z_rdata := octs\<rparr>))"

definition zone_add_parsed :: "name \<Rightarrow> ttl \<Rightarrow> dclass \<Rightarrow> parsed_record \<Rightarrow> zone \<Rightarrow> (unit wire_result \<times> zone) option" where
  "zone_add_parsed n t c parsed z =
     (case rdata_arena_push_parsed parsed (z_rdata z) of
        None \<Rightarrow> None
      | Some (Inl e, octs) \<Rightarrow> Some (Inl e, z\<lparr>z_rdata := octs\<rparr>)
      | Some (Inr rdata, octs) \<Rightarrow> map_option (\<lambda>z. (Inr (), z)) (take_in n t c rdata (z\<lparr>z_rdata := octs\<rparr>)))"

subsection \<open>The index again\<close>

definition reindex_one :: "bytes \<Rightarrow> nat \<times> zone_record \<Rightarrow> zone \<Rightarrow> zone" where
  "reindex_one og pr z =
     (let (position, r) = pr; key = folded (zr_name r); at_apex = (key = og);
          (ix, spills) = enter og key position (z_index z, z_spills z) in
      z\<lparr>z_shortcuts := shortcuts_note key (rd_type (zr_rdata r)) at_apex (z_shortcuts z), z_index := ix, z_spills := spills\<rparr>)"

definition reindex :: "zone \<Rightarrow> zone" where
  "reindex z =
     fold (reindex_one (origin_key z)) (enumerate 0 (zone_recs z))
       (z\<lparr>z_index := index_clear (z_index z), z_spills := [], z_removed := 0, z_shortcuts := shortcuts_default\<rparr>)"

definition set_origin :: "name \<Rightarrow> zone \<Rightarrow> zone" where
  "set_origin origin z = reindex (z\<lparr>z_origin := origin\<rparr>)"

text \<open>The copy into fresh arenas.\<close>

fun copy_records :: "zone_record list \<Rightarrow> bytes \<Rightarrow> bytes \<Rightarrow> (stored list \<times> bytes \<times> bytes) option" where
  "copy_records [] names rdata = Some ([], names, rdata)"
| "copy_records (r # rs) names rdata =
     (case arena_push names (zr_name r) of
        None \<Rightarrow> None
      | Some (names, nspan) \<Rightarrow>
          (case rdata_arena_push (zr_rdata r) rdata of
             None \<Rightarrow> None
           | Some (dspan, rdata) \<Rightarrow>
               map_option (\<lambda>(ss, names, rdata).
                   (\<lparr>sr_name = nspan, sr_ttl = zr_ttl r, sr_class = zr_class r, sr_rdata = dspan\<rparr> # ss, names, rdata))
                 (copy_records rs names rdata)))"

definition rebuild :: "zone \<Rightarrow> zone option" where
  "rebuild z =
     (case copy_records (zone_recs z) [] [] of
        None \<Rightarrow> None
      | Some (records, names, rdata) \<Rightarrow> Some (reindex (z\<lparr>z_records := records, z_names := names, z_rdata := rdata\<rparr>)))"

subsection \<open>Removing\<close>

text \<open>\<^verbatim>\<open>Vec::swap_remove\<close>: the last element takes the place.\<close>

definition swap_remove :: "nat \<Rightarrow> 'a list \<Rightarrow> 'a list" where
  "swap_remove i xs = butlast (xs[i := last xs])"

text \<open>What a record that took another's place owes the index and the chains.\<close>

definition refile_moved :: "nat \<Rightarrow> nat \<Rightarrow> zone \<Rightarrow> zone option" where
  "refile_moved moved_from position z =
     (if moved_from = position then Some z
      else
        let r = zone_record_at z position in
        case refile (folded (zr_name r)) moved_from position (z_index z, z_spills z) of
          None \<Rightarrow> None
        | Some (ix, spills) \<Rightarrow>
            Some (chain_insert (chain_key_of (zr_name r) (rd_type (zr_rdata r))) position
              (z\<lparr>z_index := ix, z_spills := spills\<rparr>)))"

definition remove_record :: "nat \<Rightarrow> zone \<Rightarrow> (zone_record \<times> zone) option" where
  "remove_record position z =
     (if position \<ge> length (z_records z) then None
      else
        let r = zone_record_at z position; key = folded (zr_name r);
            z = chain_remove (chain_key_of (zr_name r) (rd_type (zr_rdata r))) z in
        case unfile key position (z_index z, z_spills z) of
          None \<Rightarrow> None
        | Some (records_left, ix, spills) \<Rightarrow>
            let moved_from = length (z_records z) - 1;
                z = z\<lparr>z_index := ix, z_spills := spills, z_records := swap_remove position (z_records z)\<rparr> in
            (case refile_moved moved_from position z of
               None \<Rightarrow> None
             | Some z \<Rightarrow>
                 let z = (if \<not> records_left then z\<lparr>z_index := prune (origin_key z) key (z_index z)\<rparr> else z);
                     z = z\<lparr>z_removed := min (z_removed z + 1) (2 ^ 32 - 1)\<rparr> in
                 map_option (\<lambda>z. (r, z))
                   (if z_removed z * 2 \<ge> length (z_records z) then rebuild z else Some z)))"

section \<open>The invariant\<close>

definition key_at :: "bytes list \<Rightarrow> nat \<Rightarrow> bytes option" where
  "key_at ks p = (if p < length ks then Some (ks ! p) else None)"

definition zone_keys :: "zone \<Rightarrow> bytes list" where
  "zone_keys z = map (\<lambda>r. folded (zr_name r)) (zone_recs z)"

definition stored_ok :: "bytes \<Rightarrow> bytes \<Rightarrow> stored \<Rightarrow> bool" where
  "stored_ok names rdata s \<longleftrightarrow>
     unat (ns_off (sr_name s)) + unat (ns_len (sr_name s)) \<le> length names \<and>
     unat (rs_off (sr_rdata s)) + unat (rs_len (sr_rdata s)) \<le> length rdata"

definition record_ok :: "zone_record \<Rightarrow> bool" where
  "record_ok r \<longleftrightarrow> wf_name (zr_name r) \<and> length (rd_bytes (zr_rdata r)) \<le> 65535"

definition record_chain_key :: "zone_record \<Rightarrow> chain_key option" where
  "record_chain_key r = chain_key_of (zr_name r) (rd_type (zr_rdata r))"

definition chain_lookup :: "zone \<Rightarrow> chain_key \<Rightarrow> nat option" where
  "chain_lookup z k = (case k of CkNsec k \<Rightarrow> map_of (z_nsec z) k | CkNsec3 k \<Rightarrow> map_of (z_nsec3 z) k)"

definition chains_ok :: "zone_record list \<Rightarrow> (chain_key \<Rightarrow> nat option) \<Rightarrow> bool" where
  "chains_ok rs C \<longleftrightarrow> (\<forall>k p. C k = Some p \<longrightarrow> p < length rs \<and> record_chain_key (rs ! p) = Some k)"

definition shortcuts_cover :: "bytes \<Rightarrow> shortcuts \<Rightarrow> zone_record \<Rightarrow> bool" where
  "shortcuts_cover og s r \<longleftrightarrow>
     (take 2 (folded (zr_name r)) = [1, 42] \<longrightarrow> sc_wildcards s) \<and>
     (rd_type (zr_rdata r) = rt_NS \<longrightarrow> folded (zr_name r) \<noteq> og \<longrightarrow> sc_delegations s) \<and>
     (rd_type (zr_rdata r) = rt_DNAME \<longrightarrow> sc_dnames s)"

definition octets_used :: "(zone_record \<Rightarrow> bytes) \<Rightarrow> zone_record list \<Rightarrow> nat" where
  "octets_used f rs = (\<Sum>r \<leftarrow> rs. length (f r))"

definition zone_ok :: "zone \<Rightarrow> bool" where
  "zone_ok z \<longleftrightarrow> wf_name (z_origin z) \<and>
     (\<forall>s \<in> set (z_records z). stored_ok (z_names z) (z_rdata z) s) \<and>
     (\<forall>r \<in> set (zone_recs z). record_ok r) \<and>
     octets_used zr_name (zone_recs z) \<le> length (z_names z) \<and>
     octets_used (rd_bytes \<circ> zr_rdata) (zone_recs z) \<le> length (z_rdata z) \<and>
     nindex_ok (z_index z) \<and> slots_ok (key_at (zone_keys z)) (imap (z_index z)) (z_spills z) \<and>
     nodes_ok (origin_key z) (imap (z_index z)) \<and>
     chains_ok (zone_recs z) (chain_lookup z) \<and> distinct (map fst (z_nsec z)) \<and> distinct (map fst (z_nsec3 z)) \<and>
     (\<forall>r \<in> set (zone_recs z). shortcuts_cover (origin_key z) (z_shortcuts z) r)"

lemma zone_okD:
  assumes "zone_ok z"
  shows "wf_name (z_origin z)" "\<forall>s \<in> set (z_records z). stored_ok (z_names z) (z_rdata z) s"
    "\<forall>r \<in> set (zone_recs z). record_ok r" "octets_used zr_name (zone_recs z) \<le> length (z_names z)"
    "octets_used (rd_bytes \<circ> zr_rdata) (zone_recs z) \<le> length (z_rdata z)"
    "nindex_ok (z_index z)" "slots_ok (key_at (zone_keys z)) (imap (z_index z)) (z_spills z)"
    "nodes_ok (origin_key z) (imap (z_index z))" "chains_ok (zone_recs z) (chain_lookup z)"
    "distinct (map fst (z_nsec z))" "distinct (map fst (z_nsec3 z))"
    "\<forall>r \<in> set (zone_recs z). shortcuts_cover (origin_key z) (z_shortcuts z) r"
  using assms unfolding zone_ok_def by auto

lemma length_zone_recs [simp]: "length (zone_recs z) = length (z_records z)" "length (zone_keys z) = length (z_records z)"
  by (simp_all add: zone_recs_def zone_keys_def)

lemma zone_record_at_recs: "p < length (z_records z) \<Longrightarrow> zone_record_at z p = zone_recs z ! p"
  by (simp add: zone_record_at_def zone_recs_def)

lemma key_at_snoc: "key_at (ks @ [k]) = (key_at ks)(length ks \<mapsto> k)"
  by (auto simp: key_at_def fun_eq_iff nth_append)

lemma key_at_length [simp]: "key_at ks (length ks) = None"
  by (simp add: key_at_def)

lemma record_of_append:
  "stored_ok names rdata s \<Longrightarrow> record_of (names @ ns) (rdata @ ds) s = record_of names rdata s"
  by (simp add: stored_ok_def record_of_def arena_get_def rdata_arena_get_def seg_append_left)

lemma stored_ok_append: "stored_ok names rdata s \<Longrightarrow> stored_ok (names @ ns) (rdata @ ds) s"
  by (simp add: stored_ok_def)

text \<open>A record pushed into both arenas is the record read back.\<close>

lemma pushed_record:
  assumes "record_ok r" and "length names < 2 ^ 32" and "length rdata < 2 ^ 32"
  defines "s \<equiv> \<lparr>sr_name = \<lparr>ns_off = of_nat (length names), ns_len = of_nat (length (zr_name r))\<rparr>, sr_ttl = zr_ttl r, sr_class = zr_class r,
      sr_rdata = \<lparr>rs_off = of_nat (length rdata), rs_len = of_nat (length (rd_bytes (zr_rdata r))), rs_type = rd_type (zr_rdata r)\<rparr>\<rparr>"
  shows "record_of (names @ zr_name r) (rdata @ rd_bytes (zr_rdata r)) s = r"
    and "stored_ok (names @ zr_name r) (rdata @ rd_bytes (zr_rdata r)) s"
proof -
  have len: "length (zr_name r) < 256" "length (rd_bytes (zr_rdata r)) \<le> 65535"
    using assms(1) by (auto simp: record_ok_def wf_name_def)
  have off: "unat (of_nat (length names) :: u32) = length names" "unat (of_nat (length rdata) :: u32) = length rdata"
    using assms(2,3) by (simp_all add: unat_of_nat take_bit_eq_mod)
  have n: "unat (of_nat (length (zr_name r)) :: byte) = length (zr_name r)"
    "unat (of_nat (length (rd_bytes (zr_rdata r))) :: u16) = length (rd_bytes (zr_rdata r))"
    using len by (simp_all add: unat_of_nat_byte unat_of_nat_u16)
  show "stored_ok (names @ zr_name r) (rdata @ rd_bytes (zr_rdata r)) s"
    by (simp add: stored_ok_def s_def off n)
  show "record_of (names @ zr_name r) (rdata @ rd_bytes (zr_rdata r)) s = r"
    using seg_append_exact [of names "zr_name r" "[]"] seg_append_exact [of rdata "rd_bytes (zr_rdata r)" "[]"]
    by (simp add: record_of_def s_def arena_get_def rdata_arena_get_def off n)
qed

subsection \<open>The chains\<close>

lemma chain_insert_other [simp]:
  "z_origin (chain_insert k p z) = z_origin z" "z_records (chain_insert k p z) = z_records z" "z_names (chain_insert k p z) = z_names z"
  "z_rdata (chain_insert k p z) = z_rdata z" "z_index (chain_insert k p z) = z_index z" "z_spills (chain_insert k p z) = z_spills z"
  "z_removed (chain_insert k p z) = z_removed z" "z_shortcuts (chain_insert k p z) = z_shortcuts z"
  by (simp_all add: chain_insert_def split: option.splits chain_key.splits)

lemma chain_remove_other [simp]:
  "z_origin (chain_remove k z) = z_origin z" "z_records (chain_remove k z) = z_records z" "z_names (chain_remove k z) = z_names z"
  "z_rdata (chain_remove k z) = z_rdata z" "z_index (chain_remove k z) = z_index z" "z_spills (chain_remove k z) = z_spills z"
  "z_removed (chain_remove k z) = z_removed z" "z_shortcuts (chain_remove k z) = z_shortcuts z"
  by (simp_all add: chain_remove_def split: option.splits chain_key.splits)

lemma chain_lookup_insert:
  "chain_lookup (chain_insert k p z) = (case k of None \<Rightarrow> chain_lookup z | Some k \<Rightarrow> (chain_lookup z)(k \<mapsto> p))"
  by (auto simp: chain_insert_def chain_lookup_def fun_eq_iff AList.update_conv' split: option.splits chain_key.splits)

lemma chain_lookup_remove:
  "chain_lookup (chain_remove k z) = (case k of None \<Rightarrow> chain_lookup z | Some k \<Rightarrow> (chain_lookup z)(k := None))"
  by (auto simp: chain_remove_def chain_lookup_def fun_eq_iff AList.delete_conv' split: option.splits chain_key.splits)

lemma chain_lookup_cong: "z_nsec z' = z_nsec z \<Longrightarrow> z_nsec3 z' = z_nsec3 z \<Longrightarrow> chain_lookup z' = chain_lookup z"
  by (simp add: chain_lookup_def fun_eq_iff split: chain_key.split)

lemma chain_distinct:
  assumes "distinct (map fst (z_nsec z))" and "distinct (map fst (z_nsec3 z))"
  shows "distinct (map fst (z_nsec (chain_insert k p z)))" "distinct (map fst (z_nsec3 (chain_insert k p z)))"
    "distinct (map fst (z_nsec (chain_remove k z)))" "distinct (map fst (z_nsec3 (chain_remove k z)))"
  using assms
  by (auto simp: chain_insert_def chain_remove_def distinct_update distinct_delete split: option.splits chain_key.splits)

lemma chains_ok_add:
  "chains_ok rs C \<Longrightarrow> chains_ok (rs @ [r]) (case record_chain_key r of None \<Rightarrow> C | Some k \<Rightarrow> C(k \<mapsto> length rs))"
  by (auto simp: chains_ok_def nth_append split: option.splits if_splits)

subsection \<open>Adding\<close>

lemma shortcuts_note_covers:
  "shortcuts_cover og s r \<Longrightarrow> shortcuts_cover og (shortcuts_note key t b s) r"
  "shortcuts_cover og (shortcuts_note (folded (zr_name r)) (rd_type (zr_rdata r)) (folded (zr_name r) = og) s) r"
  by (auto simp: shortcuts_cover_def shortcuts_note_def)

lemma zone_add_ok:
  assumes "zone_ok z" and "record_ok r"
  shows "zone_add r z = None \<longleftrightarrow> length (z_names z) \<ge> 2 ^ 32 \<or> length (z_rdata z) \<ge> 2 ^ 32"
    and "zone_add r z = Some z' \<Longrightarrow> zone_ok z' \<and> zone_recs z' = zone_recs z @ [r] \<and> z_origin z' = z_origin z"
proof -
  have "(zone_add r z = None \<longleftrightarrow> length (z_names z) \<ge> 2 ^ 32 \<or> length (z_rdata z) \<ge> 2 ^ 32) \<and>
    (\<forall>z'. zone_add r z = Some z' \<longrightarrow> zone_ok z' \<and> zone_recs z' = zone_recs z @ [r] \<and> z_origin z' = z_origin z)"
proof (cases "length (z_names z) < 2 ^ 32 \<and> length (z_rdata z) < 2 ^ 32")
  case False
  then show ?thesis
    by (auto simp: zone_add_def rdata_arena_push_def take_in_def arena_push_def Let_def split: prod.splits)
next
  case True
  note zd = zone_okD [OF assms(1)]
  let ?key = "folded (zr_name r)" and ?og = "folded (z_origin z)"
  obtain ix sp where e: "enter ?og ?key (length (z_records z)) (z_index z, z_spills z) = (ix, sp)" by fastforce
  let ?n = "z_names z @ zr_name r" and ?d = "z_rdata z @ rd_bytes (zr_rdata r)"
  let ?s = "\<lparr>sr_name = \<lparr>ns_off = of_nat (length (z_names z)), ns_len = of_nat (length (zr_name r))\<rparr>, sr_ttl = zr_ttl r, sr_class = zr_class r,
      sr_rdata = \<lparr>rs_off = of_nat (length (z_rdata z)), rs_len = of_nat (length (rd_bytes (zr_rdata r))), rs_type = rd_type (zr_rdata r)\<rparr>\<rparr>"
  let ?z' = "(chain_insert (record_chain_key r) (length (z_records z))
      (z\<lparr>z_rdata := ?d, z_shortcuts := shortcuts_note ?key (rd_type (zr_rdata r)) (?key = ?og) (z_shortcuts z), z_index := ix, z_spills := sp\<rparr>))
      \<lparr>z_names := ?n, z_records := z_records z @ [?s]\<rparr>"
  have eq: "zone_add r z = Some ?z'"
    using True e by (simp add: zone_add_def rdata_arena_push_def take_in_def arena_push_def Let_def record_chain_key_def)
  note p = pushed_record [OF assms(2), of "z_names z" "z_rdata z"]
  have recs: "zone_recs ?z' = zone_recs z @ [r]"
    using zd(2) p(1) True by (simp add: zone_recs_def record_of_append)
  have og: "origin_key ?z' = origin_key z" "origin_key z = ?og" by (simp_all add: origin_key_def)
  have keys: "key_at (zone_keys ?z') = (key_at (zone_keys z))(length (z_records z) \<mapsto> ?key)"
    using key_at_snoc [of "zone_keys z" ?key] unfolding zone_keys_def recs by simp
  have index: "nindex_ok ix \<and> slots_ok (key_at (zone_keys ?z')) (imap ix) sp \<and> nodes_ok ?og (imap ix)"
    unfolding keys using zd(6,7,8) key_at_length [of "zone_keys z"] by (intro enter_ok [OF _ _ _ _ e]) (simp_all add: og)
  have lookup: "chain_lookup ?z' = chain_lookup (chain_insert (record_chain_key r) (length (z_records z)) z)"
    by (auto simp: chain_lookup_def chain_insert_def fun_eq_iff split: option.splits chain_key.splits)
  have chains: "chains_ok (zone_recs ?z') (chain_lookup ?z')"
    unfolding lookup recs chain_lookup_insert using chains_ok_add [OF zd(9), of r] unfolding length_zone_recs .
  have dist: "distinct (map fst (z_nsec ?z'))" "distinct (map fst (z_nsec3 ?z'))"
    using chain_distinct(1,2) [of "z\<lparr>z_rdata := ?d, z_shortcuts := shortcuts_note ?key (rd_type (zr_rdata r)) (?key = ?og) (z_shortcuts z), z_index := ix, z_spills := sp\<rparr>"]
      zd(10,11) by simp_all
  have "\<forall>s \<in> set (z_records ?z'). stored_ok (z_names ?z') (z_rdata ?z') s"
    using zd(2) p(2) True by (auto simp: stored_ok_append)
  moreover have "\<forall>r' \<in> set (zone_recs ?z'). shortcuts_cover ?og (z_shortcuts ?z') r'"
    unfolding recs using zd(12) og(2) by (auto intro: shortcuts_note_covers)
  moreover have "\<forall>r' \<in> set (zone_recs ?z'). record_ok r'" unfolding recs using zd(3) assms(2) by auto
  moreover have "octets_used zr_name (zone_recs ?z') \<le> length (z_names ?z')"
    "octets_used (rd_bytes \<circ> zr_rdata) (zone_recs ?z') \<le> length (z_rdata ?z')"
    unfolding recs using zd(4,5) by (simp_all add: octets_used_def)
  ultimately have "zone_ok ?z'"
    unfolding zone_ok_def og using zd(1) index chains dist by (simp add: og)
  then show ?thesis using eq recs True by simp
qed
  then show "zone_add r z = None \<longleftrightarrow> length (z_names z) \<ge> 2 ^ 32 \<or> length (z_rdata z) \<ge> 2 ^ 32"
    and "zone_add r z = Some z' \<Longrightarrow> zone_ok z' \<and> zone_recs z' = zone_recs z @ [r] \<and> z_origin z' = z_origin z" by blast+
qed

subsection \<open>The index again\<close>

lemma reindex_one_other [simp]:
  "z_origin (reindex_one og pr z) = z_origin z" "z_records (reindex_one og pr z) = z_records z" "z_names (reindex_one og pr z) = z_names z"
  "z_rdata (reindex_one og pr z) = z_rdata z" "z_removed (reindex_one og pr z) = z_removed z"
  "z_nsec (reindex_one og pr z) = z_nsec z" "z_nsec3 (reindex_one og pr z) = z_nsec3 z"
  by (simp_all add: reindex_one_def Let_def split: prod.splits)

lemma reindex_fold_other:
  assumes "z' = fold (reindex_one og) prs z"
  shows "z_origin z' = z_origin z \<and> z_records z' = z_records z \<and> z_names z' = z_names z \<and> z_rdata z' = z_rdata z \<and>
    z_nsec z' = z_nsec z \<and> z_nsec3 z' = z_nsec3 z"
  unfolding assms by (induction prs arbitrary: z) simp_all

lemma reindex_fold:
  assumes "nindex_ok (z_index z)" and "slots_ok (key_at ks) (imap (z_index z)) (z_spills z)"
    and "nodes_ok og (imap (z_index z))" and "length ks = n"
    and "z' = fold (reindex_one og) (enumerate n rs) z"
  shows "nindex_ok (z_index z') \<and> slots_ok (key_at (ks @ map (\<lambda>r. folded (zr_name r)) rs)) (imap (z_index z')) (z_spills z') \<and>
    nodes_ok og (imap (z_index z')) \<and> (\<forall>r. r \<in> set rs \<or> shortcuts_cover og (z_shortcuts z) r \<longrightarrow> shortcuts_cover og (z_shortcuts z') r)"
  using assms
proof (induction rs arbitrary: z n ks)
  case (Cons r rs)
  let ?key = "folded (zr_name r)"
  obtain ix sp where e: "enter og ?key n (z_index z, z_spills z) = (ix, sp)" by fastforce
  let ?z1 = "reindex_one og (n, r) z"
  have z1: "z_index ?z1 = ix" "z_spills ?z1 = sp"
    "z_shortcuts ?z1 = shortcuts_note ?key (rd_type (zr_rdata r)) (?key = og) (z_shortcuts z)"
    using e by (simp_all add: reindex_one_def Let_def)
  have "key_at ks n = None" using Cons.prems(4) by (simp add: key_at_def)
  note ok = enter_ok [OF Cons.prems(1,2,3) this e]
  have k: "key_at (ks @ [?key]) = (key_at ks)(n \<mapsto> ?key)" using Cons.prems(4) by (simp add: key_at_snoc)
  have z': "z' = fold (reindex_one og) (enumerate (Suc n) rs) ?z1" using Cons.prems(5) by simp
  have len: "length (ks @ [?key]) = Suc n" using Cons.prems(4) by simp
  have "nindex_ok (z_index ?z1)" "slots_ok (key_at (ks @ [?key])) (imap (z_index ?z1)) (z_spills ?z1)" "nodes_ok og (imap (z_index ?z1))"
    using ok unfolding z1 k by blast+
  note IH = Cons.IH [OF this len z']
  have cov: "shortcuts_cover og (z_shortcuts ?z1) r" "shortcuts_cover og (z_shortcuts z) r' \<Longrightarrow> shortcuts_cover og (z_shortcuts ?z1) r'" for r'
    unfolding z1 by (auto intro: shortcuts_note_covers)
  show ?case using IH cov by auto
qed simp

text \<open>Everything of the invariant but what the index and the shortcuts owe.\<close>

definition zone_base :: "zone \<Rightarrow> bool" where
  "zone_base z \<longleftrightarrow> wf_name (z_origin z) \<and>
     (\<forall>s \<in> set (z_records z). stored_ok (z_names z) (z_rdata z) s) \<and>
     (\<forall>r \<in> set (zone_recs z). record_ok r) \<and>
     octets_used zr_name (zone_recs z) \<le> length (z_names z) \<and>
     octets_used (rd_bytes \<circ> zr_rdata) (zone_recs z) \<le> length (z_rdata z) \<and>
     chains_ok (zone_recs z) (chain_lookup z) \<and> distinct (map fst (z_nsec z)) \<and> distinct (map fst (z_nsec3 z))"

lemma zone_ok_base: "zone_ok z \<Longrightarrow> zone_base z"
  by (simp add: zone_ok_def zone_base_def)

lemma reindex_ok:
  assumes "zone_base z"
  shows "zone_ok (reindex z)" and "zone_recs (reindex z) = zone_recs z" and "z_origin (reindex z) = z_origin z"
    and "z_names (reindex z) = z_names z" and "z_rdata (reindex z) = z_rdata z"
proof -
  let ?z0 = "z\<lparr>z_index := index_clear (z_index z), z_spills := [], z_removed := 0, z_shortcuts := shortcuts_default\<rparr>"
  let ?z' = "fold (reindex_one (origin_key z)) (enumerate 0 (zone_recs z)) ?z0"
  have r: "reindex z = ?z'" by (simp add: reindex_def)
  note o = reindex_fold_other [OF r [unfolded reindex_def], folded reindex_def]
  have recs: "zone_recs ?z' = zone_recs z" using o unfolding r by (simp add: zone_recs_def)
  have lookup: "chain_lookup ?z' = chain_lookup z" using o unfolding r by (simp add: chain_lookup_def fun_eq_iff split: chain_key.splits)
  have og: "origin_key ?z' = origin_key z" using o unfolding r by (simp add: origin_key_def)
  have "nindex_ok (z_index ?z0)" "slots_ok (key_at []) (imap (z_index ?z0)) (z_spills ?z0)" "nodes_ok (origin_key z) (imap (z_index ?z0))"
    by (simp_all add: slots_ok_def key_at_def nodes_but_def dom_def)
  note f = reindex_fold [OF this list.size(3) refl, of "zone_recs z"]
  have "zone_ok ?z'"
    unfolding zone_ok_def recs lookup og zone_keys_def
    using assms o f unfolding r zone_base_def by simp
  then show "zone_ok (reindex z)" "zone_recs (reindex z) = zone_recs z" "z_origin (reindex z) = z_origin z"
    "z_names (reindex z) = z_names z" "z_rdata (reindex z) = z_rdata z"
    using recs o by (simp_all add: r)
qed

lemma copy_records_sound:
  assumes "\<forall>r \<in> set rs. record_ok r" and "copy_records rs names rdata = Some (ss, names', rdata')"
  shows "\<exists>ns ds. names' = names @ ns \<and> rdata' = rdata @ ds \<and> map (record_of names' rdata') ss = rs \<and>
    (\<forall>s \<in> set ss. stored_ok names' rdata' s) \<and> length ns = octets_used zr_name rs \<and> length ds = octets_used (rd_bytes \<circ> zr_rdata) rs"
  using assms
proof (induction rs arbitrary: names rdata ss)
  case Nil
  then show ?case by (auto simp: octets_used_def)
next
  case (Cons r rs)
  let ?n = "names @ zr_name r" and ?d = "rdata @ rd_bytes (zr_rdata r)"
  let ?s = "\<lparr>sr_name = \<lparr>ns_off = of_nat (length names), ns_len = of_nat (length (zr_name r))\<rparr>, sr_ttl = zr_ttl r, sr_class = zr_class r,
      sr_rdata = \<lparr>rs_off = of_nat (length rdata), rs_len = of_nat (length (rd_bytes (zr_rdata r))), rs_type = rd_type (zr_rdata r)\<rparr>\<rparr>"
  have len: "length names < 2 ^ 32" "length rdata < 2 ^ 32"
    using Cons.prems(2) by (auto simp: arena_push_def rdata_arena_push_def split: if_splits option.splits)
  then obtain ss' where c: "copy_records rs ?n ?d = Some (ss', names', rdata')" "ss = ?s # ss'"
    using Cons.prems(2) by (auto simp: arena_push_def rdata_arena_push_def)
  then obtain ns ds where IH: "names' = ?n @ ns" "rdata' = ?d @ ds" "map (record_of names' rdata') ss' = rs"
    "\<forall>s \<in> set ss'. stored_ok names' rdata' s" "length ns = octets_used zr_name rs" "length ds = octets_used (rd_bytes \<circ> zr_rdata) rs"
    using Cons.IH [OF _ c(1)] Cons.prems(1) by (metis list.set_intros(2))
  have ok: "record_ok r" using Cons.prems(1) by simp
  note p = pushed_record [OF ok len]
  have "record_of names' rdata' ?s = r" "stored_ok names' rdata' ?s"
    unfolding IH(1,2) using p record_of_append [OF p(2), of ns ds] stored_ok_append [OF p(2), of ns ds] by simp_all
  then show ?case
    using IH c(2) by (intro exI [of _ "zr_name r @ ns"] exI [of _ "rd_bytes (zr_rdata r) @ ds"]) (simp add: octets_used_def)
qed

lemma copy_records_total:
  assumes "length names + octets_used zr_name rs < 2 ^ 32" and "length rdata + octets_used (rd_bytes \<circ> zr_rdata) rs < 2 ^ 32"
  shows "copy_records rs names rdata \<noteq> None"
  using assms
proof (induction rs arbitrary: names rdata)
  case (Cons r rs)
  have "copy_records rs (names @ zr_name r) (rdata @ rd_bytes (zr_rdata r)) \<noteq> None"
    using Cons.prems by (intro Cons.IH) (simp_all add: octets_used_def)
  then show ?case using Cons.prems by (auto simp: octets_used_def arena_push_def rdata_arena_push_def)
qed simp

lemma rebuild_ok:
  assumes "zone_base z"
  shows "rebuild z = Some z' \<Longrightarrow> zone_ok z' \<and> zone_recs z' = zone_recs z \<and> z_origin z' = z_origin z"
    and "length (z_names z) < 2 ^ 32 \<Longrightarrow> length (z_rdata z) < 2 ^ 32 \<Longrightarrow> rebuild z \<noteq> None"
proof -
  assume "rebuild z = Some z'"
  then obtain ss ns ds where c: "copy_records (zone_recs z) [] [] = Some (ss, ns, ds)"
    and z': "z' = reindex (z\<lparr>z_records := ss, z_names := ns, z_rdata := ds\<rparr>)"
    by (auto simp: rebuild_def split: option.splits)
  have s: "map (record_of ns ds) ss = zone_recs z" "\<forall>s \<in> set ss. stored_ok ns ds s"
    "length ns = octets_used zr_name (zone_recs z)" "length ds = octets_used (rd_bytes \<circ> zr_rdata) (zone_recs z)"
    using copy_records_sound [OF _ c] assms by (auto simp: zone_base_def)
  let ?z = "z\<lparr>z_records := ss, z_names := ns, z_rdata := ds\<rparr>"
  have recs: "zone_recs ?z = zone_recs z" using s(1) by (simp add: zone_recs_def)
  have "chain_lookup ?z = chain_lookup z" by (rule chain_lookup_cong) simp_all
  then have "zone_base ?z" using assms s recs by (simp add: zone_base_def)
  note r = reindex_ok [OF this]
  show "zone_ok z' \<and> zone_recs z' = zone_recs z \<and> z_origin z' = z_origin z"
    unfolding z' using r recs by simp
next
  assume "length (z_names z) < 2 ^ 32" "length (z_rdata z) < 2 ^ 32"
  then have "copy_records (zone_recs z) [] [] \<noteq> None"
    using assms by (intro copy_records_total) (auto simp: zone_base_def)
  then show "rebuild z \<noteq> None" by (auto simp: rebuild_def split: option.splits)
qed

subsection \<open>Removing\<close>

lemma length_swap_remove [simp]: "length (swap_remove i xs) = length xs - 1"
  by (simp add: swap_remove_def)

lemma nth_swap_remove:
  "p < length xs - 1 \<Longrightarrow> i < length xs \<Longrightarrow> swap_remove i xs ! p = (if p = i then xs ! (length xs - 1) else xs ! p)"
  by (cases xs rule: rev_cases) (auto simp: swap_remove_def nth_butlast nth_list_update)

lemma map_swap_remove: "i < length xs \<Longrightarrow> map f (swap_remove i xs) = swap_remove i (map f xs)"
  by (cases xs rule: rev_cases) (auto simp: swap_remove_def map_butlast map_update last_map)

lemma mset_swap_remove:
  assumes "i < length xs"
  shows "mset xs = add_mset (xs ! i) (mset (swap_remove i xs))"
proof -
  obtain ys y where xs: "xs = ys @ [y]" using assms by (cases xs rule: rev_cases) auto
  show ?thesis
  proof (cases "i = length ys")
    case False
    then have i: "i < length ys" using assms xs by simp
    then have "mset (ys[i := y]) = add_mset y (mset ys - {#ys ! i#})" by (rule mset_update)
    moreover have "mset ys = add_mset (ys ! i) (mset ys - {#ys ! i#})" using i by (simp add: nth_mem_mset)
    ultimately show ?thesis using i by (simp add: xs swap_remove_def nth_append list_update_append1 butlast_append)
  qed (simp add: xs swap_remove_def)
qed

lemma set_swap_remove: "i < length xs \<Longrightarrow> set (swap_remove i xs) \<subseteq> set xs"
  using mset_swap_remove [of i xs] by (metis mset_subset_eq_add_right set_mset_mono set_mset_mset add_mset_add_single union_commute)

lemma key_at_swap_remove:
  assumes "i < length ks"
  shows "key_at (swap_remove i ks) = (if i = length ks - 1 then (key_at ks)(i := None)
    else (key_at ks)(i := None, length ks - 1 := None, i \<mapsto> ks ! (length ks - 1)))"
  using assms by (auto simp: key_at_def fun_eq_iff nth_swap_remove)

lemma slots_ok_pruned:
  assumes "slots_ok K I sp"
    and "\<And>k. map_option snd (I' k) = map_option snd (I k) \<or> I' k = None \<and> map_option snd (I k) = Some Ent"
  shows "slots_ok K I' sp"
proof -
  have old: "\<exists>c. I k = Some (c, s)" if "I' k = Some (c', s)" for k c' s
    using assms(2) [of k] that by (cases "I k") auto
  have "slot_ok K sp k s" if "I' k = Some (c, s)" for k c s
    using old [OF that] slots_okD(1) [OF assms(1)] by blast
  moreover have "K p \<noteq> Some k" if "I' k = None" for k p
  proof (cases "I k")
    case None
    then show ?thesis using slots_okD(2) [OF assms(1)] by blast
  next
    case (Some x)
    then have "I k = Some (fst x, Ent)" using assms(2) [of k] that by (cases x) auto
    then show ?thesis using slots_okD(1) [OF assms(1)] by (fastforce simp: slot_ok_def)
  qed
  moreover have "k = k'" if "I' k = Some (c, Spilled l)" "I' k' = Some (c', Spilled l)" for k k' c c' l
    using old [OF that(1)] old [OF that(2)] slots_okD(3) [OF assms(1)] by blast
  ultimately show ?thesis unfolding slots_ok_def by blast
qed

text \<open>The index through a removal: the position out, the last one moved into its place, the names no longer needed gone.\<close>

lemma removed_index:
  assumes ix: "nindex_ok ix" and ok: "slots_ok (key_at ks) (imap ix) sp" and nodes: "nodes_ok og (imap ix)" and p: "p < length ks"
  obtains left ix1 sp1 ix2 sp2 where
    "unfile (ks ! p) p (ix, sp) = Some (left, ix1, sp1)"
    "(if p = length ks - 1 then Some (ix1, sp1) else refile (ks ! (length ks - 1)) (length ks - 1) p (ix1, sp1)) = Some (ix2, sp2)"
    "nindex_ok ix2" "slots_ok (key_at (swap_remove p ks)) (imap ix2) sp2"
    "left \<Longrightarrow> nodes_ok og (imap ix2)"
    "\<not> left \<Longrightarrow> nindex_ok (prune og (ks ! p) ix2) \<and> nodes_ok og (imap (prune og (ks ! p) ix2)) \<and>
       slots_ok (key_at (swap_remove p ks)) (imap (prune og (ks ! p) ix2)) sp2"
proof -
  let ?K = "key_at ks" and ?key = "ks ! p" and ?m = "length ks - 1"
  have Kp: "?K p = Some ?key" using p by (simp add: key_at_def)
  obtain left ix1 sp1 c s' where u: "unfile ?key p (ix, sp) = Some (left, ix1, sp1)" "nindex_ok ix1"
    "imap ix1 = (imap ix)(?key \<mapsto> (c, s'))" "slots_ok (?K(p := None)) (imap ix1) sp1" "left \<longleftrightarrow> s' \<noteq> Ent"
    and c: "\<exists>s0. imap ix ?key = Some (c, s0)"
    by (rule unfile_ok [OF ix ok Kp])
  have n1: "nodes_but og (imap ix1) {} (if left then {} else {?key})"
    by (rule nodes_ok_cong [OF nodes]) (use u c nodes_butD(4) [OF nodes] in \<open>auto simp: fun_eq_iff split: if_splits\<close>)
  obtain ix2 sp2 where r: "(if p = ?m then Some (ix1, sp1) else refile (ks ! ?m) ?m p (ix1, sp1)) = Some (ix2, sp2)" "nindex_ok ix2"
    "slots_ok (key_at (swap_remove p ks)) (imap ix2) sp2" "nodes_but og (imap ix2) {} (if left then {} else {?key})"
  proof (cases "p = ?m")
    case True
    then have "key_at (swap_remove p ks) = ?K(p := None)" using key_at_swap_remove [OF p] by simp
    then show thesis using that [of ix1 sp1] True u n1 by simp
  next
    case False
    have k: "(?K(p := None)) ?m = Some (ks ! ?m)" "(?K(p := None)) p = None" using False p by (auto simp: key_at_def)
    obtain ix2 sp2 c2 s0 s2 where f: "refile (ks ! ?m) ?m p (ix1, sp1) = Some (ix2, sp2)" "nindex_ok ix2" "s2 \<noteq> Ent"
      "imap ix1 (ks ! ?m) = Some (c2, s0)" "s0 \<noteq> Ent" "imap ix2 = (imap ix1)(ks ! ?m \<mapsto> (c2, s2))"
      "slots_ok (?K(p := None, ?m := None, p \<mapsto> ks ! ?m)) (imap ix2) sp2"
      by (rule refile_ok [OF u(2,4) k])
    have "nodes_but og (imap ix2) {} (if left then {} else {?key})"
      by (rule nodes_ok_cong [OF n1]) (use f in \<open>auto simp: fun_eq_iff split: if_splits dest: nodes_butD(4) [OF n1]\<close>)
    moreover have "key_at (swap_remove p ks) = ?K(p := None, ?m := None, p \<mapsto> ks ! ?m)" using key_at_swap_remove [OF p] False by simp
    ultimately show thesis using that [of ix2 sp2] False f(1,2,7) by simp
  qed
  have "nindex_ok (prune og ?key ix2) \<and> nodes_ok og (imap (prune og ?key ix2)) \<and>
       slots_ok (key_at (swap_remove p ks)) (imap (prune og ?key ix2)) sp2" if "\<not> left"
    using prune_ok [OF r(2), of og ?key] r(4) that slots_ok_pruned [OF r(3), of "imap (prune og ?key ix2)"] by simp
  moreover have "nodes_ok og (imap ix2)" if left using r(4) that by simp
  ultimately show thesis using that [OF u(1) r(1,2,3)] by blast
qed

lemma octets_used_swap_remove: "i < length rs \<Longrightarrow> octets_used f (swap_remove i rs) \<le> octets_used f rs"
proof -
  assume "i < length rs"
  then have m: "image_mset (\<lambda>r. length (f r)) (mset rs) = add_mset (length (f (rs ! i))) (image_mset (\<lambda>r. length (f r)) (mset (swap_remove i rs)))"
    by (simp add: mset_swap_remove)
  have s: "octets_used f xs = sum_mset (image_mset (\<lambda>r. length (f r)) (mset xs))" for xs
    by (simp add: octets_used_def sum_mset_sum_list [symmetric])
  show ?thesis unfolding s m by simp
qed

lemma chains_ok_removed:
  assumes "chains_ok rs C" and "i < length rs"
    and C1: "C1 = (case record_chain_key (rs ! i) of None \<Rightarrow> C | Some k \<Rightarrow> C(k := None))"
    and C2: "C2 = (if i = length rs - 1 then C1
        else case record_chain_key (rs ! (length rs - 1)) of None \<Rightarrow> C1 | Some k \<Rightarrow> C1(k \<mapsto> i))"
  shows "chains_ok (swap_remove i rs) C2"
  unfolding chains_ok_def
proof (intro allI impI)
  fix k p assume k: "C2 k = Some p"
  let ?m = "length rs - 1"
  have old: "p < length rs \<and> record_chain_key (rs ! p) = Some k \<and> p \<noteq> i" if "C1 k = Some p"
    using that assms(1) unfolding C1 chains_ok_def by (auto split: option.splits if_splits)
  show "p < length (swap_remove i rs) \<and> record_chain_key (swap_remove i rs ! p) = Some k"
  proof (cases "i \<noteq> ?m \<and> record_chain_key (rs ! ?m) = Some k")
    case True
    then have "p = i" "i < ?m" using k C2 assms(2) by auto
    then show ?thesis using True assms(2) by (simp add: nth_swap_remove)
  next
    case False
    then have "C1 k = Some p" using k C2 by (auto split: option.splits if_splits)
    note o = old [OF this]
    have "p < ?m" using o False by (cases "p = ?m") auto
    then show ?thesis using o assms(2) by (simp add: nth_swap_remove)
  qed
qed

lemma refile_moved_other:
  assumes "refile_moved m p z = Some z'"
  shows "z_origin z' = z_origin z \<and> z_records z' = z_records z \<and> z_names z' = z_names z \<and> z_rdata z' = z_rdata z \<and>
    z_removed z' = z_removed z \<and> z_shortcuts z' = z_shortcuts z"
  using assms by (auto simp: refile_moved_def Let_def split: if_splits option.splits)

text \<open>
  Removing the record at a position a zone holds gives that record back and leaves the others, the
  last one in its place. It never fails on a zone whose arenas are below 4 GiB, also when it rebuilds
  them.
\<close>

lemma remove_record_ok:
  assumes "zone_ok z" and "p < length (zone_recs z)"
  shows "remove_record p z = Some (r, z') \<Longrightarrow> r = zone_recs z ! p \<and> zone_ok z' \<and> z_origin z' = z_origin z \<and>
      zone_recs z' = swap_remove p (zone_recs z)"
    and "length (z_names z) < 2 ^ 32 \<Longrightarrow> length (z_rdata z) < 2 ^ 32 \<Longrightarrow> remove_record p z \<noteq> None"
proof -
  note zd = zone_okD [OF assms(1)]
  let ?rs = "zone_recs z" and ?ks = "zone_keys z" and ?m = "length (z_records z) - 1"
  let ?r = "?rs ! p" and ?mr = "?rs ! ?m"
  have p: "p < length ?ks" and p': "p < length (z_records z)" using assms(2) by simp_all
  have kp: "folded (zr_name ?r) = ?ks ! p" "folded (zr_name ?mr) = ?ks ! ?m" using assms(2) by (simp_all add: zone_keys_def)
  obtain left ix1 sp1 ix2 sp2 where u: "unfile (?ks ! p) p (z_index z, z_spills z) = Some (left, ix1, sp1)"
    and f: "(if p = ?m then Some (ix1, sp1) else refile (?ks ! ?m) ?m p (ix1, sp1)) = Some (ix2, sp2)"
    and i2: "nindex_ok ix2" "slots_ok (key_at (swap_remove p ?ks)) (imap ix2) sp2" "left \<Longrightarrow> nodes_ok (origin_key z) (imap ix2)"
    and i3: "\<not> left \<Longrightarrow> nindex_ok (prune (origin_key z) (?ks ! p) ix2) \<and> nodes_ok (origin_key z) (imap (prune (origin_key z) (?ks ! p) ix2)) \<and>
       slots_ok (key_at (swap_remove p ?ks)) (imap (prune (origin_key z) (?ks ! p) ix2)) sp2"
    using removed_index [OF zd(6,7,8) p] by (metis length_zone_recs(2))
  define z1 where "z1 = chain_remove (record_chain_key ?r) z"
  define z2 where "z2 = z1\<lparr>z_index := ix1, z_spills := sp1, z_records := swap_remove p (z_records z1)\<rparr>"
  define z3 where "z3 = (if p = ?m then z2 else chain_insert (record_chain_key ?mr) p z2)\<lparr>z_index := ix2, z_spills := sp2\<rparr>"
  define z4 where "z4 = (if \<not> left then z3\<lparr>z_index := prune (origin_key z3) (?ks ! p) (z_index z3)\<rparr> else z3)"
  define z5 where "z5 = z4\<lparr>z_removed := min (z_removed z4 + 1) (2 ^ 32 - 1)\<rparr>"
  have f1: "z_index z1 = z_index z" "z_spills z1 = z_spills z" "z_records z1 = z_records z" by (simp_all add: z1_def)
  have f2: "z_origin z2 = z_origin z" "z_names z2 = z_names z" "z_rdata z2 = z_rdata z" "z_records z2 = swap_remove p (z_records z)"
    "z_shortcuts z2 = z_shortcuts z" "z_nsec z2 = z_nsec z1" "z_nsec3 z2 = z_nsec3 z1" by (simp_all add: z2_def z1_def)
  have recs2: "zone_recs z2 = swap_remove p ?rs" unfolding zone_recs_def f2 using p' by (simp add: map_swap_remove)
  have z3: "refile_moved ?m p z2 = Some z3"
  proof (cases "p = ?m")
    case True
    then show ?thesis using f by (simp add: refile_moved_def z3_def z2_def)
  next
    case False
    have "zone_record_at z2 p = ?mr" using p' False f2 by (simp add: zone_record_at_recs recs2 nth_swap_remove)
    moreover have "chain_insert k q (z0\<lparr>z_index := ix2, z_spills := sp2\<rparr>) = (chain_insert k q z0)\<lparr>z_index := ix2, z_spills := sp2\<rparr>" for k q z0
      by (simp add: chain_insert_def split: option.splits chain_key.splits)
    moreover have "z_index z2 = ix1" "z_spills z2 = sp1" by (simp_all add: z2_def)
    ultimately show ?thesis using False f kp(2) by (simp add: refile_moved_def Let_def record_chain_key_def z3_def)
  qed
  have f3: "z_origin z3 = z_origin z" "z_names z3 = z_names z" "z_rdata z3 = z_rdata z" "z_records z3 = swap_remove p (z_records z)"
    "z_shortcuts z3 = z_shortcuts z" "z_index z3 = ix2" "z_spills z3 = sp2"
    by (simp_all add: z3_def f2)
  have og3: "origin_key z3 = origin_key z" by (simp add: origin_key_def f3)
  have fields: "z_origin z5 = z_origin z" "z_names z5 = z_names z" "z_rdata z5 = z_rdata z" "z_records z5 = swap_remove p (z_records z)"
    "z_shortcuts z5 = z_shortcuts z" "z_spills z5 = sp2" "z_index z5 = (if left then ix2 else prune (origin_key z) (?ks ! p) ix2)"
    "z_nsec z5 = z_nsec z3" "z_nsec3 z5 = z_nsec3 z3"
    by (simp_all add: z5_def z4_def f3 og3)
  have rm: "remove_record p z = map_option (\<lambda>z. (?r, z)) (if z_removed z5 * 2 \<ge> length (z_records z5) then rebuild z5 else Some z5)"
    using p' u unfolding remove_record_def zone_record_at_recs [OF p'] Let_def record_chain_key_def [symmetric] z1_def [symmetric] kp(1) f1
    by (simp add: z2_def [symmetric, unfolded f1] z3 [simplified] z4_def [symmetric] z5_def [symmetric, simplified])
  have recs5: "zone_recs z5 = swap_remove p ?rs" unfolding zone_recs_def fields using p' by (simp add: map_swap_remove)
  have og5: "origin_key z5 = origin_key z" by (simp add: origin_key_def fields)
  have keys5: "zone_keys z5 = swap_remove p ?ks" unfolding zone_keys_def recs5 using assms(2) by (simp add: map_swap_remove)
  have sub: "set (swap_remove p ?rs) \<subseteq> set ?rs" using set_swap_remove [OF assms(2)] .
  have lookup3: "chain_lookup z3 = chain_lookup (if p = ?m then z2 else chain_insert (record_chain_key ?mr) p z2)"
    unfolding z3_def by (rule chain_lookup_cong) simp_all
  have lookup2: "chain_lookup z2 = chain_lookup z1" by (rule chain_lookup_cong) (simp_all add: f2)
  have lookup5: "chain_lookup z5 = chain_lookup z3" by (rule chain_lookup_cong) (simp_all add: fields)
  have chains: "chains_ok (swap_remove p ?rs) (chain_lookup z5)"
    by (rule chains_ok_removed [OF zd(9) assms(2) refl])
      (simp add: lookup5 lookup3 lookup2 chain_lookup_insert z1_def chain_lookup_remove split: option.split)
  have dist: "distinct (map fst (z_nsec z5))" "distinct (map fst (z_nsec3 z5))"
    unfolding fields z3_def using chain_distinct(1,2) [of z2] chain_distinct(3,4) [OF zd(10,11)] f2(6,7) by (simp_all add: z1_def)
  have stored: "\<forall>s \<in> set (z_records z5). stored_ok (z_names z5) (z_rdata z5) s"
    unfolding fields using zd(2) set_swap_remove [OF p'] by blast
  have oct: "octets_used zr_name (swap_remove p ?rs) \<le> length (z_names z)" "octets_used (rd_bytes \<circ> zr_rdata) (swap_remove p ?rs) \<le> length (z_rdata z)"
    using octets_used_swap_remove [OF assms(2)] zd(4,5) le_trans by blast+
  have ok5: "zone_ok z5"
    unfolding zone_ok_def recs5 og5 keys5
    using zd(1,3,12) stored sub oct chains dist i2 i3 unfolding fields by (cases left) auto
  have base5: "zone_base z5" by (rule zone_ok_base [OF ok5])
  {
    assume "remove_record p z = Some (r, z')"
    then have "r = ?r" and "(if z_removed z5 * 2 \<ge> length (z_records z5) then rebuild z5 else Some z5) = Some z'"
      unfolding rm by (auto split: if_splits)
    then show "r = ?r \<and> zone_ok z' \<and> z_origin z' = z_origin z \<and> zone_recs z' = swap_remove p ?rs"
      using rebuild_ok(1) [OF base5, of z'] ok5 recs5 fields(1) by (auto split: if_splits)
  }
  {
    assume "length (z_names z) < 2 ^ 32" "length (z_rdata z) < 2 ^ 32"
    then have "rebuild z5 \<noteq> None" using fields by (intro rebuild_ok(2) [OF base5]) simp_all
    then show "remove_record p z \<noteq> None" unfolding rm by auto
  }
qed

section \<open>Every zone\<close>

lemma zone_new_ok: "wf_name og \<Longrightarrow> zone_ok (zone_new og)" "zone_recs (zone_new og) = []"
  by (simp_all add: zone_new_def zone_ok_def zone_recs_def zone_keys_def octets_used_def chains_ok_def chain_lookup_def
      slots_ok_def key_at_def nodes_but_def dom_def split: chain_key.split)

lemma set_origin_ok:
  assumes "zone_ok z" and "wf_name og"
  shows "zone_ok (set_origin og z)" and "zone_recs (set_origin og z) = zone_recs z"
proof -
  have recs: "zone_recs (z\<lparr>z_origin := og\<rparr>) = zone_recs z" by (simp add: zone_recs_def)
  have "chain_lookup (z\<lparr>z_origin := og\<rparr>) = chain_lookup z" by (rule chain_lookup_cong) simp_all
  then have "zone_base (z\<lparr>z_origin := og\<rparr>)" using assms zone_ok_base [OF assms(1)] recs by (simp add: zone_base_def)
  from reindex_ok [OF this] recs show "zone_ok (set_origin og z)" "zone_recs (set_origin og z) = zone_recs z"
    by (simp_all add: set_origin_def)
qed

text \<open>A parsed record is stored as its RDATA would be; one that is refused may leave octets in the arena and nothing else.\<close>

lemma rdata_grown_ok:
  assumes "zone_ok z"
  shows "zone_ok (z\<lparr>z_rdata := z_rdata z @ ds\<rparr>)" and "zone_recs (z\<lparr>z_rdata := z_rdata z @ ds\<rparr>) = zone_recs z"
proof -
  let ?z = "z\<lparr>z_rdata := z_rdata z @ ds\<rparr>"
  note zd = zone_okD [OF assms]
  show recs: "zone_recs ?z = zone_recs z"
    using zd(2) record_of_append [of "z_names z" "z_rdata z" _ "[]" ds] by (simp add: zone_recs_def)
  have keys: "zone_keys ?z = zone_keys z" by (simp add: zone_keys_def recs)
  have lookup: "chain_lookup ?z = chain_lookup z" by (rule chain_lookup_cong) simp_all
  have og: "origin_key ?z = origin_key z" by (simp add: origin_key_def)
  have "\<forall>s \<in> set (z_records z). stored_ok (z_names z) (z_rdata z @ ds) s"
    using zd(2) stored_ok_append [of "z_names z" "z_rdata z" _ "[]" ds] by simp
  then show "zone_ok ?z" unfolding zone_ok_def recs keys lookup og using zd by simp
qed

lemma push_parsed_cases:
  assumes "rdata_arena_push_parsed p a = Some (res, a')"
  obtains (refused) e ds where "res = Inl e" "a' = a @ ds"
  | (pushed) s d where "res = Inr s" "rdata_from_parsed p = Inr d" "length (rd_bytes d) \<le> 65535" "rdata_arena_push d a = Some (s, a')"
proof -
  obtain r w where e: "encode_into p [] = (r, w)" by fastforce
  then have e': "encode_into p a = (r, a @ w)" using encode_into_prefix [of p "[]" r w a] by simp
  show thesis
  proof (cases r)
    case (Inl err)
    then show thesis using assms e' refused [of err "[]"] by (simp add: rdata_arena_push_parsed_def)
  next
    case (Inr t)
    show thesis
    proof (cases "length w > 65535")
      case True
      then show thesis using assms e' Inr refused by (auto simp: rdata_arena_push_parsed_def Let_def split: if_splits)
    next
      case False
      have "rdata_from_parsed p = Inr \<lparr>rd_type = t, rd_bytes = w\<rparr>"
        using e Inr False by (simp add: rdata_from_parsed_def encode_def)
      then show thesis
        using False assms e' Inr pushed [of _ "\<lparr>rd_type = t, rd_bytes = w\<rparr>"]
        by (auto simp: rdata_arena_push_parsed_def rdata_arena_push_def Let_def split: if_splits)
    qed
  qed
qed

text \<open>
  What can be done to a zone, with the records it then has: those added and not removed, in no
  order. A removal takes the record at a position.
\<close>

inductive zone_run :: "zone \<Rightarrow> zone_record multiset \<Rightarrow> bool" where
  zr_new: "wf_name og \<Longrightarrow> zone_run (zone_new og) {#}"
| zr_add: "zone_run z M \<Longrightarrow> record_ok r \<Longrightarrow> zone_add r z = Some z' \<Longrightarrow> zone_run z' (add_mset r M)"
| zr_add_parsed: "zone_run z M \<Longrightarrow> wf_name n \<Longrightarrow> zone_add_parsed n t c p z = Some (Inr (), z') \<Longrightarrow> rdata_from_parsed p = Inr d \<Longrightarrow>
    zone_run z' (add_mset \<lparr>zr_name = n, zr_ttl = t, zr_class = c, zr_rdata = d\<rparr> M)"
| zr_add_refused: "zone_run z M \<Longrightarrow> zone_add_parsed n t c p z = Some (Inl e, z') \<Longrightarrow> zone_run z' M"
| zr_remove: "zone_run z M \<Longrightarrow> remove_record at z = Some (r, z') \<Longrightarrow> zone_run z' (M - {#r#})"
| zr_origin: "zone_run z M \<Longrightarrow> wf_name og \<Longrightarrow> zone_run (set_origin og z) M"

lemma zone_run_ok: "zone_run z M \<Longrightarrow> zone_ok z \<and> mset (zone_recs z) = M"
proof (induction rule: zone_run.induct)
  case (zr_new og)
  then show ?case by (simp add: zone_new_ok)
next
  case (zr_add z M r z')
  then show ?case using zone_add_ok(2) [of z r z'] by simp
next
  case (zr_add_parsed z M n t c p z' d)
  let ?r = "\<lparr>zr_name = n, zr_ttl = t, zr_class = c, zr_rdata = d\<rparr>"
  obtain res a' where pp: "rdata_arena_push_parsed p (z_rdata z) = Some (res, a')"
    using zr_add_parsed.hyps(3) by (auto simp: zone_add_parsed_def split: option.splits)
  from pp show ?case
  proof (cases rule: push_parsed_cases)
    case (refused e ds)
    then show ?thesis using zr_add_parsed.hyps(3) pp by (simp add: zone_add_parsed_def)
  next
    case (pushed s d')
    then have "d' = d" "zone_add ?r z = Some z'"
      using zr_add_parsed.hyps(3,4) pp by (auto simp: zone_add_parsed_def zone_add_def)
    moreover have "record_ok ?r" using zr_add_parsed.hyps(2) pushed(3) \<open>d' = d\<close> by (simp add: record_ok_def)
    ultimately show ?thesis using zone_add_ok(2) [of z ?r z'] zr_add_parsed.IH by simp
  qed
next
  case (zr_add_refused z M n t c p e z')
  obtain res a' where pp: "rdata_arena_push_parsed p (z_rdata z) = Some (res, a')"
    using zr_add_refused.hyps(2) by (auto simp: zone_add_parsed_def split: option.splits)
  from pp show ?case
  proof (cases rule: push_parsed_cases)
    case (refused e' ds)
    then have "z' = z\<lparr>z_rdata := z_rdata z @ ds\<rparr>" using zr_add_refused.hyps(2) pp by (simp add: zone_add_parsed_def)
    then show ?thesis using rdata_grown_ok zr_add_refused.IH by simp
  next
    case (pushed s d')
    then show ?thesis using zr_add_refused.hyps(2) pp by (simp add: zone_add_parsed_def)
  qed
next
  case (zr_remove z M at r z')
  have at: "at < length (zone_recs z)" using zr_remove.hyps(2) by (auto simp: remove_record_def split: if_splits)
  have "mset (zone_recs z) - {#zone_recs z ! at#} = mset (swap_remove at (zone_recs z))" by (simp add: mset_swap_remove [OF at])
  then show ?case using remove_record_ok(1) [OF _ at zr_remove.hyps(2)] zr_remove.IH by auto
next
  case (zr_origin z M og)
  then show ?case using set_origin_ok by simp
qed

end
