(* ===== verification/ZoneLookup.thy ===== *)
theory ZoneLookup
  imports Zone
begin

text \<open>
  The questions RFC 1034 asks of a zone (\<^verbatim>\<open>rdns/src/zone.rs\<close>): where a name lands (\<^verbatim>\<open>locate\<close>,
  \<^verbatim>\<open>name_kind\<close>), the delegation at or above it, the DNAME above it, the denial record that covers
  it. The theorems say what each answer is in terms of the zone's list of records alone; a name
  exists when a record is owned at it or below it.
\<close>

section \<open>The code\<close>

definition positions_of :: "bytes \<Rightarrow> zone \<Rightarrow> nat list" where
  "positions_of key z = (case index_get key (z_index z) of Some s \<Rightarrow> slot_positions (z_spills z) s | None \<Rightarrow> [])"

definition holds_name :: "name \<Rightarrow> zone \<Rightarrow> bool" where
  "holds_name n z = (case index_get (folded n) (z_index z) of None \<Rightarrow> False | Some s \<Rightarrow> s \<noteq> Ent)"

definition node_exists :: "bytes \<Rightarrow> zone \<Rightarrow> bool" where
  "node_exists key z = contains_key key (z_index z)"

definition first_of_type :: "bytes \<Rightarrow> rtype \<Rightarrow> zone \<Rightarrow> zone_record option" where
  "first_of_type key t z =
     (case index_get key (z_index z) of
        None \<Rightarrow> None
      | Some s \<Rightarrow> find (\<lambda>r. rd_type (zr_rdata r) = t) (map (zone_record_at z) (slot_positions (z_spills z) s)))"

definition has_type :: "bytes \<Rightarrow> rtype \<Rightarrow> zone \<Rightarrow> bool" where
  "has_type key t z \<longleftrightarrow> first_of_type key t z \<noteq> None"

subsection \<open>Delegations\<close>

fun delegation_walk :: "zone \<Rightarrow> name list \<Rightarrow> name option" where
  "delegation_walk z [] = None"
| "delegation_walk z (c # cs) =
     (let og = origin_key z; at_apex = (c = og) in
      if \<not> at_apex \<and> has_type c rt_NS z then Some c
      else if at_apex \<or> length c < length og then None
      else delegation_walk z cs)"

definition delegation_for_key :: "bytes \<Rightarrow> zone \<Rightarrow> name option" where
  "delegation_for_key key z = (if \<not> sc_delegations (z_shortcuts z) then None else delegation_walk z (ancestors key))"

definition delegation_for :: "name \<Rightarrow> zone \<Rightarrow> name option" where
  "delegation_for n z = (if \<not> sc_delegations (z_shortcuts z) then None else delegation_for_key (folded n) z)"

subsection \<open>Where a name lands\<close>

datatype NameKind = Exact | EmptyNonTerminal | Wildcard name | NotFound

fun encloser_walk :: "zone \<Rightarrow> name list \<Rightarrow> NameKind" where
  "encloser_walk z [] = NotFound"
| "encloser_walk z (e # es) =
     (if length e < length (origin_key z) then NotFound
      else if \<not> node_exists e z then encloser_walk z es
      else if \<not> sc_wildcards (z_shortcuts z) then NotFound
      else if delegation_for_key e z \<noteq> None then NotFound
      else case prefixed [42] e of
          Inl _ \<Rightarrow> NotFound
        | Inr wildcard \<Rightarrow> if contains_key wildcard (z_index z) then Wildcard wildcard else NotFound)"

definition name_kind_of_key :: "bytes \<Rightarrow> zone \<Rightarrow> NameKind" where
  "name_kind_of_key key z =
     (case index_get key (z_index z) of
        Some Ent \<Rightarrow> EmptyNonTerminal
      | Some _ \<Rightarrow> Exact
      | None \<Rightarrow> encloser_walk z (tl (ancestors key)))"

definition name_kind :: "name \<Rightarrow> zone \<Rightarrow> NameKind" where
  "name_kind n z = name_kind_of_key (folded n) z"

definition name_exists :: "name \<Rightarrow> zone \<Rightarrow> bool" where
  "name_exists n z \<longleftrightarrow> name_kind n z \<noteq> NotFound"

record located =
  lc_zone :: zone
  lc_kind :: NameKind
  lc_positions :: "nat list"

definition locate :: "name \<Rightarrow> zone \<Rightarrow> located" where
  "locate n z =
     (let key = folded n; kind = name_kind_of_key key z;
          at = (case kind of
                  Exact \<Rightarrow> index_get key (z_index z)
                | Wildcard w \<Rightarrow> index_get w (z_index z)
                | EmptyNonTerminal \<Rightarrow> None
                | NotFound \<Rightarrow> None) in
      \<lparr>lc_zone = z, lc_kind = kind,
       lc_positions = (case at of None \<Rightarrow> [] | Some s \<Rightarrow> slot_positions (z_spills z) s)\<rparr>)"

definition of_type :: "located \<Rightarrow> qtype \<Rightarrow> zone_record list" where
  "of_type l q =
     map (zone_record_at (lc_zone l))
       (filter (\<lambda>i. qtype_matches q (rs_type (sr_rdata (z_records (lc_zone l) ! i)))) (lc_positions l))"

definition located_has_type :: "located \<Rightarrow> qtype \<Rightarrow> bool" where
  "located_has_type l q \<longleftrightarrow> of_type l q \<noteq> []"

definition query_with_kind :: "name \<Rightarrow> qtype \<Rightarrow> zone \<Rightarrow> NameKind \<times> zone_record list" where
  "query_with_kind n q z = (let l = locate n z in (lc_kind l, of_type l q))"

definition zone_query :: "name \<Rightarrow> qtype \<Rightarrow> zone \<Rightarrow> zone_record list" where
  "zone_query n q z = snd (query_with_kind n q z)"

definition matches_query :: "name \<Rightarrow> name \<Rightarrow> zone \<Rightarrow> bool" where
  "matches_query record_name query_name z \<longleftrightarrow> name_eq record_name query_name \<or>
     (case name_kind_of_key (folded query_name) z of Wildcard w \<Rightarrow> name_eq w record_name | _ \<Rightarrow> False)"

subsection \<open>The apex\<close>

definition apex_soa :: "zone \<Rightarrow> zone_record option" where
  "apex_soa z = (case zone_query (z_origin z) rt_SOA z of [] \<Rightarrow> None | r # _ \<Rightarrow> Some r)"

definition apex_soa_position :: "zone \<Rightarrow> nat option" where
  "apex_soa_position z =
     find (\<lambda>at. rs_type (sr_rdata (z_records z ! at)) = rt_SOA) (positions_of (origin_key z) z)"

definition apex_soa_record :: "zone \<Rightarrow> resource_record option" where
  "apex_soa_record z = map_option (\<lambda>soa. \<lparr>rr_name = z_origin z, rr_class = zr_class soa, rr_ttl = zr_ttl soa, rr_data = zr_rdata soa\<rparr>) (apex_soa z)"

definition zone_serial :: "zone \<Rightarrow> serial option" where
  "zone_serial z =
     (case apex_soa z of
        None \<Rightarrow> None
      | Some soa \<Rightarrow> (case rdata_parse (zr_rdata soa) of Inr (PSOA _ _ serial _ _ _ _) \<Rightarrow> Some serial | _ \<Rightarrow> None))"

definition is_apex_soa :: "zone_record \<Rightarrow> zone \<Rightarrow> bool" where
  "is_apex_soa r z \<longleftrightarrow> rd_type (zr_rdata r) = rt_SOA \<and> name_eq (zr_name r) (z_origin z)"

subsection \<open>DNAME\<close>

text \<open>The walk keeps the last one seen.\<close>

fun dname_walk :: "zone \<Rightarrow> name list \<Rightarrow> zone_record option \<Rightarrow> zone_record option" where
  "dname_walk z [] found = found"
| "dname_walk z (c # cs) found =
     (if length c < length (origin_key z) then found
      else
        let found = (case first_of_type c rt_DNAME z of Some r \<Rightarrow> Some r | None \<Rightarrow> found) in
        if c = origin_key z then found else dname_walk z cs found)"

definition dname_above_key :: "bytes \<Rightarrow> zone \<Rightarrow> zone_record option" where
  "dname_above_key key z = (if \<not> sc_dnames (z_shortcuts z) then None else dname_walk z (tl (ancestors key)) None)"

definition dname_above :: "name \<Rightarrow> zone \<Rightarrow> zone_record option" where
  "dname_above n z = (if \<not> sc_dnames (z_shortcuts z) then None else dname_above_key (folded n) z)"

subsection \<open>Denial records\<close>

definition has_nsec_chain :: "zone \<Rightarrow> bool" where
  "has_nsec_chain z \<longleftrightarrow> z_nsec z \<noteq> []"

definition has_nsec3_chain :: "zone \<Rightarrow> bool" where
  "has_nsec3_chain z \<longleftrightarrow> z_nsec3 z \<noteq> []"

text \<open>\<^verbatim>\<open>next_back\<close> of a \<^verbatim>\<open>BTreeMap\<close>, and of its range below a key.\<close>

definition key_less :: "bytes \<Rightarrow> bytes \<Rightarrow> bool" where
  "key_less a b \<longleftrightarrow> iter_cmp byte_cmp a b = OLess"

fun greatest :: "(bytes \<times> nat) list \<Rightarrow> (bytes \<times> nat) option" where
  "greatest [] = None"
| "greatest (e # es) = (case greatest es of None \<Rightarrow> Some e | Some g \<Rightarrow> Some (if key_less (fst g) (fst e) then e else g))"

definition chain_covering :: "bytes \<Rightarrow> (bytes \<times> nat) list \<Rightarrow> (bytes \<times> nat) option" where
  "chain_covering key chain =
     (case greatest (filter (\<lambda>e. key_less (fst e) key) chain) of Some e \<Rightarrow> Some e | None \<Rightarrow> greatest chain)"

definition nsec_covering :: "name \<Rightarrow> zone \<Rightarrow> zone_record option" where
  "nsec_covering n z = map_option (\<lambda>e. zone_record_at z (snd e)) (chain_covering (canonical_sort_key n) (z_nsec z))"

definition nsec3_covering :: "nsec3_hash \<Rightarrow> zone \<Rightarrow> zone_record option" where
  "nsec3_covering h z = map_option (\<lambda>e. zone_record_at z (snd e)) (chain_covering h (z_nsec3 z))"

section \<open>The names of a zone\<close>

lemma parent_key_parent: "parent_key w = parent w"
  by (cases w) (simp_all add: Let_def)

lemma ancestors_self [simp]: "w \<in> set (ancestors w)"
  by (subst ancestors.simps) simp

lemma ancestors_parent: "parent w = Some p \<Longrightarrow> ancestors w = w # ancestors p"
  by (subst ancestors.simps) simp

lemma ancestors_no_parent: "parent w = None \<Longrightarrow> ancestors w = [w]"
  by (subst ancestors.simps) simp

lemma ancestors_length: "a \<in> set (ancestors w) \<Longrightarrow> a = w \<or> length a < length w"
proof (induction w rule: ancestors.induct)
  case (1 w)
  then show ?case
    by (cases "parent w") (auto simp: ancestors_no_parent ancestors_parent dest: parent_shorter)
qed

lemma ancestors_trans: "a \<in> set (ancestors b) \<Longrightarrow> b \<in> set (ancestors c) \<Longrightarrow> a \<in> set (ancestors c)"
proof (induction c rule: ancestors.induct)
  case (1 c)
  then show ?case by (cases "parent c") (auto simp: ancestors_no_parent ancestors_parent)
qed

text \<open>The ancestors of a name are one below the other.\<close>

lemma ancestors_linear:
  "a \<in> set (ancestors w) \<Longrightarrow> b \<in> set (ancestors w) \<Longrightarrow> length a \<le> length b \<Longrightarrow> a \<in> set (ancestors b)"
proof (induction w rule: ancestors.induct)
  case (1 w)
  show ?case
  proof (cases "parent w")
    case None
    then show ?thesis using "1.prems" by (simp add: ancestors_no_parent)
  next
    case (Some p)
    then show ?thesis
      using "1.prems" "1.IH" [OF Some] ancestors_length [of b p] parent_shorter [OF Some]
      by (auto simp: ancestors_parent)
  qed
qed

lemma ancestors_length_inj:
  "a \<in> set (ancestors w) \<Longrightarrow> b \<in> set (ancestors w) \<Longrightarrow> length a = length b \<Longrightarrow> a = b"
  using ancestors_linear ancestors_length by (metis less_irrefl order_refl)

text \<open>A name exists when a record is owned at it or below it.\<close>

definition owned :: "zone_record list \<Rightarrow> bytes \<Rightarrow> bool" where
  "owned rs k \<longleftrightarrow> (\<exists>r \<in> set rs. folded (zr_name r) = k)"

definition exists_node :: "zone_record list \<Rightarrow> bytes \<Rightarrow> bool" where
  "exists_node rs k \<longleftrightarrow> (\<exists>r \<in> set rs. k \<in> set (ancestors (folded (zr_name r))))"

abbreviation within :: "bytes \<Rightarrow> bytes \<Rightarrow> bool" where
  "within og k \<equiv> og \<in> set (ancestors k)"

lemma parent_in_zone_within:
  assumes "parent k = Some p" and "within og p"
  shows "parent_in_zone k og = Some p"
proof -
  have "length og \<le> length p" using ancestors_length [OF assms(2)] by auto
  moreover have "k \<noteq> og" using ancestors_length [OF assms(2)] parent_shorter [OF assms(1)] by auto
  ultimately show ?thesis using assms(1) by (simp add: parent_in_zone_def parent_key_parent)
qed

lemma nodes_sound:
  assumes ok: "zone_ok z" and "k \<in> dom (imap (z_index z))"
  shows "exists_node (zone_recs z) k"
proof -
  note zd = zone_okD [OF ok]
  let ?I = "imap (z_index z)"
  note nd = nodes_butD [OF zd(8)]
  let ?M = "Max (length ` dom ?I)"
  have le: "length x \<le> ?M" if "x \<in> dom ?I" for x using nd(1) that by simp
  show ?thesis using assms(2)
  proof (induction "?M - length k" arbitrary: k rule: less_induct)
    case less
    obtain c s where I: "?I k = Some (c, s)" using less.prems by auto
    show ?case
    proof (cases "s = Ent")
      case False
      have "slot_ok (key_at (zone_keys z)) (z_spills z) k s" by (rule slots_okD(1) [OF zd(7) I])
      moreover have "slot_positions (z_spills z) s \<noteq> []"
        using False calculation by (cases s) (auto simp: slot_ok_def)
      ultimately obtain p where "key_at (zone_keys z) p = Some k" unfolding slot_ok_def by (metis (mono_tags, lifting) all_not_in_conv mem_Collect_eq set_empty)
      then have "p < length (z_records z)" "zone_keys z ! p = k" by (auto simp: key_at_def split: if_splits)
      then have "zone_recs z ! p \<in> set (zone_recs z)" "folded (zr_name (zone_recs z ! p)) = k"
        by (simp_all add: zone_keys_def)
      then show ?thesis unfolding exists_node_def by (metis ancestors_self)
    next
      case True
      then have "children (origin_key z) ?I {} k \<noteq> {}" using nd(3,4) [OF I] by auto
      then obtain x where x: "x \<in> dom ?I" "parent_in_zone x (origin_key z) = Some k" by (auto simp: children_def)
      have "length k < length x" by (rule parent_in_zone_shorter [OF x(2)])
      then have "exists_node (zone_recs z) x" using less.hyps [OF _ x(1)] le [OF x(1)] by simp
      moreover have "parent x = Some k" using x(2) by (auto simp: parent_in_zone_def parent_key_parent split: if_splits option.splits)
      then have "k \<in> set (ancestors x)" by (simp add: ancestors_parent)
      ultimately show ?thesis unfolding exists_node_def using ancestors_trans by blast
    qed
  qed
qed

lemma nodes_closed:
  assumes "nodes_ok og I" and "k \<in> set (ancestors w)" and "within og k" and "w \<in> dom I"
  shows "k \<in> dom I"
  using assms(2,4)
proof (induction w rule: ancestors.induct)
  case (1 w)
  show ?case
  proof (cases "k = w")
    case False
    then obtain p where p: "parent w = Some p" "k \<in> set (ancestors p)"
      using "1.prems"(1) by (cases "parent w") (auto simp: ancestors_no_parent ancestors_parent)
    have "parent_in_zone w og = Some p" by (rule parent_in_zone_within [OF p(1) ancestors_trans [OF assms(3) p(2)]])
    then have "p \<in> dom I" using nodes_butD(2) [OF assms(1) "1.prems"(2)] by simp
    then show ?thesis using "1.IH" [OF p] by simp
  qed (use "1.prems" in simp)
qed

lemma owned_dom:
  assumes "zone_ok z" and "owned (zone_recs z) k"
  shows "\<exists>c s. imap (z_index z) k = Some (c, s) \<and> s \<noteq> Ent"
proof -
  obtain r where r: "r \<in> set (zone_recs z)" "folded (zr_name r) = k" using assms(2) by (auto simp: owned_def)
  then obtain p where "p < length (z_records z)" "zone_recs z ! p = r" by (metis in_set_conv_nth length_zone_recs(1))
  then have "key_at (zone_keys z) p = Some k" using r by (simp add: key_at_def zone_keys_def)
  from slots_ok_at [OF zone_okD(7) [OF assms(1)] this] show ?thesis by metis
qed

lemma nodes_complete:
  assumes ok: "zone_ok z" and "exists_node (zone_recs z) k" and "within (origin_key z) k"
  shows "k \<in> dom (imap (z_index z))"
proof -
  obtain r where r: "r \<in> set (zone_recs z)" "k \<in> set (ancestors (folded (zr_name r)))" using assms(2) by (auto simp: exists_node_def)
  then have "owned (zone_recs z) (folded (zr_name r))" by (auto simp: owned_def)
  then have "folded (zr_name r) \<in> dom (imap (z_index z))" using owned_dom [OF ok] by blast
  then show ?thesis by (rule nodes_closed [OF zone_okD(8) [OF ok] r(2) assms(3)])
qed

lemma node_exists_iff:
  "zone_ok z \<Longrightarrow> within (origin_key z) k \<Longrightarrow> node_exists k z \<longleftrightarrow> exists_node (zone_recs z) k"
  unfolding node_exists_def contains_key_imap using nodes_sound nodes_complete by blast

lemma index_slot:
  assumes ok: "zone_ok z" and "index_get k (z_index z) = Some s"
  shows "distinct (slot_positions (z_spills z) s)"
    and "set (slot_positions (z_spills z) s) = {p. p < length (z_records z) \<and> folded (zr_name (zone_recs z ! p)) = k}"
    and "s \<noteq> Ent \<longleftrightarrow> owned (zone_recs z) k"
proof -
  obtain c where I: "imap (z_index z) k = Some (c, s)" using assms(2) by (auto simp: index_get_imap)
  have s: "slot_ok (key_at (zone_keys z)) (z_spills z) k s" by (rule slots_okD(1) [OF zone_okD(7) [OF ok] I])
  then show "distinct (slot_positions (z_spills z) s)" by (simp add: slot_ok_def)
  show ps: "set (slot_positions (z_spills z) s) = {p. p < length (z_records z) \<and> folded (zr_name (zone_recs z ! p)) = k}"
    using s by (auto simp: slot_ok_def key_at_def zone_keys_def split: if_splits)
  show "s \<noteq> Ent \<longleftrightarrow> owned (zone_recs z) k"
  proof
    assume "s \<noteq> Ent"
    then have "slot_positions (z_spills z) s \<noteq> []" using s by (cases s) (auto simp: slot_ok_def)
    then obtain p where "p < length (z_records z)" "folded (zr_name (zone_recs z ! p)) = k"
      using ps by (metis (mono_tags, lifting) ex_in_conv mem_Collect_eq set_empty)
    then show "owned (zone_recs z) k" unfolding owned_def by (metis length_zone_recs(1) nth_mem)
  next
    assume "owned (zone_recs z) k"
    then show "s \<noteq> Ent" using owned_dom [OF ok] I by fastforce
  qed
qed

lemma index_none: "zone_ok z \<Longrightarrow> index_get k (z_index z) = None \<Longrightarrow> \<not> owned (zone_recs z) k"
  using owned_dom by (fastforce simp: index_get_imap)

text \<open>The records at a list of positions that are those of a property.\<close>

lemma mset_positions:
  assumes "distinct ps" and "set ps = {p. p < length xs \<and> P (xs ! p)}"
  shows "mset (map ((!) xs) ps) = mset (filter P xs)"
proof -
  have "mset ps = mset (filter (\<lambda>p. P (xs ! p)) [0..<length xs])"
    using assms by (intro set_eq_iff_mset_eq_distinct [THEN iffD1]) auto
  then have "mset (map ((!) xs) ps) = mset (map ((!) xs) (filter (\<lambda>p. P (xs ! p)) [0..<length xs]))"
    by (metis mset_map)
  also have "map ((!) xs) (filter (\<lambda>p. P (xs ! p)) [0..<length xs]) = filter P (map ((!) xs) [0..<length xs])"
    by (simp add: filter_map comp_def)
  finally show ?thesis by (simp add: map_nth)
qed

text \<open>The records at a key.\<close>

definition records_at :: "zone_record list \<Rightarrow> bytes \<Rightarrow> zone_record multiset" where
  "records_at rs k = filter_mset (\<lambda>r. folded (zr_name r) = k) (mset rs)"

definition key_records :: "bytes \<Rightarrow> zone \<Rightarrow> zone_record list" where
  "key_records k z = (case index_get k (z_index z) of None \<Rightarrow> [] | Some s \<Rightarrow> map (zone_record_at z) (slot_positions (z_spills z) s))"

lemma key_records_correct:
  assumes "zone_ok z"
  shows "mset (key_records k z) = records_at (zone_recs z) k"
proof (cases "index_get k (z_index z)")
  case None
  then have "\<not> owned (zone_recs z) k" by (rule index_none [OF assms])
  then show ?thesis using None by (auto simp: key_records_def records_at_def owned_def mset_filter [symmetric] filter_empty_conv)
next
  case (Some s)
  note i = index_slot [OF assms Some]
  have m: "map (zone_record_at z) (slot_positions (z_spills z) s) = map ((!) (zone_recs z)) (slot_positions (z_spills z) s)"
    using i(2) by (intro map_cong refl) (simp add: zone_record_at_recs)
  have "mset (map ((!) (zone_recs z)) (slot_positions (z_spills z) s)) = mset (filter (\<lambda>r. folded (zr_name r) = k) (zone_recs z))"
    using i(2) by (intro mset_positions [OF i(1)]) simp
  then show ?thesis unfolding key_records_def Some option.case m records_at_def mset_filter .
qed

lemma key_records_set: "zone_ok z \<Longrightarrow> set (key_records k z) = {r \<in> set (zone_recs z). folded (zr_name r) = k}"
  using arg_cong [OF key_records_correct [of z k], of set_mset] by (auto simp: records_at_def)

lemma first_of_type_records: "first_of_type k t z = find (\<lambda>r. rd_type (zr_rdata r) = t) (key_records k z)"
  by (simp add: first_of_type_def key_records_def split: option.split)

definition typed_at :: "zone_record list \<Rightarrow> bytes \<Rightarrow> rtype \<Rightarrow> bool" where
  "typed_at rs k t \<longleftrightarrow> (\<exists>r \<in> set rs. folded (zr_name r) = k \<and> rd_type (zr_rdata r) = t)"

lemma has_type_iff: "zone_ok z \<Longrightarrow> has_type k t z \<longleftrightarrow> typed_at (zone_recs z) k t"
  using key_records_set [of z k]
  by (auto simp: has_type_def first_of_type_records typed_at_def find_None_iff)

section \<open>Delegations\<close>

definition cut_above :: "zone_record list \<Rightarrow> bytes \<Rightarrow> bytes \<Rightarrow> bytes \<Rightarrow> bool" where
  "cut_above rs og q d \<longleftrightarrow> d \<in> set (ancestors q) \<and> within og d \<and> d \<noteq> og \<and> typed_at rs d rt_NS"

text \<open>The deepest of the names with a property.\<close>

definition deepest :: "(bytes \<Rightarrow> bool) \<Rightarrow> bytes \<Rightarrow> bool" where
  "deepest P d \<longleftrightarrow> P d \<and> (\<forall>d'. P d' \<longrightarrow> length d' \<le> length d)"

lemma within_apex: "within og d \<Longrightarrow> d \<in> set (ancestors og) \<Longrightarrow> d = og"
  using ancestors_length [of og d] ancestors_length [of d og] by auto

lemma within_parent:
  assumes "within og k" and "k \<noteq> og"
  obtains p where "parent k = Some p" "within og p" "ancestors k = k # ancestors p"
  using assms by (cases "parent k") (auto simp: ancestors_no_parent ancestors_parent)

lemma within_length: "within og k \<Longrightarrow> length og \<le> length k"
  using ancestors_length [of og k] by auto

lemma delegation_walk_correct:
  assumes ok: "zone_ok z" and "within (origin_key z) q"
  shows "(delegation_walk z (ancestors q) = None \<longleftrightarrow> \<not> (\<exists>d. cut_above (zone_recs z) (origin_key z) q d)) \<and>
    (\<forall>d. delegation_walk z (ancestors q) = Some d \<longrightarrow> deepest (cut_above (zone_recs z) (origin_key z) q) d)"
  using assms(2)
proof (induction q rule: ancestors.induct)
  case (1 q)
  let ?og = "origin_key z"
  show ?case
  proof (cases "q = ?og")
    case True
    then have "delegation_walk z (ancestors q) = None" by (subst ancestors.simps) (simp add: Let_def)
    moreover have "\<not> cut_above (zone_recs z) ?og q d" for d
      using within_apex [of ?og d] True by (auto simp: cut_above_def)
    ultimately show ?thesis by simp
  next
    case False
    obtain p where p: "parent q = Some p" "within ?og p" "ancestors q = q # ancestors p"
      by (rule within_parent [OF "1.prems" False])
    have len: "\<not> length q < length ?og" using within_length [OF "1.prems"] by simp
    have cut: "cut_above (zone_recs z) ?og q d \<longleftrightarrow> (d = q \<and> typed_at (zone_recs z) q rt_NS) \<or> cut_above (zone_recs z) ?og p d" for d
      using False "1.prems" p(3) by (auto simp: cut_above_def)
    show ?thesis
    proof (cases "typed_at (zone_recs z) q rt_NS")
      case True
      then have "delegation_walk z (ancestors q) = Some q" using False has_type_iff [OF ok] p(3) by (simp add: Let_def)
      moreover have "length d \<le> length q" if "cut_above (zone_recs z) ?og q d" for d
        using that ancestors_length [of d q] by (auto simp: cut_above_def)
      ultimately show ?thesis using cut True by (auto simp: deepest_def)
    next
      case False': False
      then have "delegation_walk z (ancestors q) = delegation_walk z (ancestors p)"
        using False has_type_iff [OF ok] p(3) len by (simp add: Let_def)
      then show ?thesis using "1.IH" [OF p(1,2)] cut False' by (simp add: deepest_def)
    qed
  qed
qed

lemma delegation_for_key_correct:
  assumes ok: "zone_ok z" and "within (origin_key z) q"
  shows "delegation_for_key q z = None \<longleftrightarrow> \<not> (\<exists>d. cut_above (zone_recs z) (origin_key z) q d)"
    and "delegation_for_key q z = Some d \<Longrightarrow> deepest (cut_above (zone_recs z) (origin_key z) q) d"
proof -
  have "\<not> cut_above (zone_recs z) (origin_key z) q d" if "\<not> sc_delegations (z_shortcuts z)" for d
    using zone_okD(12) [OF ok] that by (auto simp: cut_above_def typed_at_def shortcuts_cover_def)
  then show "delegation_for_key q z = None \<longleftrightarrow> \<not> (\<exists>d. cut_above (zone_recs z) (origin_key z) q d)"
    "delegation_for_key q z = Some d \<Longrightarrow> deepest (cut_above (zone_recs z) (origin_key z) q) d"
    using delegation_walk_correct [OF assms] by (auto simp: delegation_for_key_def split: if_splits)
qed

section \<open>Where a name lands\<close>

definition closest_encloser :: "zone_record list \<Rightarrow> bytes \<Rightarrow> bytes list \<Rightarrow> bytes \<Rightarrow> bool" where
  "closest_encloser rs og as e \<longleftrightarrow> deepest (\<lambda>e. e \<in> set as \<and> within og e \<and> exists_node rs e) e"

definition star :: "bytes \<Rightarrow> bytes" where
  "star e = 1 # 42 # e"

lemma star_parent: "parent (star e) = Some e" "ancestors (star e) = star e # ancestors e"
  by (simp_all add: star_def ancestors_parent)

lemma exists_node_length: "zone_ok z \<Longrightarrow> exists_node (zone_recs z) k \<Longrightarrow> length k \<le> 255"
proof -
  assume ok: "zone_ok z" and "exists_node (zone_recs z) k"
  then obtain r where r: "r \<in> set (zone_recs z)" "k \<in> set (ancestors (folded (zr_name r)))" by (auto simp: exists_node_def)
  then have "length (folded (zr_name r)) \<le> 255" using zone_okD(3) [OF ok] by (auto simp: record_ok_def wf_name_def folded_lower)
  then show ?thesis using ancestors_length [OF r(2)] by auto
qed

lemma prefixed_star: "prefixed [42] e = (if length e \<le> 253 then Inr (star e) else Inl (TooLong ''a domain name'' 255 (length e + 2)))"
  by (simp add: prefixed_def star_def check_name_len_def MAX_LABEL_LEN_def MAX_NAME_LEN_def Let_def)

definition synthesized :: "zone \<Rightarrow> bytes \<Rightarrow> bool" where
  "synthesized z e \<longleftrightarrow> exists_node (zone_recs z) (star e) \<and> \<not> (\<exists>d. cut_above (zone_recs z) (origin_key z) e d) \<and> sc_wildcards (z_shortcuts z)"

lemma encloser_walk_short: "length e < length (origin_key z) \<Longrightarrow> encloser_walk z (ancestors e) = NotFound"
  by (subst ancestors.simps) simp

lemma encloser_walk_correct:
  assumes ok: "zone_ok z" and "within (origin_key z) p"
  shows "encloser_walk z (ancestors p) =
    (if \<exists>e. closest_encloser (zone_recs z) (origin_key z) (ancestors p) e
     then let e = (THE e. closest_encloser (zone_recs z) (origin_key z) (ancestors p) e) in
       if synthesized z e then Wildcard (star e) else NotFound
     else NotFound)"
  using assms(2)
proof (induction p rule: ancestors.induct)
  case (1 p)
  let ?og = "origin_key z" and ?rs = "zone_recs z"
  let ?C = "closest_encloser ?rs ?og"
  have len: "\<not> length p < length ?og" using within_length [OF "1.prems"] by simp
  note node = node_exists_iff [OF ok "1.prems"]
  show ?case
  proof (cases "exists_node ?rs p")
    case True
    have C: "?C (ancestors p) e \<longleftrightarrow> e = p" for e
    proof
      assume "?C (ancestors p) e"
      then have "e \<in> set (ancestors p)" "length p \<le> length e"
        using True "1.prems" by (auto simp: closest_encloser_def deepest_def)
      then show "e = p" using ancestors_length [of e p] by auto
    next
      assume "e = p"
      then show "?C (ancestors p) e"
        using True "1.prems" ancestors_length [of _ p] by (fastforce simp: closest_encloser_def deepest_def)
    qed
    have w: "within ?og (star p)" using "1.prems" by (simp add: star_parent)
    have "encloser_walk z (ancestors p) = (if synthesized z p then Wildcard (star p) else NotFound)"
    proof (cases "length p \<le> 253")
      case True
      then show ?thesis
        using len node \<open>exists_node ?rs p\<close> delegation_for_key_correct(1) [OF ok "1.prems"] node_exists_iff [OF ok w]
        by (subst ancestors.simps) (simp add: prefixed_star synthesized_def node_exists_def)
    next
      case False
      then have "\<not> exists_node ?rs (star p)" using exists_node_length [OF ok, of "star p"] by (auto simp: star_def)
      then show ?thesis using len False node \<open>exists_node ?rs p\<close> by (subst ancestors.simps) (simp add: prefixed_star synthesized_def)
    qed
    moreover have "The (?C (ancestors p)) = p" by (rule the_equality) (simp_all add: C)
    ultimately show ?thesis by (simp add: C)
  next
    case False
    then have step: "encloser_walk z (ancestors p) = encloser_walk z (tl (ancestors p))"
      using len node by (subst (1 2) ancestors.simps) simp
    show ?thesis
    proof (cases "p = ?og")
      case True
      have "encloser_walk z (tl (ancestors p)) = NotFound"
      proof (cases "parent p")
        case None
        then show ?thesis by (simp add: ancestors_no_parent)
      next
        case (Some p')
        then show ?thesis using parent_shorter [OF Some] True encloser_walk_short [of p' z] by (simp add: ancestors_parent)
      qed
      moreover have "\<not> ?C (ancestors p) e" for e
        using within_apex [of ?og e] True False by (auto simp: closest_encloser_def deepest_def)
      ultimately show ?thesis using step by simp
    next
      case False': False
      obtain p' where p: "parent p = Some p'" "within ?og p'" "ancestors p = p # ancestors p'"
        by (rule within_parent [OF "1.prems" False'])
      have C: "?C (ancestors p) e \<longleftrightarrow> ?C (ancestors p') e" for e
        using False p(3) by (auto simp: closest_encloser_def deepest_def)
      have Ceq: "?C (ancestors p) = ?C (ancestors p')" by (intro ext C)
      have w: "encloser_walk z (ancestors p) = encloser_walk z (ancestors p')" using arg_cong [OF p(3), of tl] step by simp
      show ?thesis unfolding w Ceq by (rule "1.IH" [OF p(1,2)])
    qed
  qed
qed

lemma closest_unique:
  assumes "closest_encloser rs og (ancestors p) e" and "closest_encloser rs og (ancestors p) e'"
  shows "e = e'"
  using assms ancestors_length_inj [of e p e'] unfolding closest_encloser_def deepest_def by (metis le_antisym)

lemma within_folded:
  assumes "wf_name n" and "wf_name og"
  shows "within (folded og) (folded n) \<longleftrightarrow> is_at_or_under n og"
proof -
  from assms obtain ls ks where *: "labels_ok ls" "n = wire_of ls" "labels_ok ks" "og = wire_of ks" by (auto elim!: wf_nameE)
  have inj: "wire_of a = wire_of b \<longleftrightarrow> a = b" if "labels_ok a" "labels_ok b" for a b using wire_of_inj that by blast
  have sub: "labels_ok xs" if "suffix xs (map lower ls)" for xs
    using that * by (auto simp: suffix_def dest: arg_cong [of _ _ labels_ok])
  have "within (folded og) (folded n) \<longleftrightarrow> wire_of (map lower ks) \<in> wire_of ` set (suffixes (map lower ls))"
    using * by (simp add: folded_lower lower_wire_of ancestors_wire)
  also have "\<dots> \<longleftrightarrow> suffix (map lower ks) (map lower ls)"
    using inj sub * by (auto simp: in_set_suffixes image_iff)
  finally show ?thesis using * by (simp add: is_at_or_under_wire)
qed

lemma name_kind_of_key_correct:
  assumes ok: "zone_ok z" and "within (origin_key z) q"
  shows "name_kind_of_key q z = Exact \<longleftrightarrow> owned (zone_recs z) q"
    and "name_kind_of_key q z = EmptyNonTerminal \<longleftrightarrow> \<not> owned (zone_recs z) q \<and> exists_node (zone_recs z) q"
    and "name_kind_of_key q z = Wildcard w \<longleftrightarrow> \<not> exists_node (zone_recs z) q \<and>
      (\<exists>e. closest_encloser (zone_recs z) (origin_key z) (tl (ancestors q)) e \<and> w = star e \<and> synthesized z e)"
proof -
  let ?rs = "zone_recs z" and ?og = "origin_key z"
  have ow: "owned ?rs q \<Longrightarrow> exists_node ?rs q" unfolding owned_def exists_node_def using ancestors_self by metis
  have walk: "encloser_walk z (tl (ancestors q)) = Wildcard v \<longleftrightarrow>
      (\<exists>e. closest_encloser ?rs ?og (tl (ancestors q)) e \<and> v = star e \<and> synthesized z e)"
    and other: "encloser_walk z (tl (ancestors q)) \<noteq> Exact" "encloser_walk z (tl (ancestors q)) \<noteq> EmptyNonTerminal" for v
  proof -
    have kinds: "encloser_walk z as \<noteq> Exact \<and> encloser_walk z as \<noteq> EmptyNonTerminal" for as
      by (induction as) (auto split: sum.splits)
    then show "encloser_walk z (tl (ancestors q)) \<noteq> Exact" "encloser_walk z (tl (ancestors q)) \<noteq> EmptyNonTerminal" by auto
    show "encloser_walk z (tl (ancestors q)) = Wildcard v \<longleftrightarrow>
      (\<exists>e. closest_encloser ?rs ?og (tl (ancestors q)) e \<and> v = star e \<and> synthesized z e)"
    proof (cases "q = ?og")
      case True
      have "\<not> closest_encloser ?rs ?og (tl (ancestors q)) e" for e
      proof
        assume "closest_encloser ?rs ?og (tl (ancestors q)) e"
        then have e: "e \<in> set (tl (ancestors q))" "within ?og e" by (auto simp: closest_encloser_def deepest_def)
        then obtain p where p: "parent q = Some p" "e \<in> set (ancestors p)"
          by (cases "parent q") (auto simp: ancestors_no_parent ancestors_parent)
        then have "length e < length ?og" using ancestors_length [OF p(2)] parent_shorter [OF p(1)] True by auto
        then show False using within_length [OF e(2)] by simp
      qed
      moreover have "encloser_walk z (tl (ancestors q)) = NotFound"
        using True parent_shorter [of q] by (cases "parent q") (auto simp: ancestors_no_parent ancestors_parent encloser_walk_short)
      ultimately show ?thesis by simp
    next
      case False
      obtain p where p: "parent q = Some p" "within ?og p" "ancestors q = q # ancestors p"
        by (rule within_parent [OF assms(2) False])
      have the: "(THE e. closest_encloser ?rs ?og (ancestors p) e) = e" if "closest_encloser ?rs ?og (ancestors p) e" for e
        using that closest_unique by blast
      show ?thesis
        using encloser_walk_correct [OF ok p(2)] the p(3) by (auto simp: Let_def split: if_splits)
    qed
  qed
  show "name_kind_of_key q z = Exact \<longleftrightarrow> owned ?rs q"
    and "name_kind_of_key q z = EmptyNonTerminal \<longleftrightarrow> \<not> owned ?rs q \<and> exists_node ?rs q"
    and "name_kind_of_key q z = Wildcard w \<longleftrightarrow> \<not> exists_node ?rs q \<and>
      (\<exists>e. closest_encloser ?rs ?og (tl (ancestors q)) e \<and> w = star e \<and> synthesized z e)"
  proof (atomize (full), cases "index_get q (z_index z)")
    case None
    then have "\<not> exists_node ?rs q" using node_exists_iff [OF assms] by (simp add: node_exists_def contains_key_imap index_get_imap)
    then show "(name_kind_of_key q z = Exact) = owned ?rs q \<and> (name_kind_of_key q z = EmptyNonTerminal) = (\<not> owned ?rs q \<and> exists_node ?rs q) \<and>
        (name_kind_of_key q z = Wildcard w) = (\<not> exists_node ?rs q \<and>
          (\<exists>e. closest_encloser ?rs ?og (tl (ancestors q)) e \<and> w = star e \<and> synthesized z e))"
      using None ow walk other by (auto simp: name_kind_of_key_def)
  next
    case (Some s)
    then have n: "exists_node ?rs q" using node_exists_iff [OF assms] by (auto simp: node_exists_def contains_key_imap index_get_imap)
    then show "(name_kind_of_key q z = Exact) = owned ?rs q \<and> (name_kind_of_key q z = EmptyNonTerminal) = (\<not> owned ?rs q \<and> exists_node ?rs q) \<and>
        (name_kind_of_key q z = Wildcard w) = (\<not> exists_node ?rs q \<and>
          (\<exists>e. closest_encloser ?rs ?og (tl (ancestors q)) e \<and> w = star e \<and> synthesized z e))"
      using index_slot(3) [OF ok Some] Some by (cases s) (auto simp: name_kind_of_key_def)
  qed
qed

lemma of_type_locate:
  assumes ok: "zone_ok z"
  shows "mset (of_type (locate n z) t) = (case name_kind n z of
      Exact \<Rightarrow> filter_mset (\<lambda>r. qtype_matches t (rd_type (zr_rdata r))) (records_at (zone_recs z) (folded n))
    | Wildcard w \<Rightarrow> filter_mset (\<lambda>r. qtype_matches t (rd_type (zr_rdata r))) (records_at (zone_recs z) w)
    | EmptyNonTerminal \<Rightarrow> {#} | NotFound \<Rightarrow> {#})"
proof -
  have ty: "rs_type (sr_rdata (z_records z ! i)) = rd_type (zr_rdata (zone_record_at z i))" for i
    by (simp add: zone_record_at_def record_of_def rdata_arena_get_def)
  have at: "mset (map (zone_record_at z) (filter (\<lambda>i. qtype_matches t (rs_type (sr_rdata (z_records z ! i))))
      (case index_get k (z_index z) of None \<Rightarrow> [] | Some s \<Rightarrow> slot_positions (z_spills z) s))) =
    filter_mset (\<lambda>r. qtype_matches t (rd_type (zr_rdata r))) (records_at (zone_recs z) k)" for k
  proof -
    have "map (zone_record_at z) (filter (\<lambda>i. qtype_matches t (rs_type (sr_rdata (z_records z ! i)))) ps) =
        filter (\<lambda>r. qtype_matches t (rd_type (zr_rdata r))) (map (zone_record_at z) ps)" for ps
      unfolding ty by (simp add: filter_map comp_def)
    moreover have "key_records k z = map (zone_record_at z) (case index_get k (z_index z) of None \<Rightarrow> [] | Some s \<Rightarrow> slot_positions (z_spills z) s)"
      by (simp add: key_records_def split: option.split)
    ultimately show ?thesis using key_records_correct [OF ok, of k] by simp
  qed
  show ?thesis
    using at [of "folded n"] at
    by (simp add: of_type_def locate_def name_kind_def Let_def split: NameKind.split)
qed

section \<open>DNAME\<close>

definition dname_node :: "zone_record list \<Rightarrow> bytes \<Rightarrow> bytes list \<Rightarrow> bytes \<Rightarrow> bool" where
  "dname_node rs og as c \<longleftrightarrow> c \<in> set as \<and> within og c \<and> typed_at rs c rt_DNAME"

lemma first_of_type_iff:
  assumes "zone_ok z"
  shows "first_of_type k t z = None \<longleftrightarrow> \<not> typed_at (zone_recs z) k t"
    and "first_of_type k t z = Some r \<Longrightarrow> r \<in> set (zone_recs z) \<and> folded (zr_name r) = k \<and> rd_type (zr_rdata r) = t"
  using key_records_set [OF assms, of k]
  by (auto simp: first_of_type_records typed_at_def find_None_iff dest!: find_SomeD)

lemma dname_walk_correct:
  assumes ok: "zone_ok z" and "within (origin_key z) p"
  shows "(\<not> (\<exists>c. dname_node (zone_recs z) (origin_key z) (ancestors p) c) \<longrightarrow> dname_walk z (ancestors p) found = found) \<and>
    ((\<exists>c. dname_node (zone_recs z) (origin_key z) (ancestors p) c) \<longrightarrow>
      (\<exists>r c. dname_walk z (ancestors p) found = Some r \<and> first_of_type c rt_DNAME z = Some r \<and>
        dname_node (zone_recs z) (origin_key z) (ancestors p) c \<and>
        (\<forall>c'. dname_node (zone_recs z) (origin_key z) (ancestors p) c' \<longrightarrow> length c \<le> length c')))"
  using assms(2)
proof (induction p arbitrary: found rule: ancestors.induct)
  case (1 p)
  let ?og = "origin_key z" and ?rs = "zone_recs z"
  let ?D = "dname_node ?rs ?og"
  have len: "\<not> length p < length ?og" using within_length [OF "1.prems"] by simp
  let ?f = "case first_of_type p rt_DNAME z of Some r \<Rightarrow> Some r | None \<Rightarrow> found"
  have ft: "first_of_type p rt_DNAME z = None \<longleftrightarrow> \<not> typed_at ?rs p rt_DNAME" by (rule first_of_type_iff(1) [OF ok])
  show ?case
  proof (cases "p = ?og")
    case True
    then have D: "?D (ancestors p) c \<longleftrightarrow> c = p \<and> typed_at ?rs p rt_DNAME" for c
      using within_apex [of ?og c] by (auto simp: dname_node_def)
    have "dname_walk z (ancestors p) found = ?f" using True by (subst ancestors.simps) (simp add: Let_def)
    then show ?thesis using ft D by (cases "first_of_type p rt_DNAME z") auto
  next
    case False
    obtain p' where p: "parent p = Some p'" "within ?og p'" "ancestors p = p # ancestors p'"
      by (rule within_parent [OF "1.prems" False])
    have D: "?D (ancestors p) c \<longleftrightarrow> (c = p \<and> typed_at ?rs p rt_DNAME) \<or> ?D (ancestors p') c" for c
      using p(3) "1.prems" by (auto simp: dname_node_def)
    have step: "dname_walk z (ancestors p) found = dname_walk z (ancestors p') ?f" using p(3) len False by (simp add: Let_def)
    have short: "length c < length p" if "?D (ancestors p') c" for c
      using that ancestors_length [of c p'] parent_shorter [OF p(1)] by (auto simp: dname_node_def)
    note IH = "1.IH" [OF p(1,2), of ?f]
    show ?thesis
    proof (cases "\<exists>c. ?D (ancestors p') c")
      case True
      then show ?thesis using IH step D short by (metis less_imp_le_nat)
    next
      case F: False
      then have w: "dname_walk z (ancestors p) found = ?f" using IH step by simp
      show ?thesis
      proof (cases "first_of_type p rt_DNAME z")
        case None
        then show ?thesis using w D F ft by simp
      next
        case (Some r)
        then show ?thesis using w D F ft by auto
      qed
    qed
  qed
qed

section \<open>Properties\<close>

text \<open>
  C7. Whatever was done to a zone from the empty one on (records added, added from their parsed form
  or refused there, removed, the apex moved), its records are those added and not removed, and its
  derived state agrees with them: the index has at each name exactly the positions of its records and
  the right count of children, and holds no name that is not needed; the chains point at denial
  records filed under their own key; no walk is skipped that could find something. A removal at a
  position the zone holds then succeeds while the arenas are below 4 GiB.
\<close>

theorem zone_run_correct:
  assumes "zone_run z M"
  shows "zone_ok z \<and> mset (zone_recs z) = M \<and>
    (p < size M \<longrightarrow> length (z_names z) < 2 ^ 32 \<longrightarrow> length (z_rdata z) < 2 ^ 32 \<longrightarrow>
      (\<exists>r z'. remove_record p z = Some (r, z') \<and> r \<in># M \<and> zone_run z' (M - {#r#})))"
proof -
  have ok: "zone_ok z" and M: "mset (zone_recs z) = M" using zone_run_ok [OF assms] by auto
  have "\<exists>r z'. remove_record p z = Some (r, z') \<and> r \<in># M \<and> zone_run z' (M - {#r#})"
    if size: "p < size M" and len: "length (z_names z) < 2 ^ 32" "length (z_rdata z) < 2 ^ 32"
  proof -
    have p: "p < length (zone_recs z)" using size M by (metis size_mset)
    obtain r z' where r: "remove_record p z = Some (r, z')" using remove_record_ok(2) [OF ok p len] by auto
    then have "r = zone_recs z ! p" using remove_record_ok(1) [OF ok p] by blast
    then have "r \<in># M" using p M by auto
    then show ?thesis using r zr_remove [OF assms r] by blast
  qed
  then show ?thesis using ok M by blast
qed

text \<open>
  The wildcard that answers for a name, of the records alone (RFC 4592): the name does not exist, the
  wildcard is directly below the closest encloser of the name and exists, be it as an empty
  non-terminal, and no delegation lies at the encloser or between it and the apex.
\<close>

definition wildcard_for :: "zone_record list \<Rightarrow> bytes \<Rightarrow> bytes \<Rightarrow> bytes \<Rightarrow> bool" where
  "wildcard_for rs og q w \<longleftrightarrow> \<not> exists_node rs q \<and>
     (\<exists>e. closest_encloser rs og (tl (ancestors q)) e \<and> w = star e \<and> exists_node rs w \<and> \<not> (\<exists>d. cut_above rs og e d))"

definition wildcard_owned :: "zone_record list \<Rightarrow> bool" where
  "wildcard_owned rs \<longleftrightarrow> (\<exists>r \<in> set rs. take 2 (folded (zr_name r)) = [1, 42])"

lemma name_kind_wildcard:
  assumes "zone_ok z" and "within (origin_key z) (folded n)"
  shows "name_kind n z = Wildcard w \<longleftrightarrow> wildcard_for (zone_recs z) (origin_key z) (folded n) w \<and> sc_wildcards (z_shortcuts z)"
    and "wildcard_owned (zone_recs z) \<Longrightarrow> sc_wildcards (z_shortcuts z)"
  using name_kind_of_key_correct(3) [OF assms] zone_okD(12) [OF assms(1)]
  by (auto simp: name_kind_def wildcard_for_def synthesized_def wildcard_owned_def shortcuts_cover_def)

text \<open>
  C8. Where a name at or under the apex lands, in terms of the zone's records alone. It is exact when a
  record is owned at it, and an empty non-terminal when none is and one is owned below it. It is
  answered by a wildcard only if RFC 4592 says so: no name between it and its closest encloser exists,
  the wildcard is directly below that encloser and exists, and no delegation lies between the encloser
  and the apex. In a zone where some record is owned by a wildcard the converse holds too, so that the
  landing is RFC 4592's; a zone with no such record may pass over a wildcard that exists only as an
  empty non-terminal. The records \<^verbatim>\<open>query\<close> gives are all those of the type at the name or at the
  wildcard, each as often as the zone has it.
\<close>

theorem locate_correct:
  assumes "zone_ok z" and "wf_name n" and "is_at_or_under n (z_origin z)"
  defines "q \<equiv> folded n" and "og \<equiv> folded (z_origin z)" and "rs \<equiv> zone_recs z"
  shows "(name_kind n z = Exact \<longleftrightarrow> owned rs q) \<and>
    (name_kind n z = EmptyNonTerminal \<longleftrightarrow> \<not> owned rs q \<and> exists_node rs q) \<and>
    (\<forall>w. name_kind n z = Wildcard w \<longrightarrow> wildcard_for rs og q w) \<and>
    (wildcard_owned rs \<longrightarrow> (\<forall>w. wildcard_for rs og q w \<longrightarrow> name_kind n z = Wildcard w)) \<and>
    mset (zone_query n t z) = (case name_kind n z of
      Exact \<Rightarrow> filter_mset (\<lambda>r. qtype_matches t (rd_type (zr_rdata r))) (records_at rs q)
    | Wildcard w \<Rightarrow> filter_mset (\<lambda>r. qtype_matches t (rd_type (zr_rdata r))) (records_at rs w)
    | EmptyNonTerminal \<Rightarrow> {#} | NotFound \<Rightarrow> {#})"
proof -
  have w: "within (origin_key z) (folded n)"
    unfolding origin_key_def using within_folded [OF assms(2) zone_okD(1) [OF assms(1)]] assms(3) by simp
  have og: "origin_key z = og" by (simp add: origin_key_def og_def)
  note k = name_kind_of_key_correct(1,2) [OF assms(1) w, folded name_kind_def, folded q_def rs_def]
    and c = name_kind_wildcard [OF assms(1) w, unfolded og, folded q_def rs_def]
  have "zone_query n t z = of_type (locate n z) t" by (simp add: zone_query_def query_with_kind_def Let_def)
  then show ?thesis using k c of_type_locate [OF assms(1), of n t, folded q_def rs_def] by simp
qed

text \<open>Cuts and DNAMEs above a name, in terms of the records.\<close>

lemma referrals:
  assumes "zone_ok z" and "wf_name n" and "is_at_or_under n (z_origin z)"
  defines "q \<equiv> folded n" and "og \<equiv> folded (z_origin z)" and "rs \<equiv> zone_recs z"
  shows "(delegation_for n z = None \<longleftrightarrow> \<not> (\<exists>d. cut_above rs og q d)) \<and>
    (\<forall>d. delegation_for n z = Some d \<longrightarrow> deepest (cut_above rs og q) d) \<and>
    (dname_above n z = None \<longleftrightarrow> \<not> (\<exists>c. dname_node rs og (tl (ancestors q)) c)) \<and>
    (\<forall>r. dname_above n z = Some r \<longrightarrow> r \<in> set rs \<and> rd_type (zr_rdata r) = rt_DNAME \<and>
      dname_node rs og (tl (ancestors q)) (folded (zr_name r)) \<and>
      (\<forall>c. dname_node rs og (tl (ancestors q)) c \<longrightarrow> length (folded (zr_name r)) \<le> length c))"
proof -
  have w: "within (origin_key z) q"
    unfolding q_def origin_key_def using within_folded [OF assms(2) zone_okD(1) [OF assms(1)]] assms(3) by simp
  have og: "origin_key z = og" by (simp add: origin_key_def og_def)
  note d = delegation_for_key_correct [OF assms(1) w, unfolded og rs_def [symmetric]]
  have del: "delegation_for n z = delegation_for_key q z" by (simp add: delegation_for_def delegation_for_key_def q_def)
  have dn: "dname_above n z = (if \<not> sc_dnames (z_shortcuts z) then None else dname_walk z (tl (ancestors q)) None)"
    by (simp add: dname_above_def dname_above_key_def q_def)
  have off: "\<not> dname_node rs og as c" if "\<not> sc_dnames (z_shortcuts z)" for as c
    using zone_okD(12) [OF assms(1)] that by (auto simp: dname_node_def typed_at_def shortcuts_cover_def rs_def)
  have "(\<not> (\<exists>c. dname_node rs og (tl (ancestors q)) c) \<longrightarrow> dname_walk z (tl (ancestors q)) None = None) \<and>
    ((\<exists>c. dname_node rs og (tl (ancestors q)) c) \<longrightarrow>
      (\<exists>r c. dname_walk z (tl (ancestors q)) None = Some r \<and> first_of_type c rt_DNAME z = Some r \<and>
        dname_node rs og (tl (ancestors q)) c \<and> (\<forall>c'. dname_node rs og (tl (ancestors q)) c' \<longrightarrow> length c \<le> length c')))"
  proof (cases "q = og")
    case True
    have short: "length c < length og" if "c \<in> set (tl (ancestors q))" for c
    proof -
      from that obtain p where p: "parent q = Some p" "c \<in> set (ancestors p)"
        by (cases "parent q") (auto simp: ancestors_no_parent ancestors_parent)
      then show ?thesis using ancestors_length [OF p(2)] parent_shorter [OF p(1)] True by auto
    qed
    then have "\<not> dname_node rs og (tl (ancestors q)) c" for c using within_length [of og c] by (fastforce simp: dname_node_def)
    moreover have "dname_walk z (tl (ancestors q)) None = None"
      using short og by (cases "tl (ancestors q)") auto
    ultimately show ?thesis by simp
  next
    case False
    then obtain p where p: "parent q = Some p" "within og p" "ancestors q = q # ancestors p"
      using within_parent [OF w [unfolded og]] by blast
    show ?thesis using dname_walk_correct [OF assms(1), of p None] p(2,3) by (simp add: og rs_def)
  qed
  then show ?thesis
    unfolding del dn using d off first_of_type_iff(2) [OF assms(1), folded rs_def] by (auto split: if_splits)
qed

text \<open>
  C9. The delegation for a name at or under the apex is its deepest ancestor or itself, strictly below
  the apex, that has an NS RRset, and none when there is none; the DNAME that redirects it is one at
  the shallowest strict ancestor within the zone that has one. The shortcuts never hide either.
\<close>

theorem referrals_correct:
  assumes "zone_ok z" and "wf_name n" and "is_at_or_under n (z_origin z)"
  defines "q \<equiv> folded n" and "og \<equiv> folded (z_origin z)" and "rs \<equiv> zone_recs z"
  shows "(delegation_for n z = None \<longleftrightarrow> \<not> (\<exists>d. cut_above rs og q d)) \<and>
    (\<forall>d. delegation_for n z = Some d \<longrightarrow> deepest (cut_above rs og q) d) \<and>
    (dname_above n z = None \<longleftrightarrow> \<not> (\<exists>c. dname_node rs og (tl (ancestors q)) c)) \<and>
    (\<forall>r. dname_above n z = Some r \<longrightarrow> r \<in> set rs \<and> rd_type (zr_rdata r) = rt_DNAME \<and>
      dname_node rs og (tl (ancestors q)) (folded (zr_name r)) \<and>
      (\<forall>c. dname_node rs og (tl (ancestors q)) c \<longrightarrow> length (folded (zr_name r)) \<le> length c))"
  using referrals [OF assms(1-3)] unfolding q_def og_def rs_def .

section \<open>Small zones\<close>

lemma zone_add_fields:
  assumes "zone_add r z = Some z'"
  shows "z_names z' = z_names z @ zr_name r" "z_rdata z' = z_rdata z @ rd_bytes (zr_rdata r)" "z_origin z' = z_origin z"
    "z_shortcuts z' = shortcuts_note (folded (zr_name r)) (rd_type (zr_rdata r)) (folded (zr_name r) = folded (z_origin z)) (z_shortcuts z)"
  using assms
  by (auto simp: zone_add_def take_in_def rdata_arena_push_def arena_push_def Let_def split: if_splits prod.splits option.splits)

fun zone_of :: "name \<Rightarrow> zone_record list \<Rightarrow> zone option" where
  "zone_of og [] = Some (zone_new og)"
| "zone_of og (r # rs) = (case zone_of og rs of None \<Rightarrow> None | Some z \<Rightarrow> zone_add r z)"

lemma zone_of_ok:
  assumes "wf_name og" and "\<forall>r \<in> set rs. record_ok r"
    and "octets_used zr_name rs < 2 ^ 32" and "octets_used (rd_bytes \<circ> zr_rdata) rs < 2 ^ 32"
  shows "\<exists>z. zone_of og rs = Some z \<and> zone_run z (mset rs) \<and> z_origin z = og \<and>
    length (z_names z) = octets_used zr_name rs \<and> length (z_rdata z) = octets_used (rd_bytes \<circ> zr_rdata) rs \<and>
    (sc_wildcards (z_shortcuts z) \<longleftrightarrow> (\<exists>r \<in> set rs. take 2 (folded (zr_name r)) = [1, 42]))"
  using assms(2-)
proof (induction rs)
  case Nil
  then show ?case using zr_new [OF assms(1)] by (auto simp: zone_new_def octets_used_def shortcuts_default_def)
next
  case (Cons r rs)
  then obtain z where z: "zone_of og rs = Some z" "zone_run z (mset rs)" "z_origin z = og" "length (z_names z) = octets_used zr_name rs"
    "length (z_rdata z) = octets_used (rd_bytes \<circ> zr_rdata) rs"
    "sc_wildcards (z_shortcuts z) \<longleftrightarrow> (\<exists>r \<in> set rs. take 2 (folded (zr_name r)) = [1, 42])"
    by (auto simp: octets_used_def)
  have "zone_ok z" using zone_run_ok [OF z(2)] by simp
  moreover have "record_ok r" using Cons.prems(1) by simp
  ultimately have "zone_add r z \<noteq> None"
    using zone_add_ok(1) [of z r] z(4,5) Cons.prems(2,3) by (auto simp: octets_used_def)
  then obtain z' where a: "zone_add r z = Some z'" by auto
  have "zone_run z' (mset (r # rs))" using zr_add [OF z(2) _ a] \<open>record_ok r\<close> by simp
  then show ?case using a z zone_add_fields [OF a] by (auto simp: octets_used_def shortcuts_note_def)
qed

definition a_record :: "name \<Rightarrow> zone_record" where
  "a_record n = \<lparr>zr_name = n, zr_ttl = 60, zr_class = 1, zr_rdata = \<lparr>rd_type = rt_A, rd_bytes = [192, 0, 2, 1]\<rparr>\<rparr>"

lemma wf_small: "wf_name [1, 120, 0]" "wf_name [1, 97, 1, 42, 1, 120, 0]" "wf_name [1, 42, 1, 99, 1, 120, 0]" "wf_name [1, 98, 1, 120, 0]"
  using wf_name_wire_of [of "[[120]]"] wf_name_wire_of [of "[[97], [42], [120]]"] wf_name_wire_of [of "[[42], [99], [120]]"]
    wf_name_wire_of [of "[[98], [120]]"]
  by (simp_all add: label_ok_def)

lemma folded_small [simp]:
  "folded [1, 120, 0] = [1, 120, 0]" "folded [1, 97, 1, 42, 1, 120, 0] = [1, 97, 1, 42, 1, 120, 0]"
  "folded [1, 42, 1, 99, 1, 120, 0] = [1, 42, 1, 99, 1, 120, 0]" "folded [1, 98, 1, 120, 0] = [1, 98, 1, 120, 0]"
  by (simp_all add: folded_def is_upper_def word_le_nat_alt)

lemma ancestors_small [simp]:
  "ancestors [1, 97, 1, 42, 1, 120, 0] = [[1, 97, 1, 42, 1, 120, 0], [1, 42, 1, 120, 0], [1, 120, 0], [0]]"
  "ancestors [1, 42, 1, 99, 1, 120, 0] = [[1, 42, 1, 99, 1, 120, 0], [1, 99, 1, 120, 0], [1, 120, 0], [0]]"
  "ancestors [1, 98, 1, 120, 0] = [[1, 98, 1, 120, 0], [1, 120, 0], [0]]"
  "ancestors [1, 120, 0] = [[1, 120, 0], [0]]"
  by (simp_all add: ancestors.simps)

text \<open>
  A wildcard that is only an empty non-terminal is found or not depending on an unrelated record:
  in the zone \<^verbatim>\<open>x.\<close> with a record at \<^verbatim>\<open>a.*.x.\<close> alone, \<^verbatim>\<open>b.x.\<close> does not exist, although \<^verbatim>\<open>*.x.\<close> is a
  node below its closest encloser; with one more record, at \<^verbatim>\<open>*.c.x.\<close>, it is answered by \<^verbatim>\<open>*.x.\<close>.
\<close>

theorem wildcard_non_terminal_hidden:
  "\<exists>z1 z2. zone_of [1, 120, 0] [a_record [1, 97, 1, 42, 1, 120, 0]] = Some z1 \<and>
     zone_of [1, 120, 0] [a_record [1, 42, 1, 99, 1, 120, 0], a_record [1, 97, 1, 42, 1, 120, 0]] = Some z2 \<and>
     name_kind [1, 98, 1, 120, 0] z1 = NotFound \<and> name_kind [1, 98, 1, 120, 0] z2 = Wildcard [1, 42, 1, 120, 0]"
proof -
  let ?r1 = "a_record [1, 97, 1, 42, 1, 120, 0]" and ?r2 = "a_record [1, 42, 1, 99, 1, 120, 0]" and ?q = "[1, 98, 1, 120, 0] :: bytes"
  have rok: "record_ok ?r1" "record_ok ?r2" using wf_small by (simp_all add: record_ok_def a_record_def)
  have w: "within [1, 120, 0] ?q" by simp
  obtain z1 where z1: "zone_of [1, 120, 0] [?r1] = Some z1" "zone_run z1 (mset [?r1])" "z_origin z1 = [1, 120, 0]"
    "\<not> sc_wildcards (z_shortcuts z1)"
    using zone_of_ok [of "[1, 120, 0]" "[?r1]"] wf_small(1) rok by (auto simp: octets_used_def a_record_def)
  have ok1: "zone_ok z1" and rs1: "set (zone_recs z1) = {?r1}"
    using zone_run_ok [OF z1(2)] arg_cong [of _ _ set_mset] by (auto dest!: arg_cong [of "mset _" _ set_mset])
  have og1: "origin_key z1 = [1, 120, 0]" by (simp add: origin_key_def z1)
  note k1 = name_kind_of_key_correct [OF ok1, of ?q, unfolded og1, OF w]
  have "\<not> owned (zone_recs z1) ?q" "\<not> exists_node (zone_recs z1) ?q"
    by (auto simp: owned_def exists_node_def rs1 a_record_def)
  then have n1: "name_kind ?q z1 = NotFound"
    using k1 z1(4) by (cases "name_kind ?q z1") (auto simp: name_kind_def synthesized_def)
  obtain z2 where z2: "zone_of [1, 120, 0] [?r2, ?r1] = Some z2" "zone_run z2 (mset [?r2, ?r1])" "z_origin z2 = [1, 120, 0]"
    "sc_wildcards (z_shortcuts z2)"
    using zone_of_ok [of "[1, 120, 0]" "[?r2, ?r1]"] wf_small(1) rok by (auto simp: octets_used_def a_record_def)
  have ok2: "zone_ok z2" and rs2: "set (zone_recs z2) = {?r1, ?r2}"
    using zone_run_ok [OF z2(2)] by (auto dest!: arg_cong [of "mset _" _ set_mset])
  have og2: "origin_key z2 = [1, 120, 0]" by (simp add: origin_key_def z2)
  note k2 = name_kind_of_key_correct [OF ok2, of ?q, unfolded og2, OF w]
  have "\<not> exists_node (zone_recs z2) ?q" by (auto simp: exists_node_def rs2 a_record_def)
  moreover have "closest_encloser (zone_recs z2) [1, 120, 0] (tl (ancestors ?q)) [1, 120, 0]"
    by (auto simp: closest_encloser_def deepest_def exists_node_def rs2 a_record_def)
  moreover have "synthesized z2 [1, 120, 0]"
    using z2(4) by (auto simp: synthesized_def exists_node_def rs2 a_record_def star_def cut_above_def typed_at_def rtype_defs)
  ultimately have "name_kind ?q z2 = Wildcard [1, 42, 1, 120, 0]"
    using k2(3) by (auto simp: name_kind_def star_def)
  with n1 z1(1) z2(1) show ?thesis by blast
qed

lemma apex_zone:
  "\<exists>z. zone_of [1, 120, 0] [a_record [1, 120, 0]] = Some z \<and> zone_run z {#a_record [1, 120, 0]#} \<and> z_origin z = [1, 120, 0] \<and>
    length (z_names z) < 2 ^ 32 \<and> length (z_rdata z) < 2 ^ 32"
  using zone_of_ok [of "[1, 120, 0]" "[a_record [1, 120, 0]]"] wf_small(1) by (auto simp: octets_used_def a_record_def record_ok_def)

theorem zone_run_correct_witness:
  "\<exists>z r z'. zone_run z {#a_record [1, 120, 0]#} \<and> mset (zone_recs z) = {#a_record [1, 120, 0]#} \<and>
    remove_record 0 z = Some (r, z') \<and> zone_run z' {#}"
proof -
  obtain z where z: "zone_run z {#a_record [1, 120, 0]#}" "length (z_names z) < 2 ^ 32" "length (z_rdata z) < 2 ^ 32"
    using apex_zone by blast
  show ?thesis using zone_run_correct [OF z(1), of 0] z by auto
qed

lemma star_zone:
  fixes r :: zone_record
  defines "r \<equiv> a_record [1, 42, 1, 99, 1, 120, 0]"
  obtains z where "zone_run z {#r#}" "zone_ok z" "z_origin z = [1, 120, 0]" "set (zone_recs z) = {r}"
proof -
  obtain z where z: "zone_run z (mset [r])" "z_origin z = [1, 120, 0]"
    using zone_of_ok [of "[1, 120, 0]" "[r]"] wf_small(1,3) by (auto simp: octets_used_def a_record_def r_def record_ok_def)
  then show ?thesis
    using zone_run_ok [OF z(1)] by (intro that [of z]) (auto dest!: arg_cong [of "mset _" _ set_mset])
qed

text \<open>The zone \<^verbatim>\<open>x.\<close> with a record at \<^verbatim>\<open>*.c.x.\<close>: \<^verbatim>\<open>a.c.x.\<close> is answered by it, and \<^verbatim>\<open>b.x.\<close> by nothing.\<close>

theorem locate_correct_witness:
  "\<exists>z. zone_run z {#a_record [1, 42, 1, 99, 1, 120, 0]#} \<and>
    name_kind [1, 97, 1, 99, 1, 120, 0] z = Wildcard [1, 42, 1, 99, 1, 120, 0] \<and>
    zone_query [1, 97, 1, 99, 1, 120, 0] rt_A z = [a_record [1, 42, 1, 99, 1, 120, 0]] \<and>
    name_kind [1, 99, 1, 120, 0] z = EmptyNonTerminal \<and> name_kind [1, 98, 1, 120, 0] z = NotFound"
proof -
  let ?r = "a_record [1, 42, 1, 99, 1, 120, 0]"
  obtain z where z: "zone_run z {#?r#}" "zone_ok z" "z_origin z = [1, 120, 0]" "set (zone_recs z) = {?r}" by (rule star_zone)
  have m: "mset (zone_recs z) = {#?r#}" using zone_run_ok [OF z(1)] by simp
  let ?a = "[1, 97, 1, 99, 1, 120, 0] :: bytes" and ?b = "[1, 98, 1, 120, 0] :: bytes" and ?c = "[1, 99, 1, 120, 0] :: bytes"
  have wf: "wf_name ?a" "wf_name ?b" "wf_name ?c"
    using wf_name_wire_of [of "[[97], [99], [120]]"] wf_name_wire_of [of "[[98], [120]]"] wf_name_wire_of [of "[[99], [120]]"]
    by (simp_all add: label_ok_def)
  have f [simp]: "folded ?a = ?a" "folded ?c = ?c" by (simp_all add: folded_def is_upper_def word_le_nat_alt)
  have anc [simp]: "ancestors ?a = [?a, ?c, [1, 120, 0], [0]]" "ancestors ?c = [?c, [1, 120, 0], [0]]" by (simp_all add: ancestors.simps)
  have under: "is_at_or_under ?a (z_origin z)" "is_at_or_under ?b (z_origin z)" "is_at_or_under ?c (z_origin z)"
    using z(3) by (simp_all add: is_at_or_under_def name_eq_def eq_ignore_case_def)
  note l = locate_correct [OF z(2) wf(1) under(1), unfolded z(3), of rt_A] locate_correct [OF z(2) wf(2) under(2), unfolded z(3), of rt_A]
    locate_correct [OF z(2) wf(3) under(3), unfolded z(3), of rt_A]
  have node: "exists_node (zone_recs z) e \<longleftrightarrow> e \<in> {[1, 42, 1, 99, 1, 120, 0], ?c, [1, 120, 0], [0]}" for e
    by (auto simp: exists_node_def z(4) a_record_def)
  have enc: "closest_encloser (zone_recs z) [1, 120, 0] [?c, [1, 120, 0], [0]] ?c"
    by (auto simp: closest_encloser_def deepest_def node)
  have "\<not> cut_above (zone_recs z) [1, 120, 0] ?c d" for d
    by (simp add: cut_above_def typed_at_def z(4) a_record_def rtype_defs)
  then have wild: "wildcard_owned (zone_recs z)" "wildcard_for (zone_recs z) [1, 120, 0] ?a [1, 42, 1, 99, 1, 120, 0]"
    unfolding wildcard_for_def using enc by (auto simp: wildcard_owned_def z(4) a_record_def node star_def intro!: exI [of _ ?c])
  then have a: "name_kind ?a z = Wildcard [1, 42, 1, 99, 1, 120, 0]" using l(1) unfolding f folded_small by blast
  have "mset (zone_query ?a rt_A z) = {#?r#}"
    using conjunct2 [OF conjunct2 [OF conjunct2 [OF conjunct2 [OF l(1)]]]] unfolding a by (simp add: records_at_def m a_record_def qtype_matches_def rtype_defs)
  moreover have "name_kind ?c z = EmptyNonTerminal" using conjunct1 [OF conjunct2 [OF l(3)]] by (simp add: owned_def node z(4) a_record_def)
  moreover have "name_kind ?b z = NotFound"
  proof (cases "name_kind ?b z")
    case (Wildcard w)
    then have "wildcard_for (zone_recs z) [1, 120, 0] ?b w" using l(2) by simp
    then show ?thesis by (auto simp: wildcard_for_def node closest_encloser_def deepest_def star_def)
  qed (use conjunct1 [OF l(2)] conjunct1 [OF conjunct2 [OF l(2)]] in \<open>simp_all add: owned_def node z(4) a_record_def\<close>)
  ultimately show ?thesis using z(1) a by auto
qed

theorem referrals_correct_witness:
  "\<exists>z. zone_run z {#a_record [1, 120, 0]#} \<and> delegation_for [1, 98, 1, 120, 0] z = None \<and> dname_above [1, 98, 1, 120, 0] z = None"
proof -
  obtain z where z: "zone_run z {#a_record [1, 120, 0]#}" "z_origin z = [1, 120, 0]" using apex_zone by blast
  have ok: "zone_ok z" and rs: "set (zone_recs z) = {a_record [1, 120, 0]}"
    using zone_run_ok [OF z(1)] by (auto dest!: arg_cong [of "mset _" _ set_mset])
  have "is_at_or_under [1, 98, 1, 120, 0] (z_origin z)" using z(2) by (simp add: is_at_or_under_def name_eq_def eq_ignore_case_def)
  then show ?thesis
    using referrals_correct [OF ok wf_small(4)] z(1)
    by (auto simp: rs a_record_def cut_above_def dname_node_def typed_at_def rtype_defs)
qed

end
