(* ===== verification/Axfr.thy ===== *)
theory Axfr
  imports ZoneLookup Padding
begin

text \<open>
  The serving side of a zone transfer, \<^verbatim>\<open>rdns/src/transfer.rs\<close>: the records of an AXFR in wire order
  and their packing into messages. A zone record and a record of a message differ only in how they
  are held; \<open>rr_of\<close> and \<open>zr_of\<close> turn one into the other. What a transfer keeps of a record is its
  \<open>rkey\<close>: the owner name without its case, class, TTL and RDATA.
\<close>

section \<open>Records\<close>

definition rr_of :: "zone_record \<Rightarrow> resource_record" where
  "rr_of r = \<lparr>rr_name = zr_name r, rr_class = zr_class r, rr_ttl = zr_ttl r, rr_data = zr_rdata r\<rparr>"

definition zr_of :: "resource_record \<Rightarrow> zone_record" where
  "zr_of r = \<lparr>zr_name = rr_name r, zr_ttl = rr_ttl r, zr_class = rr_class r, zr_rdata = rr_data r\<rparr>"

lemma rr_zr [simp]: "rr_of (zr_of r) = r" "zr_of (rr_of z) = z"
  by (simp_all add: rr_of_def zr_of_def)

lemma rr_of_simps [simp]:
  "rr_name (rr_of z) = zr_name z" "rr_class (rr_of z) = zr_class z" "rr_ttl (rr_of z) = zr_ttl z" "rr_data (rr_of z) = zr_rdata z"
  "zr_name (zr_of r) = rr_name r" "zr_class (zr_of r) = rr_class r" "zr_ttl (zr_of r) = rr_ttl r" "zr_rdata (zr_of r) = rr_data r"
  by (simp_all add: rr_of_def zr_of_def)

type_synonym rkey = "bytes \<times> dclass \<times> ttl \<times> record_data"

definition rkey :: "resource_record \<Rightarrow> rkey" where
  "rkey r = (folded (rr_name r), rr_class r, rr_ttl r, rr_data r)"

abbreviation zkey :: "zone_record \<Rightarrow> rkey" where
  "zkey r \<equiv> rkey (rr_of r)"

definition zone_content :: "zone \<Rightarrow> rkey multiset" where
  "zone_content z = image_mset zkey (mset (zone_recs z))"

section \<open>The records of an AXFR\<close>

definition AXFR_TARGET_MESSAGE_SIZE :: nat where "AXFR_TARGET_MESSAGE_SIZE = 16 * 1024"

text \<open>The iterator run to its end: the apex SOA, every record that is not one, and the apex SOA again.\<close>

definition axfr_records :: "zone \<Rightarrow> resource_record \<Rightarrow> resource_record list" where
  "axfr_records z soa = soa # map rr_of (filter (\<lambda>r. \<not> is_apex_soa r z) (zone_recs z)) @ [soa]"

section \<open>Envelopes\<close>

definition record_cost :: "resource_record \<Rightarrow> nat" where
  "record_cost r = length (rr_name r) + 10 + length (rd_bytes (rr_data r))"

text \<open>The records one call of \<^verbatim>\<open>next\<close> takes, given those it has and their estimate; the rest with the one carried over.\<close>

fun fill_envelope :: "resource_record list \<Rightarrow> nat \<Rightarrow> resource_record list \<Rightarrow> resource_record list \<times> resource_record list" where
  "fill_envelope current estimated [] = (current, [])"
| "fill_envelope current estimated (r # rs) =
     (if current \<noteq> [] \<and> estimated + record_cost r > AXFR_TARGET_MESSAGE_SIZE then (current, r # rs)
      else fill_envelope (current @ [r]) (estimated + record_cost r) rs)"

definition transfer_message :: "dns_message \<Rightarrow> resource_record list \<Rightarrow> dns_message" where
  "transfer_message request answers = (reply_to request)\<lparr>dm_authoritive := True, dm_answers := answers\<rparr>"


lemma fill_envelope_split:
  "fill_envelope current estimated rs = (env, rest) \<Longrightarrow> current @ rs = env @ rest"
  by (induction current estimated rs rule: fill_envelope.induct) (auto split: if_splits)

lemma fill_envelope_shorter:
  assumes "fill_envelope [] 0 (r # rs) = (env, rest)"
  shows "length rest < length (r # rs)"
proof -
  have "length rest \<le> length xs" if "fill_envelope current estimated xs = (env, rest)" for current estimated xs
    using that by (induction current estimated xs rule: fill_envelope.induct) (auto split: if_splits)
  moreover have "fill_envelope [r] (record_cost r) rs = (env, rest)" using assms by simp
  ultimately show ?thesis by fastforce
qed

function envelopes :: "resource_record list \<Rightarrow> resource_record list list" where
  "envelopes [] = []"
| "envelopes (r # rs) = (let (env, rest) = fill_envelope [] 0 (r # rs) in env # envelopes rest)"
  by pat_completeness auto
termination
  by (relation "measure length") (auto simp del: fill_envelope.simps dest: fill_envelope_shorter [OF sym])

text \<open>The client's OPT is mirrored in the first message only.\<close>

definition first_message :: "dns_message \<Rightarrow> dns_message \<Rightarrow> dns_message" where
  "first_message request message =
     (case mirror (client_edns_total request) \<lparr>so_payload_size = message_udp_payload_size request, so_nsid = None\<rparr> of
        None \<Rightarrow> message
      | Some edns \<Rightarrow> message\<lparr>dm_edns := Some edns\<rparr>)"

definition pack_transfer_messages :: "dns_message \<Rightarrow> resource_record list \<Rightarrow> dns_message list" where
  "pack_transfer_messages request records =
     (case map (transfer_message request) (envelopes records) of
        [] \<Rightarrow> []
      | m # ms \<Rightarrow> first_message request m # ms)"

text \<open>
  Errors of a transfer, with the fixed part of their text. \<open>TrIo\<close> is the failure to read another
  message from the connection and \<open>TrPanic\<close> a panic, an error of no source.
\<close>

datatype transfer_error = TrMalformed string | TrRcode response_code | TrIo | TrPanic

definition axfr_messages :: "dns_message \<Rightarrow> zone \<Rightarrow> transfer_error + dns_message list" where
  "axfr_messages request z =
     (case zone_query (z_origin z) rt_SOA z of
        [] \<Rightarrow> Inl (TrMalformed ''zone has no SOA at its apex'')
      | zr # _ \<Rightarrow> Inr (pack_transfer_messages request (axfr_records z ((rr_of zr)\<lparr>rr_name := z_origin z\<rparr>))))"

section \<open>What the messages hold\<close>

lemma concat_envelopes [simp]: "concat (envelopes rs) = rs"
proof (induction rs rule: envelopes.induct)
  case (2 r rs)
  obtain env rest where f: "fill_envelope [] 0 (r # rs) = (env, rest)" by (cases "fill_envelope [] 0 (r # rs)")
  have "envelopes (r # rs) = env # envelopes rest" using f by (simp del: fill_envelope.simps)
  moreover have "r # rs = env @ rest" using fill_envelope_split [OF f] by simp
  ultimately show ?case using 2 [OF f [symmetric] refl] by (metis concat.simps(2))
qed simp

abbreviation records_cost :: "resource_record list \<Rightarrow> nat" where
  "records_cost rs \<equiv> (\<Sum>r \<leftarrow> rs. record_cost r)"

lemma fill_envelope_cost:
  assumes "fill_envelope current estimated rs = (env, rest)" and "estimated = records_cost current"
    and "records_cost current \<le> AXFR_TARGET_MESSAGE_SIZE \<or> length current = 1" and "current \<noteq> [] \<or> rs \<noteq> []"
  shows "env \<noteq> [] \<and> (records_cost env \<le> AXFR_TARGET_MESSAGE_SIZE \<or> length env = 1)"
  using assms
proof (induction current estimated rs rule: fill_envelope.induct)
  case (2 current estimated r rs)
  show ?case
  proof (cases "current \<noteq> [] \<and> estimated + record_cost r > AXFR_TARGET_MESSAGE_SIZE")
    case True
    then show ?thesis using "2.prems" by auto
  next
    case False
    then show ?thesis using "2.IH" [OF False] "2.prems" by auto
  qed
qed auto

lemma envelopes_cost:
  "env \<in> set (envelopes rs) \<Longrightarrow> env \<noteq> [] \<and> (records_cost env \<le> AXFR_TARGET_MESSAGE_SIZE \<or> length env = 1)"
proof (induction rs rule: envelopes.induct)
  case (2 r rs)
  obtain env' rest where f: "fill_envelope [] 0 (r # rs) = (env', rest)" by (cases "fill_envelope [] 0 (r # rs)")
  show ?case using fill_envelope_cost [OF f] 2(1) [OF f [symmetric] refl] 2(2) f by (auto simp del: fill_envelope.simps)
qed simp

lemma answers_packed [simp]: "concat (map dm_answers (pack_transfer_messages request rs)) = rs"
proof -
  have "dm_answers (first_message request m) = dm_answers m" for m by (simp add: first_message_def split: option.split)
  moreover have "concat (map dm_answers (map (transfer_message request) (envelopes rs))) = rs"
    by (simp add: transfer_message_def comp_def)
  ultimately show ?thesis unfolding pack_transfer_messages_def by (auto split: list.splits)
qed

text \<open>A message is closed only because the next record does not fit beside those it has.\<close>

lemma fill_envelope_full:
  "fill_envelope current estimated rs = (env, r # rest) \<Longrightarrow> estimated = records_cost current \<Longrightarrow>
    records_cost env + record_cost r > AXFR_TARGET_MESSAGE_SIZE"
  by (induction current estimated rs rule: fill_envelope.induct) (auto split: if_splits)

lemma envelopes_full:
  "Suc i < length (envelopes rs) \<Longrightarrow>
    envelopes rs ! Suc i \<noteq> [] \<and> records_cost (envelopes rs ! i) + record_cost (hd (envelopes rs ! Suc i)) > AXFR_TARGET_MESSAGE_SIZE"
proof (induction rs arbitrary: i rule: envelopes.induct)
  case (2 r rs)
  obtain env rest where f: "fill_envelope [] 0 (r # rs) = (env, rest)" by (cases "fill_envelope [] 0 (r # rs)")
  then have e: "envelopes (r # rs) = env # envelopes rest" by (simp del: fill_envelope.simps)
  show ?case
  proof (cases i)
    case 0
    then obtain x xs where rest: "rest = x # xs" using "2.prems" unfolding e by (cases rest) auto
    obtain env' rest' where f': "fill_envelope [] 0 (x # xs) = (env', rest')" by (cases "fill_envelope [] 0 (x # xs)")
    have "env' \<noteq> []" "x # xs = env' @ rest'" using fill_envelope_cost [OF f'] fill_envelope_split [OF f'] by simp_all
    then have "env' \<noteq> []" "hd env' = x" by (cases env'; simp)+
    then show ?thesis unfolding e rest using 0 f' fill_envelope_full [OF f [unfolded rest]] by (simp del: fill_envelope.simps)
  next
    case (Suc k)
    then show ?thesis using "2.IH" [OF f [symmetric] refl, of k] "2.prems" unfolding e by simp
  qed
qed simp

lemma packed_nth:
  assumes "i < length (pack_transfer_messages request rs)"
  shows "length (pack_transfer_messages request rs) = length (envelopes rs)"
    and "pack_transfer_messages request rs ! i =
      (if i = 0 then first_message request else id) (transfer_message request (envelopes rs ! i))"
  using assms by (cases "envelopes rs"; cases i; simp add: pack_transfer_messages_def)+

lemma first_message_edns:
  assumes "dm_edns m = None"
  shows "\<exists>x. first_message request m = m\<lparr>dm_edns := x\<rparr> \<and> (x = None \<longleftrightarrow> dm_edns request = None) \<and> (\<forall>e. x = Some e \<longrightarrow> opt_rdata e = [])"
proof -
  have p: "is_present (client_edns_total request) \<longleftrightarrow> dm_edns request \<noteq> None"
  proof (cases "dm_edns request")
    case (Some e)
    then show ?thesis
      by (cases "check_options e") (auto simp: client_edns_total_def client_edns_of_def message_edns_header_def)
  qed (simp add: client_edns_total_def client_edns_of_def message_edns_header_def)
  show ?thesis
  proof (cases "dm_edns request")
    case None
    then show ?thesis using p assms by (intro exI [of _ None]) (simp add: first_message_def mirror_def)
  next
    case (Some e)
    then show ?thesis using p
      by (intro exI [of _ "mirror (client_edns_total request) \<lparr>so_payload_size = message_udp_payload_size request, so_nsid = None\<rparr>"])
        (simp add: first_message_def mirror_def with_payload_size_def Let_def)
  qed
qed

text \<open>
  C20. A transfer's messages carry the records in order, none lost or repeated, each a reply to the
  request with AA and NOERROR. The records of a message take at most 16 KiB of names, headers and RDATA
  uncompressed, unless it holds one record alone; a message ends only where the next record would pass
  that; and only the first has an OPT, when the request had one. When no record is over 65,000 octets
  and the request has one question, none can need more than the 65,535 octets a TCP frame holds.
\<close>

theorem transfer_messages_correct:
  assumes "ms = pack_transfer_messages request rs" and "i < length ms"
  defines "taken \<equiv> \<lambda>rs. \<Sum>r \<leftarrow> rs. length (rr_name r) + 10 + length (rd_bytes (rr_data r))"
  shows "concat (map dm_answers ms) = rs \<and> dm_answers (ms ! i) \<noteq> [] \<and>
    dm_id (ms ! i) = dm_id request \<and> dm_queries (ms ! i) = dm_queries request \<and> dm_authoritive (ms ! i) \<and> dm_rcode (ms ! i) = RcOk \<and>
    (taken (dm_answers (ms ! i)) \<le> 16384 \<or> length (dm_answers (ms ! i)) = 1) \<and>
    (Suc i < length ms \<longrightarrow> taken (dm_answers (ms ! i) @ [hd (dm_answers (ms ! Suc i))]) > 16384) \<and>
    (dm_edns (ms ! i) \<noteq> None \<longleftrightarrow> i = 0 \<and> dm_edns request \<noteq> None) \<and>
    ((\<forall>r \<in> set rs. length (rr_name r) + 10 + length (rd_bytes (rr_data r)) \<le> 65000) \<and>
      (\<exists>q. dm_queries request = [q] \<and> length (qname q) \<le> 255) \<longrightarrow> wire_size_bound (ms ! i) \<le> 65535)"
proof -
  have oct: "taken = (\<lambda>rs. records_cost rs)" by (simp add: taken_def record_cost_def)
  let ?es = "envelopes rs"
  have len: "length ms = length ?es" and at: "\<And>j. j < length ms \<Longrightarrow> ms ! j = (if j = 0 then first_message request else id) (transfer_message request (?es ! j))"
    using packed_nth assms(1,2) by blast+
  obtain x where x: "first_message request (transfer_message request (?es ! i)) = (transfer_message request (?es ! i))\<lparr>dm_edns := x\<rparr>"
    "x = None \<longleftrightarrow> dm_edns request = None" "\<And>e. x = Some e \<Longrightarrow> opt_rdata e = []"
    using first_message_edns [of "transfer_message request (?es ! i)" request] by (auto simp: transfer_message_def reply_to_def)
  have mem: "?es ! i \<in> set ?es" using assms(2) len by simp
  have ans: "dm_answers (ms ! j) = ?es ! j" if "j < length ms" for j
    using at [OF that] by (simp add: first_message_def transfer_message_def split: option.split)
  have target: "records_cost (?es ! i) \<le> 16384 \<or> length (?es ! i) = 1" "?es ! i \<noteq> []"
    using envelopes_cost [OF mem] by (auto simp: AXFR_TARGET_MESSAGE_SIZE_def)
  have cost: "records_cost (?es ! i) \<le> 65000" if small: "\<forall>r \<in> set rs. length (rr_name r) + 10 + length (rd_bytes (rr_data r)) \<le> 65000"
  proof (cases "records_cost (?es ! i) \<le> 16384")
    case False
    then obtain r where "?es ! i = [r]" using target by (auto simp: length_Suc_conv)
    moreover have "set (?es ! i) \<subseteq> set (concat ?es)" using mem by (auto simp del: concat_envelopes)
    ultimately show ?thesis using small by (simp add: record_cost_def)
  qed simp
  have full: "Suc i < length ms \<longrightarrow> records_cost (?es ! i) + record_cost (hd (?es ! Suc i)) > 16384"
    using envelopes_full [of i rs] len by (simp add: AXFR_TARGET_MESSAGE_SIZE_def)
  have shape: "ms ! i = (transfer_message request (?es ! i))\<lparr>dm_edns := if i = 0 then x else None\<rparr>"
  proof (cases "i = 0")
    case True
    then show ?thesis using at [OF assms(2)] x(1) by simp
  next
    case False
    then show ?thesis using at [OF assms(2)] by (simp add: transfer_message_def reply_to_def)
  qed
  have "concat (map dm_answers ms) = rs" by (simp add: assms(1))
  moreover have "dm_edns (ms ! i) \<noteq> None \<longleftrightarrow> i = 0 \<and> dm_edns request \<noteq> None" unfolding shape using x(2) by (auto simp del: not_None_eq)
  moreover have "wire_size_bound (ms ! i) \<le> 65535"
    if "\<forall>r \<in> set rs. length (rr_name r) + 10 + length (rd_bytes (rr_data r)) \<le> 65000" "dm_queries request = [q]" "length (qname q) \<le> 255" for q
    unfolding shape using x(3) cost [OF that(1)] that(2,3) by (auto simp: wire_size_bound_def transfer_message_def reply_to_def record_cost_def HEADER_LEN_def split: option.split)
  moreover have "dm_id (ms ! i) = dm_id request" "dm_queries (ms ! i) = dm_queries request" "dm_authoritive (ms ! i)" "dm_rcode (ms ! i) = RcOk"
    unfolding shape by (simp_all add: transfer_message_def reply_to_def)
  ultimately show ?thesis using target full ans [OF assms(2)] ans [of "Suc i"] by (auto simp: oct)
qed

definition example_request :: dns_message where
  "example_request = build 7 (with_query [1, 120, 0] 252 builder_new)"

theorem transfer_messages_correct_witness:
  "\<exists>m. pack_transfer_messages example_request [rr_of (a_record [1, 120, 0])] = [m] \<and> dm_answers m = [rr_of (a_record [1, 120, 0])] \<and>
    dm_edns m = None \<and> wire_size_bound m \<le> 65535"
proof -
  let ?r = "rr_of (a_record [1, 120, 0])"
  have p: "pack_transfer_messages example_request [?r] = [first_message example_request (transfer_message example_request [?r])]"
    by (simp add: pack_transfer_messages_def)
  have e: "dm_queries example_request = [\<lparr>qname = [1, 120, 0], qtype = 252, qclass = QC_IN\<rparr>]" "dm_edns example_request = None"
    by (simp_all add: example_request_def build_def with_query_def builder_new_def)
  have c: "\<forall>r \<in> set [?r]. length (rr_name r) + 10 + length (rd_bytes (rr_data r)) \<le> 65000" by (simp add: a_record_def)
  show ?thesis using transfer_messages_correct [OF refl, of 0 example_request "[?r]"] c by (simp add: p e)
qed

end
