(* ===== verification/Ixfr.thy ===== *)
theory Ixfr
  imports Axfr "HOL-Library.Product_Lexorder" "HOL-Library.List_Lexorder"
begin

text \<open>
  Incremental transfer, \<^verbatim>\<open>rdns/src/ixfr.rs\<close>: the difference of two versions of a zone, the staging of
  difference sequences in a patch, the log of version steps and the answer to an IXFR. A \<^verbatim>\<open>BTreeMap\<close> is
  the list of its entries in key order; a \<^verbatim>\<open>HashMap\<close> that is walked is the list of its entries, walked
  in an order \<open>visit\<close> that is a parameter. A panic is \<open>None\<close>.
\<close>

section \<open>Version steps\<close>

definition MAX_DELTAS_PER_ZONE :: nat where "MAX_DELTAS_PER_ZONE = 32"

record zone_delta =
  from_serial :: serial
  to_serial :: serial
  from_soa :: resource_record
  to_soa :: resource_record
  deleted :: "resource_record list"
  added :: "resource_record list"

definition delta_len :: "zone_delta \<Rightarrow> nat" where
  "delta_len d = length (deleted d) + length (added d)"

definition delta_is_empty :: "zone_delta \<Rightarrow> bool" where
  "delta_is_empty d \<longleftrightarrow> delta_len d = 0"

section \<open>The difference of two versions\<close>

record record_key =
  rk_lower :: bytes
  rk_class :: dclass
  rk_ttl :: ttl
  rk_rdata :: record_data
  rk_name :: name

definition record_key_of :: "zone_record \<Rightarrow> record_key" where
  "record_key_of r =
     \<lparr>rk_lower = folded (zr_name r), rk_class = zr_class r, rk_ttl = zr_ttl r, rk_rdata = zr_rdata r, rk_name = zr_name r\<rparr>"

definition into_record :: "record_key \<Rightarrow> resource_record" where
  "into_record k = \<lparr>rr_name = rk_name k, rr_class = rk_class k, rr_ttl = rk_ttl k, rr_data = rk_rdata k\<rparr>"

text \<open>What \<^verbatim>\<open>Ord for RecordKey\<close> compares, in its order.\<close>

definition rk_ord :: "record_key \<Rightarrow> bytes \<times> rtype \<times> dclass \<times> ttl \<times> bytes" where
  "rk_ord k = (rk_lower k, rd_type (rk_rdata k), rk_class k, rk_ttl k, rd_bytes (rk_rdata k))"

text \<open>\<^verbatim>\<open>*counts.entry(key).or_insert(0) += d\<close>: the key already there is kept.\<close>

fun counts_add :: "int \<Rightarrow> record_key \<Rightarrow> (record_key \<times> int) list \<Rightarrow> (record_key \<times> int) list" where
  "counts_add d k [] = [(k, d)]"
| "counts_add d k ((k', c) # counts) =
     (if rk_ord k < rk_ord k' then (k, d) # (k', c) # counts
      else if rk_ord k = rk_ord k' then (k', c + d) # counts
      else (k', c) # counts_add d k counts)"

definition count_records :: "int \<Rightarrow> zone \<Rightarrow> (record_key \<times> int) list \<Rightarrow> (record_key \<times> int) list" where
  "count_records d z counts =
     fold (\<lambda>r counts. if is_apex_soa r z then counts else counts_add d (record_key_of r) counts) (zone_recs z) counts"

definition diff :: "zone \<Rightarrow> zone \<Rightarrow> zone_delta option" where
  "diff old new =
     (case (apex_soa_record old, apex_soa_record new, zone_serial old, zone_serial new) of
        (Some fs, Some ts, Some f, Some t) \<Rightarrow>
          let counts = count_records (- 1) new (count_records 1 old []) in
          Some \<lparr>from_serial = f, to_serial = t, from_soa = fs, to_soa = ts,
            deleted = concat (map (\<lambda>(k, c). replicate (nat c) (into_record k)) counts),
            added = concat (map (\<lambda>(k, c). replicate (nat (- c)) (into_record k)) counts)\<rparr>
      | _ \<Rightarrow> None)"

section \<open>Patches\<close>

record withheld =
  wh_class :: dclass
  wh_ttl :: ttl
  wh_rdata :: record_data
  wh_count :: nat

record patch =
  pt_withhold :: "(bytes \<times> withheld list) list"
  pt_append :: "resource_record option list"
  pt_pending :: "(bytes \<times> nat list) list"
  pt_requested :: nat
  pt_cancelled :: nat

definition patch_new :: patch where
  "patch_new = \<lparr>pt_withhold = [], pt_append = [], pt_pending = [], pt_requested = 0, pt_cancelled = 0\<rparr>"

definition withheld_matches :: "dclass \<Rightarrow> ttl \<Rightarrow> record_data \<Rightarrow> withheld \<Rightarrow> bool" where
  "withheld_matches c t d h \<longleftrightarrow> wh_count h > 0 \<and> wh_class h = c \<and> wh_ttl h = t \<and> wh_rdata h = d"

definition bucket_of :: "bytes \<Rightarrow> (bytes \<times> 'a list) list \<Rightarrow> 'a list" where
  "bucket_of key m = (case map_of m key of None \<Rightarrow> [] | Some b \<Rightarrow> b)"

definition pending_at :: "resource_record \<Rightarrow> patch \<Rightarrow> nat \<Rightarrow> bool" where
  "pending_at r p at =
     (case pt_append p ! at of
        None \<Rightarrow> False
      | Some q \<Rightarrow> rr_class q = rr_class r \<and> rr_ttl q = rr_ttl r \<and> rr_data q = rr_data r)"

text \<open>\<^verbatim>\<open>rposition\<close>.\<close>

definition rposition :: "('a \<Rightarrow> bool) \<Rightarrow> 'a list \<Rightarrow> nat option" where
  "rposition P xs = (case filter (\<lambda>i. P (xs ! i)) [0..<length xs] of [] \<Rightarrow> None | is \<Rightarrow> Some (last is))"

definition cancel_pending :: "resource_record \<Rightarrow> patch \<Rightarrow> bool \<times> patch" where
  "cancel_pending r p =
     (let key = folded (rr_name r) in
      case map_of (pt_pending p) key of
        None \<Rightarrow> (False, p)
      | Some positions \<Rightarrow>
          (case rposition (pending_at r p) positions of
             None \<Rightarrow> (False, p)
           | Some found \<Rightarrow>
               (True, p\<lparr>pt_pending := AList.update key (take found positions @ drop (Suc found) positions) (pt_pending p),
                        pt_append := (pt_append p)[positions ! found := None]\<rparr>)))"

definition withhold_record :: "resource_record \<Rightarrow> withheld list \<Rightarrow> withheld list" where
  "withhold_record r bucket =
     (let same = withheld_matches (rr_class r) (rr_ttl r) (rr_data r) in
      if \<exists>h \<in> set bucket. same h then map_first same (\<lambda>h. h\<lparr>wh_count := wh_count h + 1\<rparr>) bucket
      else bucket @ [\<lparr>wh_class = rr_class r, wh_ttl = rr_ttl r, wh_rdata = rr_data r, wh_count = 1\<rparr>])"

definition step_delete :: "resource_record \<Rightarrow> patch \<Rightarrow> patch" where
  "step_delete r p =
     (case cancel_pending r p of
        (True, p) \<Rightarrow> p\<lparr>pt_cancelled := pt_cancelled p + 1\<rparr>
      | (False, p) \<Rightarrow>
          let key = folded (rr_name r) in
          p\<lparr>pt_withhold := AList.update key (withhold_record r (bucket_of key (pt_withhold p))) (pt_withhold p)\<rparr>)"

definition step_add :: "resource_record \<Rightarrow> patch \<Rightarrow> patch" where
  "step_add r p =
     (let position = length (pt_append p); key = folded (rr_name r) in
      p\<lparr>pt_append := pt_append p @ [Some r],
        pt_pending := AList.update key (bucket_of key (pt_pending p) @ [position]) (pt_pending p)\<rparr>)"

definition patch_step :: "resource_record list \<Rightarrow> resource_record list \<Rightarrow> patch \<Rightarrow> patch" where
  "patch_step del add p = fold step_add add (fold step_delete del (p\<lparr>pt_requested := pt_requested p + length del\<rparr>))"

text \<open>The positions of a bucket's records to take out, and the bucket with what is left of its counts.\<close>

fun doom :: "zone \<Rightarrow> nat list \<Rightarrow> withheld list \<Rightarrow> nat list" where
  "doom z [] bucket = []"
| "doom z (at # ats) bucket =
     (let r = zone_record_at z at; same = withheld_matches (zr_class r) (zr_ttl r) (zr_rdata r) in
      if \<exists>h \<in> set bucket. same h then at # doom z ats (map_first same (\<lambda>h. h\<lparr>wh_count := wh_count h - 1\<rparr>) bucket)
      else doom z ats bucket)"

fun remove_all :: "nat list \<Rightarrow> zone \<Rightarrow> zone option" where
  "remove_all [] z = Some z"
| "remove_all (at # ats) z = (case remove_record at z of None \<Rightarrow> None | Some (_, z) \<Rightarrow> remove_all ats z)"

fun withhold_all :: "(bytes \<times> withheld list) list \<Rightarrow> nat \<Rightarrow> zone \<Rightarrow> (nat \<times> zone) option" where
  "withhold_all [] removed z = Some (removed, z)"
| "withhold_all ((key, bucket) # buckets) removed z =
     (let doomed = rev (sort (doom z (positions_of key z) bucket)) in
      case remove_all doomed z of None \<Rightarrow> None | Some z \<Rightarrow> withhold_all buckets (removed + length doomed) z)"

fun add_all :: "zone_record list \<Rightarrow> zone \<Rightarrow> zone option" where
  "add_all [] z = Some z"
| "add_all (r # rs) z = (case zone_add r z of None \<Rightarrow> None | Some z \<Rightarrow> add_all rs z)"

type_synonym visit = "(bytes \<times> withheld list) list \<Rightarrow> (bytes \<times> withheld list) list"

definition patch_apply :: "visit \<Rightarrow> zone \<Rightarrow> resource_record \<Rightarrow> patch \<Rightarrow> (zone \<times> nat) option" where
  "patch_apply visit base new_soa p =
     (case (case apex_soa_position base of None \<Rightarrow> Some base | Some at \<Rightarrow> map_option snd (remove_record at base)) of
        None \<Rightarrow> None
      | Some z \<Rightarrow>
          (case withhold_all (visit (pt_withhold p)) (pt_cancelled p) z of
             None \<Rightarrow> None
           | Some (removed, z) \<Rightarrow>
               map_option (\<lambda>z. (z, pt_requested p - removed))
                 (add_all (zr_of new_soa # map zr_of (map the (filter (\<lambda>a. a \<noteq> None) (pt_append p)))) z)))"

definition apply_changes :: "visit \<Rightarrow> zone \<Rightarrow> resource_record list \<Rightarrow> resource_record list \<Rightarrow> resource_record \<Rightarrow> (zone \<times> nat) option" where
  "apply_changes visit base del add new_soa =
     map_option (\<lambda>(z, missing). (z, length del - missing)) (patch_apply visit base new_soa (patch_step del add patch_new))"

section \<open>What a difference holds\<close>

text \<open>The records but the apex SOA, which the framing carries.\<close>

definition zone_rest :: "zone \<Rightarrow> rkey multiset" where
  "zone_rest z = image_mset zkey (mset (filter (\<lambda>r. \<not> is_apex_soa r z) (zone_recs z)))"

definition apex_soas :: "zone \<Rightarrow> zone_record list" where
  "apex_soas z = filter (\<lambda>r. is_apex_soa r z) (zone_recs z)"

lemma zone_content_split: "zone_content z = image_mset zkey (mset (apex_soas z)) + zone_rest z"
  unfolding zone_content_def zone_rest_def apex_soas_def mset_filter image_mset_union [symmetric]
  by (simp add: multiset_partition [symmetric])

definition kkey :: "record_key \<Rightarrow> rkey" where
  "kkey k = rkey (into_record k)"

definition key_valid :: "record_key \<Rightarrow> bool" where
  "key_valid k \<longleftrightarrow> rk_lower k = folded (rk_name k)"

definition counts_ok :: "(record_key \<times> int) list \<Rightarrow> bool" where
  "counts_ok cs \<longleftrightarrow> sorted_wrt (\<lambda>a b. rk_ord (fst a) < rk_ord (fst b)) cs \<and> (\<forall>e \<in> set cs. key_valid (fst e))"

definition ccount :: "(record_key \<times> int) list \<Rightarrow> rkey \<Rightarrow> int" where
  "ccount cs x = (\<Sum>(k, c) \<leftarrow> cs. if kkey k = x then c else 0)"

lemma record_key_of_simps [simp]: "key_valid (record_key_of r)" "kkey (record_key_of r) = zkey r"
  by (simp_all add: key_valid_def kkey_def record_key_of_def into_record_def rkey_def)

lemma rk_ord_eq: "key_valid k \<Longrightarrow> key_valid k' \<Longrightarrow> rk_ord k = rk_ord k' \<longleftrightarrow> kkey k = kkey k'"
  by (cases "rk_rdata k"; cases "rk_rdata k'") (auto simp: rk_ord_def kkey_def rkey_def into_record_def key_valid_def)

lemma fst_counts_add: "e \<in> set (counts_add d k cs) \<Longrightarrow> fst e = k \<or> fst e \<in> fst ` set cs"
  by (induction d k cs rule: counts_add.induct) (auto split: if_splits)

lemma counts_add_ok:
  assumes "counts_ok cs" and "key_valid k"
  shows "counts_ok (counts_add d k cs) \<and> ccount (counts_add d k cs) x = ccount cs x + (if kkey k = x then d else 0)"
  using assms
proof (induction d k cs rule: counts_add.induct)
  case (2 d k k' c cs)
  have c: "counts_ok cs" "key_valid k'" using "2.prems"(1) by (auto simp: counts_ok_def)
  show ?case
  proof (cases "rk_ord k \<le> rk_ord k'")
    case True
    then show ?thesis
      using "2.prems" rk_ord_eq [OF "2.prems"(2) c(2)]
      by (auto simp: counts_ok_def ccount_def order_le_less intro: order_less_trans)
  next
    case False
    then have n: "\<not> rk_ord k < rk_ord k'" "rk_ord k \<noteq> rk_ord k'" by auto
    note IH = "2.IH" [OF n c(1) "2.prems"(2)]
    have "rk_ord k' < rk_ord (fst e)" if "e \<in> set (counts_add d k cs)" for e
      using fst_counts_add [OF that] "2.prems"(1) False by (auto simp: counts_ok_def)
    then have "counts_ok ((k', c) # counts_add d k cs)"
      using IH c(2) by (auto simp: counts_ok_def)
    then show ?thesis using IH n by (simp add: ccount_def)
  qed
qed (auto simp: counts_ok_def ccount_def)

lemma count_records_ok:
  assumes "counts_ok cs"
  shows "counts_ok (count_records d z cs) \<and> ccount (count_records d z cs) x = ccount cs x + d * int (count (zone_rest z) x)"
proof -
  have "counts_ok (fold (\<lambda>r counts. if P r then counts else counts_add d (record_key_of r) counts) rs cs) \<and>
    ccount (fold (\<lambda>r counts. if P r then counts else counts_add d (record_key_of r) counts) rs cs) x =
      ccount cs x + d * int (count (image_mset zkey (mset (filter (\<lambda>r. \<not> P r) rs))) x)" for P rs
    using assms
  proof (induction rs arbitrary: cs)
    case (Cons r rs)
    show ?case
    proof (cases "P r")
      case False
      have "counts_ok (counts_add d (record_key_of r) cs)"
        "ccount (counts_add d (record_key_of r) cs) x = ccount cs x + (if zkey r = x then d else 0)"
        using counts_add_ok [OF Cons.prems, of "record_key_of r" d x] by simp_all
      then show ?thesis using Cons.IH [of "counts_add d (record_key_of r) cs"] False by (simp add: algebra_simps)
    qed (use Cons in simp)
  qed simp
  then show ?thesis by (simp add: count_records_def zone_rest_def)
qed

lemma counts_distinct: "counts_ok cs \<Longrightarrow> distinct (map (kkey \<circ> fst) cs)"
proof (induction cs)
  case (Cons e cs)
  have ok: "counts_ok cs" and e: "key_valid (fst e)" using Cons.prems by (auto simp: counts_ok_def)
  have "kkey (fst e') \<noteq> kkey (fst e)" if "e' \<in> set cs" for e'
  proof -
    have "rk_ord (fst e) < rk_ord (fst e')" "key_valid (fst e')" using Cons.prems that by (auto simp: counts_ok_def)
    then show ?thesis using rk_ord_eq [OF e, of "fst e'"] by force
  qed
  then have "kkey (fst e) \<notin> (kkey \<circ> fst) ` set cs" by (metis comp_apply imageE)
  then show ?case using Cons.IH [OF ok] by simp
qed simp

lemma count_expanded:
  assumes "distinct (map (kkey \<circ> fst) cs)" and "f 0 = 0"
  shows "count (image_mset rkey (mset (concat (map (\<lambda>(k, c). replicate (f c) (into_record k)) cs)))) x = f (ccount cs x)"
  using assms(1)
proof (induction cs)
  case (Cons e cs)
  obtain k c where e: "e = (k, c)" by (cases e)
  have "ccount cs x = 0" if "kkey k = x"
  proof -
    have "\<forall>(k', c') \<in> set cs. kkey k' \<noteq> x" using Cons.prems that e by force
    then have "map (\<lambda>(k, c). if kkey k = x then c else 0) cs = map (\<lambda>_. 0) cs" by (intro map_cong) auto
    then show ?thesis unfolding ccount_def by (simp only: sum_list_0)
  qed
  then show ?case
    using Cons e assms(2) by (auto simp: ccount_def kkey_def)
qed (simp add: ccount_def assms(2))

lemma diff_lists:
  assumes "diff old new = Some d"
  shows "image_mset rkey (mset (deleted d)) = zone_rest old - zone_rest new"
    and "image_mset rkey (mset (added d)) = zone_rest new - zone_rest old"
    and "apex_soa_record old = Some (from_soa d)" and "apex_soa_record new = Some (to_soa d)"
    and "zone_serial old = Some (from_serial d)" and "zone_serial new = Some (to_serial d)"
proof -
  let ?cs = "count_records (- 1) new (count_records 1 old [])"
  have d: "deleted d = concat (map (\<lambda>(k, c). replicate (nat c) (into_record k)) ?cs)"
    "added d = concat (map (\<lambda>(k, c). replicate (nat (- c)) (into_record k)) ?cs)"
    "apex_soa_record old = Some (from_soa d)" "apex_soa_record new = Some (to_soa d)"
    "zone_serial old = Some (from_serial d)" "zone_serial new = Some (to_serial d)"
    using assms by (auto simp: diff_def Let_def split: option.splits)
  then show "apex_soa_record old = Some (from_soa d)" "apex_soa_record new = Some (to_soa d)"
    "zone_serial old = Some (from_serial d)" "zone_serial new = Some (to_serial d)" by simp_all
  have e: "counts_ok []" by (simp add: counts_ok_def)
  have ok: "counts_ok ?cs" "ccount ?cs x = int (count (zone_rest old) x) - int (count (zone_rest new) x)" for x
    using count_records_ok [of "count_records 1 old []" "- 1" new x] count_records_ok [OF e, of 1 old x]
    by (simp_all add: ccount_def)
  note dist = counts_distinct [OF ok(1)]
  show "image_mset rkey (mset (deleted d)) = zone_rest old - zone_rest new"
    unfolding d(1) by (rule multiset_eqI) (subst count_expanded [OF dist, where f = nat], simp_all add: ok(2))
  show "image_mset rkey (mset (added d)) = zone_rest new - zone_rest old"
    unfolding d(2) by (rule multiset_eqI) (subst count_expanded [OF dist, where f = "\<lambda>c. nat (- c)"], simp_all add: ok(2))
qed

section \<open>What a patch stages\<close>

definition bmset :: "bytes \<Rightarrow> withheld list \<Rightarrow> rkey multiset" where
  "bmset n b = (\<Sum>h \<leftarrow> b. replicate_mset (wh_count h) (n, wh_class h, wh_ttl h, wh_rdata h))"

definition buckets_mset :: "(bytes \<times> withheld list) list \<Rightarrow> rkey multiset" where
  "buckets_mset m = (\<Sum>(n, b) \<leftarrow> m. bmset n b)"

definition kept :: "resource_record option list \<Rightarrow> resource_record list" where
  "kept as = map the (filter (\<lambda>a. a \<noteq> None) as)"

abbreviation amset :: "patch \<Rightarrow> rkey multiset" where
  "amset p \<equiv> image_mset rkey (mset (kept (pt_append p)))"

abbreviation wmset :: "patch \<Rightarrow> rkey multiset" where
  "wmset p \<equiv> buckets_mset (pt_withhold p)"

definition pending_ok :: "patch \<Rightarrow> bool" where
  "pending_ok p \<longleftrightarrow> (\<forall>key. distinct (bucket_of key (pt_pending p)) \<and>
     set (bucket_of key (pt_pending p)) =
       {at. at < length (pt_append p) \<and> (\<exists>q. pt_append p ! at = Some q \<and> folded (rr_name q) = key)})"

lemma bmset_Nil [simp]: "bmset n [] = {#}"
  by (simp add: bmset_def)

lemma in_bmset: "(n, c, t, d) \<in># bmset n b \<longleftrightarrow> (\<exists>h \<in> set b. withheld_matches c t d h)"
  by (induction b) (auto simp: bmset_def withheld_matches_def split: if_splits)

lemma bmset_map_first:
  assumes "\<exists>h \<in> set b. withheld_matches c t d h"
  shows "bmset n (map_first (withheld_matches c t d) (\<lambda>h. h\<lparr>wh_count := wh_count h + 1\<rparr>) b) = add_mset (n, c, t, d) (bmset n b)"
    and "add_mset (n, c, t, d) (bmset n (map_first (withheld_matches c t d) (\<lambda>h. h\<lparr>wh_count := wh_count h - 1\<rparr>) b)) = bmset n b"
proof -
  have "replicate_mset (wh_count h) x = add_mset x (replicate_mset (wh_count h - 1) x)" if "withheld_matches c t d h" for h and x :: rkey
    using that by (cases "wh_count h") (auto simp: withheld_matches_def)
  then show "add_mset (n, c, t, d) (bmset n (map_first (withheld_matches c t d) (\<lambda>h. h\<lparr>wh_count := wh_count h - 1\<rparr>) b)) = bmset n b"
    using assms by (induction b) (auto simp: bmset_def withheld_matches_def)
  show "bmset n (map_first (withheld_matches c t d) (\<lambda>h. h\<lparr>wh_count := wh_count h + 1\<rparr>) b) = add_mset (n, c, t, d) (bmset n b)"
    using assms by (induction b) (auto simp: bmset_def withheld_matches_def)
qed

lemma bmset_withhold: "bmset (folded (rr_name r)) (withhold_record r b) = add_mset (rkey r) (bmset (folded (rr_name r)) b)"
proof (cases "\<exists>h \<in> set b. withheld_matches (rr_class r) (rr_ttl r) (rr_data r) h")
  case True
  then show ?thesis using bmset_map_first(1) [OF True] by (simp add: withhold_record_def rkey_def)
next
  case False
  then show ?thesis by (simp add: withhold_record_def rkey_def bmset_def)
qed

lemma bucket_of_update: "bucket_of k (AList.update key v m) = (if k = key then v else bucket_of k m)"
  by (simp add: bucket_of_def update_conv')

lemma buckets_mset_update:
  "buckets_mset (AList.update k v m) + bmset k (bucket_of k m) = buckets_mset m + bmset k v"
  by (induction m) (auto simp: buckets_mset_def bucket_of_def ac_simps)

lemma kept_simps [simp]: "kept [] = []" "kept (xs @ ys) = kept xs @ kept ys" "kept (None # xs) = kept xs" "kept (Some q # xs) = q # kept xs"
  by (simp_all add: kept_def)

lemma kept_update:
  assumes "at < length as" and "as ! at = Some q"
  shows "mset (kept as) = add_mset q (mset (kept (as[at := None])))"
proof -
  have "as = take at as @ Some q # drop (Suc at) as" using id_take_nth_drop [OF assms(1)] assms(2) by simp
  then have "kept as = kept (take at as @ Some q # drop (Suc at) as)" by simp
  moreover have "as[at := None] = take at as @ None # drop (Suc at) as" using assms(1) by (rule upd_conv_take_nth_drop)
  ultimately show ?thesis by simp
qed

lemma kept_in: "q \<in> set (kept as) \<longleftrightarrow> (\<exists>at < length as. as ! at = Some q)"
proof -
  have "q \<in> set (kept as) \<longleftrightarrow> Some q \<in> set as" by (force simp: kept_def)
  then show ?thesis by (simp add: in_set_conv_nth)
qed

lemma rposition_Some:
  assumes "rposition P xs = Some i"
  shows "i < length xs \<and> P (xs ! i)"
proof -
  let ?is = "filter (\<lambda>i. P (xs ! i)) [0..<length xs]"
  have "?is \<noteq> []" "i = last ?is" using assms by (auto simp: rposition_def split: list.splits)
  then have "i \<in> set ?is" using last_in_set by blast
  then show ?thesis by simp
qed

lemma rposition_None: "rposition P xs = None \<longleftrightarrow> (\<forall>x \<in> set xs. \<not> P x)"
proof -
  have "rposition P xs = None \<longleftrightarrow> filter (\<lambda>i. P (xs ! i)) [0..<length xs] = []" by (simp add: rposition_def split: list.split)
  also have "\<dots> \<longleftrightarrow> (\<forall>i < length xs. \<not> P (xs ! i))" by (auto simp: filter_empty_conv)
  also have "\<dots> \<longleftrightarrow> (\<forall>x \<in> set xs. \<not> P x)" by (simp add: all_set_conv_all_nth)
  finally show ?thesis .
qed

lemma set_without:
  assumes "distinct xs" and "i < length xs"
  shows "set (take i xs @ drop (Suc i) xs) = set xs - {xs ! i} \<and> distinct (take i xs @ drop (Suc i) xs)"
proof -
  have "\<exists>ys y zs. xs = ys @ y # zs \<and> length ys = i"
    using id_take_nth_drop [OF assms(2)] assms(2) by (intro exI [of _ "take i xs"] exI conjI) auto
  then show ?thesis using assms(1) by auto
qed

lemma cancel_pending_ok:
  assumes "pending_ok p" and "cancel_pending r p = (found, p')"
  shows "found \<longleftrightarrow> rkey r \<in># amset p" "pending_ok p'" "amset p' = amset p - (if found then {#rkey r#} else {#})"
    "pt_withhold p' = pt_withhold p" "pt_requested p' = pt_requested p" "pt_cancelled p' = pt_cancelled p"
proof -
  let ?key = "folded (rr_name r)" and ?ps = "bucket_of (folded (rr_name r)) (pt_pending p)"
  have ps: "distinct ?ps" "set ?ps = {at. at < length (pt_append p) \<and> (\<exists>q. pt_append p ! at = Some q \<and> folded (rr_name q) = ?key)}"
    using assms(1) by (auto simp: pending_ok_def)
  have iff: "rkey r \<in># amset p \<longleftrightarrow> (\<exists>at \<in> set ?ps. pending_at r p at)"
  proof
    assume "rkey r \<in># amset p"
    then obtain at q where q: "at < length (pt_append p)" "pt_append p ! at = Some q" "rkey q = rkey r" by (auto simp: kept_in)
    then have "at \<in> set ?ps" "pending_at r p at" by (auto simp: ps(2) pending_at_def rkey_def)
    then show "\<exists>at \<in> set ?ps. pending_at r p at" by blast
  next
    assume "\<exists>at \<in> set ?ps. pending_at r p at"
    then obtain at q where q: "at < length (pt_append p)" "pt_append p ! at = Some q" "rkey q = rkey r"
      by (auto simp: ps(2) pending_at_def rkey_def)
    then have "q \<in> set (kept (pt_append p))" by (auto simp: kept_in)
    then show "rkey r \<in># amset p" using q(3) by (auto intro: image_eqI [of _ rkey q])
  qed
  have "found \<longleftrightarrow> rposition (pending_at r p) ?ps \<noteq> None"
    using assms(2) by (auto simp: cancel_pending_def bucket_of_def Let_def rposition_def split: option.splits)
  then show f: "found \<longleftrightarrow> rkey r \<in># amset p" using iff rposition_None by metis
  show "pt_withhold p' = pt_withhold p" "pt_requested p' = pt_requested p" "pt_cancelled p' = pt_cancelled p"
    using assms(2) by (auto simp: cancel_pending_def Let_def split: option.splits)
  have "pending_ok p' \<and> amset p' = amset p - (if found then {#rkey r#} else {#})"
  proof (cases found)
    case False
    then show ?thesis using assms by (auto simp: cancel_pending_def Let_def split: option.splits)
  next
    case True
    then obtain i where i: "rposition (pending_at r p) ?ps = Some i"
      and p': "p' = p\<lparr>pt_pending := AList.update ?key (take i ?ps @ drop (Suc i) ?ps) (pt_pending p), pt_append := (pt_append p)[?ps ! i := None]\<rparr>"
      using assms(2) by (auto simp: cancel_pending_def bucket_of_def Let_def split: option.splits)
    let ?at = "?ps ! i"
    have at: "i < length ?ps" "pending_at r p ?at" using rposition_Some [OF i] by simp_all
    then have "?at \<in> set ?ps" by simp
    then obtain q where q: "?at < length (pt_append p)" "pt_append p ! ?at = Some q" "rkey q = rkey r"
      using at(2) by (auto simp: ps(2) pending_at_def rkey_def)
    note wo = set_without [OF ps(1) at(1)]
    have upd: "(pt_append p)[?at := None] ! x = Some q' \<longleftrightarrow> x \<noteq> ?at \<and> pt_append p ! x = Some q'" for x q'
      using q(1) by (auto simp: nth_list_update)
    have "pending_ok p'"
      unfolding pending_ok_def
    proof (intro allI)
      fix key
      show "distinct (bucket_of key (pt_pending p')) \<and> set (bucket_of key (pt_pending p')) =
        {at. at < length (pt_append p') \<and> (\<exists>q. pt_append p' ! at = Some q \<and> folded (rr_name q) = key)}"
      proof (cases "key = ?key")
        case True
        then show ?thesis using wo by (auto simp: p' bucket_of_update ps(2) upd)
      next
        case False
        moreover have "folded (rr_name q) = ?key" using q(3) by (simp add: rkey_def)
        ultimately show ?thesis
          using assms(1) q(2) by (auto simp: p' bucket_of_update pending_ok_def upd)
      qed
    qed
    moreover have "amset p = add_mset (rkey r) (amset p')" using kept_update [OF q(1,2)] q(3) by (simp add: p')
    ultimately show ?thesis using True by simp
  qed
  then show "pending_ok p'" "amset p' = amset p - (if found then {#rkey r#} else {#})" by simp_all
qed

section \<open>Applying the steps in turn\<close>

text \<open>
  What the difference sequences say, on the records of a version: a deletion takes one copy out or
  is counted as missing, an addition puts one in.
\<close>

fun seq_delete :: "rkey \<Rightarrow> rkey multiset \<times> nat \<Rightarrow> rkey multiset \<times> nat" where
  "seq_delete k (M, missing) = (if k \<in># M then (M - {#k#}, missing) else (M, Suc missing))"

definition seq_step :: "resource_record list \<Rightarrow> resource_record list \<Rightarrow> rkey multiset \<times> nat \<Rightarrow> rkey multiset \<times> nat" where
  "seq_step del add s = (let (M, missing) = fold seq_delete (map rkey del) s in (M + image_mset rkey (mset add), missing))"

definition staged :: "rkey multiset \<Rightarrow> patch \<Rightarrow> rkey multiset \<times> nat" where
  "staged Z p = (Z - wmset p + amset p, size (wmset p - Z))"

definition patch_ok :: "patch \<Rightarrow> bool" where
  "patch_ok p \<longleftrightarrow> pending_ok p \<and> pt_requested p = pt_cancelled p + size (wmset p)"

lemma patch_new_ok: "patch_ok patch_new" "staged Z patch_new = (Z, 0)"
  by (simp_all add: patch_ok_def pending_ok_def patch_new_def bucket_of_def buckets_mset_def staged_def kept_def)

lemma size_add_diff: "size (add_mset k W - Z) = (if k \<in># Z - W then size (W - Z) else Suc (size (W - Z)))" for W Z :: "'a multiset"
proof (cases "k \<in># Z - W")
  case True
  then have "add_mset k W - Z = W - Z" by (intro multiset_eqI) (auto simp: in_diff_count not_less split: if_splits)
  then show ?thesis using True by simp
next
  case False
  then have "add_mset k W - Z = add_mset k (W - Z)" by (intro multiset_eqI) (auto simp: in_diff_count not_less Suc_diff_le)
  then show ?thesis using False by simp
qed

lemma diff_single_add:
  assumes "k \<notin># A"
  shows "X - {#k#} + A = X + A - (if k \<in># X then {#k#} else {#})"
proof (cases "k \<in># X")
  case True
  then obtain Y where "X = add_mset k Y" by (meson multi_member_split)
  then show ?thesis by simp
qed (use assms in simp)

lemma step_delete_ok:
  assumes "pending_ok p"
  shows "pending_ok (step_delete r p)" "staged Z (step_delete r p) = seq_delete (rkey r) (staged Z p)"
    "pt_requested (step_delete r p) = pt_requested p"
    "pt_cancelled (step_delete r p) + size (wmset (step_delete r p)) = Suc (pt_cancelled p + size (wmset p))"
proof -
  obtain found p' where c: "cancel_pending r p = (found, p')" by (cases "cancel_pending r p")
  note k = cancel_pending_ok [OF assms c]
  have "pending_ok (step_delete r p) \<and> staged Z (step_delete r p) = seq_delete (rkey r) (staged Z p) \<and>
    pt_requested (step_delete r p) = pt_requested p \<and>
    pt_cancelled (step_delete r p) + size (wmset (step_delete r p)) = Suc (pt_cancelled p + size (wmset p))"
  proof (cases found)
    case True
    then have "rkey r \<in># amset p" using k(1) by simp
    then obtain A where A: "amset p = add_mset (rkey r) A" by (meson multi_member_split)
    have "step_delete r p = p'\<lparr>pt_cancelled := pt_cancelled p' + 1\<rparr>" using c True by (simp add: step_delete_def)
    then show ?thesis using k True A by (simp add: staged_def pending_ok_def)
  next
    case False
    let ?key = "folded (rr_name r)"
    have "pt_withhold (step_delete r p) =
        AList.update ?key (withhold_record r (bucket_of ?key (pt_withhold p))) (pt_withhold p)"
      and s: "pt_append (step_delete r p) = pt_append p'" "pt_pending (step_delete r p) = pt_pending p'"
        "pt_requested (step_delete r p) = pt_requested p" "pt_cancelled (step_delete r p) = pt_cancelled p"
      using c False k(4-6) by (simp_all add: step_delete_def Let_def)
    then have W: "wmset (step_delete r p) = add_mset (rkey r) (wmset p)"
      using buckets_mset_update [of ?key "withhold_record r (bucket_of ?key (pt_withhold p))" "pt_withhold p"]
      by (simp add: bmset_withhold)
    have A: "amset (step_delete r p) = amset p" "rkey r \<notin># amset p" using k(1,3) False s(1) by simp_all
    have "pending_ok (step_delete r p)" using k(2) s by (simp add: pending_ok_def)
    moreover have "staged Z (step_delete r p) = seq_delete (rkey r) (staged Z p)"
    proof -
      have "staged Z (step_delete r p) = (Z - add_mset (rkey r) (wmset p) + amset p, size (add_mset (rkey r) (wmset p) - Z))"
        unfolding staged_def W A(1) ..
      moreover have "Z - add_mset (rkey r) (wmset p) = Z - wmset p - {#rkey r#}" by (simp add: diff_diff_add_mset [symmetric])
      moreover have "rkey r \<in># Z - wmset p + amset p \<longleftrightarrow> rkey r \<in># Z - wmset p" using A(2) by simp
      moreover have "Z - wmset p - {#rkey r#} + amset p = Z - wmset p + amset p - (if rkey r \<in># Z - wmset p then {#rkey r#} else {#})"
        by (rule diff_single_add [OF A(2)])
      ultimately show ?thesis
        unfolding staged_def seq_delete.simps size_add_diff by (simp only: if_split prod.inject) simp
    qed
    ultimately show ?thesis using s W by simp
  qed
  then show "pending_ok (step_delete r p)" "staged Z (step_delete r p) = seq_delete (rkey r) (staged Z p)"
    "pt_requested (step_delete r p) = pt_requested p"
    "pt_cancelled (step_delete r p) + size (wmset (step_delete r p)) = Suc (pt_cancelled p + size (wmset p))" by simp_all
qed

lemma step_add_ok:
  assumes "pending_ok p"
  shows "pending_ok (step_add r p)" "amset (step_add r p) = add_mset (rkey r) (amset p)"
    "pt_withhold (step_add r p) = pt_withhold p" "pt_requested (step_add r p) = pt_requested p" "pt_cancelled (step_add r p) = pt_cancelled p"
  using assms by (auto simp: step_add_def Let_def pending_ok_def bucket_of_update nth_append less_Suc_eq)

lemma fold_deletes:
  assumes "pending_ok p"
  shows "pending_ok (fold step_delete rs p)" "staged Z (fold step_delete rs p) = fold seq_delete (map rkey rs) (staged Z p)"
    "pt_requested (fold step_delete rs p) = pt_requested p"
    "pt_cancelled (fold step_delete rs p) + size (wmset (fold step_delete rs p)) = pt_cancelled p + size (wmset p) + length rs"
  using assms by (induction rs arbitrary: p) (simp_all add: step_delete_ok)

lemma fold_adds:
  assumes "pending_ok p"
  shows "pending_ok (fold step_add rs p)" "amset (fold step_add rs p) = amset p + image_mset rkey (mset rs)"
    "pt_withhold (fold step_add rs p) = pt_withhold p" "pt_requested (fold step_add rs p) = pt_requested p"
    "pt_cancelled (fold step_add rs p) = pt_cancelled p"
  using assms by (induction rs arbitrary: p) (simp_all add: step_add_ok)

lemma patch_step_ok:
  assumes "patch_ok p"
  shows "patch_ok (patch_step del add p)" "staged Z (patch_step del add p) = seq_step del add (staged Z p)"
proof -
  let ?p = "p\<lparr>pt_requested := pt_requested p + length del\<rparr>"
  have p: "pending_ok ?p" "staged Z ?p = staged Z p" using assms by (simp_all add: patch_ok_def pending_ok_def staged_def)
  note d = fold_deletes [OF p(1), where rs = del] and a = fold_adds [OF fold_deletes(1) [OF p(1), where rs = del], where rs = add]
  show "patch_ok (patch_step del add p)"
    using a d assms by (simp add: patch_step_def patch_ok_def)
  show "staged Z (patch_step del add p) = seq_step del add (staged Z p)"
    using a d(2) [of Z] p(2) by (auto simp: patch_step_def seq_step_def staged_def split: prod.splits)
qed

abbreviation stage :: "(resource_record list \<times> resource_record list) list \<Rightarrow> patch" where
  "stage steps \<equiv> fold (\<lambda>(del, add). patch_step del add) steps patch_new"

lemma stage_ok:
  "patch_ok (stage steps)" "staged Z (stage steps) = fold (\<lambda>(del, add). seq_step del add) steps (Z, 0)"
proof -
  have "patch_ok (fold (\<lambda>(del, add). patch_step del add) steps p) \<and>
    staged Z (fold (\<lambda>(del, add). patch_step del add) steps p) = fold (\<lambda>(del, add). seq_step del add) steps (staged Z p)"
    if "patch_ok p" for p
    using that by (induction steps arbitrary: p) (auto simp: patch_step_ok)
  from this [OF patch_new_ok(1)]
  show "patch_ok (stage steps)" "staged Z (stage steps) = fold (\<lambda>(del, add). seq_step del add) steps (Z, 0)"
    by (simp_all add: patch_new_ok(2))
qed

section \<open>What applying a patch gives\<close>

lemma refile_moved_fields:
  "refile_moved m p z = Some z' \<Longrightarrow> z_names z' = z_names z \<and> z_rdata z' = z_rdata z \<and> z_records z' = z_records z"
  by (auto simp: refile_moved_def Let_def chain_insert_def split: if_splits option.splits chain_key.splits)

lemma rebuild_room:
  assumes "rebuild z = Some z'" and "\<forall>r \<in> set (zone_recs z). record_ok r"
  shows "length (z_names z') = octets_used zr_name (zone_recs z)" "length (z_rdata z') = octets_used (rd_bytes \<circ> zr_rdata) (zone_recs z)"
proof -
  obtain ss ns ds where c: "copy_records (zone_recs z) [] [] = Some (ss, ns, ds)"
    and z': "z' = reindex (z\<lparr>z_records := ss, z_names := ns, z_rdata := ds\<rparr>)"
    using assms(1) by (auto simp: rebuild_def split: option.splits)
  show "length (z_names z') = octets_used zr_name (zone_recs z)" "length (z_rdata z') = octets_used (rd_bytes \<circ> zr_rdata) (zone_recs z)"
    using copy_records_sound [OF assms(2) c] reindex_fold_other [OF z' [unfolded reindex_def]] by auto
qed

text \<open>Removal never makes the arenas longer.\<close>

lemma remove_record_room:
  assumes "zone_ok z" and "remove_record p z = Some (r, z')"
  shows "length (z_names z') \<le> length (z_names z)" "length (z_rdata z') \<le> length (z_rdata z)"
proof -
  note zd = zone_okD [OF assms(1)]
  define r0 where "r0 = zone_record_at z p"
  define z0 where "z0 = chain_remove (chain_key_of (zr_name r0) (rd_type (zr_rdata r0))) z"
  have z0: "z_names z0 = z_names z" "z_rdata z0 = z_rdata z" "z_records z0 = z_records z" "z_index z0 = z_index z" "z_spills z0 = z_spills z"
    by (simp_all add: z0_def chain_remove_def split: option.split chain_key.split)
  obtain left ix sp z1 where p: "p < length (z_records z)" and u: "unfile (folded (zr_name r0)) p (z_index z, z_spills z) = Some (left, ix, sp)"
    and z1: "refile_moved (length (z_records z0) - 1) p (z0\<lparr>z_index := ix, z_spills := sp, z_records := swap_remove p (z_records z0)\<rparr>) = Some z1"
    using assms(2) by (auto simp: remove_record_def Let_def r0_def [symmetric] z0_def [symmetric] split: if_splits option.splits)
  define z2 where "z2 = (if \<not> left then z1\<lparr>z_index := prune (origin_key z1) (folded (zr_name r0)) (z_index z1)\<rparr> else z1)"
  define z3 where "z3 = z2\<lparr>z_removed := min (z_removed z2 + 1) (2 ^ 32 - 1)\<rparr>"
  have z2: "z_names z3 = z_names z" "z_rdata z3 = z_rdata z" "z_records z3 = swap_remove p (z_records z)"
    using refile_moved_fields [OF z1] z0 by (simp_all add: z3_def z2_def)
  have r: "rebuild z3 = Some z' \<or> z' = z3"
    using assms(2) p u z1 unfolding remove_record_def r0_def [symmetric] Let_def z0_def [symmetric] z0(4,5)
    by (auto simp: z2_def [symmetric] z3_def [symmetric, simplified] split: if_splits)
  have recs: "zone_recs z3 = swap_remove p (zone_recs z)" unfolding zone_recs_def z2 using p by (simp add: map_swap_remove)
  have ok: "\<forall>r \<in> set (zone_recs z3). record_ok r" using zd(3) set_swap_remove [of p "zone_recs z"] p by (auto simp: recs)
  have "octets_used f (zone_recs z3) \<le> octets_used f (zone_recs z)" for f
    unfolding recs using p by (intro octets_used_swap_remove) simp
  from this [of zr_name] this [of "rd_bytes \<circ> zr_rdata"]
  show "length (z_names z') \<le> length (z_names z)" "length (z_rdata z') \<le> length (z_rdata z)"
    using r rebuild_room [OF _ ok] zd(4,5) z2 by (auto split: if_splits)
qed

text \<open>Room for more octets of names and of RDATA.\<close>

definition zone_room :: "nat \<Rightarrow> nat \<Rightarrow> zone \<Rightarrow> bool" where
  "zone_room n d z \<longleftrightarrow> length (z_names z) + n < 2 ^ 32 \<and> length (z_rdata z) + d < 2 ^ 32"

lemma remove_all_ok:
  assumes "zone_ok z" and "zone_room n d z" and "sorted_wrt (>) ps" and "\<forall>p \<in> set ps. p < length (zone_recs z)"
  shows "\<exists>z'. remove_all ps z = Some z' \<and> zone_ok z' \<and> zone_room n d z' \<and> z_origin z' = z_origin z \<and>
    mset (zone_recs z) = mset (zone_recs z') + mset (map ((!) (zone_recs z)) ps)"
  using assms
proof (induction ps arbitrary: z)
  case (Cons p ps)
  have p: "p < length (zone_recs z)" using Cons.prems(4) by simp
  have len: "length (z_names z) < 2 ^ 32" "length (z_rdata z) < 2 ^ 32" using Cons.prems(2) by (auto simp: zone_room_def)
  obtain r z1 where r: "remove_record p z = Some (r, z1)" using remove_record_ok(2) [OF Cons.prems(1) p len] by auto
  note ok = remove_record_ok(1) [OF Cons.prems(1) p r]
  have room: "zone_room n d z1" using remove_record_room [OF Cons.prems(1) r] Cons.prems(2) by (auto simp: zone_room_def)
  have less: "q < p" if "q \<in> set ps" for q using Cons.prems(3) that by auto
  have keep: "zone_recs z1 ! q = zone_recs z ! q" "q < length (zone_recs z1)" if "q \<in> set ps" for q
    using less [OF that] p ok by (auto simp: nth_swap_remove)
  obtain z' where z': "remove_all ps z1 = Some z'" "zone_ok z'" "zone_room n d z'" "z_origin z' = z_origin z1"
    "mset (zone_recs z1) = mset (zone_recs z') + mset (map ((!) (zone_recs z1)) ps)"
    using Cons.IH [of z1] ok room Cons.prems(3) keep(2) by auto
  have m: "map ((!) (zone_recs z1)) ps = map ((!) (zone_recs z)) ps" using keep(1) by (intro map_cong) auto
  have "mset (zone_recs z) = add_mset (zone_recs z ! p) (mset (zone_recs z1))" using mset_swap_remove [OF p] ok by simp
  also have "\<dots> = mset (zone_recs z') + mset (map ((!) (zone_recs z)) (p # ps))" unfolding z'(5) m by simp
  finally show ?case using r z'(1-4) ok by auto
qed simp

lemma doom_positions: "set (doom z ps b) \<subseteq> set ps" "distinct ps \<Longrightarrow> distinct (doom z ps b)"
proof (induction z ps b rule: doom.induct)
  case (2 z at ats b)
  {
    case 1
    show ?case using "2.IH"(1,3) [OF refl refl] by (auto simp: Let_def)
  next
    case 2
    then show ?case using "2.IH"(1,2,3,4) [OF refl refl] by (auto simp: Let_def)
  }
qed simp_all

lemma doom_ok:
  assumes "\<forall>p \<in> set ps. folded (zr_name (zone_record_at z p)) = n"
  shows "image_mset (\<lambda>p. zkey (zone_record_at z p)) (mset (doom z ps b)) = image_mset (\<lambda>p. zkey (zone_record_at z p)) (mset ps) \<inter># bmset n b"
  using assms
proof (induction z ps b rule: doom.induct)
  case (2 z at ats b)
  let ?r = "zone_record_at z at"
  let ?same = "withheld_matches (zr_class ?r) (zr_ttl ?r) (zr_rdata ?r)"
  have k: "zkey ?r = (n, zr_class ?r, zr_ttl ?r, zr_rdata ?r)" using "2.prems" by (simp add: rkey_def)
  show ?case
  proof (cases "\<exists>h \<in> set b. ?same h")
    case True
    then have "zkey ?r \<in># bmset n b" by (simp add: k in_bmset)
    moreover have "bmset n b - {#zkey ?r#} = bmset n (map_first ?same (\<lambda>h. h\<lparr>wh_count := wh_count h - 1\<rparr>) b)"
      unfolding bmset_map_first(2) [OF True, of n, symmetric] k by simp
    ultimately show ?thesis using "2.IH"(1) [OF refl refl True] "2.prems" True by (simp add: Let_def inter_add_left2)
  next
    case False
    then have "zkey ?r \<notin># bmset n b" by (simp add: k in_bmset)
    then show ?thesis using "2.IH"(2) [OF refl refl False] "2.prems" False by (simp add: Let_def inter_add_left1)
  qed
qed simp

lemma positions_of_ok:
  assumes "zone_ok z"
  shows "distinct (positions_of k z)" "set (positions_of k z) = {p. p < length (z_records z) \<and> folded (zr_name (zone_recs z ! p)) = k}"
proof -
  have "distinct (positions_of k z) \<and> set (positions_of k z) = {p. p < length (z_records z) \<and> folded (zr_name (zone_recs z ! p)) = k}"
  proof (cases "index_get k (z_index z)")
    case None
    have "folded (zr_name (zone_recs z ! p)) \<noteq> k" if "p < length (z_records z)" for p
      using index_none [OF assms None] nth_mem [of p "zone_recs z"] that by (auto simp: owned_def)
    then show ?thesis using None by (auto simp: positions_of_def)
  next
    case (Some s)
    then show ?thesis using index_slot(1,2) [OF assms Some] by (simp add: positions_of_def)
  qed
  then show "distinct (positions_of k z)" "set (positions_of k z) = {p. p < length (z_records z) \<and> folded (zr_name (zone_recs z ! p)) = k}"
    by simp_all
qed

lemma bmset_name: "x \<in># bmset n b \<Longrightarrow> fst x = n"
  by (induction b) (auto simp: bmset_def split: if_splits)

lemma filter_inter_bmset: "filter_mset (\<lambda>x. fst x = n) Z \<inter># bmset n b = Z \<inter># bmset n b"
proof (rule multiset_eqI)
  fix x
  have "count (bmset n b) x = 0" if "fst x \<noteq> n" using bmset_name [of x n b] that by (meson count_inI)
  then show "count (filter_mset (\<lambda>x. fst x = n) Z \<inter># bmset n b) x = count (Z \<inter># bmset n b) x" by auto
qed

lemma withhold_bucket_ok:
  assumes "zone_ok z" and "zone_room n d z"
  shows "\<exists>z'. remove_all (rev (sort (doom z (positions_of k z) b))) z = Some z' \<and> zone_ok z' \<and> zone_room n d z' \<and> z_origin z' = z_origin z \<and>
    zone_content z' = zone_content z - bmset k b \<and> length (doom z (positions_of k z) b) + size (zone_content z') = size (zone_content z)"
proof -
  let ?ps = "positions_of k z" and ?ds = "doom z (positions_of k z) b"
  note ps = positions_of_ok [OF assms(1), of k]
  have ds: "distinct ?ds" "set ?ds \<subseteq> set ?ps" using doom_positions ps(1) by blast+
  have at: "zone_record_at z p = zone_recs z ! p" if "p \<in> set ?ps" for p using that ps(2) by (simp add: zone_record_at_recs)
  have "sorted_wrt (>) (rev (sort ?ds))" using ds(1) by (simp add: sorted_wrt_rev strict_sorted_iff)
  moreover have "\<forall>p \<in> set (rev (sort ?ds)). p < length (zone_recs z)" using ds(2) ps(2) by auto
  ultimately obtain z' where z': "remove_all (rev (sort ?ds)) z = Some z'" "zone_ok z'" "zone_room n d z'" "z_origin z' = z_origin z"
    "mset (zone_recs z) = mset (zone_recs z') + mset (map ((!) (zone_recs z)) (rev (sort ?ds)))"
    using remove_all_ok [OF assms] by blast
  have "image_mset (\<lambda>p. zkey (zone_record_at z p)) (mset ?ds) = image_mset (\<lambda>p. zkey (zone_record_at z p)) (mset ?ps) \<inter># bmset k b"
    using at ps(2) by (intro doom_ok) auto
  also have "image_mset (\<lambda>p. zkey (zone_record_at z p)) (mset ?ps) = image_mset zkey (mset (map ((!) (zone_recs z)) ?ps))"
    using at by (auto simp: image_mset.compositionality comp_def intro!: image_mset_cong)
  also have "mset (map ((!) (zone_recs z)) ?ps) = mset (filter (\<lambda>r. folded (zr_name r) = k) (zone_recs z))"
    using ps by (intro mset_positions) simp_all
  also have "image_mset zkey \<dots> = filter_mset (\<lambda>x. fst x = k) (zone_content z)"
    by (simp add: zone_content_def filter_mset_image_mset rkey_def)
  finally have X: "image_mset (\<lambda>p. zkey (zone_record_at z p)) (mset ?ds) = zone_content z \<inter># bmset k b"
    by (simp only: filter_inter_bmset)
  have "image_mset zkey (mset (map ((!) (zone_recs z)) (rev (sort ?ds)))) = image_mset (\<lambda>p. zkey (zone_record_at z p)) (mset ?ds)"
    using at ds(2) by (auto simp: image_mset.compositionality comp_def intro!: image_mset_cong)
  then have c: "zone_content z = zone_content z' + zone_content z \<inter># bmset k b"
    using arg_cong [OF z'(5), of "image_mset zkey"] X by (simp add: zone_content_def)
  have "zone_content z' = zone_content z - zone_content z \<inter># bmset k b" by (metis c add_diff_cancel_right')
  then have "zone_content z' = zone_content z - bmset k b" by (simp add: diff_intersect_left_idem)
  moreover have "length ?ds + size (zone_content z') = size (zone_content z)"
    using arg_cong [OF c, of size] arg_cong [OF X, of size] by simp
  ultimately show ?thesis using z' by blast
qed

lemma withhold_all_ok:
  assumes "zone_ok z" and "zone_room n d z"
  shows "\<exists>removed' z'. withhold_all bs removed z = Some (removed', z') \<and> zone_ok z' \<and> zone_room n d z' \<and> z_origin z' = z_origin z \<and>
    zone_content z' = zone_content z - buckets_mset bs \<and> removed' + size (zone_content z') = removed + size (zone_content z)"
  using assms
proof (induction bs arbitrary: z removed)
  case (Cons e bs)
  obtain k b where e: "e = (k, b)" by (cases e)
  obtain z1 where z1: "remove_all (rev (sort (doom z (positions_of k z) b))) z = Some z1" "zone_ok z1" "zone_room n d z1" "z_origin z1 = z_origin z"
    "zone_content z1 = zone_content z - bmset k b" "length (doom z (positions_of k z) b) + size (zone_content z1) = size (zone_content z)"
    using withhold_bucket_ok [OF Cons.prems] by blast
  let ?removed = "removed + length (doom z (positions_of k z) b)"
  obtain removed' z' where z': "withhold_all bs ?removed z1 = Some (removed', z')" "zone_ok z'" "zone_room n d z'" "z_origin z' = z_origin z1"
    "zone_content z' = zone_content z1 - buckets_mset bs" "removed' + size (zone_content z') = ?removed + size (zone_content z1)"
    using Cons.IH [OF z1(2,3)] by blast
  have "withhold_all (e # bs) removed z = Some (removed', z')" using z1(1) z'(1) by (simp add: e)
  moreover have "zone_content z' = zone_content z - buckets_mset (e # bs)"
    unfolding z'(5) z1(5) by (simp add: e buckets_mset_def)
  ultimately show ?case using z' z1 by (intro exI conjI) (assumption | simp)+
qed (simp add: buckets_mset_def)

lemma add_all_ok:
  assumes "zone_ok z" and "\<forall>r \<in> set rs. record_ok r"
    and "zone_room (octets_used zr_name rs) (octets_used (rd_bytes \<circ> zr_rdata) rs) z"
  shows "\<exists>z'. add_all rs z = Some z' \<and> zone_ok z' \<and> zone_recs z' = zone_recs z @ rs \<and> z_origin z' = z_origin z"
  using assms
proof (induction rs arbitrary: z)
  case (Cons r rs)
  have len: "length (z_names z) < 2 ^ 32" "length (z_rdata z) < 2 ^ 32" and ok: "record_ok r"
    using Cons.prems(2,3) by (auto simp: zone_room_def)
  obtain z1 where z1: "zone_add r z = Some z1" using zone_add_ok(1) [OF Cons.prems(1) ok] len by fastforce
  have room: "zone_room (octets_used zr_name rs) (octets_used (rd_bytes \<circ> zr_rdata) rs) z1"
    using zone_add_fields(1,2) [OF z1] Cons.prems(3) by (simp add: zone_room_def octets_used_def)
  have "zone_ok z1" using zone_add_ok(2) [OF Cons.prems(1) ok z1] by simp
  then have "\<exists>z'. add_all rs z1 = Some z' \<and> zone_ok z' \<and> zone_recs z' = zone_recs z1 @ rs \<and> z_origin z' = z_origin z1"
    using Cons.prems(2) by (intro Cons.IH room) simp_all
  then show ?case using zone_add_ok(2) [OF Cons.prems(1) ok z1] z1 by auto
qed simp

lemma name_eq_folded: "name_eq a b \<longleftrightarrow> folded a = folded b"
  by (simp add: name_eq_def eq_ignore_case_lower folded_lower)

lemma rs_type_at: "p < length (z_records z) \<Longrightarrow> rs_type (sr_rdata (z_records z ! p)) = rd_type (zr_rdata (zone_recs z ! p))"
  by (simp add: zone_recs_def record_of_def rdata_arena_get_def)

lemma apex_soa_position_ok:
  assumes "zone_ok z" and "length (apex_soas z) = 1"
  shows "\<exists>at < length (zone_recs z). apex_soa_position z = Some at \<and> is_apex_soa (zone_recs z ! at) z"
proof -
  note ps = positions_of_ok [OF assms(1), of "origin_key z"]
  obtain r where "r \<in> set (apex_soas z)" using assms(2) by (cases "apex_soas z") auto
  then obtain p where p: "p < length (zone_recs z)" "is_apex_soa (zone_recs z ! p) z" by (auto simp: apex_soas_def in_set_conv_nth)
  then have "p \<in> set (positions_of (origin_key z) z)" "rs_type (sr_rdata (z_records z ! p)) = rt_SOA"
    unfolding ps(2) by (auto simp: is_apex_soa_def name_eq_folded origin_key_def rs_type_at)
  then have "apex_soa_position z \<noteq> None" unfolding apex_soa_position_def find_None_iff by blast
  then obtain at where at: "apex_soa_position z = Some at" by blast
  then have "at \<in> set (positions_of (origin_key z) z)" "rs_type (sr_rdata (z_records z ! at)) = rt_SOA"
    unfolding apex_soa_position_def find_Some_iff by auto
  then show ?thesis using at unfolding ps(2) by (auto simp: is_apex_soa_def name_eq_folded origin_key_def rs_type_at)
qed

lemma remove_apex_soa:
  assumes "zone_ok z" and "length (apex_soas z) = 1" and "zone_room n d z"
  shows "\<exists>at r z'. apex_soa_position z = Some at \<and> remove_record at z = Some (r, z') \<and> zone_ok z' \<and> zone_room n d z' \<and>
    z_origin z' = z_origin z \<and> zone_content z' = zone_rest z"
proof -
  obtain at where at: "at < length (zone_recs z)" "apex_soa_position z = Some at" "is_apex_soa (zone_recs z ! at) z"
    using apex_soa_position_ok [OF assms(1,2)] by blast
  obtain r z' where r: "remove_record at z = Some (r, z')"
    using remove_record_ok(2) [OF assms(1) at(1)] assms(3) by (force simp: zone_room_def)
  note ok = remove_record_ok(1) [OF assms(1) at(1) r]
  have "zone_recs z ! at \<in> set (apex_soas z)" using at by (simp add: apex_soas_def)
  then have "apex_soas z = [zone_recs z ! at]" using assms(2) by (cases "apex_soas z") auto
  then have "zone_content z = add_mset (zkey (zone_recs z ! at)) (zone_rest z)" by (simp add: zone_content_split)
  moreover have "zone_content z = add_mset (zkey (zone_recs z ! at)) (zone_content z')"
    using ok mset_swap_remove [OF at(1)] by (simp add: zone_content_def)
  ultimately show ?thesis using at r ok remove_record_room [OF assms(1) r] assms(3) by (auto simp: zone_room_def)
qed

definition is_visit :: "visit \<Rightarrow> bool" where
  "is_visit visit \<longleftrightarrow> (\<forall>bs. mset (visit bs) = mset bs)"

lemma buckets_mset_visit: "is_visit visit \<Longrightarrow> buckets_mset (visit bs) = buckets_mset bs"
  unfolding buckets_mset_def is_visit_def by (metis (no_types, lifting) mset_map sum_mset_sum_list)

lemma size_diff_inter: "size (A - B) + size (B \<inter># A) = size A" for A B :: "'a multiset"
proof -
  have "A - B + A \<inter># B = A" by (metis diff_intersect_left_idem subset_mset.add_diff_inverse subset_mset.inf_le1 union_commute)
  then show ?thesis by (metis inf_commute size_union subset_mset.inf_commute)
qed

definition rr_ok :: "resource_record \<Rightarrow> bool" where
  "rr_ok r \<longleftrightarrow> record_ok (zr_of r)"

definition rr_octets :: "resource_record list \<Rightarrow> nat" where
  "rr_octets rs = (\<Sum>r \<leftarrow> rs. length (rr_name r) + length (rd_bytes (rr_data r)))"

abbreviation rr_room :: "resource_record list \<Rightarrow> zone \<Rightarrow> bool" where
  "rr_room rs z \<equiv> zone_room (rr_octets rs) (rr_octets rs) z"

lemma rr_octets_used:
  "octets_used zr_name (map zr_of rs) \<le> rr_octets rs" "octets_used (rd_bytes \<circ> zr_rdata) (map zr_of rs) \<le> rr_octets rs"
  by (induction rs) (auto simp: octets_used_def rr_octets_def)

lemma rr_octets_mono: "mset rs \<subseteq># mset rs' \<Longrightarrow> rr_octets rs \<le> rr_octets rs'"
proof -
  assume "mset rs \<subseteq># mset rs'"
  then obtain C where "mset rs' = mset rs + C" by (auto simp: mset_subset_eq_exists_conv)
  moreover have "rr_octets xs = sum_mset (image_mset (\<lambda>r. length (rr_name r) + length (rd_bytes (rr_data r))) (mset xs))" for xs
    unfolding rr_octets_def mset_map [symmetric] sum_mset_sum_list ..
  ultimately show ?thesis by simp
qed

lemma zone_room_mono: "zone_room n d z \<Longrightarrow> n' \<le> n \<Longrightarrow> d' \<le> d \<Longrightarrow> zone_room n' d' z"
  by (simp add: zone_room_def)

lemma kept_stage: "mset (kept (pt_append (stage steps))) \<subseteq># mset (concat (map snd steps))"
proof -
  have cancel: "mset (kept (pt_append (step_delete r p))) \<subseteq># mset (kept (pt_append p))" if "pending_ok p" for r p
  proof -
    have "mset (kept (as[at := None])) \<subseteq># mset (kept as)" for as and at :: nat
    proof (cases "at < length as \<and> as ! at \<noteq> None")
      case True
      then show ?thesis using kept_update [of at as] by auto
    next
      case False
      then have "as[at := None] = as" by (metis list_update_beyond list_update_id not_le)
      then show ?thesis by simp
    qed
    then show ?thesis by (auto simp: step_delete_def cancel_pending_def Let_def split: option.splits prod.splits bool.splits)
  qed
  have dels: "mset (kept (pt_append (fold step_delete rs p))) \<subseteq># mset (kept (pt_append p))" if "pending_ok p" for rs p
    using that
  proof (induction rs arbitrary: p)
    case (Cons r rs)
    then show ?case using subset_mset.trans [OF Cons.IH [OF step_delete_ok(1) [OF Cons.prems]] cancel [OF Cons.prems]] by simp
  qed simp
  have adds: "kept (pt_append (fold step_add rs p)) = kept (pt_append p) @ rs" for rs p
    by (induction rs arbitrary: p) (simp_all add: step_add_def Let_def)
  have "mset (kept (pt_append (fold (\<lambda>(del, add). patch_step del add) steps p))) \<subseteq># mset (kept (pt_append p)) + mset (concat (map snd steps))"
    if "patch_ok p" for p
    using that
  proof (induction steps arbitrary: p)
    case (Cons s steps)
    obtain del add where s: "s = (del, add)" by (cases s)
    let ?p = "p\<lparr>pt_requested := pt_requested p + length del\<rparr>"
    have "pending_ok ?p" using Cons.prems by (simp add: patch_ok_def pending_ok_def)
    then have "mset (kept (pt_append (patch_step del add p))) \<subseteq># mset (kept (pt_append p)) + mset add"
      using dels [of ?p del] by (simp add: patch_step_def adds)
    then have "mset (kept (pt_append (patch_step del add p))) + mset (concat (map snd steps)) \<subseteq># mset (kept (pt_append p)) + mset add + mset (concat (map snd steps))"
      by (rule subset_mset.add_right_mono)
    from subset_mset.order_trans [OF Cons.IH [OF patch_step_ok(1) [OF Cons.prems]] this] show ?case by (simp add: s add.assoc)
  qed simp
  from this [OF patch_new_ok(1)] show ?thesis by (simp add: patch_new_def kept_def)
qed

lemma patch_apply_ok:
  assumes "zone_ok base" and "length (apex_soas base) = 1" and "is_visit visit"
    and "\<forall>r \<in> set (soa # concat (map snd steps)). rr_ok r" and "rr_room (soa # concat (map snd steps)) base"
  shows "\<exists>z missing M. patch_apply visit base soa (stage steps) = Some (z, missing) \<and> zone_ok z \<and> z_origin z = z_origin base \<and>
    fold (\<lambda>(del, add). seq_step del add) steps (zone_rest base, 0) = (M, missing) \<and> zone_content z = add_mset (rkey soa) M"
proof -
  let ?p = "stage steps" and ?rs = "soa # kept (pt_append (stage steps))"
  let ?Z = "zone_rest base"
  note p = stage_ok(1) [of steps, unfolded patch_ok_def]
  have sub: "mset ?rs \<subseteq># mset (soa # concat (map snd steps))" using kept_stage [of steps] by simp
  have room: "rr_room ?rs base" by (rule zone_room_mono [OF assms(5)]) (rule rr_octets_mono [OF sub])+
  have ok: "\<forall>r \<in> set (map zr_of ?rs). record_ok r"
    using assms(4) set_mset_mono [OF sub] by (auto simp: rr_ok_def)
  obtain at r z1 where z1: "apex_soa_position base = Some at" "remove_record at base = Some (r, z1)" "zone_ok z1" "rr_room ?rs z1"
    "z_origin z1 = z_origin base" "zone_content z1 = ?Z"
    using remove_apex_soa [OF assms(1,2) room] by blast
  obtain removed z2 where z2: "withhold_all (visit (pt_withhold ?p)) (pt_cancelled ?p) z1 = Some (removed, z2)" "zone_ok z2" "rr_room ?rs z2"
    "z_origin z2 = z_origin z1" "zone_content z2 = ?Z - wmset ?p" "removed + size (zone_content z2) = pt_cancelled ?p + size ?Z"
    using withhold_all_ok [OF z1(3,4), of "visit (pt_withhold ?p)" "pt_cancelled ?p"] z1(6) by (auto simp: buckets_mset_visit [OF assms(3)])
  have "zone_room (octets_used zr_name (map zr_of ?rs)) (octets_used (rd_bytes \<circ> zr_rdata) (map zr_of ?rs)) z2"
    by (rule zone_room_mono [OF z2(3) rr_octets_used])
  then obtain z3 where z3: "add_all (map zr_of ?rs) z2 = Some z3" "zone_ok z3" "zone_recs z3 = zone_recs z2 @ map zr_of ?rs" "z_origin z3 = z_origin z2"
    using add_all_ok [OF z2(2) ok] by blast
  have "patch_apply visit base soa ?p = Some (z3, pt_requested ?p - removed)"
    using z1(1,2) z2(1) z3(1) by (simp add: patch_apply_def kept_def)
  moreover have "zone_content z3 = add_mset (rkey soa) (?Z - wmset ?p + amset ?p)"
    using z2(5) z3(3) by (simp add: zone_content_def image_mset.compositionality comp_def)
  moreover have "pt_requested ?p - removed = size (wmset ?p - ?Z)"
    using p z2(5,6) size_diff_inter [of ?Z "wmset ?p"] size_diff_inter [of "wmset ?p" ?Z] by (simp add: subset_mset.inf_commute)
  moreover have "fold (\<lambda>(del, add). seq_step del add) steps (?Z, 0) = (?Z - wmset ?p + amset ?p, size (wmset ?p - ?Z))"
    using stage_ok(2) [of ?Z steps] by (simp add: staged_def)
  ultimately show ?thesis using z3(2,4) z2(4) z1(5) by auto
qed

text \<open>
  C19. Staging difference sequences and applying them to a version in one pass gives what applying
  them one after the other gives, whatever the order the table of deletions is walked in: every
  deletion takes out one copy if the version then had it, an addition may be deleted again by a later
  step, the deletions that found nothing are counted, and the apex SOA is the last one. The result is
  a well-formed zone, and there always is one while the arenas stay below 4 GiB.
\<close>

theorem patch_refines:
  assumes "zone_ok base" and "length (apex_soas base) = 1" and "is_visit visit"
    and "\<forall>r \<in> set (soa # concat (map snd steps)). rr_ok r" and "rr_room (soa # concat (map snd steps)) base"
  shows "\<exists>z missing M. patch_apply visit base soa (stage steps) = Some (z, missing) \<and> zone_ok z \<and> z_origin z = z_origin base \<and>
    fold (\<lambda>(del, add). seq_step del add) steps (zone_rest base, 0) = (M, missing) \<and> zone_content z = add_mset (rkey soa) M"
  by (rule patch_apply_ok [OF assms])

section \<open>A difference applied\<close>

lemma fold_seq_delete: "mset ks \<subseteq># M \<Longrightarrow> fold seq_delete ks (M, m) = (M - mset ks, m)"
proof (induction ks arbitrary: M)
  case (Cons k ks)
  then have "k \<in># M" "mset ks \<subseteq># M - {#k#}" by (auto simp: insert_subset_eq_iff)
  then show ?case using Cons.IH [of "M - {#k#}"] by (simp add: diff_diff_add_mset)
qed simp

lemma seq_diff:
  assumes "diff old new = Some d"
  shows "seq_step (deleted d) (added d) (zone_rest old, m) = (zone_rest new, m)"
proof -
  have "fold seq_delete (map rkey (deleted d)) (zone_rest old, m) = (zone_rest old - (zone_rest old - zone_rest new), m)"
    using fold_seq_delete [of "map rkey (deleted d)" "zone_rest old" m] diff_lists(1) [OF assms] by simp
  moreover have "zone_rest old - (zone_rest old - zone_rest new) + (zone_rest new - zone_rest old) = zone_rest new"
    by (rule multiset_eqI) simp
  ultimately show ?thesis by (simp add: seq_step_def diff_lists(2) [OF assms])
qed

section \<open>The log of version steps\<close>

record planned_delta =
  pd_zone :: bytes
  pd_delta :: zone_delta

definition plan_change :: "zone option \<Rightarrow> zone \<Rightarrow> planned_delta option" where
  "plan_change old new =
     (case old of
        None \<Rightarrow> None
      | Some old \<Rightarrow>
          (case (zone_serial old, zone_serial new) of
             (Some f, Some t) \<Rightarrow>
               if \<not> serial_is_newer_than t f then None
               else (case diff old new of
                       None \<Rightarrow> None
                     | Some d \<Rightarrow> if delta_is_empty d then None else Some \<lparr>pd_zone = folded (z_origin new), pd_delta = d\<rparr>)
           | _ \<Rightarrow> None))"

type_synonym delta_log = "bytes \<Rightarrow> zone_delta list option"

definition delta_log_new :: delta_log where
  "delta_log_new = (\<lambda>_. None)"

definition log_all :: "name \<Rightarrow> delta_log \<Rightarrow> zone_delta list" where
  "log_all zone log = (case log (folded zone) of None \<Rightarrow> [] | Some history \<Rightarrow> history)"

definition log_record :: "planned_delta \<Rightarrow> delta_log \<Rightarrow> delta_log" where
  "log_record planned log =
     (let history = (case log (pd_zone planned) of None \<Rightarrow> [] | Some h \<Rightarrow> h) @ [pd_delta planned] in
      log(pd_zone planned \<mapsto> (if length history > MAX_DELTAS_PER_ZONE then tl history else history)))"

definition note_change :: "zone option \<Rightarrow> zone \<Rightarrow> delta_log \<Rightarrow> delta_log" where
  "note_change old new log = (case plan_change old new of None \<Rightarrow> log | Some planned \<Rightarrow> log_record planned log)"

definition log_forget :: "name \<Rightarrow> delta_log \<Rightarrow> delta_log" where
  "log_forget zone log = log(folded zone := None)"

definition log_restore :: "name \<Rightarrow> zone_delta list \<Rightarrow> delta_log \<Rightarrow> delta_log" where
  "log_restore zone deltas log =
     (let deltas = (if length deltas > MAX_DELTAS_PER_ZONE then drop (length deltas - MAX_DELTAS_PER_ZONE) deltas else deltas) in
      if deltas = [] then log(folded zone := None) else log(folded zone \<mapsto> deltas))"

fun chain_walk :: "serial \<Rightarrow> zone_delta list \<Rightarrow> zone_delta list option" where
  "chain_walk expected [] = Some []"
| "chain_walk expected (d # ds) = (if from_serial d \<noteq> expected then None else map_option ((#) d) (chain_walk (to_serial d) ds))"

definition chain_from :: "name \<Rightarrow> serial \<Rightarrow> delta_log \<Rightarrow> zone_delta list option" where
  "chain_from zone s log =
     (case log (folded zone) of
        None \<Rightarrow> None
      | Some history \<Rightarrow>
          (case dropWhile (\<lambda>d. from_serial d \<noteq> s) history of
             [] \<Rightarrow> None
           | ds \<Rightarrow> chain_walk s ds))"

section \<open>Answering an IXFR\<close>

datatype ixfr_response =
    UpToDate "dns_message list"
  | Incremental "dns_message list" nat nat
  | FullTransfer string

fun find_map :: "('a \<Rightarrow> 'b option) \<Rightarrow> 'a list \<Rightarrow> 'b option" where
  "find_map f [] = None"
| "find_map f (x # xs) = (case f x of Some y \<Rightarrow> Some y | None \<Rightarrow> find_map f xs)"

definition requested_serial :: "dns_message \<Rightarrow> serial option" where
  "requested_serial request = find_map (\<lambda>rr. soa_serial (rr_data rr)) (filter (\<lambda>rr. rd_type (rr_data rr) = rt_SOA) (dm_authorities request))"

definition sequence_records :: "zone_delta \<Rightarrow> resource_record list" where
  "sequence_records d = from_soa d # deleted d @ to_soa d # added d"

definition ixfr_answer :: "dns_message \<Rightarrow> zone \<Rightarrow> delta_log \<Rightarrow> transfer_error + ixfr_response" where
  "ixfr_answer request z log =
     (case apex_soa_record z of
        None \<Rightarrow> Inl (TrMalformed ''zone has no SOA at its apex'')
      | Some soa \<Rightarrow>
          (case zone_serial z of
             None \<Rightarrow> Inl (TrMalformed ''zone has no serial'')
           | Some current \<Rightarrow>
               Inr (case requested_serial request of
                      None \<Rightarrow> FullTransfer ''the request carried no SOA to compare against''
                    | Some client \<Rightarrow>
                        if \<not> serial_is_newer_than current client then UpToDate (pack_transfer_messages request [soa])
                        else
                          (case chain_from (z_origin z) client log of
                             None \<Rightarrow> FullTransfer ''no unbroken chain of changes back to the client's serial''
                           | Some chain \<Rightarrow>
                               if chain = [] \<or> to_serial (last chain) \<noteq> current
                               then FullTransfer ''the remembered changes do not reach the zone's current serial''
                               else
                                 let records = (\<Sum>d \<leftarrow> chain. delta_len d) in
                                 if records \<ge> length (zone_recs z) then FullTransfer ''the changes are no smaller than the zone itself''
                                 else Incremental (pack_transfer_messages request (soa # concat (map sequence_records chain) @ [soa]))
                                        (length chain) records))))"

definition ixfr_messages :: "ixfr_response \<Rightarrow> dns_message \<Rightarrow> zone \<Rightarrow> transfer_error + dns_message list" where
  "ixfr_messages response request z =
     (case response of
        UpToDate ms \<Rightarrow> Inr ms
      | Incremental ms _ _ \<Rightarrow> Inr ms
      | FullTransfer _ \<Rightarrow> axfr_messages request z)"

section \<open>The chain brings a version up to date\<close>

text \<open>A version a server can hold: well formed, with one apex SOA whose serial can be read.\<close>

definition version_ok :: "zone \<Rightarrow> bool" where
  "version_ok z \<longleftrightarrow> zone_ok z \<and> length (apex_soas z) = 1 \<and> zone_serial z \<noteq> None"

lemma apex_query:
  assumes "zone_ok z"
  shows "mset (zone_query (z_origin z) rt_SOA z) = mset (apex_soas z)"
proof -
  let ?q = "folded (z_origin z)"
  have w: "within (origin_key z) ?q" by (simp add: origin_key_def)
  have q: "zone_query (z_origin z) rt_SOA z = of_type (locate (z_origin z) z) rt_SOA" by (simp add: zone_query_def query_with_kind_def Let_def)
  have none: "name_kind (z_origin z) z \<noteq> Wildcard v" for v
  proof
    assume "name_kind (z_origin z) z = Wildcard v"
    then obtain e where e: "closest_encloser (zone_recs z) (origin_key z) (tl (ancestors ?q)) e"
      using name_kind_of_key_correct(3) [OF assms w] by (auto simp: name_kind_def)
    then have "e \<in> set (tl (ancestors ?q))" "length (origin_key z) \<le> length e"
      by (auto simp: closest_encloser_def deepest_def dest!: ancestors_length)
    moreover have "length a < length ?q" if a: "a \<in> set (tl (ancestors ?q))" for a
    proof (cases "parent ?q")
      case (Some p)
      then show ?thesis using a ancestors_length [of a p] parent_shorter [OF Some] by (auto simp: ancestors_parent)
    qed (use a in \<open>simp add: ancestors_no_parent\<close>)
    ultimately show False by (fastforce simp: origin_key_def)
  qed
  have exact: "name_kind (z_origin z) z = Exact \<longleftrightarrow> owned (zone_recs z) ?q"
    using name_kind_of_key_correct(1) [OF assms w] by (simp add: name_kind_def)
  have soas: "mset (apex_soas z) = filter_mset (\<lambda>r. qtype_matches rt_SOA (rd_type (zr_rdata r))) (records_at (zone_recs z) ?q)"
    by (auto simp: apex_soas_def records_at_def is_apex_soa_def name_eq_folded qtype_matches_def rtype_defs filter_filter_mset intro!: filter_mset_cong)
  show ?thesis
  proof (cases "owned (zone_recs z) ?q")
    case True
    then show ?thesis using of_type_locate [OF assms, of "z_origin z" rt_SOA] exact by (simp add: q soas)
  next
    case False
    then have "records_at (zone_recs z) ?q = {#}" by (auto simp: records_at_def owned_def mset_filter [symmetric] filter_empty_conv)
    moreover have "mset (zone_query (z_origin z) rt_SOA z) = {#}"
      using of_type_locate [OF assms, of "z_origin z" rt_SOA] False exact none by (auto simp: q split: NameKind.splits)
    ultimately show ?thesis by (simp add: soas)
  qed
qed

lemma version_soa:
  assumes "version_ok z"
  shows "\<exists>soa. apex_soas z = [soa] \<and> apex_soa z = Some soa"
proof -
  obtain soa where s: "apex_soas z = [soa]" using assms by (auto simp: version_ok_def length_Suc_conv)
  then have "mset (zone_query (z_origin z) rt_SOA z) = {#soa#}" using apex_query [of z] assms by (simp add: version_ok_def)
  then have "zone_query (z_origin z) rt_SOA z = [soa]" by simp
  then show ?thesis using s by (simp add: apex_soa_def)
qed

lemma version_content:
  assumes "version_ok z" and "apex_soa_record z = Some soa"
  shows "zone_content z = add_mset (rkey soa) (zone_rest z)"
proof -
  obtain s where s: "apex_soas z = [s]" "apex_soa z = Some s" using version_soa [OF assms(1)] by blast
  then have "is_apex_soa s z" by (auto simp: apex_soas_def dest!: arg_cong [of _ _ set])
  then have "rkey soa = zkey s" using assms(2) s(2) by (auto simp: apex_soa_record_def rkey_def is_apex_soa_def name_eq_folded)
  then show ?thesis using s(1) by (simp add: zone_content_split)
qed

text \<open>
  The versions of a zone a server installs, oldest first, and the log beside them: the first comes when
  the log has nothing of the zone; each install notes the step from the version before; steps of other
  zones are noted between, and a history may be forgotten at any time.
\<close>

inductive served :: "bytes \<Rightarrow> zone list \<Rightarrow> delta_log \<Rightarrow> bool" for key where
  sv_first: "log key = None \<Longrightarrow> served key [z] log"
| sv_next: "served key (vs @ [old]) log \<Longrightarrow> folded (z_origin new) = key \<Longrightarrow> served key (vs @ [old, new]) (note_change (Some old) new log)"
| sv_other: "served key vs log \<Longrightarrow> folded (z_origin new) \<noteq> key \<Longrightarrow> served key vs (note_change old new log)"
| sv_forget: "served key vs log \<Longrightarrow> served key vs (log_forget zone log)"

lemma plan_changeD:
  assumes "plan_change (Some old) new = Some planned"
  shows "pd_zone planned = folded (z_origin new)" "diff old new = Some (pd_delta planned)"
    "serial_is_newer_than (to_serial (pd_delta planned)) (from_serial (pd_delta planned))"
  using assms by (auto simp: plan_change_def diff_def Let_def split: option.splits if_splits)

lemma log_record_at:
  "log_record planned log k = (if k = pd_zone planned then Some (let h = (case log k of None \<Rightarrow> [] | Some h \<Rightarrow> h) @ [pd_delta planned] in
     if length h > MAX_DELTAS_PER_ZONE then tl h else h) else log k)"
  by (simp add: log_record_def Let_def)

lemma served_history:
  assumes "served key vs log" and "log key = Some history" and "d \<in> set history"
  shows "\<exists>i. Suc i < length vs \<and> diff (vs ! i) (vs ! Suc i) = Some d"
  using assms
proof (induction arbitrary: history rule: served.induct)
  case (sv_first log z)
  then show ?case by simp
next
  case (sv_next vs old log new)
  have old: "\<exists>i. Suc i < length (vs @ [old, new]) \<and> diff ((vs @ [old, new]) ! i) ((vs @ [old, new]) ! Suc i) = Some d"
    if h: "log key = Some h" "d \<in> set h" for h
  proof -
    obtain i where i: "Suc i < length (vs @ [old])" "diff ((vs @ [old]) ! i) ((vs @ [old]) ! Suc i) = Some d"
      using sv_next.IH [OF h] by blast
    then have "(vs @ [old, new]) ! i = (vs @ [old]) ! i" "(vs @ [old, new]) ! Suc i = (vs @ [old]) ! Suc i" by (simp_all add: nth_append)
    then show ?thesis using i by (intro exI [of _ i]) simp
  qed
  show ?case
  proof (cases "plan_change (Some old) new")
    case None
    then show ?thesis using old sv_next.prems by (simp add: note_change_def)
  next
    case (Some planned)
    note p = plan_changeD [OF Some]
    have "d = pd_delta planned \<or> (\<exists>h. log key = Some h \<and> d \<in> set h)"
      using sv_next.prems p(1) sv_next.hyps(2) Some
      by (auto simp: note_change_def log_record_at Let_def split: if_splits option.splits dest!: list.set_sel(2) [rotated])
    moreover have "diff ((vs @ [old, new]) ! length vs) ((vs @ [old, new]) ! Suc (length vs)) = Some (pd_delta planned)"
      using p(2) by (simp add: nth_append)
    ultimately show ?thesis using old by (metis length_append_singleton lessI append_Cons append_assoc append_Nil length_append list.size(3,4) add_Suc_right add_0_right)
  qed
next
  case (sv_other vs log new old)
  then show ?case by (auto simp: note_change_def log_record_at plan_change_def split: option.splits if_splits prod.splits)
next
  case (sv_forget vs log zone)
  then show ?case by (auto simp: log_forget_def split: if_splits)
qed

lemma chain_walk_all: "chain_walk s ds = Some chain \<Longrightarrow> chain = ds"
  by (induction s ds arbitrary: chain rule: chain_walk.induct) (auto split: if_splits)

text \<open>An unbroken chain is the steps of consecutive versions, when no serial is used twice.\<close>

lemma chain_versions:
  assumes "chain_walk s ds = Some chain" and "\<forall>d \<in> set ds. \<exists>i. Suc i < length vs \<and> diff (vs ! i) (vs ! Suc i) = Some d"
    and "distinct (map zone_serial vs)" and "i < length vs" and "zone_serial (vs ! i) = Some s"
  shows "i + length ds < length vs \<and> (\<forall>j < length ds. diff (vs ! (i + j)) (vs ! Suc (i + j)) = Some (ds ! j))"
  using assms
proof (induction s ds arbitrary: chain i rule: chain_walk.induct)
  case (2 s d ds)
  have s: "from_serial d = s" "chain_walk (to_serial d) ds \<noteq> None" using "2.prems"(1) by (auto split: if_splits)
  obtain k where k: "Suc k < length vs" "diff (vs ! k) (vs ! Suc k) = Some d" using "2.prems"(2) by auto
  note dl = diff_lists [OF k(2)]
  have "k = i"
    using nth_eq_iff_index_eq [OF "2.prems"(3), of k i] k(1) "2.prems"(4,5) dl(5) s(1) by simp
  then have "Suc i + length ds < length vs \<and> (\<forall>j < length ds. diff (vs ! (Suc i + j)) (vs ! Suc (Suc i + j)) = Some (ds ! j))"
    using "2.IH" [of _ "Suc i"] "2.prems"(2,3) s k(1) dl(6) by auto
  then show ?case using k(2) \<open>k = i\<close> by (auto simp: less_Suc_eq_0_disj)
qed simp

abbreviation delta_steps :: "zone_delta list \<Rightarrow> (resource_record list \<times> resource_record list) list" where
  "delta_steps chain \<equiv> map (\<lambda>d. (deleted d, added d)) chain"

lemma seq_versions:
  assumes "i + length ds < length vs" and "\<forall>j < length ds. diff (vs ! (i + j)) (vs ! Suc (i + j)) = Some (ds ! j)"
  shows "fold (\<lambda>(del, add). seq_step del add) (delta_steps ds) (zone_rest (vs ! i), m) = (zone_rest (vs ! (i + length ds)), m)"
  using assms
proof (induction ds arbitrary: i)
  case (Cons d ds)
  have "diff (vs ! i) (vs ! Suc i) = Some d" using Cons.prems(2) by force
  moreover have "\<forall>j < length ds. diff (vs ! (Suc i + j)) (vs ! Suc (Suc i + j)) = Some (ds ! j)" using Cons.prems(2) by force
  ultimately show ?case using Cons.IH [of "Suc i"] Cons.prems(1) by (simp add: seq_diff)
qed simp

lemma chain_from_correct:
  assumes "served key vs log" and "folded zone = key" and "distinct (map zone_serial vs)"
    and "v \<in> set vs" and "zone_serial v = Some s" and "chain_from zone s log = Some chain" and "chain \<noteq> []"
    and "zone_serial (last vs) = Some (to_serial (last chain))"
  shows "fold (\<lambda>(del, add). seq_step del add) (delta_steps chain) (zone_rest v, 0) = (zone_rest (last vs), 0) \<and>
    apex_soa_record (last vs) = Some (to_soa (last chain)) \<and>
    (\<forall>d \<in> set chain. \<exists>old new. old \<in> set vs \<and> new \<in> set vs \<and> diff old new = Some d) \<and>
    (\<forall>d \<in> set chain. from_serial d \<noteq> to_serial (last chain))"
proof -
  obtain history where h: "log key = Some history" "chain_walk s (dropWhile (\<lambda>d. from_serial d \<noteq> s) history) = Some chain"
    using assms(2,6) by (auto simp: chain_from_def split: option.splits list.splits)
  then have c: "chain_walk s chain = Some chain" "chain = dropWhile (\<lambda>d. from_serial d \<noteq> s) history"
    using chain_walk_all [OF h(2)] by simp_all
  have sub: "\<forall>d \<in> set chain. \<exists>i. Suc i < length vs \<and> diff (vs ! i) (vs ! Suc i) = Some d"
    using served_history [OF assms(1) h(1)] c(2) set_dropWhileD by metis
  obtain i where i: "i < length vs" "vs ! i = v" using assms(4) by (auto simp: in_set_conv_nth)
  have cv: "i + length chain < length vs" "\<forall>j < length chain. diff (vs ! (i + j)) (vs ! Suc (i + j)) = Some (chain ! j)"
    using chain_versions [OF c(1) sub assms(3) i(1)] i(2) assms(5) by auto
  let ?n = "i + length chain"
  have last: "diff (vs ! (?n - 1)) (vs ! ?n) = Some (last chain)"
    using cv(2) assms(7) by (cases "length chain") (auto simp: last_conv_nth)
  then have "zone_serial (vs ! ?n) = Some (to_serial (last chain))" "apex_soa_record (vs ! ?n) = Some (to_soa (last chain))"
    using diff_lists(4,6) by blast+
  moreover have "vs \<noteq> []" using i(1) by auto
  then have "last vs = vs ! (length vs - 1)" by (rule last_conv_nth)
  moreover have "?n = length vs - 1"
    using calculation cv(1) assms(8) nth_eq_iff_index_eq [OF assms(3), of ?n "length vs - 1"] by simp
  ultimately have l: "last vs = vs ! ?n" "apex_soa_record (last vs) = Some (to_soa (last chain))" by simp_all
  have "from_serial d \<noteq> to_serial (last chain)" if d: "d \<in> set chain" for d
  proof -
    obtain j where j: "j < length chain" "d = chain ! j" using d by (auto simp: in_set_conv_nth)
    then have "zone_serial (vs ! (i + j)) = Some (from_serial d)" using cv(2) diff_lists(5) by blast
    then show ?thesis
      using nth_eq_iff_index_eq [OF assms(3), of "i + j" ?n] j(1) cv(1) assms(8) l(1) by auto
  qed
  moreover have "\<exists>old new. old \<in> set vs \<and> new \<in> set vs \<and> diff old new = Some d" if d: "d \<in> set chain" for d
    using sub d by (metis Suc_lessD nth_mem)
  ultimately show ?thesis using seq_versions [OF cv] i(2) l by auto
qed

lemma ixfr_answer_incremental:
  assumes "ixfr_answer request z log = Inr (Incremental ms steps records)"
  obtains soa cur s chain where "apex_soa_record z = Some soa" "zone_serial z = Some cur" "requested_serial request = Some s"
    "serial_is_newer_than cur s" "chain_from (z_origin z) s log = Some chain" "chain \<noteq> []" "to_serial (last chain) = cur" "steps = length chain"
    "ms = pack_transfer_messages request (soa # concat (map sequence_records chain) @ [soa])"
proof -
  obtain soa cur where 1: "apex_soa_record z = Some soa" "zone_serial z = Some cur"
    using assms by (cases "apex_soa_record z"; cases "zone_serial z") (simp_all add: ixfr_answer_def)
  obtain s where 2: "requested_serial request = Some s" "serial_is_newer_than cur s"
    using assms 1 by (cases "requested_serial request"; cases "serial_is_newer_than cur (the (requested_serial request))") (simp_all add: ixfr_answer_def)
  obtain chain where 3: "chain_from (z_origin z) s log = Some chain"
    using assms 1 2 by (cases "chain_from (z_origin z) s log") (simp_all add: ixfr_answer_def)
  have "chain \<noteq> []" "to_serial (last chain) = cur" "steps = length chain"
    "ms = pack_transfer_messages request (soa # concat (map sequence_records chain) @ [soa])"
    using assms 1 2 3 by (simp_all add: ixfr_answer_def Let_def split: if_splits)
  then show thesis by (rule that [OF 1 2 3])
qed

section \<open>Small versions\<close>

definition soa_record :: "serial \<Rightarrow> zone_record" where
  "soa_record s = \<lparr>zr_name = [1, 120, 0], zr_ttl = 60, zr_class = 1,
     zr_rdata = \<lparr>rd_type = rt_SOA, rd_bytes = [0, 0] @ be32 s @ be32 1 @ be32 1 @ be32 1 @ be32 300\<rparr>\<rparr>"

text \<open>The zone \<^verbatim>\<open>x.\<close> with a serial and an address at each of the names.\<close>

definition small_version :: "serial \<Rightarrow> name list \<Rightarrow> zone" where
  "small_version s ns = the (zone_of [1, 120, 0] (soa_record s # map a_record ns))"

definition small_names :: "name list \<Rightarrow> bool" where
  "small_names ns \<longleftrightarrow> length ns \<le> 4 \<and> set ns \<subseteq> {[1, 98, 1, 120, 0], [1, 99, 1, 120, 0], [1, 100, 1, 120, 0], [1, 101, 1, 120, 0]}"

lemma wf_small_names: "small_names ns \<Longrightarrow> n \<in> set ns \<Longrightarrow> wf_name n \<and> length n = 5 \<and> is_at_or_under n [1, 120, 0]"
proof -
  have "wf_name [1, c, 1, 120, 0]" for c using wf_name_wire_of [of "[[c], [120]]"] by (simp add: label_ok_def)
  moreover have "is_at_or_under [1, c, 1, 120, 0] [1, 120, 0]" for c by (simp add: is_at_or_under_def name_eq_def eq_ignore_case_def ancestors.simps)
  ultimately show "small_names ns \<Longrightarrow> n \<in> set ns \<Longrightarrow> wf_name n \<and> length n = 5 \<and> is_at_or_under n [1, 120, 0]"
    by (auto simp: small_names_def)
qed

lemma soa_record_parse: "rdata_parse (zr_rdata (soa_record s)) = Inr (PSOA [0] [0] s 1 1 1 300)"
  using decode_encoded [of "PSOA [0] [0] s 1 1 1 300" rt_SOA "[0, 0] @ be32 s @ be32 1 @ be32 1 @ be32 1 @ be32 300"] wf_name_wire_of [of "[]"]
  by (simp add: soa_record_def rdata_parse_def encode_def)

lemma small_version_ok:
  fixes s :: serial
  assumes "small_names ns"
  defines "z \<equiv> small_version s ns"
  shows "version_ok z" "z_origin z = [1, 120, 0]" "zone_serial z = Some s" "mset (zone_recs z) = add_mset (soa_record s) (image_mset a_record (mset ns))"
    "apex_soa_record z = Some (rr_of (soa_record s))" "zone_rest z = image_mset (\<lambda>n. zkey (a_record n)) (mset ns)" "zone_room (2 ^ 20) (2 ^ 20) z"
proof -
  note n = wf_small_names [OF assms(1)]
  let ?rs = "soa_record s # map a_record ns"
  have rok: "\<forall>r \<in> set ?rs. record_ok r"
    using n wf_small(1) by (auto simp: record_ok_def soa_record_def a_record_def)
  have len: "octets_used zr_name (map a_record ns) \<le> 5 * length ns" "octets_used (rd_bytes \<circ> zr_rdata) (map a_record ns) = 4 * length ns"
    using n by (induction ns) (auto simp: octets_used_def a_record_def)
  have ns: "length ns \<le> 4" using assms(1) by (simp add: small_names_def)
  have oct: "octets_used zr_name ?rs \<le> 23" "octets_used (rd_bytes \<circ> zr_rdata) ?rs \<le> 38"
    using len ns by (simp_all add: octets_used_def soa_record_def be32_def)
  obtain z' where z': "zone_of [1, 120, 0] ?rs = Some z'" "zone_run z' (mset ?rs)" "z_origin z' = [1, 120, 0]"
    "length (z_names z') = octets_used zr_name ?rs" "length (z_rdata z') = octets_used (rd_bytes \<circ> zr_rdata) ?rs"
    using zone_of_ok [OF wf_small(1) rok] oct by auto
  have zz: "z = z'" using z'(1) by (simp add: z_def small_version_def)
  have ok: "zone_ok z" and m: "mset (zone_recs z) = mset ?rs" using zone_run_ok [OF z'(2)] zz by simp_all
  have soa: "is_apex_soa (soa_record s) z" using zz z'(3) by (simp add: is_apex_soa_def soa_record_def name_eq_folded)
  have no: "\<not> is_apex_soa (a_record n) z" for n by (simp add: is_apex_soa_def a_record_def rtype_defs)
  have part: "mset (filter (\<lambda>r. is_apex_soa r z) (zone_recs z)) = {#soa_record s#}"
    "mset (filter (\<lambda>r. \<not> is_apex_soa r z) (zone_recs z)) = image_mset a_record (mset ns)"
    unfolding mset_filter m using soa no by (simp_all add: filter_mset_image_mset)
  have as: "apex_soas z = [soa_record s]" using part(1) unfolding apex_soas_def by (simp del: mset_filter)
  have "mset (zone_query (z_origin z) rt_SOA z) = {#soa_record s#}" using apex_query [OF ok] as by simp
  then have apex: "apex_soa z = Some (soa_record s)" by (simp add: apex_soa_def)
  then show ser: "zone_serial z = Some s" using soa_record_parse [of s] by (simp add: zone_serial_def)
  show "version_ok z" using ok as ser by (simp add: version_ok_def)
  show "z_origin z = [1, 120, 0]" using zz z'(3) by simp
  then show "apex_soa_record z = Some (rr_of (soa_record s))" using apex by (simp add: apex_soa_record_def rr_of_def soa_record_def)
  show "mset (zone_recs z) = add_mset (soa_record s) (image_mset a_record (mset ns))" using m by simp
  show "zone_rest z = image_mset (\<lambda>n. zkey (a_record n)) (mset ns)" using part(2) by (simp add: zone_rest_def image_mset.compositionality comp_def)
  show "zone_room (2 ^ 20) (2 ^ 20) z" using z'(4,5) oct zz by (simp add: zone_room_def)
qed

theorem patch_refines_witness:
  "\<exists>z. patch_apply (\<lambda>bs. bs) (small_version 1 [[1, 98, 1, 120, 0]]) (rr_of (soa_record 2))
      (stage [([rr_of (a_record [1, 98, 1, 120, 0])], []), ([rr_of (a_record [1, 98, 1, 120, 0])], [])]) = Some (z, 1) \<and>
    zone_content z = {#zkey (soa_record 2)#}"
proof -
  let ?b = "[1, 98, 1, 120, 0] :: name"
  have n: "small_names [?b]" by (simp add: small_names_def)
  note v = small_version_ok [OF n, of 1]
  have "zone_ok (small_version 1 [?b])" "length (apex_soas (small_version 1 [?b])) = 1" using v(1) by (simp_all add: version_ok_def)
  moreover have "is_visit (\<lambda>bs. bs)" by (simp add: is_visit_def)
  moreover have "rr_ok (rr_of (soa_record 2))" using wf_small(1) by (simp add: rr_ok_def record_ok_def soa_record_def be32_def)
  moreover have "rr_room [rr_of (soa_record 2)] (small_version 1 [?b])"
    by (rule zone_room_mono [OF v(7)]) (simp_all add: rr_octets_def soa_record_def be32_def)
  ultimately show ?thesis
    using patch_refines [of "small_version 1 [?b]" "\<lambda>bs. bs" "rr_of (soa_record 2)"
        "[([rr_of (a_record ?b)], []), ([rr_of (a_record ?b)], [])]"]
    by (auto simp: v(6) seq_step_def)
qed

text \<open>The step between two small versions.\<close>

lemma small_diff:
  assumes "small_names ns" and "small_names ms"
  shows "\<exists>d. diff (small_version s ns) (small_version t ms) = Some d \<and> from_serial d = s \<and> to_serial d = t \<and>
    from_soa d = rr_of (soa_record s) \<and> to_soa d = rr_of (soa_record t) \<and>
    delta_len d = size (mset ns - mset ms) + size (mset ms - mset ns)"
proof -
  note v = small_version_ok [OF assms(1), of s] and w = small_version_ok [OF assms(2), of t]
  obtain d where d: "diff (small_version s ns) (small_version t ms) = Some d" using v(3,5) w(3,5) by (simp add: diff_def Let_def)
  note dl = diff_lists [OF d]
  let ?f = "\<lambda>n :: name. (n, 1 :: dclass, 60 :: ttl, zr_rdata (a_record n))"
  have "zkey (a_record n) = ?f n" if "n \<in> set ns \<union> set ms" for n
    using that assms by (auto simp: small_names_def rkey_def a_record_def folded_def is_upper_def word_le_nat_alt)
  then have rest: "zone_rest (small_version s ns) = image_mset ?f (mset ns)" "zone_rest (small_version t ms) = image_mset ?f (mset ms)"
    unfolding v(6) w(6) by (auto intro!: image_mset_cong)
  have "image_mset ?f A - image_mset ?f B = image_mset ?f (A - B)" for A B
    by (rule image_mset_diff_if_inj [symmetric]) (simp add: inj_on_def)
  then have "size (zone_rest (small_version s ns) - zone_rest (small_version t ms)) = size (mset ns - mset ms)"
    "size (zone_rest (small_version t ms) - zone_rest (small_version s ns)) = size (mset ms - mset ns)"
    unfolding rest by simp_all
  then have "delta_len d = size (mset ns - mset ms) + size (mset ms - mset ns)"
    using arg_cong [OF dl(1), of size] arg_cong [OF dl(2), of size] by (simp add: delta_len_def)
  then show ?thesis using d dl(3-6) v(3,5) w(3,5) by simp
qed

end
