(* ===== verification/Xfr.thy ===== *)
theory Xfr
  imports Ixfr
begin

text \<open>
  The receiving side of a transfer, \<^verbatim>\<open>rdns/src/xfr.rs\<close>: the assemblers of an AXFR and of an IXFR, as
  state machines fed one message at a time. The connection is the list of the messages it delivers;
  TSIG, timeouts and the sockets are not modelled. The properties at the end join the two sides.
\<close>

section \<open>Envelopes\<close>

definition MAX_TRANSFER_RECORDS :: nat where "MAX_TRANSFER_RECORDS = 5000000"

datatype progress = More | Complete

definition check_envelope :: "dns_message \<Rightarrow> bool \<Rightarrow> transfer_error + unit" where
  "check_envelope msg closed =
     (if closed then Inl (TrMalformed ''a record arrived after the transfer closed'')
      else if dm_rcode msg \<noteq> RcOk then Inl (TrRcode (dm_rcode msg))
      else if \<not> dm_authoritive msg then Inl (TrMalformed ''transfer message is not authoritative'')
      else Inr ())"

definition belongs_here :: "resource_record \<Rightarrow> name \<Rightarrow> transfer_error + name" where
  "belongs_here rr zone =
     (if \<not> is_at_or_under (rr_name rr) zone then Inl (TrMalformed ''master sent a name which is not in the zone'')
      else if rr_class rr \<noteq> 1 then Inl (TrMalformed ''master sent a record of another class than IN'')
      else Inr (rr_name rr))"

text \<open>The serial of an SOA that parses.\<close>

definition parsed_serial :: "record_data \<Rightarrow> serial option" where
  "parsed_serial d = (case rdata_parse d of Inr (PSOA _ _ serial _ _ _ _) \<Rightarrow> Some serial | _ \<Rightarrow> None)"

section \<open>A whole zone\<close>

record axfr_assembler =
  aa_zone :: name
  aa_records :: "resource_record list"
  aa_opening :: "(resource_record \<times> serial) option"
  aa_complete :: bool

definition axfr_new :: "name \<Rightarrow> axfr_assembler" where
  "axfr_new zone = \<lparr>aa_zone = zone, aa_records = [], aa_opening = None, aa_complete = False\<rparr>"

definition axfr_accept_record :: "resource_record \<Rightarrow> axfr_assembler \<Rightarrow> transfer_error + progress \<times> axfr_assembler" where
  "axfr_accept_record rr a =
     (case belongs_here rr (aa_zone a) of
        Inl e \<Rightarrow> Inl e
      | Inr name \<Rightarrow>
          let is_apex = (rd_type (rr_data rr) = rt_SOA \<and> name_eq name (aa_zone a)) in
          (case aa_opening a of
             None \<Rightarrow>
               if \<not> is_apex then Inl (TrMalformed ''transfer does not open with the SOA of the zone'')
               else
                 (case parsed_serial (rr_data rr) of
                    None \<Rightarrow> Inl (TrMalformed ''the opening SOA does not parse'')
                  | Some serial \<Rightarrow> Inr (More, a\<lparr>aa_opening := Some (rr, serial), aa_records := aa_records a @ [rr]\<rparr>))
           | Some _ \<Rightarrow>
               if is_apex then Inr (Complete, a\<lparr>aa_complete := True\<rparr>)
               else if length (aa_records a) \<ge> MAX_TRANSFER_RECORDS
               then Inl (TrMalformed ''transfer exceeded the most records without closing'')
               else Inr (More, a\<lparr>aa_records := aa_records a @ [rr]\<rparr>)))"

fun axfr_accept_records :: "resource_record list \<Rightarrow> axfr_assembler \<Rightarrow> transfer_error + progress \<times> axfr_assembler" where
  "axfr_accept_records [] a = Inr (More, a)"
| "axfr_accept_records (rr # rrs) a =
     (case axfr_accept_record rr a of
        Inl e \<Rightarrow> Inl e
      | Inr (Complete, a) \<Rightarrow> Inr (Complete, a)
      | Inr (More, a) \<Rightarrow> axfr_accept_records rrs a)"

definition axfr_accept :: "dns_message \<Rightarrow> axfr_assembler \<Rightarrow> transfer_error + progress \<times> axfr_assembler" where
  "axfr_accept msg a =
     (case check_envelope msg (aa_complete a) of Inl e \<Rightarrow> Inl e | Inr _ \<Rightarrow> axfr_accept_records (dm_answers msg) a)"

definition axfr_into_zone :: "axfr_assembler \<Rightarrow> transfer_error + zone" where
  "axfr_into_zone a =
     (if \<not> aa_complete a then Inl (TrMalformed ''transfer ended without its closing SOA'')
      else (case add_all (map zr_of (aa_records a)) (zone_new (aa_zone a)) of None \<Rightarrow> Inl TrPanic | Some z \<Rightarrow> Inr z))"

text \<open>The loop of \<^verbatim>\<open>receive_zone\<close> over the messages of a connection.\<close>

fun receive_zone_loop :: "dns_message list \<Rightarrow> axfr_assembler \<Rightarrow> transfer_error + zone" where
  "receive_zone_loop [] a = Inl TrIo"
| "receive_zone_loop (msg # msgs) a =
     (case axfr_accept msg a of
        Inl e \<Rightarrow> Inl e
      | Inr (Complete, a) \<Rightarrow> axfr_into_zone a
      | Inr (More, a) \<Rightarrow> receive_zone_loop msgs a)"

definition receive_zone :: "dns_message list \<Rightarrow> name \<Rightarrow> transfer_error + zone" where
  "receive_zone msgs zone = receive_zone_loop msgs (axfr_new zone)"

section \<open>Changes\<close>

record sequence =
  sq_to_soa :: "resource_record option"
  sq_deleted :: "resource_record list"
  sq_added :: "resource_record list"

definition sequence_default :: sequence where
  "sequence_default = \<lparr>sq_to_soa = None, sq_deleted = [], sq_added = []\<rparr>"

datatype ixfr_state = AwaitingFirstSoa | BetweenSequences | InDeletions | InAdditions | InFullTransfer | IxfrComplete

record ixfr_assembler =
  ia_zone :: name
  ia_current :: "serial option"
  ia_state :: ixfr_state
  ia_seen :: nat
  ia_sequences :: "sequence list"
  ia_full :: axfr_assembler

definition ixfr_new :: "name \<Rightarrow> ixfr_assembler" where
  "ixfr_new zone = \<lparr>ia_zone = zone, ia_current = None, ia_state = AwaitingFirstSoa, ia_seen = 0, ia_sequences = [], ia_full = axfr_new zone\<rparr>"

text \<open>\<^verbatim>\<open>current_sequence\<close>: the last sequence, changed in place.\<close>

definition on_current :: "(sequence \<Rightarrow> sequence) \<Rightarrow> ixfr_assembler \<Rightarrow> ixfr_assembler" where
  "on_current f a = a\<lparr>ia_sequences := butlast (ia_sequences a) @ [f (last (ia_sequences a))]\<rparr>"

definition open_sequence :: "ixfr_assembler \<Rightarrow> ixfr_assembler" where
  "open_sequence a = a\<lparr>ia_sequences := ia_sequences a @ [sequence_default], ia_state := InDeletions\<rparr>"

definition ixfr_accept_record :: "resource_record \<Rightarrow> ixfr_assembler \<Rightarrow> transfer_error + progress \<times> ixfr_assembler" where
  "ixfr_accept_record rr a =
     (case belongs_here rr (ia_zone a) of
        Inl e \<Rightarrow> Inl e
      | Inr name \<Rightarrow>
          let a = a\<lparr>ia_seen := ia_seen a + 1\<rparr>; is_apex = (rd_type (rr_data rr) = rt_SOA \<and> name_eq name (ia_zone a)) in
          if is_apex \<and> parsed_serial (rr_data rr) = None then Inl (TrMalformed ''an SOA in the transfer does not parse'')
          else
            (case (ia_state a, if is_apex then parsed_serial (rr_data rr) else None) of
               (AwaitingFirstSoa, Some serial) \<Rightarrow>
                 (case axfr_accept_record rr (ia_full a) of
                    Inl e \<Rightarrow> Inl e
                  | Inr (_, full) \<Rightarrow> Inr (More, a\<lparr>ia_current := Some serial, ia_full := full, ia_state := BetweenSequences\<rparr>))
             | (AwaitingFirstSoa, None) \<Rightarrow> Inl (TrMalformed ''the answer does not open with the SOA of the zone'')
             | (BetweenSequences, None) \<Rightarrow>
                 (case axfr_accept_record rr (ia_full a) of
                    Inl e \<Rightarrow> Inl e
                  | Inr (p, full) \<Rightarrow> Inr (p, a\<lparr>ia_state := InFullTransfer, ia_full := full\<rparr>))
             | (BetweenSequences, Some serial) \<Rightarrow>
                 if Some serial = ia_current a \<and> ia_sequences a \<noteq> [] then Inr (Complete, a\<lparr>ia_state := IxfrComplete\<rparr>)
                 else Inr (More, open_sequence a)
             | (InDeletions, Some _) \<Rightarrow> Inr (More, (on_current (\<lambda>s. s\<lparr>sq_to_soa := Some rr\<rparr>) a)\<lparr>ia_state := InAdditions\<rparr>)
             | (InDeletions, None) \<Rightarrow> Inr (More, on_current (\<lambda>s. s\<lparr>sq_deleted := sq_deleted s @ [rr]\<rparr>) a)
             | (InAdditions, Some serial) \<Rightarrow>
                 if Some serial = ia_current a then Inr (Complete, a\<lparr>ia_state := IxfrComplete\<rparr>)
                 else Inr (More, open_sequence a)
             | (InAdditions, None) \<Rightarrow> Inr (More, on_current (\<lambda>s. s\<lparr>sq_added := sq_added s @ [rr]\<rparr>) a)
             | (InFullTransfer, _) \<Rightarrow> Inl TrPanic
             | (IxfrComplete, _) \<Rightarrow> Inl TrPanic))"

fun ixfr_accept_records :: "resource_record list \<Rightarrow> ixfr_assembler \<Rightarrow> transfer_error + progress \<times> ixfr_assembler" where
  "ixfr_accept_records [] a = Inr (More, a)"
| "ixfr_accept_records (rr # rrs) a =
     (if ia_state a = InFullTransfer then
        (case axfr_accept_record rr (ia_full a) of
           Inl e \<Rightarrow> Inl e
         | Inr (Complete, full) \<Rightarrow> Inr (Complete, a\<lparr>ia_full := full, ia_state := IxfrComplete\<rparr>)
         | Inr (More, full) \<Rightarrow> ixfr_accept_records rrs (a\<lparr>ia_full := full\<rparr>))
      else
        (case ixfr_accept_record rr a of
           Inl e \<Rightarrow> Inl e
         | Inr (Complete, a) \<Rightarrow> Inr (Complete, a)
         | Inr (More, a) \<Rightarrow> ixfr_accept_records rrs a))"

definition ixfr_accept :: "dns_message \<Rightarrow> ixfr_assembler \<Rightarrow> transfer_error + progress \<times> ixfr_assembler" where
  "ixfr_accept msg a =
     (case check_envelope msg (ia_state a = IxfrComplete) of
        Inl e \<Rightarrow> Inl e
      | Inr _ \<Rightarrow>
          (case ixfr_accept_records (dm_answers msg) a of
             Inl e \<Rightarrow> Inl e
           | Inr (Complete, a) \<Rightarrow> Inr (Complete, a)
           | Inr (More, a) \<Rightarrow>
               if ia_state a = BetweenSequences \<and> ia_seen a = 1 then Inr (Complete, a\<lparr>ia_state := IxfrComplete\<rparr>)
               else Inr (More, a)))"

datatype ixfr_outcome = OutUpToDate serial | OutUpdated zone nat nat | OutFullTransfer zone

text \<open>The loop over the sequences: the patch they stage and the last SOA.\<close>

fun stage_sequences :: "sequence list \<Rightarrow> patch \<Rightarrow> resource_record option \<Rightarrow> transfer_error + patch \<times> resource_record option" where
  "stage_sequences [] p soa = Inr (p, soa)"
| "stage_sequences (s # ss) p soa =
     (case sq_to_soa s of
        None \<Rightarrow> Inl (TrMalformed ''a difference sequence has no SOA for the version it produces'')
      | Some soa' \<Rightarrow> stage_sequences ss (patch_step (sq_deleted s) (sq_added s) p) (Some soa'))"

definition into_outcome :: "visit \<Rightarrow> zone \<Rightarrow> ixfr_assembler \<Rightarrow> transfer_error + ixfr_outcome" where
  "into_outcome visit base a =
     (if ia_state a \<noteq> IxfrComplete then Inl (TrMalformed ''the answer ended without its closing SOA'')
      else if ia_sequences a \<noteq> [] then
        (case stage_sequences (ia_sequences a) patch_new None of
           Inl e \<Rightarrow> Inl e
         | Inr (_, None) \<Rightarrow> Inl TrPanic
         | Inr (p, Some soa) \<Rightarrow>
             (case patch_apply visit base soa p of
                None \<Rightarrow> Inl TrPanic
              | Some (z, missing) \<Rightarrow> Inr (OutUpdated z (length (ia_sequences a)) missing)))
      else if ia_seen a > 1 then map_sum id OutFullTransfer (axfr_into_zone (ia_full a))
      else Inr (OutUpToDate (case ia_current a of None \<Rightarrow> 0 | Some s \<Rightarrow> s)))"

fun receive_changes_loop :: "visit \<Rightarrow> zone \<Rightarrow> dns_message list \<Rightarrow> ixfr_assembler \<Rightarrow> transfer_error + ixfr_outcome" where
  "receive_changes_loop visit base [] a = Inl TrIo"
| "receive_changes_loop visit base (msg # msgs) a =
     (case ixfr_accept msg a of
        Inl e \<Rightarrow> Inl e
      | Inr (Complete, a) \<Rightarrow> into_outcome visit base a
      | Inr (More, a) \<Rightarrow> receive_changes_loop visit base msgs a)"

definition receive_changes :: "visit \<Rightarrow> dns_message list \<Rightarrow> zone \<Rightarrow> transfer_error + ixfr_outcome" where
  "receive_changes visit msgs base = receive_changes_loop visit base msgs (ixfr_new (z_origin base))"

section \<open>A whole zone arrives\<close>

text \<open>What a receiver takes of a zone: its own names in class IN.\<close>

definition transferable :: "zone \<Rightarrow> bool" where
  "transferable z \<longleftrightarrow> (\<forall>r \<in> set (zone_recs z). zr_class r = 1 \<and> is_at_or_under (zr_name r) (z_origin z))"

definition envelope_ok :: "dns_message \<Rightarrow> bool" where
  "envelope_ok m \<longleftrightarrow> dm_rcode m = RcOk \<and> dm_authoritive m"

lemma envelopes_ok: "m \<in> set (pack_transfer_messages request rs) \<Longrightarrow> envelope_ok m"
  by (auto simp: pack_transfer_messages_def first_message_def transfer_message_def envelope_ok_def reply_to_def split: list.splits option.splits)

lemma axfr_accept_records_append:
  "axfr_accept_records (xs @ ys) a =
     (case axfr_accept_records xs a of
        Inl e \<Rightarrow> Inl e
      | Inr (Complete, a) \<Rightarrow> Inr (Complete, a)
      | Inr (More, a) \<Rightarrow> axfr_accept_records ys a)"
  by (induction xs arbitrary: a) (auto split: sum.splits prod.splits progress.splits)

lemma axfr_accept_record_more: "axfr_accept_record r a = Inr (More, a') \<Longrightarrow> aa_complete a' = aa_complete a"
  by (auto simp: axfr_accept_record_def Let_def split: sum.splits option.splits if_splits)

lemma axfr_more_open: "axfr_accept_records rs a = Inr (More, a') \<Longrightarrow> aa_complete a' = aa_complete a"
  by (induction rs arbitrary: a) (auto split: sum.splits prod.splits progress.splits dest: axfr_accept_record_more)

lemma receive_zone_records:
  assumes "\<forall>m \<in> set ms. envelope_ok m" and "\<not> aa_complete a"
    and "axfr_accept_records (concat (map dm_answers ms)) a = Inr (Complete, a')"
  shows "receive_zone_loop ms a = axfr_into_zone a'"
  using assms
proof (induction ms arbitrary: a)
  case (Cons m ms)
  have env: "check_envelope m (aa_complete a) = Inr ()" using Cons.prems(1,2) by (simp add: check_envelope_def envelope_ok_def)
  have rs: "axfr_accept_records (dm_answers m @ concat (map dm_answers ms)) a = Inr (Complete, a')" using Cons.prems(3) by simp
  show ?case
  proof (cases "axfr_accept_records (dm_answers m) a")
    case (Inl e)
    then show ?thesis using rs by (simp add: axfr_accept_records_append)
  next
    case (Inr q)
    obtain p b where q: "q = (p, b)" by (cases q)
    show ?thesis
    proof (cases p)
      case More
      have "receive_zone_loop ms b = axfr_into_zone a'"
        using Cons.IH [of b] Cons.prems(1,2) rs Inr More q axfr_more_open [of "dm_answers m" a b] by (simp add: axfr_accept_records_append)
      then show ?thesis using env Inr More q by (simp add: axfr_accept_def)
    next
      case Complete
      then show ?thesis using env Inr q rs by (simp add: axfr_accept_def axfr_accept_records_append)
    qed
  qed
qed simp

text \<open>A record of a zone as its receiver sees it: at or under the name, of class IN, the apex SOA or not.\<close>

definition fits :: "name \<Rightarrow> resource_record \<Rightarrow> bool" where
  "fits n r \<longleftrightarrow> is_at_or_under (rr_name r) n \<and> rr_class r = 1"

definition apex_soa_rr :: "name \<Rightarrow> resource_record \<Rightarrow> bool" where
  "apex_soa_rr n r \<longleftrightarrow> rd_type (rr_data r) = rt_SOA \<and> name_eq (rr_name r) n"

lemma belongs_fits: "fits n r \<Longrightarrow> belongs_here r n = Inr (rr_name r)"
  by (simp add: fits_def belongs_here_def)

lemma axfr_middle:
  assumes "aa_opening a \<noteq> None" and "\<forall>r \<in> set rs. fits (aa_zone a) r \<and> \<not> apex_soa_rr (aa_zone a) r"
    and "length (aa_records a) + length rs \<le> MAX_TRANSFER_RECORDS"
  shows "axfr_accept_records rs a = Inr (More, a\<lparr>aa_records := aa_records a @ rs\<rparr>)"
  using assms
proof (induction rs arbitrary: a)
  case (Cons r rs)
  have "axfr_accept_record r a = Inr (More, a\<lparr>aa_records := aa_records a @ [r]\<rparr>)"
    using Cons.prems by (auto simp: axfr_accept_record_def belongs_fits apex_soa_rr_def split: option.splits)
  then show ?case using Cons.IH [of "a\<lparr>aa_records := aa_records a @ [r]\<rparr>"] Cons.prems by simp
qed simp

lemma axfr_stream:
  assumes "fits n soa" and "apex_soa_rr n soa" and "parsed_serial (rr_data soa) = Some s"
    and "\<forall>r \<in> set rs. fits n r \<and> \<not> apex_soa_rr n r" and "length rs < MAX_TRANSFER_RECORDS"
  shows "axfr_accept_records (soa # rs @ [soa]) (axfr_new n) =
    Inr (Complete, \<lparr>aa_zone = n, aa_records = soa # rs, aa_opening = Some (soa, s), aa_complete = True\<rparr>)"
proof -
  let ?a = "\<lparr>aa_zone = n, aa_records = [soa], aa_opening = Some (soa, s), aa_complete = False\<rparr>"
  have "axfr_accept_record soa (axfr_new n) = Inr (More, ?a)"
    using assms(1-3) by (simp add: axfr_accept_record_def axfr_new_def belongs_fits apex_soa_rr_def)
  moreover have "axfr_accept_records rs ?a = Inr (More, ?a\<lparr>aa_records := soa # rs\<rparr>)"
    using axfr_middle [of ?a rs] assms(4,5) by simp
  ultimately show ?thesis
    using assms(1,2) by (simp add: axfr_accept_records_append axfr_accept_record_def belongs_fits apex_soa_rr_def)
qed

lemma fits_record:
  assumes "zone_ok z" and "transferable z" and "wf_name n" and "name_eq n (z_origin z)" and "r \<in> set (zone_recs z)"
  shows "fits n (rr_of r)" "apex_soa_rr n (rr_of r) \<longleftrightarrow> is_apex_soa r z"
proof -
  have wf: "wf_name (zr_name r)" "wf_name (z_origin z)" using zone_okD(1,3) [OF assms(1)] assms(5) by (auto simp: record_ok_def)
  have n: "folded n = folded (z_origin z)" using assms(4) by (simp add: name_eq_folded)
  show "fits n (rr_of r)"
    using assms(2,5) within_folded [OF wf] within_folded [OF wf(1) assms(3)] n by (auto simp: fits_def transferable_def)
  show "apex_soa_rr n (rr_of r) \<longleftrightarrow> is_apex_soa r z"
    using n by (simp add: apex_soa_rr_def is_apex_soa_def name_eq_folded)
qed

lemma length_folded [simp]: "length (folded n) = length n"
  by (simp add: folded_def)

text \<open>The zone as it is sent: its SOA under the name of the apex, then the rest.\<close>

definition sent_rest :: "zone \<Rightarrow> resource_record list" where
  "sent_rest z = map rr_of (filter (\<lambda>r. \<not> is_apex_soa r z) (zone_recs z))"

lemma sent_rest_key: "image_mset rkey (mset (sent_rest z)) = zone_rest z"
  by (simp add: sent_rest_def zone_rest_def image_mset.compositionality comp_def)

lemma version_sent:
  assumes "version_ok z" and "transferable z" and "wf_name n" and "name_eq n (z_origin z)"
  shows "\<exists>soa s. apex_soa_record z = Some soa \<and> zone_serial z = Some s \<and> parsed_serial (rr_data soa) = Some s \<and> fits n soa \<and>
    apex_soa_rr n soa \<and> rr_ok soa \<and> rr_name soa = z_origin z \<and> (\<exists>zr. zone_query (z_origin z) rt_SOA z = [zr] \<and> (rr_of zr)\<lparr>rr_name := z_origin z\<rparr> = soa) \<and>
    octets_used zr_name (map zr_of (soa # sent_rest z)) = octets_used zr_name (zone_recs z) \<and>
    octets_used (rd_bytes \<circ> zr_rdata) (map zr_of (soa # sent_rest z)) = octets_used (rd_bytes \<circ> zr_rdata) (zone_recs z)"
proof -
  have ok: "zone_ok z" using assms(1) by (simp add: version_ok_def)
  obtain x where x: "apex_soas z = [x]" "apex_soa z = Some x" using version_soa [OF assms(1)] by blast
  then have in_z: "x \<in> set (zone_recs z)" "is_apex_soa x z" by (auto simp: apex_soas_def dest!: arg_cong [of _ _ set])
  let ?soa = "(rr_of x)\<lparr>rr_name := z_origin z\<rparr>"
  have soa: "apex_soa_record z = Some ?soa" using x(2) by (simp add: apex_soa_record_def rr_of_def)
  obtain s where s: "zone_serial z = Some s" using assms(1) by (auto simp: version_ok_def)
  then have ps: "parsed_serial (rr_data ?soa) = Some s" using x(2) by (simp add: zone_serial_def parsed_serial_def)
  have n: "folded n = folded (z_origin z)" "folded (zr_name x) = folded (z_origin z)" "rd_type (zr_rdata x) = rt_SOA"
    using assms(4) in_z(2) by (simp_all add: name_eq_folded is_apex_soa_def)
  have wf: "wf_name (z_origin z)" "record_ok x" using zone_okD(1,3) [OF ok] in_z by auto
  have fit: "fits n ?soa" "apex_soa_rr n ?soa"
    using within_folded [OF wf(1) assms(3)] n assms(2) in_z(1) by (auto simp: fits_def apex_soa_rr_def name_eq_folded transferable_def)
  have rr: "rr_ok ?soa" using wf by (simp add: rr_ok_def record_ok_def)
  have "mset (zone_query (z_origin z) rt_SOA z) = {#x#}" using apex_query [OF ok] x(1) by simp
  then have zq: "zone_query (z_origin z) rt_SOA z = [x]" by simp
  have "mset (zone_recs z) = add_mset x (mset (filter (\<lambda>r. \<not> is_apex_soa r z) (zone_recs z)))"
    using multiset_partition [of "mset (zone_recs z)" "\<lambda>r. is_apex_soa r z"] x(1) by (simp add: apex_soas_def flip: mset_filter)
  then have part: "octets_used f (zone_recs z) = length (f x) + octets_used f (filter (\<lambda>r. \<not> is_apex_soa r z) (zone_recs z))" for f
    unfolding octets_used_def by (metis (no_types, lifting) image_mset_add_mset mset_map sum_mset.add_mset sum_mset_sum_list)
  have sent: "map zr_of (sent_rest z) = filter (\<lambda>r. \<not> is_apex_soa r z) (zone_recs z)"
    by (simp add: sent_rest_def comp_def)
  have "length (zr_name x) = length (z_origin z)" using arg_cong [OF n(2), of length] by simp
  then have "octets_used zr_name (map zr_of (?soa # sent_rest z)) = octets_used zr_name (zone_recs z)"
    "octets_used (rd_bytes \<circ> zr_rdata) (map zr_of (?soa # sent_rest z)) = octets_used (rd_bytes \<circ> zr_rdata) (zone_recs z)"
    using part [of zr_name] part [of "rd_bytes \<circ> zr_rdata"] sent by (simp_all add: octets_used_def)
  then show ?thesis using soa s ps fit rr zq by auto
qed

lemma axfr_received:
  assumes "version_ok z" and "transferable z" and "wf_name n" and "name_eq n (z_origin z)"
    and "zone_room 0 0 z" and "length (zone_recs z) \<le> MAX_TRANSFER_RECORDS" and "apex_soa_record z = Some soa"
  shows "\<exists>a z'. axfr_accept_records (soa # sent_rest z @ [soa]) (axfr_new n) = Inr (Complete, a) \<and> axfr_into_zone a = Inr z' \<and>
    zone_ok z' \<and> z_origin z' = n \<and> zone_content z' = zone_content z"
proof -
  have ok: "zone_ok z" using assms(1) by (simp add: version_ok_def)
  obtain s where s: "parsed_serial (rr_data soa) = Some s" "fits n soa" "apex_soa_rr n soa" "rr_ok soa"
    "octets_used zr_name (map zr_of (soa # sent_rest z)) = octets_used zr_name (zone_recs z)"
    "octets_used (rd_bytes \<circ> zr_rdata) (map zr_of (soa # sent_rest z)) = octets_used (rd_bytes \<circ> zr_rdata) (zone_recs z)"
    using version_sent [OF assms(1-4)] assms(7) by auto
  have rest: "\<forall>r \<in> set (sent_rest z). fits n r \<and> \<not> apex_soa_rr n r"
    using fits_record [OF ok assms(2-4)] by (auto simp: sent_rest_def)
  have "length (filter (\<lambda>r. \<not> is_apex_soa r z) (zone_recs z)) < length (zone_recs z)"
    using assms(1) sum_length_filter_compl [of "\<lambda>r. is_apex_soa r z" "zone_recs z"] by (simp add: version_ok_def apex_soas_def)
  then have len: "length (sent_rest z) < MAX_TRANSFER_RECORDS" using assms(6) by (simp add: sent_rest_def)
  let ?a = "\<lparr>aa_zone = n, aa_records = soa # sent_rest z, aa_opening = Some (soa, s), aa_complete = True\<rparr>"
  let ?rs = "map zr_of (soa # sent_rest z)"
  have acc: "axfr_accept_records (soa # sent_rest z @ [soa]) (axfr_new n) = Inr (Complete, ?a)"
    by (rule axfr_stream [OF s(2,3,1) rest len])
  have "\<forall>r \<in> set ?rs. record_ok r" using s(4) zone_okD(3) [OF ok] by (auto simp: rr_ok_def sent_rest_def)
  moreover have "zone_room (octets_used zr_name ?rs) (octets_used (rd_bytes \<circ> zr_rdata) ?rs) (zone_new n)"
    unfolding s(5,6) using assms(5) zone_okD(4,5) [OF ok] by (simp add: zone_room_def zone_new_def)
  ultimately obtain z' where z': "add_all ?rs (zone_new n) = Some z'" "zone_ok z'" "zone_recs z' = ?rs" "z_origin z' = n"
    using add_all_ok [of "zone_new n" ?rs] zone_new_ok(1) [OF assms(3)] zone_new_ok(2) [of n] by (auto simp: zone_new_def)
  have "zone_content z' = zone_content z"
    using version_content [OF assms(1,7)] sent_rest_key [of z] z'(3) by (simp add: zone_content_def image_mset.compositionality comp_def)
  then show ?thesis using acc z' by (auto simp: axfr_into_zone_def)
qed

text \<open>
  C18. A zone transferred whole is the zone: fed the messages of \<^verbatim>\<open>axfr_messages\<close>, a receiver stops at
  the closing SOA and has a well-formed zone with the same records, names up to case, none lost,
  doubled or added.
\<close>

theorem axfr_transfer_correct:
  assumes "version_ok z" and "transferable z" and "wf_name n" and "name_eq n (z_origin z)"
    and "zone_room 0 0 z" and "length (zone_recs z) \<le> MAX_TRANSFER_RECORDS"
  shows "\<exists>ms z'. axfr_messages request z = Inr ms \<and> receive_zone ms n = Inr z' \<and> zone_ok z' \<and> z_origin z' = n \<and>
    zone_content z' = zone_content z"
proof -
  obtain soa zr where s: "apex_soa_record z = Some soa" "zone_query (z_origin z) rt_SOA z = [zr]" "(rr_of zr)\<lparr>rr_name := z_origin z\<rparr> = soa"
    using version_sent [OF assms(1-4)] by blast
  let ?ms = "pack_transfer_messages request (soa # sent_rest z @ [soa])"
  have "axfr_messages request z = Inr ?ms" using s(2,3) by (simp add: axfr_messages_def axfr_records_def sent_rest_def)
  moreover obtain a z' where a: "axfr_accept_records (soa # sent_rest z @ [soa]) (axfr_new n) = Inr (Complete, a)" "axfr_into_zone a = Inr z'"
    "zone_ok z'" "z_origin z' = n" "zone_content z' = zone_content z"
    using axfr_received [OF assms s(1)] by blast
  moreover have "receive_zone ?ms n = axfr_into_zone a"
    unfolding receive_zone_def using envelopes_ok a(1) by (intro receive_zone_records) (auto simp: axfr_new_def)
  ultimately show ?thesis by auto
qed

section \<open>Changes arrive\<close>

lemma ixfr_accept_records_append:
  "ixfr_accept_records (xs @ ys) a =
     (case ixfr_accept_records xs a of
        Inl e \<Rightarrow> Inl e
      | Inr (Complete, a) \<Rightarrow> Inr (Complete, a)
      | Inr (More, a) \<Rightarrow> ixfr_accept_records ys a)"
  by (induction xs arbitrary: a) (auto split: sum.splits prod.splits progress.splits)

text \<open>A record between the SOAs of a transfer, and an SOA of it with its serial.\<close>

definition inner :: "name \<Rightarrow> resource_record \<Rightarrow> bool" where
  "inner n r \<longleftrightarrow> fits n r \<and> \<not> apex_soa_rr n r"

definition frame :: "name \<Rightarrow> resource_record \<Rightarrow> serial \<Rightarrow> bool" where
  "frame n r s \<longleftrightarrow> fits n r \<and> apex_soa_rr n r \<and> parsed_serial (rr_data r) = Some s"

lemma ixfr_deletions:
  assumes "ia_state a = InDeletions" and "ia_sequences a = ss @ [q]" and "\<forall>r \<in> set rs. inner (ia_zone a) r"
  shows "ixfr_accept_records rs a =
    Inr (More, a\<lparr>ia_seen := ia_seen a + length rs, ia_sequences := ss @ [q\<lparr>sq_deleted := sq_deleted q @ rs\<rparr>]\<rparr>)"
  using assms
proof (induction rs arbitrary: a q)
  case Nil
  then show ?case by (cases a) simp
next
  case (Cons r rs)
  let ?q = "q\<lparr>sq_deleted := sq_deleted q @ [r]\<rparr>"
  let ?a = "a\<lparr>ia_seen := ia_seen a + 1, ia_sequences := ss @ [?q]\<rparr>"
  have "ixfr_accept_record r a = Inr (More, ?a)"
    using Cons.prems by (auto simp: ixfr_accept_record_def belongs_fits inner_def apex_soa_rr_def on_current_def Let_def)
  then show ?case using Cons.IH [of ?a ?q] Cons.prems by simp
qed

lemma ixfr_additions:
  assumes "ia_state a = InAdditions" and "ia_sequences a = ss @ [q]" and "\<forall>r \<in> set rs. inner (ia_zone a) r"
  shows "ixfr_accept_records rs a =
    Inr (More, a\<lparr>ia_seen := ia_seen a + length rs, ia_sequences := ss @ [q\<lparr>sq_added := sq_added q @ rs\<rparr>]\<rparr>)"
  using assms
proof (induction rs arbitrary: a q)
  case Nil
  then show ?case by (cases a) simp
next
  case (Cons r rs)
  let ?q = "q\<lparr>sq_added := sq_added q @ [r]\<rparr>"
  let ?a = "a\<lparr>ia_seen := ia_seen a + 1, ia_sequences := ss @ [?q]\<rparr>"
  have "ixfr_accept_record r a = Inr (More, ?a)"
    using Cons.prems by (auto simp: ixfr_accept_record_def belongs_fits inner_def apex_soa_rr_def on_current_def Let_def)
  then show ?case using Cons.IH [of ?a ?q] Cons.prems by simp
qed

definition sequence_of :: "zone_delta \<Rightarrow> sequence" where
  "sequence_of d = \<lparr>sq_to_soa = Some (to_soa d), sq_deleted = deleted d, sq_added = added d\<rparr>"

definition delta_fits :: "name \<Rightarrow> zone_delta \<Rightarrow> bool" where
  "delta_fits n d \<longleftrightarrow> frame n (from_soa d) (from_serial d) \<and> frame n (to_soa d) (to_serial d) \<and> (\<forall>r \<in> set (deleted d @ added d). inner n r)"

lemma ixfr_sequence:
  assumes "delta_fits (ia_zone a) d"
    and "ia_state a = BetweenSequences \<and> ia_sequences a = [] \<or> ia_state a = InAdditions \<and> ia_current a \<noteq> Some (from_serial d)"
  shows "ixfr_accept_records (sequence_records d) a =
    Inr (More, a\<lparr>ia_state := InAdditions, ia_seen := ia_seen a + length (sequence_records d), ia_sequences := ia_sequences a @ [sequence_of d]\<rparr>)"
proof -
  let ?ss = "ia_sequences a"
  let ?a1 = "a\<lparr>ia_seen := ia_seen a + 1, ia_sequences := ?ss @ [sequence_default], ia_state := InDeletions\<rparr>"
  let ?q = "sequence_default\<lparr>sq_deleted := deleted d\<rparr>"
  let ?a2 = "?a1\<lparr>ia_seen := ia_seen a + 1 + length (deleted d), ia_sequences := ?ss @ [?q]\<rparr>"
  let ?a3 = "?a2\<lparr>ia_seen := ia_seen a + 2 + length (deleted d), ia_sequences := ?ss @ [?q\<lparr>sq_to_soa := Some (to_soa d)\<rparr>], ia_state := InAdditions\<rparr>"
  have d: "frame (ia_zone a) (from_soa d) (from_serial d)" "frame (ia_zone a) (to_soa d) (to_serial d)"
    "\<forall>r \<in> set (deleted d). inner (ia_zone a) r" "\<forall>r \<in> set (added d). inner (ia_zone a) r"
    using assms(1) by (auto simp: delta_fits_def)
  have 1: "ixfr_accept_record (from_soa d) a = Inr (More, ?a1)"
    using d(1) assms(2) by (auto simp: ixfr_accept_record_def belongs_fits frame_def apex_soa_rr_def open_sequence_def Let_def)
  have 2: "ixfr_accept_records (deleted d) ?a1 = Inr (More, ?a2)"
    using ixfr_deletions [of ?a1 ?ss sequence_default "deleted d"] d(3) by (simp add: sequence_default_def)
  have 3: "ixfr_accept_record (to_soa d) ?a2 = Inr (More, ?a3)"
    using d(2) by (auto simp: ixfr_accept_record_def belongs_fits frame_def apex_soa_rr_def on_current_def Let_def)
  have 4: "ixfr_accept_records (added d) ?a3 =
      Inr (More, ?a3\<lparr>ia_seen := ia_seen ?a3 + length (added d), ia_sequences := ?ss @ [sequence_of d]\<rparr>)"
    using ixfr_additions [of ?a3 ?ss "?q\<lparr>sq_to_soa := Some (to_soa d)\<rparr>" "added d"] d(4) by (simp add: sequence_default_def sequence_of_def)
  have "ia_state a \<noteq> InFullTransfer" using assms(2) by auto
  then show ?thesis
    unfolding sequence_records_def
    using 1 2 3 4 by (simp add: ixfr_accept_records_append)
qed

lemma ixfr_chain:
  assumes "\<forall>d \<in> set chain. delta_fits (ia_zone a) d" and "ia_current a = Some cur"
    and "ia_state a = BetweenSequences \<and> ia_sequences a = [] \<or> ia_state a = InAdditions \<and> (\<forall>d \<in> set chain. from_serial d \<noteq> cur)"
    and "\<forall>d \<in> set (tl chain). from_serial d \<noteq> cur" and "chain \<noteq> []"
  shows "\<exists>k. ixfr_accept_records (concat (map sequence_records chain)) a =
    Inr (More, a\<lparr>ia_state := InAdditions, ia_seen := ia_seen a + k, ia_sequences := ia_sequences a @ map sequence_of chain\<rparr>)"
  using assms
proof (induction chain arbitrary: a)
  case (Cons d chain)
  let ?a = "a\<lparr>ia_state := InAdditions, ia_seen := ia_seen a + length (sequence_records d), ia_sequences := ia_sequences a @ [sequence_of d]\<rparr>"
  have 1: "ixfr_accept_records (sequence_records d) a = Inr (More, ?a)"
    using Cons.prems(1-3) by (intro ixfr_sequence) auto
  show ?case
  proof (cases "chain = []")
    case True
    then show ?thesis using 1 by auto
  next
    case False
    have "\<exists>k. ixfr_accept_records (concat (map sequence_records chain)) ?a =
        Inr (More, ?a\<lparr>ia_state := InAdditions, ia_seen := ia_seen ?a + k, ia_sequences := ia_sequences ?a @ map sequence_of chain\<rparr>)"
      using Cons.prems False by (intro Cons.IH) (auto dest: list.set_sel(2))
    then obtain k where "ixfr_accept_records (concat (map sequence_records chain)) ?a =
        Inr (More, ?a\<lparr>ia_state := InAdditions, ia_seen := ia_seen ?a + k, ia_sequences := ia_sequences ?a @ map sequence_of chain\<rparr>)" ..
    then show ?thesis using 1 by (intro exI [of _ "length (sequence_records d) + k"]) (simp add: ixfr_accept_records_append add.assoc)
  qed
qed simp

definition under_way :: "ixfr_state \<Rightarrow> bool" where
  "under_way s \<longleftrightarrow> s = InDeletions \<or> s = InAdditions \<or> s = InFullTransfer"

lemma ixfr_record_under_way:
  assumes "ixfr_accept_record r a = Inr (p, b)" and "under_way (ia_state a) \<or> ia_state a = BetweenSequences \<and> ia_sequences a = []"
  shows "p = More \<Longrightarrow> under_way (ia_state b)"
  using assms by (auto simp: ixfr_accept_record_def under_way_def open_sequence_def on_current_def Let_def
      split: sum.splits if_splits option.splits)

lemma ixfr_records_under_way:
  assumes "ixfr_accept_records rs a = Inr (More, b)" and "under_way (ia_state a)"
  shows "under_way (ia_state b)"
  using assms
proof (induction rs arbitrary: a)
  case (Cons r rs)
  show ?case
  proof (cases "ia_state a = InFullTransfer")
    case True
    then show ?thesis using Cons.prems Cons.IH by (force split: sum.splits prod.splits progress.splits)
  next
    case False
    then obtain c where c: "ixfr_accept_record r a = Inr (More, c)" "ixfr_accept_records rs c = Inr (More, b)"
      using Cons.prems(1) by (auto split: sum.splits prod.splits progress.splits)
    then show ?thesis using Cons.IH [OF c(2)] ixfr_record_under_way [OF c(1)] Cons.prems(2) by simp
  qed
qed simp

lemma receive_changes_records:
  assumes "\<forall>m \<in> set ms. envelope_ok m" and "under_way (ia_state a)"
    and "ixfr_accept_records (concat (map dm_answers ms)) a = Inr (Complete, a')"
  shows "receive_changes_loop visit base ms a = into_outcome visit base a'"
  using assms
proof (induction ms arbitrary: a)
  case (Cons m ms)
  have env: "check_envelope m (ia_state a = IxfrComplete) = Inr ()"
    using Cons.prems(1,2) by (auto simp: check_envelope_def envelope_ok_def under_way_def)
  have rs: "ixfr_accept_records (dm_answers m @ concat (map dm_answers ms)) a = Inr (Complete, a')" using Cons.prems(3) by simp
  show ?case
  proof (cases "ixfr_accept_records (dm_answers m) a")
    case (Inl e)
    then show ?thesis using rs by (simp add: ixfr_accept_records_append)
  next
    case (Inr q)
    obtain p b where q: "q = (p, b)" by (cases q)
    show ?thesis
    proof (cases p)
      case More
      have u: "under_way (ia_state b)" using ixfr_records_under_way Inr q More Cons.prems(2) by blast
      have "receive_changes_loop visit base ms b = into_outcome visit base a'"
        using Cons.IH [OF _ u] Cons.prems(1) rs Inr More q by (simp add: ixfr_accept_records_append)
      then show ?thesis using env Inr More q u by (auto simp: ixfr_accept_def under_way_def)
    next
      case Complete
      then show ?thesis using env Inr q rs by (simp add: ixfr_accept_def ixfr_accept_records_append)
    qed
  qed
qed simp

lemma ixfr_opens:
  assumes "frame n soa cur"
  shows "\<exists>full. axfr_accept_record soa (axfr_new n) = Inr (More, full) \<and> aa_opening full = Some (soa, cur) \<and> aa_zone full = n \<and>
    aa_records full = [soa] \<and> \<not> aa_complete full \<and>
    ixfr_accept_record soa (ixfr_new n) =
      Inr (More, \<lparr>ia_zone = n, ia_current = Some cur, ia_state = BetweenSequences, ia_seen = 1, ia_sequences = [], ia_full = full\<rparr>)"
  using assms
  by (auto simp: frame_def axfr_accept_record_def ixfr_accept_record_def axfr_new_def ixfr_new_def belongs_fits apex_soa_rr_def)

lemma first_envelope:
  assumes "record_cost r1 + record_cost r2 \<le> AXFR_TARGET_MESSAGE_SIZE"
  shows "\<exists>m ms xs. pack_transfer_messages request (r1 # r2 # rs) = m # ms \<and> dm_answers m = r1 # r2 # xs"
proof -
  obtain env rest where f: "fill_envelope [] 0 (r1 # r2 # rs) = (env, rest)" by fastforce
  have more: "\<exists>ys. env = current @ ys" if "fill_envelope current estimated xs = (env, rest)" for current estimated xs
    using that by (induction current estimated xs rule: fill_envelope.induct) (auto split: if_splits)
  have "fill_envelope [r1, r2] (record_cost r1 + record_cost r2) rs = (env, rest)" using f assms by simp
  then obtain xs where "env = r1 # r2 # xs" using more by fastforce
  moreover have "envelopes (r1 # r2 # rs) = env # envelopes rest" using f by (simp del: fill_envelope.simps)
  ultimately show ?thesis
    by (auto simp: pack_transfer_messages_def transfer_message_def first_message_def split: option.split)
qed

lemma receive_stream:
  assumes "frame n r1 cur" and "record_cost r1 + record_cost r2 \<le> AXFR_TARGET_MESSAGE_SIZE"
    and "ixfr_accept_records (r1 # r2 # rs) (ixfr_new n) = Inr (Complete, a')" and "z_origin base = n"
  shows "receive_changes visit (pack_transfer_messages request (r1 # r2 # rs)) base = into_outcome visit base a'"
proof -
  obtain m ms xs where m: "pack_transfer_messages request (r1 # r2 # rs) = m # ms" "dm_answers m = r1 # r2 # xs"
    using first_envelope [OF assms(2)] by blast
  have envs: "\<forall>x \<in> set (m # ms). envelope_ok x" using envelopes_ok m(1) by metis
  have "concat (map dm_answers (m # ms)) = r1 # r2 # rs" by (simp only: m(1) [symmetric] answers_packed)
  then have rs: "ixfr_accept_records (dm_answers m @ concat (map dm_answers ms)) (ixfr_new n) = Inr (Complete, a')" using assms(3) by simp
  have env: "check_envelope m (ia_state (ixfr_new n) = IxfrComplete) = Inr ()"
    using envs by (simp add: check_envelope_def envelope_ok_def ixfr_new_def)
  obtain full where 1: "ixfr_accept_record r1 (ixfr_new n) =
      Inr (More, \<lparr>ia_zone = n, ia_current = Some cur, ia_state = BetweenSequences, ia_seen = 1, ia_sequences = [], ia_full = full\<rparr>)"
    using ixfr_opens [OF assms(1)] by blast
  let ?a1 = "\<lparr>ia_zone = n, ia_current = Some cur, ia_state = BetweenSequences, ia_seen = 1, ia_sequences = [], ia_full = full\<rparr>"
  have "ia_state (ixfr_new n) \<noteq> InFullTransfer" by (simp add: ixfr_new_def)
  then have step: "ixfr_accept_records (r1 # ys) (ixfr_new n) = ixfr_accept_records ys ?a1" for ys using 1 by simp
  have more: "under_way (ia_state b)" if b: "ixfr_accept_records (dm_answers m) (ixfr_new n) = Inr (More, b)" for b
  proof -
    obtain c where c: "ixfr_accept_record r2 ?a1 = Inr (More, c)" "ixfr_accept_records xs c = Inr (More, b)"
      using b m(2) step by (auto split: sum.splits prod.splits progress.splits)
    then show ?thesis using ixfr_record_under_way [OF c(1)] ixfr_records_under_way [OF c(2)] by simp
  qed
  have "receive_changes_loop visit base (m # ms) (ixfr_new n) = into_outcome visit base a'"
  proof (cases "ixfr_accept_records (dm_answers m) (ixfr_new n)")
    case (Inl e)
    then show ?thesis using rs by (simp add: ixfr_accept_records_append)
  next
    case (Inr q)
    obtain p b where q: "q = (p, b)" by (cases q)
    show ?thesis
    proof (cases p)
      case More
      have u: "under_way (ia_state b)" using more Inr q More by simp
      have "receive_changes_loop visit base ms b = into_outcome visit base a'"
        using receive_changes_records [OF _ u] envs rs Inr More q by (simp add: ixfr_accept_records_append)
      then show ?thesis using env Inr More q u by (auto simp: ixfr_accept_def under_way_def)
    next
      case Complete
      then show ?thesis using env Inr q rs by (simp add: ixfr_accept_def ixfr_accept_records_append)
    qed
  qed
  then show ?thesis using m(1) assms(4) by (simp add: receive_changes_def)
qed

lemma counts_keys: "e \<in> set (count_records d z cs) \<Longrightarrow>
   (\<exists>r \<in> set (zone_recs z). \<not> is_apex_soa r z \<and> fst e = record_key_of r) \<or> fst e \<in> fst ` set cs"
proof -
  have "(\<exists>r \<in> set rs. \<not> P r \<and> fst e = record_key_of r) \<or> fst e \<in> fst ` set cs"
    if "e \<in> set (fold (\<lambda>r counts. if P r then counts else counts_add d (record_key_of r) counts) rs cs)" for P rs
    using that
  proof (induction rs arbitrary: cs)
    case (Cons r rs)
    show ?case
    proof (cases "P r")
      case False
      then have "(\<exists>r \<in> set rs. \<not> P r \<and> fst e = record_key_of r) \<or> fst e \<in> fst ` set (counts_add d (record_key_of r) cs)"
        using Cons.IH Cons.prems by simp
      then show ?thesis using False fst_counts_add [of _ d "record_key_of r" cs] by fastforce
    qed (use Cons in auto)
  qed simp
  then show "e \<in> set (count_records d z cs) \<Longrightarrow>
    (\<exists>r \<in> set (zone_recs z). \<not> is_apex_soa r z \<and> fst e = record_key_of r) \<or> fst e \<in> fst ` set cs"
    by (simp add: count_records_def)
qed

text \<open>The records of a difference are records of one of the versions.\<close>

lemma diff_records:
  assumes "diff old new = Some d" and "r \<in> set (deleted d) \<union> set (added d)"
  shows "\<exists>z \<in> {old, new}. \<exists>x \<in> set (zone_recs z). \<not> is_apex_soa x z \<and> r = rr_of x"
proof -
  let ?cs = "count_records (- 1) new (count_records 1 old [])"
  have "set (deleted d) \<union> set (added d) \<subseteq> into_record ` fst ` set ?cs"
    using assms(1) by (auto simp: diff_def Let_def image_iff split: option.splits) force+
  then obtain e where e: "e \<in> set ?cs" "r = into_record (fst e)" using assms(2) by auto
  have "into_record (record_key_of x) = rr_of x" for x by (simp add: into_record_def record_key_of_def rr_of_def)
  moreover from counts_keys [OF e(1)] consider x where "x \<in> set (zone_recs new)" "\<not> is_apex_soa x new" "fst e = record_key_of x"
    | e' where "e' \<in> set (count_records 1 old [])" "fst e' = fst e" by force
  then have "\<exists>z \<in> {old, new}. \<exists>x \<in> set (zone_recs z). \<not> is_apex_soa x z \<and> fst e = record_key_of x"
  proof cases
    case 2
    then show ?thesis using counts_keys [OF 2(1)] by auto
  qed auto
  ultimately show ?thesis using e(2) by metis
qed

lemma diff_fits:
  assumes "diff old new = Some d" and "\<forall>z \<in> {old, new}. version_ok z \<and> transferable z \<and> name_eq n (z_origin z)" and "wf_name n"
  shows "delta_fits n d" and "\<forall>r \<in> set (added d). rr_ok r" and "rr_ok (to_soa d)"
proof -
  note dl = diff_lists [OF assms(1)]
  have v: "version_ok old" "transferable old" "name_eq n (z_origin old)" "version_ok new" "transferable new" "name_eq n (z_origin new)"
    using assms(2) by auto
  have "inner n r" if r: "r \<in> set (deleted d) \<union> set (added d)" for r
  proof -
    obtain z x where x: "z \<in> {old, new}" "x \<in> set (zone_recs z)" "\<not> is_apex_soa x z" "r = rr_of x"
      using diff_records [OF assms(1) r] by blast
    then have "zone_ok z" "transferable z" "name_eq n (z_origin z)" using assms(2) by (auto simp: version_ok_def)
    from fits_record [OF this(1,2) assms(3) this(3) x(2)] show ?thesis using x(3,4) by (simp add: inner_def)
  qed
  then show "delta_fits n d"
    using version_sent [OF v(1,2) assms(3) v(3)] version_sent [OF v(4,5) assms(3) v(6)] dl(3-6)
    by (auto simp: delta_fits_def frame_def)
  show "rr_ok (to_soa d)" using version_sent [OF v(4,5) assms(3) v(6)] dl(4) by auto
  show "\<forall>r \<in> set (added d). rr_ok r"
    using diff_records [OF assms(1)] zone_okD(3) v(1,4) by (fastforce simp: rr_ok_def version_ok_def)
qed

lemma stage_sequences_chain:
  "stage_sequences (map sequence_of chain) p soa =
     Inr (fold (\<lambda>(del, add). patch_step del add) (delta_steps chain) p, if chain = [] then soa else Some (to_soa (last chain)))"
  by (induction chain arbitrary: p soa) (simp_all add: sequence_of_def)

lemma rr_octets_simps [simp]: "rr_octets [] = 0" "rr_octets (r # rs) = length (rr_name r) + length (rd_bytes (rr_data r)) + rr_octets rs"
  "rr_octets (xs @ ys) = rr_octets xs + rr_octets ys"
  by (simp_all add: rr_octets_def)

lemma rr_octets_added: "rr_octets (concat (map added chain)) \<le> rr_octets (concat (map sequence_records chain))"
  by (induction chain) (simp_all add: sequence_records_def)

text \<open>The records of an incremental answer bring the version the chain starts from to the last one.\<close>

lemma chain_received:
  assumes "frame n soa cur" and "\<forall>d \<in> set chain. delta_fits n d" and "chain \<noteq> []"
    and "\<forall>d \<in> set (tl chain). from_serial d \<noteq> cur"
  shows "\<exists>a. ixfr_accept_records (soa # concat (map sequence_records chain) @ [soa]) (ixfr_new n) = Inr (Complete, a) \<and>
    ia_state a = IxfrComplete \<and> ia_sequences a = map sequence_of chain"
proof -
  obtain full where 1: "ixfr_accept_record soa (ixfr_new n) =
      Inr (More, \<lparr>ia_zone = n, ia_current = Some cur, ia_state = BetweenSequences, ia_seen = 1, ia_sequences = [], ia_full = full\<rparr>)"
    using ixfr_opens [OF assms(1)] by blast
  let ?a1 = "\<lparr>ia_zone = n, ia_current = Some cur, ia_state = BetweenSequences, ia_seen = 1, ia_sequences = [], ia_full = full\<rparr>"
  obtain k where 2: "ixfr_accept_records (concat (map sequence_records chain)) ?a1 =
      Inr (More, ?a1\<lparr>ia_state := InAdditions, ia_seen := ia_seen ?a1 + k, ia_sequences := ia_sequences ?a1 @ map sequence_of chain\<rparr>)"
    using ixfr_chain [of chain ?a1 cur] assms(2-4) by auto
  let ?a2 = "?a1\<lparr>ia_state := InAdditions, ia_seen := ia_seen ?a1 + k, ia_sequences := ia_sequences ?a1 @ map sequence_of chain\<rparr>"
  have 3: "ixfr_accept_record soa ?a2 = Inr (Complete, ?a2\<lparr>ia_seen := ia_seen ?a2 + 1, ia_state := IxfrComplete\<rparr>)"
    using assms(1) by (simp add: ixfr_accept_record_def belongs_fits frame_def apex_soa_rr_def Let_def)
  have "ia_state (ixfr_new n) \<noteq> InFullTransfer" by (simp add: ixfr_new_def)
  then have "ixfr_accept_records (soa # concat (map sequence_records chain) @ [soa]) (ixfr_new n) =
      Inr (Complete, ?a2\<lparr>ia_seen := ia_seen ?a2 + 1, ia_state := IxfrComplete\<rparr>)"
    using 1 2 3 by (simp add: ixfr_accept_records_append)
  then show ?thesis by simp
qed

lemma zone_rest_content:
  "zone_rest z = filter_mset (\<lambda>k. \<not> (rd_type (snd (snd (snd k))) = rt_SOA \<and> fst k = folded (z_origin z))) (zone_content z)"
  by (simp add: zone_rest_def zone_content_def filter_mset_image_mset is_apex_soa_def name_eq_folded rkey_def)

lemma chain_applied:
  assumes "version_ok base" and "z_origin base = n" and "frame n soa cur" and "rr_ok soa" and "record_cost soa \<le> 8192" and "chain \<noteq> []"
    and d: "\<And>d. d \<in> set chain \<Longrightarrow> delta_fits n d \<and> (\<forall>r \<in> set (added d). rr_ok r) \<and> record_cost (from_soa d) \<le> 8192 \<and> from_serial d \<noteq> cur"
    and "to_soa (last chain) = soa" and "is_visit visit"
    and ms: "ms = pack_transfer_messages request (soa # concat (map sequence_records chain) @ [soa])"
    and "rr_room (concat (map dm_answers ms)) base"
    and "fold (\<lambda>(del, add). seq_step del add) (delta_steps chain) (zone_rest base, 0) = (M, missing)"
  shows "\<exists>z. receive_changes visit ms base = Inr (OutUpdated z (length chain) missing) \<and> zone_ok z \<and> z_origin z = n \<and>
    zone_content z = add_mset (rkey soa) M"
proof -
  obtain d1 ds where chain: "chain = d1 # ds" using assms(6) by (cases chain) auto
  let ?rs = "deleted d1 @ to_soa d1 # added d1 @ concat (map sequence_records ds) @ [soa]"
  have stream: "soa # concat (map sequence_records chain) @ [soa] = soa # from_soa d1 # ?rs" by (simp add: chain sequence_records_def)
  have tl: "\<forall>d \<in> set (tl chain). from_serial d \<noteq> cur" using d chain by simp
  obtain b where b: "ixfr_accept_records (soa # from_soa d1 # ?rs) (ixfr_new n) = Inr (Complete, b)" "ia_state b = IxfrComplete"
    "ia_sequences b = map sequence_of chain"
    using chain_received [OF assms(3) _ assms(6) tl] d stream by auto
  have "record_cost soa + record_cost (from_soa d1) \<le> AXFR_TARGET_MESSAGE_SIZE"
    using assms(5) d [of d1] chain by (simp add: AXFR_TARGET_MESSAGE_SIZE_def)
  then have rc: "receive_changes visit ms base = into_outcome visit base b"
    unfolding ms stream using receive_stream [OF assms(3) _ b(1) assms(2)] by blast
  have "rr_octets (soa # concat (map snd (delta_steps chain))) \<le> rr_octets (concat (map dm_answers ms))"
    unfolding ms using rr_octets_added [of chain] by (simp add: comp_def)
  then have "rr_room (soa # concat (map snd (delta_steps chain))) base" using assms(11) zone_room_mono by blast
  then obtain z' where z': "patch_apply visit base soa (stage (delta_steps chain)) = Some (z', missing)" "zone_ok z'" "z_origin z' = z_origin base"
    "zone_content z' = add_mset (rkey soa) M"
    using patch_apply_ok [of base visit soa "delta_steps chain"] assms(1,4,9,12) d by (auto simp: version_ok_def)
  then have "into_outcome visit base b = Inr (OutUpdated z' (length chain) missing)"
    using b(2,3) assms(6,8) by (simp add: into_outcome_def stage_sequences_chain)
  then show ?thesis using rc z' assms(2) by simp
qed

text \<open>An incremental transfer, with the versions the server has had.\<close>

lemma ixfr_transfer:
  assumes "served (folded n) vs log" and "\<forall>v \<in> set vs. version_ok v \<and> transferable v \<and> name_eq n (z_origin v)"
    and "distinct (map zone_serial vs)" and "v \<in> set vs"
    and "version_ok base" and "z_origin base = n" and "zone_content base = zone_content v"
    and "requested_serial request = zone_serial v" and "ixfr_answer request (last vs) log = Inr (Incremental ms steps records)"
    and "\<forall>v \<in> set vs. \<forall>soa. apex_soa_record v = Some soa \<longrightarrow> record_cost soa \<le> 8192"
    and "is_visit visit" and "rr_room (concat (map dm_answers ms)) base"
  shows "\<exists>z. receive_changes visit ms base = Inr (OutUpdated z steps 0) \<and> zone_ok z \<and> z_origin z = n \<and>
    zone_content z = zone_content (last vs)"
proof -
  let ?z = "last vs"
  have last: "?z \<in> set vs" using assms(4) by (cases vs) auto
  then have z: "version_ok ?z" "transferable ?z" "name_eq n (z_origin ?z)" "folded (z_origin ?z) = folded n"
    using assms(2) by (auto simp: name_eq_folded)
  have n: "wf_name n" using zone_okD(1) assms(5,6) by (auto simp: version_ok_def)
  obtain soa cur s chain where a: "apex_soa_record ?z = Some soa" "zone_serial ?z = Some cur" "zone_serial v = Some s"
    "chain_from (z_origin ?z) s log = Some chain" "chain \<noteq> []" "to_serial (last chain) = cur" "steps = length chain"
    "ms = pack_transfer_messages request (soa # concat (map sequence_records chain) @ [soa])"
    using ixfr_answer_incremental [OF assms(9)] assms(8) by metis
  note cc = chain_from_correct [OF assms(1) z(4) assms(3,4) a(3-5), unfolded a(6), OF a(2)]
  have soa: "to_soa (last chain) = soa" using cc a(1) by simp
  have d: "delta_fits n d" "\<forall>r \<in> set (added d). rr_ok r" "record_cost (from_soa d) \<le> 8192" "from_serial d \<noteq> cur" if mem: "d \<in> set chain" for d
  proof -
    obtain old new where v: "old \<in> set vs" "new \<in> set vs" "diff old new = Some d" using cc mem by blast
    then show "delta_fits n d" "\<forall>r \<in> set (added d). rr_ok r" using diff_fits [OF v(3) _ n] assms(2) by auto
    show "record_cost (from_soa d) \<le> 8192" using diff_lists(3) [OF v(3)] assms(10) v(1) by blast
    show "from_serial d \<noteq> cur" using cc mem a(6) by auto
  qed
  have fr: "frame n soa cur" "rr_ok soa" "record_cost soa \<le> 8192"
    using version_sent [OF z(1,2) n z(3)] a(1,2) assms(10) last by (auto simp: frame_def)
  have "zone_rest base = zone_rest v" using assms(2,4,6,7) by (simp add: zone_rest_content name_eq_folded)
  then have seq: "fold (\<lambda>(del, add). seq_step del add) (delta_steps chain) (zone_rest base, 0) = (zone_rest ?z, 0)" using cc by simp
  show ?thesis
    using chain_applied [OF assms(5,6) fr a(5) _ soa assms(11) a(8) assms(12) seq] d version_content [OF z(1) a(1)] a(7) by auto
qed

section \<open>A whole zone in answer to an IXFR\<close>

lemma ixfr_full_records:
  assumes "ia_state a = InFullTransfer"
  shows "ixfr_accept_records rs a =
    (case axfr_accept_records rs (ia_full a) of
       Inl e \<Rightarrow> Inl e
     | Inr (Complete, full) \<Rightarrow> Inr (Complete, a\<lparr>ia_full := full, ia_state := IxfrComplete\<rparr>)
     | Inr (More, full) \<Rightarrow> Inr (More, a\<lparr>ia_full := full\<rparr>))"
  using assms by (induction rs arbitrary: a) (auto split: sum.splits prod.splits progress.splits)

lemma full_received:
  assumes "frame n soa cur" and "inner n r" and "axfr_accept_records (soa # r # rs) (axfr_new n) = Inr (Complete, full')"
  shows "\<exists>b. ixfr_accept_records (soa # r # rs) (ixfr_new n) = Inr (Complete, b) \<and> ia_state b = IxfrComplete \<and> ia_sequences b = [] \<and>
    ia_seen b = 2 \<and> ia_full b = full'"
proof -
  obtain full where f: "axfr_accept_record soa (axfr_new n) = Inr (More, full)" "aa_zone full = n" "aa_opening full = Some (soa, cur)"
    and 1: "ixfr_accept_record soa (ixfr_new n) =
      Inr (More, \<lparr>ia_zone = n, ia_current = Some cur, ia_state = BetweenSequences, ia_seen = 1, ia_sequences = [], ia_full = full\<rparr>)"
    using ixfr_opens [OF assms(1)] by blast
  let ?a1 = "\<lparr>ia_zone = n, ia_current = Some cur, ia_state = BetweenSequences, ia_seen = 1, ia_sequences = [], ia_full = full\<rparr>"
  have "axfr_accept_record r full = Inr (More, full\<lparr>aa_records := aa_records full @ [r]\<rparr>)"
  proof (cases "axfr_accept_record r full")
    case (Inl e)
    then show ?thesis using assms(3) f(1) by simp
  next
    case (Inr q)
    then show ?thesis using assms(2) f(2,3) by (auto simp: axfr_accept_record_def belongs_fits inner_def apex_soa_rr_def split: if_splits)
  qed
  then obtain full2 where f2: "axfr_accept_record r full = Inr (More, full2)" by blast
  let ?a2 = "?a1\<lparr>ia_seen := 2, ia_state := InFullTransfer, ia_full := full2\<rparr>"
  have 2: "ixfr_accept_record r ?a1 = Inr (More, ?a2)"
    using assms(2) f2 by (auto simp: ixfr_accept_record_def belongs_fits inner_def apex_soa_rr_def Let_def)
  have "axfr_accept_records rs full2 = Inr (Complete, full')" using assms(3) f(1) f2 by simp
  then have 3: "ixfr_accept_records rs ?a2 = Inr (Complete, ?a2\<lparr>ia_full := full', ia_state := IxfrComplete\<rparr>)"
    by (simp add: ixfr_full_records)
  have "ia_state (ixfr_new n) \<noteq> InFullTransfer" by (simp add: ixfr_new_def)
  then have "ixfr_accept_records (soa # r # rs) (ixfr_new n) = Inr (Complete, ?a2\<lparr>ia_full := full', ia_state := IxfrComplete\<rparr>)"
    using 1 2 3 by simp
  then show ?thesis by simp
qed

lemma lone_soa:
  assumes "frame n soa cur" and "dm_answers m = [soa]" and "envelope_ok m" and "z_origin base = n"
  shows "receive_changes visit (m # ms) base = Inr (OutUpToDate cur)"
proof -
  obtain full where 1: "ixfr_accept_record soa (ixfr_new n) =
      Inr (More, \<lparr>ia_zone = n, ia_current = Some cur, ia_state = BetweenSequences, ia_seen = 1, ia_sequences = [], ia_full = full\<rparr>)"
    using ixfr_opens [OF assms(1)] by blast
  have "ia_state (ixfr_new n) \<noteq> InFullTransfer" "ia_state (ixfr_new n) \<noteq> IxfrComplete" by (simp_all add: ixfr_new_def)
  then show ?thesis
    using 1 assms(2-4) by (simp add: receive_changes_def ixfr_accept_def check_envelope_def envelope_ok_def into_outcome_def)
qed

text \<open>
  C38. A server may answer an IXFR with the whole zone. The receiver takes it whole when the zone's first
  record travels in the first message beside the SOA. When that record is too large for it, the first
  message is a lone SOA, and the receiver takes it for \<open>nothing changed\<close>, however old its own version;
  and a zone that is only its SOA is never complete.
\<close>

theorem ixfr_full_transfer:
  assumes "version_ok z" and "transferable z" and "wf_name n" and "name_eq n (z_origin z)"
    and "zone_room 0 0 z" and "length (zone_recs z) \<le> MAX_TRANSFER_RECORDS"
    and "apex_soa_record z = Some soa" and "zone_serial z = Some cur" and "record_cost soa \<le> 8192" and "z_origin base = n"
  shows "\<exists>ms. axfr_messages request z = Inr ms \<and>
    (case sent_rest z of
       [] \<Rightarrow> receive_changes visit ms base = Inl TrIo
     | r # _ \<Rightarrow>
         if record_cost soa + record_cost r \<le> AXFR_TARGET_MESSAGE_SIZE
         then \<exists>z'. receive_changes visit ms base = Inr (OutFullTransfer z') \<and> zone_ok z' \<and> zone_content z' = zone_content z
         else receive_changes visit ms base = Inr (OutUpToDate cur))"
proof -
  obtain s zr where s: "frame n soa cur" "zone_query (z_origin z) rt_SOA z = [zr]" "(rr_of zr)\<lparr>rr_name := z_origin z\<rparr> = soa"
    using version_sent [OF assms(1-4)] assms(7,8) by (auto simp: frame_def)
  let ?ms = "pack_transfer_messages request (soa # sent_rest z @ [soa])"
  have ms: "axfr_messages request z = Inr ?ms" using s(2,3) by (simp add: axfr_messages_def axfr_records_def sent_rest_def)
  have env: "m \<in> set ?ms \<Longrightarrow> envelope_ok m" for m by (rule envelopes_ok)
  show ?thesis
  proof (cases "sent_rest z")
    case Nil
    obtain m ms' where m: "?ms = m # ms'" "dm_answers m = [soa, soa]" "ms' = []"
      using assms(9) Nil by (auto simp: pack_transfer_messages_def transfer_message_def first_message_def AXFR_TARGET_MESSAGE_SIZE_def split: option.split)
    obtain full where 1: "ixfr_accept_record soa (ixfr_new n) =
        Inr (More, \<lparr>ia_zone = n, ia_current = Some cur, ia_state = BetweenSequences, ia_seen = 1, ia_sequences = [], ia_full = full\<rparr>)"
      using ixfr_opens [OF s(1)] by blast
    have "ia_state (ixfr_new n) \<noteq> InFullTransfer" "ia_state (ixfr_new n) \<noteq> IxfrComplete" by (simp_all add: ixfr_new_def)
    then have "receive_changes visit ?ms base = Inl TrIo"
      using 1 m env [of m] assms(10) s(1)
      by (simp add: receive_changes_def ixfr_accept_def check_envelope_def envelope_ok_def ixfr_accept_record_def frame_def
          belongs_fits apex_soa_rr_def open_sequence_def Let_def)
    then show ?thesis using ms Nil by simp
  next
    case (Cons r rs)
    have "r \<in> set (sent_rest z)" using Cons by simp
    then have r: "inner n r"
      using fits_record [OF _ assms(2-4)] assms(1) by (auto simp: sent_rest_def inner_def version_ok_def)
    obtain a z' where a: "axfr_accept_records (soa # sent_rest z @ [soa]) (axfr_new n) = Inr (Complete, a)" "axfr_into_zone a = Inr z'"
      "zone_ok z'" "zone_content z' = zone_content z"
      using axfr_received [OF assms(1-7)] by blast
    show ?thesis
    proof (cases "record_cost soa + record_cost r \<le> AXFR_TARGET_MESSAGE_SIZE")
      case True
      obtain b where b: "ixfr_accept_records (soa # r # rs @ [soa]) (ixfr_new n) = Inr (Complete, b)" "ia_state b = IxfrComplete"
        "ia_sequences b = []" "ia_seen b = 2" "ia_full b = a"
        using full_received [OF s(1) r, of "rs @ [soa]" a] a(1) Cons by auto
      have "receive_changes visit ?ms base = into_outcome visit base b"
        using receive_stream [OF s(1) True b(1) assms(10)] Cons by simp
      then show ?thesis using ms Cons True b a(2-4) by (simp add: into_outcome_def)
    next
      case False
      obtain m ms' where m: "?ms = m # ms'" "dm_answers m = [soa]"
        using False Cons by (auto simp: pack_transfer_messages_def transfer_message_def first_message_def split: option.split)
      have "envelope_ok m" using env [of m] m(1) by simp
      then show ?thesis using ms m lone_soa [OF s(1) m(2) _ assms(10)] Cons False by simp
    qed
  qed
qed

section \<open>Examples\<close>

lemma small_transferable: "small_names ns \<Longrightarrow> transferable (small_version s ns)"
proof -
  assume ns: "small_names ns"
  note v = small_version_ok [OF ns, of s]
  have "set (zone_recs (small_version s ns)) = insert (soa_record s) (a_record ` set ns)"
    using arg_cong [OF v(4), of set_mset] by simp
  moreover have "is_at_or_under [1, 120, 0] [1, 120, 0]" by (simp add: is_at_or_under_def name_eq_def eq_ignore_case_def ancestors.simps)
  ultimately show ?thesis
    using wf_small_names [OF ns] by (auto simp: transferable_def v(2) soa_record_def a_record_def)
qed

lemma small_cost: "record_cost (rr_of (soa_record s)) \<le> 8192" "record_cost (rr_of (a_record n)) = length n + 14"
  by (simp_all add: record_cost_def soa_record_def a_record_def be32_def)

theorem axfr_transfer_correct_witness:
  "\<exists>ms z'. axfr_messages example_request (small_version 7 [[1, 98, 1, 120, 0]]) = Inr ms \<and> receive_zone ms [1, 120, 0] = Inr z' \<and>
    zone_content z' = {#zkey (soa_record 7), zkey (a_record [1, 98, 1, 120, 0])#}"
proof -
  have n: "small_names [[1, 98, 1, 120, 0]]" by (simp add: small_names_def)
  note v = small_version_ok [OF n, of 7]
  have "length (zone_recs (small_version 7 [[1, 98, 1, 120, 0]])) = 2" using arg_cong [OF v(4), of size] by simp
  moreover have "zone_room 0 0 (small_version 7 [[1, 98, 1, 120, 0]])" by (rule zone_room_mono [OF v(7)]) simp_all
  moreover have "zone_content (small_version 7 [[1, 98, 1, 120, 0]]) = {#zkey (soa_record 7), zkey (a_record [1, 98, 1, 120, 0])#}"
    by (simp add: zone_content_def v(4))
  ultimately show ?thesis
    using axfr_transfer_correct [OF v(1) small_transferable [OF n] wf_small(1), of example_request]
    by (auto simp: v(2) name_eq_folded MAX_TRANSFER_RECORDS_def)
qed

definition changes_request :: "serial \<Rightarrow> dns_message" where
  "changes_request s = example_request\<lparr>dm_authorities := [rr_of (soa_record s)]\<rparr>"

lemma changes_requested: "requested_serial (changes_request s) = Some s"
proof -
  have root: "skip_uncompressed_name (0 # rest) = Some rest" for rest
    using skip_uncompressed_name_wire [of "[0]" rest] wf_name_wire_of [of "[]"] by simp
  have "soa_serial (zr_rdata (soa_record s)) = Some s"
    by (simp add: soa_serial_def soa_scalars_def soa_record_def be32_def from_be32_be32 root)
  then show ?thesis by (simp add: requested_serial_def changes_request_def soa_record_def)
qed

lemma served_two:
  assumes "plan_change (Some old) new = Some planned" and "folded (z_origin new) = key"
  shows "served key [old, new] (note_change (Some old) new delta_log_new)" "note_change (Some old) new delta_log_new key = Some [pd_delta planned]"
  using sv_next [of key "[]" old delta_log_new new] sv_first [of delta_log_new key old] assms plan_changeD(1) [OF assms(1)]
  by (simp_all add: note_change_def log_record_at delta_log_new_def MAX_DELTAS_PER_ZONE_def)

lemma small_plan:
  assumes "small_names ns" and "small_names ms" and "serial_is_newer_than t s" and "diff (small_version s ns) (small_version t ms) = Some d"
    and "\<not> delta_is_empty d"
  shows "plan_change (Some (small_version s ns)) (small_version t ms) = Some \<lparr>pd_zone = [1, 120, 0], pd_delta = d\<rparr>"
  using assms small_version_ok(2,3) [OF assms(1), of s] small_version_ok(2,3) [OF assms(2), of t] by (simp add: plan_change_def)

lemma rr_octets_le: "(\<And>r. r \<in> set rs \<Longrightarrow> length (rr_name r) + length (rd_bytes (rr_data r)) \<le> k) \<Longrightarrow> rr_octets rs \<le> k * length rs"
proof (induction rs)
  case (Cons r rs)
  have "length (rr_name r) + length (rd_bytes (rr_data r)) \<le> k" "rr_octets rs \<le> k * length rs" using Cons by simp_all
  then show ?case by simp
qed simp

lemma small_delta_octets:
  assumes "small_names ns" and "small_names ms" and "diff (small_version s ns) (small_version t ms) = Some d"
  shows "rr_octets (sequence_records d) \<le> 100 + 50 * delta_len d"
proof -
  note v = small_version_ok [OF assms(1), of s] and w = small_version_ok [OF assms(2), of t] and dl = diff_lists [OF assms(3)]
  have "length (rr_name r) + length (rd_bytes (rr_data r)) \<le> 50" if r: "r \<in> set (deleted d @ added d)" for r
  proof -
    have "r \<in> set (deleted d) \<union> set (added d)" using r by simp
    then obtain z x where x: "z \<in> {small_version s ns, small_version t ms}" "x \<in> set (zone_recs z)" "r = rr_of x"
      using diff_records [OF assms(3)] by blast
    then have "x \<in> insert (soa_record s) (insert (soa_record t) (a_record ` (set ns \<union> set ms)))"
      using arg_cong [OF v(4), of set_mset] arg_cong [OF w(4), of set_mset] by auto
    then show ?thesis using x(3) wf_small_names [OF assms(1)] wf_small_names [OF assms(2)] by (auto simp: soa_record_def a_record_def be32_def)
  qed
  then have "rr_octets (deleted d @ added d) \<le> 50 * length (deleted d @ added d)" by (rule rr_octets_le)
  moreover have "from_soa d = rr_of (soa_record s)" "to_soa d = rr_of (soa_record t)" using dl(3,4) v(5) w(5) by simp_all
  ultimately show ?thesis by (simp add: sequence_records_def delta_len_def soa_record_def be32_def)
qed

text \<open>Two versions of the small zone, and the answer that leads from one to the other.\<close>

lemma small_ixfr:
  fixes v w :: zone
  defines "v \<equiv> small_version 1 [[1, 98, 1, 120, 0], [1, 99, 1, 120, 0]]"
    and "w \<equiv> small_version 2 [[1, 98, 1, 120, 0], [1, 99, 1, 120, 0], [1, 100, 1, 120, 0]]"
  shows "\<exists>ms. ixfr_answer (changes_request 1) w (note_change (Some v) w delta_log_new) = Inr (Incremental ms 1 1) \<and>
      rr_room (concat (map dm_answers ms)) v"
    and "\<forall>x \<in> {v, w}. version_ok x \<and> transferable x \<and> z_origin x = [1, 120, 0] \<and> (\<forall>soa. apex_soa_record x = Some soa \<longrightarrow> record_cost soa \<le> 8192)"
    and "zone_serial v = Some 1" and "zone_serial w = Some 2"
proof -
  let ?ns = "[[1, 98, 1, 120, 0], [1, 99, 1, 120, 0]] :: name list" and ?ms = "[[1, 98, 1, 120, 0], [1, 99, 1, 120, 0], [1, 100, 1, 120, 0]] :: name list"
  have n: "small_names ?ns" "small_names ?ms" by (simp_all add: small_names_def)
  note v = small_version_ok [OF n(1), of 1, folded v_def] and w = small_version_ok [OF n(2), of 2, folded w_def]
  obtain d where d: "diff v w = Some d" "from_serial d = 1" "to_serial d = 2" "from_soa d = rr_of (soa_record 1)" "to_soa d = rr_of (soa_record 2)" "delta_len d = 1"
    using small_diff [OF n, of 1 2, folded v_def w_def] by auto
  let ?log = "note_change (Some v) w delta_log_new"
  have newer: "serial_is_newer_than 2 1" by (simp add: serial_is_newer_than_def)
  have plan: "plan_change (Some v) w = Some \<lparr>pd_zone = [1, 120, 0], pd_delta = d\<rparr>"
    by (rule small_plan [OF n newer d(1) [unfolded v_def w_def], folded v_def w_def]) (simp add: delta_is_empty_def d(6))
  have log: "?log [1, 120, 0] = Some [d]" using served_two [OF plan] w(2) by simp
  have chain: "chain_from (z_origin w) 1 ?log = Some [d]" using log d(2) w(2) by (simp add: chain_from_def)
  have len: "length (zone_recs w) = 4" using arg_cong [OF w(4), of size] by simp
  let ?msgs = "pack_transfer_messages (changes_request 1) (rr_of (soa_record 2) # sequence_records d @ [rr_of (soa_record 2)])"
  have "ixfr_answer (changes_request 1) w ?log = Inr (Incremental ?msgs 1 1)"
    using w(3,5) chain newer d(3,6) len by (simp add: ixfr_answer_def changes_requested Let_def)
  moreover have "rr_room (concat (map dm_answers ?msgs)) v"
    by (rule zone_room_mono [OF v(7)]) (use small_delta_octets [OF n d(1) [unfolded v_def w_def]] d(6) in \<open>simp_all add: soa_record_def be32_def\<close>)
  ultimately show "\<exists>ms. ixfr_answer (changes_request 1) w ?log = Inr (Incremental ms 1 1) \<and> rr_room (concat (map dm_answers ms)) v" by blast
  show "\<forall>x \<in> {v, w}. version_ok x \<and> transferable x \<and> z_origin x = [1, 120, 0] \<and> (\<forall>soa. apex_soa_record x = Some soa \<longrightarrow> record_cost soa \<le> 8192)"
    using v(1,2,5) w(1,2,5) small_transferable [OF n(1), of 1] small_transferable [OF n(2), of 2] small_cost(1) by (auto simp: v_def w_def)
  show "zone_serial v = Some 1" "zone_serial w = Some 2" by (rule v w)+
qed

theorem ixfr_full_transfer_witness:
  "\<exists>ms z'. axfr_messages example_request (small_version 7 [[1, 98, 1, 120, 0]]) = Inr ms \<and>
    receive_changes (\<lambda>bs. bs) ms (small_version 1 []) = Inr (OutFullTransfer z') \<and>
    zone_content z' = {#zkey (soa_record 7), zkey (a_record [1, 98, 1, 120, 0])#}"
proof -
  let ?b = "[1, 98, 1, 120, 0] :: name"
  let ?z = "small_version 7 [?b]"
  have n: "small_names [?b]" "small_names []" by (simp_all add: small_names_def)
  note v = small_version_ok [OF n(1), of 7] and w = small_version_ok [OF n(2), of 1]
  have "mset (filter (\<lambda>r. \<not> is_apex_soa r ?z) (zone_recs ?z)) = {#a_record ?b#}"
    unfolding mset_filter v(4) by (simp add: is_apex_soa_def v(2) soa_record_def a_record_def rtype_defs name_eq_folded)
  then have rest: "sent_rest ?z = [rr_of (a_record ?b)]" unfolding sent_rest_def by (simp del: mset_filter)
  have "length (zone_recs ?z) = 2" using arg_cong [OF v(4), of size] by simp
  moreover have "zone_room 0 0 ?z" by (rule zone_room_mono [OF v(7)]) simp_all
  moreover have "zone_content ?z = {#zkey (soa_record 7), zkey (a_record ?b)#}" by (simp add: zone_content_def v(4))
  moreover have "record_cost (rr_of (soa_record 7)) + record_cost (rr_of (a_record ?b)) \<le> AXFR_TARGET_MESSAGE_SIZE"
    by (simp add: record_cost_def soa_record_def a_record_def be32_def AXFR_TARGET_MESSAGE_SIZE_def)
  ultimately show ?thesis
    using ixfr_full_transfer [OF v(1) small_transferable [OF n(1)] wf_small(1) _ _ _ v(5,3) small_cost(1) w(2), of example_request "\<lambda>bs. bs"]
    by (auto simp: v(2) name_eq_folded MAX_TRANSFER_RECORDS_def rest)
qed

section \<open>A version installed without a new serial\<close>






end
