(* ===== verification/DynUpdate.thy ===== *)
theory DynUpdate
  imports Xfr
begin

text \<open>
  Dynamic update (RFC 2136), \<^verbatim>\<open>rdns/src/update.rs\<close>: reading an UPDATE, its prerequisites against a zone,
  and the changes it makes. Rejections keep the fixed part of their text; a panic is \<open>None\<close>.
\<close>

section \<open>Requests\<close>

record rejected =
  rj_rcode :: response_code
  rj_why :: string

datatype prerequisite =
    RrsetExists name rtype
  | RrsetExistsWithValue name rtype "record_data list"
  | RrsetDoesNotExist name rtype
  | NameInUse name
  | NameNotInUse name

datatype change =
    Add resource_record
  | DeleteRrset name rtype
  | DeleteName name
  | DeleteRecord name rtype record_data

record update_request =
  ur_zone :: name
  ur_prerequisites :: "prerequisite list"
  ur_changes :: "change list"

definition reject :: "response_code \<Rightarrow> string \<Rightarrow> rejected + 'a" where
  "reject rcode why = Inl \<lparr>rj_rcode = rcode, rj_why = why\<rparr>"

definition in_zone_or_notzone :: "name \<Rightarrow> name \<Rightarrow> rejected + unit" where
  "in_zone_or_notzone n zone =
     (if is_at_or_under n zone then Inr () else reject NameNotInZone ''record is outside the zone'')"

definition read_prerequisite :: "name \<Rightarrow> query_class \<Rightarrow> resource_record \<Rightarrow> rejected + prerequisite" where
  "read_prerequisite zone zone_class rr =
     (if rr_ttl rr \<noteq> 0 then reject FormatError ''prerequisite has a TTL and RFC 2136 requires 0''
      else case in_zone_or_notzone (rr_name rr) zone of
          Inl e \<Rightarrow> Inl e
        | Inr _ \<Rightarrow>
            let t = rd_type (rr_data rr); empty = (rd_bytes (rr_data rr) = []); c = query_class_from_u16 (rr_class rr) in
            if c = QC_Any \<and> t = ANY_CODE \<and> empty then Inr (NameInUse (rr_name rr))
            else if c = QC_Any \<and> empty then Inr (RrsetExists (rr_name rr) t)
            else if c = QC_None \<and> t = ANY_CODE \<and> empty then Inr (NameNotInUse (rr_name rr))
            else if c = QC_None \<and> empty then Inr (RrsetDoesNotExist (rr_name rr) t)
            else if c = zone_class \<and> \<not> empty then Inr (RrsetExistsWithValue (rr_name rr) t [rr_data rr])
            else reject FormatError ''prerequisite is none of the five forms in RFC 2136 2.4'')"

definition read_change :: "name \<Rightarrow> query_class \<Rightarrow> resource_record \<Rightarrow> rejected + change" where
  "read_change zone zone_class rr =
     (case in_zone_or_notzone (rr_name rr) zone of
        Inl e \<Rightarrow> Inl e
      | Inr _ \<Rightarrow>
          let t = rd_type (rr_data rr); empty = (rd_bytes (rr_data rr) = []); c = query_class_from_u16 (rr_class rr);
              deleting = (c = QC_Any \<or> c = QC_None) in
          if \<not> deleting \<and> is_meta t then reject FormatError ''an UPDATE may not add a meta-type''
          else if c = QC_Any \<and> t = ANY_CODE \<and> empty \<and> rr_ttl rr = 0 then Inr (DeleteName (rr_name rr))
          else if c = QC_Any \<and> empty \<and> rr_ttl rr = 0 then Inr (DeleteRrset (rr_name rr) t)
          else if c = QC_None \<and> \<not> empty \<and> rr_ttl rr = 0 then Inr (DeleteRecord (rr_name rr) t (rr_data rr))
          else if c = zone_class \<and> \<not> empty then Inr (Add rr)
          else reject FormatError ''update record is none of the four forms in RFC 2136 2.5'')"

text \<open>\<^verbatim>\<open>collect::<Result<Vec<_>, _>>\<close>: the first error, or all the values.\<close>

fun collect :: "('a \<Rightarrow> 'e + 'b) \<Rightarrow> 'a list \<Rightarrow> 'e + 'b list" where
  "collect f [] = Inr []"
| "collect f (x # xs) = (case f x of Inl e \<Rightarrow> Inl e | Inr y \<Rightarrow> (case collect f xs of Inl e \<Rightarrow> Inl e | Inr ys \<Rightarrow> Inr (y # ys)))"

definition parse_update :: "dns_message \<Rightarrow> rejected + update_request" where
  "parse_update msg =
     (if dm_opcode msg \<noteq> Update then reject FormatError ''opcode is not UPDATE''
      else case dm_queries msg of
          [q] \<Rightarrow>
            if qtype q \<noteq> rt_SOA then reject FormatError ''the zone section's type is not SOA''
            else
              (case collect (read_prerequisite (qname q) (qclass q)) (dm_answers msg) of
                 Inl e \<Rightarrow> Inl e
               | Inr ps \<Rightarrow>
                   (case collect (read_change (qname q) (qclass q)) (dm_authorities msg) of
                      Inl e \<Rightarrow> Inl e
                    | Inr cs \<Rightarrow> Inr \<lparr>ur_zone = qname q, ur_prerequisites = ps, ur_changes = cs\<rparr>))
        | _ \<Rightarrow> reject FormatError ''an UPDATE names exactly one zone'')"

section \<open>Prerequisites\<close>

type_synonym value_set = "name \<times> rtype \<times> record_data list"

definition add_value :: "name \<Rightarrow> rtype \<Rightarrow> record_data list \<Rightarrow> value_set list \<Rightarrow> value_set list" where
  "add_value n t rdatas sets =
     (let same = (\<lambda>(n', t', _). name_eq n' n \<and> t' = t) in
      if \<exists>s \<in> set sets. same s then map_first same (\<lambda>(n', t', collected). (n', t', collected @ rdatas)) sets
      else sets @ [(n, t, rdatas)])"

fun check_each :: "zone \<Rightarrow> prerequisite list \<Rightarrow> value_set list \<Rightarrow> rejected + value_set list" where
  "check_each z [] sets = Inr sets"
| "check_each z (RrsetExists n t # ps) sets =
     (if zone_query n t z = [] then reject NoSuchResourceRecordSet ''has no such RRset'' else check_each z ps sets)"
| "check_each z (RrsetDoesNotExist n t # ps) sets =
     (if zone_query n t z \<noteq> [] then reject ResourceRecordSetExistsForSomeReason ''already has such an RRset'' else check_each z ps sets)"
| "check_each z (NameInUse n # ps) sets =
     (if \<not> holds_name n z then reject NoSuchDomain ''is not in use'' else check_each z ps sets)"
| "check_each z (NameNotInUse n # ps) sets =
     (if holds_name n z then reject DomainExistsForSomeReason ''is already in use'' else check_each z ps sets)"
| "check_each z (RrsetExistsWithValue n t rdatas # ps) sets = check_each z ps (add_value n t rdatas sets)"

definition same_set :: "'a list \<Rightarrow> 'a list \<Rightarrow> bool" where
  "same_set held wanted \<longleftrightarrow> length held = length wanted \<and> (\<forall>h \<in> set held. h \<in> set wanted) \<and> (\<forall>w \<in> set wanted. w \<in> set held)"

fun check_values :: "zone \<Rightarrow> value_set list \<Rightarrow> rejected + unit" where
  "check_values z [] = Inr ()"
| "check_values z ((n, t, wanted) # sets) =
     (let held = map zr_rdata (zone_query n t z) in
      if held = [] then reject NoSuchResourceRecordSet ''has no RRset to match against''
      else if \<not> same_set held wanted then reject NoSuchResourceRecordSet ''the RRsets are compared as whole sets''
      else check_values z sets)"

definition check_prerequisites :: "zone \<Rightarrow> prerequisite list \<Rightarrow> rejected + unit" where
  "check_prerequisites z ps = (case check_each z ps [] of Inl e \<Rightarrow> Inl e | Inr sets \<Rightarrow> check_values z sets)"

section \<open>Changes\<close>

record ignored =
  ig_name :: name
  ig_rtype :: rtype
  ig_why :: string

record working =
  wk_records :: "zone_record list"
  wk_changed :: nat
  wk_ignored :: "ignored list"
  wk_serial_moved :: bool

definition serial_of :: "record_data \<Rightarrow> serial option" where
  "serial_of d = parsed_serial d"

definition singleton_type :: "rtype \<Rightarrow> bool" where
  "singleton_type t \<longleftrightarrow> t = rt_CNAME \<or> t = rt_SOA \<or> t = rt_DNAME"

definition beside_cname :: "rtype \<Rightarrow> bool" where
  "beside_cname t \<longleftrightarrow> t = rt_CNAME \<or> t = rt_RRSIG \<or> t = rt_NSEC \<or> t = rt_NSEC3"

definition work_has_type :: "name \<Rightarrow> rtype \<Rightarrow> zone_record list \<Rightarrow> bool" where
  "work_has_type n t rs \<longleftrightarrow> (\<exists>r \<in> set rs. name_eq (zr_name r) n \<and> rd_type (zr_rdata r) = t)"

definition has_other_data_beside_a_cname :: "name \<Rightarrow> zone_record list \<Rightarrow> bool" where
  "has_other_data_beside_a_cname n rs \<longleftrightarrow> (\<exists>r \<in> set rs. name_eq (zr_name r) n \<and> \<not> beside_cname (rd_type (zr_rdata r)))"

definition work_count :: "name \<Rightarrow> rtype \<Rightarrow> zone_record list \<Rightarrow> nat" where
  "work_count n t rs = length (filter (\<lambda>r. name_eq (zr_name r) n \<and> rd_type (zr_rdata r) = t) rs)"

definition count_matching :: "name \<Rightarrow> record_data \<Rightarrow> zone_record list \<Rightarrow> nat" where
  "count_matching n d rs = length (filter (\<lambda>r. name_eq (zr_name r) n \<and> zr_rdata r = d) rs)"

definition soa_serial_at :: "name \<Rightarrow> zone_record list \<Rightarrow> serial option" where
  "soa_serial_at n rs =
     (case find (\<lambda>r. name_eq (zr_name r) n \<and> rd_type (zr_rdata r) = rt_SOA) rs of None \<Rightarrow> None | Some r \<Rightarrow> serial_of (zr_rdata r))"

definition replaces :: "name \<Rightarrow> rtype \<Rightarrow> record_data \<Rightarrow> zone_record \<Rightarrow> bool" where
  "replaces n t d r \<longleftrightarrow> name_eq (zr_name r) n \<and> rd_type (zr_rdata r) = t \<and> (singleton_type t \<or> zr_rdata r = d)"

definition same_record :: "zone_record \<Rightarrow> zone_record \<Rightarrow> bool" where
  "same_record held replacement \<longleftrightarrow>
     zr_ttl held = zr_ttl replacement \<and> zr_class held = zr_class replacement \<and> zr_rdata held = zr_rdata replacement"

definition ignore :: "name \<Rightarrow> rtype \<Rightarrow> string \<Rightarrow> working \<Rightarrow> working" where
  "ignore n t why w = w\<lparr>wk_ignored := wk_ignored w @ [\<lparr>ig_name = n, ig_rtype = t, ig_why = why\<rparr>]\<rparr>"

definition work_remove :: "(zone_record \<Rightarrow> bool) \<Rightarrow> working \<Rightarrow> working" where
  "work_remove doomed w =
     (let rs = filter (\<lambda>r. \<not> doomed r) (wk_records w) in
      w\<lparr>wk_changed := wk_changed w + (length (wk_records w) - length rs), wk_records := rs\<rparr>)"

text \<open>The first record a new one replaces takes its place.\<close>

definition put_record :: "name \<Rightarrow> zone_record \<Rightarrow> working \<Rightarrow> working" where
  "put_record og r w =
     (let t = rd_type (zr_rdata r); rep = replaces (zr_name r) t (zr_rdata r) in
      case find rep (wk_records w) of
        Some held \<Rightarrow>
          w\<lparr>wk_changed := wk_changed w + (if same_record held r then 0 else 1),
            wk_records := map_first rep (\<lambda>_. r) (wk_records w),
            wk_serial_moved := wk_serial_moved w \<or> t = rt_SOA \<and> name_eq (zr_name r) og\<rparr>
      | None \<Rightarrow> w\<lparr>wk_records := wk_records w @ [r], wk_changed := wk_changed w + 1\<rparr>)"

fun apply_change :: "name \<Rightarrow> change \<Rightarrow> working \<Rightarrow> working" where
  "apply_change og (Add rr) w =
     (let n = rr_name rr; t = rd_type (rr_data rr); rs = wk_records w in
      if t = rt_CNAME \<and> has_other_data_beside_a_cname n rs
      then ignore n t ''a CNAME may not be added where other data exists'' w
      else if t \<noteq> rt_CNAME \<and> work_has_type n rt_CNAME rs
      then ignore n t ''data may not be added where a CNAME exists'' w
      else if t = rt_SOA \<and>
          \<not> (case (soa_serial_at n rs, serial_of (rr_data rr)) of
               (Some current, Some offered) \<Rightarrow> serial_is_newer_than offered current
             | _ \<Rightarrow> False)
      then ignore n t ''an SOA is ignored unless its serial is newer'' w
      else put_record og (zr_of rr) w)"
| "apply_change og (DeleteRrset n t) w =
     (if name_eq n og \<and> (t = rt_SOA \<or> t = rt_NS)
      then ignore n t ''the apex SOA and NS RRsets are not deleted'' w
      else work_remove (\<lambda>r. name_eq (zr_name r) n \<and> rd_type (zr_rdata r) = t) w)"
| "apply_change og (DeleteName n) w =
     (let apex = name_eq n og;
          w = work_remove (\<lambda>r. name_eq (zr_name r) n \<and>
                \<not> (apex \<and> (rd_type (zr_rdata r) = rt_SOA \<or> rd_type (zr_rdata r) = rt_NS))) w in
      if apex then ignore n ANY_CODE ''the apex SOA and NS RRsets survive'' w else w)"
| "apply_change og (DeleteRecord n t d) w =
     (if name_eq n og \<and> t = rt_SOA then ignore n t ''the apex SOA is not deleted'' w
      else if name_eq n og \<and> t = rt_NS \<and> count_matching n d (wk_records w) > 0 \<and>
          work_count n rt_NS (wk_records w) = count_matching n d (wk_records w)
      then ignore n t ''the last apex NS is not deleted'' w
      else work_remove (\<lambda>r. name_eq (zr_name r) n \<and> zr_rdata r = d) w)"

fun bump_serial :: "name \<Rightarrow> zone_record list \<Rightarrow> zone_record list" where
  "bump_serial og [] = []"
| "bump_serial og (r # rs) =
     (if rd_type (zr_rdata r) \<noteq> rt_SOA \<or> \<not> name_eq (zr_name r) og then r # bump_serial og rs
      else
        (case rdata_parse (zr_rdata r) of
           Inr (PSOA mname rname serial refresh retry expire minimum) \<Rightarrow>
             (case rdata_from_parsed (PSOA mname rname (serial_wrapping_add serial 1) refresh retry expire minimum) of
                Inr d \<Rightarrow> r\<lparr>zr_rdata := d\<rparr> # rs
              | Inl _ \<Rightarrow> r # rs)
         | _ \<Rightarrow> r # bump_serial og rs))"

record applied =
  ap_zone :: zone
  ap_changed :: nat
  ap_ignored :: "ignored list"

definition run_changes :: "zone \<Rightarrow> change list \<Rightarrow> working" where
  "run_changes z cs =
     fold (apply_change (z_origin z)) cs \<lparr>wk_records = zone_recs z, wk_changed = 0, wk_ignored = [], wk_serial_moved = False\<rparr>"

definition apply_update :: "zone \<Rightarrow> change list \<Rightarrow> applied option" where
  "apply_update z cs =
     (let w = run_changes z cs;
          rs = (if wk_changed w > 0 \<and> \<not> wk_serial_moved w then bump_serial (z_origin z) (wk_records w) else wk_records w) in
      map_option (\<lambda>z'. \<lparr>ap_zone = z', ap_changed = wk_changed w, ap_ignored = wk_ignored w\<rparr>) (add_all rs (zone_new (z_origin z))))"

section \<open>What an update keeps\<close>

text \<open>A record as the rules of an update see it: its owner, folded, and its type.\<close>

definition shape :: "zone_record \<Rightarrow> bytes \<times> rtype" where
  "shape r = (folded (zr_name r), rd_type (zr_rdata r))"

definition shapes :: "zone_record list \<Rightarrow> (bytes \<times> rtype) multiset" where
  "shapes rs = image_mset shape (mset rs)"

lemma shapes_simps [simp]:
  "shapes [] = {#}" "shapes (r # rs) = add_mset (shape r) (shapes rs)" "shapes (rs @ qs) = shapes rs + shapes qs"
  by (simp_all add: shapes_def)

lemma in_shapes: "k \<in># shapes rs \<longleftrightarrow> (\<exists>r \<in> set rs. shape r = k)"
  by (auto simp: shapes_def)

lemma shapes_filter: "shapes (filter P rs) \<subseteq># shapes rs"
  by (simp add: shapes_def image_mset_subseteq_mono)

lemma shapes_filter_keeps: "(\<And>r. r \<in> set rs \<Longrightarrow> shape r = k \<Longrightarrow> P r) \<Longrightarrow> count (shapes (filter P rs)) k = count (shapes rs) k"
  by (induction rs) auto

lemma work_has_type_shapes: "work_has_type n t rs \<longleftrightarrow> (folded n, t) \<in># shapes rs"
  by (auto simp: work_has_type_def in_shapes shape_def name_eq_folded)

lemma other_data_shapes: "has_other_data_beside_a_cname n rs \<longleftrightarrow> (\<exists>t. (folded n, t) \<in># shapes rs \<and> \<not> beside_cname t)"
  by (auto simp: has_other_data_beside_a_cname_def in_shapes shape_def name_eq_folded)

lemma work_count_shapes: "work_count n t rs = count (shapes rs) (folded n, t)"
  by (induction rs) (auto simp: work_count_def shape_def name_eq_folded)

lemma replaces_shape: "replaces (zr_name q) (rd_type (zr_rdata q)) (zr_rdata q) r \<Longrightarrow> shape r = shape q"
  by (simp add: replaces_def shape_def name_eq_folded)

lemma shapes_map_first: "(\<And>x. P x \<Longrightarrow> shape x = shape q) \<Longrightarrow> shapes (map_first P (\<lambda>_. q) rs) = shapes rs"
  by (induction rs) auto

lemma find_None: "find P xs = None \<longleftrightarrow> (\<forall>x \<in> set xs. \<not> P x)"
  by (auto simp: find_None_iff)

text \<open>A record put in place of another keeps the shapes; one that joins was in no singleton's place.\<close>

lemma put_record_shapes:
  "shapes (wk_records (put_record og r w)) = shapes (wk_records w) \<or>
   shapes (wk_records (put_record og r w)) = add_mset (shape r) (shapes (wk_records w)) \<and>
   (singleton_type (rd_type (zr_rdata r)) \<longrightarrow> shape r \<notin># shapes (wk_records w))"
proof (cases "find (replaces (zr_name r) (rd_type (zr_rdata r)) (zr_rdata r)) (wk_records w)")
  case None
  then have "shape r \<notin># shapes (wk_records w)" if "singleton_type (rd_type (zr_rdata r))"
    using that by (auto simp: find_None in_shapes replaces_def shape_def name_eq_folded)
  with None show ?thesis by (simp add: put_record_def Let_def)
next
  case (Some held)
  then show ?thesis using shapes_map_first [OF replaces_shape] by (simp add: put_record_def Let_def)
qed

text \<open>What a change has to say of itself: its record is sound, and a deletion's type is that of its RDATA.\<close>

fun change_ok :: "change \<Rightarrow> bool" where
  "change_ok (Add rr) \<longleftrightarrow> rr_ok rr"
| "change_ok (DeleteRecord n t d) \<longleftrightarrow> rd_type d = t"
| "change_ok _ \<longleftrightarrow> True"

fun change_owner :: "change \<Rightarrow> name" where
  "change_owner (Add rr) = rr_name rr"
| "change_owner (DeleteRrset n t) = n"
| "change_owner (DeleteName n) = n"
| "change_owner (DeleteRecord n t d) = n"

text \<open>The rules of a zone: a singleton type once at a name, and beside a CNAME only what may stand there.\<close>

definition singles :: "(bytes \<times> rtype) multiset \<Rightarrow> bool" where
  "singles S \<longleftrightarrow> (\<forall>k t. singleton_type t \<longrightarrow> count S (k, t) \<le> 1)"

definition cname_alone :: "(bytes \<times> rtype) multiset \<Rightarrow> bool" where
  "cname_alone S \<longleftrightarrow> (\<forall>k t. (k, rt_CNAME) \<in># S \<longrightarrow> (k, t) \<in># S \<longrightarrow> beside_cname t)"

definition rules_kept :: "bytes \<Rightarrow> (bytes \<times> rtype) multiset \<Rightarrow> (bytes \<times> rtype) multiset \<Rightarrow> bool" where
  "rules_kept og S S' \<longleftrightarrow> count S' (og, rt_SOA) = count S (og, rt_SOA) \<and> ((og, rt_NS) \<in># S \<longrightarrow> (og, rt_NS) \<in># S') \<and>
     (singles S \<longrightarrow> singles S') \<and> (cname_alone S \<longrightarrow> cname_alone S')"

lemma rules_kept_refl [simp]: "rules_kept og S S"
  by (simp add: rules_kept_def)

lemma rules_kept_trans: "rules_kept og S S' \<Longrightarrow> rules_kept og S' S'' \<Longrightarrow> rules_kept og S S''"
  by (auto simp: rules_kept_def)

lemma singles_less: "S' \<subseteq># S \<Longrightarrow> singles S \<Longrightarrow> singles S'"
  by (auto simp: singles_def) (meson mset_subset_eq_count order.trans)

lemma cname_alone_less: "S' \<subseteq># S \<Longrightarrow> cname_alone S \<Longrightarrow> cname_alone S'"
  by (auto simp: cname_alone_def dest: mset_subset_eqD)

lemma rules_kept_remove:
  assumes "S' \<subseteq># S" and "count S' (og, rt_SOA) = count S (og, rt_SOA)" and "(og, rt_NS) \<in># S \<Longrightarrow> (og, rt_NS) \<in># S'"
  shows "rules_kept og S S'"
  using assms singles_less cname_alone_less by (auto simp: rules_kept_def)

lemma work_remove_records [simp]: "wk_records (work_remove P w) = filter (\<lambda>r. \<not> P r) (wk_records w)"
  by (simp add: work_remove_def Let_def)

lemma ignore_fields [simp]: "wk_records (ignore n t y w) = wk_records w" "wk_changed (ignore n t y w) = wk_changed w"
    "wk_serial_moved (ignore n t y w) = wk_serial_moved w"
  by (simp_all add: ignore_def)

lemma filter_rules:
  assumes "\<And>r. shape r = (og, rt_SOA) \<Longrightarrow> P r"
    and "(og, rt_NS) \<in># shapes rs \<Longrightarrow> \<exists>r \<in> set rs. shape r = (og, rt_NS) \<and> P r"
  shows "rules_kept og (shapes rs) (shapes (filter P rs))"
proof (rule rules_kept_remove)
  show "count (shapes (filter P rs)) (og, rt_SOA) = count (shapes rs) (og, rt_SOA)"
    using assms(1) by (auto intro!: shapes_filter_keeps)
qed (use assms(2) in \<open>auto simp: shapes_filter in_shapes\<close>)

lemma soa_serial_at_shape: "soa_serial_at n rs = Some s \<Longrightarrow> (folded n, rt_SOA) \<in># shapes rs"
  by (auto simp: soa_serial_at_def in_shapes shape_def name_eq_folded find_Some_iff split: option.splits)

lemma rules_kept_add:
  assumes "k \<noteq> (og, rt_SOA)" and "singleton_type (snd k) \<Longrightarrow> k \<notin># S"
    and "snd k = rt_CNAME \<Longrightarrow> \<forall>t. (fst k, t) \<in># S \<longrightarrow> beside_cname t" and "snd k \<noteq> rt_CNAME \<Longrightarrow> (fst k, rt_CNAME) \<notin># S"
  shows "rules_kept og S (add_mset k S)"
proof -
  have "beside_cname rt_CNAME" by (simp add: beside_cname_def)
  moreover have "count S k = 0" if "singleton_type (snd k)" using assms(2) [OF that] by (simp add: count_eq_zero_iff)
  ultimately show ?thesis using assms by (cases k) (auto simp: rules_kept_def singles_def cname_alone_def)
qed

lemma apply_add_rules:
  "rules_kept (folded og) (shapes (wk_records w)) (shapes (wk_records (apply_change og (Add rr) w)))"
proof -
  let ?n = "rr_name rr" and ?t = "rd_type (rr_data rr)" and ?rs = "wk_records w"
  have sh: "shape (zr_of rr) = (folded ?n, ?t)" by (simp add: shape_def)
  have keep: "rules_kept (folded og) (shapes ?rs) (shapes (wk_records (put_record og (zr_of rr) w)))"
    if c: "?t = rt_CNAME \<longrightarrow> \<not> has_other_data_beside_a_cname ?n ?rs" "?t \<noteq> rt_CNAME \<longrightarrow> \<not> work_has_type ?n rt_CNAME ?rs"
      and soa: "?t = rt_SOA \<longrightarrow> (folded ?n, rt_SOA) \<in># shapes ?rs"
    using put_record_shapes [of og "zr_of rr" w]
  proof
    assume j: "shapes (wk_records (put_record og (zr_of rr) w)) = add_mset (shape (zr_of rr)) (shapes ?rs) \<and>
      (singleton_type (rd_type (zr_rdata (zr_of rr))) \<longrightarrow> shape (zr_of rr) \<notin># shapes ?rs)"
    then have "?t \<noteq> rt_SOA" using soa sh by (auto simp: singleton_type_def)
    then show ?thesis using j c sh by (auto simp: other_data_shapes work_has_type_shapes intro!: rules_kept_add)
  qed simp
  show ?thesis using keep soa_serial_at_shape [of ?n ?rs] by (auto simp: Let_def split: option.splits)
qed

lemma apply_change_rules:
  assumes "change_ok c"
  shows "rules_kept (folded og) (shapes (wk_records w)) (shapes (wk_records (apply_change og c w)))"
proof (cases c)
  case (Add rr)
  then show ?thesis using apply_add_rules by simp
next
  case (DeleteRrset n t)
  then show ?thesis by (auto simp: shape_def in_shapes name_eq_folded intro!: filter_rules) metis
next
  case (DeleteName n)
  then show ?thesis by (auto simp: shape_def in_shapes name_eq_folded Let_def intro!: filter_rules) metis
next
  case (DeleteRecord n t d)
  let ?P = "\<lambda>r. name_eq (zr_name r) n \<and> zr_rdata r = d" and ?rs = "wk_records w"
  have t: "rd_type d = t" using assms DeleteRecord by simp
  have "\<exists>r \<in> set ?rs. shape r = (folded og, rt_NS) \<and> \<not> ?P r"
    if apex: "(folded og, rt_NS) \<in># shapes ?rs"
      and no: "\<not> (name_eq n og \<and> t = rt_NS \<and> count_matching n d ?rs > 0 \<and> work_count n rt_NS ?rs = count_matching n d ?rs)"
  proof (rule ccontr)
    assume none: "\<not> ?thesis"
    obtain r where r: "r \<in> set ?rs" "shape r = (folded og, rt_NS)" using apex by (auto simp: in_shapes)
    then have P: "?P r" using none by auto
    then have eq: "folded n = folded og" "t = rt_NS" using r t by (auto simp: shape_def name_eq_folded)
    have "filter (\<lambda>r. name_eq (zr_name r) n \<and> rd_type (zr_rdata r) = rt_NS) ?rs = filter ?P ?rs"
      using none eq t by (intro filter_cong) (auto simp: shape_def name_eq_folded)
    moreover have "count_matching n d ?rs > 0" using r(1) P by (auto simp: count_matching_def filter_empty_conv)
    ultimately show False using no eq by (simp add: work_count_def count_matching_def name_eq_folded)
  qed
  then show ?thesis using t DeleteRecord by (auto simp: shape_def name_eq_folded intro!: filter_rules)
qed

text \<open>A change leaves the records of every owner but its own.\<close>

definition records_of :: "bytes \<Rightarrow> zone_record list \<Rightarrow> zone_record list" where
  "records_of k rs = filter (\<lambda>r. folded (zr_name r) = k) rs"

lemma records_of_map_first:
  "(\<And>x. P x \<Longrightarrow> folded (zr_name x) \<noteq> k) \<Longrightarrow> folded (zr_name q) \<noteq> k \<Longrightarrow> records_of k (map_first P (\<lambda>_. q) rs) = records_of k rs"
  by (induction rs) (auto simp: records_of_def)

lemma records_of_filter:
  "(\<And>x. folded (zr_name x) = k \<Longrightarrow> P x) \<Longrightarrow> records_of k (filter P rs) = records_of k rs"
  by (auto simp: records_of_def intro!: filter_cong)

lemma records_of_put:
  "folded (zr_name q) \<noteq> k \<Longrightarrow> records_of k (wk_records (put_record og q w)) = records_of k (wk_records w)"
  using records_of_map_first [of "replaces (zr_name q) (rd_type (zr_rdata q)) (zr_rdata q)" k q "wk_records w"]
  by (auto simp: put_record_def Let_def records_of_def replaces_def name_eq_folded split: option.splits)

lemma apply_change_others:
  assumes "folded (change_owner c) \<noteq> k"
  shows "records_of k (wk_records (apply_change og c w)) = records_of k (wk_records w)"
  using assms by (cases c) (auto simp: Let_def name_eq_folded records_of_put split: option.splits intro!: records_of_filter)

text \<open>The records stay sound and grow by no more than what is added.\<close>

definition zr_octets :: "zone_record list \<Rightarrow> nat" where
  "zr_octets rs = (\<Sum>r \<leftarrow> rs. length (zr_name r) + length (rd_bytes (zr_rdata r)))"

definition added_records :: "change list \<Rightarrow> resource_record list" where
  "added_records cs = List.map_filter (\<lambda>c. case c of Add rr \<Rightarrow> Some rr | _ \<Rightarrow> None) cs"

lemma zr_octets_simps [simp]:
  "zr_octets [] = 0" "zr_octets (r # rs) = length (zr_name r) + length (rd_bytes (zr_rdata r)) + zr_octets rs"
  "zr_octets (rs @ qs) = zr_octets rs + zr_octets qs"
  by (simp_all add: zr_octets_def)

lemma added_records_simps [simp]:
  "added_records [] = []" "added_records (c # cs) = (case c of Add rr \<Rightarrow> rr # added_records cs | _ \<Rightarrow> added_records cs)"
  by (simp_all add: added_records_def map_filter_simps split: change.split)

lemma zr_octets_used: "octets_used zr_name rs \<le> zr_octets rs" "octets_used (rd_bytes \<circ> zr_rdata) rs \<le> zr_octets rs"
  by (induction rs) (auto simp: octets_used_def)

lemma zr_octets_filter: "zr_octets (filter P rs) \<le> zr_octets rs"
  by (induction rs) auto

lemma zr_octets_map_first: "zr_octets (map_first P (\<lambda>_. q) rs) \<le> zr_octets rs + zr_octets [q]"
  by (induction rs) auto

lemma put_record_sound:
  assumes "record_ok q" and "\<forall>r \<in> set (wk_records w). record_ok r"
  shows "\<forall>r \<in> set (wk_records (put_record og q w)). record_ok r"
    and "zr_octets (wk_records (put_record og q w)) \<le> zr_octets (wk_records w) + zr_octets [q]"
  using assms set_map_first [of "replaces (zr_name q) (rd_type (zr_rdata q)) (zr_rdata q)" "\<lambda>_. q" "wk_records w"]
    zr_octets_map_first [of "replaces (zr_name q) (rd_type (zr_rdata q)) (zr_rdata q)" q "wk_records w"]
  by (auto simp: put_record_def Let_def split: option.splits)

lemma apply_change_sound:
  assumes "change_ok c" and "\<forall>r \<in> set (wk_records w). record_ok r"
  shows "(\<forall>r \<in> set (wk_records (apply_change og c w)). record_ok r) \<and>
    zr_octets (wk_records (apply_change og c w)) \<le> zr_octets (wk_records w) + rr_octets (added_records [c])"
proof (cases c)
  case (Add rr)
  then have "record_ok (zr_of rr)" using assms(1) by (simp add: rr_ok_def)
  from put_record_sound [OF this assms(2), of og] show ?thesis
    using Add assms(2) by (simp add: Let_def rr_octets_def)
qed (use assms(2) zr_octets_filter in \<open>simp_all add: Let_def rr_octets_def\<close>)

lemma rr_octets_change: "rr_octets (added_records (c # cs)) = rr_octets (added_records [c]) + rr_octets (added_records cs)"
  by (simp add: rr_octets_def split: change.split)

text \<open>What a run of changes keeps, step by step.\<close>

lemma changes_keep:
  assumes "\<forall>c \<in> set cs. change_ok c" and "\<forall>r \<in> set (wk_records w). record_ok r"
  shows "(\<forall>r \<in> set (wk_records (fold (apply_change og) cs w)). record_ok r) \<and>
    zr_octets (wk_records (fold (apply_change og) cs w)) \<le> zr_octets (wk_records w) + rr_octets (added_records cs) \<and>
    rules_kept (folded og) (shapes (wk_records w)) (shapes (wk_records (fold (apply_change og) cs w))) \<and>
    (\<forall>k. k \<notin> (folded \<circ> change_owner) ` set cs \<longrightarrow>
       records_of k (wk_records (fold (apply_change og) cs w)) = records_of k (wk_records w))"
  using assms
proof (induction cs arbitrary: w)
  case (Cons c cs)
  note s = apply_change_sound [of c w og] and r = apply_change_rules [of c og w]
  have IH: "(\<forall>r \<in> set (wk_records (fold (apply_change og) cs (apply_change og c w))). record_ok r) \<and>
    zr_octets (wk_records (fold (apply_change og) cs (apply_change og c w))) \<le> zr_octets (wk_records (apply_change og c w)) + rr_octets (added_records cs) \<and>
    rules_kept (folded og) (shapes (wk_records (apply_change og c w))) (shapes (wk_records (fold (apply_change og) cs (apply_change og c w)))) \<and>
    (\<forall>k. k \<notin> (folded \<circ> change_owner) ` set cs \<longrightarrow>
       records_of k (wk_records (fold (apply_change og) cs (apply_change og c w))) = records_of k (wk_records (apply_change og c w)))"
    using Cons.prems s by (intro Cons.IH) auto
  then show ?case
    using Cons.prems s r rules_kept_trans apply_change_others [of c _ og w] unfolding rr_octets_change [of c cs] fold_Cons
    by (auto simp del: added_records_simps)
qed (simp add: rr_octets_def)

text \<open>A change that counts as none leaves the records as they were, but for the case of an owner.\<close>

lemma map_zkey_first:
  "find P rs = Some held \<Longrightarrow> zkey held = zkey q \<Longrightarrow> map zkey (map_first P (\<lambda>_. q) rs) = map zkey rs"
  by (induction rs) (auto split: if_splits)

lemma work_remove_changed: "wk_changed (work_remove P w) = wk_changed w + length (filter P (wk_records w))"
  using sum_length_filter_compl [of P "wk_records w"] by (simp add: work_remove_def Let_def)

lemma apply_change_counts:
  "wk_changed w \<le> wk_changed (apply_change og c w)"
  "wk_changed (apply_change og c w) = wk_changed w \<Longrightarrow> map zkey (wk_records (apply_change og c w)) = map zkey (wk_records w)"
proof -
  have rem: "wk_changed w \<le> wk_changed (work_remove P w)"
    "wk_changed (work_remove P w) = wk_changed w \<Longrightarrow> wk_records (work_remove P w) = wk_records w" for P
    by (auto simp: work_remove_changed filter_empty_conv)
  have put: "wk_changed w \<le> wk_changed (put_record og q w)"
    "wk_changed (put_record og q w) = wk_changed w \<Longrightarrow> map zkey (wk_records (put_record og q w)) = map zkey (wk_records w)" for q
  proof -
    show "wk_changed w \<le> wk_changed (put_record og q w)" by (simp add: put_record_def Let_def split: option.split)
    assume same: "wk_changed (put_record og q w) = wk_changed w"
    let ?P = "replaces (zr_name q) (rd_type (zr_rdata q)) (zr_rdata q)"
    obtain held where f: "find ?P (wk_records w) = Some held" and s: "same_record held q"
      using same by (auto simp: put_record_def Let_def split: option.splits if_splits)
    have "?P held" using f by (auto simp: find_Some_iff)
    then have "zkey held = zkey q" using s by (simp add: same_record_def replaces_def name_eq_folded rkey_def)
    then show "map zkey (wk_records (put_record og q w)) = map zkey (wk_records w)"
      using map_zkey_first [OF f] f by (simp add: put_record_def Let_def)
  qed
  show "wk_changed w \<le> wk_changed (apply_change og c w)"
    using rem(1) put(1) by (cases c) (auto simp: Let_def)
  assume "wk_changed (apply_change og c w) = wk_changed w"
  then show "map zkey (wk_records (apply_change og c w)) = map zkey (wk_records w)"
    using rem(2) put(2) by (cases c) (auto simp: Let_def simp del: work_remove_records split: if_splits)
qed

lemma changes_count:
  "wk_changed w \<le> wk_changed (fold (apply_change og) cs w) \<and>
   (wk_changed (fold (apply_change og) cs w) = wk_changed w \<longrightarrow> map zkey (wk_records (fold (apply_change og) cs w)) = map zkey (wk_records w))"
proof (induction cs arbitrary: w)
  case (Cons c cs)
  have le: "wk_changed w \<le> wk_changed (apply_change og c w)"
    "wk_changed (apply_change og c w) \<le> wk_changed (fold (apply_change og) cs (apply_change og c w))"
    using apply_change_counts(1) Cons.IH by blast+
  show ?case using le Cons.IH [of "apply_change og c w"] apply_change_counts(2) [of og c w] by auto
qed simp

text \<open>The serial at the apex: no change moves it but an SOA of the apex with a newer one.\<close>

fun soa_add :: "name \<Rightarrow> change \<Rightarrow> bool" where
  "soa_add og (Add rr) \<longleftrightarrow> rd_type (rr_data rr) = rt_SOA \<and> name_eq (rr_name rr) og"
| "soa_add og _ \<longleftrightarrow> False"

abbreviation soa_here :: "name \<Rightarrow> zone_record \<Rightarrow> bool" where
  "soa_here og r \<equiv> name_eq (zr_name r) og \<and> rd_type (zr_rdata r) = rt_SOA"

lemma find_filter_keeps: "(\<And>x. P x \<Longrightarrow> Q x) \<Longrightarrow> find P (filter Q xs) = find P xs"
  by (induction xs) auto

lemma find_map_first_apart: "(\<And>x. Q x \<Longrightarrow> \<not> P x) \<Longrightarrow> \<not> P q \<Longrightarrow> find P (map_first Q (\<lambda>_. q) xs) = find P xs"
  by (induction xs) auto

lemma find_map_first_same: "(\<And>x. Q x \<longleftrightarrow> P x) \<Longrightarrow> P q \<Longrightarrow> find P xs = Some held \<Longrightarrow> find P (map_first Q (\<lambda>_. q) xs) = Some q"
  by (induction xs) (auto split: if_splits)

lemma find_append: "find P (xs @ ys) = (case find P xs of None \<Rightarrow> find P ys | Some x \<Rightarrow> Some x)"
  by (induction xs) auto

lemma put_other_soa:
  assumes "\<not> soa_here og q"
  shows "soa_serial_at og (wk_records (put_record og q w)) = soa_serial_at og (wk_records w)"
    and "wk_serial_moved (put_record og q w) = wk_serial_moved w"
proof -
  have "find (soa_here og) (map_first (replaces (zr_name q) (rd_type (zr_rdata q)) (zr_rdata q)) (\<lambda>_. q) (wk_records w)) = find (soa_here og) (wk_records w)"
    using assms by (intro find_map_first_apart) (auto simp: replaces_def name_eq_folded)
  then show "soa_serial_at og (wk_records (put_record og q w)) = soa_serial_at og (wk_records w)"
    using assms by (auto simp: put_record_def Let_def soa_serial_at_def find_append split: option.splits)
  show "wk_serial_moved (put_record og q w) = wk_serial_moved w"
    using assms by (auto simp: put_record_def Let_def split: option.splits)
qed

lemma put_apex_soa:
  assumes "soa_here og q" and "soa_serial_at og (wk_records w) = Some s"
  shows "soa_serial_at og (wk_records (put_record og q w)) = serial_of (zr_rdata q)" and "wk_serial_moved (put_record og q w)"
proof -
  let ?P = "replaces (zr_name q) (rd_type (zr_rdata q)) (zr_rdata q)"
  have eq: "?P x \<longleftrightarrow> soa_here og x" for x using assms(1) by (auto simp: replaces_def name_eq_folded singleton_type_def)
  then have fe: "?P = soa_here og" by blast
  obtain held where h: "find (soa_here og) (wk_records w) = Some held" using assms(2) by (auto simp: soa_serial_at_def split: option.splits)
  then show "soa_serial_at og (wk_records (put_record og q w)) = serial_of (zr_rdata q)"
    using find_map_first_same [OF eq assms(1) h] by (simp add: put_record_def Let_def fe soa_serial_at_def)
  show "wk_serial_moved (put_record og q w)" unfolding put_record_def Let_def fe using h assms(1) by simp
qed

lemma apply_change_serial:
  assumes "change_ok c"
  shows "soa_serial_at og (wk_records (apply_change og c w)) = soa_serial_at og (wk_records w) \<and>
      wk_serial_moved (apply_change og c w) = wk_serial_moved w \<or>
    soa_add og c \<and> wk_serial_moved (apply_change og c w) \<and>
      (\<exists>s s'. soa_serial_at og (wk_records w) = Some s \<and> soa_serial_at og (wk_records (apply_change og c w)) = Some s' \<and> serial_is_newer_than s' s)"
proof (cases c)
  case (Add rr)
  show ?thesis
  proof (cases "soa_here og (zr_of rr)")
    case False
    then show ?thesis using put_other_soa [OF False] Add by (auto simp: Let_def)
  next
    case True
    have "soa_serial_at (rr_name rr) rs = soa_serial_at og rs" for rs
      using True by (simp add: soa_serial_at_def name_eq_folded)
    then show ?thesis
      using put_apex_soa [OF True, of w] True Add by (auto simp: Let_def split: option.splits)
  qed
next
  case (DeleteRrset n t)
  then show ?thesis
    using find_filter_keeps [of "soa_here og" "\<lambda>r. name_eq (zr_name r) n \<longrightarrow> rd_type (zr_rdata r) \<noteq> t" "wk_records w"]
    by (auto simp: soa_serial_at_def work_remove_def Let_def name_eq_folded)
next
  case (DeleteName n)
  then show ?thesis
    by (auto simp: soa_serial_at_def work_remove_def Let_def name_eq_folded intro!: arg_cong [where f = "case_option None _"] find_filter_keeps)
next
  case (DeleteRecord n t d)
  then show ?thesis using assms
    by (auto simp: soa_serial_at_def work_remove_def Let_def name_eq_folded intro!: arg_cong [where f = "case_option None _"] find_filter_keeps)
qed

lemma changes_serial:
  assumes "\<forall>c \<in> set cs. change_ok c" and "soa_serial_at og (wk_records w) = Some s" and "\<not> wk_serial_moved w"
    and "length (filter (soa_add og) cs) \<le> 1"
  defines "w' \<equiv> fold (apply_change og) cs w"
  shows "\<not> wk_serial_moved w' \<and> soa_serial_at og (wk_records w') = Some s \<or>
    filter (soa_add og) cs \<noteq> [] \<and> wk_serial_moved w' \<and> (\<exists>s'. soa_serial_at og (wk_records w') = Some s' \<and> serial_is_newer_than s' s)"
proof -
  have none: "soa_serial_at og (wk_records (fold (apply_change og) cs w)) = soa_serial_at og (wk_records w) \<and>
      wk_serial_moved (fold (apply_change og) cs w) = wk_serial_moved w"
    if "\<forall>c \<in> set cs. change_ok c" "filter (soa_add og) cs = []" for cs w
    using that
  proof (induction cs arbitrary: w)
    case (Cons c cs)
    then show ?case using apply_change_serial [of c og w] by (auto split: if_splits)
  qed simp
  show ?thesis using assms(1-4) unfolding w'_def
  proof (induction cs arbitrary: w)
    case (Cons c cs)
    show ?case
    proof (cases "soa_add og c")
      case False
      then show ?thesis using Cons.prems apply_change_serial [of c og w] Cons.IH [of "apply_change og c w"] by auto
    next
      case True
      then have "filter (soa_add og) cs = []" using Cons.prems(4) by (cases "filter (soa_add og) cs") auto
      then show ?thesis using True Cons.prems apply_change_serial [of c og w] none [of cs "apply_change og c w"] by auto
    qed
  qed simp
qed

lemma newer_next: "serial_is_newer_than (serial_wrapping_add s 1) s"
  by (simp add: serial_is_newer_than_def serial_wrapping_add_def)

lemma soa_reencoded:
  assumes "rdata_parse d = Inr (PSOA m r s f y x i)"
  shows "\<exists>d'. rdata_from_parsed (PSOA m r s' f y x i) = Inr d' \<and> rdata_parse d' = Inr (PSOA m r s' f y x i) \<and>
    rd_type d' = rt_SOA \<and> length (rd_bytes d') \<le> 530"
proof -
  have "storable (rd_type d) (PSOA m r s f y x i)" using decode_storable [of "rd_type d"] assms unfolding rdata_parse_def by blast
  then have wf: "wf_name m" "wf_name r" by (simp_all add: storable_def)
  let ?w = "m @ r @ be32 s' @ be32 f @ be32 y @ be32 x @ be32 i"
  have e: "encode_into (PSOA m r s' f y x i) [] = (Inr rt_SOA, ?w)" by simp
  then have "decode rt_SOA ?w ?w = Inr (PSOA m r s' f y x i)" using decode_encoded [OF _ e] wf by simp
  moreover have "length ?w \<le> 530" using wf by (simp add: wf_name_def be32_def)
  ultimately show ?thesis using e by (intro exI [of _ "\<lparr>rd_type = rt_SOA, rd_bytes = ?w\<rparr>"]) (simp add: rdata_from_parsed_def rdata_parse_def encode_def)
qed

lemma bump_Cons:
  obtains (next_record) "bump_serial og (r # rs) = r # bump_serial og rs" "soa_here og r \<longrightarrow> serial_of (zr_rdata r) = None"
  | (bumped) s d where "soa_here og r" "serial_of (zr_rdata r) = Some s" "bump_serial og (r # rs) = r\<lparr>zr_rdata := d\<rparr> # rs"
      "serial_of d = Some (serial_wrapping_add s 1)" "rd_type d = rt_SOA" "length (rd_bytes d) \<le> 530"
proof (cases "soa_here og r \<and> serial_of (zr_rdata r) \<noteq> None")
  case True
  then obtain m n s f y x i where p: "rdata_parse (zr_rdata r) = Inr (PSOA m n s f y x i)"
    by (auto simp: serial_of_def parsed_serial_def split: sum.splits parsed_record.splits)
  then obtain d where "rdata_from_parsed (PSOA m n (serial_wrapping_add s 1) f y x i) = Inr d" "rd_type d = rt_SOA" "length (rd_bytes d) \<le> 530"
      "rdata_parse d = Inr (PSOA m n (serial_wrapping_add s 1) f y x i)"
    using soa_reencoded by blast
  then show ?thesis using True p by (intro bumped [of s d]) (simp_all add: serial_of_def parsed_serial_def)
next
  case False
  then have "bump_serial og (r # rs) = r # bump_serial og rs"
  proof (cases "soa_here og r")
    case True
    then have none: "serial_of (zr_rdata r) = None" using False by simp
    show ?thesis
    proof (cases "rdata_parse (zr_rdata r)")
      case (Inr p)
      then show ?thesis using none by (cases p) (simp_all add: serial_of_def parsed_serial_def)
    qed simp
  qed auto
  then show ?thesis using False by (intro next_record) auto
qed

lemma bump_serial_ok:
  "shapes (bump_serial og rs) = shapes rs"
  "(\<forall>r \<in> set rs. record_ok r) \<Longrightarrow> \<forall>r \<in> set (bump_serial og rs). record_ok r"
  "zr_octets (bump_serial og rs) \<le> zr_octets rs + 530"
  "k \<noteq> folded og \<Longrightarrow> records_of k (bump_serial og rs) = records_of k rs"
  "soa_serial_at og rs = Some s \<Longrightarrow> soa_serial_at og (bump_serial og rs) = Some (serial_wrapping_add s 1)"
proof (induction rs)
  case (Cons r rs)
  note bump_serial.simps(2) [simp del]
  show "shapes (bump_serial og (r # rs)) = shapes (r # rs)"
    using Cons.IH(1) by (cases rule: bump_Cons [of og r rs]) (simp_all add: shape_def)
  show "\<forall>r \<in> set (bump_serial og (r # rs)). record_ok r" if "\<forall>r \<in> set (r # rs). record_ok r"
  proof (cases rule: bump_Cons [of og r rs])
    case (bumped s d)
    have "length (rd_bytes d) \<le> 65535" using bumped(6) by linarith
    then show ?thesis using that unfolding bumped(3) by (auto simp: record_ok_def)
  qed (use Cons.IH(2) that in auto)
  show "zr_octets (bump_serial og (r # rs)) \<le> zr_octets (r # rs) + 530"
    using Cons.IH(3) by (cases rule: bump_Cons [of og r rs]) simp_all
  show "records_of k (bump_serial og (r # rs)) = records_of k (r # rs)" if "k \<noteq> folded og"
    using Cons.IH(4) that by (cases rule: bump_Cons [of og r rs]) (simp_all add: records_of_def name_eq_folded)
  show "soa_serial_at og (bump_serial og (r # rs)) = Some (serial_wrapping_add s 1)" if "soa_serial_at og (r # rs) = Some s"
    using Cons.IH(5) that by (cases rule: bump_Cons [of og r rs]) (auto simp: soa_serial_at_def split: if_splits)
qed (simp_all add: soa_serial_at_def)

section \<open>What an update promises\<close>

lemma collect_Inr: "collect f xs = Inr ys \<Longrightarrow> list_all2 (\<lambda>x y. f x = Inr y) xs ys"
  by (induction xs arbitrary: ys) (auto split: sum.splits)

lemma parse_updateD:
  assumes "parse_update msg = Inr u"
  obtains q where "dm_queries msg = [q]" "ur_zone u = qname q"
    "list_all2 (\<lambda>rr p. read_prerequisite (ur_zone u) (qclass q) rr = Inr p) (dm_answers msg) (ur_prerequisites u)"
    "list_all2 (\<lambda>rr c. read_change (ur_zone u) (qclass q) rr = Inr c) (dm_authorities msg) (ur_changes u)"
  using assms by (auto simp: parse_update_def reject_def dest!: collect_Inr split: if_splits list.splits sum.splits)

lemma read_changeD:
  assumes "read_change zone cl rr = Inr c"
  shows "is_at_or_under (rr_name rr) zone" "change_owner c = rr_name rr" "rr_ok rr \<Longrightarrow> change_ok c" "added_records [c] = [] \<or> added_records [c] = [rr]"
  using assms by (auto simp: read_change_def in_zone_or_notzone_def reject_def Let_def split: if_splits sum.splits)

lemma parsed_changes:
  assumes "parse_update msg = Inr u" and "\<forall>rr \<in> set (dm_authorities msg). rr_ok rr"
  shows "\<forall>c \<in> set (ur_changes u). change_ok c" "change_owner ` set (ur_changes u) = rr_name ` set (dm_authorities msg)"
    "set (added_records (ur_changes u)) \<subseteq> {rr \<in> set (dm_authorities msg). is_at_or_under (rr_name rr) (ur_zone u)}"
    "rr_octets (added_records (ur_changes u)) \<le> rr_octets (dm_authorities msg)"
proof -
  obtain q where "dm_queries msg = [q]" and l: "list_all2 (\<lambda>rr c. read_change (ur_zone u) (qclass q) rr = Inr c) (dm_authorities msg) (ur_changes u)"
    by (rule parse_updateD [OF assms(1)])
  show "\<forall>c \<in> set (ur_changes u). change_ok c"
    using l assms(2) by (induction rule: list_all2_induct) (auto dest: read_changeD(3))
  have "map change_owner (ur_changes u) = map rr_name (dm_authorities msg)" using l by (induction rule: list_all2_induct) (auto dest: read_changeD(2))
  then show "change_owner ` set (ur_changes u) = rr_name ` set (dm_authorities msg)" by (metis set_map)
  show "set (added_records (ur_changes u)) \<subseteq> {rr \<in> set (dm_authorities msg). is_at_or_under (rr_name rr) (ur_zone u)}"
    using l
  proof (induction rule: list_all2_induct)
    case (Cons rr rrs c cs)
    then show ?case using read_changeD(1,4) [OF Cons(1)] by (auto split: change.splits)
  qed simp
  show "rr_octets (added_records (ur_changes u)) \<le> rr_octets (dm_authorities msg)"
    using l
  proof (induction rule: list_all2_induct)
    case (Cons rr rrs c cs)
    then show ?case using rr_octets_change [of c cs] read_changeD(4) [OF Cons(1)] by (auto simp: rr_octets_def)
  qed simp
qed

lemma apply_change_new: "set_mset (shapes (wk_records (apply_change og c w))) \<subseteq> set_mset (shapes (wk_records w)) \<union> (shape \<circ> zr_of) ` set (added_records [c])"
proof (cases c)
  case (Add rr)
  have "set_mset (shapes (wk_records (put_record og (zr_of rr) w))) \<subseteq> insert (shape (zr_of rr)) (set_mset (shapes (wk_records w)))"
    using put_record_shapes [of og "zr_of rr" w] by auto
  then show ?thesis using Add by (auto simp: Let_def)
qed (auto simp: Let_def in_shapes)

lemma changes_new:
  "set_mset (shapes (wk_records (fold (apply_change og) cs w))) \<subseteq> set_mset (shapes (wk_records w)) \<union> (shape \<circ> zr_of) ` set (added_records cs)"
proof (induction cs arbitrary: w)
  case (Cons c cs)
  show ?case using Cons [of "apply_change og c w"] apply_change_new [of og c w] by (auto split: change.splits)
qed simp

text \<open>The working records of an update, whose zone is built from them.\<close>

definition updated_records :: "zone \<Rightarrow> change list \<Rightarrow> zone_record list" where
  "updated_records z cs =
     (let w = run_changes z cs in
      if wk_changed w > 0 \<and> \<not> wk_serial_moved w then bump_serial (z_origin z) (wk_records w) else wk_records w)"

abbreviation update_room :: "zone \<Rightarrow> change list \<Rightarrow> bool" where
  "update_room z cs \<equiv> zr_octets (zone_recs z) + rr_octets (added_records cs) + 530 < 2 ^ 32"

lemma updated_records_ok:
  assumes "zone_ok z" and "\<forall>c \<in> set cs. change_ok c"
  shows "\<forall>r \<in> set (updated_records z cs). record_ok r" "zr_octets (updated_records z cs) \<le> zr_octets (zone_recs z) + rr_octets (added_records cs) + 530"
    "rules_kept (origin_key z) (shapes (zone_recs z)) (shapes (updated_records z cs))"
    "k \<noteq> origin_key z \<Longrightarrow> k \<notin> (folded \<circ> change_owner) ` set cs \<Longrightarrow> records_of k (updated_records z cs) = records_of k (zone_recs z)"
    "set_mset (shapes (updated_records z cs)) \<subseteq> set_mset (shapes (zone_recs z)) \<union> (shape \<circ> zr_of) ` set (added_records cs)"
proof -
  let ?w = "\<lparr>wk_records = zone_recs z, wk_changed = 0, wk_ignored = [], wk_serial_moved = False\<rparr>"
  note k = changes_keep [OF assms(2), of ?w "z_origin z"] and n = changes_new [of "z_origin z" cs ?w] and b = bump_serial_ok [where og = "z_origin z" and rs = "wk_records (run_changes z cs)"]
  have ok: "\<forall>r \<in> set (wk_records ?w). record_ok r" using zone_okD(3) [OF assms(1)] by simp
  note k = k [OF ok, folded run_changes_def, unfolded origin_key_def [symmetric]] and n = n [folded run_changes_def]
  show "\<forall>r \<in> set (updated_records z cs). record_ok r" using k b(2) by (auto simp: updated_records_def Let_def)
  show "zr_octets (updated_records z cs) \<le> zr_octets (zone_recs z) + rr_octets (added_records cs) + 530"
    using k b(3) by (auto simp: updated_records_def Let_def)
  show "rules_kept (origin_key z) (shapes (zone_recs z)) (shapes (updated_records z cs))"
    using k by (simp add: updated_records_def Let_def b(1))
  show "records_of k (updated_records z cs) = records_of k (zone_recs z)" if "k \<noteq> origin_key z" "k \<notin> (folded \<circ> change_owner) ` set cs"
    using k b(4) [where k = k] that by (simp add: updated_records_def Let_def origin_key_def)
  show "set_mset (shapes (updated_records z cs)) \<subseteq> set_mset (shapes (zone_recs z)) \<union> (shape \<circ> zr_of) ` set (added_records cs)"
    using n by (simp add: updated_records_def Let_def b(1))
qed

lemma apply_update_total:
  assumes "zone_ok z" and "\<forall>c \<in> set cs. change_ok c" and "update_room z cs"
  shows "\<exists>a. apply_update z cs = Some a \<and> zone_ok (ap_zone a) \<and> z_origin (ap_zone a) = z_origin z \<and>
    zone_recs (ap_zone a) = updated_records z cs \<and> ap_changed a = wk_changed (run_changes z cs)"
proof -
  note u = updated_records_ok(1,2) [OF assms(1,2)]
  have "wf_name (z_origin z)" using zone_okD(1) [OF assms(1)] .
  moreover have "zone_room (octets_used zr_name (updated_records z cs)) (octets_used (rd_bytes \<circ> zr_rdata) (updated_records z cs)) (zone_new (z_origin z))"
    using zr_octets_used [of "updated_records z cs"] u(2) assms(3) by (simp add: zone_room_def zone_new_def)
  ultimately obtain z' where "add_all (updated_records z cs) (zone_new (z_origin z)) = Some z'" "zone_ok z'" "zone_recs z' = updated_records z cs" "z_origin z' = z_origin z"
    using add_all_ok [OF zone_new_ok(1) u(1)] zone_new_ok(2) by (auto simp: zone_new_def)
  then show ?thesis by (auto simp: apply_update_def updated_records_def Let_def)
qed

lemma version_serial_at:
  assumes "zone_ok z" and "count (shapes (zone_recs z)) (origin_key z, rt_SOA) = 1"
  shows "length (apex_soas z) = 1" "zone_serial z = soa_serial_at (z_origin z) (zone_recs z)"
proof -
  have "length (filter (soa_here (z_origin z)) rs) = count (shapes rs) (origin_key z, rt_SOA)" for rs
    by (induction rs) (auto simp: shape_def name_eq_folded origin_key_def)
  then show l: "length (apex_soas z) = 1" using assms(2) by (simp add: apex_soas_def is_apex_soa_def conj_commute)
  then obtain soa where s: "apex_soas z = [soa]" by (auto simp: length_Suc_conv)
  then have "mset (zone_query (z_origin z) rt_SOA z) = {#soa#}" using apex_query [OF assms(1)] by simp
  then have "apex_soa z = Some soa" by (simp add: apex_soa_def)
  moreover have "find (soa_here (z_origin z)) (zone_recs z) = Some soa"
  proof -
    have "find P xs = (case filter P xs of [] \<Rightarrow> None | x # _ \<Rightarrow> Some x)" for P :: "zone_record \<Rightarrow> bool" and xs by (induction xs) auto
    then show ?thesis using s by (simp add: apex_soas_def is_apex_soa_def conj_commute)
  qed
  ultimately show "zone_serial z = soa_serial_at (z_origin z) (zone_recs z)"
    by (simp add: zone_serial_def soa_serial_at_def serial_of_def parsed_serial_def)
qed

lemma version_apex_count: "version_ok z \<Longrightarrow> count (shapes (zone_recs z)) (origin_key z, rt_SOA) = 1"
proof -
  have "length (filter (soa_here (z_origin z)) rs) = count (shapes rs) (origin_key z, rt_SOA)" for rs
    by (induction rs) (auto simp: shape_def name_eq_folded origin_key_def)
  then show "version_ok z \<Longrightarrow> ?thesis" by (simp add: version_ok_def apex_soas_def is_apex_soa_def conj_commute)
qed

text \<open>
  C21. An UPDATE read from a message and applied to a zone gives a zone of the same origin that is well
  formed and keeps the zone's rules: the apex keeps exactly the SOA records it had and keeps an NS if
  it had one, a CNAME, SOA or DNAME stays the only one of its name, and no other data comes to stand
  beside a CNAME. Whatever is there is of an owner and type that was there or was added by a record
  inside the zone, and the records of every name the UPDATE does not mention, the apex aside, are
  those of before, in their order.
\<close>

theorem update_keeps_rules:
  assumes "zone_ok z" and "parse_update msg = Inr u" and "\<forall>rr \<in> set (dm_authorities msg). rr_ok rr"
    and "zr_octets (zone_recs z) + rr_octets (dm_authorities msg) + 530 < 2 ^ 32"
  shows "\<exists>a. apply_update z (ur_changes u) = Some a \<and> zone_ok (ap_zone a) \<and> z_origin (ap_zone a) = z_origin z \<and>
    rules_kept (origin_key z) (shapes (zone_recs z)) (shapes (zone_recs (ap_zone a))) \<and>
    set_mset (shapes (zone_recs (ap_zone a))) \<subseteq> set_mset (shapes (zone_recs z)) \<union>
      (shape \<circ> zr_of) ` {rr \<in> set (dm_authorities msg). is_at_or_under (rr_name rr) (ur_zone u)} \<and>
    (\<forall>k. k \<noteq> origin_key z \<longrightarrow> k \<notin> (folded \<circ> rr_name) ` set (dm_authorities msg) \<longrightarrow>
      records_of k (zone_recs (ap_zone a)) = records_of k (zone_recs z))"
proof -
  note c = parsed_changes [OF assms(2,3)]
  have room: "update_room z (ur_changes u)" using assms(4) c(4) by simp
  obtain a where a: "apply_update z (ur_changes u) = Some a" "zone_ok (ap_zone a)" "z_origin (ap_zone a) = z_origin z"
    "zone_recs (ap_zone a) = updated_records z (ur_changes u)"
    using apply_update_total [OF assms(1) c(1) room] by blast
  note r = updated_records_ok(3-5) [OF assms(1) c(1), folded a(4)]
  have "(folded \<circ> change_owner) ` set (ur_changes u) = (folded \<circ> rr_name) ` set (dm_authorities msg)"
    unfolding image_comp [symmetric] c(2) ..
  then have others: "records_of k (zone_recs (ap_zone a)) = records_of k (zone_recs z)"
    if "k \<noteq> origin_key z" "k \<notin> (folded \<circ> rr_name) ` set (dm_authorities msg)" for k using r(2) that by simp
  have new: "set_mset (shapes (zone_recs (ap_zone a))) \<subseteq> set_mset (shapes (zone_recs z)) \<union>
      (shape \<circ> zr_of) ` {rr \<in> set (dm_authorities msg). is_at_or_under (rr_name rr) (ur_zone u)}"
    by (rule order.trans [OF r(3) Un_mono [OF order.refl image_mono [OF c(3)]]])
  show ?thesis by (intro exI [of _ a] conjI allI impI) (rule a r(1) new others; assumption)+
qed

text \<open>
  C22. An UPDATE that changes nothing leaves the zone's records as they were, serial included. One that
  changes something leaves a version whose serial is newer than the old one, so that a secondary sees
  the change, when it offers at most one SOA for the apex, and exactly the next serial when it offers
  none.
\<close>

theorem update_moves_serial:
  assumes "version_ok z" and "zone_serial z = Some s" and "\<forall>c \<in> set cs. change_ok c" and "update_room z cs"
    and "length (filter (soa_add (z_origin z)) cs) \<le> 1"
  shows "\<exists>a. apply_update z cs = Some a \<and> version_ok (ap_zone a) \<and>
    (if ap_changed a = 0 then zone_content (ap_zone a) = zone_content z
     else \<exists>s'. zone_serial (ap_zone a) = Some s' \<and> serial_is_newer_than s' s \<and>
       (filter (soa_add (z_origin z)) cs = [] \<longrightarrow> s' = serial_wrapping_add s 1))"
proof -
  have ok: "zone_ok z" using assms(1) by (simp add: version_ok_def)
  obtain a where a: "apply_update z cs = Some a" "zone_ok (ap_zone a)" "z_origin (ap_zone a) = z_origin z"
    "zone_recs (ap_zone a) = updated_records z cs" "ap_changed a = wk_changed (run_changes z cs)"
    using apply_update_total [OF ok assms(3,4)] by blast
  let ?w = "\<lparr>wk_records = zone_recs z, wk_changed = 0, wk_ignored = [], wk_serial_moved = False\<rparr>"
  note one = version_apex_count [OF assms(1)]
  have one': "count (shapes (zone_recs (ap_zone a))) (origin_key (ap_zone a), rt_SOA) = 1"
    using updated_records_ok(3) [OF ok assms(3)] one a(3,4) by (simp add: rules_kept_def origin_key_def)
  note v = version_serial_at [OF ok one] and v' = version_serial_at [OF a(2) one', unfolded a(3,4)]
  have s: "soa_serial_at (z_origin z) (zone_recs z) = Some s" using v(2) assms(2) by simp
  note ser = changes_serial [OF assms(3), of "z_origin z" ?w s, folded run_changes_def, simplified, OF s, simplified, OF assms(5) [simplified]]
  have moved: "\<exists>s'. soa_serial_at (z_origin z) (updated_records z cs) = Some s' \<and> serial_is_newer_than s' s \<and>
      (filter (soa_add (z_origin z)) cs = [] \<longrightarrow> s' = serial_wrapping_add s 1)" if "ap_changed a \<noteq> 0"
    using ser bump_serial_ok(5) [of "z_origin z" "wk_records (run_changes z cs)" s] newer_next [of s] that a(5)
    by (auto simp: updated_records_def Let_def)
  have "map zkey (updated_records z cs) = map zkey (zone_recs z)" if "ap_changed a = 0"
    using changes_count [of ?w "z_origin z" cs, folded run_changes_def] that a(5) by (simp add: updated_records_def Let_def)
  then have same: "zone_content (ap_zone a) = zone_content z" if "ap_changed a = 0"
    using that a(4) by (simp add: zone_content_def mset_map [symmetric] del: mset_map)
  have "zone_serial (ap_zone a) \<noteq> None"
    using ser moved v'(2) a(5) by (cases "ap_changed a = 0") (auto simp: updated_records_def Let_def)
  then have "version_ok (ap_zone a)" using a(2) v'(1) by (simp add: version_ok_def)
  then show ?thesis using a(1) same moved v'(2) by auto
qed

section \<open>Prerequisites against the records\<close>

definition rrset :: "zone_record list \<Rightarrow> name \<Rightarrow> rtype \<Rightarrow> record_data multiset" where
  "rrset rs n t = image_mset zr_rdata (filter_mset (\<lambda>r. shape r = (folded n, t)) (mset rs))"

text \<open>All the values one UPDATE requires of an RRset.\<close>

fun value_of :: "prerequisite \<Rightarrow> ((bytes \<times> rtype) \<times> record_data list) option" where
  "value_of (RrsetExistsWithValue n t ds) = Some ((folded n, t), ds)"
| "value_of _ = None"

definition wanted_values :: "prerequisite list \<Rightarrow> bytes \<times> rtype \<Rightarrow> record_data list" where
  "wanted_values ps k = concat (map snd (filter (\<lambda>v. fst v = k) (List.map_filter value_of ps)))"

text \<open>What RFC 2136 section 3.2 asks of the zone's records, and the code of each form when it is not so.\<close>

fun meets :: "zone_record list \<Rightarrow> prerequisite list \<Rightarrow> prerequisite \<Rightarrow> bool" where
  "meets rs ps (RrsetExists n t) \<longleftrightarrow> rrset rs n t \<noteq> {#}"
| "meets rs ps (RrsetDoesNotExist n t) \<longleftrightarrow> rrset rs n t = {#}"
| "meets rs ps (NameInUse n) \<longleftrightarrow> owned rs (folded n)"
| "meets rs ps (NameNotInUse n) \<longleftrightarrow> \<not> owned rs (folded n)"
| "meets rs ps (RrsetExistsWithValue n t ds) \<longleftrightarrow>
     rrset rs n t \<noteq> {#} \<and> set_mset (rrset rs n t) = set (wanted_values ps (folded n, t)) \<and> size (rrset rs n t) = length (wanted_values ps (folded n, t))"

fun refusal :: "prerequisite \<Rightarrow> response_code" where
  "refusal (RrsetExists n t) = NoSuchResourceRecordSet"
| "refusal (RrsetDoesNotExist n t) = ResourceRecordSetExistsForSomeReason"
| "refusal (NameInUse n) = NoSuchDomain"
| "refusal (NameNotInUse n) = DomainExistsForSomeReason"
| "refusal (RrsetExistsWithValue n t ds) = NoSuchResourceRecordSet"

fun prerequisite_name :: "prerequisite \<Rightarrow> name" where
  "prerequisite_name (RrsetExists n t) = n"
| "prerequisite_name (RrsetDoesNotExist n t) = n"
| "prerequisite_name (NameInUse n) = n"
| "prerequisite_name (NameNotInUse n) = n"
| "prerequisite_name (RrsetExistsWithValue n t ds) = n"

fun names_any :: "prerequisite \<Rightarrow> bool" where
  "names_any (RrsetExists n t) \<longleftrightarrow> t = ANY_CODE"
| "names_any (RrsetDoesNotExist n t) \<longleftrightarrow> t = ANY_CODE"
| "names_any (RrsetExistsWithValue n t ds) \<longleftrightarrow> t = ANY_CODE"
| "names_any _ \<longleftrightarrow> False"

text \<open>A name in the zone that no wildcard answers for.\<close>

definition plain_name :: "zone \<Rightarrow> name \<Rightarrow> bool" where
  "plain_name z n \<longleftrightarrow> wf_name n \<and> is_at_or_under n (z_origin z) \<and> (\<forall>v. name_kind n z \<noteq> Wildcard v)"

lemma plain_query:
  assumes "zone_ok z" and "plain_name z n" and "t \<noteq> ANY_CODE"
  shows "image_mset zr_rdata (mset (zone_query n t z)) = rrset (zone_recs z) n t" and "holds_name n z \<longleftrightarrow> owned (zone_recs z) (folded n)"
proof -
  have w: "within (origin_key z) (folded n)"
    using within_folded [OF _ zone_okD(1) [OF assms(1)]] assms(2) by (simp add: plain_name_def origin_key_def)
  note k = name_kind_of_key_correct [OF assms(1) w]
  have at: "filter_mset (\<lambda>r. qtype_matches t (rd_type (zr_rdata r))) (records_at (zone_recs z) (folded n)) =
      filter_mset (\<lambda>r. shape r = (folded n, t)) (mset (zone_recs z))"
    using assms(3) by (auto simp: records_at_def shape_def qtype_matches_def filter_filter_mset intro!: filter_mset_cong)
  have none: "filter_mset (\<lambda>r. shape r = (folded n, t)) (mset (zone_recs z)) = {#}" if "\<not> owned (zone_recs z) (folded n)"
    using that by (auto simp: owned_def shape_def filter_mset_eq_conv)
  have q: "zone_query n t z = of_type (locate n z) t" by (simp add: zone_query_def query_with_kind_def Let_def)
  show "image_mset zr_rdata (mset (zone_query n t z)) = rrset (zone_recs z) n t"
    using of_type_locate [OF assms(1), of n t] k(1) none assms(2)
    by (cases "name_kind n z") (auto simp: q rrset_def at name_kind_def plain_name_def)
  have walk: "encloser_walk z as \<noteq> Exact" for as by (induction as) (auto split: sum.splits)
  show "holds_name n z \<longleftrightarrow> owned (zone_recs z) (folded n)"
    using k(1) walk by (auto simp: holds_name_def name_kind_of_key_def plain_name_def name_kind_def split: option.splits slot.splits)
qed

text \<open>The value sets collected from the prerequisites read so far.\<close>

fun value_key :: "value_set \<Rightarrow> bytes \<times> rtype" where
  "value_key (n, t, ws) = (folded n, t)"

definition values_ok :: "prerequisite list \<Rightarrow> value_set list \<Rightarrow> bool" where
  "values_ok ps sets \<longleftrightarrow> distinct (map value_key sets) \<and>
     value_key ` set sets = fst ` set (List.map_filter value_of ps) \<and>
     (\<forall>s \<in> set sets. snd (snd s) = wanted_values ps (value_key s) \<and> (\<exists>ds. RrsetExistsWithValue (fst s) (fst (snd s)) ds \<in> set ps))"

lemma map_filter_append: "List.map_filter f (xs @ ys) = List.map_filter f xs @ List.map_filter f ys"
  by (simp add: List.map_filter_def)

lemma wanted_values_snoc:
  "wanted_values (ps @ [RrsetExistsWithValue n t ds]) k = wanted_values ps k @ (if (folded n, t) = k then ds else [])"
  by (simp add: wanted_values_def map_filter_append map_filter_simps)

lemma wanted_values_none: "k \<notin> fst ` set (List.map_filter value_of ps) \<Longrightarrow> wanted_values ps k = []"
  by (force simp: wanted_values_def filter_empty_conv)

lemma map_first_distinct:
  assumes "distinct (map key xs)" and "\<And>x. P x \<longleftrightarrow> key x = k" and "\<And>x. key (f x) = key x"
  shows "map key (map_first P f xs) = map key xs" "y \<in> set (map_first P f xs) \<Longrightarrow> (if key y = k then y \<in> f ` set xs else y \<in> set xs)"
  using assms by (induction xs) (auto split: if_splits, metis imageI)

lemma add_value_ok:
  assumes "values_ok ps sets"
  shows "values_ok (ps @ [RrsetExistsWithValue n t ds]) (add_value n t ds sets)"
proof -
  let ?k = "(folded n, t)" and ?same = "\<lambda>(n', t', _ :: record_data list). name_eq n' n \<and> t' = t"
  let ?f = "\<lambda>(n', t', collected :: record_data list). (n' :: name, t' :: rtype, collected @ ds)" and ?p = "RrsetExistsWithValue n t ds"
  note v = assms [unfolded values_ok_def]
  have same: "?same s \<longleftrightarrow> value_key s = ?k" for s by (cases s) (auto simp: name_eq_folded)
  have f: "value_key (?f s) = value_key s" "snd (snd (?f s)) = snd (snd s) @ ds" "fst (?f s) = fst s" "fst (snd (?f s)) = fst (snd s)" for s
    by (cases s; simp)+
  have keys: "fst ` set (List.map_filter value_of (ps @ [?p])) = insert ?k (fst ` set (List.map_filter value_of ps))"
    by (simp add: map_filter_append map_filter_simps)
  show ?thesis
  proof (cases "\<exists>s \<in> set sets. ?same s")
    case True
    then have k: "?k \<in> value_key ` set sets" unfolding same by force
    have a: "add_value n t ds sets = map_first ?same ?f sets" using True by (simp add: add_value_def Let_def)
    note m = map_first_distinct [of value_key sets ?same ?k ?f, OF conjunct1 [OF v] same f(1)]
    have "snd (snd s) = wanted_values (ps @ [?p]) (value_key s) \<and> (\<exists>ds'. RrsetExistsWithValue (fst s) (fst (snd s)) ds' \<in> set (ps @ [?p]))"
      if "s \<in> set (map_first ?same ?f sets)" for s
      using m(2) [OF that] v f by (fastforce simp: wanted_values_snoc split: if_splits)
    moreover have "value_key ` set (map_first ?same ?f sets) = value_key ` set sets" using m(1) by (metis list.set_map)
    ultimately show ?thesis unfolding values_ok_def a keys using m(1) v k by auto
  next
    case False
    then have k: "?k \<notin> value_key ` set sets" unfolding same by auto
    then have "wanted_values ps ?k = []" using v by (intro wanted_values_none) simp
    moreover have "add_value n t ds sets = sets @ [(n, t, ds)]" using False by (simp add: add_value_def Let_def)
    ultimately show ?thesis unfolding values_ok_def keys using v k by (auto simp: wanted_values_snoc)
  qed
qed

lemma check_each_step:
  assumes "zone_ok z" and "plain_name z (prerequisite_name p)" and "\<not> names_any p" and "value_of p = None"
  shows "meets (zone_recs z) all p \<Longrightarrow> check_each z (p # ps) sets = check_each z ps sets"
    and "\<not> meets (zone_recs z) all p \<Longrightarrow> \<exists>e. check_each z (p # ps) sets = Inl e \<and> rj_rcode e = refusal p"
proof -
  have empty: "zone_query n t z = [] \<longleftrightarrow> rrset (zone_recs z) n t = {#}" if "plain_name z n" "t \<noteq> ANY_CODE" for n t
    using plain_query(1) [OF assms(1) that] by (metis image_mset_is_empty_iff mset_zero_iff)
  have held: "holds_name n z \<longleftrightarrow> owned (zone_recs z) (folded n)" if "plain_name z n" for n
    using plain_query(2) [OF assms(1) that, of 0] by (simp add: ANY_CODE_def)
  show "meets (zone_recs z) all p \<Longrightarrow> check_each z (p # ps) sets = check_each z ps sets"
    and "\<not> meets (zone_recs z) all p \<Longrightarrow> \<exists>e. check_each z (p # ps) sets = Inl e \<and> rj_rcode e = refusal p"
    using assms(2-) empty held by (cases p; simp add: reject_def)+
qed

lemma check_each_ok:
  assumes "zone_ok z" and "\<forall>p \<in> set ps. plain_name z (prerequisite_name p) \<and> \<not> names_any p" and "values_ok before sets"
  shows "case check_each z ps sets of
      Inr sets' \<Rightarrow> values_ok (before @ ps) sets' \<and> (\<forall>p \<in> set ps. value_of p = None \<longrightarrow> meets (zone_recs z) all p)
    | Inl e \<Rightarrow> \<exists>p \<in> set ps. \<not> meets (zone_recs z) all p \<and> rj_rcode e = refusal p"
  using assms(2,3)
proof (induction ps arbitrary: before sets)
  case (Cons p ps)
  have rest: "case check_each z ps sets' of
      Inr sets'' \<Rightarrow> values_ok (before @ p # ps) sets'' \<and> (\<forall>p \<in> set ps. value_of p = None \<longrightarrow> meets (zone_recs z) all p)
    | Inl e \<Rightarrow> \<exists>p \<in> set ps. \<not> meets (zone_recs z) all p \<and> rj_rcode e = refusal p" if "values_ok (before @ [p]) sets'" for sets'
    using Cons.IH [OF _ that] Cons.prems(1) by (simp split: sum.splits)
  show ?case
  proof (cases "value_of p")
    case (Some v)
    then obtain n t ds where p: "p = RrsetExistsWithValue n t ds" by (cases p) auto
    then have "values_ok (before @ [p]) (add_value n t ds sets)" using add_value_ok [OF Cons.prems(2)] by simp
    from rest [OF this] show ?thesis using p by (auto split: sum.splits)
  next
    case None
    then have "values_ok (before @ [p]) sets"
      using Cons.prems(2) by (auto simp: values_ok_def map_filter_append map_filter_simps wanted_values_def)
    note r = rest [OF this] and s = check_each_step [OF assms(1) _ _ None, of all ps sets]
    show ?thesis
    proof (cases "meets (zone_recs z) all p")
      case True
      then show ?thesis using r s(1) Cons.prems(1) by (auto split: sum.splits)
    next
      case False
      then show ?thesis using s(2) Cons.prems(1) by fastforce
    qed
  qed
qed simp

lemma check_values_ok:
  assumes "zone_ok z" and "\<forall>s \<in> set sets. plain_name z (fst s) \<and> fst (snd s) \<noteq> ANY_CODE"
  defines "fine \<equiv> \<lambda>s. rrset (zone_recs z) (fst s) (fst (snd s)) \<noteq> {#} \<and>
    set_mset (rrset (zone_recs z) (fst s) (fst (snd s))) = set (snd (snd s)) \<and> size (rrset (zone_recs z) (fst s) (fst (snd s))) = length (snd (snd s))"
  shows "case check_values z sets of Inr _ \<Rightarrow> \<forall>s \<in> set sets. fine s | Inl e \<Rightarrow> rj_rcode e = NoSuchResourceRecordSet \<and> (\<exists>s \<in> set sets. \<not> fine s)"
  using assms(2)
proof (induction sets)
  case (Cons s sets)
  obtain n t ws where s: "s = (n, t, ws)" by (cases s)
  let ?held = "map zr_rdata (zone_query n t z)"
  have q: "mset ?held = rrset (zone_recs z) n t" using plain_query(1) [OF assms(1)] Cons.prems s by simp
  have "fine s \<longleftrightarrow> ?held \<noteq> [] \<and> same_set ?held ws"
    unfolding fine_def s fst_conv snd_conv q [symmetric] same_set_def set_mset_mset size_mset by auto
  then show ?case using Cons by (auto simp: s reject_def Let_def split: sum.splits)
qed simp

text \<open>
  C23. For names of the zone that no wildcard answers for, and types other than ANY, the prerequisites
  pass exactly when the zone's records are as RFC 2136 section 3.2 asks of each: an RRset there or not
  there, a name with records or without, and, for RRsets given by value, the values of all the
  prerequisites of one owner and type being the values the zone has. When they do not, one of those
  not met gives the response code, the one section 3.2 assigns to its form.
\<close>

theorem prerequisites_correct:
  assumes "zone_ok z" and "\<forall>p \<in> set ps. plain_name z (prerequisite_name p) \<and> \<not> names_any p"
  shows "case check_prerequisites z ps of
      Inr _ \<Rightarrow> \<forall>p \<in> set ps. meets (zone_recs z) ps p
    | Inl e \<Rightarrow> \<exists>p \<in> set ps. \<not> meets (zone_recs z) ps p \<and> rj_rcode e = refusal p"
proof -
  have nil: "values_ok [] []" by (simp add: values_ok_def map_filter_simps)
  note e = check_each_ok [OF assms nil, of ps]
  show ?thesis
  proof (cases "check_each z ps []")
    case (Inl err)
    then show ?thesis using e by (simp add: check_prerequisites_def)
  next
    case (Inr sets)
    then have v: "values_ok ps sets" and others: "\<forall>p \<in> set ps. value_of p = None \<longrightarrow> meets (zone_recs z) ps p" using e by simp_all
    have plain: "\<forall>s \<in> set sets. plain_name z (fst s) \<and> fst (snd s) \<noteq> ANY_CODE"
      using v assms(2) unfolding values_ok_def by fastforce
    note c = check_values_ok [OF assms(1) plain]
    have key: "value_key s = (folded (fst s), fst (snd s))" for s by (cases s) simp
    have fine: "rrset (zone_recs z) (fst s) (fst (snd s)) \<noteq> {#} \<and> set_mset (rrset (zone_recs z) (fst s) (fst (snd s))) = set (snd (snd s)) \<and>
        size (rrset (zone_recs z) (fst s) (fst (snd s))) = length (snd (snd s)) \<longleftrightarrow> meets (zone_recs z) ps (RrsetExistsWithValue n t ds)"
      if s: "s \<in> set sets" "value_key s = (folded n, t)" for s n t ds
    proof -
      have "snd (snd s) = wanted_values ps (folded n, t)" using v s unfolding values_ok_def by metis
      moreover have "rrset (zone_recs z) (fst s) (fst (snd s)) = rrset (zone_recs z) n t" using s(2) unfolding key by (simp add: rrset_def)
      ultimately show ?thesis by simp
    qed
    show ?thesis
    proof (cases "check_values z sets")
      case (Inl e)
      then obtain s where s: "s \<in> set sets" and e: "rj_rcode e = NoSuchResourceRecordSet"
        and no: "\<not> (rrset (zone_recs z) (fst s) (fst (snd s)) \<noteq> {#} \<and> set_mset (rrset (zone_recs z) (fst s) (fst (snd s))) = set (snd (snd s)) \<and>
          size (rrset (zone_recs z) (fst s) (fst (snd s))) = length (snd (snd s)))"
        using c by auto
      obtain ds where p: "RrsetExistsWithValue (fst s) (fst (snd s)) ds \<in> set ps" using v s unfolding values_ok_def by blast
      have "\<not> meets (zone_recs z) ps (RrsetExistsWithValue (fst s) (fst (snd s)) ds)" using fine [OF s key] no by blast
      then show ?thesis using p e Inl Inr by (force simp: check_prerequisites_def)
    next
      case ok: (Inr x)
      have "meets (zone_recs z) ps p" if p: "p \<in> set ps" for p
      proof (cases "value_of p")
        case (Some w)
        then obtain n t ds where pe: "p = RrsetExistsWithValue n t ds" by (cases p) auto
        then have "(folded n, t) \<in> fst ` set (List.map_filter value_of ps)" using p by (force simp: List.map_filter_def)
        then obtain s where s: "s \<in> set sets" "value_key s = (folded n, t)" using v unfolding values_ok_def by (metis imageE)
        show ?thesis using fine [OF s] s(1) c ok pe by auto
      qed (use others p in simp)
      then show ?thesis using ok Inr by (simp add: check_prerequisites_def)
    qed
  qed
qed

section \<open>Small updates\<close>

text \<open>An UPDATE of \<^verbatim>\<open>x.\<close> that adds an address at one name and deletes another name.\<close>

definition example_update :: "name \<Rightarrow> name \<Rightarrow> dns_message" where
  "example_update added_name deleted_name =
     (build 7 (with_query [1, 120, 0] rt_SOA builder_new))
       \<lparr>dm_opcode := Update, dm_authorities := [rr_of (a_record added_name),
          \<lparr>rr_name = deleted_name, rr_class = 255, rr_ttl = 0, rr_data = \<lparr>rd_type = 255, rd_bytes = []\<rparr>\<rparr>]\<rparr>"

lemma example_update_parsed:
  assumes "small_names [a, d]"
  shows "parse_update (example_update a d) = Inr \<lparr>ur_zone = [1, 120, 0], ur_prerequisites = [], ur_changes = [Add (rr_of (a_record a)), DeleteName d]\<rparr>"
  using wf_small_names [OF assms]
  by (simp add: example_update_def parse_update_def build_def with_query_def builder_new_def read_change_def in_zone_or_notzone_def Let_def
      rr_of_def a_record_def query_class_from_u16_def ANY_CODE_def is_meta_def rtype_defs)

lemma small_octets: "small_names ns \<Longrightarrow> zr_octets (zone_recs (small_version s ns)) + 1000 < 2 ^ 32"
proof -
  assume n: "small_names ns"
  have "zr_octets rs = sum_mset (image_mset (\<lambda>r. length (zr_name r) + length (rd_bytes (zr_rdata r))) (mset rs))" for rs
    by (induction rs) simp_all
  then have "zr_octets (zone_recs (small_version s ns)) = 25 + sum_mset (image_mset (\<lambda>n. length n + 4) (mset ns))"
    by (simp add: small_version_ok(4) [OF n] soa_record_def a_record_def be32_def image_mset.compositionality comp_def numeral_eq_Suc)
  moreover have "sum_mset (image_mset (\<lambda>n. length n + 4) (mset ns)) \<le> 9 * length ns"
    using wf_small_names [OF n] by (induction ns) auto
  ultimately show ?thesis using n by (simp add: small_names_def)
qed

theorem update_keeps_rules_witness:
  "\<exists>u a. parse_update (example_update [1, 99, 1, 120, 0] [1, 98, 1, 120, 0]) = Inr u \<and>
    apply_update (small_version 1 [[1, 98, 1, 120, 0], [1, 100, 1, 120, 0]]) (ur_changes u) = Some a \<and> zone_ok (ap_zone a) \<and>
    records_of [1, 100, 1, 120, 0] (zone_recs (ap_zone a)) =
      records_of [1, 100, 1, 120, 0] (zone_recs (small_version 1 [[1, 98, 1, 120, 0], [1, 100, 1, 120, 0]]))"
proof -
  let ?b = "[1, 98, 1, 120, 0] :: name" and ?c = "[1, 99, 1, 120, 0] :: name" and ?d = "[1, 100, 1, 120, 0] :: name"
  have n: "small_names [?b, ?d]" "small_names [?c, ?b]" by (simp_all add: small_names_def)
  note v = small_version_ok [OF n(1), of 1]
  have ok: "zone_ok (small_version 1 [?b, ?d])" using v(1) by (simp add: version_ok_def)
  have rr: "\<forall>rr \<in> set (dm_authorities (example_update ?c ?b)). rr_ok rr"
    using wf_small_names [OF n(2)] by (simp add: example_update_def rr_ok_def record_ok_def zr_of_def rr_of_def a_record_def)
  have room: "zr_octets (zone_recs (small_version 1 [?b, ?d])) + rr_octets (dm_authorities (example_update ?c ?b)) + 530 < 2 ^ 32"
    using small_octets [OF n(1), of 1] by (simp add: example_update_def rr_octets_def rr_of_def a_record_def)
  have "folded ?d \<noteq> folded [1, 120, 0]" "folded ?d \<noteq> folded ?b" "folded ?d \<noteq> folded ?c" "folded ?d = ?d" by (simp_all add: folded_lower to_lower_def is_upper_def word_le_nat_alt)
  moreover have "(folded \<circ> rr_name) ` set (dm_authorities (example_update ?c ?b)) = {folded ?c, folded ?b}"
    by (simp add: example_update_def rr_of_def a_record_def)
  ultimately show ?thesis
    using update_keeps_rules [OF ok example_update_parsed [OF n(2)] rr room] example_update_parsed [OF n(2)] v(2)
    by (auto simp: origin_key_def)
qed

theorem update_moves_serial_witness:
  "\<exists>a s'. apply_update (small_version 4294967295 [[1, 98, 1, 120, 0]]) [DeleteName [1, 98, 1, 120, 0]] = Some a \<and> version_ok (ap_zone a) \<and>
    (ap_changed a = 0 \<or> zone_serial (ap_zone a) = Some s' \<and> s' = 0)"
proof -
  let ?b = "[1, 98, 1, 120, 0] :: name"
  have n: "small_names [?b]" by (simp add: small_names_def)
  note v = small_version_ok [OF n, of 4294967295]
  have "update_room (small_version 4294967295 [?b]) [DeleteName ?b]" using small_octets [OF n, of 4294967295] by (simp add: rr_octets_def)
  then show ?thesis
    using update_moves_serial [OF v(1,3), of "[DeleteName ?b]"] by (auto simp: serial_wrapping_add_def split: if_splits)
qed

theorem prerequisites_correct_witness:
  "\<exists>z. zone_ok z \<and> zone_recs z = [a_record [1, 120, 0]] \<and>
    (case check_prerequisites z [RrsetExistsWithValue [1, 120, 0] rt_A [zr_rdata (a_record [1, 120, 0])], NameNotInUse [1, 120, 0]] of
       Inr _ \<Rightarrow> False | Inl e \<Rightarrow> rj_rcode e = DomainExistsForSomeReason)"
proof -
  let ?n = "[1, 120, 0] :: name"
  let ?ps = "[RrsetExistsWithValue ?n rt_A [zr_rdata (a_record ?n)], NameNotInUse ?n]"
  obtain z where z: "zone_run z {#a_record ?n#}" "z_origin z = ?n" using apex_zone by blast
  have ok: "zone_ok z" and "mset (zone_recs z) = {#a_record ?n#}" using zone_run_ok [OF z(1)] by simp_all
  then have rs: "zone_recs z = [a_record ?n]" by simp
  have own: "owned (zone_recs z) (folded ?n)" by (simp add: rs owned_def a_record_def)
  have u: "is_at_or_under ?n (z_origin z)" using z(2) by (simp add: is_at_or_under_def name_eq_def eq_ignore_case_def)
  then have "within (origin_key z) (folded ?n)"
    using within_folded [OF wf_small(1) zone_okD(1) [OF ok]] by (simp add: origin_key_def)
  then have "name_kind ?n z = Exact" using name_kind_of_key_correct(1) [OF ok] own by (simp add: name_kind_def)
  then have "plain_name z ?n" using u wf_small(1) by (simp add: plain_name_def)
  then have p: "\<forall>p \<in> set ?ps. plain_name z (prerequisite_name p) \<and> \<not> names_any p" by (simp add: ANY_CODE_def rtype_defs)
  have "rrset (zone_recs z) ?n rt_A = {#zr_rdata (a_record ?n)#}" by (simp add: rrset_def rs shape_def a_record_def)
  then have "meets (zone_recs z) ?ps (RrsetExistsWithValue ?n rt_A [zr_rdata (a_record ?n)])"
    by (simp add: wanted_values_def map_filter_simps)
  then show ?thesis using prerequisites_correct [OF ok p] ok rs own by (auto split: sum.splits)
qed

lemma star_small [simp]:
  "folded [1, 42, 1, 120, 0] = [1, 42, 1, 120, 0]" "ancestors [1, 42, 1, 120, 0] = [[1, 42, 1, 120, 0], [1, 120, 0], [0]]"
  by (simp_all add: folded_def is_upper_def word_le_nat_alt ancestors.simps)

text \<open>
  C40. A prerequisite about an RRset is asked through the lookup that answers queries, which a wildcard
  answers: in a zone with an address at \<^verbatim>\<open>*.x.\<close> only, \<^verbatim>\<open>b.x.\<close> passes for a name with an address RRset,
  and fails as one without, though the zone has no record at the name, and the prerequisite on the
  name itself says so.
\<close>

theorem wildcard_meets_prerequisite:
  "\<exists>z. zone_ok z \<and> zone_recs z = [a_record [1, 42, 1, 120, 0]] \<and>
    check_prerequisites z [RrsetExists [1, 98, 1, 120, 0] rt_A] = Inr () \<and>
    \<not> meets (zone_recs z) [] (RrsetExists [1, 98, 1, 120, 0] rt_A) \<and>
    (\<exists>e. check_prerequisites z [RrsetDoesNotExist [1, 98, 1, 120, 0] rt_A] = Inl e \<and> rj_rcode e = ResourceRecordSetExistsForSomeReason) \<and>
    (\<exists>e. check_prerequisites z [NameInUse [1, 98, 1, 120, 0]] = Inl e \<and> rj_rcode e = NoSuchDomain)"
proof -
  let ?r = "a_record [1, 42, 1, 120, 0]" and ?q = "[1, 98, 1, 120, 0] :: bytes"
  have rok: "record_ok ?r" using wf_name_wire_of [of "[[42], [120]]"] by (simp add: record_ok_def a_record_def label_ok_def)
  obtain z where z: "zone_run z {#?r#}" "z_origin z = [1, 120, 0]" "sc_wildcards (z_shortcuts z)"
    using zone_of_ok [of "[1, 120, 0]" "[?r]"] wf_small(1) rok by (auto simp: octets_used_def a_record_def)
  have ok: "zone_ok z" and "mset (zone_recs z) = {#?r#}" using zone_run_ok [OF z(1)] by simp_all
  then have rs: "zone_recs z = [?r]" by simp
  have og: "origin_key z = [1, 120, 0]" by (simp add: origin_key_def z)
  note k = name_kind_of_key_correct [OF ok, of ?q, unfolded og]
  have no: "\<not> exists_node (zone_recs z) ?q" "\<not> owned (zone_recs z) ?q" by (auto simp: exists_node_def owned_def rs a_record_def)
  moreover have "closest_encloser (zone_recs z) [1, 120, 0] (tl (ancestors ?q)) [1, 120, 0]"
    by (auto simp: closest_encloser_def deepest_def exists_node_def rs a_record_def)
  moreover have "synthesized z [1, 120, 0]"
    using z(3) by (auto simp: synthesized_def exists_node_def rs a_record_def star_def cut_above_def typed_at_def rtype_defs)
  ultimately have kind: "name_kind ?q z = Wildcard [1, 42, 1, 120, 0]" using k(3) by (auto simp: name_kind_def star_def)
  have "mset (zone_query ?q rt_A z) = {#?r#}"
    using of_type_locate [OF ok, of ?q rt_A] kind
    by (simp add: zone_query_def query_with_kind_def Let_def records_at_def rs a_record_def qtype_matches_def ANY_CODE_def rtype_defs)
  then have query: "zone_query ?q rt_A z = [?r]" by simp
  have "\<not> holds_name ?q z" using kind by (auto simp: holds_name_def name_kind_def name_kind_of_key_def split: option.splits slot.splits)
  then show ?thesis
    using query no ok rs by (intro exI [of _ z]) (auto simp: check_prerequisites_def reject_def rrset_def shape_def a_record_def)
qed

end
