(* ===== verification/ZoneAnswer.thy ===== *)
theory ZoneAnswer
  imports Ixfr
begin

text \<open>
  What one zone says to one question, \<^verbatim>\<open>rdns/src/zone_answer.rs\<close> and \<^verbatim>\<open>zone_answer/dnssec_answer.rs\<close>.
  The functions that write into a \<^verbatim>\<open>ResponseWriter\<close> are the calls they make on it, in order; running
  them is \<open>rw_run\<close>, which stops at the first that fails. No decision is taken on what the writer
  holds. SHA-1 is a parameter.
\<close>

section \<open>Walking the zone\<close>

definition MAX_REDIRECTS :: nat where "MAX_REDIRECTS = 16"

datatype hop =
    HopCname name
  | HopDname (dn_owner: name) (dn_from: name) (dn_to: "name option") (dn_ttl: ttl) (dn_class: dclass)

fun hop_owner :: "hop \<Rightarrow> name" where
  "hop_owner (HopCname n) = n"
| "hop_owner (HopDname n _ _ _ _) = n"

datatype outcome =
    ToReferral name
  | ToAnswer "hop list" name located
  | ToNegative "hop list" name NameKind
  | ToChainLeftZone "hop list"
  | ToStopped "hop list" response_code

definition in_zone :: "zone \<Rightarrow> name \<Rightarrow> bool" where
  "in_zone z n \<longleftrightarrow> is_at_or_under n (z_origin z)"

text \<open>The name a DNAME leads to, or the code to answer with; and the chain, which has it either way.\<close>

definition redirect_through :: "zone_record \<Rightarrow> name \<Rightarrow> hop list \<Rightarrow> (response_code + name) \<times> hop list" where
  "redirect_through dname from chain =
     (case rdata_parse (zr_rdata dname) of
        Inr (PDNAME target) \<Rightarrow>
          (case dname_redirect from (zr_name dname) target of
             NoMatch \<Rightarrow> (Inl ServerFailure, chain)
           | To n \<Rightarrow> (Inr n, chain @ [HopDname (zr_name dname) from (Some n) (zr_ttl dname) (zr_class dname)])
           | RTooLong \<Rightarrow> (Inl DomainExistsForSomeReason, chain @ [HopDname (zr_name dname) from None (zr_ttl dname) (zr_class dname)]))
      | _ \<Rightarrow> (Inl ServerFailure, chain))"

definition cname_target :: "located \<Rightarrow> name option" where
  "cname_target l =
     (case of_type l rt_CNAME of
        [] \<Rightarrow> None
      | r # _ \<Rightarrow> (case rdata_parse (zr_rdata r) of Inr (PCNAME target) \<Rightarrow> Some target | _ \<Rightarrow> None))"

definition was_visited :: "name list \<Rightarrow> name \<Rightarrow> bool" where
  "was_visited visited n \<longleftrightarrow> (\<exists>v \<in> set visited. name_eq v n)"

text \<open>Whether the cut found for a name ends the zone's authority there.\<close>

definition cut_ends :: "zone_record option \<Rightarrow> qtype \<Rightarrow> name \<Rightarrow> name \<Rightarrow> bool" where
  "cut_ends redirect q name c \<longleftrightarrow>
     \<not> ((case redirect of None \<Rightarrow> False | Some d \<Rightarrow> is_at_or_under c (zr_name d)) \<or> q = rt_DS \<and> name_eq c name)"

text \<open>The loop of \<^verbatim>\<open>resolve_in_zone\<close>, with the passes left.\<close>

fun resolve_loop :: "nat \<Rightarrow> zone \<Rightarrow> qtype \<Rightarrow> name \<Rightarrow> hop list \<Rightarrow> name list \<Rightarrow> outcome"
  and resolve_data :: "nat \<Rightarrow> zone \<Rightarrow> qtype \<Rightarrow> name \<Rightarrow> hop list \<Rightarrow> name list \<Rightarrow> zone_record option \<Rightarrow> outcome"
where
  "resolve_loop 0 z q name chain visited = ToChainLeftZone chain"
| "resolve_loop (Suc k) z q name chain visited =
     (let key = folded name; redirect = dname_above key z in
      case delegation_for key z of
        Some c \<Rightarrow>
          if cut_ends redirect q name c then (if chain = [] then ToReferral c else ToChainLeftZone chain)
          else resolve_data k z q name chain visited redirect
      | None \<Rightarrow> resolve_data k z q name chain visited redirect)"
| "resolve_data k z q name chain visited redirect =
     (case redirect of
        Some dname \<Rightarrow>
          (case redirect_through dname name chain of
             (Inl rcode, chain) \<Rightarrow> ToStopped chain rcode
           | (Inr n, chain) \<Rightarrow>
               if \<not> in_zone z n \<or> was_visited visited n then ToChainLeftZone chain
               else resolve_loop k z q n chain (visited @ [n]))
      | None \<Rightarrow>
          let located = locate (folded name) z in
          if located_has_type located q then ToAnswer chain name located
          else if q = rt_CNAME then ToNegative chain name (lc_kind located)
          else
            (case cname_target located of
               None \<Rightarrow> ToNegative chain name (lc_kind located)
             | Some target \<Rightarrow>
                 let chain = chain @ [HopCname name] in
                 if \<not> in_zone z target \<or> was_visited visited target then ToChainLeftZone chain
                 else resolve_loop k z q target chain (visited @ [target])))"

definition resolve_in_zone :: "zone \<Rightarrow> name \<Rightarrow> qtype \<Rightarrow> outcome" where
  "resolve_in_zone z n q = resolve_loop MAX_REDIRECTS z q n [] []"

section \<open>DNSSEC records a reply owes\<close>

definition push_as :: "section_id \<Rightarrow> name \<Rightarrow> ttl \<Rightarrow> zone_record \<Rightarrow> rw_call" where
  "push_as sect n t r = Push sect \<lparr>rr_name = n, rr_class = zr_class r, rr_ttl = t, rr_data = zr_rdata r\<rparr>"

definition is_signed :: "zone \<Rightarrow> bool" where
  "is_signed z \<longleftrightarrow> located_has_type (locate (z_origin z) z) rt_DNSKEY"

text \<open>The signatures over an answer, and whether one of them is a wildcard's.\<close>

definition answer_signatures :: "located \<Rightarrow> qtype \<Rightarrow> zone_record list" where
  "answer_signatures at q =
     filter (\<lambda>r. case rrsig_type_covered (zr_rdata r) of None \<Rightarrow> False | Some t \<Rightarrow> qtype_matches q t) (of_type at rt_RRSIG)"

definition push_answer_signatures :: "located \<Rightarrow> name \<Rightarrow> qtype \<Rightarrow> rw_call list \<times> bool" where
  "push_answer_signatures at n q =
     (if \<not> is_signed (lc_zone at) then ([], False)
      else let sigs = answer_signatures at q in
        (map (\<lambda>r. push_as Answer n (zr_ttl r) r) sigs, \<exists>r \<in> set sigs. \<not> name_eq (zr_name r) n))"

definition MAX_NSEC3_ITERATIONS :: u16 where "MAX_NSEC3_ITERATIONS = 150"

definition hash_wire :: "(bytes \<Rightarrow> bytes) \<Rightarrow> bytes \<Rightarrow> bytes \<Rightarrow> u16 \<Rightarrow> nsec3_hash option" where
  "hash_wire sha1 wire salt iterations =
     (if iterations > MAX_NSEC3_ITERATIONS then None
      else Some (((\<lambda>digest. sha1 (digest @ salt)) ^^ unat iterations) (sha1 (lower wire @ salt))))"

definition nsec3_hash_name :: "(bytes \<Rightarrow> bytes) \<Rightarrow> name \<Rightarrow> bytes \<Rightarrow> u16 \<Rightarrow> nsec3_hash option" where
  "nsec3_hash_name sha1 n salt iterations = hash_wire sha1 n salt iterations"

definition nsec3_owner_name_at :: "nsec3_hash \<Rightarrow> name \<Rightarrow> name wire_result" where
  "nsec3_owner_name_at h og = prefixed (base32hex_chars BASE32HEX_LOWER h) og"

fun least_entry :: "(bytes \<times> nat) list \<Rightarrow> (bytes \<times> nat) option" where
  "least_entry [] = None"
| "least_entry (e # es) = (case least_entry es of None \<Rightarrow> Some e | Some g \<Rightarrow> Some (if key_less (fst g) (fst e) then g else e))"

definition any_nsec3 :: "zone \<Rightarrow> zone_record option" where
  "any_nsec3 z = map_option (\<lambda>e. zone_record_at z (snd e)) (least_entry (z_nsec3 z))"

record nsec3_chain =
  n3_salt :: bytes
  n3_iterations :: u16

definition nsec3_chain_of :: "zone \<Rightarrow> nsec3_chain option" where
  "nsec3_chain_of z =
     (case any_nsec3 z of
        None \<Rightarrow> None
      | Some r \<Rightarrow> map_option (\<lambda>(iterations, salt). \<lparr>n3_salt = salt, n3_iterations = iterations\<rparr>) (nsec3_parameters (zr_rdata r)))"

definition chain_hash :: "(bytes \<Rightarrow> bytes) \<Rightarrow> nsec3_chain \<Rightarrow> name \<Rightarrow> nsec3_hash option" where
  "chain_hash sha1 c n = nsec3_hash_name sha1 n (n3_salt c) (n3_iterations c)"

definition chain_owner :: "(bytes \<Rightarrow> bytes) \<Rightarrow> nsec3_chain \<Rightarrow> zone \<Rightarrow> name \<Rightarrow> name option" where
  "chain_owner sha1 c z n =
     (case chain_hash sha1 c n of
        None \<Rightarrow> None
      | Some h \<Rightarrow> (case nsec3_owner_name_at h (z_origin z) of Inr owner \<Rightarrow> Some owner | Inl _ \<Rightarrow> None))"

text \<open>The first name up to the origin with a property.\<close>

fun encloser_in :: "(name \<Rightarrow> bool) \<Rightarrow> zone \<Rightarrow> name list \<Rightarrow> name option" where
  "encloser_in P z [] = None"
| "encloser_in P z (n # ns) = (if P n then Some n else if name_eq n (z_origin z) then None else encloser_in P z ns)"

definition chain_encloser :: "(bytes \<Rightarrow> bytes) \<Rightarrow> nsec3_chain \<Rightarrow> zone \<Rightarrow> name \<Rightarrow> name option" where
  "chain_encloser sha1 c z n =
     encloser_in (\<lambda>n. case chain_owner sha1 c z n of None \<Rightarrow> False | Some owner \<Rightarrow> holds_name owner z) z (ancestors n)"

definition nsec_closest_encloser :: "zone \<Rightarrow> name \<Rightarrow> name option" where
  "nsec_closest_encloser z n = encloser_in (\<lambda>n. holds_name n z) z (ancestors n)"

definition chain_and_encloser :: "(bytes \<Rightarrow> bytes) \<Rightarrow> zone \<Rightarrow> name \<Rightarrow> (nsec3_chain \<times> name) option" where
  "chain_and_encloser sha1 z n =
     (case nsec3_chain_of z of None \<Rightarrow> None | Some c \<Rightarrow> map_option (Pair c) (chain_encloser sha1 c z n))"

definition child_towards :: "name \<Rightarrow> name \<Rightarrow> name option" where
  "child_towards n encloser =
     (if name_eq n encloser then None
      else find (\<lambda>a. case parent a of None \<Rightarrow> False | Some up \<Rightarrow> name_eq up encloser) (ancestors n))"

text \<open>The denial records written so far, at most three of them remembered, with the ceiling on their TTLs; and the calls made.\<close>

record written =
  wr_seen :: "zone_record list"
  wr_cap :: "ttl option"

definition negative_ttl_cap :: "zone \<Rightarrow> ttl option" where
  "negative_ttl_cap z =
     (case of_type (locate (z_origin z) z) rt_SOA of
        [] \<Rightarrow> None
      | soa # _ \<Rightarrow> map_option (ttl_negative_answer (zr_ttl soa)) (soa_minimum (zr_rdata soa)))"

definition written_for :: "zone \<Rightarrow> written" where
  "written_for z = \<lparr>wr_seen = [], wr_cap = negative_ttl_cap z\<rparr>"

definition claim :: "zone_record \<Rightarrow> written \<Rightarrow> bool \<times> written" where
  "claim r wr =
     (if \<exists>s \<in> set (wr_seen wr). name_eq (zr_name s) (zr_name r) \<and> zr_ttl s = zr_ttl r \<and> zr_class s = zr_class r \<and> zr_rdata s = zr_rdata r
      then (False, wr)
      else (True, if length (wr_seen wr) < 3 then wr\<lparr>wr_seen := wr_seen wr @ [r]\<rparr> else wr))"

type_synonym proof_state = "written \<times> rw_call list"

definition capped :: "ttl option \<Rightarrow> ttl \<Rightarrow> ttl" where
  "capped cap t = (case cap of None \<Rightarrow> t | Some c \<Rightarrow> min t c)"

definition push_signatures_at :: "zone \<Rightarrow> name \<Rightarrow> rtype \<Rightarrow> ttl option \<Rightarrow> rw_call list" where
  "push_signatures_at z n t cap =
     (let at = locate n z in
      if lc_kind at \<noteq> Exact then []
      else map (\<lambda>r. push_as Authority (zr_name r) (capped cap (zr_ttl r)) r)
        (filter (\<lambda>r. rrsig_type_covered (zr_rdata r) = Some t) (of_type at rt_RRSIG)))"

definition push_with_signatures :: "zone \<Rightarrow> zone_record \<Rightarrow> proof_state \<Rightarrow> bool \<times> proof_state" where
  "push_with_signatures z r st =
     (let (fresh, wr) = claim r (fst st) in
      if \<not> fresh then (False, wr, snd st)
      else (True, wr, snd st @ push_as Authority (zr_name r) (capped (wr_cap wr) (zr_ttl r)) r #
              push_signatures_at z (zr_name r) (rd_type (zr_rdata r)) (wr_cap wr)))"

fun push_each :: "zone \<Rightarrow> zone_record list \<Rightarrow> proof_state \<Rightarrow> bool \<times> proof_state" where
  "push_each z [] st = (False, st)"
| "push_each z (r # rs) st =
     (let (a, st) = push_with_signatures z r st; (b, st) = push_each z rs st in (a \<or> b, st))"

definition push_matching :: "(bytes \<Rightarrow> bytes) \<Rightarrow> nsec3_chain \<Rightarrow> zone \<Rightarrow> name \<Rightarrow> proof_state \<Rightarrow> bool \<times> proof_state" where
  "push_matching sha1 c z n st =
     (case chain_owner sha1 c z n of
        None \<Rightarrow> (False, st)
      | Some owner \<Rightarrow> push_each z (of_type (locate owner z) rt_NSEC3) st)"

definition push_covering :: "(bytes \<Rightarrow> bytes) \<Rightarrow> nsec3_chain \<Rightarrow> zone \<Rightarrow> name \<Rightarrow> proof_state \<Rightarrow> proof_state" where
  "push_covering sha1 c z n st =
     (case chain_hash sha1 c n of
        None \<Rightarrow> st
      | Some h \<Rightarrow> (case nsec3_covering h z of None \<Rightarrow> st | Some r \<Rightarrow> snd (push_with_signatures z r st)))"

definition push_absence :: "(bytes \<Rightarrow> bytes) \<Rightarrow> nsec3_chain \<Rightarrow> zone \<Rightarrow> name \<Rightarrow> name \<Rightarrow> proof_state \<Rightarrow> proof_state" where
  "push_absence sha1 c z n encloser st =
     (let (_, st) = push_matching sha1 c z encloser st in
      case child_towards n encloser of None \<Rightarrow> st | Some next_closer \<Rightarrow> push_covering sha1 c z next_closer st)"

definition push_wildcard_denial :: "(bytes \<Rightarrow> bytes) \<Rightarrow> nsec3_chain \<Rightarrow> zone \<Rightarrow> name \<Rightarrow> proof_state \<Rightarrow> proof_state" where
  "push_wildcard_denial sha1 c z encloser st =
     (case prefixed [42] encloser of Inl _ \<Rightarrow> st | Inr wildcard \<Rightarrow> push_covering sha1 c z wildcard st)"

definition push_nsec_covering :: "zone \<Rightarrow> name \<Rightarrow> proof_state \<Rightarrow> proof_state" where
  "push_nsec_covering z n st = (case nsec_covering n z of None \<Rightarrow> st | Some r \<Rightarrow> snd (push_with_signatures z r st))"

definition absence :: "(bytes \<Rightarrow> bytes) \<Rightarrow> zone \<Rightarrow> name \<Rightarrow> proof_state \<Rightarrow> proof_state" where
  "absence sha1 z n st =
     (if has_nsec3_chain z then
        (case chain_and_encloser sha1 z n of None \<Rightarrow> st | Some (c, encloser) \<Rightarrow> push_absence sha1 c z n encloser st)
      else push_nsec_covering z n st)"

definition deny_the_name_and_its_wildcard :: "(bytes \<Rightarrow> bytes) \<Rightarrow> zone \<Rightarrow> name \<Rightarrow> proof_state \<Rightarrow> proof_state" where
  "deny_the_name_and_its_wildcard sha1 z n st =
     (if has_nsec3_chain z then
        (case chain_and_encloser sha1 z n of
           None \<Rightarrow> st
         | Some (c, encloser) \<Rightarrow> push_wildcard_denial sha1 c z encloser (push_absence sha1 c z n encloser st))
      else
        let st = push_nsec_covering z n st in
        case nsec_closest_encloser z n of
          None \<Rightarrow> st
        | Some encloser \<Rightarrow> (case prefixed [42] encloser of Inl _ \<Rightarrow> st | Inr wildcard \<Rightarrow> push_nsec_covering z wildcard st))"

definition match_at_name :: "(bytes \<Rightarrow> bytes) \<Rightarrow> zone \<Rightarrow> name \<Rightarrow> proof_state \<Rightarrow> bool \<times> proof_state" where
  "match_at_name sha1 z n st =
     (if has_nsec3_chain z then
        (case nsec3_chain_of z of None \<Rightarrow> (False, st) | Some c \<Rightarrow> push_matching sha1 c z n st)
      else
        let at = locate n z in
        if lc_kind at \<noteq> Exact then (False, st) else push_each z (of_type at rt_NSEC) st)"

definition push_proof_of_absence :: "(bytes \<Rightarrow> bytes) \<Rightarrow> zone \<Rightarrow> name \<Rightarrow> rw_call list" where
  "push_proof_of_absence sha1 z n =
     (if \<not> is_signed z then [] else snd (absence sha1 z (to_folded n) (written_for z, [])))"

definition push_soa_signatures :: "zone \<Rightarrow> ttl option \<Rightarrow> rw_call list" where
  "push_soa_signatures z cap = push_signatures_at z (z_origin z) rt_SOA cap"

definition push_negative_proof :: "(bytes \<Rightarrow> bytes) \<Rightarrow> zone \<Rightarrow> name \<Rightarrow> NameKind \<Rightarrow> rw_call list" where
  "push_negative_proof sha1 z n kind =
     (if \<not> is_signed z then []
      else
        let n = to_folded n; wr = written_for z; st = (wr, push_soa_signatures z (wr_cap wr)) in
        snd (case kind of
               NotFound \<Rightarrow> deny_the_name_and_its_wildcard sha1 z n st
             | Exact \<Rightarrow> snd (match_at_name sha1 z n st)
             | EmptyNonTerminal \<Rightarrow> snd (match_at_name sha1 z n st)
             | Wildcard wildcard \<Rightarrow> absence sha1 z n (snd (match_at_name sha1 z wildcard st))))"

definition push_delegation_proof :: "(bytes \<Rightarrow> bytes) \<Rightarrow> zone \<Rightarrow> name \<Rightarrow> rw_call list" where
  "push_delegation_proof sha1 z c =
     (if \<not> is_signed z then []
      else
        let c = to_folded c; ds = of_type (locate c z) rt_DS in
        if ds \<noteq> [] then map (\<lambda>r. push_as Authority (zr_name r) (zr_ttl r) r) ds @ push_signatures_at z c rt_DS None
        else
          let (found, st) = match_at_name sha1 z c (written_for z, []) in
          snd (if \<not> found \<and> has_nsec3_chain z then absence sha1 z c st else st))"

section \<open>The sections of a reply\<close>

definition add_answer :: "located \<Rightarrow> name \<Rightarrow> qtype \<Rightarrow> bool \<Rightarrow> rw_call list \<times> bool" where
  "add_answer at n q dnssec_ok =
     (let records = map (\<lambda>r. push_as Answer n (zr_ttl r) r) (of_type at q) in
      if \<not> dnssec_ok then (records, False)
      else let (sigs, wildcard) = push_answer_signatures at n q in (records @ sigs, wildcard))"

text \<open>
  \<^verbatim>\<open>add_chain\<close>: one bit of a \<^verbatim>\<open>u32\<close> per hop that owes a denial. A CNAME's RDATA is its target, and
  encoding it does not fail.
\<close>

definition hop_qtype :: "hop \<Rightarrow> qtype" where
  "hop_qtype h = (case h of HopCname _ \<Rightarrow> rt_CNAME | HopDname _ _ _ _ _ \<Rightarrow> rt_DNAME)"

definition synthesized_cname :: "hop \<Rightarrow> rw_call list" where
  "synthesized_cname h =
     (case h of
        HopDname _ from (Some to) t c \<Rightarrow>
          (case rdata_from_parsed (PCNAME to) of
             Inr d \<Rightarrow> [Push Answer \<lparr>rr_name = from, rr_class = c, rr_ttl = t, rr_data = d\<rparr>]
           | Inl _ \<Rightarrow> [])
      | _ \<Rightarrow> [])"

fun add_chain_from :: "nat \<Rightarrow> zone \<Rightarrow> hop list \<Rightarrow> bool \<Rightarrow> u32 \<Rightarrow> rw_call list \<times> u32" where
  "add_chain_from i z [] dnssec_ok owed = ([], owed)"
| "add_chain_from i z (h # hs) dnssec_ok owed =
     (let (calls, wildcard) = add_answer (locate (hop_owner h) z) (hop_owner h) (hop_qtype h) dnssec_ok;
          owed = (if wildcard then owed OR push_bit i 1 else owed);
          (more, owed) = add_chain_from (Suc i) z hs dnssec_ok owed in
      (calls @ synthesized_cname h @ more, owed))"

definition add_chain :: "zone \<Rightarrow> hop list \<Rightarrow> bool \<Rightarrow> rw_call list \<times> u32" where
  "add_chain z chain dnssec_ok = add_chain_from 0 z chain dnssec_ok 0"

definition add_chain_denials :: "(bytes \<Rightarrow> bytes) \<Rightarrow> zone \<Rightarrow> hop list \<Rightarrow> u32 \<Rightarrow> rw_call list" where
  "add_chain_denials sha1 z chain owed =
     (if owed = 0 then []
      else concat (map (\<lambda>(i, h). if owed AND push_bit i 1 \<noteq> 0 then push_proof_of_absence sha1 z (hop_owner h) else [])
        (enumerate 0 chain)))"

definition answer_negative_ttl :: "zone_record \<Rightarrow> ttl" where
  "answer_negative_ttl soa = (case soa_minimum (zr_rdata soa) of Some m \<Rightarrow> ttl_negative_answer (zr_ttl soa) m | None \<Rightarrow> 0)"

definition add_negative :: "(bytes \<Rightarrow> bytes) \<Rightarrow> zone \<Rightarrow> name \<Rightarrow> NameKind \<Rightarrow> bool \<Rightarrow> rw_call list" where
  "add_negative sha1 z n kind dnssec_ok =
     (if kind = NotFound then [SetRcode NoSuchDomain] else []) @
     map (\<lambda>soa. push_as Authority (z_origin z) (answer_negative_ttl soa) soa) (zone_query (z_origin z) rt_SOA z) @
     (if dnssec_ok then push_negative_proof sha1 z n kind else [])"

definition ns_targets :: "zone_record list \<Rightarrow> name list" where
  "ns_targets rs = List.map_filter (\<lambda>r. case rdata_parse (zr_rdata r) of Inr (PNS target) \<Rightarrow> Some target | _ \<Rightarrow> None) rs"

definition glue_for :: "zone \<Rightarrow> name \<Rightarrow> rw_call list" where
  "glue_for z target =
     (if \<not> in_zone z target then []
      else concat (map (\<lambda>t. map (\<lambda>r. push_as Additional target (zr_ttl r) r) (zone_query target t z)) [rt_A, rt_AAAA]))"

definition refer_to_child :: "(bytes \<Rightarrow> bytes) \<Rightarrow> zone \<Rightarrow> name \<Rightarrow> bool \<Rightarrow> rw_call list" where
  "refer_to_child sha1 z c dnssec_ok =
     (let ns = zone_query c rt_NS z in
      SetAuthoritative False # map (\<lambda>r. push_as Authority c (zr_ttl r) r) ns @
      (if dnssec_ok then push_delegation_proof sha1 z c else []) @
      concat (map (glue_for z) (ns_targets ns)))"

definition zone_answer :: "(bytes \<Rightarrow> bytes) \<Rightarrow> zone \<Rightarrow> name \<Rightarrow> qtype \<Rightarrow> bool \<Rightarrow> rw_call list" where
  "zone_answer sha1 z n q dnssec_ok =
     (case resolve_in_zone z n q of
        ToReferral c \<Rightarrow> refer_to_child sha1 z c dnssec_ok
      | ToAnswer chain name at \<Rightarrow>
          let (hops, owed) = add_chain z chain dnssec_ok; (answers, target_owed) = add_answer at name q dnssec_ok in
          hops @ answers @ add_chain_denials sha1 z chain owed @ (if target_owed then push_proof_of_absence sha1 z name else [])
      | ToNegative chain name kind \<Rightarrow>
          let (hops, owed) = add_chain z chain dnssec_ok in
          hops @ add_chain_denials sha1 z chain owed @ add_negative sha1 z name kind dnssec_ok
      | ToChainLeftZone chain \<Rightarrow>
          let (hops, owed) = add_chain z chain dnssec_ok in hops @ add_chain_denials sha1 z chain owed
      | ToStopped chain rcode \<Rightarrow>
          let (hops, owed) = add_chain z chain dnssec_ok in hops @ add_chain_denials sha1 z chain owed @ [SetRcode rcode])"

definition zone_answer_write :: "(bytes \<Rightarrow> bytes) \<Rightarrow> zone \<Rightarrow> name \<Rightarrow> qtype \<Rightarrow> bool \<Rightarrow> (response_writer, unit) st" where
  "zone_answer_write sha1 z n q dnssec_ok = rw_run (zone_answer sha1 z n q dnssec_ok)"

section \<open>Where the records of a reply come from\<close>

text \<open>A record of the zone may go out under its own name, or a wildcard's under a name it answers for.\<close>

definition owner_ok :: "zone \<Rightarrow> name \<Rightarrow> zone_record \<Rightarrow> bool" where
  "owner_ok z n r \<longleftrightarrow> name_eq n (zr_name r) \<or> name_kind n z = Wildcard (folded (zr_name r))"

definition from_zone :: "zone \<Rightarrow> resource_record \<Rightarrow> bool" where
  "from_zone z rr \<longleftrightarrow> (\<exists>r \<in> set (zone_recs z). rr_data rr = zr_rdata r \<and> rr_class rr = zr_class r \<and> rr_ttl rr \<le> zr_ttl r \<and> owner_ok z (rr_name rr) r)"

text \<open>A CNAME made from a DNAME of the zone above its owner.\<close>

definition from_dname :: "zone \<Rightarrow> resource_record \<Rightarrow> bool" where
  "from_dname z rr \<longleftrightarrow> (\<exists>r \<in> set (zone_recs z). \<exists>target to. rdata_parse (zr_rdata r) = Inr (PDNAME target) \<and>
     dname_redirect (rr_name rr) (zr_name r) target = To to \<and> rr_data rr = \<lparr>rd_type = rt_CNAME, rd_bytes = to\<rparr> \<and>
     rr_class rr = zr_class r \<and> rr_ttl rr = zr_ttl r)"

text \<open>Calls that only push into one section, soundly.\<close>

definition push_ok :: "zone \<Rightarrow> section_id \<Rightarrow> rw_call \<Rightarrow> bool" where
  "push_ok z sect c \<longleftrightarrow> (case c of Push s rr \<Rightarrow> s = sect \<and> wf_name (rr_name rr) \<and> (from_zone z rr \<or> sect = Answer \<and> from_dname z rr) | _ \<Rightarrow> False)"

abbreviation pushes :: "zone \<Rightarrow> section_id \<Rightarrow> rw_call list \<Rightarrow> bool" where
  "pushes z sect \<equiv> list_all (push_ok z sect)"

lemma pushes_concat: "(\<And>cs. cs \<in> set css \<Longrightarrow> pushes z s cs) \<Longrightarrow> pushes z s (concat css)"
  by (auto simp: list_all_iff)

lemma pushes_map:
  "(\<And>r. r \<in> set rs \<Longrightarrow> wf_name (f r) \<and> r \<in> set (zone_recs z) \<and> g r \<le> zr_ttl r \<and> owner_ok z (f r) r) \<Longrightarrow> pushes z s (map (\<lambda>r. push_as s (f r) (g r) r) rs)"
  by (fastforce simp: list_all_iff push_ok_def push_as_def from_zone_def)

lemma wf_ancestor:
  assumes "wf_name w" and "a \<in> set (ancestors w)"
  shows "wf_name a"
proof -
  obtain ls where ls: "labels_ok ls" "w = wire_of ls" "length w \<le> 255" using assms(1) by (auto elim!: wf_nameE)
  then obtain ks where ks: "suffix ks ls" "a = wire_of ks" using assms(2) ancestors_wire by auto
  then obtain js where "ls = js @ ks" by (auto simp: suffix_def)
  then have "labels_ok ks" using ls(1) by auto
  moreover have "length a \<le> length w" using ancestors_length [OF assms(2)] by auto
  ultimately show ?thesis using ks(2) ls(3) by simp
qed

lemma wf_folded: "wf_name w \<Longrightarrow> wf_name (folded w)" "wf_name w \<Longrightarrow> wf_name (to_folded w)"
  using wf_name_lower by (simp_all add: folded_lower to_folded_def lower_def)

lemma folded_folded [simp]: "folded (folded w) = folded w"
  by (simp add: folded_lower lower_idem)

lemma of_type_from:
  assumes "zone_ok z" and "r \<in> set (of_type (locate n z) q)"
  shows "r \<in> set (zone_recs z) \<and> qtype_matches q (rd_type (zr_rdata r)) \<and> owner_ok z n r \<and> wf_name (zr_name r)"
    and "name_kind n z = Exact \<Longrightarrow> folded (zr_name r) = folded n"
proof -
  have m: "r \<in># mset (of_type (locate n z) q)" using assms(2) by simp
  have "r \<in> set (zone_recs z) \<and> qtype_matches q (rd_type (zr_rdata r)) \<and> owner_ok z n r"
    using m unfolding of_type_locate [OF assms(1)] by (auto simp: records_at_def owner_ok_def name_eq_folded split: NameKind.splits)
  moreover have "wf_name (zr_name r)" if "r \<in> set (zone_recs z)" using zone_okD(3) [OF assms(1)] that by (auto simp: record_ok_def)
  ultimately show "r \<in> set (zone_recs z) \<and> qtype_matches q (rd_type (zr_rdata r)) \<and> owner_ok z n r \<and> wf_name (zr_name r)" by blast
  show "name_kind n z = Exact \<Longrightarrow> folded (zr_name r) = folded n" using m unfolding of_type_locate [OF assms(1)] by (simp add: records_at_def)
qed

lemma zone_query_of_type: "zone_query n q z = of_type (locate n z) q"
  by (simp add: zone_query_def query_with_kind_def Let_def)

lemma greatest_in: "greatest es = Some e \<Longrightarrow> e \<in> set es"
  by (induction es arbitrary: e) (auto split: option.splits if_splits)

lemma chain_covering_in: "chain_covering k es = Some e \<Longrightarrow> e \<in> set es"
  by (auto simp: chain_covering_def dest!: greatest_in split: option.splits)

lemma covering_from:
  assumes "zone_ok z"
  shows "nsec_covering n z = Some r \<Longrightarrow> r \<in> set (zone_recs z)" "nsec3_covering h z = Some r \<Longrightarrow> r \<in> set (zone_recs z)"
proof -
  have at: "zone_record_at z p \<in> set (zone_recs z)" if "chain_lookup z k = Some p" for k p
    using zone_okD(9) [OF assms] that by (auto simp: chains_ok_def zone_recs_def zone_record_at_def)
  have n: "map_of (z_nsec z) k = Some p" if "(k, p) \<in> set (z_nsec z)" for k p using zone_okD(10) [OF assms] that by simp
  have n3: "map_of (z_nsec3 z) k = Some p" if "(k, p) \<in> set (z_nsec3 z)" for k p using zone_okD(11) [OF assms] that by simp
  show "nsec_covering n z = Some r \<Longrightarrow> r \<in> set (zone_recs z)"
    using at [of "CkNsec _"] n by (fastforce simp: nsec_covering_def chain_lookup_def dest!: chain_covering_in)
  show "nsec3_covering h z = Some r \<Longrightarrow> r \<in> set (zone_recs z)"
    using at [of "CkNsec3 _"] n3 by (fastforce simp: nsec3_covering_def chain_lookup_def dest!: chain_covering_in)
qed

text \<open>The proofs: every call pushes a record of the zone under its own name, its TTL cut to the ceiling.\<close>

definition proof_call :: "zone \<Rightarrow> ttl option \<Rightarrow> rw_call \<Rightarrow> bool" where
  "proof_call z cap c \<longleftrightarrow> (\<exists>r \<in> set (zone_recs z). c = push_as Authority (zr_name r) (capped cap (zr_ttl r)) r)"

definition proof_ok :: "zone \<Rightarrow> ttl option \<Rightarrow> proof_state \<Rightarrow> bool" where
  "proof_ok z cap st \<longleftrightarrow> wr_cap (fst st) = cap \<and> list_all (proof_call z cap) (snd st)"

lemma capped_ttl_le: "capped cap t \<le> t"
  by (simp add: capped_def split: option.split)

lemma signatures_at_calls: "zone_ok z \<Longrightarrow> list_all (proof_call z cap) (push_signatures_at z n t cap)"
  using of_type_from(1) by (fastforce simp: push_signatures_at_def Let_def list_all_iff proof_call_def)

lemma push_with_signatures_ok:
  assumes "zone_ok z" and "r \<in> set (zone_recs z)" and "proof_ok z cap st"
  shows "proof_ok z cap (snd (push_with_signatures z r st))"
proof -
  have "wr_cap (snd (claim r (fst st))) = wr_cap (fst st)" by (simp add: claim_def)
  then show ?thesis using assms signatures_at_calls [OF assms(1), of cap]
    by (auto simp: push_with_signatures_def Let_def case_prod_beta proof_ok_def proof_call_def)
qed

lemma push_each_ok:
  assumes "zone_ok z" and "set rs \<subseteq> set (zone_recs z)" and "proof_ok z cap st"
  shows "proof_ok z cap (snd (push_each z rs st))"
  using assms(2,3)
proof (induction rs arbitrary: st)
  case (Cons r rs)
  then have "proof_ok z cap (snd (push_with_signatures z r st))" using push_with_signatures_ok [OF assms(1)] by simp
  then show ?case using Cons by (simp add: Let_def case_prod_beta)
qed simp

lemma of_type_subset: "zone_ok z \<Longrightarrow> set (of_type (locate n z) q) \<subseteq> set (zone_recs z)"
  using of_type_from(1) by blast

lemma proof_steps_ok:
  assumes "zone_ok z" and "proof_ok z cap st"
  shows "proof_ok z cap (snd (push_matching sha1 c z n st))" "proof_ok z cap (push_covering sha1 c z n st)"
    "proof_ok z cap (push_nsec_covering z n st)" "proof_ok z cap (snd (match_at_name sha1 z n st))"
proof -
  note each = push_each_ok [OF assms(1) of_type_subset [OF assms(1)]] and one = push_with_signatures_ok [OF assms(1)]
  show m: "proof_ok z cap (snd (push_matching sha1 c z n st))" for c n
    using assms each by (simp add: push_matching_def split: option.split)
  show "proof_ok z cap (push_covering sha1 c z n st)"
    using assms one [OF covering_from(2) [OF assms(1)]] by (simp add: push_covering_def split: option.split)
  show "proof_ok z cap (push_nsec_covering z n st)"
    using assms one [OF covering_from(1) [OF assms(1)]] by (simp add: push_nsec_covering_def split: option.split)
  show "proof_ok z cap (snd (match_at_name sha1 z n st))"
    using assms m each by (simp add: match_at_name_def Let_def split: option.split)
qed

lemma proof_absence_ok:
  assumes "zone_ok z" and "proof_ok z cap st"
  shows "proof_ok z cap (push_absence sha1 c z n e st)" "proof_ok z cap (absence sha1 z n st)"
    "proof_ok z cap (deny_the_name_and_its_wildcard sha1 z n st)"
proof -
  note s = proof_steps_ok [OF assms(1)]
  show a: "proof_ok z cap (push_absence sha1 c z n e st)" for c e
    using s(1) [OF assms(2), of sha1 c e] s(2) by (simp add: push_absence_def Let_def case_prod_beta split: option.split)
  then show "proof_ok z cap (absence sha1 z n st)"
    using s(3) [OF assms(2)] assms(2) by (simp add: absence_def split: option.split)
  show "proof_ok z cap (deny_the_name_and_its_wildcard sha1 z n st)"
    using a s(2) s(3) assms(2) by (simp add: deny_the_name_and_its_wildcard_def push_wildcard_denial_def Let_def split: option.split sum.split)
qed

text \<open>The negative proof and the proof of absence: all of it under the zone's ceiling.\<close>

lemma negative_proof_calls:
  assumes "zone_ok z"
  shows "list_all (proof_call z (negative_ttl_cap z)) (push_proof_of_absence sha1 z n)"
    "list_all (proof_call z (negative_ttl_cap z)) (push_negative_proof sha1 z n kind)"
proof -
  let ?cap = "negative_ttl_cap z"
  note a = proof_absence_ok [OF assms] and s = proof_steps_ok [OF assms]
  have "proof_ok z ?cap (written_for z, [])" by (simp add: proof_ok_def written_for_def)
  from a(2) [OF this, of sha1 "to_folded n"] show "list_all (proof_call z ?cap) (push_proof_of_absence sha1 z n)"
    by (simp add: push_proof_of_absence_def proof_ok_def)
  have st: "proof_ok z ?cap (written_for z, push_soa_signatures z ?cap)"
    using signatures_at_calls [OF assms] by (simp add: proof_ok_def written_for_def push_soa_signatures_def)
  show "list_all (proof_call z ?cap) (push_negative_proof sha1 z n kind)"
    using a(2) [OF s(4) [OF st]] a(3) [OF st] s(4) [OF st]
    by (simp add: push_negative_proof_def Let_def proof_ok_def written_for_def split: NameKind.split)
qed

lemma proof_call_ok:
  assumes "zone_ok z" and "proof_call z cap c"
  shows "push_ok z Authority c"
  using zone_okD(3) [OF assms(1)] assms(2) capped_ttl_le
  by (fastforce simp: proof_call_def push_ok_def push_as_def from_zone_def record_ok_def owner_ok_def name_eq_folded)

lemma pushes_proofs:
  assumes "zone_ok z"
  shows "pushes z Authority (push_proof_of_absence sha1 z n)" "pushes z Authority (push_negative_proof sha1 z n kind)"
    "pushes z Authority (push_delegation_proof sha1 z m)"
proof -
  have p: "list_all (proof_call z cap) cs \<Longrightarrow> pushes z Authority cs" for cap cs
    using proof_call_ok [OF assms] by (auto simp: list_all_iff)
  show "pushes z Authority (push_proof_of_absence sha1 z n)" "pushes z Authority (push_negative_proof sha1 z n kind)"
    using p negative_proof_calls [OF assms] by blast+
  have ds: "pushes z Authority (map (\<lambda>r. push_as Authority (zr_name r) (zr_ttl r) r) (of_type (locate k z) rt_DS))" for k
    using of_type_from(1) [OF assms] by (intro pushes_map) (auto simp: owner_ok_def name_eq_folded)
  have "proof_ok z (negative_ttl_cap z) (written_for z, [])" by (simp add: proof_ok_def written_for_def)
  from proof_steps_ok(4) [OF assms this]
  have m: "proof_ok z (negative_ttl_cap z) (snd (match_at_name sha1 z k (written_for z, [])))" for k .
  have st: "pushes z Authority (snd st)" if "proof_ok z cap st" for cap st using that p by (auto simp: proof_ok_def)
  show "pushes z Authority (push_delegation_proof sha1 z m)"
    using ds p [OF signatures_at_calls [OF assms]] st [OF m] st [OF proof_absence_ok(2) [OF assms m]]
    by (simp add: push_delegation_proof_def Let_def case_prod_beta)
qed

text \<open>The sections.\<close>

lemma pushes_answer:
  assumes "zone_ok z" and "wf_name n"
  shows "pushes z Answer (fst (add_answer (locate n z) n q d))" "pushes z Answer (fst (add_answer (locate (folded n) z) n q d))"
proof -
  have o: "owner_ok z (folded n) r \<longleftrightarrow> owner_ok z n r" for r by (simp add: owner_ok_def name_eq_folded name_kind_def)
  have l: "lc_zone (locate m z) = z" for m by (simp add: locate_def Let_def)
  show "pushes z Answer (fst (add_answer (locate n z) n q d))"
    using of_type_from(1) [OF assms(1)] assms(2)
    by (auto simp: add_answer_def push_answer_signatures_def answer_signatures_def Let_def case_prod_beta intro!: pushes_map)
  show "pushes z Answer (fst (add_answer (locate (folded n) z) n q d))"
    using of_type_from(1) [OF assms(1), of _ "folded n"] assms(2)
    by (auto simp: o add_answer_def push_answer_signatures_def answer_signatures_def Let_def case_prod_beta intro!: pushes_map)
qed

section \<open>What the walk finds\<close>

text \<open>
  A cut above a name is occluded when a DNAME strictly above the name lies at or above the cut
  (RFC 6672). The cut that ends the zone's authority at a name, of the records alone: the deepest one
  at or above it, unless it is occluded, or is at the name itself and its DS is asked for.
\<close>

definition occluded :: "zone_record list \<Rightarrow> bytes \<Rightarrow> bytes \<Rightarrow> bytes \<Rightarrow> bool" where
  "occluded rs og k c \<longleftrightarrow> (\<exists>d. dname_node rs og (tl (ancestors k)) d \<and> d \<in> set (ancestors c))"

definition cut_off :: "zone \<Rightarrow> qtype \<Rightarrow> name \<Rightarrow> bytes \<Rightarrow> bool" where
  "cut_off z q n c \<longleftrightarrow> (let rs = zone_recs z; og = origin_key z; k = folded n in
     deepest (cut_above rs og k) c \<and> \<not> occluded rs og k c \<and> \<not> (q = rt_DS \<and> c = k))"

definition stays :: "zone \<Rightarrow> qtype \<Rightarrow> name \<Rightarrow> bool" where
  "stays z q n \<longleftrightarrow> \<not> (\<exists>c. cut_off z q n c)"

text \<open>
  Following the aliases of a zone from one name to another, for a type: a hop starts in the zone, at a
  name the zone speaks for; a CNAME is followed where no DNAME is above and the name has no record of
  the type, and not when CNAMEs are asked for.
\<close>

inductive redirected :: "zone \<Rightarrow> qtype \<Rightarrow> name \<Rightarrow> hop list \<Rightarrow> name \<Rightarrow> bool" for z q where
  rd_here: "redirected z q n [] n"
| rd_cname: "in_zone z n \<Longrightarrow> stays z q n \<Longrightarrow> dname_above n z = None \<Longrightarrow> zone_query n q z = [] \<Longrightarrow> q \<noteq> rt_CNAME \<Longrightarrow>
    zone_query n rt_CNAME z = r # rs \<Longrightarrow> rdata_parse (zr_rdata r) = Inr (PCNAME t) \<Longrightarrow>
    redirected z q t hs m \<Longrightarrow> redirected z q n (HopCname n # hs) m"
| rd_dname: "in_zone z n \<Longrightarrow> stays z q n \<Longrightarrow> dname_above n z = Some r \<Longrightarrow> rdata_parse (zr_rdata r) = Inr (PDNAME t) \<Longrightarrow>
    dname_redirect n (zr_name r) t = To n' \<Longrightarrow> redirected z q n' hs m \<Longrightarrow>
    redirected z q n (HopDname (zr_name r) n (Some n') (zr_ttl r) (zr_class r) # hs) m"

lemma redirected_trans: "redirected z q n hs m \<Longrightarrow> redirected z q m js k \<Longrightarrow> redirected z q n (hs @ js) k"
  by (induction rule: redirected.induct) (auto intro: redirected.intros)

text \<open>The zone speaks for a name: no DNAME above it, and no cut at or above it but one at it when its DS is asked.\<close>

definition authoritative :: "zone \<Rightarrow> qtype \<Rightarrow> name \<Rightarrow> bool" where
  "authoritative z q m \<longleftrightarrow> (let rs = zone_recs z; og = origin_key z; k = folded m in
     \<not> (\<exists>c. dname_node rs og (tl (ancestors k)) c) \<and>
     ((\<exists>c. cut_above rs og k c) \<longrightarrow> q = rt_DS \<and> deepest (cut_above rs og k) k))"

text \<open>Why a chain ends without an answer from this zone.\<close>

definition leaves :: "zone \<Rightarrow> qtype \<Rightarrow> name \<Rightarrow> hop list \<Rightarrow> name \<Rightarrow> bool" where
  "leaves z q n chain m \<longleftrightarrow> chain \<noteq> [] \<and>
     (\<not> in_zone z m \<or> (\<exists>c. cut_off z q m c) \<or>
      (\<exists>hs js v. chain = hs @ js \<and> hs \<noteq> [] \<and> js \<noteq> [] \<and> redirected z q n hs v \<and> name_eq v m) \<or> length chain = MAX_REDIRECTS)"

fun outcome_ok :: "zone \<Rightarrow> qtype \<Rightarrow> name \<Rightarrow> outcome \<Rightarrow> bool" where
  "outcome_ok z q n (ToReferral c) \<longleftrightarrow> cut_off z q n c"
| "outcome_ok z q n (ToAnswer chain m at) \<longleftrightarrow>
     redirected z q n chain m \<and> wf_name m \<and> in_zone z m \<and> authoritative z q m \<and> at = locate m z \<and> zone_query m q z \<noteq> []"
| "outcome_ok z q n (ToNegative chain m kind) \<longleftrightarrow>
     redirected z q n chain m \<and> wf_name m \<and> in_zone z m \<and> authoritative z q m \<and> kind = name_kind m z \<and> zone_query m q z = [] \<and>
     (q = rt_CNAME \<or> cname_target (locate m z) = None)"
| "outcome_ok z q n (ToChainLeftZone chain) \<longleftrightarrow> (\<exists>m. redirected z q n chain m \<and> leaves z q n chain m)"
| "outcome_ok z q n (ToStopped chain rcode) \<longleftrightarrow>
     (\<exists>hs m r. redirected z q n hs m \<and> wf_name m \<and> in_zone z m \<and> stays z q m \<and> dname_above m z = Some r \<and>
       (case rdata_parse (zr_rdata r) of
          Inr (PDNAME t) \<Rightarrow> dname_redirect m (zr_name r) t = RTooLong \<and> rcode = DomainExistsForSomeReason \<and>
            chain = hs @ [HopDname (zr_name r) m None (zr_ttl r) (zr_class r)]
        | _ \<Rightarrow> rcode = ServerFailure \<and> chain = hs))"

lemma folded_lookups [simp]:
  "dname_above (folded n) z = dname_above n z" "delegation_for (folded n) z = delegation_for n z" "locate (folded n) z = locate n z"
  by (simp_all add: dname_above_def delegation_for_def locate_def)

lemma locate_kind: "lc_kind (locate n z) = name_kind n z"
  by (simp add: locate_def name_kind_def Let_def)

lemma dname_redirect_wf:
  assumes "wf_name n" and "wf_name c" and "wf_name t" and "dname_redirect n c t = To m"
  shows "wf_name m"
proof -
  obtain ln lc lt where l: "labels_ok ln" "n = wire_of ln" "labels_ok lc" "c = wire_of lc" "labels_ok lt" "t = wire_of lt"
    using assms(1-3) by (auto elim!: wf_nameE)
  have "labels_ok (take k ln)" for k using l(1) by (metis append_take_drop_id labels_ok_simps(3))
  then show ?thesis using dname_redirect_correct [OF l(1,3,5)] assms(4) l by (auto simp: Let_def split: if_splits)
qed

lemma strict_ancestor_shorter: "a \<in> set (tl (ancestors w)) \<Longrightarrow> length a < length w"
proof (cases "parent w")
  case (Some p)
  assume "a \<in> set (tl (ancestors w))"
  then have "a \<in> set (ancestors p)" using Some by (simp add: ancestors_parent)
  then show ?thesis using ancestors_length [of a p] parent_shorter [OF Some] by auto
qed (simp add: ancestors_no_parent)

lemma dname_redirect_matches:
  assumes "wf_name n" and "wf_name c" and "folded c \<in> set (tl (ancestors (folded n)))" and "wf_name t"
  shows "dname_redirect n c t \<noteq> NoMatch"
proof -
  have "is_at_or_under n c" using within_folded [OF assms(1,2)] assms(3) by (metis ancestors.simps list.sel(3) list.set_intros(2))
  moreover have "\<not> name_eq n c"
  proof
    assume "name_eq n c"
    then have "length (folded c) = length (folded n)" by (simp add: name_eq_folded)
    then show False using strict_ancestor_shorter [OF assms(3)] by simp
  qed
  ultimately show ?thesis by (simp add: dname_redirect_def Let_def split: sum.split)
qed

lemma parsed_target_wf:
  "rdata_parse d = Inr (PCNAME t) \<Longrightarrow> wf_name t" "rdata_parse d = Inr (PDNAME t) \<Longrightarrow> wf_name t" "rdata_parse d = Inr (PNS t) \<Longrightarrow> wf_name t"
  using decode_storable unfolding rdata_parse_def by (fastforce simp: storable_def)+

lemma dname_above_facts:
  assumes "zone_ok z" and "wf_name m" and "in_zone z m" and "dname_above m z = Some r"
  shows "r \<in> set (zone_recs z)" "wf_name (zr_name r)" "rdata_parse (zr_rdata r) = Inr (PDNAME t) \<Longrightarrow> dname_redirect m (zr_name r) t \<noteq> NoMatch"
proof -
  have r: "r \<in> set (zone_recs z)" "dname_node (zone_recs z) (folded (z_origin z)) (tl (ancestors (folded m))) (folded (zr_name r))"
    using referrals [OF assms(1,2)] assms(3,4) by (auto simp: in_zone_def)
  then show "r \<in> set (zone_recs z)" by simp
  show wf: "wf_name (zr_name r)" using zone_okD(3) [OF assms(1)] r(1) by (auto simp: record_ok_def)
  show "rdata_parse (zr_rdata r) = Inr (PDNAME t) \<Longrightarrow> dname_redirect m (zr_name r) t \<noteq> NoMatch"
    using dname_redirect_matches [OF assms(2) wf] r(2) parsed_target_wf(2) by (auto simp: dname_node_def)
qed

lemma ancestor_drop: "a \<in> set (ancestors w) \<Longrightarrow> \<exists>k. a = drop k w"
proof (induction w rule: ancestors.induct)
  case (1 w)
  show ?case
  proof (cases "parent w")
    case (Some p)
    then obtain j where "p = drop j w" by (cases w) (auto split: if_splits intro: that [of "Suc _"])
    then show ?thesis using 1 Some by (metis ancestors_parent drop_0 drop_drop set_ConsD)
  qed (use 1 in \<open>auto simp: ancestors_no_parent intro: exI [of _ 0]\<close>)
qed

lemma ancestor_folded: "a \<in> set (ancestors (folded w)) \<Longrightarrow> folded a = a"
  by (auto dest!: ancestor_drop simp: folded_lower lower_def drop_map [symmetric] comp_def)

text \<open>The test of the loop is the one on the records: the DNAME above is the shallowest, so it occludes what any does.\<close>

lemma cut_ends_iff:
  assumes "zone_ok z" and "wf_name m" and "in_zone z m" and "delegation_for m z = Some c"
  shows "cut_ends (dname_above m z) q m c \<longleftrightarrow> cut_off z q m c"
proof -
  let ?rs = "zone_recs z" and ?og = "folded (z_origin z)" and ?k = "folded m"
  note r = referrals [OF assms(1,2) assms(3) [unfolded in_zone_def]]
  have deep: "deepest (cut_above ?rs ?og ?k) c" using r assms(4) by blast
  then have c: "c \<in> set (ancestors ?k)" "typed_at ?rs c rt_NS" by (simp_all add: deepest_def cut_above_def)
  have fc: "folded c = c" by (rule ancestor_folded [OF c(1)])
  obtain nr where nr: "nr \<in> set ?rs" "folded (zr_name nr) = c" using c(2) by (auto simp: typed_at_def)
  have under: "is_at_or_under c d \<longleftrightarrow> folded d \<in> set (ancestors c)" if "wf_name d" for d
  proof -
    have "wf_name (zr_name nr)" using zone_okD(3) [OF assms(1)] nr(1) by (auto simp: record_ok_def)
    then show ?thesis using within_folded [OF wf_folded(1) that, of "zr_name nr"] by (simp add: nr(2) fc)
  qed
  have "(case dname_above m z of None \<Rightarrow> False | Some d \<Rightarrow> is_at_or_under c (zr_name d)) \<longleftrightarrow> occluded ?rs ?og ?k c"
  proof (cases "dname_above m z")
    case None
    then show ?thesis using r by (auto simp: occluded_def)
  next
    case (Some d)
    then have d: "dname_node ?rs ?og (tl (ancestors ?k)) (folded (zr_name d))"
      "\<And>e. dname_node ?rs ?og (tl (ancestors ?k)) e \<Longrightarrow> length (folded (zr_name d)) \<le> length e" using r by auto
    have anc: "e \<in> set (ancestors ?k)" if "dname_node ?rs ?og (tl (ancestors ?k)) e" for e
      using that by (metis dname_node_def list.set_sel(2) list.sel(2))
    have "folded (zr_name d) \<in> set (ancestors c)" if "dname_node ?rs ?og (tl (ancestors ?k)) e" "e \<in> set (ancestors c)" for e
      using ancestors_trans [OF ancestors_linear [OF anc [OF d(1)] anc [OF that(1)] d(2) [OF that(1)]] that(2)] .
    then show ?thesis using Some d(1) under [OF dname_above_facts(2) [OF assms(1-3) Some]] by (auto simp: occluded_def)
  qed
  then show ?thesis using deep by (simp add: cut_ends_def cut_off_def Let_def origin_key_def name_eq_folded fc)
qed

lemma stays_iff:
  assumes "zone_ok z" and "wf_name m" and "in_zone z m"
  shows "stays z q m \<longleftrightarrow> (\<forall>c. delegation_for m z = Some c \<longrightarrow> \<not> cut_ends (dname_above m z) q m c)"
proof -
  note r = referrals [OF assms(1,2) assms(3) [unfolded in_zone_def]]
  have "delegation_for m z = Some c" if "cut_off z q m c" for c
  proof -
    have c: "deepest (cut_above (zone_recs z) (folded (z_origin z)) (folded m)) c"
      using that by (simp add: cut_off_def Let_def origin_key_def)
    then have "delegation_for m z \<noteq> None" using r by (auto simp: deepest_def)
    then obtain d where d: "delegation_for m z = Some d" by blast
    then have dd: "deepest (cut_above (zone_recs z) (folded (z_origin z)) (folded m)) d" using r by blast
    have "length c = length d" using c dd by (auto simp: deepest_def intro: antisym)
    then have "c = d" using c dd by (intro ancestors_length_inj [of _ "folded m"]) (auto simp: deepest_def cut_above_def)
    then show ?thesis using d by simp
  qed
  then show ?thesis using cut_ends_iff [OF assms] unfolding stays_def by blast
qed

lemma authoritativeI:
  assumes "zone_ok z" and "wf_name m" and "in_zone z m" and "dname_above m z = None"
    and "\<And>c. delegation_for m z = Some c \<Longrightarrow> q = rt_DS \<and> name_eq c m"
  shows "authoritative z q m"
proof -
  note r = referrals [OF assms(1,2) assms(3) [unfolded in_zone_def]]
  have f: "folded c = c" if "cut_above (zone_recs z) (folded (z_origin z)) (folded m) c" for c
    using that by (auto simp: cut_above_def intro: ancestor_folded)
  have "q = rt_DS \<and> deepest (cut_above (zone_recs z) (folded (z_origin z)) (folded m)) (folded m)"
    if cut: "cut_above (zone_recs z) (folded (z_origin z)) (folded m) c" for c
  proof -
    have "delegation_for m z \<noteq> None" unfolding conjunct1 [OF r] using cut by auto
    then obtain d where d1: "delegation_for m z = Some d" by auto
    note d = d1 mp [OF spec [OF conjunct1 [OF conjunct2 [OF r]]] d1]
    have fd: "folded d = d" by (rule f) (use d(2) in \<open>simp add: deepest_def\<close>)
    have q: "q = rt_DS" "folded d = folded m" using assms(5) [OF d1] by (simp_all add: name_eq_folded)
    show ?thesis using d(2) q(1) fd unfolding q(2) by simp
  qed
  moreover have "\<not> (\<exists>c. dname_node (zone_recs z) (folded (z_origin z)) (tl (ancestors (folded m))) c)"
    using conjunct1 [OF conjunct2 [OF conjunct2 [OF r]]] assms(4) by blast
  ultimately show ?thesis unfolding authoritative_def Let_def origin_key_def by blast
qed

text \<open>The invariant of the loop: how the name was reached, the names visited on the way, and the passes used.\<close>

definition walk_ok :: "zone \<Rightarrow> qtype \<Rightarrow> name \<Rightarrow> nat \<Rightarrow> name \<Rightarrow> hop list \<Rightarrow> name list \<Rightarrow> bool" where
  "walk_ok z q n k m chain visited \<longleftrightarrow> redirected z q n chain m \<and> wf_name m \<and> in_zone z m \<and> length chain + k = MAX_REDIRECTS \<and>
     (\<forall>v \<in> set visited. \<exists>hs js. chain = hs @ js \<and> hs \<noteq> [] \<and> redirected z q n hs v)"

lemma walk_on:
  assumes "walk_ok z q n (Suc k) m chain visited" and "redirected z q m [h] m'" and "wf_name m'" and "in_zone z m'"
  shows "walk_ok z q n k m' (chain @ [h]) (visited @ [m'])"
proof -
  have "redirected z q n (chain @ [h]) m'" using redirected_trans assms(1,2) by (auto simp: walk_ok_def)
  moreover have "\<exists>hs js. chain @ [h] = hs @ js \<and> hs \<noteq> [] \<and> redirected z q n hs v" if mem: "v \<in> set (visited @ [m'])" for v
  proof (cases "v = m'")
    case True
    then show ?thesis using calculation by (intro exI [of _ "chain @ [h]"] exI [of _ "[]"]) simp
  next
    case False
    then have "v \<in> set visited" using mem by simp
    then obtain hs js where "chain = hs @ js" "hs \<noteq> []" "redirected z q n hs v" using assms(1) unfolding walk_ok_def by blast
    then show ?thesis by (intro exI [of _ hs] exI [of _ "js @ [h]"]) simp
  qed
  ultimately show ?thesis using assms by (simp add: walk_ok_def)
qed

lemma walk_left:
  assumes "walk_ok z q n (Suc k) m chain visited" and "redirected z q m [h] m'" and "\<not> in_zone z m' \<or> was_visited visited m'"
  shows "redirected z q n (chain @ [h]) m' \<and> leaves z q n (chain @ [h]) m'"
proof -
  have "redirected z q n (chain @ [h]) m'" using redirected_trans assms(1,2) by (auto simp: walk_ok_def)
  moreover have "\<exists>hs js v. chain @ [h] = hs @ js \<and> hs \<noteq> [] \<and> js \<noteq> [] \<and> redirected z q n hs v \<and> name_eq v m'" if seen_before: "was_visited visited m'"
  proof -
    obtain v where "v \<in> set visited" "name_eq v m'" using seen_before by (auto simp: was_visited_def)
    then obtain hs js where v: "name_eq v m'" "chain = hs @ js" "hs \<noteq> []" "redirected z q n hs v"
      using assms(1) unfolding walk_ok_def by blast
    then show ?thesis by (intro exI [of _ hs] exI [of _ "js @ [h]"] exI [of _ v]) simp
  qed
  ultimately show ?thesis using assms(3) by (auto simp: leaves_def)
qed

lemma resolve_data_dname:
  assumes ok: "zone_ok z" and w: "walk_ok z q n (Suc k) m chain visited" and d: "dname_above m z = Some r" and stay: "stays z q m"
    and IH: "\<And>m' chain visited. walk_ok z q n k m' chain visited \<Longrightarrow> outcome_ok z q n (resolve_loop k z q m' chain visited)"
  shows "outcome_ok z q n (resolve_data k z q m chain visited (Some r))"
proof -
  have m: "redirected z q n chain m" "wf_name m" "in_zone z m" using w by (simp_all add: walk_ok_def)
  note f = dname_above_facts [OF ok m(2,3) d]
  show ?thesis
  proof (cases "\<exists>t. rdata_parse (zr_rdata r) = Inr (PDNAME t)")
    case True
    then obtain t where t: "rdata_parse (zr_rdata r) = Inr (PDNAME t)" by blast
    show ?thesis
    proof (cases "dname_redirect m (zr_name r) t")
      case (To m')
      let ?h = "HopDname (zr_name r) m (Some m') (zr_ttl r) (zr_class r)"
      have h: "redirected z q m [?h] m'" using rd_dname [OF m(3) stay d t To rd_here] .
      have wf: "wf_name m'" using dname_redirect_wf [OF m(2) f(2) parsed_target_wf(2) [OF t] To] .
      have e: "resolve_data k z q m chain visited (Some r) =
          (if \<not> in_zone z m' \<or> was_visited visited m' then ToChainLeftZone (chain @ [?h]) else resolve_loop k z q m' (chain @ [?h]) (visited @ [m']))"
        using t To by (simp add: redirect_through_def)
      show ?thesis unfolding e using walk_left [OF w h] IH [OF walk_on [OF w h wf]] by auto
    next
      case NoMatch
      then show ?thesis using f(3) [OF t] by simp
    next
      case RTooLong
      then have "resolve_data k z q m chain visited (Some r) =
          ToStopped (chain @ [HopDname (zr_name r) m None (zr_ttl r) (zr_class r)]) DomainExistsForSomeReason"
        using t by (simp add: redirect_through_def)
      then show ?thesis using RTooLong t d m stay by (simp only: outcome_ok.simps) (rule exI [of _ chain], rule exI [of _ m], rule exI [of _ r], simp)
    qed
  next
    case False
    then have "redirect_through r m chain = (Inl ServerFailure, chain)"
      by (auto simp: redirect_through_def split: sum.split parsed_record.split)
    then have e: "resolve_data k z q m chain visited (Some r) = ToStopped chain ServerFailure" by simp
    have "case rdata_parse (zr_rdata r) of
        Inr (PDNAME t) \<Rightarrow> dname_redirect m (zr_name r) t = RTooLong \<and> ServerFailure = DomainExistsForSomeReason \<and>
          chain = chain @ [HopDname (zr_name r) m None (zr_ttl r) (zr_class r)]
      | _ \<Rightarrow> ServerFailure = ServerFailure \<and> chain = chain"
      using False by (auto split: sum.split parsed_record.split)
    then show ?thesis unfolding e outcome_ok.simps using d m stay by (intro exI [of _ chain] exI [of _ m] exI [of _ r] conjI)
  qed
qed

lemma resolve_data_plain:
  assumes ok: "zone_ok z" and w: "walk_ok z q n (Suc k) m chain visited" and d: "dname_above m z = None" and stay: "stays z q m"
    and IH: "\<And>m' chain visited. walk_ok z q n k m' chain visited \<Longrightarrow> outcome_ok z q n (resolve_loop k z q m' chain visited)"
  shows "outcome_ok z q n (resolve_data k z q m chain visited None)"
proof -
  have m: "redirected z q n chain m" "wf_name m" "in_zone z m" using w by (simp_all add: walk_ok_def)
  have a: "authoritative z q m" using stay [unfolded stays_iff [OF ok m(2,3)]] d
    by (intro authoritativeI [OF ok m(2,3) d]) (auto simp: cut_ends_def)
  show ?thesis
  proof (cases "zone_query m q z = [] \<and> q \<noteq> rt_CNAME \<and> cname_target (locate m z) \<noteq> None")
    case False
    then show ?thesis using m a by (auto simp: Let_def located_has_type_def zone_query_of_type locate_kind)
  next
    case True
    then obtain r rs m' where c: "zone_query m rt_CNAME z = r # rs" "rdata_parse (zr_rdata r) = Inr (PCNAME m')" "cname_target (locate m z) = Some m'"
      by (auto simp: cname_target_def zone_query_of_type split: list.splits sum.splits parsed_record.splits)
    have h: "redirected z q m [HopCname m] m'" using rd_cname [OF m(3) stay d _ _ c(1,2) rd_here] True by blast
    have e: "resolve_data k z q m chain visited None =
        (if \<not> in_zone z m' \<or> was_visited visited m' then ToChainLeftZone (chain @ [HopCname m]) else resolve_loop k z q m' (chain @ [HopCname m]) (visited @ [m']))"
      using True c(3) by (simp add: Let_def located_has_type_def zone_query_of_type)
    show ?thesis unfolding e using walk_left [OF w h] IH [OF walk_on [OF w h parsed_target_wf(1) [OF c(2)]]] by auto
  qed
qed

lemma resolve_loop_ok:
  assumes "zone_ok z" and "walk_ok z q n k m chain visited"
  shows "outcome_ok z q n (resolve_loop k z q m chain visited)"
  using assms(2)
proof (induction k arbitrary: m chain visited)
  case 0
  then show ?case by (auto simp: walk_ok_def leaves_def MAX_REDIRECTS_def)
next
  case (Suc k)
  have m: "redirected z q n chain m" "wf_name m" "in_zone z m" using Suc.prems by (simp_all add: walk_ok_def)
  note data = resolve_data_dname [OF assms(1) Suc.prems _ _ Suc.IH] resolve_data_plain [OF assms(1) Suc.prems _ _ Suc.IH]
  show ?case
  proof (cases "\<exists>c. delegation_for m z = Some c \<and> cut_ends (dname_above m z) q m c")
    case True
    then obtain c where c: "delegation_for m z = Some c" "cut_ends (dname_above m z) q m c" by blast
    then have off: "cut_off z q m c" using cut_ends_iff [OF assms(1) m(2,3)] by blast
    show ?thesis
    proof (cases chain)
      case Nil
      then have "n = m" using m(1) by (auto elim: redirected.cases)
      then show ?thesis using Nil c off by (simp add: Let_def)
    next
      case (Cons h hs)
      moreover have "leaves z q n chain m" using Cons off by (auto simp: leaves_def)
      ultimately show ?thesis using c m(1) by (auto simp: Let_def)
    qed
  next
    case False
    then have e: "resolve_loop (Suc k) z q m chain visited = resolve_data k z q m chain visited (dname_above m z)"
      by (auto simp: Let_def simp del: resolve_data.simps split: option.split)
    have stay: "stays z q m" using False stays_iff [OF assms(1) m(2,3)] by blast
    show ?thesis
    proof (cases "dname_above m z")
      case None
      then show ?thesis unfolding e None using data(2) [OF None stay] by simp
    next
      case (Some d)
      then show ?thesis unfolding e Some using data(1) [OF Some stay] by simp
    qed
  qed
qed

lemma resolve_in_zone_ok:
  assumes "zone_ok z" and "wf_name n" and "in_zone z n"
  shows "outcome_ok z q n (resolve_in_zone z n q)"
  unfolding resolve_in_zone_def using assms by (intro resolve_loop_ok) (auto simp: walk_ok_def rd_here)

section \<open>The reply as a whole\<close>

text \<open>A hop whose records are the zone's.\<close>

definition hop_ok :: "zone \<Rightarrow> hop \<Rightarrow> bool" where
  "hop_ok z h \<longleftrightarrow> wf_name (hop_owner h) \<and>
     (case h of
        HopCname _ \<Rightarrow> True
      | HopDname owner from to t c \<Rightarrow> wf_name from \<and>
          (\<exists>r \<in> set (zone_recs z). zr_name r = owner \<and> zr_ttl r = t \<and> zr_class r = c \<and>
            (\<exists>target. rdata_parse (zr_rdata r) = Inr (PDNAME target) \<and> (\<forall>n. to = Some n \<longrightarrow> dname_redirect from owner target = To n))))"

lemma redirected_hops:
  assumes "zone_ok z" and "redirected z q n hs m" and "wf_name n"
  shows "list_all (hop_ok z) hs"
  using assms(2,3)
proof (induction rule: redirected.induct)
  case (rd_cname n r rs t hs m)
  then show ?case using parsed_target_wf(1) by (simp add: hop_ok_def)
next
  case (rd_dname n r t n' hs m)
  note f = dname_above_facts [OF assms(1) rd_dname.prems rd_dname.hyps(1,3)]
  have "wf_name n'" using dname_redirect_wf [OF rd_dname.prems f(2) parsed_target_wf(2)] rd_dname.hyps by blast
  then show ?case using rd_dname f(1,2) by (auto simp: hop_ok_def)
qed simp

lemma outcome_hops:
  assumes "zone_ok z" and "outcome_ok z q n out" and "wf_name n"
  shows "case out of ToReferral c \<Rightarrow> wf_name c | ToAnswer chain m at \<Rightarrow> list_all (hop_ok z) chain | ToNegative chain m kind \<Rightarrow> list_all (hop_ok z) chain
    | ToChainLeftZone chain \<Rightarrow> list_all (hop_ok z) chain | ToStopped chain rc \<Rightarrow> list_all (hop_ok z) chain"
proof (cases out)
  case (ToReferral c)
  then have "c \<in> set (ancestors (folded n))" using assms(2) by (simp add: cut_off_def Let_def deepest_def cut_above_def)
  then show ?thesis using wf_ancestor [OF wf_folded(1) [OF assms(3)]] ToReferral by simp
next
  case (ToStopped chain rc)
  then obtain hs m r where s: "redirected z q n hs m" "wf_name m" "in_zone z m" "dname_above m z = Some r"
    "case rdata_parse (zr_rdata r) of
       Inr (PDNAME t) \<Rightarrow> dname_redirect m (zr_name r) t = RTooLong \<and> rc = DomainExistsForSomeReason \<and> chain = hs @ [HopDname (zr_name r) m None (zr_ttl r) (zr_class r)]
     | _ \<Rightarrow> rc = ServerFailure \<and> chain = hs"
    using assms(2) by auto
  note f = dname_above_facts [OF assms(1) s(2-4)] and h = redirected_hops [OF assms(1) s(1) assms(3)]
  then show ?thesis using s ToStopped by (auto simp: hop_ok_def split: sum.splits parsed_record.splits)
qed (use assms redirected_hops in auto)

lemma cname_encoded: "rdata_from_parsed (PCNAME n) = Inr \<lparr>rd_type = rt_CNAME, rd_bytes = n\<rparr>"
  by (simp add: rdata_from_parsed_def encode_def)

lemma pushes_synthesized: "hop_ok z h \<Longrightarrow> pushes z Answer (synthesized_cname h)"
  by (auto simp: synthesized_cname_def hop_ok_def cname_encoded push_ok_def from_dname_def split: hop.splits option.splits)

lemma pushes_chain:
  assumes "zone_ok z" and "list_all (hop_ok z) hs"
  shows "pushes z Answer (fst (add_chain_from i z hs d owed))"
  using assms(2)
proof (induction hs arbitrary: i owed)
  case (Cons h hs)
  then have "pushes z Answer (fst (add_answer (locate (hop_owner h) z) (hop_owner h) (hop_qtype h) d))"
    using pushes_answer(1) [OF assms(1)] by (simp add: hop_ok_def)
  then show ?case using Cons pushes_synthesized by (simp add: Let_def case_prod_beta)
qed simp

lemma pushes_denials:
  assumes "zone_ok z"
  shows "pushes z Authority (add_chain_denials sha1 z hs owed)"
  using pushes_proofs(1) [OF assms] by (auto simp: add_chain_denials_def intro!: pushes_concat)

lemma ns_parsed: "(case rdata_parse d of Inr (PNS target) \<Rightarrow> Some target | _ \<Rightarrow> None) = Some t \<Longrightarrow> rdata_parse d = Inr (PNS t)"
  by (simp split: sum.splits parsed_record.splits)

lemma pushes_refer:
  assumes "zone_ok z" and "wf_name c"
  shows "pushes z Authority (map (\<lambda>r. push_as Authority c (zr_ttl r) r) (zone_query c rt_NS z))"
    and "pushes z Additional (concat (map (glue_for z) (ns_targets (zone_query c rt_NS z))))"
proof -
  show "pushes z Authority (map (\<lambda>r. push_as Authority c (zr_ttl r) r) (zone_query c rt_NS z))"
    using of_type_from(1) [OF assms(1)] assms(2) by (intro pushes_map) (auto simp: zone_query_of_type)
  have "pushes z Additional (glue_for z t)" if "wf_name t" for t
    using of_type_from(1) [OF assms(1)] that by (auto simp: glue_for_def zone_query_of_type intro!: pushes_map)
  moreover have "wf_name t" if "t \<in> set (ns_targets rs)" for t rs
    using that ns_parsed parsed_target_wf(3) by (auto simp: ns_targets_def List.map_filter_def)
  ultimately show "pushes z Additional (concat (map (glue_for z) (ns_targets (zone_query c rt_NS z))))"
    by (auto intro!: pushes_concat)
qed

lemma pushes_negative:
  assumes "zone_ok z"
  shows "\<exists>cs. pushes z Authority cs \<and> add_negative sha1 z n kind d = (if kind = NotFound then [SetRcode NoSuchDomain] else []) @ cs"
proof -
  have "answer_negative_ttl r \<le> zr_ttl r" for r
    by (auto simp: answer_negative_ttl_def ttl_negative_answer_def split: option.split)
  moreover have "r \<in> set (zone_recs z) \<and> owner_ok z (z_origin z) r" if "r \<in> set (zone_query (z_origin z) rt_SOA z)" for r
    using of_type_from(1) [OF assms] that by (auto simp: zone_query_of_type)
  ultimately have "pushes z Authority (map (\<lambda>soa. push_as Authority (z_origin z) (answer_negative_ttl soa) soa) (zone_query (z_origin z) rt_SOA z))"
    using zone_okD(1) [OF assms] by (intro pushes_map) auto
  then show ?thesis using pushes_proofs(2) [OF assms] by (auto simp: add_negative_def)
qed

text \<open>The shape of every reply: answers, then authority, then additional records; calls on the header stand anywhere.\<close>

definition block :: "zone \<Rightarrow> section_id \<Rightarrow> rw_call list \<Rightarrow> bool" where
  "block z sect cs \<longleftrightarrow> (\<forall>s rr. Push s rr \<in> set cs \<longrightarrow> push_ok z sect (Push s rr))"

lemma block_simps [simp]: "block z s []" "block z s (as @ bs) \<longleftrightarrow> block z s as \<and> block z s bs"
    "block z s (SetRcode rc # cs) \<longleftrightarrow> block z s cs" "block z s (SetAuthoritative b # cs) \<longleftrightarrow> block z s cs"
  by (auto simp: block_def)

lemma pushes_block: "pushes z s cs \<Longrightarrow> block z s cs"
  by (auto simp: block_def list_all_iff)

lemma zone_answer_shape:
  assumes "zone_ok z" and "wf_name n" and "in_zone z n"
  obtains as bs cs where "zone_answer sha1 z n q d = as @ bs @ cs" "block z Answer as" "block z Authority bs" "block z Additional cs"
proof -
  note out = resolve_in_zone_ok [OF assms, of q] and h = outcome_hops [OF assms(1) resolve_in_zone_ok [OF assms, of q] assms(2)]
  have ch: "block z Answer (fst (add_chain z hs d))" if "list_all (hop_ok z) hs" for hs
    using pushes_chain [OF assms(1) that] by (simp add: add_chain_def pushes_block)
  have den: "block z Authority (add_chain_denials sha1 z hs owed)" for hs owed using pushes_denials [OF assms(1)] by (rule pushes_block)
  note pr = pushes_proofs [OF assms(1), THEN pushes_block]
  show thesis
  proof (cases "resolve_in_zone z n q")
    case (ToReferral c)
    then have c: "wf_name c" using h by simp
    show thesis
      by (rule that [of "[SetAuthoritative False]"
            "map (\<lambda>r. push_as Authority c (zr_ttl r) r) (zone_query c rt_NS z) @ (if d then push_delegation_proof sha1 z c else [])"])
        (use pushes_refer [OF assms(1) c, THEN pushes_block] pr(3) ToReferral in \<open>simp_all add: zone_answer_def refer_to_child_def Let_def\<close>)
  next
    case (ToAnswer chain m at)
    then have m: "list_all (hop_ok z) chain" "wf_name m" "at = locate m z" using h out by simp_all
    show thesis
      by (rule that [of "fst (add_chain z chain d) @ fst (add_answer at m q d)"
            "add_chain_denials sha1 z chain (snd (add_chain z chain d)) @ (if snd (add_answer at m q d) then push_proof_of_absence sha1 z m else [])" "[]"])
        (use ch m pushes_answer(1) [OF assms(1), THEN pushes_block] den pr(1) ToAnswer in \<open>simp_all add: zone_answer_def Let_def case_prod_beta\<close>)
  next
    case (ToNegative chain m kind)
    then have m: "list_all (hop_ok z) chain" using h by simp
    obtain cs where cs: "pushes z Authority cs" "add_negative sha1 z m kind d = (if kind = NotFound then [SetRcode NoSuchDomain] else []) @ cs"
      using pushes_negative [OF assms(1)] by blast
    show thesis
      by (rule that [of "fst (add_chain z chain d)" "add_chain_denials sha1 z chain (snd (add_chain z chain d)) @ add_negative sha1 z m kind d" "[]"])
        (use ch m den cs pushes_block ToNegative in \<open>simp_all add: zone_answer_def Let_def case_prod_beta\<close>)
  next
    case (ToChainLeftZone chain)
    then have m: "list_all (hop_ok z) chain" using h by simp
    show thesis
      by (rule that [of "fst (add_chain z chain d)" "add_chain_denials sha1 z chain (snd (add_chain z chain d))" "[]"])
        (use ch m den ToChainLeftZone in \<open>simp_all add: zone_answer_def Let_def case_prod_beta\<close>)
  next
    case (ToStopped chain rc)
    then have m: "list_all (hop_ok z) chain" using h by simp
    show thesis
      by (rule that [of "fst (add_chain z chain d)" "add_chain_denials sha1 z chain (snd (add_chain z chain d)) @ [SetRcode rc]" "[]"])
        (use ch m den ToStopped in \<open>simp_all add: zone_answer_def Let_def case_prod_beta\<close>)
  qed
qed

lemma in_order_mono: "in_order k cs \<Longrightarrow> j \<le> k \<Longrightarrow> in_order j cs"
  by (induction k cs rule: in_order.induct) auto

lemma in_order_block:
  assumes "block z s as" and "in_order (section_index s) bs" and "k \<le> section_index s"
  shows "in_order k (as @ bs)"
  using assms
proof (induction as arbitrary: k)
  case Nil
  then show ?case using in_order_mono by simp
next
  case (Cons c as)
  have as: "block z s as" using Cons.prems(1) by (auto simp: block_def)
  show ?case
  proof (cases c)
    case (Push s' rr)
    then have "s' = s" "wf_name (rr_name rr)" using Cons.prems(1) by (auto simp: block_def push_ok_def)
    then show ?thesis using Push Cons.IH [OF as Cons.prems(2) order.refl] Cons.prems(3) by simp
  qed (use Cons.IH [OF as Cons.prems(2,3)] in simp_all)
qed

text \<open>
  C11. Whatever is asked of a zone, with or without DNSSEC, the reply's calls go out in the order of the
  sections, as the writer needs them, and invent nothing: every record pushed is a record of the zone
  with its class and data, a TTL no longer than its own, under its own name or, for a wildcard's
  record, under a name that wildcard answers for; or a CNAME in the answer section that is the
  substitution of a DNAME of the zone, with that DNAME's class and TTL.
\<close>

theorem zone_answer_authentic:
  assumes "zone_ok z" and "wf_name n" and "in_zone z n"
  shows "in_order 1 (zone_answer sha1 z n q d) \<and>
    (\<forall>sect rr. Push sect rr \<in> set (zone_answer sha1 z n q d) \<longrightarrow> from_zone z rr \<or> sect = Answer \<and> from_dname z rr)"
proof -
  obtain as bs cs where s: "zone_answer sha1 z n q d = as @ bs @ cs" "block z Answer as" "block z Authority bs" "block z Additional cs"
    by (rule zone_answer_shape [OF assms])
  have "in_order 1 (as @ bs @ cs @ [])"
    using s(2-4) by (intro in_order_block) auto
  moreover have "from_zone z rr \<or> sect = Answer \<and> from_dname z rr" if "Push sect rr \<in> set (as @ bs @ cs)" for sect rr
    using that s(2-4) by (auto simp: block_def push_ok_def)
  ultimately show ?thesis using s(1) by simp
qed

text \<open>Which calls on the header a reply makes.\<close>

lemma stopped_rcode: "outcome_ok z q n (ToStopped chain rc) \<Longrightarrow> rc = DomainExistsForSomeReason \<or> rc = ServerFailure"
proof -
  have *: "rc = DomainExistsForSomeReason \<or> rc = ServerFailure"
    if "case x of Inr (PDNAME t) \<Rightarrow> P t \<and> rc = DomainExistsForSomeReason \<and> Q | _ \<Rightarrow> rc = ServerFailure \<and> R" for x :: "parsed_record wire_result" and P Q R
    using that by (simp split: sum.splits parsed_record.splits)
  show "outcome_ok z q n (ToStopped chain rc) \<Longrightarrow> ?thesis" by (auto dest!: *)
qed

lemma no_header_calls:
  assumes "zone_ok z" and "list_all (hop_ok z) hs"
  shows "SetRcode rc \<notin> set (fst (add_chain z hs d))" "SetAuthoritative b \<notin> set (fst (add_chain z hs d))"
    "SetRcode rc \<notin> set (add_chain_denials sha1 z hs owed)" "SetAuthoritative b \<notin> set (add_chain_denials sha1 z hs owed)"
  using pushes_chain [OF assms, of 0 d 0] pushes_denials [OF assms(1), of sha1 hs owed]
  by (auto simp: add_chain_def list_all_iff push_ok_def)

lemma pushes_no_header: "pushes z s cs \<Longrightarrow> SetRcode rc \<notin> set cs \<and> SetAuthoritative b \<notin> set cs"
  by (auto simp: list_all_iff push_ok_def)

text \<open>The kinds of a denial, in terms of the records.\<close>

lemma negative_kind:
  fixes z :: zone
  assumes "zone_ok z" and "wf_name m" and "in_zone z m" and "kind = name_kind m z"
  defines "rs \<equiv> zone_recs z" and "og \<equiv> origin_key z"
  shows "(kind = NotFound \<longrightarrow> \<not> exists_node rs (folded m) \<and> (wildcard_owned rs \<longrightarrow> \<not> (\<exists>w. wildcard_for rs og (folded m) w))) \<and>
    (\<not> exists_node rs (folded m) \<and> \<not> (\<exists>w. wildcard_for rs og (folded m) w) \<longrightarrow> kind = NotFound)"
proof -
  have w: "within (origin_key z) (folded m)"
    using within_folded [OF assms(2) zone_okD(1) [OF assms(1)]] assms(3) by (simp add: in_zone_def origin_key_def)
  note k = name_kind_of_key_correct(1,2) [OF assms(1) w, folded name_kind_def, folded rs_def]
    and c = name_kind_wildcard [OF assms(1) w, folded rs_def og_def]
  have ow: "owned rs (folded m) \<Longrightarrow> exists_node rs (folded m)" unfolding owned_def exists_node_def using ancestors_self by metis
  show ?thesis unfolding assms(4) using k c ow by (cases "name_kind m z") auto
qed

lemma zone_answer_header:
  assumes "zone_ok z" and "wf_name n" and "in_zone z n"
  shows "SetRcode rc \<in> set (zone_answer sha1 z n q d) \<longleftrightarrow>
      (\<exists>chain m. resolve_in_zone z n q = ToNegative chain m NotFound \<and> rc = NoSuchDomain) \<or> (\<exists>chain. resolve_in_zone z n q = ToStopped chain rc)"
    and "SetAuthoritative b \<in> set (zone_answer sha1 z n q d) \<longleftrightarrow> (\<exists>c. resolve_in_zone z n q = ToReferral c) \<and> \<not> b"
proof -
  note h = outcome_hops [OF assms(1) resolve_in_zone_ok [OF assms, of q] assms(2)] and ok = resolve_in_zone_ok [OF assms, of q]
  note nh = no_header_calls [OF assms(1)] and pr = pushes_proofs [OF assms(1), THEN pushes_no_header]
  have "(SetRcode rc \<in> set (zone_answer sha1 z n q d) \<longleftrightarrow>
      (\<exists>chain m. resolve_in_zone z n q = ToNegative chain m NotFound \<and> rc = NoSuchDomain) \<or> (\<exists>chain. resolve_in_zone z n q = ToStopped chain rc)) \<and>
    (SetAuthoritative b \<in> set (zone_answer sha1 z n q d) \<longleftrightarrow> (\<exists>c. resolve_in_zone z n q = ToReferral c) \<and> \<not> b)"
  proof (cases "resolve_in_zone z n q")
    case (ToReferral c)
    then have "wf_name c" using h by simp
    note rf = pushes_refer [OF assms(1) this, THEN pushes_no_header]
    show ?thesis using ToReferral rf pr(3) by (auto simp: zone_answer_def refer_to_child_def Let_def simp del: set_concat set_map)
  next
    case (ToAnswer chain m at)
    then have "list_all (hop_ok z) chain" "wf_name m" "at = locate m z" using h ok by simp_all
    then show ?thesis
      using ToAnswer nh pushes_answer(1) [OF assms(1), THEN pushes_no_header] pr(1) by (simp add: zone_answer_def Let_def case_prod_beta)
  next
    case (ToNegative chain m kind)
    then have c: "list_all (hop_ok z) chain" using h by simp
    obtain cs where "pushes z Authority cs" "add_negative sha1 z m kind d = (if kind = NotFound then [SetRcode NoSuchDomain] else []) @ cs"
      using pushes_negative [OF assms(1)] by blast
    then show ?thesis using ToNegative nh [OF c] pushes_no_header by (auto simp: zone_answer_def Let_def case_prod_beta)
  next
    case (ToChainLeftZone chain)
    then show ?thesis using h nh by (simp add: zone_answer_def Let_def case_prod_beta)
  next
    case (ToStopped chain rc')
    then show ?thesis using h nh by (auto simp: zone_answer_def Let_def case_prod_beta)
  qed
  then show "SetRcode rc \<in> set (zone_answer sha1 z n q d) \<longleftrightarrow>
      (\<exists>chain m. resolve_in_zone z n q = ToNegative chain m NotFound \<and> rc = NoSuchDomain) \<or> (\<exists>chain. resolve_in_zone z n q = ToStopped chain rc)"
    and "SetAuthoritative b \<in> set (zone_answer sha1 z n q d) \<longleftrightarrow> (\<exists>c. resolve_in_zone z n q = ToReferral c) \<and> \<not> b" by blast+
qed

text \<open>The hops of an outcome.\<close>

fun outcome_chain :: "outcome \<Rightarrow> hop list" where
  "outcome_chain (ToReferral _) = []"
| "outcome_chain (ToAnswer chain _ _) = chain"
| "outcome_chain (ToNegative chain _ _) = chain"
| "outcome_chain (ToChainLeftZone chain) = chain"
| "outcome_chain (ToStopped chain _) = chain"

lemma resolve_data_length:
  assumes "\<And>n chain visited. length (outcome_chain (resolve_loop k z q n chain visited)) \<le> length chain + k"
  shows "length (outcome_chain (resolve_data k z q n chain visited redirect)) \<le> length chain + Suc k"
proof (cases redirect)
  case None
  then show ?thesis using assms [of _ "chain @ [HopCname n]"] by (auto simp: Let_def split: option.splits)
next
  case (Some d)
  obtain r c where rc: "redirect_through d n chain = (r, c)" by fastforce
  then have "length c \<le> length chain + 1"
    by (auto simp: redirect_through_def split: sum.splits parsed_record.splits redirect.splits)
  moreover have "length (outcome_chain (resolve_loop k z q m c vs)) \<le> length c + k" for m vs by (rule assms)
  ultimately show ?thesis using Some rc by (cases r) (auto intro: order_trans [where y = "length c + k"])
qed

lemma resolve_chain_length: "length (outcome_chain (resolve_loop k z q n chain visited)) \<le> length chain + k"
proof (induction k arbitrary: n chain visited)
  case (Suc k)
  note d = resolve_data_length [OF Suc.IH]
  show ?case using d by (auto simp: Let_def split: option.splits simp del: resolve_data.simps)
qed simp

text \<open>Whether a hop was answered by a wildcard, whose denial is owed.\<close>

definition hop_owes :: "zone \<Rightarrow> bool \<Rightarrow> hop \<Rightarrow> bool" where
  "hop_owes z d h \<longleftrightarrow> snd (add_answer (locate (hop_owner h) z) (hop_owner h) (hop_qtype h) d)"

lemma owed_bits:
  "i + length hs \<le> 32 \<Longrightarrow> bit (snd (add_chain_from i z hs d owed)) j \<longleftrightarrow> bit owed j \<or> i \<le> j \<and> j < i + length hs \<and> hop_owes z d (hs ! (j - i))"
proof (induction hs arbitrary: i owed)
  case (Cons h hs)
  obtain cs w where a: "add_answer (locate (hop_owner h) z) (hop_owner h) (hop_qtype h) d = (cs, w)" by fastforce
  let ?owed = "if w then owed OR push_bit i 1 else owed"
  have s: "snd (add_chain_from i z (h # hs) d owed) = snd (add_chain_from (Suc i) z hs d ?owed)" using a by (simp add: case_prod_beta Let_def)
  have b: "bit ?owed j \<longleftrightarrow> bit owed j \<or> w \<and> j = i"
    using Cons.prems bit_imp_le_length [of owed j] by (auto simp: bit_simps)
  have ih: "bit (snd (add_chain_from (Suc i) z hs d ?owed)) j \<longleftrightarrow>
      (bit owed j \<or> w \<and> j = i) \<or> Suc i \<le> j \<and> j < Suc i + length hs \<and> hop_owes z d (hs ! (j - Suc i))"
    using Cons.IH [of "Suc i" ?owed] Cons.prems b by (simp only: list.size)
  show ?case unfolding s ih using a by (cases "j = i") (auto simp: hop_owes_def nth_Cons' Suc_le_eq)
qed auto

lemma and_bit: "i < 32 \<Longrightarrow> (owed :: u32) AND push_bit i 1 \<noteq> 0 \<longleftrightarrow> bit owed i"
  using bit_iff_and_push_bit_not_eq_0 [of owed i] by simp

text \<open>
  C12. Whatever aliases a zone holds, in a circle or never repeating, the walk ends: no chain has more
  than sixteen hops. The denials owed for them are kept as one bit of a word for each, and come out as
  asked for: that of every hop a wildcard answered, once, in the order of the chain.
\<close>

theorem alias_walk_ends:
  "let chain = outcome_chain (resolve_in_zone z n q) in
    length chain \<le> 16 \<and>
    add_chain_denials sha1 z chain (snd (add_chain z chain d)) =
      concat (map (\<lambda>h. push_proof_of_absence sha1 z (hop_owner h)) (filter (hop_owes z d) chain))"
proof -
  let ?chain = "outcome_chain (resolve_in_zone z n q)"
  have len: "length ?chain \<le> 16"
    using resolve_chain_length [of MAX_REDIRECTS z q n "[]" "[]"] by (simp add: resolve_in_zone_def MAX_REDIRECTS_def)
  have bits: "bit (snd (add_chain z ?chain d)) j \<longleftrightarrow> j < length ?chain \<and> hop_owes z d (?chain ! j)" for j
    using owed_bits [of 0 ?chain z d 0 j] len by (simp add: add_chain_def)
  have *: "concat (map (\<lambda>(i, h). if P i then f h else []) (enumerate k hs)) = concat (map f (filter Q hs))"
    if "\<And>i. i < length hs \<Longrightarrow> P (k + i) \<longleftrightarrow> Q (hs ! i)" for P Q k hs and f :: "hop \<Rightarrow> rw_call list"
    using that
  proof (induction hs arbitrary: k)
    case (Cons h hs)
    have "concat (map (\<lambda>(i, h). if P i then f h else []) (enumerate (Suc k) hs)) = concat (map f (filter Q hs))"
      using Cons.prems [of "Suc _"] by (intro Cons.IH) auto
    then show ?case using Cons.prems [of 0] by simp
  qed simp
  have "add_chain_denials sha1 z ?chain (snd (add_chain z ?chain d)) =
      concat (map (\<lambda>h. push_proof_of_absence sha1 z (hop_owner h)) (filter (hop_owes z d) ?chain))"
  proof (cases "snd (add_chain z ?chain d) = 0")
    case True
    then have "filter (hop_owes z d) ?chain = []" using bits by (auto simp: filter_empty_conv in_set_conv_nth)
    then show ?thesis using True by (simp add: add_chain_denials_def)
  next
    case False
    have "snd (add_chain z ?chain d) AND push_bit (0 + i) 1 \<noteq> 0 \<longleftrightarrow> hop_owes z d (?chain ! i)" if "i < length ?chain" for i
      using and_bit [of i] bits that len by simp
    from * [where P = "\<lambda>i. snd (add_chain z ?chain d) AND push_bit i 1 \<noteq> 0" and Q = "hop_owes z d" and k = 0 and hs = ?chain, OF this]
    show ?thesis using False by (simp add: add_chain_denials_def)
  qed
  then show ?thesis using len by (simp add: Let_def)
qed

text \<open>
  C10. What a zone decides about a question, in terms of its records. A referral is to the deepest cut at
  or above the name, when no DNAME above the name is at or above that cut, and not when the DS at the
  cut itself is asked; where there is such a cut nothing else is said. Otherwise CNAMEs and DNAMEs of
  the zone are followed, each hop from a name that no such cut takes away; the answer or the denial is
  about the name they lead to, which is in the zone, has no DNAME above it, and no cut at or above it
  but for the DS at the cut; an answer has records of the type there, a denial none and no CNAME. The
  chain ends early only outside the zone, below a cut, in a cycle or after sixteen hops, and stops
  with YXDOMAIN exactly where the substitution is too long. NXDOMAIN is the code exactly of the
  denials that found no name: there the zone has no record at the name or below it, and, if any record
  of the zone is owned by a wildcard, no wildcard that answers for it under RFC 4592; and a name with
  neither is always denied so. (A zone none of whose records is owned by a wildcard may say NXDOMAIN
  where a wildcard exists as an empty non-terminal only.) AA is cleared exactly on referrals.
\<close>

theorem zone_answer_resolves:
  fixes z :: zone
  assumes "zone_ok z" and "wf_name n" and "in_zone z n"
  defines "rs \<equiv> zone_recs z" and "og \<equiv> origin_key z"
  shows "outcome_ok z q n (resolve_in_zone z n q) \<and>
    (SetRcode NoSuchDomain \<in> set (zone_answer sha1 z n q d) \<longleftrightarrow> (\<exists>chain m. resolve_in_zone z n q = ToNegative chain m NotFound)) \<and>
    (\<forall>chain m kind. resolve_in_zone z n q = ToNegative chain m kind \<longrightarrow>
      (kind = NotFound \<longrightarrow> \<not> exists_node rs (folded m) \<and> (wildcard_owned rs \<longrightarrow> \<not> (\<exists>w. wildcard_for rs og (folded m) w))) \<and>
      (\<not> exists_node rs (folded m) \<and> \<not> (\<exists>w. wildcard_for rs og (folded m) w) \<longrightarrow> kind = NotFound)) \<and>
    (SetAuthoritative False \<in> set (zone_answer sha1 z n q d) \<longleftrightarrow> (\<exists>c. resolve_in_zone z n q = ToReferral c))"
proof -
  note ok = resolve_in_zone_ok [OF assms(1-3), of q] and h = zone_answer_header [OF assms(1-3), of _ sha1 q d]
  have "(kind = NotFound \<longrightarrow> \<not> exists_node rs (folded m) \<and> (wildcard_owned rs \<longrightarrow> \<not> (\<exists>w. wildcard_for rs og (folded m) w))) \<and>
      (\<not> exists_node rs (folded m) \<and> \<not> (\<exists>w. wildcard_for rs og (folded m) w) \<longrightarrow> kind = NotFound)"
    if neg: "resolve_in_zone z n q = ToNegative chain m kind" for chain m kind
    unfolding rs_def og_def using ok neg by (intro negative_kind [OF assms(1)]) simp_all
  moreover have "\<not> (\<exists>chain. resolve_in_zone z n q = ToStopped chain NoSuchDomain)"
    using ok stopped_rcode [of z q n _ NoSuchDomain] by (auto simp del: outcome_ok.simps)
  then have "SetRcode NoSuchDomain \<in> set (zone_answer sha1 z n q d) \<longleftrightarrow> (\<exists>chain m. resolve_in_zone z n q = ToNegative chain m NotFound)"
    by (simp add: h(1))
  ultimately show ?thesis using ok h(2) [of False] by (intro conjI) blast+
qed

text \<open>
  C13. In a negative answer nothing in the authority section outlives the negative TTL of RFC 2308: the
  lesser of the SOA's own TTL and its MINIMUM bounds the SOA, the denial records, of aliases on the
  way too, and all their signatures.
\<close>

theorem negative_answer_ttls:
  assumes "zone_ok z" and "wf_name n" and "in_zone z n" and "resolve_in_zone z n q = ToNegative chain m kind"
    and "zone_query (z_origin z) rt_SOA z = [soa]" and "soa_minimum (zr_rdata soa) = Some minimum"
    and "Push Authority rr \<in> set (zone_answer sha1 z n q d)"
  shows "rr_ttl rr \<le> min (zr_ttl soa) minimum"
proof -
  let ?cap = "min (zr_ttl soa) minimum"
  have neg: "ttl_negative_answer (zr_ttl soa) minimum = ?cap" by (auto simp: ttl_negative_answer_def min_def)
  have cap: "negative_ttl_cap z = Some ?cap" using assms(5,6) neg by (simp add: negative_ttl_cap_def zone_query_of_type)
  have p: "rr_ttl rr \<le> ?cap" if "list_all (proof_call z (negative_ttl_cap z)) cs" "Push Authority rr \<in> set cs" for cs rr
  proof -
    have "proof_call z (Some ?cap) (Push Authority rr)" using that unfolding cap by (auto simp: list_all_iff)
    then show ?thesis by (auto simp: proof_call_def push_as_def capped_def simp del: min.bounded_iff)
  qed
  have hops: "list_all (hop_ok z) chain" using outcome_hops [OF assms(1) resolve_in_zone_ok [OF assms(1-3)] assms(2), of q] assms(4) by simp
  have "Push Authority rr \<notin> set (fst (add_chain z chain d))"
    using pushes_chain [OF assms(1) hops, of 0 d 0] by (auto simp: add_chain_def list_all_iff push_ok_def)
  then consider "Push Authority rr \<in> set (add_chain_denials sha1 z chain (snd (add_chain z chain d)))" | "Push Authority rr \<in> set (add_negative sha1 z m kind d)"
    using assms(4,7) by (auto simp: zone_answer_def Let_def case_prod_beta)
  then show ?thesis
  proof cases
    case 1
    then obtain k where "Push Authority rr \<in> set (push_proof_of_absence sha1 z k)" by (auto simp: add_chain_denials_def split: if_splits)
    then show ?thesis using p negative_proof_calls(1) [OF assms(1)] by blast
  next
    case 2
    then consider "rr_ttl rr = ?cap" | "Push Authority rr \<in> set (push_negative_proof sha1 z m kind)"
      using assms(5,6) neg by (auto simp: add_negative_def push_as_def answer_negative_ttl_def split: if_splits)
    then show ?thesis using p negative_proof_calls(2) [OF assms(1)] by cases (simp, blast)
  qed
qed

section \<open>A zone that answers\<close>

text \<open>The zone \<^verbatim>\<open>x.\<close> with an SOA at the apex and an address at \<^verbatim>\<open>b.x.\<close>, asked for \<^verbatim>\<open>c.x.\<close>.\<close>

lemma small_denied:
  fixes z :: zone and n :: name
  defines "z \<equiv> small_version 1 [[1, 98, 1, 120, 0]]" and "n \<equiv> [1, 99, 1, 120, 0]"
  shows "zone_ok z" "wf_name n" "in_zone z n" "resolve_in_zone z n rt_A = ToNegative [] n NotFound"
    "zone_query (z_origin z) rt_SOA z = [soa_record 1]" "soa_minimum (zr_rdata (soa_record 1)) = Some 300"
proof -
  have names: "small_names [[1, 98, 1, 120, 0]]" "small_names [n]" by (simp_all add: small_names_def n_def)
  note v = small_version_ok [OF names(1), of 1, folded z_def] and w = wf_small_names [OF names(2)]
  have n [simp]: "folded n = n" "ancestors n = [n, [1, 120, 0], [0]]"
    by (simp_all add: n_def folded_def is_upper_def word_le_nat_alt ancestors.simps)
  show ok: "zone_ok z" using v(1) by (simp add: version_ok_def)
  show wf: "wf_name n" using w by simp
  have under: "is_at_or_under n (z_origin z)" using w v(2) by simp
  then show "in_zone z n" by (simp add: in_zone_def)
  have og: "origin_key z = [1, 120, 0]" by (simp add: origin_key_def v)
  have rs: "set (zone_recs z) = {soa_record 1, a_record [1, 98, 1, 120, 0]}" using v(4) by (auto dest!: arg_cong [of "mset _" _ set_mset])
  have w: "within (origin_key z) n" using within_folded [OF wf zone_okD(1) [OF ok]] under by (simp add: origin_key_def)
  note k = name_kind_of_key_correct [OF ok w]
  have "\<not> owned (zone_recs z) n" "\<not> exists_node (zone_recs z) n"
    by (auto simp: owned_def exists_node_def rs a_record_def soa_record_def n_def)
  moreover have "\<not> exists_node (zone_recs z) (star e)" if "e \<in> {[1, 120, 0], [0]}" for e
    using that by (auto simp: exists_node_def rs a_record_def soa_record_def star_def)
  ultimately have kind: "name_kind n z = NotFound"
    using k by (cases "name_kind n z") (auto simp: name_kind_def closest_encloser_def deepest_def synthesized_def)
  have no: "of_type (locate n z) t = []" for t using of_type_locate [OF ok, of n t] kind by simp
  have "delegation_for n z = None" "dname_above n z = None"
    using referrals [OF ok wf under] by (auto simp: rs a_record_def soa_record_def cut_above_def dname_node_def typed_at_def rtype_defs)
  then show "resolve_in_zone z n rt_A = ToNegative [] n NotFound"
    using no kind by (simp add: resolve_in_zone_def MAX_REDIRECTS_def numeral_eq_Suc located_has_type_def cname_target_def Let_def locate_kind)
  have "mset (apex_soas z) = {#soa_record 1#}"
    unfolding apex_soas_def mset_filter v(4) by (simp add: is_apex_soa_def v(2) soa_record_def a_record_def name_eq_folded rtype_defs)
  then show "zone_query (z_origin z) rt_SOA z = [soa_record 1]" using apex_query [OF ok] by simp
  show "soa_minimum (zr_rdata (soa_record 1)) = Some 300" by code_simp
qed

lemma small_denial:
  fixes z :: zone and n :: name
  defines "z \<equiv> small_version 1 [[1, 98, 1, 120, 0]]" and "n \<equiv> [1, 99, 1, 120, 0]"
  shows "zone_answer sha1 z n rt_A False = [SetRcode NoSuchDomain, Push Authority (rr_of (soa_record 1))]"
proof -
  have "ttl_negative_answer 60 300 = 60" by (simp add: ttl_negative_answer_def)
  moreover have "z_origin z = [1, 120, 0]" unfolding z_def by (rule small_version_ok) (simp add: small_names_def)
  ultimately show ?thesis
    using small_denied(4-6) [folded z_def n_def]
    by (simp add: zone_answer_def add_chain_def add_chain_denials_def add_negative_def answer_negative_ttl_def push_as_def rr_of_def soa_record_def)
qed

theorem zone_answer_authentic_witness:
  "in_order 1 (zone_answer (\<lambda>bs. bs) (small_version 1 [[1, 98, 1, 120, 0]]) [1, 99, 1, 120, 0] rt_A False) \<and>
    from_zone (small_version 1 [[1, 98, 1, 120, 0]]) (rr_of (soa_record 1))"
  using zone_answer_authentic [OF small_denied(1-3), of "\<lambda>bs. bs" rt_A False] small_denial [of "\<lambda>bs. bs"] by auto

theorem zone_answer_resolves_witness:
  "resolve_in_zone (small_version 1 [[1, 98, 1, 120, 0]]) [1, 99, 1, 120, 0] rt_A = ToNegative [] [1, 99, 1, 120, 0] NotFound \<and>
    stays (small_version 1 [[1, 98, 1, 120, 0]]) rt_A [1, 99, 1, 120, 0] \<and>
    SetRcode NoSuchDomain \<in> set (zone_answer (\<lambda>bs. bs) (small_version 1 [[1, 98, 1, 120, 0]]) [1, 99, 1, 120, 0] rt_A False) \<and>
    \<not> exists_node (zone_recs (small_version 1 [[1, 98, 1, 120, 0]])) (folded [1, 99, 1, 120, 0])"
  using zone_answer_resolves [OF small_denied(1-3), of rt_A "\<lambda>bs. bs" False] small_denied(4)
  by (simp add: authoritative_def stays_def cut_off_def deepest_def Let_def rtype_defs)

theorem negative_answer_ttls_witness: "rr_ttl (rr_of (soa_record 1)) \<le> min (zr_ttl (soa_record 1)) 300"
  using negative_answer_ttls [OF small_denied, of "rr_of (soa_record 1)" "\<lambda>bs. bs" False] small_denial [of "\<lambda>bs. bs"]
  by (simp del: min.bounded_iff)

end
