(* ===== verification/Serving.thy ===== *)
theory Serving
  imports ZoneAnswer Xfr Eviction
begin

text \<open>
  The authoritative server above one zone: the zones it holds, \<^verbatim>\<open>rdnsd/src/zones.rs\<close>, how versions are
  installed and withdrawn while others do the same, with the log of changes beside them, and the
  answer to a request, \<^verbatim>\<open>rdnsd/src/answer.rs\<close>. A \<^verbatim>\<open>HashMap\<close> is an association list in the order it is
  visited. The counter of versions is a \<^verbatim>\<open>u64\<close>, raised by one at a time, and a natural number here.
  Metrics, logging and the journal on disk only observe.
\<close>

section \<open>The zones held\<close>

type_synonym zone_map = "(name_key \<times> zone) list"

record zones =
  zs_by_name :: zone_map
  zs_generation :: nat
  zs_deepest :: nat

definition zone_key :: "zone \<Rightarrow> name_key" where
  "zone_key z = name_key_new (z_origin z)"

definition deepest_origin :: "zone_map \<Rightarrow> nat" where
  "deepest_origin m = foldr max (map (\<lambda>(k, _). label_count k) m) 0"

definition zones_new :: "zone_map \<Rightarrow> zones" where
  "zones_new m = \<lparr>zs_by_name = m, zs_generation = 0, zs_deepest = deepest_origin m\<rparr>"

definition zones_insert :: "zone \<Rightarrow> zones \<Rightarrow> zone option \<times> zones" where
  "zones_insert z zs =
     (map_of (zs_by_name zs) (zone_key z),
      zs\<lparr>zs_deepest := max (zs_deepest zs) (label_count (z_origin z)),
         zs_by_name := AList.update (zone_key z) z (zs_by_name zs),
         zs_generation := zs_generation zs + 1\<rparr>)"

definition zones_remove :: "name \<Rightarrow> zones \<Rightarrow> bool \<times> zones" where
  "zones_remove n zs =
     (if map_of (zs_by_name zs) (folded n) = None then (False, zs)
      else (True, zs\<lparr>zs_by_name := AList.delete (folded n) (zs_by_name zs), zs_generation := zs_generation zs + 1\<rparr>))"

definition replace_all :: "zone_map \<Rightarrow> zones \<Rightarrow> zone_map \<times> zones" where
  "replace_all m zs =
     (zs_by_name zs, zs\<lparr>zs_deepest := deepest_origin m, zs_generation := zs_generation zs + 1, zs_by_name := m\<rparr>)"

definition matching :: "name \<Rightarrow> zones \<Rightarrow> zone option" where
  "matching n zs = map_of (zs_by_name zs) (folded n)"

definition snapshot :: "name \<Rightarrow> zones \<Rightarrow> zone option" where
  "snapshot n zs = map_of (zs_by_name zs) (folded n)"

definition snapshot_all :: "zones \<Rightarrow> zone_map" where
  "snapshot_all zs = zs_by_name zs"

definition for_query :: "name \<Rightarrow> zones \<Rightarrow> zone option" where
  "for_query n zs =
     find_map (\<lambda>candidate. map_of (zs_by_name zs) (folded candidate))
       (drop (label_count n - min (zs_deepest zs) (label_count n)) (ancestors n))"

section \<open>Installing versions\<close>

record reload_plan =
  rp_forgotten :: "name list"
  rp_recorded :: "planned_delta list"

definition plan_reload :: "zones \<Rightarrow> zone_map \<Rightarrow> reload_plan" where
  "plan_reload zs new =
     \<lparr>rp_forgotten = filter (\<lambda>k. map_of new k = None) (map fst (zs_by_name zs)),
      rp_recorded = List.map_filter (\<lambda>(_, z). plan_change (matching (z_origin z) zs) z) new\<rparr>"

record zone_context =
  zc_zones :: zones
  zc_log :: delta_log

text \<open>
  \<^verbatim>\<open>install_zone\<close> and \<^verbatim>\<open>install_all_zones\<close> each take the read lock, plan, and release it; then take the
  write locks and finish. What others do between the two is in between.
\<close>

definition install_plan :: "zone \<Rightarrow> zones \<Rightarrow> planned_delta option \<times> nat" where
  "install_plan z zs = (plan_change (matching (z_origin z) zs) z, zs_generation zs)"

definition install_commit :: "zone \<Rightarrow> planned_delta option \<times> nat \<Rightarrow> zone_context \<Rightarrow> zone_context" where
  "install_commit z p c =
     (let zs = zc_zones c;
          planned = (if zs_generation zs = snd p then fst p else plan_change (matching (z_origin z) zs) z);
          log = (case planned of None \<Rightarrow> zc_log c | Some d \<Rightarrow> log_record d (zc_log c)) in
      c\<lparr>zc_log := log, zc_zones := snd (zones_insert z zs)\<rparr>)"

definition install_zone :: "zone \<Rightarrow> zone_context \<Rightarrow> zone_context" where
  "install_zone z c = install_commit z (install_plan z (zc_zones c)) c"

definition reload_begin :: "zone_map \<Rightarrow> zones \<Rightarrow> reload_plan \<times> nat" where
  "reload_begin new zs = (plan_reload zs new, zs_generation zs)"

definition reload_commit :: "zone_map \<Rightarrow> reload_plan \<times> nat \<Rightarrow> zone_context \<Rightarrow> zone_context" where
  "reload_commit new p c =
     (let zs = zc_zones c;
          plan = (if zs_generation zs \<noteq> snd p then plan_reload zs new else fst p);
          log = fold log_record (rp_recorded plan) (fold log_forget (rp_forgotten plan) (zc_log c)) in
      c\<lparr>zc_log := log, zc_zones := snd (replace_all new zs)\<rparr>)"

definition install_all_zones :: "zone_map \<Rightarrow> zone_context \<Rightarrow> zone_context" where
  "install_all_zones new c = reload_commit new (reload_begin new (zc_zones c)) c"

definition withdraw :: "name \<Rightarrow> zone_context \<Rightarrow> bool \<times> zone_context" where
  "withdraw n c =
     (let (held, zs) = zones_remove n (zc_zones c) in
      if \<not> held then (False, c) else (True, c\<lparr>zc_zones := zs, zc_log := log_forget n (zc_log c)\<rparr>))"

section \<open>Answering\<close>

definition NOT_AUTHORITATIVE :: u16 where "NOT_AUTHORITATIVE = 20"
definition NOT_SUPPORTED :: u16 where "NOT_SUPPORTED = 21"

definition UNIMPLEMENTED_OPCODE :: extended_error where
  "UNIMPLEMENTED_OPCODE = \<lparr>info_code = NOT_SUPPORTED, extra_text = octets ''this opcode is not implemented''\<rparr>"

definition UNSERVED_CLASS :: extended_error where
  "UNSERVED_CLASS = \<lparr>info_code = NOT_SUPPORTED, extra_text = octets ''this class is not served''\<rparr>"

definition NOT_OUR_ZONE :: extended_error where
  "NOT_OUR_ZONE = \<lparr>info_code = NOT_AUTHORITATIVE, extra_text = octets ''no zone here is at or above this name''\<rparr>"

definition refuse :: "extended_error \<Rightarrow> rw_call list" where
  "refuse why = [SetRcode Refused, SetAuthoritative False, SetExtendedError why]"

definition answer_question :: "(bytes \<Rightarrow> bytes) \<Rightarrow> query_section \<Rightarrow> zones \<Rightarrow> bool \<Rightarrow> rw_call list" where
  "answer_question sha1 q zs dnssec_ok =
     (if qclass q \<notin> {QC_IN, QC_Any} then refuse UNSERVED_CLASS
      else if qtype q = AXFR_CODE then [SetRcode FormatError]
      else if qtype q = IXFR_CODE then
        (case for_query (qname q) zs of
           Some z \<Rightarrow> map (\<lambda>soa. push_as Answer (z_origin z) (zr_ttl soa) soa) (zone_query (z_origin z) rt_SOA z)
         | None \<Rightarrow> refuse NOT_OUR_ZONE)
      else
        (case for_query (qname q) zs of
           None \<Rightarrow> refuse NOT_OUR_ZONE
         | Some z \<Rightarrow> zone_answer sha1 z (qname q) (qtype q) dnssec_ok))"

definition mirror_calls :: "client_edns \<Rightarrow> server_opt \<Rightarrow> rw_call list" where
  "mirror_calls c server = (case mirror c server of Some e \<Rightarrow> [SetEdns e] | None \<Rightarrow> [])"

definition response_calls :: "(bytes \<Rightarrow> bytes) \<Rightarrow> dns_message \<Rightarrow> zones \<Rightarrow> server_opt \<Rightarrow> rw_call list" where
  "response_calls sha1 msg zs server =
     SetAuthoritative True #
     (case client_edns_of msg of
        Inl rcode \<Rightarrow> [SetRcode rcode, SetEdns (with_payload_size (so_payload_size server))]
      | Inr c \<Rightarrow>
          if dm_opcode msg \<noteq> Query then
            [SetRcode NotImplemented, SetAuthoritative False, SetExtendedError UNIMPLEMENTED_OPCODE] @ mirror_calls c server
          else
            (case dm_queries msg of
               [query] \<Rightarrow> answer_question sha1 query zs (asks_do c)
             | _ \<Rightarrow> [SetRcode FormatError, SetAuthoritative False]) @ mirror_calls c server)"

definition write_response ::
    "(bytes \<Rightarrow> bytes) \<Rightarrow> out_state \<Rightarrow> dns_message \<Rightarrow> zones \<Rightarrow> nat \<Rightarrow> server_opt \<Rightarrow> bytes wire_result" where
  "write_response sha1 scratch msg zs max_len server = write_reply scratch max_len msg (response_calls sha1 msg zs server)"

section \<open>Choosing a zone\<close>

text \<open>Every zone is held under its origin, and none has more labels than \<^verbatim>\<open>deepest\<close>.\<close>

definition zone_map_ok :: "zone_map \<Rightarrow> bool" where
  "zone_map_ok m \<longleftrightarrow> distinct (map fst m) \<and> (\<forall>(k, z) \<in> set m. k = zone_key z \<and> wf_name (z_origin z))"

definition zones_ok :: "zones \<Rightarrow> bool" where
  "zones_ok zs \<longleftrightarrow> zone_map_ok (zs_by_name zs) \<and> (\<forall>(k, z) \<in> set (zs_by_name zs). label_count k \<le> zs_deepest zs)"

lemma zone_map_okD:
  assumes "zone_map_ok m" and "map_of m k = Some z"
  shows "folded (z_origin z) = k" "wf_name (z_origin z)" "(k, z) \<in> set m"
  using assms map_of_SomeD [OF assms(2)] by (auto simp: zone_map_ok_def zone_key_def name_key_new_def)

lemma label_count_folded: "wf_name w \<Longrightarrow> label_count (folded w) = label_count w"
  by (elim wf_nameE) (simp add: folded_lower lower_wire_of)

lemma deepest_origin_max: "(k, z) \<in> set m \<Longrightarrow> label_count k \<le> deepest_origin m"
  by (induction m) (auto simp: deepest_origin_def)

lemma zones_new_ok: "zone_map_ok m \<Longrightarrow> zones_ok (zones_new m)"
  by (auto simp: zones_ok_def zones_new_def dest: deepest_origin_max)

lemma zone_map_ok_update: "zone_map_ok m \<Longrightarrow> wf_name (z_origin z) \<Longrightarrow> zone_map_ok (AList.update (zone_key z) z m)"
  unfolding zone_map_ok_def using update_subset [of "zone_key z" z m] by (fastforce simp: AList.distinct_update)

lemma zones_insert_ok:
  assumes "zones_ok zs" and "wf_name (z_origin z)"
  shows "zones_ok (snd (zones_insert z zs))"
proof -
  have "label_count k \<le> max (zs_deepest zs) (label_count (z_origin z))" if "(k, y) \<in> set (AList.update (zone_key z) z (zs_by_name zs))" for k y
    using that update_subset [of "zone_key z" z "zs_by_name zs"] assms label_count_folded [OF assms(2)]
    by (fastforce simp: zones_ok_def zone_key_def name_key_new_def)
  then show ?thesis using assms zone_map_ok_update by (auto simp: zones_ok_def zones_insert_def)
qed

lemma zones_remove_ok: "zones_ok zs \<Longrightarrow> zones_ok (snd (zones_remove n zs))"
  by (auto simp: zones_ok_def zones_remove_def zone_map_ok_def AList.delete_eq distinct_map_filter)

lemma replace_all_ok: "zone_map_ok m \<Longrightarrow> zones_ok (snd (replace_all m zs))"
  by (auto simp: zones_ok_def replace_all_def dest: deepest_origin_max)

lemma find_map_append: "find_map f (xs @ ys) = (case find_map f xs of None \<Rightarrow> find_map f ys | Some y \<Rightarrow> Some y)"
  by (induction xs) (auto split: option.splits)

lemma find_map_None: "find_map f xs = None \<longleftrightarrow> (\<forall>x \<in> set xs. f x = None)"
  by (induction xs) (auto split: option.splits)

lemma find_map_Some: "find_map f xs = Some y \<Longrightarrow> \<exists>us x vs. xs = us @ x # vs \<and> f x = Some y \<and> (\<forall>u \<in> set us. f u = None)"
proof (induction xs)
  case (Cons a xs)
  show ?case
  proof (cases "f a")
    case None
    then obtain us x vs where "xs = us @ x # vs" "f x = Some y" "\<forall>u \<in> set us. f u = None" using Cons by auto
    then show ?thesis using None by (intro exI [of _ "a # us"] exI [of _ x] exI [of _ vs]) simp
  next
    case (Some b)
    then show ?thesis using Cons.prems by (intro exI [of _ "[]"] exI [of _ a] exI [of _ xs]) simp
  qed
qed simp

lemma ancestors_suffixes:
  assumes "labels_ok ls"
  shows "ancestors (wire_of ls) = map (\<lambda>i. wire_of (drop i ls)) [0..<Suc (length ls)]"
  using assms
proof (induction ls)
  case Nil
  show ?case by (simp add: ancestors.simps)
next
  case (Cons l ls)
  have "ancestors (wire_of (l # ls)) = wire_of (l # ls) # ancestors (wire_of ls)"
    using Cons.prems ancestors_wire [of "l # ls"] ancestors_wire [of ls] by simp
  also have "\<dots> = map (\<lambda>i. wire_of (drop i (l # ls))) (0 # map Suc [0..<Suc (length ls)])" using Cons by (simp add: comp_def)
  also have "0 # map Suc [0..<Suc (length ls)] = [0..<Suc (length (l # ls))]" by (simp only: map_Suc_upt upt_conv_Cons [symmetric] list.size) (simp add: upt_rec)
  finally show ?case .
qed

text \<open>The names of more labels than any origin are not looked up, and would not be found.\<close>

lemma for_query_all:
  assumes "zones_ok zs" and "wf_name n"
  shows "for_query n zs = find_map (\<lambda>c. map_of (zs_by_name zs) (folded c)) (ancestors n)"
proof -
  obtain ls where ls: "labels_ok ls" "n = wire_of ls" using assms(2) by (auto elim!: wf_nameE)
  let ?f = "\<lambda>c. map_of (zs_by_name zs) (folded c)" and ?k = "label_count n - min (zs_deepest zs) (label_count n)"
  have "?f c = None" if c: "c \<in> set (take ?k (ancestors n))" for c
  proof (rule ccontr)
    assume "?f c \<noteq> None"
    then obtain z where z: "map_of (zs_by_name zs) (folded c) = Some z" by auto
    have "c \<in> (\<lambda>i. wire_of (drop i ls)) ` {..<?k}" using c ls by (auto simp: ancestors_suffixes take_map take_upt)
    then obtain i where i: "i < ?k" "c = wire_of (drop i ls)" by auto
    have ok: "labels_ok (drop i ls)" using ls(1) by (metis append_take_drop_id labels_ok_simps(3))
    have "label_count (folded c) = length ls - i" using i(2) ok by (simp add: folded_lower lower_wire_of)
    moreover have "label_count (folded c) \<le> zs_deepest zs" using map_of_SomeD [OF z] assms(1) by (auto simp: zones_ok_def)
    ultimately show False using i(1) ls by simp
  qed
  then have "find_map ?f (take ?k (ancestors n)) = None" by (auto simp: find_map_None)
  then have "find_map ?f (take ?k (ancestors n) @ drop ?k (ancestors n)) = find_map ?f (drop ?k (ancestors n))" by (simp only: find_map_append option.case)
  then show ?thesis by (simp add: for_query_def)
qed

text \<open>A zone answers for a name when it is held and the name is at or under its origin.\<close>

definition speaks_for :: "zones \<Rightarrow> name \<Rightarrow> zone \<Rightarrow> bool" where
  "speaks_for zs n z \<longleftrightarrow> z \<in> snd ` set (zs_by_name zs) \<and> is_at_or_under n (z_origin z)"

lemma speaks_for_iff:
  assumes "zones_ok zs" and "wf_name n"
  shows "speaks_for zs n z \<longleftrightarrow> (\<exists>c \<in> set (ancestors n). map_of (zs_by_name zs) (folded c) = Some z)"
proof
  assume s: "speaks_for zs n z"
  then obtain k where k: "(k, z) \<in> set (zs_by_name zs)" by (auto simp: speaks_for_def)
  obtain a where a: "a \<in> set (ancestors n)" "name_eq a (z_origin z)"
    using s by (auto simp: speaks_for_def is_at_or_under_def split: if_splits option.splits dest!: find_SomeD)
  have "map_of (zs_by_name zs) k = Some z" "k = folded (z_origin z)"
    using k assms(1) by (auto simp: zones_ok_def zone_map_ok_def zone_key_def name_key_new_def)
  then show "\<exists>c \<in> set (ancestors n). map_of (zs_by_name zs) (folded c) = Some z"
    using a by (intro bexI [of _ a]) (simp_all add: name_eq_folded)
next
  assume "\<exists>c \<in> set (ancestors n). map_of (zs_by_name zs) (folded c) = Some z"
  then obtain c where c: "c \<in> set (ancestors n)" "map_of (zs_by_name zs) (folded c) = Some z" by blast
  note z = zone_map_okD [OF _ c(2)] and ok = assms(1) [unfolded zones_ok_def, THEN conjunct1]
  obtain ls where ls: "labels_ok ls" "n = wire_of ls" using assms(2) by (auto elim!: wf_nameE)
  obtain ms where ms: "labels_ok ms" "z_origin z = wire_of ms" using z(2) [OF ok] by (auto elim!: wf_nameE)
  obtain ks where ks: "suffix ks ls" "c = wire_of ks" using c(1) ls ancestors_wire by auto
  then have "labels_ok ks" using ls(1) by (auto simp: suffix_def)
  then have "map lower ms = map lower ks"
    using z(1) [OF ok] ms ks(2) wire_of_inj [of "map lower ms" "map lower ks"] by (simp add: folded_lower lower_wire_of)
  moreover have "suffix (map lower ks) (map lower ls)" using ks(1) by (auto simp: suffix_def)
  ultimately have "is_at_or_under n (z_origin z)" using ls ms by (simp add: is_at_or_under_wire)
  then show "speaks_for zs n z" using z(3) [OF ok] by (force simp: speaks_for_def)
qed

text \<open>The zone chosen is the one with the most labels that speaks for the name.\<close>

lemma for_query_deepest:
  assumes "zones_ok zs" and "wf_name n"
  shows "for_query n zs = None \<longleftrightarrow> \<not> (\<exists>z. speaks_for zs n z)"
    and "for_query n zs = Some z \<Longrightarrow> speaks_for zs n z \<and> (\<forall>y. speaks_for zs n y \<longrightarrow> label_count (z_origin y) \<le> label_count (z_origin z))"
proof -
  let ?f = "\<lambda>c. map_of (zs_by_name zs) (folded c)"
  note all = for_query_all [OF assms] and sp = speaks_for_iff [OF assms]
  have ok: "zone_map_ok (zs_by_name zs)" using assms(1) by (simp add: zones_ok_def)
  show "for_query n zs = None \<longleftrightarrow> \<not> (\<exists>z. speaks_for zs n z)" unfolding all find_map_None sp
    by (rule iffI) (force, metis not_None_eq)
  assume "for_query n zs = Some z"
  then obtain us x vs where f: "ancestors n = us @ x # vs" "?f x = Some z" "\<forall>u \<in> set us. ?f u = None"
    unfolding all by (blast dest!: find_map_Some)
  obtain ls where ls: "labels_ok ls" "n = wire_of ls" using assms(2) by (auto elim!: wf_nameE)
  have at: "i < length (ancestors n) \<Longrightarrow> label_count (folded (ancestors n ! i)) = length ls - i" for i
  proof -
    assume i: "i < length (ancestors n)"
    have "labels_ok (drop i ls)" using ls(1) by (metis append_take_drop_id labels_ok_simps(3))
    then show "label_count (folded (ancestors n ! i)) = length ls - i"
      using i ls by (simp add: ancestors_suffixes folded_lower lower_wire_of del: upt_Suc)
  qed
  have origin: "?f c = Some y \<Longrightarrow> label_count (folded c) = label_count (z_origin y)" for c y
    using zone_map_okD(1,2) [OF ok, of "folded c" y] label_count_folded [of "z_origin y"] by simp
  have "label_count (z_origin y) \<le> label_count (z_origin z)" if y: "speaks_for zs n y" for y
  proof -
    obtain c where c: "c \<in> set (ancestors n)" "?f c = Some y" using y unfolding sp by blast
    then have "c \<notin> set us" using f(3) by auto
    then have "c \<in> set (x # vs)" using c(1) f(1) by auto
    then obtain j where j: "j < length (x # vs)" "c = (x # vs) ! j" by (metis in_set_conv_nth)
    have "label_count (folded c) = length ls - (length us + j)" using at [of "length us + j"] j unfolding f(1) by (simp add: nth_append)
    moreover have "label_count (folded x) = length ls - length us" using at [of "length us"] unfolding f(1) by simp
    ultimately show ?thesis using origin [OF c(2)] origin [OF f(2)] by simp
  qed
  moreover have "speaks_for zs n z" using sp f(1,2) by auto
  ultimately show "speaks_for zs n z \<and> (\<forall>y. speaks_for zs n y \<longrightarrow> label_count (z_origin y) \<le> label_count (z_origin z))" by blast
qed

section \<open>Optimistic changes\<close>

text \<open>
  A store whose changes each raise its counter: a plan made from an earlier state of it, and kept only
  if the counter has not moved, is the plan of the state it is used in.
\<close>

locale optimistic =
  fixes counter :: "'s \<Rightarrow> nat" and change :: "'s \<Rightarrow> 's \<Rightarrow> bool"
  assumes change_raises: "change s s' \<Longrightarrow> counter s < counter s'"
begin

lemma counter_mono: "change\<^sup>*\<^sup>* s s' \<Longrightarrow> counter s \<le> counter s'"
  by (induction rule: rtranclp_induct) (auto dest: change_raises)

lemma unmoved: "change\<^sup>*\<^sup>* s s' \<Longrightarrow> counter s' = counter s \<Longrightarrow> s = s'"
  using counter_mono change_raises by (metis converse_rtranclpE leD)

end

inductive zones_change :: "zones \<Rightarrow> zones \<Rightarrow> bool" where
  zc_insert: "zones_change zs (snd (zones_insert z zs))"
| zc_remove: "fst (zones_remove n zs) \<Longrightarrow> zones_change zs (snd (zones_remove n zs))"
| zc_replace: "zones_change zs (snd (replace_all m zs))"

interpretation held: optimistic zs_generation zones_change
  by unfold_locales (auto simp: zones_insert_def zones_remove_def replace_all_def elim!: zones_change.cases split: if_splits)

text \<open>
  Installs, reloads and withdrawals in any interleaving: the tasks that have planned and not yet
  finished, and what has been done, in the order of the write lock.
\<close>

datatype event = Installed zone | Reloaded zone_map | Withdrawn name

datatype task = Installing zone "planned_delta option \<times> nat" | Reloading zone_map "reload_plan \<times> nat"

inductive serving :: "zone_context \<Rightarrow> event list \<Rightarrow> zone_context \<Rightarrow> task multiset \<Rightarrow> bool" for c0 where
  sg_start: "serving c0 [] c0 {#}"
| sg_plan: "serving c0 es c ts \<Longrightarrow> wf_name (z_origin z) \<Longrightarrow> serving c0 es c (add_mset (Installing z (install_plan z (zc_zones c))) ts)"
| sg_install: "serving c0 es c (add_mset (Installing z p) ts) \<Longrightarrow> serving c0 (es @ [Installed z]) (install_commit z p c) ts"
| sg_begin: "serving c0 es c ts \<Longrightarrow> zone_map_ok m \<Longrightarrow> serving c0 es c (add_mset (Reloading m (reload_begin m (zc_zones c))) ts)"
| sg_reload: "serving c0 es c (add_mset (Reloading m p) ts) \<Longrightarrow> serving c0 (es @ [Reloaded m]) (reload_commit m p c) ts"
| sg_withdraw: "serving c0 es c ts \<Longrightarrow> serving c0 (es @ [Withdrawn n]) (snd (withdraw n c)) ts"

fun at_once :: "event \<Rightarrow> zone_context \<Rightarrow> zone_context" where
  "at_once (Installed z) c = install_zone z c"
| "at_once (Reloaded m) c = install_all_zones m c"
| "at_once (Withdrawn n) c = snd (withdraw n c)"

fun task_ok :: "zones \<Rightarrow> task \<Rightarrow> bool" where
  "task_ok zs (Installing z p) \<longleftrightarrow> wf_name (z_origin z) \<and> (\<exists>zs0. zones_change\<^sup>*\<^sup>* zs0 zs \<and> p = install_plan z zs0)"
| "task_ok zs (Reloading m p) \<longleftrightarrow> zone_map_ok m \<and> (\<exists>zs0. zones_change\<^sup>*\<^sup>* zs0 zs \<and> p = reload_begin m zs0)"

lemma task_ok_change: "task_ok zs t \<Longrightarrow> zones_change zs zs' \<Longrightarrow> task_ok zs' t"
  by (cases t) (auto intro: rtranclp.rtrancl_into_rtrancl)

lemma commit_at_once:
  "task_ok (zc_zones c) (Installing z p) \<Longrightarrow> install_commit z p c = install_zone z c"
  "task_ok (zc_zones c) (Reloading m q) \<Longrightarrow> reload_commit m q c = install_all_zones m c"
  by (auto simp: install_commit_def install_zone_def install_plan_def reload_commit_def install_all_zones_def reload_begin_def Let_def
      dest: held.unmoved)

lemma zones_after:
  "zc_zones (install_commit z p c) = snd (zones_insert z (zc_zones c))"
  "zc_zones (reload_commit m q c) = snd (replace_all m (zc_zones c))"
  "zc_zones (snd (withdraw n c)) = snd (zones_remove n (zc_zones c))"
  by (auto simp: install_commit_def reload_commit_def withdraw_def Let_def zones_remove_def)

lemma withdraw_change: "zc_zones (snd (withdraw n c)) = zc_zones c \<or> zones_change (zc_zones c) (zc_zones (snd (withdraw n c)))"
  unfolding zones_after using zc_remove [of n "zc_zones c"] by (auto simp: zones_remove_def)

lemma serving_tasks:
  assumes "serving c0 es c ts"
  shows "\<forall>t \<in># ts. task_ok (zc_zones c) t"
  using assms
proof induction
  case (sg_withdraw es c ts n)
  then show ?case using withdraw_change [of n c] task_ok_change by auto
qed (auto simp: zones_after intro: task_ok_change zc_insert zc_replace)

lemma serving_at_once: "serving c0 es c ts \<Longrightarrow> c = fold at_once es c0"
proof (induction rule: serving.induct)
  case (sg_install es c z p ts)
  then show ?case using serving_tasks [OF sg_install.hyps] commit_at_once(1) by simp
next
  case (sg_reload es c m p ts)
  then show ?case using serving_tasks [OF sg_reload.hyps] commit_at_once(2) by simp
qed auto

section \<open>The log follows the zones\<close>

text \<open>The versions of a zone served since it was last not served, by what was done.\<close>

fun history_of :: "bytes \<Rightarrow> event \<Rightarrow> zone list \<Rightarrow> zone list" where
  "history_of k (Installed z) vs = (if zone_key z = k then vs @ [z] else vs)"
| "history_of k (Reloaded m) vs = (case map_of m k of None \<Rightarrow> [] | Some z \<Rightarrow> vs @ [z])"
| "history_of k (Withdrawn n) vs = (if folded n = k then [] else vs)"

definition versions :: "bytes \<Rightarrow> zone_map \<Rightarrow> event list \<Rightarrow> zone list" where
  "versions k m es = fold (history_of k) es (case map_of m k of None \<Rightarrow> [] | Some z \<Rightarrow> [z])"

definition logged :: "bytes \<Rightarrow> zone_context \<Rightarrow> zone list \<Rightarrow> bool" where
  "logged k c vs \<longleftrightarrow>
     (if vs = [] then map_of (zs_by_name (zc_zones c)) k = None \<and> zc_log c k = None
      else map_of (zs_by_name (zc_zones c)) k = Some (last vs) \<and> served k vs (zc_log c)) \<and>
     (\<forall>v \<in> set vs. zone_key v = k)"

lemma note_other: "folded (z_origin new) \<noteq> k \<Longrightarrow> note_change old new log k = log k"
  by (cases "plan_change old new") (auto simp: note_change_def log_record_at plan_change_def split: option.splits if_splits)

abbreviation note_all :: "zones \<Rightarrow> zone_map \<Rightarrow> delta_log \<Rightarrow> delta_log" where
  "note_all zs m \<equiv> fold (\<lambda>(_, z). note_change (matching (z_origin z) zs) z) m"

lemma notes_other:
  "\<forall>(_, z) \<in> set m. zone_key z \<noteq> k \<Longrightarrow> note_all zs m log k = log k \<and> (served k vs log \<longrightarrow> served k vs (note_all zs m log))"
proof (induction m arbitrary: log)
  case (Cons e m)
  obtain j z where e: "e = (j, z)" by (cases e)
  have z: "folded (z_origin z) \<noteq> k" using Cons.prems e by (simp add: zone_key_def name_key_new_def)
  then show ?case
    using Cons.IH [of "note_change (matching (z_origin z) zs) z log"] Cons.prems note_other [OF z] e sv_other [OF _ z] by auto
qed simp

lemma note_at:
  assumes "logged k c vs" and "zone_key z = k" and "log k = zc_log c k" and "served k vs (zc_log c) \<longrightarrow> served k vs log"
  shows "served k (vs @ [z]) (note_change (matching (z_origin z) (zc_zones c)) z log)"
proof (cases vs rule: rev_cases)
  case Nil
  have "matching (z_origin z) (zc_zones c) = None" "log k = None"
    using assms Nil by (auto simp: logged_def matching_def zone_key_def name_key_new_def)
  then show ?thesis using Nil by (simp add: note_change_def plan_change_def sv_first)
next
  case (snoc us old)
  have "matching (z_origin z) (zc_zones c) = Some old" "served k (us @ [old]) log"
    using assms snoc by (auto simp: logged_def matching_def zone_key_def name_key_new_def)
  then show ?thesis using sv_next [of k us old log z] assms(2) snoc by (simp add: zone_key_def name_key_new_def)
qed

lemma logged_install:
  assumes "logged k c vs"
  shows "logged k (install_zone z c) (history_of k (Installed z) vs)"
proof -
  let ?c = "install_zone z c"
  have log: "zc_log ?c = note_change (matching (z_origin z) (zc_zones c)) z (zc_log c)"
    by (simp add: install_zone_def install_commit_def install_plan_def note_change_def Let_def)
  have map: "map_of (zs_by_name (zc_zones ?c)) k = (if k = zone_key z then Some z else map_of (zs_by_name (zc_zones c)) k)"
    unfolding install_zone_def zones_after by (simp add: zones_insert_def AList.update_conv')
  show ?thesis
  proof (cases "zone_key z = k")
    case True
    then show ?thesis using note_at [OF assms True, of "zc_log c"] log map assms by (auto simp: logged_def)
  next
    case False
    then have "folded (z_origin z) \<noteq> k" by (simp add: zone_key_def name_key_new_def)
    then show ?thesis using note_other sv_other False log map assms by (auto simp: logged_def)
  qed
qed

lemma fold_forget: "fold log_forget ns log k = (if k \<in> folded ` set ns then None else log k)"
  by (induction ns arbitrary: log) (auto simp: log_forget_def)

lemma served_forgets: "served k vs log \<Longrightarrow> served k vs (fold log_forget ns log)"
  by (induction ns arbitrary: log) (auto intro: sv_forget)

lemma fold_records: "fold log_record (List.map_filter (\<lambda>(_, z). plan_change (f z) z) m) log = fold (\<lambda>(_, z). note_change (f z) z) m log"
  by (induction m arbitrary: log) (auto simp: map_filter_simps note_change_def split: option.splits)

lemma logged_reload:
  assumes l: "logged k c vs" and "zone_map_ok m" and ok: "zones_ok (zc_zones c)"
  shows "logged k (install_all_zones m c) (history_of k (Reloaded m) vs)"
proof -
  let ?c = "install_all_zones m c" and ?zs = "zc_zones c"
  let ?gone = "filter (\<lambda>k. map_of m k = None) (map fst (zs_by_name ?zs))" and ?log = "\<lambda>ns. fold log_forget ns (zc_log c)"
  have log: "zc_log ?c = note_all ?zs m (?log ?gone)"
    by (simp add: install_all_zones_def reload_commit_def reload_begin_def plan_reload_def Let_def fold_records)
  have map: "map_of (zs_by_name (zc_zones ?c)) k = map_of m k" unfolding install_all_zones_def zones_after by (simp add: replace_all_def)
  have keys: "folded j = j" if "j \<in> set ?gone" for j
    using that ok by (auto simp: zones_ok_def zone_map_ok_def zone_key_def name_key_new_def)
  have gone: "?log ?gone k = (if k \<in> set ?gone then None else zc_log c k)" unfolding fold_forget using keys by (auto simp: image_iff)
  have own: "zone_key z = j" if "(j, z) \<in> set m" for j z using that assms(2) by (auto simp: zone_map_ok_def)
  show ?thesis
  proof (cases "map_of m k")
    case None
    then have other: "\<forall>(_, z) \<in> set m. zone_key z \<noteq> k" using own by (force simp: map_of_eq_None_iff)
    have "k \<in> set ?gone \<or> zc_log c k = None"
      using l None map_of_SomeD [of "zs_by_name ?zs" k "last vs"] by (cases "vs = []") (force simp: logged_def image_iff)+
    then have "zc_log ?c k = None" using notes_other [OF other, of ?zs "?log ?gone"] gone log by auto
    then show ?thesis using None map by (simp add: logged_def)
  next
    case (Some z)
    then have mem: "(k, z) \<in> set m" by (rule map_of_SomeD)
    then obtain as bs where m: "m = as @ (k, z) # bs" by (meson split_list)
    then have d: "k \<notin> fst ` set as" "k \<notin> fst ` set bs" using assms(2) by (auto simp: zone_map_ok_def)
    then have other: "\<forall>(_, z) \<in> set as. zone_key z \<noteq> k" "\<forall>(_, z) \<in> set bs. zone_key z \<noteq> k"
      using own m by (auto simp: image_iff)
    have stays: "note_all ?zs as (?log ?gone) k = zc_log c k" "served k vs (zc_log c) \<longrightarrow> served k vs (note_all ?zs as (?log ?gone))"
      using notes_other [OF other(1), of ?zs "?log ?gone"] gone Some served_forgets by auto
    have "served k (vs @ [z]) (note_change (matching (z_origin z) ?zs) z (note_all ?zs as (?log ?gone)))"
      by (rule note_at [OF l own [OF mem] stays])
    then have "served k (vs @ [z]) (zc_log ?c)" using notes_other [OF other(2)] log m by simp
    then show ?thesis using Some map own [OF mem] l by (auto simp: logged_def)
  qed
qed

lemma logged_withdraw:
  assumes "logged k c vs"
  shows "logged k (snd (withdraw n c)) (history_of k (Withdrawn n) vs)"
proof (cases "map_of (zs_by_name (zc_zones c)) (folded n) = None")
  case True
  then have "withdraw n c = (False, c)" "folded n = k \<longrightarrow> vs = []"
    using assms by (auto simp: withdraw_def zones_remove_def logged_def split: if_splits)
  then show ?thesis using assms by auto
next
  case False
  then have "snd (withdraw n c) = c\<lparr>zc_zones := snd (zones_remove n (zc_zones c)), zc_log := log_forget n (zc_log c)\<rparr>"
    by (auto simp: withdraw_def zones_remove_def)
  moreover have "map_of (zs_by_name (snd (zones_remove n (zc_zones c)))) k = (if k = folded n then None else map_of (zs_by_name (zc_zones c)) k)"
    using False by (simp add: zones_remove_def AList.delete_conv')
  ultimately show ?thesis
    using assms sv_forget [of k vs "zc_log c" n] by (auto simp: logged_def log_forget_def split: if_splits)
qed

lemma serving_ok:
  assumes "zone_map_ok m" and "serving \<lparr>zc_zones = zones_new m, zc_log = delta_log_new\<rparr> es c ts"
  shows "zones_ok (zc_zones c) \<and> logged k c (versions k m es)"
  using assms(2)
proof induction
  case sg_start
  show ?case using zones_new_ok [OF assms(1)] zone_map_okD(1) [OF assms(1)]
    by (auto simp: logged_def versions_def zones_new_def delta_log_new_def zone_key_def name_key_new_def intro: sv_first split: option.splits)
next
  case (sg_install es c z p ts)
  have "task_ok (zc_zones c) (Installing z p)" using serving_tasks [OF sg_install.hyps] by simp
  then have "install_commit z p c = install_zone z c" "wf_name (z_origin z)" by (simp_all only: commit_at_once task_ok.simps)
  then show ?case using sg_install.IH logged_install [of k c "versions k m es" z] zones_insert_ok [of "zc_zones c" z]
    by (simp add: versions_def install_zone_def zones_after)
next
  case (sg_reload es c m' p ts)
  have "task_ok (zc_zones c) (Reloading m' p)" using serving_tasks [OF sg_reload.hyps] by simp
  then have "reload_commit m' p c = install_all_zones m' c" "zone_map_ok m'" by (simp_all only: commit_at_once task_ok.simps)
  then show ?case using sg_reload.IH logged_reload [of k c "versions k m es" m'] replace_all_ok [of m' "zc_zones c"]
    by (simp add: versions_def install_all_zones_def zones_after)
next
  case (sg_withdraw es c ts n)
  then show ?case using logged_withdraw [of k c _ n] zones_remove_ok [of "zc_zones c" n] by (simp add: versions_def zones_after)
qed auto

section \<open>A request answered\<close>

definition servable :: "zones \<Rightarrow> bool" where
  "servable zs \<longleftrightarrow> zones_ok zs \<and> (\<forall>z \<in> snd ` set (zs_by_name zs). zone_ok z \<and> (\<forall>r \<in> set (zone_recs z). data_writable (zr_rdata r)))"

lemma chosen:
  assumes "servable zs" and "wf_name n" and "for_query n zs = Some z"
  shows "zone_ok z" "in_zone z n" "r \<in> set (zone_recs z) \<Longrightarrow> data_writable (zr_rdata r)"
  using for_query_deepest(2) [OF _ assms(2,3)] assms(1) by (auto simp: servable_def speaks_for_def in_zone_def)

definition no_push :: "rw_call list \<Rightarrow> bool" where
  "no_push cs \<longleftrightarrow> (\<forall>s rr. Push s rr \<notin> set cs)"

lemma no_push_simps [simp]:
  "no_push []" "no_push (as @ bs) \<longleftrightarrow> no_push as \<and> no_push bs" "no_push (SetRcode rc # cs) = no_push cs" "no_push (SetAuthoritative b # cs) = no_push cs"
  "no_push (SetEdns e # cs) = no_push cs" "no_push (SetExtendedError x # cs) = no_push cs"
  by (auto simp: no_push_def)

lemma in_order_no_push: "no_push ds \<Longrightarrow> in_order k (cs @ ds) \<longleftrightarrow> in_order k cs"
proof (induction cs arbitrary: k)
  case Nil
  have "no_push ds \<Longrightarrow> in_order k ds"
  proof (induction ds)
    case (Cons d ds)
    then show ?case by (cases d) (auto simp: no_push_def)
  qed simp
  then show ?case using Nil by simp
next
  case (Cons c cs)
  then show ?case by (cases c) auto
qed

text \<open>A record is the chosen zone's.\<close>

definition spoken :: "zones \<Rightarrow> name \<Rightarrow> resource_record \<Rightarrow> bool" where
  "spoken zs n rr \<longleftrightarrow> (\<exists>z. for_query n zs = Some z \<and> (from_zone z rr \<or> from_dname z rr))"

definition calls_ok :: "zones \<Rightarrow> name \<Rightarrow> rw_call list \<Rightarrow> bool" where
  "calls_ok zs n cs \<longleftrightarrow> in_order 1 cs \<and> (\<forall>s rr. Push s rr \<in> set cs \<longrightarrow> spoken zs n rr \<and> data_writable (rr_data rr))"

lemma from_writable:
  assumes "servable zs" and "wf_name n" and "for_query n zs = Some z" and "wf_name (rr_name rr)" and "from_zone z rr \<or> from_dname z rr"
  shows "data_writable (rr_data rr)"
  using assms(5)
proof
  assume "from_zone z rr"
  then show ?thesis using chosen(3) [OF assms(1-3)] by (auto simp: from_zone_def)
next
  assume "from_dname z rr"
  then obtain r target to where d: "r \<in> set (zone_recs z)" "rdata_parse (zr_rdata r) = Inr (PDNAME target)"
    "dname_redirect (rr_name rr) (zr_name r) target = To to" "rr_data rr = \<lparr>rd_type = rt_CNAME, rd_bytes = to\<rparr>" by (auto simp: from_dname_def)
  have "wf_name (zr_name r)" using zone_okD(3) [OF chosen(1) [OF assms(1-3)]] d(1) by (auto simp: record_ok_def)
  then have "wf_name to" using dname_redirect_wf [OF assms(4) _ parsed_target_wf(2) [OF d(2)] d(3)] by simp
  then show ?thesis using storable_simple(4) [of to] d(4)
    by (auto simp: data_writable_def encode_simps wf_name_def intro!: exI [of _ "PCNAME to"])
qed

lemma block_calls:
  assumes "servable zs" and "wf_name n" and "for_query n zs = Some z" and "block z Answer as" and "block z Authority bs" and "block z Additional cs"
  shows "calls_ok zs n (as @ bs @ cs)"
proof -
  have "in_order 1 (as @ bs @ cs @ [])" using assms(4-6) by (intro in_order_block) auto
  moreover have "spoken zs n rr \<and> data_writable (rr_data rr)" if p: "Push s rr \<in> set (as @ bs @ cs)" for s rr
  proof -
    have "wf_name (rr_name rr) \<and> (from_zone z rr \<or> from_dname z rr)" using p assms(4-6) by (auto simp: block_def push_ok_def)
    then show ?thesis using from_writable [OF assms(1-3), of rr] assms(3) by (auto simp: spoken_def)
  qed
  ultimately show ?thesis unfolding calls_ok_def by simp
qed

lemma no_push_calls: "no_push cs \<Longrightarrow> calls_ok zs n cs"
  using in_order_no_push [of cs 1 "[]"] by (auto simp: calls_ok_def no_push_def)

lemma question_calls:
  assumes "servable zs" and "wf_name (qname q)"
  shows "calls_ok zs (qname q) (answer_question sha1 q zs d)"
proof (cases "for_query (qname q) zs")
  case None
  then show ?thesis by (auto simp: answer_question_def refuse_def intro: no_push_calls)
next
  case (Some z)
  note c = chosen(1,2) [OF assms Some]
  obtain as bs cs where "zone_answer sha1 z (qname q) (qtype q) d = as @ bs @ cs" "block z Answer as" "block z Authority bs" "block z Additional cs"
    by (rule zone_answer_shape [OF c(1) assms(2) c(2)])
  then have ans: "calls_ok zs (qname q) (zone_answer sha1 z (qname q) (qtype q) d)" using block_calls [OF assms Some] by simp
  have "pushes z Answer (map (\<lambda>soa. push_as Answer (z_origin z) (zr_ttl soa) soa) (zone_query (z_origin z) rt_SOA z))"
    using of_type_from(1) [OF c(1), of _ "z_origin z" rt_SOA] zone_okD(1) [OF c(1)] by (intro pushes_map) (auto simp: zone_query_of_type)
  then have "calls_ok zs (qname q) (map (\<lambda>soa. push_as Answer (z_origin z) (zr_ttl soa) soa) (zone_query (z_origin z) rt_SOA z))"
    using block_calls [OF assms Some pushes_block, of _ "[]" "[]"] by simp
  then show ?thesis using ans Some by (auto simp: answer_question_def refuse_def intro: no_push_calls)
qed

text \<open>The last call on a field of the header decides it.\<close>

lemma spec_rcode:
  "dm_rcode (sp_message (fold spec_do cs sp)) = rc \<Longrightarrow> SetRcode rc \<in> set cs \<or> (\<forall>rc. SetRcode rc \<notin> set cs) \<and> rc = dm_rcode (sp_message sp)"
proof (induction cs arbitrary: sp)
  case (Cons c cs)
  have push: "dm_rcode (spec_push s rr m) = dm_rcode m" for s rr m by (cases s) simp_all
  show ?case using Cons.prems Cons.IH [of "spec_do c sp"] by (cases c) (auto simp: push)
qed simp

lemma spec_authoritive:
  "dm_authoritive (sp_message (fold spec_do cs sp)) = b \<Longrightarrow>
    SetAuthoritative b \<in> set cs \<or> (\<forall>b. SetAuthoritative b \<notin> set cs) \<and> b = dm_authoritive (sp_message sp)"
proof (induction cs arbitrary: sp)
  case (Cons c cs)
  have push: "dm_authoritive (spec_push s rr m) = dm_authoritive m" for s rr m by (cases s) simp_all
  show ?case using Cons.prems Cons.IH [of "spec_do c sp"] by (cases c) (auto simp: push)
qed simp

lemma spec_records:
  "set (all_records (sp_message (fold spec_do cs sp))) = set (all_records (sp_message sp)) \<union> {rr. \<exists>s. Push s rr \<in> set cs}"
proof (induction cs arbitrary: sp)
  case (Cons c cs)
  have push: "set (all_records (spec_push s rr m)) = insert rr (set (all_records m))" for s rr m
    by (cases s) (auto simp: all_records_def)
  have "set (all_records (sp_message (spec_do c sp))) = set (all_records (sp_message sp)) \<union> {rr. \<exists>s. c = Push s rr}"
    by (cases c) (auto simp: push, auto simp: all_records_def)
  then show ?case using Cons.IH [of "spec_do c sp"] by auto
qed simp

lemma response_calls_sound:
  assumes "servable zs" and "list_all (\<lambda>q. wf_name (qname q)) (dm_queries msg)"
  shows "in_order 1 (response_calls sha1 msg zs server)" "list_all call_writable (response_calls sha1 msg zs server)"
    "Push s rr \<in> set (response_calls sha1 msg zs server) \<Longrightarrow> \<exists>q. dm_queries msg = [q] \<and> spoken zs (qname q) rr"
proof -
  have mir: "no_push (mirror_calls c server)" for c by (auto simp: mirror_calls_def no_push_def split: option.splits)
  have "in_order 1 (response_calls sha1 msg zs server) \<and>
    (\<forall>s rr. Push s rr \<in> set (response_calls sha1 msg zs server) \<longrightarrow> data_writable (rr_data rr) \<and> (\<exists>q. dm_queries msg = [q] \<and> spoken zs (qname q) rr))"
  proof (cases "\<exists>c q. client_edns_of msg = Inr c \<and> dm_opcode msg = Query \<and> dm_queries msg = [q]")
    case True
    then obtain c q where q: "client_edns_of msg = Inr c" "dm_opcode msg = Query" "dm_queries msg = [q]" by blast
    then have "calls_ok zs (qname q) (answer_question sha1 q zs (asks_do c))" using question_calls assms by simp
    then show ?thesis using q mir [of c] in_order_no_push [OF mir [of c]] by (auto simp: response_calls_def calls_ok_def no_push_def)
  next
    case False
    then have "no_push (response_calls sha1 msg zs server)"
      using mir by (auto simp: response_calls_def split: sum.splits list.splits)
    then show ?thesis using no_push_calls [of _ zs "[]"] by (auto simp: calls_ok_def no_push_def)
  qed
  then show "in_order 1 (response_calls sha1 msg zs server)" "list_all call_writable (response_calls sha1 msg zs server)"
    "Push s rr \<in> set (response_calls sha1 msg zs server) \<Longrightarrow> \<exists>q. dm_queries msg = [q] \<and> spoken zs (qname q) rr"
    by (auto simp: list_all_iff call_writable_def split: rw_call.splits)
qed

lemma question_rcode:
  assumes "servable zs" and "wf_name (qname q)" and "SetRcode rc \<in> set (answer_question sha1 q zs d)"
  shows "rc \<in> {FormatError, Refused, NoSuchDomain, DomainExistsForSomeReason, ServerFailure}"
proof (cases "for_query (qname q) zs")
  case None
  then show ?thesis using assms(3) by (auto simp: answer_question_def refuse_def split: if_splits)
next
  case (Some z)
  note c = chosen(1,2) [OF assms(1,2) Some]
  note h = zone_answer_header(1) [OF c(1) assms(2) c(2), of rc sha1 "qtype q" d] and ok = resolve_in_zone_ok [OF c(1) assms(2) c(2), of "qtype q"]
  have "rc \<in> {NoSuchDomain, DomainExistsForSomeReason, ServerFailure}" if "SetRcode rc \<in> set (zone_answer sha1 z (qname q) (qtype q) d)"
    using that h ok by (auto simp del: outcome_ok.simps dest!: stopped_rcode)
  then show ?thesis using assms(3) Some by (auto simp: answer_question_def refuse_def push_as_def split: if_splits)
qed

lemma spec_edns: "SetEdns e \<in> set cs \<or> dm_edns (sp_message sp) \<noteq> None \<Longrightarrow> dm_edns (sp_message (fold spec_do cs sp)) \<noteq> None"
proof (induction cs arbitrary: sp)
  case (Cons c cs)
  show ?case using Cons.prems Cons.IH [of "spec_do c sp"] by (cases c) auto
qed simp

text \<open>Every code a reply carries can be written: BADVERS, the one that needs an OPT, comes with one.\<close>

lemma response_rcode:
  fixes sha1 :: "bytes \<Rightarrow> bytes" and server :: server_opt
  assumes "servable zs" and "list_all (\<lambda>q. wf_name (qname q)) (dm_queries msg)"
  defines "m \<equiv> sp_message (fold spec_do (response_calls sha1 msg zs server) \<lparr>sp_message = reply_to msg, sp_error = None\<rparr>)"
  shows "is_ok (wire_rcode (dm_rcode m) (dm_edns m \<noteq> None))"
proof -
  let ?cs = "response_calls sha1 msg zs server"
  have mir: "SetRcode rc \<notin> set (mirror_calls c server)" for rc c by (auto simp: mirror_calls_def split: option.splits)
  have "dm_rcode m \<in> {RcOk, FormatError, NotImplemented, Refused, NoSuchDomain, DomainExistsForSomeReason, ServerFailure} \<or>
      dm_rcode m = BadOptVersion \<and> dm_edns m \<noteq> None"
  proof (cases "SetRcode (dm_rcode m) \<in> set ?cs")
    case False
    then have "dm_rcode m = RcOk" using spec_rcode [OF refl, of ?cs "\<lparr>sp_message = reply_to msg, sp_error = None\<rparr>"] by (auto simp: m_def reply_to_def)
    then show ?thesis by simp
  next
    case True
    show ?thesis
    proof (cases "client_edns_of msg")
      case (Inl rc)
      have "rc = FormatError \<or> rc = BadOptVersion" using Inl by (auto simp: client_edns_of_def split: sum.splits option.splits if_splits)
      moreover have "SetEdns (with_payload_size (so_payload_size server)) \<in> set ?cs" using Inl by (simp add: response_calls_def)
      ultimately show ?thesis using True Inl spec_edns [of _ ?cs] by (auto simp: response_calls_def m_def)
    next
      case (Inr c)
      then show ?thesis using True mir assms(2) question_rcode [OF assms(1), of _ "dm_rcode m" sha1 "asks_do c"]
        by (auto simp: response_calls_def split: if_splits list.splits)
    qed
  qed
  then show ?thesis by (auto simp: wire_rcode_def)
qed

section \<open>Properties\<close>

definition starting :: "zone_map \<Rightarrow> zone_context" where
  "starting m = \<lparr>zc_zones = zones_new m, zc_log = delta_log_new\<rparr>"

text \<open>
  C16. Installing a version plans under one lock and finishes under another, and so does a reload; yet
  in every interleaving of installs, reloads and withdrawals the zones and the log are those of doing
  them one at a time in the order they finished. Of each zone the server holds the last version
  installed since it was last withdrawn or left out of a reload, and its log is the steps between
  those versions, nothing of an earlier life of the zone.
\<close>

theorem serving_linearizable:
  assumes "zone_map_ok m" and "serving (starting m) es c ts"
  shows "c = fold at_once es (starting m) \<and>
    (\<forall>n. let vs = versions (folded n) m es in
      if vs = [] then matching n (zc_zones c) = None \<and> zc_log c (folded n) = None
      else matching n (zc_zones c) = Some (last vs) \<and> served (folded n) vs (zc_log c))"
  using serving_at_once [OF assms(2)] serving_ok [OF assms(1) assms(2) [unfolded starting_def]]
  by (auto simp: logged_def matching_def Let_def)

text \<open>
  C17. A secondary that asks a running server for changes ends with the version the server holds. The
  server has installed, reloaded and withdrawn zones in any interleaving; the versions of the zone
  since it was last not served have distinct serials (without that the claim is false: a version
  installed under the serial of the one before is missed), can be transferred, and have an SOA of at
  most 8192 octets; the secondary holds one of them, its records in any order and any case of their
  owners, and has room for the answer. Then an incremental answer from the server's log is taken in
  full, every deletion finds its record, and the secondary's zone has exactly the records of the
  server's.
\<close>

theorem served_changes_correct:
  assumes "zone_map_ok m" and "serving (starting m) es c ts" and "matching n (zc_zones c) = Some z"
    and "vs = versions (folded n) m es" and "\<forall>v \<in> set vs. version_ok v \<and> transferable v"
    and "distinct (map zone_serial vs)" and "v \<in> set vs"
    and "version_ok base" and "z_origin base = n" and "zone_content base = zone_content v"
    and "requested_serial request = zone_serial v" and "ixfr_answer request z (zc_log c) = Inr (Incremental ms steps records)"
    and "\<forall>v \<in> set vs. \<forall>soa. apex_soa_record v = Some soa \<longrightarrow> record_cost soa \<le> 8192"
    and "is_visit visit" and "rr_room (concat (map dm_answers ms)) base"
  shows "\<exists>z'. receive_changes visit ms base = Inr (OutUpdated z' steps 0) \<and> zone_ok z' \<and> z_origin z' = n \<and>
    zone_content z' = zone_content z"
proof -
  have l: "logged (folded n) c vs" using serving_ok [OF assms(1) assms(2) [unfolded starting_def]] assms(4) by simp
  then have s: "served (folded n) vs (zc_log c)" "z = last vs"
    using assms(3,7) by (auto simp: logged_def matching_def split: if_splits)
  have "\<forall>v \<in> set vs. version_ok v \<and> transferable v \<and> name_eq n (z_origin v)"
    using l assms(5) by (auto simp: logged_def name_eq_folded zone_key_def name_key_new_def)
  then show ?thesis using ixfr_transfer [OF s(1) _ assms(6-11) _ assms(13-15)] assms(12) s(2) by simp
qed

text \<open>
  C14. A request is answered with the message its content calls for, whenever its question and the OPT
  of the reply fit the limit, or 512 octets, and the reply fits a message at all. The octets read back
  as the reply, and are then within the limit unless the reply has neither records nor an OPT; or,
  where it does not fit, they read back as the reply without records and with TC set. The question is
  the request's, and every record in the reply comes from the zone chosen for the one question: none
  is sent for a malformed request or where no zone is held.
\<close>

theorem write_response_correct:
  assumes "servable zs" and "max_len \<le> 65535" and "length (dm_queries msg) \<le> 65535"
    and sp: "sp = fold spec_do (response_calls sha1 msg zs server) \<lparr>sp_message = reply_to msg, sp_error = None\<rparr>"
    and opt: "opt_to_write (dm_edns (sp_message sp)) (sp_error sp) = Inr opt"
    and sz: "question_size msg + opt_size opt \<le> max max_len 512"
    and m: "m = (sp_message sp)\<lparr>dm_edns := opt\<rparr>" and fits: "message_fits m"
  shows "(\<exists>bs m'. write_response sha1 scratch msg zs max_len server = Inr bs \<and> message_try_from_bytes bs = Inr m' \<and>
      (message_equiv m' m \<and> (length bs \<le> max_len \<or> all_records m = [] \<and> dm_edns m = None) \<or> message_equiv m' (truncated_message m))) \<and>
    dm_queries m = dm_queries msg \<and>
    (\<forall>rr \<in> set (all_records m). \<exists>q. dm_queries msg = [q] \<and> spoken zs (qname q) rr)"
proof -
  have q: "dm_queries m = dm_queries msg" by (simp add: m sp spec_queries reply_to_def)
  then have wf: "list_all (\<lambda>q. wf_name (qname q)) (dm_queries msg)" using message_fits_wf [OF fits] by (simp add: message_wf_def)
  note calls = response_calls_sound [OF assms(1) wf]
  have rc: "is_ok (wire_rcode (dm_rcode (sp_message sp)) (dm_edns (sp_message sp) \<noteq> None))"
    unfolding sp by (rule response_rcode [OF assms(1) wf])
  have e: "length (opt_rdata e) \<le> 65535" if "opt = Some e" for e using sz assms(2) that by (simp add: opt_size_def)
  obtain bs where bs: "write_reply scratch max_len msg (response_calls sha1 msg zs server) = Inr bs"
    using write_reply_succeeds [OF assms(2) wf assms(3) calls(1,2) sp rc opt e sz] by blast
  moreover have "\<exists>q. dm_queries msg = [q] \<and> spoken zs (qname q) rr" if r: "rr \<in> set (all_records m)" for rr
  proof -
    have "all_records m = all_records (sp_message sp)" "all_records (reply_to msg) = []" by (simp_all add: m all_records_def reply_to_def)
    then have "\<exists>s. Push s rr \<in> set (response_calls sha1 msg zs server)"
      using r spec_records [of "response_calls sha1 msg zs server" "\<lparr>sp_message = reply_to msg, sp_error = None\<rparr>", folded sp] by auto
    then show ?thesis using calls(3) by blast
  qed
  ultimately show ?thesis
    using write_reply_reads [OF bs assms(2) wf calls(1) sp opt m fits] q by (auto simp: write_response_def)
qed

text \<open>The code an outcome is answered with.\<close>

definition outcome_rcode :: "outcome \<Rightarrow> response_code" where
  "outcome_rcode r = (case r of ToNegative _ _ NotFound \<Rightarrow> NoSuchDomain | ToStopped _ rc \<Rightarrow> rc | _ \<Rightarrow> RcOk)"

text \<open>
  C15. An ordinary question is answered by the zone with the most labels among those the name is at or
  under: with its outcome's code, NXDOMAIN, YXDOMAIN or SERVFAIL where RFC 1034 and RFC 6672 have them
  and NOERROR otherwise, and with AA unless it is a referral. Where no zone is held above the name the
  answer is REFUSED, without AA and without records. The OPT mirrors the client's.
\<close>

theorem response_header:
  assumes "servable zs" and "client_edns_of msg = Inr c" and "dm_opcode msg = Query" and "dm_queries msg = [q]" and "wf_name (qname q)"
    and "qclass q \<in> {QC_IN, QC_Any}" and "qtype q \<notin> {AXFR_CODE, IXFR_CODE}"
    and "m = sp_message (fold spec_do (response_calls sha1 msg zs server) \<lparr>sp_message = reply_to msg, sp_error = None\<rparr>)"
  shows "(is_present c \<longrightarrow> dm_edns m = mirror c server) \<and>
    (if \<exists>z. speaks_for zs (qname q) z
     then \<exists>z. speaks_for zs (qname q) z \<and> (\<forall>y. speaks_for zs (qname q) y \<longrightarrow> label_count (z_origin y) \<le> label_count (z_origin z)) \<and>
       dm_rcode m = outcome_rcode (resolve_in_zone z (qname q) (qtype q)) \<and>
       (dm_authoritive m \<longleftrightarrow> \<not> (\<exists>c. resolve_in_zone z (qname q) (qtype q) = ToReferral c))
     else dm_rcode m = Refused \<and> \<not> dm_authoritive m \<and> all_records m = [])"
proof -
  let ?sp = "\<lparr>sp_message = reply_to msg, sp_error = None\<rparr>" and ?as = "answer_question sha1 q zs (asks_do c)"
  have ok: "zones_ok zs" using assms(1) by (simp add: servable_def)
  have calls: "response_calls sha1 msg zs server = SetAuthoritative True # ?as @ mirror_calls c server" using assms(2-4) by (simp add: response_calls_def)
  have mir: "SetRcode rc \<notin> set (mirror_calls c server)" "SetAuthoritative b \<notin> set (mirror_calls c server)" "Push s rr \<notin> set (mirror_calls c server)" for rc b s rr
    by (auto simp: mirror_calls_def split: option.splits)
  have rcode: "SetRcode (dm_rcode m) \<in> set ?as \<or> (\<forall>rc. SetRcode rc \<notin> set ?as) \<and> dm_rcode m = RcOk"
    using spec_rcode [OF assms(8) [symmetric, THEN arg_cong [of _ _ dm_rcode]]] mir unfolding calls by (auto simp: reply_to_def)
  have auth: "SetAuthoritative (dm_authoritive m) \<in> set ?as \<or> (\<forall>b. SetAuthoritative b \<notin> set ?as) \<and> dm_authoritive m"
    using spec_authoritive [OF refl, of "?as @ mirror_calls c server" "spec_do (SetAuthoritative True) ?sp"] mir(2) unfolding assms(8) calls by auto
  have edns: "is_present c \<longrightarrow> dm_edns m = mirror c server"
    unfolding assms(8) calls by (cases c) (simp_all add: mirror_calls_def mirror_def Let_def)
  show ?thesis
  proof (cases "for_query (qname q) zs")
    case None
    have none: "\<not> (\<exists>z. speaks_for zs (qname q) z)" using for_query_deepest(1) [OF ok assms(5)] None by simp
    have "?as = refuse NOT_OUR_ZONE" using None assms(6,7) by (auto simp: answer_question_def)
    then have "m = sp_message (fold spec_do (mirror_calls c server) \<lparr>sp_message = (reply_to msg)\<lparr>dm_authoritive := False, dm_rcode := Refused\<rparr>, sp_error = Some NOT_OUR_ZONE\<rparr>)"
      unfolding assms(8) calls by (simp add: refuse_def reply_to_def)
    then have "dm_rcode m = Refused \<and> \<not> dm_authoritive m \<and> all_records m = []"
      by (simp add: mirror_calls_def all_records_def reply_to_def split: option.splits)
    then show ?thesis using none edns by simp
  next
    case (Some z)
    note d = for_query_deepest(2) [OF ok assms(5) Some] and c = chosen(1,2) [OF assms(1,5) Some]
    let ?r = "resolve_in_zone z (qname q) (qtype q)"
    have as: "?as = zone_answer sha1 z (qname q) (qtype q) (asks_do c)" using Some assms(6,7) by (auto simp: answer_question_def)
    note h = zone_answer_header [OF c(1) assms(5) c(2), of _ sha1 "qtype q" "asks_do c", folded as]
    have "dm_rcode m = outcome_rcode ?r" using rcode h(1) by (auto simp: outcome_rcode_def split: outcome.splits NameKind.splits)
    moreover have "dm_authoritive m \<longleftrightarrow> \<not> (\<exists>c. ?r = ToReferral c)" using auth h(2) by blast
    ultimately show ?thesis using d edns by auto
  qed
qed

section \<open>A small server\<close>

text \<open>The server of \<^verbatim>\<open>x.\<close> alone.\<close>

lemma small_map: "small_names ns \<Longrightarrow> zone_map_ok [([1, 120, 0], small_version s ns)]" "small_names ns \<Longrightarrow> zone_key (small_version s ns) = [1, 120, 0]"
  using small_version_ok(2) [of ns s] wf_small(1) by (simp_all add: zone_map_ok_def zone_key_def name_key_new_def)

lemma small_wf: "small_names ns \<Longrightarrow> wf_name (z_origin (small_version s ns))"
  using small_version_ok(2) [of ns s] wf_small(1) by simp

theorem serving_linearizable_witness:
  "\<exists>c. serving (starting [([1, 120, 0], small_version 1 [])]) [Installed (small_version 2 [[1, 98, 1, 120, 0]]), Installed (small_version 3 [])] c {#} \<and>
    matching [1, 120, 0] (zc_zones c) = Some (small_version 3 []) \<and>
    served [1, 120, 0] [small_version 1 [], small_version 2 [[1, 98, 1, 120, 0]], small_version 3 []] (zc_log c)"
proof -
  have n: "small_names []" "small_names [[1, 98, 1, 120, 0]]" by (simp_all add: small_names_def)
  let ?v = "small_version 1 []" and ?w = "small_version 2 [[1, 98, 1, 120, 0]]" and ?x = "small_version 3 []" and ?m = "[([1, 120, 0], small_version 1 [])]"
  have "serving (starting ?m) [] (starting ?m) {#Installing ?w (install_plan ?w (zc_zones (starting ?m)))#}"
    by (rule sg_plan [OF sg_start small_wf [OF n(2)]])
  from sg_plan [OF this small_wf [OF n(1)]]
  have "serving (starting ?m) [] (starting ?m) (add_mset (Installing ?w (install_plan ?w (zc_zones (starting ?m)))) {#Installing ?x (install_plan ?x (zc_zones (starting ?m)))#})"
    by (simp add: add_mset_commute)
  then obtain c where c: "serving (starting ?m) [Installed ?w, Installed ?x] c {#}" using sg_install [OF sg_install] by fastforce
  have "versions (folded [1, 120, 0]) ?m [Installed ?w, Installed ?x] = [?v, ?w, ?x]"
    using small_map(2) [OF n(1)] small_map(2) [OF n(2)] by (simp add: versions_def)
  then show ?thesis using serving_linearizable [OF small_map(1) [OF n(1)] c] c by (auto simp: Let_def dest!: spec [of _ "[1, 120, 0]"])
qed

theorem served_changes_correct_witness:
  "\<exists>c ms z'. serving (starting [([1, 120, 0], small_version 1 [[1, 98, 1, 120, 0], [1, 99, 1, 120, 0]])])
      [Installed (small_version 2 [[1, 98, 1, 120, 0], [1, 99, 1, 120, 0], [1, 100, 1, 120, 0]])] c {#} \<and>
    receive_changes (\<lambda>bs. bs) ms (small_version 1 [[1, 98, 1, 120, 0], [1, 99, 1, 120, 0]]) = Inr (OutUpdated z' 1 0) \<and>
    zone_content z' = zone_content (small_version 2 [[1, 98, 1, 120, 0], [1, 99, 1, 120, 0], [1, 100, 1, 120, 0]])"
proof -
  let ?ns = "[[1, 98, 1, 120, 0], [1, 99, 1, 120, 0]] :: name list" and ?ms = "[[1, 98, 1, 120, 0], [1, 99, 1, 120, 0], [1, 100, 1, 120, 0]] :: name list"
  let ?v = "small_version 1 ?ns" and ?w = "small_version 2 ?ms" and ?m = "[([1, 120, 0], small_version 1 ?ns)]"
  have n: "small_names ?ns" "small_names ?ms" by (simp_all add: small_names_def)
  note s = small_ixfr
  let ?c = "install_zone ?w (starting ?m)"
  have "serving (starting ?m) [] (starting ?m) {#Installing ?w (install_plan ?w (zc_zones (starting ?m)))#}"
    by (rule sg_plan [OF sg_start small_wf [OF n(2)]])
  then have c: "serving (starting ?m) [Installed ?w] ?c {#}" using sg_install by (fastforce simp: install_zone_def)
  have key: "zone_key ?w = [1, 120, 0]" by (rule small_map(2) [OF n(2)])
  have vs: "[?v, ?w] = versions (folded [1, 120, 0]) ?m [Installed ?w]" using key by (simp add: versions_def)
  have "matching (z_origin ?w) (zc_zones (starting ?m)) = Some ?v" using s(2) by (simp add: matching_def starting_def zones_new_def)
  then have log: "zc_log ?c = note_change (Some ?v) ?w delta_log_new"
    by (simp add: install_zone_def install_commit_def install_plan_def note_change_def Let_def starting_def split: option.split)
  have held: "matching [1, 120, 0] (zc_zones ?c) = Some ?w"
    unfolding install_zone_def zones_after using key by (simp add: matching_def zones_insert_def AList.update_conv')
  obtain ms where ms: "ixfr_answer (changes_request 1) ?w (zc_log ?c) = Inr (Incremental ms 1 1)" "rr_room (concat (map dm_answers ms)) ?v"
    using s(1) unfolding log by blast
  have "requested_serial (changes_request 1) = zone_serial ?v" using s(3) changes_requested by simp
  moreover have "\<forall>x \<in> set [?v, ?w]. version_ok x \<and> transferable x" "distinct (map zone_serial [?v, ?w])"
    "\<forall>x \<in> set [?v, ?w]. \<forall>soa. apex_soa_record x = Some soa \<longrightarrow> record_cost soa \<le> 8192"
    "version_ok ?v" "z_origin ?v = [1, 120, 0]" "is_visit (\<lambda>bs. bs)" "?v \<in> set [?v, ?w]"
    using s(2-4) by (simp_all add: is_visit_def)
  ultimately obtain z' where "receive_changes (\<lambda>bs. bs) ms ?v = Inr (OutUpdated z' 1 0)" "zone_content z' = zone_content ?w"
    using served_changes_correct [OF small_map(1) [OF n(1)] c held vs _ _ _ _ _ refl _ ms(1) _ _ ms(2), of "\<lambda>bs. bs"] by blast
  then show ?thesis using c by blast
qed

text \<open>A request for \<^verbatim>\<open>c.x.\<close>, which is not there, and its reply.\<close>

definition small_query :: dns_message where
  "small_query = build 7 (with_query [1, 99, 1, 120, 0] rt_A builder_new)"

definition small_zones :: zones where
  "small_zones = zones_new [([1, 120, 0], small_version 1 [[1, 98, 1, 120, 0]])]"

definition small_denial_reply :: dns_message where
  "small_denial_reply = (reply_to small_query)\<lparr>dm_authoritive := True, dm_rcode := NoSuchDomain, dm_authorities := [rr_of (soa_record 1)]\<rparr>"

abbreviation small_server :: server_opt where
  "small_server \<equiv> \<lparr>so_payload_size = 1232, so_nsid = None\<rparr>"

lemma soa_writable: "data_writable (zr_rdata (soa_record s))" "data_fits (zr_rdata (soa_record s))"
proof -
  have root: "wf_name [0]" "label_count [0] = 0" using wf_name_wire_of [of "[]"] by (simp_all add: label_count_def)
  show "data_writable (zr_rdata (soa_record s))"
    using storable_simple(7) [OF root(1) root(1), of s 1 1 1 300]
    by (auto simp: data_writable_def encode_simps soa_record_def be32_def intro!: exI [of _ "PSOA [0] [0] s 1 1 1 300"])
  show "data_fits (zr_rdata (soa_record s))"
    using root soa_record_parse [of s] by (simp add: data_fits_def data_ok_def is_ok_def compressible_def soa_record_def)
qed

lemma small_servable: "servable small_zones" "for_query [1, 99, 1, 120, 0] small_zones = Some (small_version 1 [[1, 98, 1, 120, 0]])"
proof -
  have n: "small_names [[1, 98, 1, 120, 0]]" by (simp add: small_names_def)
  have "zones_ok small_zones" unfolding small_zones_def by (rule zones_new_ok [OF small_map(1) [OF n]])
  moreover have "data_writable (zr_rdata (a_record x))" for x by (simp add: data_writable_def a_record_def compressible_def one_name_def rtype_defs)
  moreover have "set (zone_recs (small_version 1 [[1, 98, 1, 120, 0]])) = {soa_record 1, a_record [1, 98, 1, 120, 0]}"
    using small_version_ok(4) [OF n, of 1] by (auto dest!: arg_cong [of "mset _" _ set_mset])
  ultimately show s: "servable small_zones"
    using small_denied(1) soa_writable by (simp add: servable_def small_zones_def zones_new_def)
  have "speaks_for small_zones [1, 99, 1, 120, 0] (small_version 1 [[1, 98, 1, 120, 0]])"
    using small_denied(3) by (simp add: speaks_for_def small_zones_def zones_new_def in_zone_def)
  then show "for_query [1, 99, 1, 120, 0] small_zones = Some (small_version 1 [[1, 98, 1, 120, 0]])"
    using for_query_deepest [OF _ small_denied(2), of small_zones] s
    by (cases "for_query [1, 99, 1, 120, 0] small_zones") (auto simp: servable_def speaks_for_def small_zones_def zones_new_def)
qed

lemma small_query_simps:
  "client_edns_of small_query = Inr EdnsAbsent" "dm_opcode small_query = Query" "dm_queries small_query = [\<lparr>qname = [1, 99, 1, 120, 0], qtype = rt_A, qclass = QC_IN\<rparr>]"
  by (simp_all add: small_query_def build_def with_query_def builder_new_def client_edns_of_def message_edns_header_def)

lemma small_response:
  "sp_message (fold spec_do (response_calls sha1 small_query small_zones small_server) \<lparr>sp_message = reply_to small_query, sp_error = None\<rparr>) = small_denial_reply"
  "sp_error (fold spec_do (response_calls sha1 small_query small_zones small_server) \<lparr>sp_message = reply_to small_query, sp_error = None\<rparr>) = None"
proof -
  have "response_calls sha1 small_query small_zones small_server = [SetAuthoritative True, SetRcode NoSuchDomain, Push Authority (rr_of (soa_record 1))]"
    using small_denial [of sha1] small_servable(2)
    by (simp add: response_calls_def small_query_simps answer_question_def mirror_calls_def mirror_def AXFR_CODE_def IXFR_CODE_def rtype_defs)
  then show "sp_message (fold spec_do (response_calls sha1 small_query small_zones small_server) \<lparr>sp_message = reply_to small_query, sp_error = None\<rparr>) = small_denial_reply"
    "sp_error (fold spec_do (response_calls sha1 small_query small_zones small_server) \<lparr>sp_message = reply_to small_query, sp_error = None\<rparr>) = None"
    by (simp_all add: small_denial_reply_def reply_to_def)
qed

lemma small_reply_fits: "message_fits small_denial_reply"
proof -
  have "label_count [1, 120, 0] \<le> 50" "label_count [1, 99, 1, 120, 0] \<le> 50" by (simp_all add: label_count_def)
  then show ?thesis
    using soa_writable(2) [of 1] wf_small(1) small_denied(2)
    by (simp add: message_fits_def small_denial_reply_def reply_to_def small_query_simps rr_fits_def name_fits_def rr_of_def soa_record_def
        opcode_ok_def rcode_ok_def query_class_ok_def opcode_from_u8_def rcode_from_u16_def query_class_from_u16_def)
qed

theorem write_response_correct_witness:
  "\<exists>bs m'. write_response (\<lambda>bs. bs) \<lparr>compressor = compressor_new, buf = []\<rparr> small_query small_zones 512 small_server = Inr bs \<and>
    message_try_from_bytes bs = Inr m' \<and> (message_equiv m' small_denial_reply \<or> message_equiv m' (truncated_message small_denial_reply))"
proof -
  have e: "small_denial_reply\<lparr>dm_edns := None\<rparr> = small_denial_reply" "dm_edns small_denial_reply = None" by (simp_all add: small_denial_reply_def reply_to_def)
  have "message_fits (small_denial_reply\<lparr>dm_edns := None\<rparr>)" unfolding e(1) by (rule small_reply_fits)
  from write_response_correct [OF small_servable(1) _ _ refl _ _ refl, of 512 small_query "\<lambda>bs. bs" small_server None
      "\<lparr>compressor = compressor_new, buf = []\<rparr>", unfolded small_response, OF _ _ _ _ this]
  show ?thesis unfolding e(1) using e(2) by (auto simp: opt_to_write_def small_query_simps question_size_def opt_size_def)
qed

theorem response_header_witness: "dm_rcode small_denial_reply = NoSuchDomain \<and> dm_authoritive small_denial_reply"
proof -
  have sp: "speaks_for small_zones [1, 99, 1, 120, 0] z \<longleftrightarrow> z = small_version 1 [[1, 98, 1, 120, 0]]" for z
    using small_denied(3) by (auto simp: speaks_for_def small_zones_def zones_new_def in_zone_def)
  show ?thesis
    using response_header [OF small_servable(1) small_query_simps, of small_denial_reply "\<lambda>bs. bs" small_server, unfolded small_response] small_denied(2,4)
    by (simp add: sp outcome_rcode_def AXFR_CODE_def IXFR_CODE_def rtype_defs)
qed

end
