(* ===== verification/Spec2Isabelle.thy ===== *)
theory Spec2Isabelle
  imports Padding Presentation NegativeCache Anchors DynUpdate Serving
begin

text \<open>
  A verification of rdns, a DNS server, resolver and client in Rust. The paths below are relative to
  the repository.

  \<^bold>\<open>The program.\<close> The crate \<^verbatim>\<open>rdns-core\<close> has the wire format: names, codes, records, EDNS, messages, and
  two writers of messages that share a name compressor. The crate \<^verbatim>\<open>rdns\<close> has what a server and a
  resolver keep: a zone in memory and the answers it gives, whole and incremental transfers with a log
  of changes, dynamic update, the caches of answers and of denials, and the trust anchors of RFC 5011.
  The daemon \<^verbatim>\<open>rdnsd\<close> holds many zones, replaces them while it serves, and answers requests from them.
  A request is read by the message parser; \<^verbatim>\<open>rdnsd/src/answer.rs\<close> picks the zone with the most labels
  at or above the name; \<^verbatim>\<open>rdns/src/zone_answer.rs\<close> decides what the zone says and drives the response
  writer, which cuts the reply at the client's limit. A new version of a zone comes from a reload, a
  transfer or an update; it is installed in two phases around the locks, and the difference to the
  version before is logged for the secondaries.

  \<^bold>\<open>The theories, and the code each models.\<close>
  \<^item> \<open>Prelude\<close>: machine types, \<^verbatim>\<open>error.rs\<close>, the reads of \<^verbatim>\<open>macros.rs\<close>, sequencing of fallible routines over a
    state that is left behind also on failure; shared lemmas. \<open>Labels\<close>: what a name is, a list of labels
    of 1 to 63 octets with at most 255 on the wire.
  \<^item> \<open>DName\<close> (\<^verbatim>\<open>dname.rs\<close>), \<open>Names\<close> (\<^verbatim>\<open>name.rs\<close>), \<open>Presentation\<close> (the text half of \<^verbatim>\<open>name.rs\<close>, \<^verbatim>\<open>text_names.rs\<close>),
    \<open>Codes\<close> (\<^verbatim>\<open>codes.rs\<close>, \<^verbatim>\<open>record_types.rs\<close>), \<open>Compression\<close> (\<^verbatim>\<open>compression.rs\<close>, \<^verbatim>\<open>folded_hash.rs\<close>), \<open>Records\<close>
    (\<^verbatim>\<open>record.rs\<close>, \<^verbatim>\<open>record_data.rs\<close>), \<open>EdnsOpt\<close> (\<^verbatim>\<open>edns.rs\<close>, \<^verbatim>\<open>ede.rs\<close>), \<open>Wire\<close> and \<open>Message\<close> (\<^verbatim>\<open>message.rs\<close>), \<open>Limits\<close>
    (its size bound), \<open>Response\<close> and \<open>Padding\<close> (\<^verbatim>\<open>response.rs\<close>, \<^verbatim>\<open>validation.rs\<close>), all of \<^verbatim>\<open>rdns-core/src\<close>.
  \<^item> \<open>Denial\<close> (\<^verbatim>\<open>rdns-present/src/denial_wire.rs\<close>): canonical order, type bitmaps, base32hex.
  \<^item> \<open>NameIndex\<close>, \<open>ZoneIndex\<close>, \<open>Zone\<close>, \<open>ZoneLookup\<close> (\<^verbatim>\<open>rdns/src/zone.rs\<close>): the open-addressed name index, how
    records are filed in it, the operations that change a zone, and the questions asked of one. A zone
    is a record of arenas, stored records, index, spills, denial chains and shortcuts, as in the code.
  \<^item> \<open>ZoneAnswer\<close> (\<^verbatim>\<open>rdns/src/zone_answer.rs\<close>, \<^verbatim>\<open>zone_answer/dnssec_answer.rs\<close>, the name hashes of
    \<^verbatim>\<open>dnssec_denial.rs\<close>): a reply is the list of calls made on the response writer.
  \<^item> \<open>Axfr\<close> (\<^verbatim>\<open>transfer.rs\<close>), \<open>Ixfr\<close> (\<^verbatim>\<open>ixfr.rs\<close>), \<open>Xfr\<close> (\<^verbatim>\<open>xfr.rs\<close>), \<open>DynUpdate\<close> (\<^verbatim>\<open>update.rs\<close>), of \<^verbatim>\<open>rdns/src\<close>.
  \<^item> \<open>Serving\<close> (\<^verbatim>\<open>rdnsd/src/zones.rs\<close>, \<^verbatim>\<open>replication.rs\<close>, \<^verbatim>\<open>answer.rs\<close>): the zones held, the two phases of an
    install and of a reload, withdrawal, and the reply to a request.
  \<^item> \<open>Eviction\<close> (\<^verbatim>\<open>deadline.rs\<close>, \<^verbatim>\<open>eviction.rs\<close>, \<^verbatim>\<open>name_keys.rs\<close>), \<open>AnswerCache\<close> (\<^verbatim>\<open>cache.rs\<close>), \<open>NegativeCache\<close>
    (\<^verbatim>\<open>negative_cache.rs\<close>), \<open>Anchors\<close> (\<^verbatim>\<open>rfc5011.rs\<close>, the keys and DS records of \<^verbatim>\<open>dnssec.rs\<close>).

  \<^bold>\<open>How the code is rendered.\<close> A struct is a record, an enum a datatype, a \<^verbatim>\<open>Result\<close> a sum with the error on
  the left, a panic or a \<^verbatim>\<open>None\<close> an option. A routine that writes into a buffer is a state passer whose
  state survives failure. Octets, codes, TTLs, serials and counts on the wire are words of their width;
  positions in buffers and arenas are naturals, with the checks against 2^32 or 65535 the code makes
  written out. Two widths are dropped because nothing reaches them: the generation of the zones held is
  a u64 that one install raises by one, and the counts of a difference are i64 over at most 2^32
  records. The lengths and child counts of the name index are naturals where the code has u32: a key has
  at most 255 octets, and a zone holds fewer than 2^32 records.

  \<^bold>\<open>Parameters.\<close> SHA-1 (\<open>sha1\<close>) and the digests of DS records (\<open>sha\<close>) are arguments, and so is the order
  in which a hash map is visited (\<open>visit\<close>, any permutation: \<open>is_visit\<close>), the clock (\<open>now\<close>) and the random
  id of a query. No theorem assumes a hash to be injective, but for C37, where the DS is said to match
  one key only.

  \<^bold>\<open>Interfaces.\<close> The locale \<open>section_codec\<close> (what a section of a message needs of its items) is interpreted
  for questions, records and additional records; \<open>bounded_store\<close> (a store that evicts before it grows)
  for both caches; \<open>comparison\<close> (a linear order given as a comparator) for octets and octet strings;
  \<open>optimistic\<close> (plan under a read lock, commit under a write lock if the generation is unchanged) for
  the zones held.

  \<^bold>\<open>What is shown.\<close>
  \<^item> The wire (C1 to C6, C33 to C36): a message that was written is read back, through compression; names
    are accepted exactly when well formed; the size bound is enough; a reply written as it is found is
    the message its calls describe or its truncated form; padding never passes the limit.
  \<^item> A zone (C7 to C9): after every history of changes its records, index, child counts and shortcuts
    agree; where a name lands and which cut or DNAME is above it are stated of the records alone.
  \<^item> Its answers (C10 to C13): the outcome of the walk over cuts, DNAMEs and CNAMEs in terms of the
    records, the provenance and order of every record sent, the hop bound, the negative TTLs.
  \<^item> The server (C14 to C17): replies read back as the zone's answer; every interleaving of installs,
    reloads and withdrawals is a sequential one; secondaries that follow the log reach the served zone.
  \<^item> Transfers and updates (C18 to C23, C38 to C40): whole and incremental transfers end with the same
    records; messages are packed to the target size; updates keep the rules of a zone and move its
    serial; prerequisites are RFC 2136's for names no wildcard answers.
  \<^item> Denial order (C24), the caches (C25 to C27, C31, C32) and the trust anchors (C28 to C30, C37): hits
    are the last answers stored and live; bounds hold after every run; anchors are earned by the history
    of observations, and a revocation lasts until the remove hold-down is over and no longer.

  \<^bold>\<open>Where the code falls short\<close>, as theorems or their side conditions show: a wildcard that exists only as an
  empty non-terminal is passed over in a zone with no record owned by a wildcard (C8, C10); names of
  more than 50 labels can be written so that they cannot be read (C1, C3); names with a zero octet in a
  label can share a sort key (C24); a revocation is forgotten with its key (C37); a lone SOA is taken
  as nothing changed (C38); an edit without a new serial is lost on secondaries (C39); wildcards answer
  prerequisites (C40).

  \<^bold>\<open>Termination.\<close> No definition uses fuel. The walk over aliases counts down from the code's own
  \<^verbatim>\<open>MAX_REDIRECTS\<close> (C12 shows what it does at the end of it); every other loop is structural or has a
  termination proof by the octets or records left.

  \<^bold>\<open>What is not modelled.\<close> The recursive resolver and its daemon, signing and the checking of signatures,
  TSIG, master files, response policy zones, catalogs, journals, notification, transports, configuration
  and control: input and output, third-party cryptography, or parts not yet reached. Metrics and logging
  only count. The texts of errors keep their fixed part.
\<close>

end
